(* ===== verification/Astro_Prelude.thy ===== *)
theory Astro_Prelude
  imports Main "HOL-Library.Word" "HOL-Library.List_Lexorder"
begin

text \<open>
  Shared vocabulary of the development: the machine types of the Rust code, the
  \<open>Result\<close> type with its early return, checked and saturating arithmetic, and the
  byte order conversions (\<open>to_le_bytes\<close>, \<open>from_le_bytes\<close>, \<open>from_be_bytes\<close>) of the
  standard library.

  A Rust array \<open>[u8; N]\<close> of a fixed width \<open>N\<close> is the \<open>8 * N\<close>-bit word whose
  big-endian bytes are the elements of the array. So \<open>Hash256\<close>, \<open>Address\<close> and
  \<open>ValidatorId\<close> are 256-bit words, the all-zero array is \<open>0\<close>, and the derived
  (lexicographic) \<open>Ord\<close> of the array is the order of the word; the lemma
  \<open>be_bytes_less_iff\<close> states that correspondence. A \<open>Vec<u8>\<close> is a list of bytes
  with the lexicographic order of lists.
\<close>

named_theorems result_simps \<open>equations and inversion rules of the early-return monad\<close>
named_theorems bytes_simps \<open>lengths and round trips of byte encodings\<close>

section \<open>Machine types\<close>

type_synonym byte = "8 word"
type_synonym u8 = "8 word"
type_synonym u16 = "16 word"
type_synonym u32 = "32 word"
type_synonym u64 = "64 word"
type_synonym u128 = "128 word"
type_synonym bytes32 = "256 word"
type_synonym bytes64 = "512 word"

text \<open>The index type \<open>usize\<close> of the 64-bit targets: a natural number below \<open>usize_limit\<close>.\<close>

definition usize_limit :: nat where
  "usize_limit = 2 ^ 64"

definition checked_add_usize :: "nat \<Rightarrow> nat \<Rightarrow> nat option" where
  "checked_add_usize a b = (if a + b < usize_limit then Some (a + b) else None)"

section \<open>Results and early return\<close>

text \<open>\<open>Result<T, E>\<close> is the sum type, the error on the left.\<close>

abbreviation Err :: "'e \<Rightarrow> 'e + 'a" where "Err \<equiv> Inl"
abbreviation Ok :: "'a \<Rightarrow> 'e + 'a" where "Ok \<equiv> Inr"

text \<open>The question mark operator: stop at the first error.\<close>

fun try_bind :: "'e + 'a \<Rightarrow> ('a \<Rightarrow> 'e + 'b) \<Rightarrow> 'e + 'b" where
  "try_bind (Inl e) f = Inl e"
| "try_bind (Inr x) f = f x"

fun map_err :: "('e \<Rightarrow> 'f) \<Rightarrow> 'e + 'a \<Rightarrow> 'f + 'a" where
  "map_err g (Inl e) = Inl (g e)"
| "map_err g (Inr x) = Inr x"

fun ok_or :: "'e \<Rightarrow> 'a option \<Rightarrow> 'e + 'a" where
  "ok_or e None = Inl e"
| "ok_or e (Some x) = Inr x"

definition guard_or :: "'e \<Rightarrow> bool \<Rightarrow> 'e + unit" where
  "guard_or e b = (if b then Inr () else Inl e)"

lemma try_bind_Ok [result_simps]:
  "try_bind m f = Inr y \<longleftrightarrow> (\<exists>x. m = Inr x \<and> f x = Inr y)"
  by (cases m) auto

lemma try_bind_Err [result_simps]:
  "try_bind m f = Inl e \<longleftrightarrow> m = Inl e \<or> (\<exists>x. m = Inr x \<and> f x = Inl e)"
  by (cases m) auto

lemma try_bind_split:
  "P (try_bind m f) \<longleftrightarrow> (\<forall>e. m = Inl e \<longrightarrow> P (Inl e)) \<and> (\<forall>x. m = Inr x \<longrightarrow> P (f x))"
  by (cases m) auto

lemma try_bind_cong [fundef_cong]:
  "m = m' \<Longrightarrow> (\<And>x. m' = Inr x \<Longrightarrow> f x = f' x) \<Longrightarrow> try_bind m f = try_bind m' f'"
  by (cases m') auto

lemma map_err_Ok [result_simps]: "map_err g m = Inr y \<longleftrightarrow> m = Inr y"
  by (cases m) auto

lemma map_err_Err [result_simps]: "map_err g m = Inl f \<longleftrightarrow> (\<exists>e. m = Inl e \<and> f = g e)"
  by (cases m) auto

lemma ok_or_Ok [result_simps]: "ok_or e m = Inr y \<longleftrightarrow> m = Some y"
  by (cases m) auto

lemma ok_or_Err [result_simps]: "ok_or e m = Inl f \<longleftrightarrow> m = None \<and> f = e"
  by (cases m) auto

lemma guard_or_Ok [result_simps]: "guard_or e b = Inr u \<longleftrightarrow> b"
  by (simp add: guard_or_def)

lemma guard_or_Err [result_simps]: "guard_or e b = Inl f \<longleftrightarrow> \<not> b \<and> f = e"
  by (auto simp: guard_or_def)

lemma guard_or_True [simp]: "guard_or e True = Inr ()"
  by (simp add: guard_or_def)

lemma guard_or_False [simp]: "guard_or e False = Inl e"
  by (simp add: guard_or_def)

section \<open>Checked and saturating arithmetic\<close>

definition checked_add :: "'a::len word \<Rightarrow> 'a word \<Rightarrow> 'a word option" where
  "checked_add a b = (if unat a + unat b < 2 ^ LENGTH('a) then Some (a + b) else None)"

definition checked_sub :: "'a::len word \<Rightarrow> 'a word \<Rightarrow> 'a word option" where
  "checked_sub a b = (if b \<le> a then Some (a - b) else None)"

definition checked_mul :: "'a::len word \<Rightarrow> 'a word \<Rightarrow> 'a word option" where
  "checked_mul a b = (if unat a * unat b < 2 ^ LENGTH('a) then Some (a * b) else None)"

definition saturating_add :: "'a::len word \<Rightarrow> 'a word \<Rightarrow> 'a word" where
  "saturating_add a b = (if unat a + unat b < 2 ^ LENGTH('a) then a + b else - 1)"

definition saturating_sub :: "'a::len word \<Rightarrow> 'a word \<Rightarrow> 'a word" where
  "saturating_sub a b = (if b \<le> a then a - b else 0)"

lemma checked_add_Some:
  "checked_add a b = Some c \<longleftrightarrow> c = a + b \<and> unat c = unat a + unat b"
  for a b c :: "'a::len word"
proof -
  have "unat (a + b) = unat a + unat b \<longleftrightarrow> unat a + unat b < 2 ^ LENGTH('a)"
    by (simp add: unat_add_lem)
  then show ?thesis by (auto simp: checked_add_def)
qed

lemma checked_add_None:
  "checked_add a b = None \<longleftrightarrow> 2 ^ LENGTH('a) \<le> unat a + unat b"
  for a b :: "'a::len word"
  by (auto simp: checked_add_def)

lemma checked_add_commute: "checked_add a b = checked_add b a"
  by (simp add: checked_add_def add.commute)

lemma checked_mul_Some:
  "checked_mul a b = Some c \<longleftrightarrow> c = a * b \<and> unat c = unat a * unat b"
  for a b c :: "'a::len word"
proof -
  have "unat (a * b) = unat a * unat b \<longleftrightarrow> unat a * unat b < 2 ^ LENGTH('a)"
    by (simp add: unat_mult_lem)
  then show ?thesis by (auto simp: checked_mul_def)
qed

lemma checked_sub_Some:
  "checked_sub a b = Some c \<longleftrightarrow> b \<le> a \<and> c = a - b"
  by (auto simp: checked_sub_def)

lemma unat_checked_sub: "checked_sub a b = Some c \<Longrightarrow> unat c = unat a - unat b"
  by (auto simp: checked_sub_Some unat_sub)

lemma unat_saturating_add:
  "unat (saturating_add a b) = min (unat a + unat b) (2 ^ LENGTH('a) - 1)"
  for a b :: "'a::len word"
proof (cases "unat a + unat b < 2 ^ LENGTH('a)")
  case True
  then have "unat (a + b) = unat a + unat b" by (simp add: unat_add_lem [symmetric])
  with True show ?thesis by (simp add: saturating_add_def)
next
  case False
  then have "2 ^ LENGTH('a) - 1 \<le> unat a + unat b" by simp
  then show ?thesis
    using False by (simp add: saturating_add_def unsigned_minus_1_eq_mask mask_eq_exp_minus_1)
qed

lemma checked_add_succ_less: "checked_add a 1 = Some b \<Longrightarrow> a < b"
  for a b :: "'a::len word"
  by (auto simp: checked_add_Some word_less_nat_alt)

section \<open>Byte order\<close>

fun le_nat :: "nat \<Rightarrow> nat \<Rightarrow> byte list" where
  "le_nat 0 k = []"
| "le_nat (Suc n) k = of_nat k # le_nat n (k div 256)"

fun nat_le :: "byte list \<Rightarrow> nat" where
  "nat_le [] = 0"
| "nat_le (b # bs) = unat b + 256 * nat_le bs"

definition le_bytes :: "'a::len word \<Rightarrow> byte list" where
  "le_bytes w = le_nat (LENGTH('a) div 8) (unat w)"

definition from_le_bytes :: "byte list \<Rightarrow> 'a::len word" where
  "from_le_bytes bs = of_nat (nat_le bs)"

definition be_bytes :: "'a::len word \<Rightarrow> byte list" where
  "be_bytes w = rev (le_bytes w)"

definition from_be_bytes :: "byte list \<Rightarrow> 'a::len word" where
  "from_be_bytes bs = from_le_bytes (rev bs)"

lemma length_le_nat [simp]: "length (le_nat n k) = n"
  by (induction n arbitrary: k) auto

lemma le_nat_numeral [simp]:
  "le_nat (numeral n) k = of_nat k # le_nat (pred_numeral n) (k div 256)"
  by (simp only: numeral_eq_Suc [of n] le_nat.simps)

lemma nat_le_le_nat: "nat_le (le_nat n k) = k mod 256 ^ n"
proof (induction n arbitrary: k)
  case 0
  then show ?case by simp
next
  case (Suc n)
  have "unat (of_nat k :: byte) = k mod 256"
    by (simp add: unat_of_nat)
  with Suc show ?case
    by (simp add: mod_mult2_eq)
qed

lemma nat_le_less: "nat_le bs < 256 ^ length bs"
proof (induction bs)
  case Nil
  then show ?case by simp
next
  case (Cons b bs)
  have "unat b < 256" using unsigned_less [of b, where ?'a = nat] by simp
  with Cons show ?case by simp
qed

lemma le_nat_nat_le: "le_nat (length bs) (nat_le bs) = bs"
proof (induction bs)
  case Nil
  then show ?case by simp
next
  case (Cons b bs)
  have b: "unat b < 256" using unsigned_less [of b, where ?'a = nat] by simp
  then have "(unat b + 256 * nat_le bs) div 256 = nat_le bs" by simp
  moreover have "(of_nat (unat b + 256 * nat_le bs) :: byte) = b"
    using b by (simp add: word_unat_eq_iff unat_of_nat del: of_nat_add of_nat_mult)
  ultimately show ?case using Cons by simp
qed

lemma length_le_bytes [simp, bytes_simps]: "length (le_bytes (w :: 'a::len word)) = LENGTH('a) div 8"
  by (simp add: le_bytes_def)

lemma length_be_bytes [simp, bytes_simps]: "length (be_bytes (w :: 'a::len word)) = LENGTH('a) div 8"
  by (simp add: be_bytes_def)

lemma pow256_div8: "8 dvd n \<Longrightarrow> (256 :: nat) ^ (n div 8) = 2 ^ n"
proof -
  assume "8 dvd n"
  then obtain k where "n = 8 * k" by (rule dvdE)
  then show ?thesis by (simp add: power_mult)
qed

lemma from_le_le_bytes [simp, bytes_simps]:
  "8 dvd LENGTH('a::len) \<Longrightarrow> from_le_bytes (le_bytes (w :: 'a word)) = w"
  by (simp add: from_le_bytes_def le_bytes_def nat_le_le_nat pow256_div8)

lemma le_from_le_bytes [bytes_simps]:
  assumes "8 * length bs = LENGTH('a::len)"
  shows "le_bytes (from_le_bytes bs :: 'a word) = bs"
proof -
  have "nat_le bs < 2 ^ LENGTH('a)"
    using nat_le_less [of bs] by (simp add: assms [symmetric] power_mult)
  then have "unat (of_nat (nat_le bs) :: 'a word) = nat_le bs"
    by (simp add: unat_of_nat)
  then show ?thesis
    by (simp add: le_bytes_def from_le_bytes_def assms [symmetric] le_nat_nat_le)
qed

lemma from_be_be_bytes [simp, bytes_simps]:
  "8 dvd LENGTH('a::len) \<Longrightarrow> from_be_bytes (be_bytes (w :: 'a word)) = w"
  by (simp add: from_be_bytes_def be_bytes_def)

lemma be_from_be_bytes [bytes_simps]:
  "8 * length bs = LENGTH('a::len) \<Longrightarrow> be_bytes (from_be_bytes bs :: 'a word) = bs"
  by (simp add: from_be_bytes_def be_bytes_def le_from_le_bytes)

lemma le_bytes_eq_iff [simp]:
  "8 dvd LENGTH('a::len) \<Longrightarrow> le_bytes (v :: 'a word) = le_bytes w \<longleftrightarrow> v = w"
  by (metis from_le_le_bytes)

lemma be_bytes_eq_iff [simp]:
  "8 dvd LENGTH('a::len) \<Longrightarrow> be_bytes (v :: 'a word) = be_bytes w \<longleftrightarrow> v = w"
  by (metis from_be_be_bytes)

lemma nat_le_append: "nat_le (xs @ ys) = nat_le xs + 256 ^ length xs * nat_le ys"
  by (induction xs) (simp_all add: algebra_simps)

lemma nat_le_rev_less_iff:
  "length xs = length ys \<Longrightarrow> nat_le (rev xs) < nat_le (rev ys) \<longleftrightarrow> xs < ys"
proof (induction xs ys rule: list_induct2)
  case Nil
  then show ?case by simp
next
  case (Cons x xs y ys)
  let ?n = "256 ^ length xs :: nat"
  have lx: "nat_le (rev xs) < ?n" and ly: "nat_le (rev ys) < ?n"
    using nat_le_less [of "rev xs"] nat_le_less [of "rev ys"] Cons.hyps by simp_all
  have strict: "p + ?n * a < q + ?n * b" if "a < b" "p < ?n" for a b p q :: nat
  proof -
    have "?n * Suc a \<le> ?n * b" using \<open>a < b\<close> by (intro mult_le_mono2) simp
    with \<open>p < ?n\<close> show ?thesis by simp
  qed
  show ?case
  proof (cases "unat x" "unat y" rule: linorder_cases)
    case less
    then show ?thesis
      using strict [OF less lx, of "nat_le (rev ys)"] Cons.hyps
      by (simp add: nat_le_append word_less_nat_alt)
  next
    case equal
    then have "x = y" by (simp add: word_unat_eq_iff)
    then show ?thesis using Cons by (simp add: nat_le_append)
  next
    case greater
    then have "\<not> x < y" and "x \<noteq> y" by (auto simp: word_less_nat_alt)
    then show ?thesis
      using strict [OF greater ly, of "nat_le (rev xs)"] Cons.hyps
      by (simp add: nat_le_append)
  qed
qed

text \<open>The derived order of a byte array is the order of the word that represents it.\<close>

lemma be_bytes_less_iff:
  "8 dvd LENGTH('a::len) \<Longrightarrow> be_bytes (v :: 'a word) < be_bytes w \<longleftrightarrow> v < w"
  using nat_le_rev_less_iff [of "be_bytes v" "be_bytes w"]
  by (simp add: be_bytes_def le_bytes_def nat_le_le_nat pow256_div8 word_less_nat_alt)

end
