(* ===== verification/Astro_Types.thy ===== *)
theory Astro_Types
  imports Astro_Prelude
begin

text \<open>
  The protocol types of the crate \<open>types\<close>: metered resources with their checked
  arithmetic, state keys, transactions, block headers, receipts, and the domain
  separated digest.

  The digest function \<open>Blake2s256\<close> comes from the third-party crate \<open>blake2\<close>; every
  definition that hashes takes it as its first argument, written \<open>blake2s\<close>.
\<close>

section \<open>Digests and domains (hash.rs, domain.rs)\<close>

type_synonym hash256 = bytes32
type_synonym address = bytes32
type_synonym validator_id = bytes32
type_synonym state_key = "byte list"

definition ascii :: "string \<Rightarrow> byte list" where
  "ascii s = map of_char s"

lemma length_ascii [simp]: "length (ascii s) = length s"
  by (simp add: ascii_def)

definition domain_preimage :: "byte list \<Rightarrow> byte list \<Rightarrow> byte list" where
  "domain_preimage label msg =
     ascii ''astrolune.v1.'' @ le_bytes (of_nat (length label) :: u64) @ label @ msg"

definition domain_hash :: "(byte list \<Rightarrow> hash256) \<Rightarrow> byte list \<Rightarrow> byte list \<Rightarrow> hash256" where
  "domain_hash blake2s label msg = blake2s (domain_preimage label msg)"

definition DOMAIN_TRANSACTION :: "byte list" where
  "DOMAIN_TRANSACTION = ascii ''astrolune.tx.v1''"
definition DOMAIN_TRANSACTION_ID :: "byte list" where
  "DOMAIN_TRANSACTION_ID = ascii ''astrolune.tx.id.v1''"
definition DOMAIN_ACCOUNT_ADDRESS :: "byte list" where
  "DOMAIN_ACCOUNT_ADDRESS = ascii ''astrolune.account.ed25519.v1''"
definition DOMAIN_BLOCK_HEADER :: "byte list" where
  "DOMAIN_BLOCK_HEADER = ascii ''astrolune.block.v1''"
definition DOMAIN_COMMITTEE :: "byte list" where
  "DOMAIN_COMMITTEE = ascii ''astrolune.committee.v1''"
definition DOMAIN_FINALITY :: "byte list" where
  "DOMAIN_FINALITY = ascii ''astrolune.finality.v1''"
definition DOMAIN_CONSENSUS_VOTE :: "byte list" where
  "DOMAIN_CONSENSUS_VOTE = ascii ''astrolune.vote.v1''"
definition DOMAIN_CONSENSUS_PROPOSAL :: "byte list" where
  "DOMAIN_CONSENSUS_PROPOSAL = ascii ''astrolune.proposal.v1''"
definition DOMAIN_STATE_ROOT :: "byte list" where
  "DOMAIN_STATE_ROOT = ascii ''astrolune.state.v1''"
definition DOMAIN_STATE_LEAF :: "byte list" where
  "DOMAIN_STATE_LEAF = ascii ''astrolune.state.leaf.v1''"
definition DOMAIN_STATE_NODE :: "byte list" where
  "DOMAIN_STATE_NODE = ascii ''astrolune.state.node.v1''"
definition DOMAIN_STATE_DIFF :: "byte list" where
  "DOMAIN_STATE_DIFF = ascii ''astrolune.state.diff.v1''"
definition DOMAIN_RECEIPT :: "byte list" where
  "DOMAIN_RECEIPT = ascii ''astrolune.receipt.v1''"

lemma domain_preimage_inject:
  assumes "length d < 2 ^ 64" and "length d' < 2 ^ 64"
  shows "domain_preimage d m = domain_preimage d' m' \<longleftrightarrow> d = d' \<and> m = m'"
proof
  assume eq: "domain_preimage d m = domain_preimage d' m'"
  then have "le_bytes (of_nat (length d) :: u64) = le_bytes (of_nat (length d') :: u64)"
    and tail: "d @ m = d' @ m'"
    by (simp_all add: domain_preimage_def)
  then have "(of_nat (length d) :: u64) = of_nat (length d')"
    by simp
  then have "unat (of_nat (length d) :: u64) = unat (of_nat (length d') :: u64)"
    by simp
  with assms have "length d = length d'"
    by (simp add: unat_of_nat)
  with tail show "d = d' \<and> m = m'" by simp
qed simp

section \<open>Resources (resources.rs)\<close>

record resources =
  compute :: u64
  memory :: u64
  io :: u64
  bandwidth :: u64

definition resources_zero :: resources where
  "resources_zero = \<lparr>compute = 0, memory = 0, io = 0, bandwidth = 0\<rparr>"

definition resources_is_zero :: "resources \<Rightarrow> bool" where
  "resources_is_zero r \<longleftrightarrow> compute r = 0 \<and> memory r = 0 \<and> io r = 0 \<and> bandwidth r = 0"

definition fits_in :: "resources \<Rightarrow> resources \<Rightarrow> bool" where
  "fits_in r s \<longleftrightarrow> compute r \<le> compute s \<and> memory r \<le> memory s
     \<and> io r \<le> io s \<and> bandwidth r \<le> bandwidth s"

definition resources_saturating_add :: "resources \<Rightarrow> resources \<Rightarrow> resources" where
  "resources_saturating_add r s =
     \<lparr>compute = saturating_add (compute r) (compute s),
      memory = saturating_add (memory r) (memory s),
      io = saturating_add (io r) (io s),
      bandwidth = saturating_add (bandwidth r) (bandwidth s)\<rparr>"

definition resources_checked_add :: "resources \<Rightarrow> resources \<Rightarrow> resources option" where
  "resources_checked_add r s =
     Option.bind (checked_add (compute r) (compute s)) (\<lambda>c.
     Option.bind (checked_add (memory r) (memory s)) (\<lambda>m.
     Option.bind (checked_add (io r) (io s)) (\<lambda>i.
     Option.bind (checked_add (bandwidth r) (bandwidth s)) (\<lambda>b.
     Some \<lparr>compute = c, memory = m, io = i, bandwidth = b\<rparr>))))"

definition resources_checked_mul :: "resources \<Rightarrow> u64 \<Rightarrow> resources option" where
  "resources_checked_mul r k =
     Option.bind (checked_mul (compute r) k) (\<lambda>c.
     Option.bind (checked_mul (memory r) k) (\<lambda>m.
     Option.bind (checked_mul (io r) k) (\<lambda>i.
     Option.bind (checked_mul (bandwidth r) k) (\<lambda>b.
     Some \<lparr>compute = c, memory = m, io = i, bandwidth = b\<rparr>))))"

definition checked_cost :: "resources \<Rightarrow> resources \<Rightarrow> u64 option" where
  "checked_cost r prices =
     Option.bind (checked_mul (compute r) (compute prices)) (\<lambda>c.
     Option.bind (Option.bind (checked_mul (memory r) (memory prices)) (\<lambda>m. checked_add c m)) (\<lambda>cm.
     Option.bind (Option.bind (checked_mul (io r) (io prices)) (\<lambda>i. checked_add cm i)) (\<lambda>cmi.
     Option.bind (checked_mul (bandwidth r) (bandwidth prices)) (\<lambda>b. checked_add cmi b))))"

definition resources_count :: "resources \<Rightarrow> u32" where
  "resources_count r = of_bool (compute r \<noteq> 0) + of_bool (memory r \<noteq> 0)
     + of_bool (io r \<noteq> 0) + of_bool (bandwidth r \<noteq> 0)"

text \<open>The exact cost over the natural numbers, the specification of \<^const>\<open>checked_cost\<close>.\<close>

definition exact_cost :: "resources \<Rightarrow> resources \<Rightarrow> nat" where
  "exact_cost r p = unat (compute r) * unat (compute p) + unat (memory r) * unat (memory p)
     + unat (io r) * unat (io p) + unat (bandwidth r) * unat (bandwidth p)"

lemma checked_cost_Some_iff:
  "checked_cost r p = Some c \<longleftrightarrow> unat c = exact_cost r p"
proof
  assume "checked_cost r p = Some c"
  then show "unat c = exact_cost r p"
    by (auto simp: checked_cost_def exact_cost_def bind_eq_Some_conv
        checked_add_Some checked_mul_Some)
next
  assume c: "unat c = exact_cost r p"
  have bound: "exact_cost r p < 2 ^ 64"
    using unsigned_less [of c, where ?'a = nat] by (simp add: c)
  have mul: "checked_mul a b = Some (a * b)" and "unat (a * b) = unat a * unat b"
    if "unat a * unat b < 2 ^ 64" for a b :: u64
    using that by (simp_all add: checked_mul_def flip: unat_mult_lem)
  have add: "checked_add a b = Some (a + b)" and "unat (a + b) = unat a + unat b"
    if "unat a + unat b < 2 ^ 64" for a b :: u64
    using that by (simp_all add: checked_add_def flip: unat_add_lem)
  note facts = this mul add \<open>\<And>b a. unat a * unat b < 2 ^ 64 \<Longrightarrow> unat (a * b) = unat a * unat b\<close>
  from bound have "checked_cost r p =
      Some (compute r * compute p + memory r * memory p + io r * io p + bandwidth r * bandwidth p)"
    and "unat (compute r * compute p + memory r * memory p + io r * io p + bandwidth r * bandwidth p)
      = exact_cost r p"
    by (simp_all add: checked_cost_def exact_cost_def facts)
  then show "checked_cost r p = Some c" using c by (simp add: word_unat_eq_iff)
qed

lemma resources_checked_add_Some:
  "resources_checked_add r s = Some t \<longleftrightarrow>
     checked_add (compute r) (compute s) = Some (compute t) \<and>
     checked_add (memory r) (memory s) = Some (memory t) \<and>
     checked_add (io r) (io s) = Some (io t) \<and>
     checked_add (bandwidth r) (bandwidth s) = Some (bandwidth t)"
  by (auto simp: resources_checked_add_def bind_eq_Some_conv)

lemma fits_in_refl [simp]: "fits_in r r"
  by (simp add: fits_in_def)

lemma fits_in_trans: "fits_in r s \<Longrightarrow> fits_in s t \<Longrightarrow> fits_in r t"
  by (auto simp: fits_in_def)

lemma fits_in_checked_add: "resources_checked_add r s = Some t \<Longrightarrow> fits_in r t \<and> fits_in s t"
  by (auto simp: resources_checked_add_Some checked_add_Some fits_in_def word_le_nat_alt)

section \<open>Accounts and transactions (account.rs, transaction.rs, state\_key.rs)\<close>

record account_state =
  acc_nonce :: u64
  acc_balance :: u64

definition STATE_KEY_MAX_LEN :: nat where
  "STATE_KEY_MAX_LEN = 256"

definition state_key_new :: "byte list \<Rightarrow> state_key option" where
  "state_key_new bs = (if length bs > STATE_KEY_MAX_LEN then None else Some bs)"

definition TRANSACTION_VERSION :: u32 where
  "TRANSACTION_VERSION = 1"

datatype transaction_lane = Payments | Contracts | System

definition lane_from_payload :: "byte list \<Rightarrow> transaction_lane" where
  "lane_from_payload payload =
     (if length payload = 0 then System
      else if length payload \<le> 128 then Payments else Contracts)"

record transaction =
  tx_version :: u32
  tx_expires_at :: u64
  tx_lane :: transaction_lane
  tx_resource_prices :: resources
  tx_chain_id :: u32
  tx_sender :: address
  tx_nonce :: u64
  tx_access_list :: "state_key list"
  tx_resource_limit :: resources
  tx_payload :: "byte list"
  tx_signature :: bytes64

section \<open>Blocks and receipts (block.rs)\<close>

record block_header =
  hdr_height :: u64
  hdr_parent :: hash256
  hdr_transactions_root :: hash256
  hdr_state_root :: hash256
  hdr_receipts_root :: hash256
  hdr_committee_root :: hash256
  hdr_capacity :: resources

definition encode_resources :: "resources \<Rightarrow> byte list" where
  "encode_resources r = le_bytes (compute r) @ le_bytes (memory r) @ le_bytes (io r)
     @ le_bytes (bandwidth r)"

definition header_canonical_bytes :: "block_header \<Rightarrow> byte list" where
  "header_canonical_bytes h =
     le_bytes (hdr_height h) @ be_bytes (hdr_parent h) @ be_bytes (hdr_transactions_root h)
     @ be_bytes (hdr_state_root h) @ be_bytes (hdr_receipts_root h)
     @ be_bytes (hdr_committee_root h) @ le_bytes (compute (hdr_capacity h))
     @ le_bytes (memory (hdr_capacity h)) @ le_bytes (io (hdr_capacity h))
     @ le_bytes (bandwidth (hdr_capacity h))"

definition header_compute_hash :: "(byte list \<Rightarrow> hash256) \<Rightarrow> block_header \<Rightarrow> hash256" where
  "header_compute_hash blake2s h = domain_hash blake2s DOMAIN_BLOCK_HEADER (header_canonical_bytes h)"

definition validate_parent :: "(byte list \<Rightarrow> hash256) \<Rightarrow> block_header \<Rightarrow> block_header \<Rightarrow> bool" where
  "validate_parent blake2s h parent \<longleftrightarrow>
     checked_add (hdr_height parent) 1 = Some (hdr_height h)
     \<and> hdr_parent h = header_compute_hash blake2s parent"

record block =
  blk_header :: block_header
  blk_transactions :: "transaction list"

record execution_receipt =
  rc_transaction :: hash256
  rc_succeeded :: bool
  rc_resources :: resources
  rc_output_root :: hash256

definition receipt_canonical_bytes :: "execution_receipt \<Rightarrow> byte list" where
  "receipt_canonical_bytes r =
     be_bytes (rc_transaction r) @ [of_bool (rc_succeeded r)]
     @ le_bytes (compute (rc_resources r)) @ le_bytes (memory (rc_resources r))
     @ le_bytes (io (rc_resources r)) @ le_bytes (bandwidth (rc_resources r))
     @ be_bytes (rc_output_root r)"

definition receipt_commitment :: "(byte list \<Rightarrow> hash256) \<Rightarrow> execution_receipt \<Rightarrow> hash256" where
  "receipt_commitment blake2s r = domain_hash blake2s DOMAIN_RECEIPT (receipt_canonical_bytes r)"

lemma length_header_canonical_bytes [simp]: "length (header_canonical_bytes h) = 200"
  by (simp add: header_canonical_bytes_def)

lemma length_receipt_canonical_bytes [simp]: "length (receipt_canonical_bytes r) = 97"
  by (simp add: receipt_canonical_bytes_def)

lemma length_encode_resources [simp]: "length (encode_resources r) = 32"
  by (simp add: encode_resources_def)

lemma header_canonical_bytes_inject [simp]:
  "header_canonical_bytes h = header_canonical_bytes h' \<longleftrightarrow> h = h'"
  by (auto simp: header_canonical_bytes_def)

end
