(* ===== verification/Astro_Codec.thy ===== *)
theory Astro_Codec
  imports Astro_Types
begin

text \<open>
  The crate \<open>codec\<close>: the bounded cursor \<open>Decoder\<close>, the primitive reads, the compact
  length prefix, and the canonical encoders and decoders of the protocol types.

  A panic of an encoder (a length above \<open>u32::MAX\<close>) is the value \<open>None\<close>. The locale
  \<open>wire_field\<close> is what a reader promises at a position of the input, and
  \<open>wire_format\<close> is what a whole-message codec promises: decoding accepts exactly the
  canonical bytes of valid values. Both are interpreted on the model's definitions,
  and the uniqueness of the representation is proved once inside \<open>wire_format\<close>.
\<close>

section \<open>Errors and the cursor (error.rs, decoder.rs)\<close>

datatype decode_error =
  Truncated | LengthOverflow | LimitExceeded | NonCanonical | Unsupported | TrailingBytes

record decoder =
  dec_bytes :: "byte list"
  dec_position :: nat

definition decoder_new :: "byte list \<Rightarrow> decoder" where
  "decoder_new bs = \<lparr>dec_bytes = bs, dec_position = 0\<rparr>"

definition remaining :: "decoder \<Rightarrow> nat" where
  "remaining d = length (dec_bytes d) - dec_position d"

definition read_exact :: "nat \<Rightarrow> decoder \<Rightarrow> decode_error + byte list \<times> decoder" where
  "read_exact n d =
     (case checked_add_usize (dec_position d) n of
        None \<Rightarrow> Err LengthOverflow
      | Some end_pos \<Rightarrow>
          if end_pos \<le> length (dec_bytes d)
          then Ok (take n (drop (dec_position d) (dec_bytes d)), d\<lparr>dec_position := end_pos\<rparr>)
          else Err Truncated)"

definition read_fixed :: "decoder \<Rightarrow> decode_error + 'a::len word \<times> decoder" where
  "read_fixed d = try_bind (read_exact (LENGTH('a) div 8) d) (\<lambda>(bs, d). Ok (from_be_bytes bs, d))"

definition read_le :: "decoder \<Rightarrow> decode_error + 'a::len word \<times> decoder" where
  "read_le d = try_bind (read_exact (LENGTH('a) div 8) d) (\<lambda>(bs, d). Ok (from_le_bytes bs, d))"

definition read_u8 :: "decoder \<Rightarrow> decode_error + u8 \<times> decoder" where
  "read_u8 d = try_bind (read_exact 1 d) (\<lambda>(bs, d). Ok (bs ! 0, d))"

definition read_u16 :: "decoder \<Rightarrow> decode_error + u16 \<times> decoder" where
  "read_u16 d = read_le d"

definition read_u32 :: "decoder \<Rightarrow> decode_error + u32 \<times> decoder" where
  "read_u32 d = read_le d"

definition read_u64 :: "decoder \<Rightarrow> decode_error + u64 \<times> decoder" where
  "read_u64 d = read_le d"

definition finish :: "decoder \<Rightarrow> decode_error + unit" where
  "finish d = (if remaining d = 0 then Ok () else Err TrailingBytes)"

section \<open>Views of the cursor\<close>

text \<open>
  \<open>rest d\<close> is the unread input; \<open>dec_at pre post\<close> is the cursor between \<open>pre\<close> and
  \<open>post\<close>. Soundness of a reader is stated on \<open>rest\<close>, completeness on \<open>dec_at\<close>.
\<close>

definition rest :: "decoder \<Rightarrow> byte list" where
  "rest d = drop (dec_position d) (dec_bytes d)"

definition dec_at :: "byte list \<Rightarrow> byte list \<Rightarrow> decoder" where
  "dec_at pre post = \<lparr>dec_bytes = pre @ post, dec_position = length pre\<rparr>"

lemma rest_new [simp]: "rest (decoder_new bs) = bs"
  by (simp add: rest_def decoder_new_def)

lemma rest_dec_at [simp]: "rest (dec_at pre post) = post"
  by (simp add: rest_def dec_at_def)

lemma decoder_new_dec_at: "decoder_new bs = dec_at [] bs"
  by (simp add: decoder_new_def dec_at_def)

lemma remaining_rest: "remaining d = length (rest d)"
  by (simp add: remaining_def rest_def)

lemma finish_Ok: "finish d = Ok u \<longleftrightarrow> rest d = []"
  by (simp add: finish_def remaining_rest)

lemma finish_Err: "finish d = Err e \<longleftrightarrow> rest d \<noteq> [] \<and> e = TrailingBytes"
  by (auto simp: finish_def remaining_rest)

lemma finish_dec_at [simp]: "finish (dec_at pre []) = Ok ()"
  by (simp add: finish_Ok)

lemma read_exact_sound:
  "read_exact n d = Ok (v, d') \<Longrightarrow> length v = n \<and> rest d = v @ rest d'"
  by (auto simp: read_exact_def checked_add_usize_def rest_def add.commute
      simp flip: drop_drop split: if_splits)

lemma read_exact_at [simp]:
  "length v = n \<Longrightarrow> length pre + length v < usize_limit \<Longrightarrow>
   read_exact n (dec_at pre (v @ post)) = Ok (v, dec_at (pre @ v) post)"
  by (simp add: read_exact_def checked_add_usize_def dec_at_def)

lemma read_exact_short:
  "length pre + n < usize_limit \<Longrightarrow> length post < n \<Longrightarrow>
   read_exact n (dec_at pre post) = Err Truncated"
  by (simp add: read_exact_def checked_add_usize_def dec_at_def)

lemma read_le_sound:
  "read_le d = Ok (w :: 'a::len word, d') \<Longrightarrow> 8 dvd LENGTH('a) \<Longrightarrow> rest d = le_bytes w @ rest d'"
  by (auto simp: read_le_def result_simps le_from_le_bytes dest!: read_exact_sound)

lemma read_le_at:
  "8 dvd LENGTH('a) \<Longrightarrow> length pre + LENGTH('a) div 8 < usize_limit \<Longrightarrow>
   read_le (dec_at pre (le_bytes (w :: 'a::len word) @ post)) = Ok (w, dec_at (pre @ le_bytes w) post)"
  by (simp add: read_le_def)

lemma read_fixed_sound:
  "read_fixed d = Ok (w :: 'a::len word, d') \<Longrightarrow> 8 dvd LENGTH('a) \<Longrightarrow> rest d = be_bytes w @ rest d'"
  by (auto simp: read_fixed_def result_simps be_from_be_bytes dest!: read_exact_sound)

lemma read_fixed_at [simp]:
  "8 dvd LENGTH('a) \<Longrightarrow> length pre + LENGTH('a) div 8 < usize_limit \<Longrightarrow>
   read_fixed (dec_at pre (be_bytes (w :: 'a::len word) @ post)) = Ok (w, dec_at (pre @ be_bytes w) post)"
  by (simp add: read_fixed_def)

lemma read_u8_sound: "read_u8 d = Ok (b, d') \<Longrightarrow> rest d = b # rest d'"
  by (auto simp: read_u8_def result_simps length_Suc_conv dest!: read_exact_sound)

lemma read_u8_at [simp]:
  "length pre + 1 < usize_limit \<Longrightarrow> read_u8 (dec_at pre (b # post)) = Ok (b, dec_at (pre @ [b]) post)"
  using read_exact_at [of "[b]" 1 pre post] by (simp add: read_u8_def)

lemma read_u16_sound: "read_u16 d = Ok (w, d') \<Longrightarrow> rest d = le_bytes w @ rest d'"
  by (simp add: read_u16_def read_le_sound)

lemma read_u32_sound: "read_u32 d = Ok (w, d') \<Longrightarrow> rest d = le_bytes w @ rest d'"
  by (simp add: read_u32_def read_le_sound)

lemma read_u64_sound: "read_u64 d = Ok (w, d') \<Longrightarrow> rest d = le_bytes w @ rest d'"
  by (simp add: read_u64_def read_le_sound)

lemma read_u16_at [simp]:
  "length pre + 2 < usize_limit \<Longrightarrow>
   read_u16 (dec_at pre (le_bytes w @ post)) = Ok (w, dec_at (pre @ le_bytes w) post)"
  by (simp add: read_u16_def read_le_at)

lemma read_u32_at [simp]:
  "length pre + 4 < usize_limit \<Longrightarrow>
   read_u32 (dec_at pre (le_bytes w @ post)) = Ok (w, dec_at (pre @ le_bytes w) post)"
  by (simp add: read_u32_def read_le_at)

lemma read_u64_at [simp]:
  "length pre + 8 < usize_limit \<Longrightarrow>
   read_u64 (dec_at pre (le_bytes w @ post)) = Ok (w, dec_at (pre @ le_bytes w) post)"
  by (simp add: read_u64_def read_le_at)

text \<open>The same equations for the last field of a message.\<close>

lemma read_exact_end [simp]:
  "length v = n \<Longrightarrow> length pre + length v < usize_limit \<Longrightarrow>
   read_exact n (dec_at pre v) = Ok (v, dec_at (pre @ v) [])"
  using read_exact_at [of v n pre "[]"] by simp

lemma read_u16_end [simp]:
  "length pre + 2 < usize_limit \<Longrightarrow>
   read_u16 (dec_at pre (le_bytes w)) = Ok (w, dec_at (pre @ le_bytes w) [])"
  using read_u16_at [of pre w "[]"] by simp

lemma read_u32_end [simp]:
  "length pre + 4 < usize_limit \<Longrightarrow>
   read_u32 (dec_at pre (le_bytes w)) = Ok (w, dec_at (pre @ le_bytes w) [])"
  using read_u32_at [of pre w "[]"] by simp

lemma read_u64_end [simp]:
  "length pre + 8 < usize_limit \<Longrightarrow>
   read_u64 (dec_at pre (le_bytes w)) = Ok (w, dec_at (pre @ le_bytes w) [])"
  using read_u64_at [of pre w "[]"] by simp

lemma read_fixed_end [simp]:
  "8 dvd LENGTH('a) \<Longrightarrow> length pre + LENGTH('a) div 8 < usize_limit \<Longrightarrow>
   read_fixed (dec_at pre (be_bytes (w :: 'a::len word))) = Ok (w, dec_at (pre @ be_bytes w) [])"
  using read_fixed_at [of pre w "[]"] by simp

lemma read_fixed32_sound: "read_fixed d = Ok (w :: bytes32, d') \<Longrightarrow> rest d = be_bytes w @ rest d'"
  by (simp add: read_fixed_sound)

lemma read_fixed64_sound: "read_fixed d = Ok (w :: bytes64, d') \<Longrightarrow> rest d = be_bytes w @ rest d'"
  by (simp add: read_fixed_sound)

lemmas read_sound = read_u8_sound read_u16_sound read_u32_sound read_u64_sound
  read_fixed32_sound read_fixed64_sound

section \<open>What readers and codecs promise\<close>

locale wire_field =
  fixes enc :: "'a \<Rightarrow> byte list option"
    and rd :: "decoder \<Rightarrow> decode_error + 'a \<times> decoder"
    and valid :: "'a \<Rightarrow> bool"
  assumes rd_sound:
      "rd d = Ok (x, d') \<Longrightarrow> valid x \<and> (\<exists>bs. enc x = Some bs \<and> rest d = bs @ rest d')"
    and rd_complete:
      "valid x \<Longrightarrow> enc x = Some bs \<Longrightarrow> length pre + length bs < usize_limit \<Longrightarrow>
       rd (dec_at pre (bs @ post)) = Ok (x, dec_at (pre @ bs) post)"
begin

text \<open>Reading one field and requiring the end of the input is a whole-message codec.\<close>

lemma read_all_iff:
  assumes "length bs < usize_limit"
  shows "try_bind (rd (decoder_new bs)) (\<lambda>(x, d). try_bind (finish d) (\<lambda>_. Ok x)) = Ok x
    \<longleftrightarrow> valid x \<and> enc x = Some bs"
proof
  assume "try_bind (rd (decoder_new bs)) (\<lambda>(x, d). try_bind (finish d) (\<lambda>_. Ok x)) = Ok x"
  then show "valid x \<and> enc x = Some bs"
    by (auto simp: result_simps finish_Ok dest!: rd_sound)
next
  assume "valid x \<and> enc x = Some bs"
  with assms rd_complete [of x bs "[]" "[]"]
  show "try_bind (rd (decoder_new bs)) (\<lambda>(x, d). try_bind (finish d) (\<lambda>_. Ok x)) = Ok x"
    by (simp add: decoder_new_dec_at)
qed

end

locale wire_format =
  fixes enc :: "'a \<Rightarrow> byte list option"
    and dec :: "byte list \<Rightarrow> decode_error + 'a"
    and valid :: "'a \<Rightarrow> bool"
  assumes dec_iff: "length bs < usize_limit \<Longrightarrow> dec bs = Ok x \<longleftrightarrow> valid x \<and> enc x = Some bs"
    and enc_bounded: "valid x \<Longrightarrow> \<exists>bs. enc x = Some bs \<and> length bs < usize_limit"
begin

lemma roundtrip:
  assumes "valid x"
  shows "\<exists>bs. enc x = Some bs \<and> dec bs = Ok x"
  using enc_bounded [OF assms] assms dec_iff by blast

lemma canonical:
  assumes "length bs < usize_limit" and "dec bs = Ok x"
  shows "enc x = Some bs"
  using assms dec_iff by blast

lemma unique_representation:
  assumes "length bs < usize_limit" "length cs < usize_limit"
    and "dec bs = Ok x" and "dec cs = Ok x"
  shows "bs = cs"
  using canonical assms by (metis option.inject)

lemma enc_injective:
  assumes "valid x" "valid y" and "enc x = enc y"
  shows "x = y"
proof -
  obtain bs where bs: "enc x = Some bs" "length bs < usize_limit"
    using enc_bounded [OF assms(1)] by blast
  then have "dec bs = Ok x" and "dec bs = Ok y"
    using assms dec_iff [of bs] by auto
  then show ?thesis by simp
qed

end

section \<open>Primitive values (primitives.rs)\<close>

definition encode_u8 :: "u8 \<Rightarrow> byte list" where "encode_u8 x = [x]"
definition encode_u16 :: "u16 \<Rightarrow> byte list" where "encode_u16 x = le_bytes x"
definition encode_u32 :: "u32 \<Rightarrow> byte list" where "encode_u32 x = le_bytes x"
definition encode_u64 :: "u64 \<Rightarrow> byte list" where "encode_u64 x = le_bytes x"
definition encode_bool :: "bool \<Rightarrow> byte list" where "encode_bool b = [of_bool b]"
definition encode_array :: "'a::len word \<Rightarrow> byte list" where "encode_array x = be_bytes x"

definition decode_u8 :: "byte list \<Rightarrow> decode_error + u8" where
  "decode_u8 bs = try_bind (read_u8 (decoder_new bs)) (\<lambda>(x, d). try_bind (finish d) (\<lambda>_. Ok x))"

definition decode_u16 :: "byte list \<Rightarrow> decode_error + u16" where
  "decode_u16 bs = try_bind (read_u16 (decoder_new bs)) (\<lambda>(x, d). try_bind (finish d) (\<lambda>_. Ok x))"

definition decode_u32 :: "byte list \<Rightarrow> decode_error + u32" where
  "decode_u32 bs = try_bind (read_u32 (decoder_new bs)) (\<lambda>(x, d). try_bind (finish d) (\<lambda>_. Ok x))"

definition decode_u64 :: "byte list \<Rightarrow> decode_error + u64" where
  "decode_u64 bs = try_bind (read_u64 (decoder_new bs)) (\<lambda>(x, d). try_bind (finish d) (\<lambda>_. Ok x))"

definition decode_bool :: "byte list \<Rightarrow> decode_error + bool" where
  "decode_bool bs = try_bind (read_u8 (decoder_new bs)) (\<lambda>(x, d). try_bind (finish d) (\<lambda>_.
     if x = 0 then Ok False else if x = 1 then Ok True else Err NonCanonical))"

definition decode_array :: "byte list \<Rightarrow> decode_error + 'a::len word" where
  "decode_array bs =
     try_bind (read_fixed (decoder_new bs)) (\<lambda>(x, d). try_bind (finish d) (\<lambda>_. Ok x))"

interpretation u8_field: wire_field "Some \<circ> encode_u8" read_u8 "\<lambda>_. True"
  by unfold_locales (auto simp: encode_u8_def dest: read_sound)

interpretation u16_field: wire_field "Some \<circ> encode_u16" read_u16 "\<lambda>_. True"
  by unfold_locales (auto simp: encode_u16_def dest: read_sound)

interpretation u32_field: wire_field "Some \<circ> encode_u32" read_u32 "\<lambda>_. True"
  by unfold_locales (auto simp: encode_u32_def dest: read_sound)

interpretation u64_field: wire_field "Some \<circ> encode_u64" read_u64 "\<lambda>_. True"
  by unfold_locales (auto simp: encode_u64_def dest: read_sound)

interpretation bytes32_field:
  wire_field "Some \<circ> encode_array" "read_fixed :: _ \<Rightarrow> _ + bytes32 \<times> _" "\<lambda>_. True"
  by unfold_locales (auto simp: encode_array_def dest: read_sound)

interpretation bytes64_field:
  wire_field "Some \<circ> encode_array" "read_fixed :: _ \<Rightarrow> _ + bytes64 \<times> _" "\<lambda>_. True"
  by unfold_locales (auto simp: encode_array_def dest: read_sound)

interpretation u64_format: wire_format "Some \<circ> encode_u64" decode_u64 "\<lambda>_. True"
  by unfold_locales
    (auto simp: decode_u64_def u64_field.read_all_iff encode_u64_def usize_limit_def)

interpretation bool_format: wire_format "Some \<circ> encode_bool" decode_bool "\<lambda>_. True"
proof unfold_locales
  fix bs :: "byte list" and x
  assume "length bs < usize_limit"
  have "decode_bool bs = Ok x \<longleftrightarrow> (\<exists>b. decode_u8 bs = Ok b \<and> b = of_bool x)"
    by (cases x) (auto simp: decode_bool_def decode_u8_def result_simps intro!: exI [of _ 0] split: if_splits)
  also have "\<dots> \<longleftrightarrow> bs = [of_bool x]"
    using u8_field.read_all_iff [OF \<open>length bs < usize_limit\<close>]
    by (auto simp: decode_u8_def encode_u8_def)
  finally show "decode_bool bs = Ok x \<longleftrightarrow> True \<and> (Some \<circ> encode_bool) x = Some bs"
    by (auto simp: encode_bool_def)
qed (simp add: encode_bool_def usize_limit_def)

section \<open>Length prefixes (lib.rs)\<close>

definition MAX_PAYLOAD :: nat where "MAX_PAYLOAD = 2 ^ 20"
definition MAX_LIST_LEN :: nat where "MAX_LIST_LEN = 2 ^ 20"
definition MAX_STATE_KEY_LEN :: nat where "MAX_STATE_KEY_LEN = 256"

definition encode_length :: "nat \<Rightarrow> byte list option" where
  "encode_length n =
     (if n < 128 then Some [of_nat n]
      else if n < 2 ^ 32 then Some (0x80 # le_bytes (of_nat n :: u32)) else None)"

definition decode_length :: "decoder \<Rightarrow> decode_error + nat \<times> decoder" where
  "decode_length d = try_bind (read_u8 d) (\<lambda>(first, d).
     if first < 128 then Ok (unat first, d)
     else if first \<noteq> 0x80 then Err NonCanonical
     else try_bind (read_u32 d) (\<lambda>(v, d).
       if v < 128 then Err NonCanonical
       else if unat v > MAX_LIST_LEN then Err LimitExceeded
       else Ok (unat v, d)))"

definition encode_bytes :: "byte list \<Rightarrow> byte list option" where
  "encode_bytes bs = Option.bind (encode_length (length bs)) (\<lambda>p. Some (p @ bs))"

definition decode_bytes :: "nat \<Rightarrow> decoder \<Rightarrow> decode_error + byte list \<times> decoder" where
  "decode_bytes limit d = try_bind (decode_length d) (\<lambda>(n, d).
     if n > limit then Err LimitExceeded else read_exact n d)"

lemma length_encode_length: "encode_length n = Some bs \<Longrightarrow> 0 < length bs \<and> length bs \<le> 5"
  by (auto simp: encode_length_def split: if_splits)

lemma encode_length_total: "n \<le> MAX_LIST_LEN \<Longrightarrow> \<exists>bs. encode_length n = Some bs"
  by (auto simp: encode_length_def MAX_LIST_LEN_def)

lemma decode_length_sound:
  assumes "decode_length d = Ok (n, d')"
  shows "n \<le> MAX_LIST_LEN \<and> (\<exists>bs. encode_length n = Some bs \<and> rest d = bs @ rest d')"
proof -
  obtain first d1 where first: "read_u8 d = Ok (first, d1)"
    using assms by (auto simp: decode_length_def result_simps)
  then have r: "rest d = first # rest d1" by (rule read_u8_sound)
  show ?thesis
  proof (cases "first < 128")
    case True
    then have "unat first < 128" by (simp add: word_less_nat_alt)
    with True assms first r show ?thesis
      by (auto simp: decode_length_def encode_length_def MAX_LIST_LEN_def)
  next
    case False
    with assms first obtain v where v: "read_u32 d1 = Ok (v, d')" "first = 0x80" "\<not> v < 128"
      "unat v \<le> MAX_LIST_LEN" "n = unat v"
      by (auto simp: decode_length_def result_simps split: if_splits)
    then have "128 \<le> unat v" "unat v < 2 ^ 32"
      using unsigned_less [of v, where ?'a = nat] by (simp_all add: word_less_nat_alt)
    with v r read_u32_sound [OF v(1)] show ?thesis
      by (simp add: encode_length_def)
  qed
qed

lemma decode_length_at:
  assumes "n \<le> MAX_LIST_LEN" and "encode_length n = Some bs" and "length pre + length bs < usize_limit"
  shows "decode_length (dec_at pre (bs @ post)) = Ok (n, dec_at (pre @ bs) post)"
proof (cases "n < 128")
  case True
  then have "(of_nat n :: u8) < 128" "unat (of_nat n :: u8) = n"
    by (simp_all add: word_less_nat_alt unat_of_nat)
  with True assms show ?thesis by (auto simp: decode_length_def encode_length_def)
next
  case False
  with assms have n: "128 \<le> n" "n < 2 ^ 32" "bs = 0x80 # le_bytes (of_nat n :: u32)"
    by (auto simp: encode_length_def MAX_LIST_LEN_def)
  then have "unat (of_nat n :: u32) = n" by (simp add: unat_of_nat)
  moreover from this n have "\<not> (of_nat n :: u32) < 128" by (simp add: word_less_nat_alt)
  ultimately show ?thesis
    using assms n read_u32_at [of "pre @ [0x80]" "of_nat n" post]
    by (simp add: decode_length_def)
qed

interpretation length_field: wire_field encode_length decode_length "\<lambda>n. n \<le> MAX_LIST_LEN"
  by unfold_locales (simp_all add: decode_length_sound decode_length_at)

lemma decode_bytes_sound:
  assumes "decode_bytes limit d = Ok (v, d')"
  shows "length v \<le> limit \<and> length v \<le> MAX_LIST_LEN
    \<and> (\<exists>bs. encode_bytes v = Some bs \<and> rest d = bs @ rest d')"
  using assms
  by (fastforce simp: decode_bytes_def encode_bytes_def result_simps split: if_splits
      dest!: read_exact_sound decode_length_sound)

lemma decode_bytes_at:
  assumes "length v \<le> limit" "length v \<le> MAX_LIST_LEN" "encode_bytes v = Some bs"
    and "length pre + length bs < usize_limit"
  shows "decode_bytes limit (dec_at pre (bs @ post)) = Ok (v, dec_at (pre @ bs) post)"
proof -
  obtain p where p: "encode_length (length v) = Some p" "bs = p @ v"
    using assms(3) by (auto simp: encode_bytes_def bind_eq_Some_conv)
  with assms show ?thesis
    using decode_length_at [of "length v" p pre "v @ post"] read_exact_at [of v "length v" "pre @ p" post]
    by (simp add: decode_bytes_def)
qed

lemma encode_bytes_length:
  "encode_bytes v = Some bs \<Longrightarrow> length v < length bs \<and> length bs \<le> 5 + length v"
  by (auto simp: encode_bytes_def bind_eq_Some_conv dest: length_encode_length)

lemma encode_bytes_total: "length v \<le> MAX_LIST_LEN \<Longrightarrow> \<exists>bs. encode_bytes v = Some bs"
  using encode_length_total by (fastforce simp: encode_bytes_def)

section \<open>Protocol values (protocol.rs)\<close>

subsection \<open>Accounts, digests, keys, resources\<close>

definition encode_account :: "account_state \<Rightarrow> byte list" where
  "encode_account a = encode_u64 (acc_nonce a) @ encode_u64 (acc_balance a)"

definition decode_account :: "byte list \<Rightarrow> decode_error + account_state" where
  "decode_account bs =
     try_bind (read_u64 (decoder_new bs)) (\<lambda>(nonce, d).
     try_bind (read_u64 d) (\<lambda>(balance, d).
     try_bind (finish d) (\<lambda>_. Ok \<lparr>acc_nonce = nonce, acc_balance = balance\<rparr>)))"

definition encode_hash :: "hash256 \<Rightarrow> byte list" where
  "encode_hash h = be_bytes h"

definition decode_hash :: "byte list \<Rightarrow> decode_error + hash256" where
  "decode_hash bs =
     try_bind (read_fixed (decoder_new bs)) (\<lambda>(x, d). try_bind (finish d) (\<lambda>_. Ok x))"

definition encode_address :: "address \<Rightarrow> byte list" where
  "encode_address a = be_bytes a"

definition decode_address :: "byte list \<Rightarrow> decode_error + address" where
  "decode_address bs =
     try_bind (read_fixed (decoder_new bs)) (\<lambda>(x, d). try_bind (finish d) (\<lambda>_. Ok x))"

definition encode_state_key :: "state_key \<Rightarrow> byte list option" where
  "encode_state_key k = encode_bytes k"

definition read_state_key :: "decoder \<Rightarrow> decode_error + state_key \<times> decoder" where
  "read_state_key d = decode_bytes MAX_STATE_KEY_LEN d"

definition decode_state_key :: "byte list \<Rightarrow> decode_error + state_key" where
  "decode_state_key bs =
     try_bind (decode_bytes MAX_STATE_KEY_LEN (decoder_new bs)) (\<lambda>(k, d).
     try_bind (finish d) (\<lambda>_. Ok k))"

definition read_resources :: "decoder \<Rightarrow> decode_error + resources \<times> decoder" where
  "read_resources d =
     try_bind (read_u64 d) (\<lambda>(c, d).
     try_bind (read_u64 d) (\<lambda>(m, d).
     try_bind (read_u64 d) (\<lambda>(i, d).
     try_bind (read_u64 d) (\<lambda>(b, d).
     Ok (\<lparr>compute = c, memory = m, io = i, bandwidth = b\<rparr>, d)))))"

definition decode_resources :: "byte list \<Rightarrow> decode_error + resources" where
  "decode_resources bs =
     try_bind (read_u64 (decoder_new bs)) (\<lambda>(c, d).
     try_bind (read_u64 d) (\<lambda>(m, d).
     try_bind (read_u64 d) (\<lambda>(i, d).
     try_bind (read_u64 d) (\<lambda>(b, d).
     try_bind (finish d) (\<lambda>_.
     Ok \<lparr>compute = c, memory = m, io = i, bandwidth = b\<rparr>)))))"

lemma read_resources_sound:
  "read_resources d = Ok (r, d') \<Longrightarrow> rest d = encode_resources r @ rest d'"
  by (auto simp: read_resources_def encode_resources_def result_simps dest!: read_sound)

lemma read_resources_at [simp]:
  "length pre + 32 < usize_limit \<Longrightarrow>
   read_resources (dec_at pre (encode_resources r @ post)) = Ok (r, dec_at (pre @ encode_resources r) post)"
  by (simp add: read_resources_def encode_resources_def)

lemma read_state_key_sound:
  assumes "read_state_key d = Ok (k, d')"
  shows "length k \<le> MAX_STATE_KEY_LEN \<and> (\<exists>bs. encode_state_key k = Some bs \<and> rest d = bs @ rest d')"
  using decode_bytes_sound [of MAX_STATE_KEY_LEN d k d'] assms
  by (simp add: read_state_key_def encode_state_key_def)

lemma read_state_key_at:
  "length k \<le> MAX_STATE_KEY_LEN \<Longrightarrow> encode_state_key k = Some bs \<Longrightarrow>
   length pre + length bs < usize_limit \<Longrightarrow>
   read_state_key (dec_at pre (bs @ post)) = Ok (k, dec_at (pre @ bs) post)"
  by (simp add: read_state_key_def encode_state_key_def decode_bytes_at MAX_STATE_KEY_LEN_def
      MAX_LIST_LEN_def)

interpretation resources_field: wire_field "Some \<circ> encode_resources" read_resources "\<lambda>_. True"
  by unfold_locales (auto dest: read_resources_sound)

interpretation state_key_field:
  wire_field encode_state_key read_state_key "\<lambda>k. length k \<le> MAX_STATE_KEY_LEN"
  by unfold_locales (simp_all add: read_state_key_sound read_state_key_at)

interpretation account_format: wire_format "Some \<circ> encode_account" decode_account "\<lambda>_. True"
proof unfold_locales
  fix bs :: "byte list" and x
  assume "length bs < usize_limit"
  then show "decode_account bs = Ok x \<longleftrightarrow> True \<and> (Some \<circ> encode_account) x = Some bs"
    by (auto simp: decode_account_def encode_account_def encode_u64_def result_simps finish_Ok
        decoder_new_dec_at dest!: read_sound)
qed (simp add: encode_account_def encode_u64_def usize_limit_def)

interpretation hash_format: wire_format "Some \<circ> encode_hash" decode_hash "\<lambda>_. True"
  using bytes32_field.read_all_iff
  by unfold_locales (auto simp: decode_hash_def encode_hash_def encode_array_def usize_limit_def)

interpretation resources_format: wire_format "Some \<circ> encode_resources" decode_resources "\<lambda>_. True"
proof unfold_locales
  fix bs :: "byte list" and x
  assume "length bs < usize_limit"
  then show "decode_resources bs = Ok x \<longleftrightarrow> True \<and> (Some \<circ> encode_resources) x = Some bs"
    by (auto simp: decode_resources_def encode_resources_def result_simps finish_Ok
        decoder_new_dec_at dest!: read_sound)
qed (simp add: usize_limit_def)

interpretation state_key_format:
  wire_format encode_state_key decode_state_key "\<lambda>k. length k \<le> MAX_STATE_KEY_LEN"
proof unfold_locales
  fix bs :: "byte list" and x
  assume "length bs < usize_limit"
  then show "decode_state_key bs = Ok x \<longleftrightarrow> length x \<le> MAX_STATE_KEY_LEN \<and> encode_state_key x = Some bs"
    using state_key_field.read_all_iff by (simp add: decode_state_key_def read_state_key_def)
next
  fix x :: state_key
  assume x: "length x \<le> MAX_STATE_KEY_LEN"
  then obtain bs where bs: "encode_bytes x = Some bs"
    using encode_bytes_total [of x] by (auto simp: MAX_STATE_KEY_LEN_def MAX_LIST_LEN_def)
  with x encode_bytes_length [OF bs]
  show "\<exists>bs. encode_state_key x = Some bs \<and> length bs < usize_limit"
    by (simp add: encode_state_key_def MAX_STATE_KEY_LEN_def usize_limit_def)
qed

subsection \<open>Transactions\<close>

fun lane_tag :: "transaction_lane \<Rightarrow> u8" where
  "lane_tag Payments = 0"
| "lane_tag Contracts = 1"
| "lane_tag System = 2"

definition lane_of_tag :: "u8 \<Rightarrow> decode_error + transaction_lane" where
  "lane_of_tag b =
     (if b = 0 then Ok Payments else if b = 1 then Ok Contracts
      else if b = 2 then Ok System else Err Unsupported)"

fun encode_keys :: "state_key list \<Rightarrow> byte list option" where
  "encode_keys [] = Some []"
| "encode_keys (k # ks) =
     Option.bind (encode_state_key k) (\<lambda>b. Option.bind (encode_keys ks) (\<lambda>bs. Some (b @ bs)))"

fun skip_keys :: "nat \<Rightarrow> decoder \<Rightarrow> decode_error + decoder" where
  "skip_keys 0 d = Ok d"
| "skip_keys (Suc n) d = try_bind (decode_bytes MAX_STATE_KEY_LEN d) (\<lambda>(_, d). skip_keys n d)"

fun read_keys :: "nat \<Rightarrow> decoder \<Rightarrow> decode_error + state_key list \<times> decoder" where
  "read_keys 0 d = Ok ([], d)"
| "read_keys (Suc n) d = try_bind (read_state_key d) (\<lambda>(k, d).
     try_bind (read_keys n d) (\<lambda>(ks, d). Ok (k # ks, d)))"

definition encode_unsigned_transaction :: "transaction \<Rightarrow> byte list option" where
  "encode_unsigned_transaction tx =
     Option.bind (encode_length (length (tx_access_list tx))) (\<lambda>len.
     Option.bind (encode_keys (tx_access_list tx)) (\<lambda>keys.
     Option.bind (encode_bytes (tx_payload tx)) (\<lambda>payload.
     Some (ascii ''ALTX'' @ le_bytes (tx_version tx) @ le_bytes (tx_chain_id tx)
       @ be_bytes (tx_sender tx) @ le_bytes (tx_nonce tx) @ le_bytes (tx_expires_at tx)
       @ [lane_tag (tx_lane tx)] @ len @ keys @ encode_resources (tx_resource_limit tx)
       @ encode_resources (tx_resource_prices tx) @ payload))))"

definition encode_transaction :: "transaction \<Rightarrow> byte list option" where
  "encode_transaction tx = Option.bind (encode_unsigned_transaction tx) (\<lambda>bs.
     Some (bs @ be_bytes (tx_signature tx)))"

definition decode_transaction :: "byte list \<Rightarrow> decode_error + transaction" where
  "decode_transaction bytes =
     try_bind (read_exact 4 (decoder_new bytes)) (\<lambda>(magic, d).
     if magic \<noteq> ascii ''ALTX'' then Err Unsupported else
     try_bind (read_u32 d) (\<lambda>(version, d).
     if version \<noteq> TRANSACTION_VERSION then Err Unsupported else
     try_bind (read_u32 d) (\<lambda>(chain_id, d).
     try_bind (read_fixed d) (\<lambda>(sender, d).
     try_bind (read_u64 d) (\<lambda>(nonce, d).
     try_bind (read_u64 d) (\<lambda>(expires_at, d).
     try_bind (read_u8 d) (\<lambda>(tag, d).
     try_bind (lane_of_tag tag) (\<lambda>lane.
     try_bind (decode_length d) (\<lambda>(list_len, d).
     if list_len > MAX_LIST_LEN then Err LimitExceeded else
     if list_len > remaining d then Err Truncated else
     let access_decoder = d in
     try_bind (skip_keys list_len d) (\<lambda>d.
     try_bind (read_resources d) (\<lambda>(resource_limit, d).
     try_bind (read_resources d) (\<lambda>(resource_prices, d).
     try_bind (decode_bytes MAX_PAYLOAD d) (\<lambda>(payload, d).
     try_bind (read_fixed d) (\<lambda>(signature, d).
     try_bind (finish d) (\<lambda>_.
     try_bind (read_keys list_len access_decoder) (\<lambda>(access_list, _).
     Ok \<lparr>tx_version = version, tx_expires_at = expires_at, tx_lane = lane,
         tx_resource_prices = resource_prices, tx_chain_id = chain_id, tx_sender = sender,
         tx_nonce = nonce, tx_access_list = access_list, tx_resource_limit = resource_limit,
         tx_payload = payload, tx_signature = signature\<rparr>))))))))))))))))"

text \<open>The transactions that have a wire form.\<close>

definition wire_transaction :: "transaction \<Rightarrow> bool" where
  "wire_transaction tx \<longleftrightarrow> tx_version tx = TRANSACTION_VERSION
     \<and> length (tx_access_list tx) \<le> MAX_LIST_LEN
     \<and> list_all (\<lambda>k. length k \<le> MAX_STATE_KEY_LEN) (tx_access_list tx)
     \<and> length (tx_payload tx) \<le> MAX_PAYLOAD"

lemma lane_of_tag_Ok [simp]: "lane_of_tag b = Ok l \<longleftrightarrow> b = lane_tag l"
  by (cases l) (auto simp: lane_of_tag_def)

lemma lane_of_tag_lane_tag [simp]: "lane_of_tag (lane_tag l) = Ok l"
  by simp

lemma skip_keys_read_keys:
  "skip_keys n d = try_bind (read_keys n d) (\<lambda>(_, d). Ok d)"
proof (induction n arbitrary: d)
  case (Suc n)
  show ?case
    by (cases "decode_bytes MAX_STATE_KEY_LEN d")
      (auto simp: read_state_key_def Suc intro!: arg_cong2 [of _ _ _ _ try_bind] split: try_bind_split)
qed simp

lemma read_keys_sound:
  "read_keys n d = Ok (ks, d') \<Longrightarrow> length ks = n \<and> list_all (\<lambda>k. length k \<le> MAX_STATE_KEY_LEN) ks
     \<and> (\<exists>bs. encode_keys ks = Some bs \<and> rest d = bs @ rest d')"
proof (induction n arbitrary: d ks)
  case (Suc n)
  then obtain k d1 ks' where
    "read_state_key d = Ok (k, d1)" "read_keys n d1 = Ok (ks', d')" "ks = k # ks'"
    by (auto simp: result_simps)
  with Suc.IH [of d1 ks'] read_state_key_sound [of d k d1] show ?case by auto
qed auto

lemma read_keys_at:
  "list_all (\<lambda>k. length k \<le> MAX_STATE_KEY_LEN) ks \<Longrightarrow> encode_keys ks = Some bs \<Longrightarrow>
   length pre + length bs < usize_limit \<Longrightarrow> n = length ks \<Longrightarrow>
   read_keys n (dec_at pre (bs @ post)) = Ok (ks, dec_at (pre @ bs) post)"
proof (induction ks arbitrary: n bs pre)
  case (Cons k ks)
  then obtain b bs' where bs: "encode_state_key k = Some b" "encode_keys ks = Some bs'" "bs = b @ bs'"
    by (auto simp: bind_eq_Some_conv)
  with Cons.prems read_state_key_at [of k b pre "bs' @ post"] Cons.IH [of bs' "pre @ b" "length ks"]
  show ?case by simp
qed simp

lemma encode_keys_length: "encode_keys ks = Some bs \<Longrightarrow> length ks \<le> length bs"
proof (induction ks arbitrary: bs)
  case (Cons k ks)
  then show ?case
    by (fastforce simp: bind_eq_Some_conv encode_state_key_def dest: encode_bytes_length)
qed simp

lemma encode_keys_bounded:
  "list_all (\<lambda>k. length k \<le> MAX_STATE_KEY_LEN) ks \<Longrightarrow>
   \<exists>bs. encode_keys ks = Some bs \<and> length bs \<le> 261 * length ks"
proof (induction ks)
  case (Cons k ks)
  then obtain bs where bs: "encode_keys ks = Some bs" "length bs \<le> 261 * length ks" by auto
  have k: "length k \<le> 256" using Cons.prems by (simp add: MAX_STATE_KEY_LEN_def)
  then obtain b where b: "encode_bytes k = Some b"
    using encode_bytes_total [of k] by (auto simp: MAX_LIST_LEN_def)
  with k bs encode_bytes_length [OF b] show ?case by (simp add: encode_state_key_def)
qed simp

lemma decode_transaction_sound:
  assumes "decode_transaction bs = Ok tx"
  shows "wire_transaction tx \<and> encode_transaction tx = Some bs"
proof -
  show ?thesis
    using assms unfolding decode_transaction_def
    apply (clarsimp simp: skip_keys_read_keys result_simps Let_def finish_Ok split: if_splits)
    apply (drule read_sound read_exact_sound read_resources_sound decode_length_sound
        decode_bytes_sound read_keys_sound)+
    apply (clarsimp simp: wire_transaction_def encode_transaction_def encode_unsigned_transaction_def)
    done
qed

lemma decode_transaction_complete:
  assumes "wire_transaction tx" "encode_transaction tx = Some bs" "length bs < usize_limit"
  shows "decode_transaction bs = Ok tx"
proof -
  obtain len keys pl where parts: "encode_length (length (tx_access_list tx)) = Some len"
    "encode_keys (tx_access_list tx) = Some keys" "encode_bytes (tx_payload tx) = Some pl"
    and bs: "bs = ascii ''ALTX'' @ le_bytes (tx_version tx) @ le_bytes (tx_chain_id tx)
       @ be_bytes (tx_sender tx) @ le_bytes (tx_nonce tx) @ le_bytes (tx_expires_at tx)
       @ lane_tag (tx_lane tx) # len @ keys @ encode_resources (tx_resource_limit tx)
       @ encode_resources (tx_resource_prices tx) @ pl @ be_bytes (tx_signature tx)"
    using assms(2)
    by (auto simp: encode_transaction_def encode_unsigned_transaction_def bind_eq_Some_conv)
  have keys: "length (tx_access_list tx) \<le> length keys"
    using encode_keys_length [OF parts(2)] .
  have lims: "length (tx_access_list tx) \<le> MAX_LIST_LEN" "length (tx_payload tx) \<le> MAX_PAYLOAD"
    "length (tx_payload tx) \<le> MAX_LIST_LEN"
    "list_all (\<lambda>k. length k \<le> MAX_STATE_KEY_LEN) (tx_access_list tx)"
    "tx_version tx = TRANSACTION_VERSION"
    using assms(1) by (auto simp: wire_transaction_def MAX_PAYLOAD_def MAX_LIST_LEN_def)
  show ?thesis
    using assms(3) keys lims
    unfolding bs decode_transaction_def decoder_new_dec_at
    by (simp add: skip_keys_read_keys decode_length_at [OF _ parts(1)] read_keys_at [OF _ parts(2)]
        decode_bytes_at [OF _ _ parts(3)] remaining_rest Let_def)
qed

interpretation transaction_format:
  wire_format encode_transaction decode_transaction wire_transaction
proof unfold_locales
  fix bs :: "byte list" and tx
  assume "length bs < usize_limit"
  then show "decode_transaction bs = Ok tx \<longleftrightarrow> wire_transaction tx \<and> encode_transaction tx = Some bs"
    using decode_transaction_sound decode_transaction_complete by blast
next
  fix tx
  assume tx: "wire_transaction tx"
  obtain len where len: "encode_length (length (tx_access_list tx)) = Some len"
    using tx encode_length_total by (auto simp: wire_transaction_def)
  obtain keys where keys: "encode_keys (tx_access_list tx) = Some keys"
    "length keys \<le> 261 * length (tx_access_list tx)"
    using tx encode_keys_bounded by (auto simp: wire_transaction_def)
  obtain pl where pl: "encode_bytes (tx_payload tx) = Some pl"
    using tx encode_bytes_total [of "tx_payload tx"]
    by (auto simp: wire_transaction_def MAX_PAYLOAD_def MAX_LIST_LEN_def)
  show "\<exists>bs. encode_transaction tx = Some bs \<and> length bs < usize_limit"
    using tx len keys pl length_encode_length [OF len] encode_bytes_length [OF pl]
    by (simp add: encode_transaction_def encode_unsigned_transaction_def wire_transaction_def
        MAX_PAYLOAD_def MAX_LIST_LEN_def usize_limit_def)
qed

subsection \<open>Headers and receipts\<close>

definition decode_header :: "byte list \<Rightarrow> decode_error + block_header" where
  "decode_header bytes =
     try_bind (read_u64 (decoder_new bytes)) (\<lambda>(height, d).
     try_bind (read_fixed d) (\<lambda>(parent, d).
     try_bind (read_fixed d) (\<lambda>(transactions_root, d).
     try_bind (read_fixed d) (\<lambda>(state_root, d).
     try_bind (read_fixed d) (\<lambda>(receipts_root, d).
     try_bind (read_fixed d) (\<lambda>(committee_root, d).
     try_bind (read_resources d) (\<lambda>(capacity, d).
     try_bind (finish d) (\<lambda>_.
     Ok \<lparr>hdr_height = height, hdr_parent = parent, hdr_transactions_root = transactions_root,
         hdr_state_root = state_root, hdr_receipts_root = receipts_root,
         hdr_committee_root = committee_root, hdr_capacity = capacity\<rparr>))))))))"

definition decode_receipt :: "byte list \<Rightarrow> decode_error + execution_receipt" where
  "decode_receipt bytes =
     try_bind (read_fixed (decoder_new bytes)) (\<lambda>(tx, d).
     try_bind (read_u8 d) (\<lambda>(tag, d).
     try_bind (if tag = 0 then Ok False else if tag = 1 then Ok True else Err NonCanonical) (\<lambda>succeeded.
     try_bind (read_resources d) (\<lambda>(res, d).
     try_bind (read_fixed d) (\<lambda>(output_root, d).
     try_bind (finish d) (\<lambda>_.
     Ok \<lparr>rc_transaction = tx, rc_succeeded = succeeded, rc_resources = res,
         rc_output_root = output_root\<rparr>))))))"

lemma header_canonical_bytes_alt:
  "header_canonical_bytes h =
     le_bytes (hdr_height h) @ be_bytes (hdr_parent h) @ be_bytes (hdr_transactions_root h)
     @ be_bytes (hdr_state_root h) @ be_bytes (hdr_receipts_root h)
     @ be_bytes (hdr_committee_root h) @ encode_resources (hdr_capacity h)"
  by (simp add: header_canonical_bytes_def encode_resources_def)

lemma receipt_canonical_bytes_alt:
  "receipt_canonical_bytes r =
     be_bytes (rc_transaction r) @ of_bool (rc_succeeded r) # encode_resources (rc_resources r)
     @ be_bytes (rc_output_root r)"
  by (simp add: receipt_canonical_bytes_def encode_resources_def)

lemma read_resources_end [simp]:
  "length pre + 32 < usize_limit \<Longrightarrow>
   read_resources (dec_at pre (encode_resources r)) = Ok (r, dec_at (pre @ encode_resources r) [])"
  using read_resources_at [of pre r "[]"] by simp

interpretation header_format: wire_format "Some \<circ> header_canonical_bytes" decode_header "\<lambda>_. True"
proof unfold_locales
  fix bs :: "byte list" and h
  assume len: "length bs < usize_limit"
  show "decode_header bs = Ok h \<longleftrightarrow> True \<and> (Some \<circ> header_canonical_bytes) h = Some bs"
  proof
    assume "decode_header bs = Ok h"
    then show "True \<and> (Some \<circ> header_canonical_bytes) h = Some bs"
      unfolding decode_header_def
      by (clarsimp simp: result_simps finish_Ok header_canonical_bytes_alt
          dest!: read_sound read_resources_sound)
  next
    assume "True \<and> (Some \<circ> header_canonical_bytes) h = Some bs"
    then have "bs = header_canonical_bytes h" by simp
    then show "decode_header bs = Ok h"
      by (simp add: decode_header_def header_canonical_bytes_alt decoder_new_dec_at usize_limit_def)
  qed
qed (simp add: usize_limit_def)

interpretation receipt_format: wire_format "Some \<circ> receipt_canonical_bytes" decode_receipt "\<lambda>_. True"
proof unfold_locales
  fix bs :: "byte list" and r
  assume len: "length bs < usize_limit"
  show "decode_receipt bs = Ok r \<longleftrightarrow> True \<and> (Some \<circ> receipt_canonical_bytes) r = Some bs"
  proof
    assume "decode_receipt bs = Ok r"
    then show "True \<and> (Some \<circ> receipt_canonical_bytes) r = Some bs"
      unfolding decode_receipt_def
      by (clarsimp simp: result_simps finish_Ok receipt_canonical_bytes_alt split: if_splits
          dest!: read_sound read_resources_sound)
  next
    assume "True \<and> (Some \<circ> receipt_canonical_bytes) r = Some bs"
    then have "bs = receipt_canonical_bytes r" by simp
    then show "decode_receipt bs = Ok r"
      by (simp add: decode_receipt_def receipt_canonical_bytes_alt decoder_new_dec_at usize_limit_def)
  qed
qed (simp add: usize_limit_def)

end
