(* ===== verification/Astro_BTree.thy ===== *)
theory Astro_BTree
  imports Astro_Prelude "HOL-Library.Multiset" "HOL-Library.Product_Lexorder" "HOL-Library.Option_ord"
begin

text \<open>
  The ordered map \<open>BTreeMap\<close> of the standard library as a list of entries with
  strictly ascending keys: iteration order is list order. Every operation keeps the
  order, and lookup after an operation is the usual map update. The adjacent pairs of
  \<open>slice::windows(2)\<close> are here too.
\<close>

type_synonym ('k, 'v) btree = "('k \<times> 'v) list"

named_theorems btree_simps \<open>lookup and order laws of the ordered map\<close>

section \<open>Adjacent pairs\<close>

definition windows2 :: "'a list \<Rightarrow> ('a \<times> 'a) list" where
  "windows2 xs = zip xs (tl xs)"

lemma windows2_simps [simp]:
  "windows2 [] = []" "windows2 [x] = []" "windows2 (x # y # xs) = (x, y) # windows2 (y # xs)"
  by (simp_all add: windows2_def)

lemma windows2_ascending:
  "\<not> list_ex (\<lambda>(a, b). f b \<le> f a) (windows2 xs) \<longleftrightarrow> sorted_wrt (<) (map f xs)"
  for f :: "'a \<Rightarrow> 'b::linorder"
proof (induction xs rule: induct_list012)
  case (3 x y zs)
  then show ?case by (fastforce simp: not_le)
qed auto

section \<open>Ordered maps\<close>

abbreviation bt_ok :: "('k::linorder, 'v) btree \<Rightarrow> bool" where
  "bt_ok m \<equiv> sorted_wrt (<) (map fst m)"

fun bt_get :: "('k, 'v) btree \<Rightarrow> 'k \<Rightarrow> 'v option" where
  "bt_get [] k = None"
| "bt_get ((k', v) # m) k = (if k = k' then Some v else bt_get m k)"

fun bt_insert :: "'k::linorder \<Rightarrow> 'v \<Rightarrow> ('k, 'v) btree \<Rightarrow> ('k, 'v) btree" where
  "bt_insert k v [] = [(k, v)]"
| "bt_insert k v ((k', v') # m) =
     (if k < k' then (k, v) # (k', v') # m
      else if k = k' then (k, v) # m
      else (k', v') # bt_insert k v m)"

fun bt_remove :: "'k::linorder \<Rightarrow> ('k, 'v) btree \<Rightarrow> ('k, 'v) btree" where
  "bt_remove k [] = []"
| "bt_remove k ((k', v') # m) = (if k = k' then m else (k', v') # bt_remove k m)"

definition bt_keys :: "('k, 'v) btree \<Rightarrow> 'k list" where
  "bt_keys m = map fst m"

definition bt_values :: "('k, 'v) btree \<Rightarrow> 'v list" where
  "bt_values m = map snd m"

definition bt_contains :: "('k, 'v) btree \<Rightarrow> 'k \<Rightarrow> bool" where
  "bt_contains m k \<longleftrightarrow> bt_get m k \<noteq> None"

text \<open>Collecting an iterator of entries: later entries win.\<close>

definition bt_collect :: "('k::linorder \<times> 'v) list \<Rightarrow> ('k, 'v) btree" where
  "bt_collect es = fold (\<lambda>(k, v). bt_insert k v) es []"

lemma bt_get_map_of: "bt_get m k = map_of m k"
  by (induction m) auto

lemma set_keys_insert [simp]: "fst ` set (bt_insert k v m) = insert k (fst ` set m)"
  by (induction k v m rule: bt_insert.induct) (simp_all add: insert_commute)

lemma bt_ok_insert [simp]: "bt_ok m \<Longrightarrow> bt_ok (bt_insert k v m)"
proof (induction m)
  case (Cons e m)
  obtain k' v' where e: "e = (k', v')" by (cases e)
  have "set (map fst (bt_insert k v m)) = insert k (set (map fst m))" by simp
  with Cons e show ?case by (auto simp del: set_map)
qed simp

lemma bt_get_insert [simp]: "bt_get (bt_insert k v m) = (bt_get m)(k \<mapsto> v)"
  by (induction m) (auto simp: fun_eq_iff)

lemma bt_get_None_iff: "bt_get m k = None \<longleftrightarrow> k \<notin> fst ` set m"
  by (simp add: bt_get_map_of map_of_eq_None_iff)

lemma bt_get_Some_mem: "bt_get m k = Some v \<Longrightarrow> (k, v) \<in> set m"
  by (simp add: bt_get_map_of map_of_SomeD)

lemma bt_get_Some_iff: "bt_ok m \<Longrightarrow> bt_get m k = Some v \<longleftrightarrow> (k, v) \<in> set m"
  by (auto simp: bt_get_map_of strict_sorted_iff)

lemma bt_contains_iff: "bt_contains m k \<longleftrightarrow> k \<in> fst ` set m"
  by (simp add: bt_contains_def bt_get_None_iff)

lemma set_bt_remove_subset: "set (bt_remove k m) \<subseteq> set m"
  by (induction k m rule: bt_remove.induct) (auto split: if_splits)

lemma bt_ok_remove [simp]: "bt_ok m \<Longrightarrow> bt_ok (bt_remove k m)"
proof (induction m)
  case (Cons e m)
  then show ?case using set_bt_remove_subset [of k m] by (cases e) auto
qed simp

lemma bt_get_remove [simp]: "bt_ok m \<Longrightarrow> bt_get (bt_remove k m) = (bt_get m)(k := None)"
proof (induction m)
  case (Cons e m)
  obtain k' v' where e: "e = (k', v')" by (cases e)
  have "bt_get m k' = None"
    using Cons.prems e by (auto simp: bt_get_None_iff)
  with Cons e show ?case by (auto simp: fun_eq_iff)
qed (simp add: fun_eq_iff)

lemma set_bt_insert_new: "k \<notin> fst ` set m \<Longrightarrow> set (bt_insert k v m) = insert (k, v) (set m)"
  by (induction k v m rule: bt_insert.induct) (simp_all add: insert_commute)

lemma set_bt_insert: "bt_ok m \<Longrightarrow> set (bt_insert k v m) = insert (k, v) {e \<in> set m. fst e \<noteq> k}"
proof (induction k v m rule: bt_insert.induct)
  case (2 k v k' v' m)
  have later: "k' < fst e" if "e \<in> set m" for e using "2.prems" that by simp
  consider "k < k'" | "k = k'" | "k' < k" by fastforce
  then show ?case
  proof cases
    case 1
    then have "{e \<in> set ((k', v') # m). fst e \<noteq> k} = set ((k', v') # m)"
      using later by fastforce
    with 1 show ?thesis by simp
  next
    case 2
    then have "{e \<in> set ((k', v') # m). fst e \<noteq> k} = set m"
      using later by fastforce
    with 2 show ?thesis by simp
  next
    case 3
    then have order: "\<not> k < k'" "k \<noteq> k'" by auto
    have "bt_ok m" using "2.prems" by simp
    then have "set (bt_insert k v m) = insert (k, v) {e \<in> set m. fst e \<noteq> k}"
      by (rule "2.IH" [OF order])
    moreover have "{e \<in> set ((k', v') # m). fst e \<noteq> k}
        = insert (k', v') {e \<in> set m. fst e \<noteq> k}"
      using order by auto
    ultimately show ?thesis using order by (simp add: insert_commute)
  qed
qed simp

lemma length_bt_insert_new: "k \<notin> fst ` set m \<Longrightarrow> length (bt_insert k v m) = Suc (length m)"
  by (induction k v m rule: bt_insert.induct) simp_all

lemma mset_bt_insert_new: "k \<notin> fst ` set m \<Longrightarrow> mset (bt_insert k v m) = add_mset (k, v) (mset m)"
  by (induction k v m rule: bt_insert.induct) (simp_all add: add_mset_commute)

lemma set_bt_remove: "bt_ok m \<Longrightarrow> set (bt_remove k m) = {e \<in> set m. fst e \<noteq> k}"
  by (induction k m rule: bt_remove.induct) (auto split: if_splits)

lemma bt_distinct: "bt_ok m \<Longrightarrow> distinct (map fst m)"
  by (simp add: strict_sorted_iff)

text \<open>Two ordered maps with the same lookups are the same list: the representation is canonical.\<close>

lemma bt_entries: "bt_ok m \<Longrightarrow> map (\<lambda>k. (k, the (bt_get m k))) (bt_keys m) = m"
proof -
  assume ok: "bt_ok m"
  have "(fst e, the (bt_get m (fst e))) = e" if "e \<in> set m" for e
    using that ok bt_get_Some_iff [of m "fst e" "snd e"] by simp
  then show ?thesis by (simp add: bt_keys_def map_idI)
qed

lemma bt_ext:
  assumes "bt_ok m" "bt_ok n" and "bt_get m = bt_get n"
  shows "m = n"
proof -
  have "set m = set n"
    using assms by (auto simp: bt_get_Some_iff [symmetric])
  then have "bt_keys m = bt_keys n"
    using assms(1,2) by (intro strict_sorted_equal) (simp_all add: bt_keys_def)
  then show ?thesis
    using assms by (metis bt_entries)
qed

lemma bt_ok_collect [simp]: "bt_ok (bt_collect es)"
proof -
  have "bt_ok m \<Longrightarrow> bt_ok (fold (\<lambda>(k, v). bt_insert k v) es m)" for m
    by (induction es arbitrary: m) (auto split: prod.splits)
  then show ?thesis by (simp add: bt_collect_def)
qed

lemma bt_get_collect: "bt_get (bt_collect es) = map_of (rev es)"
proof -
  have "bt_get (fold (\<lambda>(k, v). bt_insert k v) es m) = bt_get m ++ map_of (rev es)" for m
    by (induction es arbitrary: m) (auto simp: fun_eq_iff map_add_def split: option.splits)
  then show ?thesis by (simp add: bt_collect_def fun_eq_iff map_add_def split: option.splits)
qed

lemma set_keys_collect: "fst ` set (bt_collect es) = fst ` set es"
proof -
  have "fst ` set (fold (\<lambda>(k, v). bt_insert k v) es m) = fst ` set m \<union> fst ` set es" for m
    by (induction es arbitrary: m) (simp_all add: case_prod_beta)
  then show ?thesis by (simp add: bt_collect_def)
qed

end
