(* ===== verification/Astro_Crypto.thy ===== *)
theory Astro_Crypto
  imports Astro_Types Astro_BTree
begin

text \<open>
  The crate \<open>crypto\<close>: strict Ed25519 verification, the registry of validator keys,
  bounded parallel verification of signature batches, and the binary Merkle root of
  block contents.

  The curve arithmetic is the third-party crate \<open>ed25519-dalek\<close>. Its functions are
  the fields of the record \<open>ed25519\<close>, an argument of the definitions that call them.
  A \<open>VerifyingKey\<close> is represented by the 32 bytes it was constructed from, which
  \<open>VerifyingKey::to_bytes\<close> returns.
\<close>

section \<open>Strict verification (blake2s.rs)\<close>

record ed25519 =
  vk_parses :: "bytes32 \<Rightarrow> bool"
  vk_recompress :: "bytes32 \<Rightarrow> bytes32"
  vk_is_weak :: "bytes32 \<Rightarrow> bool"
  verify_strict :: "bytes32 \<Rightarrow> byte list \<Rightarrow> bytes64 \<Rightarrow> bool"
  sk_public :: "bytes32 \<Rightarrow> bytes32"
  sk_sign :: "bytes32 \<Rightarrow> byte list \<Rightarrow> bytes64"

definition derive_key :: "(byte list \<Rightarrow> hash256) \<Rightarrow> byte list \<Rightarrow> byte list \<Rightarrow> bytes32" where
  "derive_key blake2s seed label = blake2s (ascii ''astrolune.key.derive.v1.''
     @ le_bytes (of_nat (length label) :: u64) @ label
     @ le_bytes (of_nat (length seed) :: u64) @ seed)"

definition ed25519_public_key :: "ed25519 \<Rightarrow> bytes32 \<Rightarrow> bytes32" where
  "ed25519_public_key ed secret_key = sk_public ed secret_key"

definition ed25519_sign :: "ed25519 \<Rightarrow> bytes32 \<Rightarrow> byte list \<Rightarrow> bytes64" where
  "ed25519_sign ed secret_key msg = sk_sign ed secret_key msg"

definition ed25519_verify :: "ed25519 \<Rightarrow> bytes32 \<Rightarrow> byte list \<Rightarrow> bytes64 \<Rightarrow> bool" where
  "ed25519_verify ed public_key msg sig \<longleftrightarrow>
     vk_parses ed public_key \<and> vk_recompress ed public_key = public_key
     \<and> verify_strict ed public_key msg sig"

text \<open>The registry: validator identity to verifying key.\<close>

datatype crypto_error =
    KeyNotFound | DuplicateKey | WrongKeyPurpose | EquivocationDetected | InvalidSignature
  | InvalidVrfProof | InvalidPublicKey | InvalidSeed

type_synonym provider = "(validator_id, bytes32) btree"

definition register_validator ::
  "(byte list \<Rightarrow> hash256) \<Rightarrow> ed25519 \<Rightarrow> bytes32 \<Rightarrow> provider \<Rightarrow> crypto_error + validator_id \<times> provider" where
  "register_validator blake2s ed public_key keys =
     (if \<not> vk_parses ed public_key then Err InvalidPublicKey
      else if vk_is_weak ed public_key \<or> vk_recompress ed public_key \<noteq> public_key
      then Err InvalidPublicKey
      else let vid = blake2s (be_bytes public_key) in Ok (vid, bt_insert vid public_key keys))"

definition registered_key :: "provider \<Rightarrow> validator_id \<Rightarrow> bytes32 option" where
  "registered_key keys v = bt_get keys v"

definition verify_signature :: "ed25519 \<Rightarrow> provider \<Rightarrow> validator_id \<Rightarrow> byte list \<Rightarrow> bytes64 \<Rightarrow> bool" where
  "verify_signature ed keys signer msg sig =
     (case bt_get keys signer of None \<Rightarrow> False | Some key \<Rightarrow> verify_strict ed key msg sig)"

text \<open>Only strong, canonically encoded keys are ever registered, each under its own digest.\<close>

definition provider_ok :: "(byte list \<Rightarrow> hash256) \<Rightarrow> ed25519 \<Rightarrow> provider \<Rightarrow> bool" where
  "provider_ok blake2s ed keys \<longleftrightarrow> bt_ok keys \<and>
     (\<forall>(v, pk) \<in> set keys. v = blake2s (be_bytes pk) \<and> vk_parses ed pk \<and> \<not> vk_is_weak ed pk
        \<and> vk_recompress ed pk = pk)"

lemma provider_ok_empty [simp]: "provider_ok blake2s ed []"
  by (simp add: provider_ok_def)

lemma provider_ok_register:
  "provider_ok blake2s ed keys \<Longrightarrow> register_validator blake2s ed pk keys = Ok (v, keys') \<Longrightarrow>
   provider_ok blake2s ed keys'"
  by (auto simp: provider_ok_def register_validator_def Let_def set_bt_insert split: if_splits)

lemma verify_signature_strict:
  assumes "provider_ok blake2s ed keys"
  shows "verify_signature ed keys v msg sig
    \<longleftrightarrow> (\<exists>pk. registered_key keys v = Some pk \<and> ed25519_verify ed pk msg sig)"
  using assms
  by (auto simp: verify_signature_def registered_key_def ed25519_verify_def provider_ok_def
      dest!: bt_get_Some_mem split: option.splits)

section \<open>Batches of signatures (batch.rs)\<close>

definition MAX_VERIFY_WORKERS :: nat where "MAX_VERIFY_WORKERS = 32"
definition MIN_PARALLEL_REQUESTS :: nat where "MIN_PARALLEL_REQUESTS = 8"

record signature_request =
  sr_public_key :: bytes32
  sr_message :: "byte list"
  sr_signature :: bytes64

definition request_verify :: "ed25519 \<Rightarrow> signature_request \<Rightarrow> bool" where
  "request_verify ed r = ed25519_verify ed (sr_public_key r) (sr_message r) (sr_signature r)"

text \<open>\<open>Iterator::position\<close> and \<open>slice::chunks\<close>.\<close>

fun position :: "('a \<Rightarrow> bool) \<Rightarrow> 'a list \<Rightarrow> nat option" where
  "position P [] = None"
| "position P (x # xs) = (if P x then Some 0 else map_option Suc (position P xs))"

function chunks :: "nat \<Rightarrow> 'a list \<Rightarrow> 'a list list" where
  "chunks n xs = (if xs = [] \<or> n = 0 then [] else take n xs # chunks n (drop n xs))"
  by pat_completeness auto
termination by (relation "measure (\<lambda>(n, xs). length xs)") auto

declare chunks.simps [simp del]

definition chunk_failure :: "ed25519 \<Rightarrow> signature_request list \<Rightarrow> nat \<Rightarrow> nat option" where
  "chunk_failure ed requests base =
     map_option (\<lambda>offset. base + offset) (position (\<lambda>r. \<not> request_verify ed r) requests)"

fun lower :: "nat option \<Rightarrow> nat option \<Rightarrow> nat option" where
  "lower (Some l) (Some r) = Some (min l r)"
| "lower (Some i) None = Some i"
| "lower None (Some i) = Some i"
| "lower None None = None"

text \<open>
  The workers started for the chunks after the first one. \<open>spawns k\<close> is what the host
  answers to the request for the thread of chunk \<open>k\<close>; one refusal sends the whole batch to the
  calling thread. The result is the list of chunk bases and chunks that were started. Verification of a chunk is a total
  function, so a worker always returns; the answer of the code to a worker that panics has no counterpart here.
\<close>

fun spawn_chunks :: "(nat \<Rightarrow> bool) \<Rightarrow> nat \<Rightarrow> nat \<Rightarrow> 'a list list \<Rightarrow> (nat \<times> 'a list) list option" where
  "spawn_chunks spawns chunk index [] = Some []"
| "spawn_chunks spawns chunk index (part # parts) =
     (if spawns index
      then map_option ((#) (index * chunk, part)) (spawn_chunks spawns chunk (Suc index) parts)
      else None)"

definition first_failure ::
  "ed25519 \<Rightarrow> (nat \<Rightarrow> bool) \<Rightarrow> signature_request list \<Rightarrow> nat \<Rightarrow> nat option" where
  "first_failure ed spawns requests workers0 =
     (let workers = min (min workers0 MAX_VERIFY_WORKERS) (length requests) in
      if workers < 2 \<or> length requests < MIN_PARALLEL_REQUESTS then chunk_failure ed requests 0
      else
        let chunk = (length requests + workers - 1) div workers;
            parts = chunks chunk requests in
        case spawn_chunks spawns chunk 1 (tl parts) of
          None \<Rightarrow> chunk_failure ed requests 0
        | Some handles \<Rightarrow>
            fold (\<lambda>(base, part) failure. lower failure (chunk_failure ed part base)) handles
              (chunk_failure ed (hd parts) 0))"

definition verify_all :: "ed25519 \<Rightarrow> (nat \<Rightarrow> bool) \<Rightarrow> signature_request list \<Rightarrow> nat \<Rightarrow> bool" where
  "verify_all ed spawns requests workers \<longleftrightarrow> first_failure ed spawns requests workers = None"

definition suggested_workers :: "nat \<Rightarrow> nat \<Rightarrow> nat" where
  "suggested_workers parallelism requests =
     (if requests < MIN_PARALLEL_REQUESTS then 1
      else max (min (min parallelism MAX_VERIFY_WORKERS) requests) 1)"

record digest_request =
  dr_public_key :: bytes32
  dr_digest :: hash256
  dr_signature :: bytes64

definition digest_verify :: "ed25519 \<Rightarrow> digest_request \<Rightarrow> bool" where
  "digest_verify ed r = ed25519_verify ed (dr_public_key r) (be_bytes (dr_digest r)) (dr_signature r)"

definition borrow_digest :: "digest_request \<Rightarrow> signature_request" where
  "borrow_digest r = \<lparr>sr_public_key = dr_public_key r, sr_message = be_bytes (dr_digest r),
     sr_signature = dr_signature r\<rparr>"

text \<open>The host: its available parallelism and its answers to thread creation.\<close>

record host =
  host_parallelism :: nat
  host_spawns :: "nat \<Rightarrow> bool"

definition first_digest_failure :: "ed25519 \<Rightarrow> host \<Rightarrow> digest_request list \<Rightarrow> nat option" where
  "first_digest_failure ed hst requests =
     (let borrowed = map borrow_digest requests in
      first_failure ed (host_spawns hst) borrowed
        (suggested_workers (host_parallelism hst) (length borrowed)))"

subsection \<open>The decision does not depend on the host\<close>

lemma position_append:
  "position P (xs @ ys) =
     (case position P xs of Some i \<Rightarrow> Some i | None \<Rightarrow> map_option ((+) (length xs)) (position P ys))"
proof (induction xs)
  case Nil
  then show ?case by (cases "position P ys") simp_all
next
  case (Cons x xs)
  then show ?case by (cases "position P ys") (auto simp: comp_def split: option.splits)
qed

lemma position_None: "position P xs = None \<longleftrightarrow> list_all (\<lambda>x. \<not> P x) xs"
  by (induction xs) auto

lemma position_less: "position P xs = Some i \<Longrightarrow> i < length xs"
  by (induction xs arbitrary: i) (auto split: if_splits)

lemma position_map: "position P (map f xs) = position (P \<circ> f) xs"
  by (induction xs) auto

lemma chunk_failure_append:
  "chunk_failure ed (xs @ ys) base =
     lower (chunk_failure ed xs base) (chunk_failure ed ys (base + length xs))"
  by (cases "position (\<lambda>r. \<not> request_verify ed r) xs";
      cases "position (\<lambda>r. \<not> request_verify ed r) ys")
    (auto simp: chunk_failure_def position_append dest: position_less)

lemma lower_assoc: "lower (lower a b) c = lower a (lower b c)"
  by (cases a; cases b; cases c) auto

lemma lower_None [simp]: "lower a None = a"
  by (cases a) auto

lemma chunk_failure_Nil [simp]: "chunk_failure ed [] base = None"
  by (simp add: chunk_failure_def)

text \<open>Joining the results of the remaining chunks is the failure of the remaining requests.\<close>

lemma spawn_chunks_failure:
  assumes "spawn_chunks spawns n index (chunks n xs) = Some handles" and "0 < n"
  shows "fold (\<lambda>(base, part) failure. lower failure (chunk_failure ed part base)) handles acc
    = lower acc (chunk_failure ed xs (index * n))"
  using assms
proof (induction n xs arbitrary: index handles acc rule: chunks.induct)
  case (1 n xs)
  show ?case
  proof (cases "xs = []")
    case True
    with "1.prems" show ?thesis by (simp add: chunks.simps)
  next
    case False
    then obtain hs where hs: "spawn_chunks spawns n (Suc index) (chunks n (drop n xs)) = Some hs"
      "handles = (index * n, take n xs) # hs"
      using "1.prems" by (auto simp: chunks.simps [of n xs] split: if_splits)
    have IH: "fold (\<lambda>(base, part) failure. lower failure (chunk_failure ed part base)) hs acc'
        = lower acc' (chunk_failure ed (drop n xs) (Suc index * n))" for acc'
      using "1.IH" [OF _ hs(1)] False "1.prems"(2) by simp
    have "chunk_failure ed xs (index * n) =
        lower (chunk_failure ed (take n xs) (index * n))
          (chunk_failure ed (drop n xs) (index * n + length (take n xs)))"
      using chunk_failure_append [of ed "take n xs" "drop n xs"] by simp
    also have "chunk_failure ed (drop n xs) (index * n + length (take n xs))
        = chunk_failure ed (drop n xs) (Suc index * n)"
      by (cases "length xs \<le> n") (simp_all add: add.commute)
    finally show ?thesis
      by (simp add: hs(2) IH lower_assoc)
  qed
qed

lemma first_failure_position:
  "first_failure ed spawns requests workers0 = position (\<lambda>r. \<not> request_verify ed r) requests"
proof -
  define workers where "workers = min (min workers0 MAX_VERIFY_WORKERS) (length requests)"
  have base: "chunk_failure ed requests 0 = position (\<lambda>r. \<not> request_verify ed r) requests"
    by (simp add: chunk_failure_def option.map_ident)
  show ?thesis
  proof (cases "workers < 2 \<or> length requests < MIN_PARALLEL_REQUESTS")
    case True
    then show ?thesis by (simp add: first_failure_def Let_def base flip: workers_def)
  next
    case False
    define n where "n = (length requests + workers - 1) div workers"
    have "requests \<noteq> []" and "0 < n"
      using False by (auto simp: n_def MIN_PARALLEL_REQUESTS_def div_greater_zero_iff)
    then have parts: "chunks n requests = take n requests # chunks n (drop n requests)"
      by (simp add: chunks.simps [of n requests])
    show ?thesis
    proof (cases "spawn_chunks spawns n 1 (chunks n (drop n requests))")
      case None
      with False show ?thesis
        unfolding first_failure_def Let_def workers_def [symmetric] n_def [symmetric]
        by (simp add: base parts)
    next
      case (Some handles)
      have "lower (chunk_failure ed (take n requests) 0) (chunk_failure ed (drop n requests) (1 * n))
          = chunk_failure ed requests 0"
        using chunk_failure_append [of ed "take n requests" "drop n requests" 0]
        by (cases "length requests \<le> n") simp_all
      with False Some spawn_chunks_failure [OF Some \<open>0 < n\<close>] show ?thesis
        unfolding first_failure_def Let_def workers_def [symmetric] n_def [symmetric]
        by (simp add: base parts)
    qed
  qed
qed

lemma verify_all_iff: "verify_all ed spawns requests workers \<longleftrightarrow> list_all (request_verify ed) requests"
  by (simp add: verify_all_def first_failure_position position_None)

lemma first_digest_failure_position:
  "first_digest_failure ed hst requests = position (\<lambda>r. \<not> digest_verify ed r) requests"
  by (simp add: first_digest_failure_def first_failure_position position_map comp_def
      request_verify_def borrow_digest_def digest_verify_def)

section \<open>Merkle root of block contents (lib.rs)\<close>

text \<open>
  The buffer of an interior node has 69 bytes: the tag, the two children and four
  bytes that stay zero.
\<close>

definition interior_preimage :: "hash256 \<Rightarrow> hash256 \<Rightarrow> byte list" where
  "interior_preimage l r = 0x01 # be_bytes l @ be_bytes r @ [0, 0, 0, 0]"

fun merkle_level :: "(byte list \<Rightarrow> hash256) \<Rightarrow> hash256 list \<Rightarrow> hash256 list" where
  "merkle_level blake2s (l # r # hs) = blake2s (interior_preimage l r) # merkle_level blake2s hs"
| "merkle_level blake2s [h] = [h]"
| "merkle_level blake2s [] = []"

lemma length_merkle_level: "length (merkle_level blake2s hs) = (length hs + 1) div 2"
  by (induction blake2s hs rule: merkle_level.induct) auto

function merkle_reduce :: "(byte list \<Rightarrow> hash256) \<Rightarrow> hash256 list \<Rightarrow> hash256 list" where
  "merkle_reduce blake2s current =
     (if length current > 1 then merkle_reduce blake2s (merkle_level blake2s current) else current)"
  by pat_completeness auto
termination
  by (relation "measure (\<lambda>(_, hs). length hs)") (auto simp: length_merkle_level)

declare merkle_reduce.simps [simp del]

definition merkle_root :: "(byte list \<Rightarrow> hash256) \<Rightarrow> hash256 list \<Rightarrow> hash256" where
  "merkle_root blake2s leaves =
     (if length leaves = 0 then 0
      else if length leaves = 1 then leaves ! 0
      else merkle_reduce blake2s leaves ! 0)"

text \<open>
  Leaves carry no tag of their own, so an interior node can stand as a leaf of a shorter list with the same root: the root binds
  the leaves only for a known number of them.
\<close>

lemma merkle_root_interior_leaf:
  "merkle_root blake2s [a, b, c] = merkle_root blake2s [blake2s (interior_preimage a b), c]"
  by (simp add: merkle_root_def merkle_reduce.simps)

definition compute_receipts_root :: "(byte list \<Rightarrow> hash256) \<Rightarrow> hash256 list \<Rightarrow> hash256" where
  "compute_receipts_root blake2s commitments = merkle_root blake2s commitments"

definition compute_transactions_root :: "(byte list \<Rightarrow> hash256) \<Rightarrow> hash256 list \<Rightarrow> hash256" where
  "compute_transactions_root blake2s tx_hashes = merkle_root blake2s tx_hashes"

text \<open>The messages hashed while the root of a list is computed.\<close>

fun level_preimages :: "hash256 list \<Rightarrow> byte list set" where
  "level_preimages (l # r # hs) = insert (interior_preimage l r) (level_preimages hs)"
| "level_preimages _ = {}"

function merkle_preimages :: "(byte list \<Rightarrow> hash256) \<Rightarrow> hash256 list \<Rightarrow> byte list set" where
  "merkle_preimages blake2s hs =
     (if length hs > 1 then level_preimages hs \<union> merkle_preimages blake2s (merkle_level blake2s hs)
      else {})"
  by pat_completeness auto
termination
  by (relation "measure (\<lambda>(_, hs). length hs)") (auto simp: length_merkle_level)

declare merkle_preimages.simps [simp del]

lemma interior_preimage_inject [simp]:
  "interior_preimage l r = interior_preimage l' r' \<longleftrightarrow> l = l' \<and> r = r'"
  by (simp add: interior_preimage_def)

lemma merkle_level_inject:
  assumes "length hs = length hs'" and "merkle_level blake2s hs = merkle_level blake2s hs'"
    and "inj_on blake2s (level_preimages hs \<union> level_preimages hs')"
  shows "hs = hs'"
  using assms
proof (induction hs arbitrary: hs' rule: level_preimages.induct)
  case (1 l r hs)
  then obtain l' r' ts where hs': "hs' = l' # r' # ts" "length ts = length hs"
    by (cases hs'; cases "tl hs'") auto
  have heads: "blake2s (interior_preimage l r) = blake2s (interior_preimage l' r')"
    and tails: "merkle_level blake2s hs = merkle_level blake2s ts"
    using "1.prems"(2) hs' by simp_all
  have inj: "inj_on blake2s (insert (interior_preimage l r) (level_preimages hs)
      \<union> insert (interior_preimage l' r') (level_preimages ts))"
    using "1.prems"(3) hs'(1) by simp
  have "interior_preimage l r = interior_preimage l' r'"
    using inj_onD [OF inj heads] by simp
  moreover have "inj_on blake2s (level_preimages hs \<union> level_preimages ts)"
    by (rule inj_on_subset [OF inj]) auto
  then have "hs = ts"
    using tails hs'(2) by (intro "1.IH") simp_all
  ultimately show ?case by (simp add: hs')
qed (auto simp: Suc_length_conv)

lemma length_merkle_reduce: "length hs > 0 \<Longrightarrow> length (merkle_reduce blake2s hs) = 1"
proof (induction blake2s hs rule: merkle_reduce.induct)
  case (1 blake2s hs)
  show ?case
  proof (cases "length hs > 1")
    case True
    then have "length (merkle_level blake2s hs) > 0" by (simp add: length_merkle_level)
    with True 1 show ?thesis by (simp add: merkle_reduce.simps [of blake2s hs])
  next
    case False
    with "1.prems" have "length hs = 1" by linarith
    then show ?thesis by (simp add: merkle_reduce.simps [of blake2s hs])
  qed
qed

lemma merkle_reduce_inject:
  "length hs = length hs' \<Longrightarrow> merkle_reduce blake2s hs = merkle_reduce blake2s hs' \<Longrightarrow>
   inj_on blake2s (merkle_preimages blake2s hs \<union> merkle_preimages blake2s hs') \<Longrightarrow> hs = hs'"
proof (induction blake2s hs arbitrary: hs' rule: merkle_reduce.induct)
  case (1 blake2s hs)
  show ?case
  proof (cases "length hs > 1")
    case True
    with 1 have "merkle_level blake2s hs = merkle_level blake2s hs'"
      by (intro "1.IH")
        (auto simp: length_merkle_level merkle_reduce.simps [of blake2s hs] merkle_reduce.simps [of blake2s hs']
          merkle_preimages.simps [of blake2s hs] merkle_preimages.simps [of blake2s hs'] elim: inj_on_subset)
    moreover have "inj_on blake2s (level_preimages hs \<union> level_preimages hs')"
      using True 1(2,4)
      by (auto simp: merkle_preimages.simps [of blake2s hs] merkle_preimages.simps [of blake2s hs']
          elim: inj_on_subset)
    ultimately show ?thesis using merkle_level_inject 1(2) by blast
  next
    case False
    with 1 show ?thesis
      by (simp add: merkle_reduce.simps [of blake2s hs] merkle_reduce.simps [of blake2s hs'])
  qed
qed

end
