(* ===== verification/Astro_Votes.thy ===== *)
theory Astro_Votes
  imports Astro_Codec Astro_Crypto
begin

text \<open>
  The signed messages of the crate \<open>consensus\<close> and their version-1 envelopes: votes
  (vote.rs), proposals (proposal.rs), finality certificates (certificate.rs), prevote
  proofs (prevote.rs, the encoding) and double-vote evidence (evidence.rs, the structure).
  Each envelope is a codec in the sense of the locale \<open>wire_format\<close>.
\<close>

section \<open>Votes (vote.rs)\<close>

datatype vote_phase = Prevote | Precommit

instantiation vote_phase :: linorder
begin

definition less_vote_phase :: "vote_phase \<Rightarrow> vote_phase \<Rightarrow> bool" where
  "less_vote_phase p q \<longleftrightarrow> p = Prevote \<and> q = Precommit"

definition less_eq_vote_phase :: "vote_phase \<Rightarrow> vote_phase \<Rightarrow> bool" where
  "less_eq_vote_phase p q \<longleftrightarrow> p = q \<or> p < (q :: vote_phase)"

instance
proof
  fix x y z :: vote_phase
  show "x \<le> y \<or> y \<le> x"
    by (cases x; cases y) (simp_all add: less_vote_phase_def less_eq_vote_phase_def)
qed (auto simp: less_vote_phase_def less_eq_vote_phase_def)

end

record vote =
  vote_chain_id :: u32
  vote_committee_root :: hash256
  vote_height :: u64
  vote_round :: u32
  vote_phase :: vote_phase
  vote_block :: "hash256 option"
  vote_voter :: validator_id
  vote_signature :: bytes64

fun phase_tag :: "vote_phase \<Rightarrow> u8" where
  "phase_tag Prevote = 0"
| "phase_tag Precommit = 1"

fun block_bytes :: "hash256 option \<Rightarrow> byte list" where
  "block_bytes None = 0 # be_bytes (0 :: hash256)"
| "block_bytes (Some h) = 1 # be_bytes h"

definition vote_signing_bytes :: "vote \<Rightarrow> byte list" where
  "vote_signing_bytes v = ascii ''ALVT'' @ le_bytes (1 :: u32) @ le_bytes (vote_chain_id v)
     @ le_bytes (vote_height v) @ le_bytes (vote_round v) @ [phase_tag (vote_phase v)]
     @ block_bytes (vote_block v) @ be_bytes (vote_committee_root v) @ be_bytes (vote_voter v)"

definition vote_signing_hash :: "(byte list \<Rightarrow> hash256) \<Rightarrow> vote \<Rightarrow> hash256" where
  "vote_signing_hash blake2s v = domain_hash blake2s DOMAIN_CONSENSUS_VOTE (vote_signing_bytes v)"

definition encode_vote :: "vote \<Rightarrow> byte list" where
  "encode_vote v = vote_signing_bytes v @ be_bytes (vote_signature v)"

text \<open>Magic and version, which open every consensus envelope.\<close>

definition read_magic :: "string \<Rightarrow> decoder \<Rightarrow> decode_error + decoder" where
  "read_magic magic d = try_bind (read_exact 4 d) (\<lambda>(m, d).
     if m \<noteq> ascii magic then Err Unsupported
     else try_bind (read_u32 d) (\<lambda>(version, d).
       if version \<noteq> 1 then Err Unsupported else Ok d))"

definition phase_of_tag :: "u8 \<Rightarrow> decode_error + vote_phase" where
  "phase_of_tag b = (if b = 0 then Ok Prevote else if b = 1 then Ok Precommit else Err Unsupported)"

definition block_of_wire :: "u8 \<Rightarrow> hash256 \<Rightarrow> decode_error + hash256 option" where
  "block_of_wire present h =
     (if present = 0 \<and> h = 0 then Ok None else if present = 1 then Ok (Some h) else Err NonCanonical)"

definition decode_vote :: "byte list \<Rightarrow> decode_error + vote" where
  "decode_vote bytes =
     try_bind (read_magic ''ALVT'' (decoder_new bytes)) (\<lambda>d.
     try_bind (read_u32 d) (\<lambda>(chain_id, d).
     try_bind (read_u64 d) (\<lambda>(height, d).
     try_bind (read_u32 d) (\<lambda>(round, d).
     try_bind (read_u8 d) (\<lambda>(tag, d).
     try_bind (phase_of_tag tag) (\<lambda>phase.
     try_bind (read_u8 d) (\<lambda>(present, d).
     try_bind (read_fixed d) (\<lambda>(h, d).
     try_bind (block_of_wire present h) (\<lambda>block.
     try_bind (read_fixed d) (\<lambda>(committee_root, d).
     try_bind (read_fixed d) (\<lambda>(voter, d).
     try_bind (read_fixed d) (\<lambda>(signature, d).
     try_bind (finish d) (\<lambda>_.
     Ok \<lparr>vote_chain_id = chain_id, vote_committee_root = committee_root, vote_height = height,
         vote_round = round, vote_phase = phase, vote_block = block, vote_voter = voter,
         vote_signature = signature\<rparr>)))))))))))))"

lemma length_block_bytes [simp]: "length (block_bytes b) = 33"
  by (cases b) simp_all

lemma length_vote_signing_bytes [simp]: "length (vote_signing_bytes v) = 122"
  by (simp add: vote_signing_bytes_def)

lemma length_encode_vote [simp]: "length (encode_vote v) = 186"
  by (simp add: encode_vote_def)

lemma phase_of_tag_Ok: "phase_of_tag b = Ok p \<longleftrightarrow> b = phase_tag p"
  by (cases p) (auto simp: phase_of_tag_def)

lemma phase_of_tag_tag [simp]: "phase_of_tag (phase_tag p) = Ok p"
  by (simp add: phase_of_tag_Ok)

lemma phase_tag_inject [simp]: "phase_tag p = phase_tag q \<longleftrightarrow> p = q"
  by (cases p; cases q) simp_all

lemma block_of_wire_Ok: "block_of_wire present h = Ok b \<longleftrightarrow> block_bytes b = present # be_bytes h"
  by (cases b) (auto simp: block_of_wire_def)

lemma block_bytes_inject [simp]: "block_bytes a = block_bytes b \<longleftrightarrow> a = b"
  by (cases a; cases b) auto

lemma read_magic_sound:
  "length magic = 4 \<Longrightarrow> read_magic magic d = Ok d' \<Longrightarrow>
   rest d = ascii magic @ le_bytes (1 :: u32) @ rest d'"
  by (auto simp: read_magic_def result_simps split: if_splits
      dest!: read_exact_sound read_u32_sound)

lemma read_magic_at [simp]:
  "length magic = 4 \<Longrightarrow> length pre + 8 < usize_limit \<Longrightarrow>
   read_magic magic (dec_at pre (ascii magic @ le_bytes (1 :: u32) @ post))
     = Ok (dec_at (pre @ ascii magic @ le_bytes (1 :: u32)) post)"
  by (simp add: read_magic_def)

lemma decode_vote_sound:
  assumes "decode_vote bs = Ok v"
  shows "bs = encode_vote v"
  using assms unfolding decode_vote_def
  apply (clarsimp simp: result_simps finish_Ok phase_of_tag_Ok block_of_wire_Ok)
  apply (drule read_sound)+
  apply (drule read_magic_sound [rotated], simp)
  apply (simp add: encode_vote_def vote_signing_bytes_def)
  done

lemma decode_vote_complete: "decode_vote (encode_vote v) = Ok v"
proof -
  obtain present and h :: hash256 where b: "block_bytes (vote_block v) = present # be_bytes h"
    by (cases "vote_block v") auto
  then have "block_of_wire present h = Ok (vote_block v)"
    by (simp add: block_of_wire_Ok)
  then show ?thesis
    by (simp add: decode_vote_def encode_vote_def vote_signing_bytes_def b decoder_new_dec_at
        usize_limit_def)
qed

interpretation vote_format: wire_format "Some \<circ> encode_vote" decode_vote "\<lambda>_. True"
  by unfold_locales (auto simp: decode_vote_complete usize_limit_def dest: decode_vote_sound)

lemma vote_signing_bytes_inject:
  "vote_signing_bytes v = vote_signing_bytes w \<longleftrightarrow>
     v\<lparr>vote_signature := 0\<rparr> = w\<lparr>vote_signature := 0\<rparr>"
  by (cases v; cases w) (auto simp: vote_signing_bytes_def)

section \<open>Proposals (proposal.rs)\<close>

record proposal =
  prop_chain_id :: u32
  prop_genesis :: hash256
  prop_height :: u64
  prop_round :: u32
  prop_committee_root :: hash256
  prop_block :: hash256
  prop_proposer :: validator_id
  prop_valid_round :: "u32 option"
  prop_signature :: bytes64

fun round_bytes :: "u32 option \<Rightarrow> byte list" where
  "round_bytes None = 0 # le_bytes (0 :: u32)"
| "round_bytes (Some r) = 1 # le_bytes r"

definition proposal_signing_bytes :: "proposal \<Rightarrow> byte list" where
  "proposal_signing_bytes p = ascii ''ALPR'' @ le_bytes (1 :: u32) @ le_bytes (prop_chain_id p)
     @ be_bytes (prop_genesis p) @ le_bytes (prop_height p) @ le_bytes (prop_round p)
     @ be_bytes (prop_committee_root p) @ be_bytes (prop_block p) @ be_bytes (prop_proposer p)
     @ round_bytes (prop_valid_round p)"

definition proposal_signing_hash :: "(byte list \<Rightarrow> hash256) \<Rightarrow> proposal \<Rightarrow> hash256" where
  "proposal_signing_hash blake2s p =
     domain_hash blake2s DOMAIN_CONSENSUS_PROPOSAL (proposal_signing_bytes p)"

definition encode_proposal :: "proposal \<Rightarrow> byte list" where
  "encode_proposal p = proposal_signing_bytes p @ be_bytes (prop_signature p)"

definition valid_round_of_wire :: "u8 \<Rightarrow> u32 \<Rightarrow> u32 \<Rightarrow> decode_error + u32 option" where
  "valid_round_of_wire flag val round =
     (if flag = 0 \<and> val = 0 then Ok None
      else if flag = 1 \<and> val < round then Ok (Some val) else Err NonCanonical)"

definition decode_proposal :: "byte list \<Rightarrow> decode_error + proposal" where
  "decode_proposal bytes =
     try_bind (read_magic ''ALPR'' (decoder_new bytes)) (\<lambda>d.
     try_bind (read_u32 d) (\<lambda>(chain_id, d).
     try_bind (read_fixed d) (\<lambda>(genesis, d).
     try_bind (read_u64 d) (\<lambda>(height, d).
     try_bind (read_u32 d) (\<lambda>(round, d).
     try_bind (read_fixed d) (\<lambda>(committee_root, d).
     try_bind (read_fixed d) (\<lambda>(block, d).
     try_bind (read_fixed d) (\<lambda>(proposer, d).
     try_bind (read_u8 d) (\<lambda>(flag, d).
     try_bind (read_u32 d) (\<lambda>(val, d).
     try_bind (valid_round_of_wire flag val round) (\<lambda>valid_round.
     try_bind (read_fixed d) (\<lambda>(signature, d).
     try_bind (finish d) (\<lambda>_.
     Ok \<lparr>prop_chain_id = chain_id, prop_genesis = genesis, prop_height = height,
         prop_round = round, prop_committee_root = committee_root, prop_block = block,
         prop_proposer = proposer, prop_valid_round = valid_round,
         prop_signature = signature\<rparr>)))))))))))))"

definition wire_proposal :: "proposal \<Rightarrow> bool" where
  "wire_proposal p \<longleftrightarrow> (\<forall>r. prop_valid_round p = Some r \<longrightarrow> r < prop_round p)"

lemma length_round_bytes [simp]: "length (round_bytes r) = 5"
  by (cases r) simp_all

lemma length_proposal_signing_bytes [simp]: "length (proposal_signing_bytes p) = 157"
  by (simp add: proposal_signing_bytes_def)

lemma length_encode_proposal [simp]: "length (encode_proposal p) = 221"
  by (simp add: encode_proposal_def)

lemma round_bytes_inject [simp]: "round_bytes a = round_bytes b \<longleftrightarrow> a = b"
  by (cases a; cases b) auto

lemma valid_round_of_wire_Ok:
  "valid_round_of_wire flag val round = Ok r \<longleftrightarrow>
     round_bytes r = flag # le_bytes val \<and> (\<forall>q. r = Some q \<longrightarrow> q < round)"
  by (cases r) (auto simp: valid_round_of_wire_def)

lemma decode_proposal_sound:
  assumes "decode_proposal bs = Ok p"
  shows "wire_proposal p \<and> bs = encode_proposal p"
  using assms unfolding decode_proposal_def
  apply (clarsimp simp: result_simps finish_Ok valid_round_of_wire_Ok)
  apply (drule read_sound)+
  apply (drule read_magic_sound [rotated], simp)
  apply (simp add: wire_proposal_def encode_proposal_def proposal_signing_bytes_def)
  done

lemma decode_proposal_complete: "wire_proposal p \<Longrightarrow> decode_proposal (encode_proposal p) = Ok p"
proof -
  assume p: "wire_proposal p"
  obtain flag and r :: u32 where r: "round_bytes (prop_valid_round p) = flag # le_bytes r"
    by (cases "prop_valid_round p") auto
  with p have "valid_round_of_wire flag r (prop_round p) = Ok (prop_valid_round p)"
    by (simp add: valid_round_of_wire_Ok wire_proposal_def)
  then show ?thesis
    by (simp add: decode_proposal_def encode_proposal_def proposal_signing_bytes_def r
        decoder_new_dec_at usize_limit_def)
qed

interpretation proposal_format: wire_format "Some \<circ> encode_proposal" decode_proposal wire_proposal
  by unfold_locales
    (auto simp: decode_proposal_complete usize_limit_def dest: decode_proposal_sound)

section \<open>Finality certificates (certificate.rs)\<close>

definition MAX_COMMITTEE_MEMBERS :: nat where "MAX_COMMITTEE_MEMBERS = 4096"

record certificate_signature =
  cs_voter :: validator_id
  cs_signature :: bytes64

record finality_certificate =
  fc_chain_id :: u32
  fc_height :: u64
  fc_round :: u32
  fc_committee_root :: hash256
  fc_block :: hash256
  fc_signatures :: "certificate_signature list"

definition validate_shape :: "finality_certificate \<Rightarrow> decode_error + unit" where
  "validate_shape c =
     (if fc_signatures c = [] \<or> length (fc_signatures c) > MAX_COMMITTEE_MEMBERS
      then Err LimitExceeded
      else if list_ex (\<lambda>(a, b). cs_voter a \<ge> cs_voter b) (windows2 (fc_signatures c))
      then Err NonCanonical
      else Ok ())"

definition entry_bytes :: "certificate_signature \<Rightarrow> byte list" where
  "entry_bytes e = be_bytes (cs_voter e) @ be_bytes (cs_signature e)"

definition encode_certificate :: "finality_certificate \<Rightarrow> decode_error + byte list" where
  "encode_certificate c = try_bind (validate_shape c) (\<lambda>_.
     if length (fc_signatures c) < 2 ^ 32
     then Ok (ascii ''ALFC'' @ le_bytes (1 :: u32) @ le_bytes (fc_chain_id c)
       @ le_bytes (fc_height c) @ le_bytes (fc_round c) @ be_bytes (fc_committee_root c)
       @ be_bytes (fc_block c) @ le_bytes (of_nat (length (fc_signatures c)) :: u32)
       @ concat (map entry_bytes (fc_signatures c)))
     else Err LimitExceeded)"

fun read_entries :: "nat \<Rightarrow> decoder \<Rightarrow> decode_error + certificate_signature list \<times> decoder" where
  "read_entries 0 d = Ok ([], d)"
| "read_entries (Suc n) d =
     try_bind (read_fixed d) (\<lambda>(voter, d).
     try_bind (read_fixed d) (\<lambda>(signature, d).
     try_bind (read_entries n d) (\<lambda>(es, d).
     Ok (\<lparr>cs_voter = voter, cs_signature = signature\<rparr> # es, d))))"

definition decode_certificate :: "byte list \<Rightarrow> decode_error + finality_certificate" where
  "decode_certificate bytes =
     (if length bytes > 92 + 96 * MAX_COMMITTEE_MEMBERS then Err LimitExceeded else
     try_bind (read_magic ''ALFC'' (decoder_new bytes)) (\<lambda>d.
     try_bind (read_u32 d) (\<lambda>(chain_id, d).
     try_bind (read_u64 d) (\<lambda>(height, d).
     try_bind (read_u32 d) (\<lambda>(round, d).
     try_bind (read_fixed d) (\<lambda>(committee_root, d).
     try_bind (read_fixed d) (\<lambda>(block, d).
     try_bind (read_u32 d) (\<lambda>(n, d).
     let count = unat n in
     if count = 0 \<or> count > MAX_COMMITTEE_MEMBERS then Err LimitExceeded
     else if remaining d \<noteq> count * 96 then Err NonCanonical
     else
     try_bind (read_entries count d) (\<lambda>(signatures, d).
     try_bind (finish d) (\<lambda>_.
     let certificate = \<lparr>fc_chain_id = chain_id, fc_height = height, fc_round = round,
           fc_committee_root = committee_root, fc_block = block, fc_signatures = signatures\<rparr> in
     try_bind (validate_shape certificate) (\<lambda>_. Ok certificate)))))))))))"

definition certificate_commitment ::
  "(byte list \<Rightarrow> hash256) \<Rightarrow> finality_certificate \<Rightarrow> decode_error + hash256" where
  "certificate_commitment blake2s c =
     try_bind (encode_certificate c) (\<lambda>bs. Ok (domain_hash blake2s DOMAIN_FINALITY bs))"

definition wire_certificate :: "finality_certificate \<Rightarrow> bool" where
  "wire_certificate c \<longleftrightarrow> fc_signatures c \<noteq> [] \<and> length (fc_signatures c) \<le> MAX_COMMITTEE_MEMBERS
     \<and> sorted_wrt (<) (map cs_voter (fc_signatures c))"

lemma validate_shape_Ok: "validate_shape c = Ok u \<longleftrightarrow> wire_certificate c"
  using windows2_ascending [of cs_voter "fc_signatures c"]
  by (auto simp: validate_shape_def wire_certificate_def split: if_splits)

lemma length_entry_bytes [simp]: "length (entry_bytes e) = 96"
  by (simp add: entry_bytes_def)

lemma length_concat_entries [simp]: "length (concat (map entry_bytes es)) = 96 * length es"
  by (induction es) simp_all

lemma read_entries_sound:
  "read_entries n d = Ok (es, d') \<Longrightarrow>
   length es = n \<and> rest d = concat (map entry_bytes es) @ rest d'"
proof (induction n arbitrary: d es)
  case (Suc n)
  then obtain voter d1 sig d2 es' where
    r: "read_fixed d = Ok (voter, d1)" "read_fixed d1 = Ok (sig, d2)" "read_entries n d2 = Ok (es', d')"
      "es = \<lparr>cs_voter = voter, cs_signature = sig\<rparr> # es'"
    by (auto simp: result_simps)
  from Suc.IH [OF r(3)] read_sound(5) [OF r(1)] read_sound(6) [OF r(2)] r(4) show ?case
    by (simp add: entry_bytes_def)
qed simp

lemma read_entries_at:
  "length pre + 96 * length es < usize_limit \<Longrightarrow>
   read_entries (length es) (dec_at pre (concat (map entry_bytes es) @ post))
     = Ok (es, dec_at (pre @ concat (map entry_bytes es)) post)"
  by (induction es arbitrary: pre) (simp_all add: entry_bytes_def)

lemma decode_certificate_sound:
  assumes "decode_certificate bs = Ok c"
  shows "wire_certificate c \<and> encode_certificate c = Ok bs"
  using assms unfolding decode_certificate_def
  apply (clarsimp simp: result_simps finish_Ok Let_def split: if_splits)
  apply (drule read_sound read_entries_sound)+
  apply (drule read_magic_sound [rotated], simp)
  apply (clarsimp simp: encode_certificate_def)
  apply (auto simp: validate_shape_Ok wire_certificate_def MAX_COMMITTEE_MEMBERS_def)
  done

lemma decode_certificate_complete:
  assumes "wire_certificate c" and "encode_certificate c = Ok bs"
  shows "decode_certificate bs = Ok c"
proof -
  have n: "0 < length (fc_signatures c)" "length (fc_signatures c) \<le> 4096"
    and shape: "validate_shape c = Ok ()"
    using assms(1) by (auto simp: wire_certificate_def MAX_COMMITTEE_MEMBERS_def validate_shape_Ok)
  then have count: "unat (of_nat (length (fc_signatures c)) :: u32) = length (fc_signatures c)"
    by (simp add: unat_of_nat)
  have bs: "bs = ascii ''ALFC'' @ le_bytes (1 :: u32) @ le_bytes (fc_chain_id c)
       @ le_bytes (fc_height c) @ le_bytes (fc_round c) @ be_bytes (fc_committee_root c)
       @ be_bytes (fc_block c) @ le_bytes (of_nat (length (fc_signatures c)) :: u32)
       @ concat (map entry_bytes (fc_signatures c))"
    using assms(2) shape by (simp add: encode_certificate_def split: if_splits)
  have entries: "read_entries (length (fc_signatures c)) (dec_at pre (concat (map entry_bytes (fc_signatures c))))
     = Ok (fc_signatures c, dec_at (pre @ concat (map entry_bytes (fc_signatures c))) [])"
    if "length pre < 1000" for pre
    using read_entries_at [of pre "fc_signatures c" "[]"] that n by (simp add: usize_limit_def)
  have eta: "\<lparr>fc_chain_id = fc_chain_id c, fc_height = fc_height c, fc_round = fc_round c,
      fc_committee_root = fc_committee_root c, fc_block = fc_block c,
      fc_signatures = fc_signatures c\<rparr> = c" by simp
  show ?thesis
    using n shape
    unfolding decode_certificate_def bs decoder_new_dec_at
    by (simp add: count entries remaining_rest MAX_COMMITTEE_MEMBERS_def usize_limit_def Let_def eta)
qed

definition certificate_wire :: "finality_certificate \<Rightarrow> byte list option" where
  "certificate_wire c = (case encode_certificate c of Ok bs \<Rightarrow> Some bs | Err _ \<Rightarrow> None)"

interpretation certificate_format: wire_format certificate_wire decode_certificate wire_certificate
proof unfold_locales
  fix bs :: "byte list" and c
  show "decode_certificate bs = Ok c \<longleftrightarrow> wire_certificate c \<and> certificate_wire c = Some bs"
  proof
    assume "decode_certificate bs = Ok c"
    then show "wire_certificate c \<and> certificate_wire c = Some bs"
      using decode_certificate_sound [of bs c] by (simp add: certificate_wire_def)
  next
    assume "wire_certificate c \<and> certificate_wire c = Some bs"
    then show "decode_certificate bs = Ok c"
      using decode_certificate_complete [of c bs] by (simp add: certificate_wire_def split: sum.splits)
  qed
next
  fix c
  assume "wire_certificate c"
  then show "\<exists>bs. certificate_wire c = Some bs \<and> length bs < usize_limit"
    using validate_shape_Ok [of c "()"]
    by (auto simp: certificate_wire_def encode_certificate_def wire_certificate_def
        MAX_COMMITTEE_MEMBERS_def usize_limit_def)
qed

section \<open>Prevote proofs on the wire (prevote.rs)\<close>

text \<open>The count is \<open>u32::try_from(len).unwrap_or(0)\<close>.\<close>

definition encode_prevotes :: "vote list \<Rightarrow> byte list" where
  "encode_prevotes votes = ascii ''ALPV'' @ le_bytes (1 :: u32)
     @ le_bytes (if length votes < 2 ^ 32 then of_nat (length votes) else 0 :: u32)
     @ concat (map encode_vote votes)"

fun read_votes :: "nat \<Rightarrow> decoder \<Rightarrow> decode_error + vote list \<times> decoder" where
  "read_votes 0 d = Ok ([], d)"
| "read_votes (Suc n) d =
     try_bind (read_exact 186 d) (\<lambda>(bs, d).
     try_bind (decode_vote bs) (\<lambda>v.
     try_bind (read_votes n d) (\<lambda>(vs, d). Ok (v # vs, d))))"

definition parse_prevotes :: "byte list \<Rightarrow> decode_error + vote list" where
  "parse_prevotes bytes =
     (if length bytes > 12 + 186 * MAX_COMMITTEE_MEMBERS then Err LimitExceeded else
     try_bind (read_magic ''ALPV'' (decoder_new bytes)) (\<lambda>d.
     try_bind (read_u32 d) (\<lambda>(n, d).
     let count = unat n in
     if count = 0 \<or> count > MAX_COMMITTEE_MEMBERS \<or> remaining d \<noteq> 186 * count
     then Err LimitExceeded
     else try_bind (read_votes count d) (\<lambda>(votes, d).
     try_bind (finish d) (\<lambda>_. Ok votes)))))"

definition wire_prevotes :: "vote list \<Rightarrow> bool" where
  "wire_prevotes votes \<longleftrightarrow> votes \<noteq> [] \<and> length votes \<le> MAX_COMMITTEE_MEMBERS"

lemma length_concat_votes [simp]: "length (concat (map encode_vote vs)) = 186 * length vs"
  by (induction vs) simp_all

lemma read_votes_sound:
  "read_votes n d = Ok (vs, d') \<Longrightarrow> length vs = n \<and> rest d = concat (map encode_vote vs) @ rest d'"
proof (induction n arbitrary: d vs)
  case (Suc n)
  then obtain bs d1 v vs' where
    r: "read_exact 186 d = Ok (bs, d1)" "decode_vote bs = Ok v" "read_votes n d1 = Ok (vs', d')"
      "vs = v # vs'"
    by (auto simp: result_simps)
  from Suc.IH [OF r(3)] read_exact_sound [OF r(1)] decode_vote_sound [OF r(2)] r(4) show ?case
    by simp
qed simp

lemma read_votes_at:
  "length pre + 186 * length vs < usize_limit \<Longrightarrow>
   read_votes (length vs) (dec_at pre (concat (map encode_vote vs) @ post))
     = Ok (vs, dec_at (pre @ concat (map encode_vote vs)) post)"
  by (induction vs arbitrary: pre) (simp_all add: decode_vote_complete)

lemma parse_prevotes_sound:
  assumes "parse_prevotes bs = Ok vs"
  shows "wire_prevotes vs \<and> bs = encode_prevotes vs"
  using assms unfolding parse_prevotes_def
  apply (clarsimp simp: result_simps finish_Ok Let_def split: if_splits)
  apply (drule read_sound read_votes_sound)+
  apply (drule read_magic_sound [rotated], simp)
  apply (auto simp: encode_prevotes_def wire_prevotes_def MAX_COMMITTEE_MEMBERS_def)
  done

lemma parse_prevotes_complete:
  assumes "wire_prevotes vs"
  shows "parse_prevotes (encode_prevotes vs) = Ok vs"
proof -
  have n: "0 < length vs" "length vs \<le> 4096"
    using assms by (auto simp: wire_prevotes_def MAX_COMMITTEE_MEMBERS_def)
  then have count: "unat (of_nat (length vs) :: u32) = length vs" and "length vs < 2 ^ 32"
    by (simp_all add: unat_of_nat)
  have votes: "read_votes (length vs) (dec_at pre (concat (map encode_vote vs)))
      = Ok (vs, dec_at (pre @ concat (map encode_vote vs)) [])" if "length pre < 1000" for pre
    using read_votes_at [of pre vs "[]"] that n by (simp add: usize_limit_def)
  show ?thesis
    using n \<open>length vs < 2 ^ 32\<close>
    unfolding parse_prevotes_def encode_prevotes_def decoder_new_dec_at
    by (simp add: count votes remaining_rest MAX_COMMITTEE_MEMBERS_def usize_limit_def Let_def)
qed

lemma length_encode_prevotes [simp]: "length (encode_prevotes vs) = 12 + 186 * length vs"
  by (simp add: encode_prevotes_def)

interpretation prevotes_format: wire_format "Some \<circ> encode_prevotes" parse_prevotes wire_prevotes
proof unfold_locales
  fix vs
  show "wire_prevotes vs \<Longrightarrow> \<exists>bs. (Some \<circ> encode_prevotes) vs = Some bs \<and> length bs < usize_limit"
    by (simp add: wire_prevotes_def MAX_COMMITTEE_MEMBERS_def usize_limit_def)
qed (auto simp: parse_prevotes_complete dest: parse_prevotes_sound)

section \<open>Double-vote evidence, its structure (evidence.rs)\<close>

record double_vote_evidence =
  ev_first :: vote
  ev_second :: vote

definition same_slot :: "double_vote_evidence \<Rightarrow> bool" where
  "same_slot e \<longleftrightarrow>
     vote_chain_id (ev_first e) = vote_chain_id (ev_second e)
     \<and> vote_height (ev_first e) = vote_height (ev_second e)
     \<and> vote_committee_root (ev_first e) = vote_committee_root (ev_second e)
     \<and> vote_round (ev_first e) = vote_round (ev_second e)
     \<and> vote_phase (ev_first e) = vote_phase (ev_second e)
     \<and> vote_voter (ev_first e) = vote_voter (ev_second e)
     \<and> vote_block (ev_first e) < vote_block (ev_second e)"

definition EVIDENCE_LEN :: nat where "EVIDENCE_LEN = 380"

definition encode_evidence :: "double_vote_evidence \<Rightarrow> byte list" where
  "encode_evidence e = ascii ''ALDV'' @ le_bytes (1 :: u32)
     @ encode_vote (ev_first e) @ encode_vote (ev_second e)"

definition decode_evidence :: "byte list \<Rightarrow> decode_error + double_vote_evidence" where
  "decode_evidence bytes =
     (if length bytes \<noteq> EVIDENCE_LEN then Err NonCanonical
      else if take 8 bytes \<noteq> ascii ''ALDV'' @ [1, 0, 0, 0] then Err Unsupported
      else try_bind (decode_vote (take 186 (drop 8 bytes))) (\<lambda>first.
        try_bind (decode_vote (drop 194 bytes)) (\<lambda>second.
        let proof = \<lparr>ev_first = first, ev_second = second\<rparr> in
        if \<not> same_slot proof then Err NonCanonical else Ok proof)))"

definition evidence_id :: "(byte list \<Rightarrow> hash256) \<Rightarrow> double_vote_evidence \<Rightarrow> hash256" where
  "evidence_id blake2s e = domain_hash blake2s (ascii ''astrolune.potb.double-vote.v1'') (encode_evidence e)"

definition offence_id :: "(byte list \<Rightarrow> hash256) \<Rightarrow> double_vote_evidence \<Rightarrow> hash256" where
  "offence_id blake2s e = domain_hash blake2s (ascii ''astrolune.potb.offence-slot.v1'')
     (vote_signing_bytes ((ev_first e)\<lparr>vote_block := None\<rparr>))"

lemma length_encode_evidence [simp]: "length (encode_evidence e) = 380"
  by (simp add: encode_evidence_def)

lemma le_bytes_one_u32: "le_bytes (1 :: u32) = [1, 0, 0, 0]"
  by (simp add: le_bytes_def)

interpretation evidence_format: wire_format "Some \<circ> encode_evidence" decode_evidence same_slot
proof unfold_locales
  fix bs :: "byte list" and e
  show "decode_evidence bs = Ok e \<longleftrightarrow> same_slot e \<and> (Some \<circ> encode_evidence) e = Some bs"
  proof
    assume dec: "decode_evidence bs = Ok e"
    then have "length bs = 380" and head: "take 8 bs = ascii ''ALDV'' @ [1, 0, 0, 0]"
      and first: "decode_vote (take 186 (drop 8 bs)) = Ok (ev_first e)"
      and second: "decode_vote (drop 194 bs) = Ok (ev_second e)" and "same_slot e"
      by (auto simp: decode_evidence_def EVIDENCE_LEN_def result_simps Let_def split: if_splits)
    have "drop 8 bs = take 186 (drop 8 bs) @ drop 194 bs"
      using append_take_drop_id [of 186 "drop 8 bs"] by simp
    then have "bs = take 8 bs @ take 186 (drop 8 bs) @ drop 194 bs"
      using append_take_drop_id [of 8 bs] by simp
    also have "\<dots> = encode_evidence e"
      using decode_vote_sound [OF first] decode_vote_sound [OF second] head
      by (simp add: encode_evidence_def le_bytes_one_u32)
    finally show "same_slot e \<and> (Some \<circ> encode_evidence) e = Some bs"
      using \<open>same_slot e\<close> by simp
  next
    assume "same_slot e \<and> (Some \<circ> encode_evidence) e = Some bs"
    then have "same_slot e" and bs: "bs = encode_evidence e" by simp_all
    have "take 8 bs = ascii ''ALDV'' @ [1, 0, 0, 0]" "drop 194 bs = encode_vote (ev_second e)"
      "take 186 (drop 8 bs) = encode_vote (ev_first e)"
      by (simp_all add: bs encode_evidence_def flip: le_bytes_one_u32)
    moreover have eta: "\<lparr>ev_first = ev_first e, ev_second = ev_second e\<rparr> = e" by simp
    ultimately show "decode_evidence bs = Ok e"
      using \<open>same_slot e\<close> unfolding decode_evidence_def Let_def
      by (simp add: bs EVIDENCE_LEN_def decode_vote_complete eta)
  qed
qed (simp add: usize_limit_def)

end
