(* ===== verification/Astro_Committee.thy ===== *)
theory Astro_Committee
  imports Astro_Votes
begin

text \<open>
  Weighted committees of the crate \<open>consensus\<close>: quorum arithmetic (weight.rs),
  membership and its commitment (committee.rs, authenticated.rs), authentication of votes,
  proposals and certificates against a fixed committee (authenticated.rs), verified
  prevote proofs (prevote.rs), proposal evidence (proposal.rs) and double-vote evidence
  (evidence.rs). Quorum intersection is proved once in the locale \<open>weighted_quorums\<close>.
\<close>

section \<open>Errors, weights and quorums (error.rs, weight.rs)\<close>

datatype consensus_error =
    InvalidCommittee | Equivocation | InvalidCertificate | UnknownVoter
  | DuplicateVote | InvalidProof | InvalidTransition

definition quorum_power :: "u128 \<Rightarrow> u128" where
  "quorum_power total_power = (total_power div 3) * 2 + (total_power mod 3) * 2 div 3 + 1"

lemma unat_quorum_power: "unat (quorum_power t) = 2 * unat t div 3 + 1"
proof -
  define n where "n = unat t"
  have n: "n < 2 ^ 128" using unsigned_less [of t, where ?'a = nat] by (simp add: n_def)
  have t3: "unat (t div 3) = n div 3" "unat (t mod 3) = n mod 3"
    by (simp_all add: n_def unat_div unat_mod)
  have bound: "n div 3 * 2 + 3 < 2 ^ 128"
    using n div_times_less_eq_dividend [of n 3] by simp
  have m1: "unat (t div 3 * 2) = n div 3 * 2"
    using bound t3 unat_mult_lem [of "t div 3" 2] by simp
  have small: "n mod 3 \<le> 2" using mod_less_divisor [of 3 n] by linarith
  then have m2: "unat (t mod 3 * 2) = n mod 3 * 2"
    using t3 unat_mult_lem [of "t mod 3" 2] by simp
  have d: "unat (t mod 3 * 2 div 3) = n mod 3 * 2 div 3" "n mod 3 * 2 div 3 \<le> 1"
    using m2 small by (simp_all add: unat_div)
  have a: "unat (t div 3 * 2 + t mod 3 * 2 div 3) = n div 3 * 2 + n mod 3 * 2 div 3"
    using bound m1 d unat_add_lem [of "t div 3 * 2" "t mod 3 * 2 div 3"] by simp
  have "unat (quorum_power t) = n div 3 * 2 + n mod 3 * 2 div 3 + 1"
    using bound a d(2) unat_add_lem [of "t div 3 * 2 + t mod 3 * 2 div 3" 1]
    by (simp add: quorum_power_def)
  moreover have "2 * n = n mod 3 * 2 + n div 3 * 2 * 3"
    using mult_div_mod_eq [of 3 n] by linarith
  then have "2 * n div 3 = (n mod 3 * 2 + n div 3 * 2 * 3) div 3" by (rule arg_cong)
  then have "2 * n div 3 = n mod 3 * 2 div 3 + n div 3 * 2"
    by (simp only: div_mult_self1 zero_neq_numeral not_False_eq_True add.commute)
  ultimately show ?thesis by (simp add: n_def)
qed

lemma quorum_power_le_iff: "quorum_power t \<le> p \<longleftrightarrow> 2 * unat t < 3 * unat p"
  by (simp add: word_le_nat_alt unat_quorum_power Suc_le_eq div_less_iff_less_mult mult.commute)

section \<open>Committees (committee.rs, authenticated.rs)\<close>

record committee_member =
  cm_id :: validator_id
  cm_power :: u128

record committee =
  com_height :: u64
  com_members :: "committee_member list"

fun fold_power ::
  "validator_id set \<Rightarrow> u128 \<Rightarrow> committee_member list \<Rightarrow> consensus_error + u128" where
  "fold_power seen tot [] = Ok tot"
| "fold_power seen tot (m # ms) =
     (if cm_power m = 0 \<or> cm_id m \<in> seen then Err InvalidCommittee
      else try_bind (ok_or InvalidCommittee (checked_add tot (cm_power m)))
        (\<lambda>tot. fold_power (insert (cm_id m) seen) tot ms))"

definition total_power :: "committee \<Rightarrow> consensus_error + u128" where
  "total_power c =
     (if com_members c = [] \<or> length (com_members c) > MAX_COMMITTEE_MEMBERS
      then Err InvalidCommittee else fold_power {} 0 (com_members c))"

definition committee_bytes :: "committee \<Rightarrow> u32 \<Rightarrow> byte list" where
  "committee_bytes c chain_id = ascii ''ALCM'' @ le_bytes (1 :: u32) @ le_bytes chain_id
     @ le_bytes (com_height c) @ le_bytes (of_nat (length (com_members c)) :: u32)
     @ concat (map (\<lambda>m. be_bytes (cm_id m) @ le_bytes (cm_power m)) (com_members c))"

definition commitment :: "(byte list \<Rightarrow> hash256) \<Rightarrow> committee \<Rightarrow> u32 \<Rightarrow> consensus_error + hash256" where
  "commitment blake2s c chain_id = try_bind (total_power c) (\<lambda>_.
     if length (com_members c) < 2 ^ 32
     then Ok (domain_hash blake2s DOMAIN_COMMITTEE (committee_bytes c chain_id))
     else Err InvalidCommittee)"

record auth_committee =
  ac_chain_id :: u32
  ac_height :: u64
  ac_root :: hash256
  ac_total :: u128
  ac_powers :: "(validator_id, u128) btree"
  ac_seats :: "validator_id list"
  ac_crypto :: provider

fun register_keys ::
  "(byte list \<Rightarrow> hash256) \<Rightarrow> ed25519 \<Rightarrow> (validator_id, u128) btree \<Rightarrow> bytes32 list \<Rightarrow>
   validator_id set \<Rightarrow> provider \<Rightarrow> consensus_error + provider" where
  "register_keys blake2s ed powers [] registered prov = Ok prov"
| "register_keys blake2s ed powers (key # keys) registered prov =
     try_bind (map_err (\<lambda>_. InvalidProof) (register_validator blake2s ed key prov)) (\<lambda>(vid, prov).
       if \<not> bt_contains powers vid \<or> vid \<in> registered then Err InvalidCommittee
       else register_keys blake2s ed powers keys (insert vid registered) prov)"

definition auth_committee_new ::
  "(byte list \<Rightarrow> hash256) \<Rightarrow> ed25519 \<Rightarrow> u32 \<Rightarrow> committee \<Rightarrow> bytes32 list \<Rightarrow>
   consensus_error + auth_committee" where
  "auth_committee_new blake2s ed chain_id c public_keys =
     try_bind (total_power c) (\<lambda>tot.
     try_bind (commitment blake2s c chain_id) (\<lambda>root.
     if length public_keys \<noteq> length (com_members c) then Err InvalidCommittee
     else
       let powers = bt_collect (map (\<lambda>m. (cm_id m, cm_power m)) (com_members c)) in
       try_bind (register_keys blake2s ed powers public_keys {} []) (\<lambda>crypto.
       Ok \<lparr>ac_chain_id = chain_id, ac_height = com_height c, ac_root = root, ac_total = tot,
           ac_powers = powers, ac_seats = map cm_id (com_members c), ac_crypto = crypto\<rparr>)))"

definition ac_members :: "auth_committee \<Rightarrow> validator_id list" where
  "ac_members ac = bt_keys (ac_powers ac)"

definition voting_power :: "auth_committee \<Rightarrow> validator_id \<Rightarrow> u128 option" where
  "voting_power ac v = bt_get (ac_powers ac) v"

definition ac_quorum :: "auth_committee \<Rightarrow> u128" where
  "ac_quorum ac = quorum_power (ac_total ac)"

definition round_robin_proposer :: "auth_committee \<Rightarrow> u32 \<Rightarrow> validator_id" where
  "round_robin_proposer ac round =
     (let count = of_nat (length (ac_seats ac)) :: u64;
          index = (ac_height ac mod count + ucast round mod count) mod count in
      ac_seats ac ! unat index)"

section \<open>Authentication (authenticated.rs)\<close>

definition ac_verify_proposal ::
  "(byte list \<Rightarrow> hash256) \<Rightarrow> ed25519 \<Rightarrow> auth_committee \<Rightarrow> proposal \<Rightarrow> block_header \<Rightarrow>
   validator_id \<Rightarrow> hash256 \<Rightarrow> consensus_error + unit" where
  "ac_verify_proposal blake2s ed ac p header expected_proposer genesis =
     (if genesis = 0 \<or> prop_genesis p \<noteq> genesis \<or> prop_chain_id p \<noteq> ac_chain_id ac
         \<or> prop_height p \<noteq> ac_height ac \<or> prop_committee_root p \<noteq> ac_root ac
         \<or> hdr_height header \<noteq> ac_height ac \<or> hdr_committee_root header \<noteq> ac_root ac
         \<or> prop_block p \<noteq> header_compute_hash blake2s header
         \<or> prop_proposer p \<noteq> expected_proposer
         \<or> (case prop_valid_round p of None \<Rightarrow> False | Some r \<Rightarrow> r \<ge> prop_round p)
      then Err InvalidTransition
      else if \<not> bt_contains (ac_powers ac) expected_proposer then Err UnknownVoter
      else if \<not> verify_signature ed (ac_crypto ac) (prop_proposer p)
                (be_bytes (proposal_signing_hash blake2s p)) (prop_signature p)
      then Err InvalidProof
      else Ok ())"

definition vote_credentials ::
  "(byte list \<Rightarrow> hash256) \<Rightarrow> auth_committee \<Rightarrow> vote \<Rightarrow> consensus_error + u128 \<times> digest_request" where
  "vote_credentials blake2s ac v =
     (if vote_chain_id v \<noteq> ac_chain_id ac \<or> vote_height v \<noteq> ac_height ac
         \<or> vote_committee_root v \<noteq> ac_root ac
      then Err InvalidTransition
      else
        try_bind (ok_or UnknownVoter (bt_get (ac_powers ac) (vote_voter v))) (\<lambda>pow.
        try_bind (ok_or InvalidProof (registered_key (ac_crypto ac) (vote_voter v))) (\<lambda>public_key.
        Ok (pow, \<lparr>dr_public_key = public_key, dr_digest = vote_signing_hash blake2s v,
             dr_signature = vote_signature v\<rparr>))))"

definition verify_vote ::
  "(byte list \<Rightarrow> hash256) \<Rightarrow> ed25519 \<Rightarrow> auth_committee \<Rightarrow> vote \<Rightarrow> consensus_error + u128" where
  "verify_vote blake2s ed ac v =
     try_bind (vote_credentials blake2s ac v) (\<lambda>(pow, request).
       if \<not> digest_verify ed request then Err InvalidProof else Ok pow)"

text \<open>
  The loop shared by both certificate checks: run the cheap check of every vote in order,
  stop at the first rejection, keep the weights and the signature requests before it.
\<close>

fun hoist_checks ::
  "(vote \<Rightarrow> consensus_error + u128 \<times> digest_request) \<Rightarrow> vote list \<Rightarrow>
   u128 list \<times> digest_request list \<times> consensus_error option" where
  "hoist_checks check [] = ([], [], None)"
| "hoist_checks check (v # vs) =
     (case check v of
        Inl e \<Rightarrow> ([], [], Some e)
      | Inr (pow, request) \<Rightarrow>
          (let (weights, batch, rejected) = hoist_checks check vs in
           (pow # weights, request # batch, rejected)))"

fun sum_weights :: "u128 \<Rightarrow> u128 list \<Rightarrow> consensus_error + u128" where
  "sum_weights tot [] = Ok tot"
| "sum_weights tot (p # ps) =
     try_bind (ok_or InvalidCertificate (checked_add tot p)) (\<lambda>tot. sum_weights tot ps)"

definition batch_decision ::
  "ed25519 \<Rightarrow> host \<Rightarrow> u128 \<Rightarrow> (vote \<Rightarrow> consensus_error + u128 \<times> digest_request) \<Rightarrow> vote list \<Rightarrow>
   consensus_error + unit" where
  "batch_decision ed hst quorum check votes =
     (let (weights, batch, rejected) = hoist_checks check votes in
      if first_digest_failure ed hst batch \<noteq> None then Err InvalidProof
      else case rejected of
        Some e \<Rightarrow> Err e
      | None \<Rightarrow> try_bind (sum_weights 0 weights) (\<lambda>tot.
          if tot < quorum then Err InvalidCertificate else Ok ()))"

definition certificate_vote :: "finality_certificate \<Rightarrow> certificate_signature \<Rightarrow> vote" where
  "certificate_vote c e = \<lparr>vote_chain_id = fc_chain_id c, vote_committee_root = fc_committee_root c,
     vote_height = fc_height c, vote_round = fc_round c, vote_phase = Precommit,
     vote_block = Some (fc_block c), vote_voter = cs_voter e, vote_signature = cs_signature e\<rparr>"

definition verify_certificate ::
  "(byte list \<Rightarrow> hash256) \<Rightarrow> ed25519 \<Rightarrow> host \<Rightarrow> auth_committee \<Rightarrow> finality_certificate \<Rightarrow>
   block_header \<Rightarrow> consensus_error + unit" where
  "verify_certificate blake2s ed hst ac c header =
     try_bind (map_err (\<lambda>_. InvalidCertificate) (validate_shape c)) (\<lambda>_.
     if hdr_height header \<noteq> ac_height ac \<or> hdr_committee_root header \<noteq> ac_root ac
        \<or> fc_chain_id c \<noteq> ac_chain_id ac \<or> fc_height c \<noteq> ac_height ac
        \<or> fc_committee_root c \<noteq> ac_root ac \<or> fc_block c \<noteq> header_compute_hash blake2s header
        \<or> length (fc_signatures c) > length (ac_powers ac)
     then Err InvalidCertificate
     else batch_decision ed hst (ac_quorum ac) (vote_credentials blake2s ac)
       (map (certificate_vote c) (fc_signatures c)))"

section \<open>Verified prevote proofs (prevote.rs)\<close>

record prevote_certificate =
  pc_votes :: "vote list"

definition prevote_check ::
  "(byte list \<Rightarrow> hash256) \<Rightarrow> auth_committee \<Rightarrow> vote \<Rightarrow> vote \<Rightarrow>
   consensus_error + u128 \<times> digest_request" where
  "prevote_check blake2s ac first v =
     (if vote_phase v \<noteq> Prevote \<or> vote_round v \<noteq> vote_round first \<or> vote_block v \<noteq> vote_block first
      then Err InvalidCertificate else vote_credentials blake2s ac v)"

definition prevotes_from_votes ::
  "(byte list \<Rightarrow> hash256) \<Rightarrow> ed25519 \<Rightarrow> host \<Rightarrow> auth_committee \<Rightarrow> vote list \<Rightarrow>
   consensus_error + prevote_certificate" where
  "prevotes_from_votes blake2s ed hst ac votes =
     (if votes = [] \<or> length votes > MAX_COMMITTEE_MEMBERS
         \<or> list_ex (\<lambda>(a, b). vote_voter a \<ge> vote_voter b) (windows2 votes)
      then Err InvalidCertificate
      else
        let first = votes ! 0 in
        if vote_block first = None then Err InvalidCertificate
        else try_bind (batch_decision ed hst (ac_quorum ac) (prevote_check blake2s ac first) votes)
          (\<lambda>_. Ok \<lparr>pc_votes = votes\<rparr>))"

definition pc_round :: "prevote_certificate \<Rightarrow> u32" where
  "pc_round pc = vote_round (pc_votes pc ! 0)"

definition pc_block :: "prevote_certificate \<Rightarrow> hash256" where
  "pc_block pc = (case vote_block (pc_votes pc ! 0) of Some b \<Rightarrow> b | None \<Rightarrow> 0)"

definition verify_context :: "prevote_certificate \<Rightarrow> auth_committee \<Rightarrow> consensus_error + unit" where
  "verify_context pc ac =
     (let first = pc_votes pc ! 0 in
      if vote_chain_id first \<noteq> ac_chain_id ac \<or> vote_height first \<noteq> ac_height ac
         \<or> vote_committee_root first \<noteq> ac_root ac
      then Err InvalidCertificate else Ok ())"

definition pc_encode :: "prevote_certificate \<Rightarrow> byte list" where
  "pc_encode pc = encode_prevotes (pc_votes pc)"

definition pc_decode ::
  "(byte list \<Rightarrow> hash256) \<Rightarrow> ed25519 \<Rightarrow> host \<Rightarrow> auth_committee \<Rightarrow> byte list \<Rightarrow>
   consensus_error + prevote_certificate" where
  "pc_decode blake2s ed hst ac bytes =
     try_bind (map_err (\<lambda>_. InvalidCertificate) (parse_prevotes bytes))
       (prevotes_from_votes blake2s ed hst ac)"

definition verify_valid_round ::
  "proposal \<Rightarrow> auth_committee \<Rightarrow> prevote_certificate option \<Rightarrow> consensus_error + unit" where
  "verify_valid_round p ac evidence =
     (case (prop_valid_round p, evidence) of
        (None, None) \<Rightarrow> Ok ()
      | (Some r, Some pc) \<Rightarrow>
          if r < prop_round p \<and> r = pc_round pc \<and> prop_block p = pc_block pc
          then verify_context pc ac else Err InvalidCertificate
      | _ \<Rightarrow> Err InvalidCertificate)"

section \<open>Verified double-vote evidence (evidence.rs)\<close>

definition evidence_verify ::
  "(byte list \<Rightarrow> hash256) \<Rightarrow> ed25519 \<Rightarrow> auth_committee \<Rightarrow> double_vote_evidence \<Rightarrow>
   consensus_error + unit" where
  "evidence_verify blake2s ed ac e =
     (if \<not> same_slot e then Err InvalidTransition
      else try_bind (verify_vote blake2s ed ac (ev_first e)) (\<lambda>_.
        try_bind (verify_vote blake2s ed ac (ev_second e)) (\<lambda>_. Ok ())))"

definition evidence_from_votes ::
  "(byte list \<Rightarrow> hash256) \<Rightarrow> ed25519 \<Rightarrow> auth_committee \<Rightarrow> vote \<Rightarrow> vote \<Rightarrow>
   consensus_error + double_vote_evidence" where
  "evidence_from_votes blake2s ed ac first second =
     (let (first, second) = (if vote_block first < vote_block second then (first, second)
                             else (second, first));
          e = \<lparr>ev_first = first, ev_second = second\<rparr> in
      try_bind (evidence_verify blake2s ed ac e) (\<lambda>_. Ok e))"

section \<open>The committee invariant\<close>

definition committee_ok :: "(byte list \<Rightarrow> hash256) \<Rightarrow> ed25519 \<Rightarrow> auth_committee \<Rightarrow> bool" where
  "committee_ok blake2s ed ac \<longleftrightarrow>
     bt_ok (ac_powers ac) \<and> provider_ok blake2s ed (ac_crypto ac)
     \<and> fst ` set (ac_crypto ac) = fst ` set (ac_powers ac)
     \<and> (\<forall>p \<in> snd ` set (ac_powers ac). p \<noteq> 0)
     \<and> unat (ac_total ac) = (\<Sum>(v, p) \<leftarrow> ac_powers ac. unat p)
     \<and> distinct (ac_seats ac) \<and> set (ac_seats ac) = fst ` set (ac_powers ac)
     \<and> ac_powers ac \<noteq> [] \<and> length (ac_powers ac) \<le> MAX_COMMITTEE_MEMBERS"

text \<open>The power of a set of validators, and the validators of the committee.\<close>

definition members :: "auth_committee \<Rightarrow> validator_id set" where
  "members ac = fst ` set (ac_powers ac)"

definition power_of :: "auth_committee \<Rightarrow> validator_id \<Rightarrow> nat" where
  "power_of ac v = (case bt_get (ac_powers ac) v of None \<Rightarrow> 0 | Some p \<Rightarrow> unat p)"

definition set_power :: "auth_committee \<Rightarrow> validator_id set \<Rightarrow> nat" where
  "set_power ac S = (\<Sum>v \<in> S. power_of ac v)"

lemma fold_power_Ok:
  "fold_power seen tot ms = Ok t \<Longrightarrow>
   distinct (map cm_id ms) \<and> set (map cm_id ms) \<inter> seen = {} \<and> (\<forall>m \<in> set ms. cm_power m \<noteq> 0)
   \<and> unat t = unat tot + (\<Sum>m \<leftarrow> ms. unat (cm_power m))"
proof (induction ms arbitrary: seen tot)
  case (Cons m ms)
  then obtain tot' where step: "checked_add tot (cm_power m) = Some tot'"
    "fold_power (insert (cm_id m) seen) tot' ms = Ok t" "cm_power m \<noteq> 0" "cm_id m \<notin> seen"
    by (auto simp: result_simps split: if_splits)
  from Cons.IH [OF step(2)] step(1,3,4) show ?case
    by (auto simp: checked_add_Some)
qed simp

lemma fold_power_complete:
  "distinct (map cm_id ms) \<Longrightarrow> set (map cm_id ms) \<inter> seen = {} \<Longrightarrow> \<forall>m \<in> set ms. cm_power m \<noteq> 0 \<Longrightarrow>
   unat tot + (\<Sum>m \<leftarrow> ms. unat (cm_power m)) < 2 ^ 128 \<Longrightarrow>
   \<exists>t. fold_power seen tot ms = Ok t"
proof (induction ms arbitrary: seen tot)
  case (Cons m ms)
  then have add: "checked_add tot (cm_power m) = Some (tot + cm_power m)"
    by (simp add: checked_add_def)
  then have "unat (tot + cm_power m) = unat tot + unat (cm_power m)"
    by (simp add: checked_add_Some)
  with Cons add show ?case by (auto intro!: Cons.IH)
qed simp

lemma register_keys_Ok:
  "register_keys blake2s ed powers keys registered prov = Ok prov' \<Longrightarrow>
   provider_ok blake2s ed prov \<Longrightarrow> fst ` set prov = registered \<Longrightarrow> registered \<subseteq> fst ` set powers \<Longrightarrow>
   provider_ok blake2s ed prov' \<and> fst ` set prov' \<subseteq> fst ` set powers
   \<and> card (fst ` set prov') = card registered + length keys"
proof (induction keys arbitrary: registered prov)
  case (Cons key keys)
  obtain vid prov1 where reg: "register_validator blake2s ed key prov = Ok (vid, prov1)"
    "bt_contains powers vid" "vid \<notin> registered"
    "register_keys blake2s ed powers keys (insert vid registered) prov1 = Ok prov'"
    using Cons.prems(1) by (auto simp: result_simps split: if_splits)
  have prov1: "fst ` set prov1 = insert vid registered"
    using reg(1) Cons.prems(3)
    by (simp add: register_validator_def Let_def split: if_splits) (metis set_keys_insert)
  have "finite registered" using Cons.prems(3) by auto
  with Cons.IH [OF reg(4) provider_ok_register [OF Cons.prems(2) reg(1)] prov1] reg(2,3) Cons.prems(4)
  show ?case by (simp add: bt_contains_iff)
qed simp

lemma sum_list_bt_collect:
  assumes "distinct (map fst es)"
  shows "(\<Sum>(v, p) \<leftarrow> bt_collect es. f p) = (\<Sum>(v, p) \<leftarrow> es. f p :: nat)" and "set (bt_collect es) = set es"
    and "length (bt_collect es) = length es"
proof -
  have mset: "mset (fold (\<lambda>(k, v). bt_insert k v) es m) = mset es + mset m"
    if "distinct (map fst es)" "fst ` set es \<inter> fst ` set m = {}" for m :: "('a, 'b) btree"
    using that
  proof (induction es arbitrary: m)
    case (Cons e es)
    obtain k v where e: "e = (k, v)" by (cases e)
    with Cons.prems have k: "k \<notin> fst ` set m" by auto
    have "mset (fold (\<lambda>(k, v). bt_insert k v) es (bt_insert k v m)) = mset es + mset (bt_insert k v m)"
      using Cons.prems e by (intro Cons.IH) auto
    with e k show ?case by (simp add: mset_bt_insert_new)
  qed simp
  then have eq: "mset (bt_collect es) = mset es"
    using assms by (simp add: bt_collect_def)
  then show "(\<Sum>(v, p) \<leftarrow> bt_collect es. f p) = (\<Sum>(v, p) \<leftarrow> es. f p)"
    by (metis mset_map sum_mset_sum_list)
  from eq show "set (bt_collect es) = set es" by (rule mset_eq_setD)
  from eq show "length (bt_collect es) = length es" by (rule mset_eq_length)
qed

lemma committee_ok_new:
  assumes "auth_committee_new blake2s ed chain_id c keys = Ok ac"
  shows "committee_ok blake2s ed ac"
proof -
  let ?es = "map (\<lambda>m. (cm_id m, cm_power m)) (com_members c)"
  obtain tot crypto where new: "total_power c = Ok tot" "length keys = length (com_members c)"
    "register_keys blake2s ed (bt_collect ?es) keys {} [] = Ok crypto"
    and ac: "ac_powers ac = bt_collect ?es" "ac_crypto ac = crypto" "ac_total ac = tot"
      "ac_seats ac = map cm_id (com_members c)"
    using assms by (auto simp: auth_committee_new_def result_simps Let_def split: if_splits)
  have fold: "fold_power {} 0 (com_members c) = Ok tot" and size: "com_members c \<noteq> []"
      "length (com_members c) \<le> MAX_COMMITTEE_MEMBERS"
    using new(1) by (auto simp: total_power_def split: if_splits)
  note power = fold_power_Ok [OF fold]
  have "distinct (map fst ?es)" using power by (simp add: comp_def)
  note collect = sum_list_bt_collect [OF this]
  have reg: "provider_ok blake2s ed crypto" "fst ` set crypto \<subseteq> fst ` set (bt_collect ?es)"
    "card (fst ` set crypto) = length (com_members c)"
    using register_keys_Ok [OF new(3)] new(2) by simp_all
  have "card (fst ` set (bt_collect ?es)) = length (com_members c)"
    using power distinct_card [of "map cm_id (com_members c)"]
    by (simp add: collect(2) image_image)
  then have "fst ` set crypto = fst ` set (bt_collect ?es)"
    using reg by (simp add: card_subset_eq)
  moreover have "unat tot = (\<Sum>(v, p) \<leftarrow> bt_collect ?es. unat p)"
    using power by (simp add: collect(1) comp_def)
  moreover have "bt_collect ?es \<noteq> []" "length (bt_collect ?es) \<le> MAX_COMMITTEE_MEMBERS"
    using size collect(3) by (metis length_0_conv length_map, simp)
  moreover have "\<forall>p \<in> snd ` set (bt_collect ?es). p \<noteq> 0"
    "fst ` set (bt_collect ?es) = cm_id ` set (com_members c)"
    using power by (auto simp: collect(2) image_image)
  ultimately show ?thesis
    using reg(1) power by (simp add: committee_ok_def ac)
qed

section \<open>Quorums intersect in honest validators\<close>

locale weighted_quorums =
  fixes universe :: "'v set" and weight :: "'v \<Rightarrow> nat"
  assumes finite_universe: "finite universe"
begin

lemma weight_mono: "A \<subseteq> B \<Longrightarrow> B \<subseteq> universe \<Longrightarrow> sum weight A \<le> sum weight B"
  using finite_subset [OF _ finite_universe] by (intro sum_mono2) auto

lemma honest_in_both:
  assumes "A \<subseteq> universe" "B \<subseteq> universe" "F \<subseteq> universe"
    and "2 * sum weight universe < 3 * sum weight A"
    and "2 * sum weight universe < 3 * sum weight B"
    and "3 * sum weight F < sum weight universe"
  shows "\<exists>v. v \<in> A \<and> v \<in> B \<and> v \<notin> F"
proof (rule ccontr)
  assume "\<not> ?thesis"
  then have "A \<inter> B \<subseteq> F" by auto
  have fin: "finite A" "finite B"
    using assms(1,2) finite_universe by (auto intro: finite_subset)
  have "sum weight (A \<inter> B) \<le> sum weight F"
    using \<open>A \<inter> B \<subseteq> F\<close> assms(3) by (rule weight_mono)
  moreover have "sum weight (A \<union> B) \<le> sum weight universe"
    using assms(1,2) by (intro weight_mono) auto
  moreover have "sum weight (A \<union> B) + sum weight (A \<inter> B) = sum weight A + sum weight B"
    using fin by (rule sum.union_inter)
  ultimately show False using assms(4-6) by linarith
qed

lemma honest_in_one:
  assumes "A \<subseteq> universe" "F \<subseteq> universe"
    and "2 * sum weight universe < 3 * sum weight A"
    and "3 * sum weight F < sum weight universe"
  shows "\<exists>v. v \<in> A \<and> v \<notin> F"
  using honest_in_both [OF assms(1,1,2,3,3,4)] by blast

end

interpretation committee_quorums: weighted_quorums "members ac" "power_of ac" for ac
  by unfold_locales (simp add: members_def)

lemma set_power_members:
  assumes "committee_ok blake2s ed ac"
  shows "set_power ac (members ac) = unat (ac_total ac)"
proof -
  have ok: "bt_ok (ac_powers ac)" and tot: "unat (ac_total ac) = (\<Sum>(v, p) \<leftarrow> ac_powers ac. unat p)"
    using assms by (auto simp: committee_ok_def)
  have "power_of ac (fst e) = unat (snd e)" if "e \<in> set (ac_powers ac)" for e
    using that ok bt_get_Some_iff [of "ac_powers ac" "fst e" "snd e"] by (simp add: power_of_def)
  then have "map (power_of ac) (map fst (ac_powers ac)) = map (\<lambda>(v, p). unat p) (ac_powers ac)"
    by (simp add: case_prod_beta)
  then have "sum_list (map (power_of ac) (map fst (ac_powers ac))) = unat (ac_total ac)"
    by (simp only: tot)
  then show ?thesis
    using sum_list_distinct_conv_sum_set [OF bt_distinct [OF ok], of "power_of ac"]
    by (simp add: set_power_def members_def)
qed

lemma set_power_le_total:
  "committee_ok blake2s ed ac \<Longrightarrow> S \<subseteq> members ac \<Longrightarrow> set_power ac S \<le> unat (ac_total ac)"
  using committee_quorums.weight_mono [of S "members ac" ac] set_power_members [of blake2s ed ac]
  by (simp add: set_power_def)

section \<open>What the checks establish\<close>

lemma verify_vote_Ok:
  "verify_vote blake2s ed ac v = Ok p \<longleftrightarrow>
     vote_chain_id v = ac_chain_id ac \<and> vote_height v = ac_height ac \<and> vote_committee_root v = ac_root ac
     \<and> bt_get (ac_powers ac) (vote_voter v) = Some p
     \<and> (\<exists>pk. registered_key (ac_crypto ac) (vote_voter v) = Some pk
          \<and> ed25519_verify ed pk (be_bytes (vote_signing_hash blake2s v)) (vote_signature v))"
  by (cases "bt_get (ac_powers ac) (vote_voter v)"; cases "registered_key (ac_crypto ac) (vote_voter v)")
    (auto simp: verify_vote_def vote_credentials_def digest_verify_def)

lemma verify_vote_power: "verify_vote blake2s ed ac v = Ok p \<Longrightarrow> power_of ac (vote_voter v) = unat p"
  by (simp add: verify_vote_Ok power_of_def)

lemma verify_vote_member: "verify_vote blake2s ed ac v = Ok p \<Longrightarrow> vote_voter v \<in> members ac"
  by (force simp: verify_vote_Ok members_def dest: bt_get_Some_mem)

text \<open>The serial order: check a vote, verify its signature, go on to the next vote.\<close>

fun serial_powers ::
  "ed25519 \<Rightarrow> (vote \<Rightarrow> consensus_error + u128 \<times> digest_request) \<Rightarrow> vote list \<Rightarrow>
   consensus_error + u128 list" where
  "serial_powers ed check [] = Ok []"
| "serial_powers ed check (v # vs) =
     try_bind (check v) (\<lambda>(pow, request).
     if \<not> digest_verify ed request then Err InvalidProof
     else try_bind (serial_powers ed check vs) (\<lambda>ps. Ok (pow # ps)))"

definition serial_decision ::
  "ed25519 \<Rightarrow> u128 \<Rightarrow> (vote \<Rightarrow> consensus_error + u128 \<times> digest_request) \<Rightarrow> vote list \<Rightarrow>
   consensus_error + unit" where
  "serial_decision ed quorum check votes =
     try_bind (serial_powers ed check votes) (\<lambda>weights.
     try_bind (sum_weights 0 weights) (\<lambda>tot.
     if tot < quorum then Err InvalidCertificate else Ok ()))"

lemma hoist_serial:
  "hoist_checks check vs = (weights, batch, rejected) \<Longrightarrow>
   serial_powers ed check vs =
     (if first_digest_failure ed hst batch \<noteq> None then Err InvalidProof
      else case rejected of Some e \<Rightarrow> Err e | None \<Rightarrow> Ok weights)"
proof (induction vs arbitrary: weights batch rejected)
  case Nil
  then show ?case by (auto simp: first_digest_failure_position)
next
  case (Cons v vs)
  show ?case
  proof (cases "check v")
    case (Inl e)
    with Cons.prems show ?thesis by (auto simp: first_digest_failure_position)
  next
    case (Inr pr)
    obtain ws b rej where rec: "hoist_checks check vs = (ws, b, rej)" by (cases "hoist_checks check vs")
    with Inr Cons.prems have parts: "weights = fst pr # ws" "batch = snd pr # b" "rejected = rej"
      by (auto simp: case_prod_beta)
    with Inr Cons.IH [OF rec] show ?thesis
      by (auto simp: first_digest_failure_position case_prod_beta split: option.splits)
  qed
qed

lemma batch_decision_serial: "batch_decision ed hst quorum check vs = serial_decision ed quorum check vs"
proof -
  obtain ws b rej where rec: "hoist_checks check vs = (ws, b, rej)" by (cases "hoist_checks check vs")
  show ?thesis
    using hoist_serial [OF rec, of ed hst]
    by (auto simp: batch_decision_def serial_decision_def rec split: option.splits)
qed

lemma sum_weights_Ok:
  "sum_weights t ps = Ok s \<Longrightarrow> unat s = unat t + sum_list (map unat ps)"
  by (induction ps arbitrary: t) (auto simp: result_simps checked_add_Some)

lemma sum_weights_total:
  "unat t + sum_list (map unat ps) < 2 ^ 128 \<Longrightarrow> \<exists>s. sum_weights t ps = Ok s"
proof (induction ps arbitrary: t)
  case (Cons p ps)
  then have add: "checked_add t p = Some (t + p)" by (simp add: checked_add_def)
  then have "unat (t + p) = unat t + unat p" by (simp add: checked_add_Some)
  with Cons add show ?case by simp
qed simp

lemma serial_powers_Ok:
  "serial_powers ed check vs = Ok ps \<longleftrightarrow>
     list_all2 (\<lambda>v p. \<exists>r. check v = Ok (p, r) \<and> digest_verify ed r) vs ps"
proof (induction vs arbitrary: ps)
  case (Cons v vs)
  then show ?case by (cases ps) (auto simp: result_simps split: if_splits)
qed auto

lemma serial_powers_votes:
  assumes "serial_powers ed check vs = Ok ps"
    and "\<And>v r p. v \<in> set vs \<Longrightarrow> check v = Ok (p, r) \<Longrightarrow> vote_credentials blake2s ac v = Ok (p, r)"
  shows "list_all2 (\<lambda>v p. verify_vote blake2s ed ac v = Ok p) vs ps"
proof -
  have "list_all2 (\<lambda>v p. \<exists>r. check v = Ok (p, r) \<and> digest_verify ed r) vs ps"
    using assms(1) by (simp add: serial_powers_Ok)
  then show ?thesis
    by (rule list.rel_mono_strong) (use assms(2) in \<open>auto simp: verify_vote_def\<close>)
qed

lemma verified_sum:
  assumes "list_all2 (\<lambda>v p. verify_vote blake2s ed ac v = Ok p) vs ps"
    and "distinct (map vote_voter vs)"
  shows "sum_list (map unat ps) = set_power ac (vote_voter ` set vs)"
    and "vote_voter ` set vs \<subseteq> members ac"
proof -
  have "map unat ps = map (power_of ac) (map vote_voter vs)"
    using assms(1) by (induction rule: list_all2_induct) (simp_all add: verify_vote_power)
  then show "sum_list (map unat ps) = set_power ac (vote_voter ` set vs)"
    using assms(2) by (simp add: set_power_def sum_list_distinct_conv_sum_set flip: map_map)
  show "vote_voter ` set vs \<subseteq> members ac"
    using assms(1) by (induction rule: list_all2_induct) (simp_all add: verify_vote_member)
qed

text \<open>
  With a valid committee and distinct voters the decision is exactly: every vote
  passes its check and its signature verifies, and the voters hold a quorum. The weight
  sum cannot overflow.
\<close>

lemma serial_decision_Ok:
  assumes ok: "committee_ok blake2s ed ac" and dist: "distinct (map vote_voter vs)"
    and check: "\<And>v r p. v \<in> set vs \<Longrightarrow> check v = Ok (p, r) \<Longrightarrow> vote_credentials blake2s ac v = Ok (p, r)"
  shows "serial_decision ed (ac_quorum ac) check vs = Ok () \<longleftrightarrow>
    (\<exists>ps. serial_powers ed check vs = Ok ps)
    \<and> 2 * unat (ac_total ac) < 3 * set_power ac (vote_voter ` set vs)"
proof (cases "serial_powers ed check vs")
  case (Inl e)
  then show ?thesis by (simp add: serial_decision_def)
next
  case (Inr ps)
  note sum = verified_sum [OF serial_powers_votes [OF Inr check] dist]
  then have "sum_list (map unat ps) \<le> unat (ac_total ac)"
    using set_power_le_total [OF ok] by auto
  then have "unat (0 :: u128) + sum_list (map unat ps) < 2 ^ 128"
    using unsigned_less [of "ac_total ac", where ?'a = nat] by simp
  then obtain s where s: "sum_weights 0 ps = Ok s"
    using sum_weights_total [of 0 ps] by auto
  with sum have "unat s = set_power ac (vote_voter ` set vs)"
    using sum_weights_Ok [OF s] by simp
  then show ?thesis
    by (simp add: serial_decision_def Inr s ac_quorum_def not_le [symmetric] quorum_power_le_iff
        del: not_le)
qed

text \<open>A set of votes that proves a quorum of the committee for one value of one slot.\<close>

definition quorum_votes ::
  "(byte list \<Rightarrow> hash256) \<Rightarrow> ed25519 \<Rightarrow> auth_committee \<Rightarrow> u32 \<Rightarrow> vote_phase \<Rightarrow> hash256 \<Rightarrow> vote list \<Rightarrow> bool" where
  "quorum_votes blake2s ed ac r ph b vs \<longleftrightarrow>
     (\<forall>v \<in> set vs. (\<exists>p. verify_vote blake2s ed ac v = Ok p)
        \<and> vote_round v = r \<and> vote_phase v = ph \<and> vote_block v = Some b)
     \<and> 2 * unat (ac_total ac) < 3 * set_power ac (vote_voter ` set vs)"

lemma quorum_votes_members: "quorum_votes blake2s ed ac r ph b vs \<Longrightarrow> vote_voter ` set vs \<subseteq> members ac"
  using verify_vote_member by (fastforce simp: quorum_votes_def)

lemma serial_powers_credentials:
  "(\<exists>ps. serial_powers ed (vote_credentials blake2s ac) vs = Ok ps) \<longleftrightarrow>
   (\<forall>v \<in> set vs. \<exists>p. verify_vote blake2s ed ac v = Ok p)"
proof (induction vs)
  case (Cons v vs)
  then show ?case
    by (auto simp: verify_vote_def result_simps split: if_splits) blast+
qed simp

lemma sorted_voters_distinct: "sorted_wrt (<) (map f xs) \<Longrightarrow> distinct (map f xs)"
  for f :: "'a \<Rightarrow> 'b::linorder"
  by (simp add: strict_sorted_iff)

lemma certificate_voters [simp]:
  "map vote_voter (map (certificate_vote c) es) = map cs_voter es"
  "vote_voter (certificate_vote c e) = cs_voter e"
  "vote_round (certificate_vote c e) = fc_round c" "vote_phase (certificate_vote c e) = Precommit"
  "vote_block (certificate_vote c e) = Some (fc_block c)"
  by (simp_all add: certificate_vote_def)

lemma verify_certificate_Ok:
  assumes ok: "committee_ok blake2s ed ac"
  shows "verify_certificate blake2s ed hst ac c header = Ok () \<longleftrightarrow>
    wire_certificate c \<and> hdr_height header = ac_height ac \<and> hdr_committee_root header = ac_root ac
    \<and> fc_chain_id c = ac_chain_id ac \<and> fc_height c = ac_height ac \<and> fc_committee_root c = ac_root ac
    \<and> fc_block c = header_compute_hash blake2s header
    \<and> quorum_votes blake2s ed ac (fc_round c) Precommit (fc_block c)
        (map (certificate_vote c) (fc_signatures c))"
proof -
  let ?vs = "map (certificate_vote c) (fc_signatures c)"
  let ?shape = "wire_certificate c"
  let ?quorum = "quorum_votes blake2s ed ac (fc_round c) Precommit (fc_block c) ?vs"
  have decision: "batch_decision ed hst (ac_quorum ac) (vote_credentials blake2s ac) ?vs = Ok () \<longleftrightarrow> ?quorum"
    if "?shape"
  proof -
    have "distinct (map vote_voter ?vs)"
      using that sorted_voters_distinct [of cs_voter "fc_signatures c"]
      by (simp only: certificate_voters wire_certificate_def)
    from serial_decision_Ok [OF ok this, of "vote_credentials blake2s ac"]
    show ?thesis
      by (simp add: batch_decision_serial serial_powers_credentials quorum_votes_def)
  qed
  have size: "length (fc_signatures c) \<le> length (ac_powers ac)" if "?shape" "?quorum"
  proof -
    have "distinct (map cs_voter (fc_signatures c))"
      using that(1) by (simp add: wire_certificate_def sorted_voters_distinct)
    moreover have "cs_voter ` set (fc_signatures c) \<subseteq> fst ` set (ac_powers ac)"
      using quorum_votes_members [OF that(2)] by (simp add: members_def image_image)
    ultimately have "length (fc_signatures c) \<le> card (fst ` set (ac_powers ac))"
      by (metis List.finite_set card_mono distinct_card finite_imageI length_map list.set_map)
    also have "\<dots> \<le> length (ac_powers ac)"
      by (metis card_image_le card_length le_trans List.finite_set)
    finally show ?thesis .
  qed
  show ?thesis
  proof (cases "?shape")
    case True
    then have "validate_shape c = Ok ()" by (simp add: validate_shape_Ok)
    with True decision size show ?thesis by (auto simp: verify_certificate_def)
  next
    case False
    then show ?thesis by (auto simp: verify_certificate_def result_simps validate_shape_Ok)
  qed
qed

lemma prevotes_from_votes_Ok:
  assumes ok: "committee_ok blake2s ed ac" and "prevotes_from_votes blake2s ed hst ac votes = Ok pc"
  shows "pc_votes pc = votes" "votes \<noteq> []" "sorted_wrt (<) (map vote_voter votes)"
    "verify_context pc ac = Ok ()"
    "quorum_votes blake2s ed ac (pc_round pc) Prevote (pc_block pc) votes"
proof -
  let ?first = "votes ! 0"
  have guard: "votes \<noteq> []" "sorted_wrt (<) (map vote_voter votes)" "vote_block ?first \<noteq> None"
    and dec: "serial_decision ed (ac_quorum ac) (prevote_check blake2s ac ?first) votes = Ok ()"
    and pc: "pc = \<lparr>pc_votes = votes\<rparr>"
    using assms(2) windows2_ascending [of vote_voter votes]
    by (auto simp: prevotes_from_votes_def batch_decision_serial result_simps Let_def split: if_splits)
  then show "pc_votes pc = votes" "votes \<noteq> []" "sorted_wrt (<) (map vote_voter votes)" by simp_all
  have check: "vote_credentials blake2s ac v = Ok (p, r)"
    if "prevote_check blake2s ac ?first v = Ok (p, r)" for v p r
    using that by (auto simp: prevote_check_def split: if_splits)
  from serial_decision_Ok [OF ok sorted_voters_distinct [OF guard(2)] check] dec
  obtain ps where ps: "serial_powers ed (prevote_check blake2s ac ?first) votes = Ok ps"
    and power: "2 * unat (ac_total ac) < 3 * set_power ac (vote_voter ` set votes)" by auto
  have each: "(\<exists>p. verify_vote blake2s ed ac v = Ok p) \<and> vote_round v = vote_round ?first
      \<and> vote_phase v = Prevote \<and> vote_block v = vote_block ?first" if mem: "v \<in> set votes" for v
  proof -
    obtain i where i: "i < length votes" "v = votes ! i"
      using mem by (auto simp: in_set_conv_nth)
    have "list_all2 (\<lambda>v p. \<exists>r. prevote_check blake2s ac ?first v = Ok (p, r) \<and> digest_verify ed r) votes ps"
      using ps by (simp only: serial_powers_Ok)
    from list_all2_nthD [OF this i(1)] obtain p r where
      "prevote_check blake2s ac ?first v = Ok (p, r)" "digest_verify ed r"
      unfolding i(2) by blast
    then show ?thesis
      by (auto simp: prevote_check_def verify_vote_def split: if_splits)
  qed
  have "?first \<in> set votes" using guard(1) by simp
  from each [OF this] show "verify_context pc ac = Ok ()"
    by (auto simp: verify_context_def pc verify_vote_Ok)
  show "quorum_votes blake2s ed ac (pc_round pc) Prevote (pc_block pc) votes"
    using each power guard(3) by (auto simp: quorum_votes_def pc_round_def pc_block_def pc)
qed

text \<open>Two votes of one validator for one slot that name different blocks: they agree in all but the block and the signature.\<close>

definition double_vote :: "vote \<Rightarrow> vote \<Rightarrow> bool" where
  "double_vote v w \<longleftrightarrow> v\<lparr>vote_block := vote_block w, vote_signature := vote_signature w\<rparr> = w \<and> vote_block v \<noteq> vote_block w"

definition ordered_evidence :: "vote \<Rightarrow> vote \<Rightarrow> double_vote_evidence" where
  "ordered_evidence v w =
     (if vote_block v < vote_block w then \<lparr>ev_first = v, ev_second = w\<rparr> else \<lparr>ev_first = w, ev_second = v\<rparr>)"

lemma same_slot_ordered: "same_slot (ordered_evidence v w) \<longleftrightarrow> double_vote v w"
  by (cases v; cases w) (auto simp: same_slot_def ordered_evidence_def double_vote_def)

lemma double_vote_commute: "double_vote v w \<longleftrightarrow> double_vote w v"
  by (cases v; cases w) (auto simp: double_vote_def)

lemma ordered_evidence_commute: "vote_block v \<noteq> vote_block w \<Longrightarrow> ordered_evidence v w = ordered_evidence w v"
  by (auto simp: ordered_evidence_def)

lemma ordered_evidence_iff:
  "vote_block v \<noteq> vote_block w \<Longrightarrow> e = ordered_evidence v w \<longleftrightarrow>
     {ev_first e, ev_second e} = {v, w} \<and> vote_block (ev_first e) < vote_block (ev_second e)"
  by (cases e) (auto simp: ordered_evidence_def doubleton_eq_iff)

lemma evidence_from_votes_ordered:
  "evidence_from_votes blake2s ed ac v w = try_bind (evidence_verify blake2s ed ac (ordered_evidence v w)) (\<lambda>_. Ok (ordered_evidence v w))"
  by (simp add: evidence_from_votes_def ordered_evidence_def Let_def)

lemma evidence_from_votes_iff:
  "evidence_from_votes blake2s ed ac v w = Ok e \<longleftrightarrow> double_vote v w \<and> e = ordered_evidence v w
     \<and> (\<exists>p. verify_vote blake2s ed ac v = Ok p) \<and> (\<exists>p. verify_vote blake2s ed ac w = Ok p)"
  unfolding evidence_from_votes_ordered evidence_verify_def same_slot_ordered
  by (auto simp: result_simps ordered_evidence_def split: if_splits)

lemma evidence_from_votes_commute:
  "evidence_from_votes blake2s ed ac v w = Ok e \<longleftrightarrow> evidence_from_votes blake2s ed ac w v = Ok e"
  unfolding evidence_from_votes_iff using double_vote_commute [of v w] ordered_evidence_commute [of v w]
  by (auto simp: double_vote_def)

lemma evidence_from_votes_Ok:
  assumes "evidence_from_votes blake2s ed ac v w = Ok e"
  shows "same_slot e \<and> {ev_first e, ev_second e} = {v, w} \<and> vote_block v \<noteq> vote_block w
    \<and> (\<exists>p. verify_vote blake2s ed ac v = Ok p) \<and> (\<exists>p. verify_vote blake2s ed ac w = Ok p)"
  using assms
  by (auto simp: evidence_from_votes_def evidence_verify_def result_simps same_slot_def Let_def
      split: if_splits)

end
