(* ===== verification/Astro_Finality.thy ===== *)
theory Astro_Finality
  imports Astro_Committee
begin

text \<open>
  The vote collector \<open>BftFinalityEngine\<close> of finality.rs: authenticated vote accounting for
  one committee and round, double-vote evidence, and the certificate it emits at the first
  precommit quorum. The invariant \<open>engine_ok\<close> ties the power map to the recorded votes
  and the certificate to the independent check of Astro\_Committee.
\<close>

section \<open>State and operations (finality.rs)\<close>

record finality_engine =
  fe_context :: auth_committee
  fe_round :: u32
  fe_votes :: "(validator_id \<times> vote_phase, vote) btree"
  fe_power :: "(vote_phase \<times> hash256 option, u128) btree"
  fe_certificate :: "finality_certificate option"
  fe_evidence :: "(validator_id, double_vote_evidence) btree"

definition engine_for_round :: "auth_committee \<Rightarrow> u32 \<Rightarrow> finality_engine" where
  "engine_for_round ac round = \<lparr>fe_context = ac, fe_round = round, fe_votes = [], fe_power = [],
     fe_certificate = None, fe_evidence = []\<rparr>"

definition engine_new :: "auth_committee \<Rightarrow> finality_engine" where
  "engine_new ac = engine_for_round ac 0"

definition engine_prevote_certificate ::
  "(byte list \<Rightarrow> hash256) \<Rightarrow> ed25519 \<Rightarrow> host \<Rightarrow> finality_engine \<Rightarrow> hash256 \<Rightarrow>
   consensus_error + prevote_certificate" where
  "engine_prevote_certificate blake2s ed hst e block =
     prevotes_from_votes blake2s ed hst (fe_context e)
       (filter (\<lambda>v. vote_phase v = Prevote \<and> vote_block v = Some block) (bt_values (fe_votes e)))"

definition advance_round :: "finality_engine \<Rightarrow> consensus_error + finality_engine" where
  "advance_round e =
     (if fe_certificate e \<noteq> None then Err InvalidTransition
      else try_bind (ok_or InvalidTransition (checked_add (fe_round e) 1)) (\<lambda>next.
        Ok (e\<lparr>fe_round := next, fe_votes := [], fe_power := []\<rparr>)))"

text \<open>The certificate built from the recorded precommits for \<open>block\<close>.\<close>

definition collect_certificate :: "finality_engine \<Rightarrow> hash256 \<Rightarrow> finality_certificate" where
  "collect_certificate e block =
     \<lparr>fc_chain_id = ac_chain_id (fe_context e), fc_height = ac_height (fe_context e),
      fc_round = fe_round e, fc_committee_root = ac_root (fe_context e), fc_block = block,
      fc_signatures = map (\<lambda>v. \<lparr>cs_voter = vote_voter v, cs_signature = vote_signature v\<rparr>)
        (filter (\<lambda>v. vote_phase v = Precommit \<and> vote_block v = Some block)
          (bt_values (fe_votes e)))\<rparr>"

text \<open>A rejected vote may still leave evidence behind, so the result carries the state.\<close>

definition receive_vote ::
  "(byte list \<Rightarrow> hash256) \<Rightarrow> ed25519 \<Rightarrow> vote \<Rightarrow> finality_engine \<Rightarrow>
   (consensus_error + unit) \<times> finality_engine" where
  "receive_vote blake2s ed v e =
     (if vote_round v \<noteq> fe_round e then (Err InvalidTransition, e)
      else case verify_vote blake2s ed (fe_context e) v of
        Inl err \<Rightarrow> (Err err, e)
      | Inr pow \<Rightarrow>
          (case bt_get (fe_votes e) (vote_voter v, vote_phase v) of
             Some previous \<Rightarrow>
               if vote_block previous \<noteq> vote_block v \<and> \<not> bt_contains (fe_evidence e) (vote_voter v)
               then (case evidence_from_votes blake2s ed (fe_context e) previous v of
                       Inl err \<Rightarrow> (Err err, e)
                     | Inr found \<Rightarrow>
                         (Err Equivocation, e\<lparr>fe_evidence := bt_insert (vote_voter v) found (fe_evidence e)\<rparr>))
               else (Err (if vote_block previous = vote_block v then DuplicateVote else Equivocation), e)
           | None \<Rightarrow>
               if fe_certificate e \<noteq> None then (Err InvalidTransition, e)
               else case checked_add
                   (case bt_get (fe_power e) (vote_phase v, vote_block v) of Some p \<Rightarrow> p | None \<Rightarrow> 0) pow of
                 None \<Rightarrow> (Err InvalidCommittee, e)
               | Some tot \<Rightarrow>
                   (let e1 = e\<lparr>fe_power := bt_insert (vote_phase v, vote_block v) tot (fe_power e),
                               fe_votes := bt_insert (vote_voter v, vote_phase v) v (fe_votes e)\<rparr> in
                    (Ok (),
                     case vote_block v of
                       None \<Rightarrow> e1
                     | Some block \<Rightarrow>
                         if vote_phase v = Precommit \<and> tot \<ge> ac_quorum (fe_context e)
                         then e1\<lparr>fe_certificate := Some (collect_certificate e1 block)\<rparr> else e1))))"

definition finalized_block :: "finality_engine \<Rightarrow> hash256 option" where
  "finalized_block e = map_option fc_block (fe_certificate e)"

section \<open>The invariant\<close>

text \<open>The voters recorded for a value in a phase.\<close>

definition voters_for :: "finality_engine \<Rightarrow> vote_phase \<Rightarrow> hash256 option \<Rightarrow> validator_id set" where
  "voters_for e ph b = {v. \<exists>w. bt_get (fe_votes e) (v, ph) = Some w \<and> vote_block w = b}"

definition recorded_power :: "finality_engine \<Rightarrow> vote_phase \<Rightarrow> hash256 option \<Rightarrow> nat" where
  "recorded_power e ph b = (case bt_get (fe_power e) (ph, b) of None \<Rightarrow> 0 | Some p \<Rightarrow> unat p)"

definition votes_ok :: "(byte list \<Rightarrow> hash256) \<Rightarrow> ed25519 \<Rightarrow> finality_engine \<Rightarrow> bool" where
  "votes_ok blake2s ed e \<longleftrightarrow> bt_ok (fe_votes e) \<and> (\<forall>key w. bt_get (fe_votes e) key = Some w \<longrightarrow>
     key = (vote_voter w, vote_phase w) \<and> vote_round w = fe_round e
     \<and> (\<exists>p. verify_vote blake2s ed (fe_context e) w = Ok p))"

definition power_ok :: "finality_engine \<Rightarrow> bool" where
  "power_ok e \<longleftrightarrow> (\<forall>ph b. recorded_power e ph b = set_power (fe_context e) (voters_for e ph b))"

text \<open>A certificate that the independent check accepts for every header with its hash.\<close>

definition certificate_ok :: "(byte list \<Rightarrow> hash256) \<Rightarrow> ed25519 \<Rightarrow> auth_committee \<Rightarrow> finality_certificate \<Rightarrow> bool" where
  "certificate_ok blake2s ed ac c \<longleftrightarrow>
     wire_certificate c \<and> fc_chain_id c = ac_chain_id ac \<and> fc_height c = ac_height ac
     \<and> fc_committee_root c = ac_root ac
     \<and> quorum_votes blake2s ed ac (fc_round c) Precommit (fc_block c)
         (map (certificate_vote c) (fc_signatures c))"

definition evidence_ok :: "(byte list \<Rightarrow> hash256) \<Rightarrow> ed25519 \<Rightarrow> finality_engine \<Rightarrow> bool" where
  "evidence_ok blake2s ed e \<longleftrightarrow> bt_ok (fe_evidence e) \<and> (\<forall>v ev. bt_get (fe_evidence e) v = Some ev \<longrightarrow>
     vote_voter (ev_first ev) = v \<and> evidence_verify blake2s ed (fe_context e) ev = Ok ())"

definition engine_ok :: "(byte list \<Rightarrow> hash256) \<Rightarrow> ed25519 \<Rightarrow> finality_engine \<Rightarrow> bool" where
  "engine_ok blake2s ed e \<longleftrightarrow>
     committee_ok blake2s ed (fe_context e) \<and> votes_ok blake2s ed e \<and> power_ok e
     \<and> evidence_ok blake2s ed e
     \<and> (case fe_certificate e of
          Some c \<Rightarrow> certificate_ok blake2s ed (fe_context e) c \<and> fc_round c = fe_round e
        | None \<Rightarrow> \<forall>b. 3 * set_power (fe_context e) (voters_for e Precommit (Some b))
                    \<le> 2 * unat (ac_total (fe_context e)))"

lemma voters_for_members: "votes_ok blake2s ed e \<Longrightarrow> voters_for e ph b \<subseteq> members (fe_context e)"
  by (fastforce simp: voters_for_def votes_ok_def dest: verify_vote_member)

lemma engine_ok_for_round:
  "committee_ok blake2s ed ac \<Longrightarrow> engine_ok blake2s ed (engine_for_round ac r)"
  by (simp add: engine_ok_def engine_for_round_def votes_ok_def power_ok_def recorded_power_def
      voters_for_def set_power_def evidence_ok_def)

lemma engine_ok_advance:
  assumes "engine_ok blake2s ed e" and "advance_round e = Ok e'"
  shows "engine_ok blake2s ed e'"
  using assms
  by (auto simp: advance_round_def engine_ok_def votes_ok_def power_ok_def recorded_power_def
      voters_for_def set_power_def evidence_ok_def result_simps split: if_splits)

section \<open>Recording one vote\<close>

definition record_vote :: "vote \<Rightarrow> u128 \<Rightarrow> finality_engine \<Rightarrow> finality_engine" where
  "record_vote v tot e =
     e\<lparr>fe_power := bt_insert (vote_phase v, vote_block v) tot (fe_power e),
       fe_votes := bt_insert (vote_voter v, vote_phase v) v (fe_votes e)\<rparr>"

lemma record_vote_fields [simp]:
  "fe_context (record_vote v tot e) = fe_context e" "fe_round (record_vote v tot e) = fe_round e"
  "fe_certificate (record_vote v tot e) = fe_certificate e"
  "fe_evidence (record_vote v tot e) = fe_evidence e"
  by (simp_all add: record_vote_def)

lemma voters_for_record:
  assumes "bt_get (fe_votes e) (vote_voter v, vote_phase v) = None"
  shows "voters_for (record_vote v tot e) ph b =
    (if ph = vote_phase v \<and> b = vote_block v then insert (vote_voter v) (voters_for e ph b)
     else voters_for e ph b)"
  using assms by (auto simp: voters_for_def record_vote_def split: if_splits)

lemma recorded_power_record:
  "recorded_power (record_vote v tot e) ph b =
    (if ph = vote_phase v \<and> b = vote_block v then unat tot else recorded_power e ph b)"
  by (simp add: recorded_power_def record_vote_def)

lemma votes_ok_record:
  "votes_ok blake2s ed e \<Longrightarrow> vote_round v = fe_round e \<Longrightarrow>
   verify_vote blake2s ed (fe_context e) v = Ok p \<Longrightarrow> votes_ok blake2s ed (record_vote v tot e)"
  by (auto simp: votes_ok_def record_vote_def)

lemma power_ok_record:
  assumes ok: "votes_ok blake2s ed e" "power_ok e"
    and new: "bt_get (fe_votes e) (vote_voter v, vote_phase v) = None"
    and v: "verify_vote blake2s ed (fe_context e) v = Ok p"
    and tot: "unat tot = recorded_power e (vote_phase v) (vote_block v) + unat p"
  shows "power_ok (record_vote v tot e)"
proof -
  have fresh: "vote_voter v \<notin> voters_for e (vote_phase v) (vote_block v)"
    using new by (simp add: voters_for_def)
  have "finite (voters_for e (vote_phase v) (vote_block v))"
    using voters_for_members [OF ok(1)] by (rule finite_subset) (simp add: members_def)
  with fresh have "set_power (fe_context e) (insert (vote_voter v) (voters_for e (vote_phase v) (vote_block v)))
      = recorded_power e (vote_phase v) (vote_block v) + unat p"
    using ok(2) verify_vote_power [OF v] by (simp add: set_power_def power_ok_def)
  with ok(2) tot show ?thesis
    by (simp add: power_ok_def voters_for_record [OF new] recorded_power_record)
qed

text \<open>The accounting never overflows, so the \<open>InvalidCommittee\<close> branch is unreachable.\<close>

lemma record_total:
  assumes ok: "committee_ok blake2s ed (fe_context e)" "votes_ok blake2s ed e" "power_ok e"
    and new: "bt_get (fe_votes e) (vote_voter v, vote_phase v) = None"
    and v: "verify_vote blake2s ed (fe_context e) v = Ok p"
  shows "\<exists>tot. checked_add (case bt_get (fe_power e) (vote_phase v, vote_block v) of Some q \<Rightarrow> q | None \<Rightarrow> 0) p
      = Some tot \<and> unat tot = recorded_power e (vote_phase v) (vote_block v) + unat p"
proof -
  let ?S = "voters_for e (vote_phase v) (vote_block v)"
  have "vote_voter v \<notin> ?S" using new by (simp add: voters_for_def)
  moreover have "finite ?S"
    using voters_for_members [OF ok(2)] by (rule finite_subset) (simp add: members_def)
  ultimately have "set_power (fe_context e) (insert (vote_voter v) ?S)
      = recorded_power e (vote_phase v) (vote_block v) + unat p"
    using ok(3) verify_vote_power [OF v] by (simp add: set_power_def power_ok_def)
  moreover have "insert (vote_voter v) ?S \<subseteq> members (fe_context e)"
    using voters_for_members [OF ok(2)] verify_vote_member [OF v] by simp
  ultimately have "recorded_power e (vote_phase v) (vote_block v) + unat p \<le> unat (ac_total (fe_context e))"
    using set_power_le_total [OF ok(1)] by metis
  then have "recorded_power e (vote_phase v) (vote_block v) + unat p < 2 ^ 128"
    using unsigned_less [of "ac_total (fe_context e)", where ?'a = nat] by simp
  moreover have "recorded_power e (vote_phase v) (vote_block v)
      = unat (case bt_get (fe_power e) (vote_phase v, vote_block v) of Some q \<Rightarrow> q | None \<Rightarrow> 0)"
    by (simp add: recorded_power_def split: option.splits)
  ultimately show ?thesis by (simp add: checked_add_def flip: unat_add_lem)
qed

section \<open>The emitted certificate\<close>

lemma bt_values_mem: "bt_ok m \<Longrightarrow> w \<in> set (bt_values m) \<longleftrightarrow> (\<exists>k. bt_get m k = Some w)"
  by (force simp: bt_values_def bt_get_Some_iff)

lemma sorted_filter_voters:
  assumes "votes_ok blake2s ed e"
  shows "sorted_wrt (<) (map vote_voter (filter (\<lambda>v. vote_phase v = ph \<and> Q v) (bt_values (fe_votes e))))"
proof -
  let ?vs = "filter (\<lambda>v. vote_phase v = ph \<and> Q v) (bt_values (fe_votes e))"
  have keys: "map fst (fe_votes e) = map (\<lambda>v. (vote_voter v, vote_phase v)) (bt_values (fe_votes e))"
    using assms by (auto simp: bt_values_def votes_ok_def bt_get_Some_iff)
  have "sorted_wrt (<) (map (\<lambda>v. (vote_voter v, vote_phase v)) (bt_values (fe_votes e)))"
    using assms keys by (simp add: votes_ok_def)
  then have "sorted_wrt (\<lambda>v w. (vote_voter v, vote_phase v) < (vote_voter w, vote_phase w)) ?vs"
    by (simp add: sorted_wrt_map sorted_wrt_filter)
  then have "sorted_wrt (\<lambda>v w. vote_voter v < vote_voter w) ?vs"
    by (rule sorted_wrt_mono_rel [rotated]) auto
  then show ?thesis by (simp add: sorted_wrt_map)
qed

lemma certificate_vote_self:
  assumes "verify_vote blake2s ed (fe_context e) v = Ok p" and "vote_round v = fe_round e"
    and "vote_phase v = Precommit" and "vote_block v = Some b"
  shows "certificate_vote (collect_certificate e b)
      \<lparr>cs_voter = vote_voter v, cs_signature = vote_signature v\<rparr> = v"
  using assms by (cases v) (auto simp: certificate_vote_def collect_certificate_def verify_vote_Ok)

lemma collect_certificate_ok:
  assumes com: "committee_ok blake2s ed (fe_context e)" and ok: "votes_ok blake2s ed e"
    and quorum: "2 * unat (ac_total (fe_context e)) < 3 * set_power (fe_context e) (voters_for e Precommit (Some b))"
  shows "certificate_ok blake2s ed (fe_context e) (collect_certificate e b)"
proof -
  let ?c = "collect_certificate e b"
  let ?vs = "filter (\<lambda>v. vote_phase v = Precommit \<and> vote_block v = Some b) (bt_values (fe_votes e))"
  have vs: "(\<exists>p. verify_vote blake2s ed (fe_context e) v = Ok p) \<and> vote_round v = fe_round e
      \<and> vote_phase v = Precommit \<and> vote_block v = Some b" if "v \<in> set ?vs" for v
    using that ok bt_values_mem [of "fe_votes e" v] by (auto simp: votes_ok_def)
  have sigs: "fc_signatures ?c = map (\<lambda>v. \<lparr>cs_voter = vote_voter v, cs_signature = vote_signature v\<rparr>) ?vs"
    by (simp add: collect_certificate_def)
  have self: "map (certificate_vote ?c) (fc_signatures ?c) = ?vs"
    unfolding sigs map_map comp_def
    using vs certificate_vote_self [of blake2s ed e] by (intro map_idI) blast
  have voters: "vote_voter ` set ?vs = voters_for e Precommit (Some b)"
    using ok by (force simp: voters_for_def votes_ok_def bt_values_mem)
  have sorted: "sorted_wrt (<) (map cs_voter (fc_signatures ?c))"
    using sorted_filter_voters [OF ok, of Precommit "\<lambda>v. vote_block v = Some b"]
    by (simp add: collect_certificate_def comp_def)
  have "?vs \<noteq> []"
  proof
    assume "?vs = []"
    then have "voters_for e Precommit (Some b) = {}" using voters by (metis image_empty set_empty)
    with quorum show False by (simp add: set_power_def)
  qed
  moreover have "length ?vs \<le> MAX_COMMITTEE_MEMBERS"
  proof -
    have "distinct (map vote_voter ?vs)"
      using sorted_filter_voters [OF ok, of Precommit "\<lambda>v. vote_block v = Some b"]
      by (rule sorted_voters_distinct)
    then have "length ?vs = card (vote_voter ` set ?vs)"
      using distinct_card [of "map vote_voter ?vs"] by simp
    also have "\<dots> \<le> card (members (fe_context e))"
      using voters voters_for_members [OF ok, of Precommit "Some b"]
      by (auto simp: members_def intro!: card_mono)
    also have "\<dots> \<le> length (ac_powers (fe_context e))"
      unfolding members_def by (metis card_image_le card_length le_trans List.finite_set)
    finally show ?thesis using com by (simp add: committee_ok_def)
  qed
  ultimately have "wire_certificate ?c"
    using sorted by (simp add: wire_certificate_def collect_certificate_def)
  moreover have "quorum_votes blake2s ed (fe_context e) (fc_round ?c) Precommit (fc_block ?c) ?vs"
    using vs voters quorum by (auto simp: quorum_votes_def collect_certificate_def)
  ultimately show ?thesis
    using self by (simp add: certificate_ok_def) (simp add: collect_certificate_def)
qed

lemma certificate_ok_verifies:
  assumes "committee_ok blake2s ed ac" and "certificate_ok blake2s ed ac c"
    and "hdr_height header = ac_height ac" "hdr_committee_root header = ac_root ac"
    and "header_compute_hash blake2s header = fc_block c"
  shows "verify_certificate blake2s ed hst ac c header = Ok ()"
  using assms by (simp add: verify_certificate_Ok certificate_ok_def)

section \<open>Every step keeps the invariant\<close>

text \<open>The two ways a received vote can change the engine.\<close>

lemma receive_vote_evidence:
  assumes ok: "engine_ok blake2s ed e" and found: "evidence_from_votes blake2s ed (fe_context e) w v = Ok ev"
    and w: "vote_voter w = vote_voter v"
  shows "engine_ok blake2s ed (e\<lparr>fe_evidence := bt_insert (vote_voter v) ev (fe_evidence e)\<rparr>)"
proof -
  have "same_slot ev" "{ev_first ev, ev_second ev} = {w, v}"
    using evidence_from_votes_Ok [OF found] by simp_all
  then have "vote_voter (ev_first ev) = vote_voter v"
    using w by (metis insertCI insertE singletonD)
  moreover have "evidence_verify blake2s ed (fe_context e) ev = Ok ()"
    using found by (auto simp: evidence_from_votes_def Let_def result_simps split: prod.splits)
  ultimately show ?thesis
    using ok by (auto simp: engine_ok_def votes_ok_def power_ok_def recorded_power_def voters_for_def
        evidence_ok_def split: option.splits)
qed

definition settle :: "vote \<Rightarrow> u128 \<Rightarrow> finality_engine \<Rightarrow> finality_engine" where
  "settle v tot e =
     (case vote_block v of
        None \<Rightarrow> record_vote v tot e
      | Some block \<Rightarrow>
          if vote_phase v = Precommit \<and> tot \<ge> ac_quorum (fe_context e)
          then (record_vote v tot e)\<lparr>fe_certificate := Some (collect_certificate (record_vote v tot e) block)\<rparr>
          else record_vote v tot e)"

lemma engine_ok_settle:
  assumes ok: "engine_ok blake2s ed e" and none: "fe_certificate e = None"
    and new: "bt_get (fe_votes e) (vote_voter v, vote_phase v) = None"
    and v: "verify_vote blake2s ed (fe_context e) v = Ok p" "vote_round v = fe_round e"
    and tot: "unat tot = recorded_power e (vote_phase v) (vote_block v) + unat p"
  shows "engine_ok blake2s ed (settle v tot e)"
proof -
  let ?e = "record_vote v tot e"
  have com: "committee_ok blake2s ed (fe_context e)" and below:
    "\<And>b. 3 * set_power (fe_context e) (voters_for e Precommit (Some b)) \<le> 2 * unat (ac_total (fe_context e))"
    and ev: "evidence_ok blake2s ed e"
    using ok none by (simp_all add: engine_ok_def)
  have votes: "votes_ok blake2s ed ?e" and power: "power_ok ?e"
    using ok votes_ok_record [OF _ v(2,1)] power_ok_record [OF _ _ new v(1) tot]
    by (simp_all add: engine_ok_def)
  have evidence: "evidence_ok blake2s ed ?e" using ev by (simp add: evidence_ok_def)
  have at: "set_power (fe_context e) (voters_for ?e (vote_phase v) (vote_block v)) = unat tot"
    using power [unfolded power_ok_def, rule_format, of "vote_phase v" "vote_block v"]
    by (simp add: recorded_power_record)
  show ?thesis
  proof (cases "\<exists>b. vote_block v = Some b \<and> vote_phase v = Precommit \<and> tot \<ge> ac_quorum (fe_context e)")
    case True
    then obtain b where b: "vote_block v = Some b" "vote_phase v = Precommit" "tot \<ge> ac_quorum (fe_context e)"
      by blast
    then have "certificate_ok blake2s ed (fe_context e) (collect_certificate ?e b)"
      using collect_certificate_ok [of blake2s ed ?e b] com votes at
      by (simp add: ac_quorum_def quorum_power_le_iff)
    moreover have "settle v tot e = ?e\<lparr>fe_certificate := Some (collect_certificate ?e b)\<rparr>"
      using b by (simp add: settle_def)
    moreover have "fc_round (collect_certificate ?e b) = fe_round e"
      by (simp add: collect_certificate_def)
    ultimately show ?thesis
      using com votes power evidence
      by (simp add: engine_ok_def votes_ok_def power_ok_def recorded_power_def voters_for_def evidence_ok_def)
  next
    case False
    then have "settle v tot e = ?e" by (auto simp: settle_def split: option.splits)
    moreover have "3 * set_power (fe_context e) (voters_for ?e Precommit (Some b))
        \<le> 2 * unat (ac_total (fe_context e))" for b
    proof (cases "vote_phase v = Precommit \<and> vote_block v = Some b")
      case True
      with False at show ?thesis
        using quorum_power_le_iff [of "ac_total (fe_context e)" tot] by (simp add: ac_quorum_def)
    next
      case False
      then show ?thesis using below [of b] by (auto simp: voters_for_record [OF new])
    qed
    ultimately show ?thesis
      using com votes power evidence none by (simp add: engine_ok_def)
  qed
qed

lemma receive_vote_cases:
  assumes ok: "engine_ok blake2s ed e"
  obtains (rejected) err where "receive_vote blake2s ed v e = (Err err, e)" "err \<noteq> InvalidCommittee"
  | (evidence) w ev where "bt_get (fe_votes e) (vote_voter v, vote_phase v) = Some w"
      "vote_block w \<noteq> vote_block v" "evidence_from_votes blake2s ed (fe_context e) w v = Ok ev"
      "receive_vote blake2s ed v e = (Err Equivocation, e\<lparr>fe_evidence := bt_insert (vote_voter v) ev (fe_evidence e)\<rparr>)"
  | (recorded) p tot where "fe_certificate e = None" "vote_round v = fe_round e"
      "bt_get (fe_votes e) (vote_voter v, vote_phase v) = None"
      "verify_vote blake2s ed (fe_context e) v = Ok p"
      "unat tot = recorded_power e (vote_phase v) (vote_block v) + unat p"
      "receive_vote blake2s ed v e = (Ok (), settle v tot e)"
proof (cases "vote_round v = fe_round e")
  case False
  then show ?thesis using rejected by (simp add: receive_vote_def)
next
  case round: True
  show ?thesis
  proof (cases "verify_vote blake2s ed (fe_context e) v")
    case (Inl err)
    moreover have "err \<noteq> InvalidCommittee"
      using Inl by (auto simp: verify_vote_def vote_credentials_def result_simps split: if_splits)
    ultimately show ?thesis using rejected round by (simp add: receive_vote_def)
  next
    case (Inr p)
    show ?thesis
    proof (cases "bt_get (fe_votes e) (vote_voter v, vote_phase v)")
      case None
      obtain tot where tot: "checked_add (case bt_get (fe_power e) (vote_phase v, vote_block v) of Some q \<Rightarrow> q | None \<Rightarrow> 0) p
          = Some tot" "unat tot = recorded_power e (vote_phase v) (vote_block v) + unat p"
        using record_total [OF _ _ _ None Inr] ok by (auto simp: engine_ok_def)
      show ?thesis
      proof (cases "fe_certificate e")
        case cert: None
        then have "receive_vote blake2s ed v e = (Ok (), settle v tot e)"
          using round None Inr tot(1)
          unfolding receive_vote_def settle_def record_vote_def Let_def by simp
        then show ?thesis by (rule recorded [OF cert round None Inr tot(2)])
      next
        case (Some c)
        then show ?thesis using rejected round None Inr by (simp add: receive_vote_def)
      qed
    next
      case (Some w)
      show ?thesis
      proof (cases "vote_block w \<noteq> vote_block v \<and> \<not> bt_contains (fe_evidence e) (vote_voter v)")
        case True
        show ?thesis
        proof (cases "evidence_from_votes blake2s ed (fe_context e) w v")
          case (Inl err)
          moreover have "err \<noteq> InvalidCommittee"
            using Inl by (auto simp: evidence_from_votes_def evidence_verify_def verify_vote_def
                vote_credentials_def Let_def result_simps split: if_splits prod.splits)
          ultimately show ?thesis
            using rejected round Some Inr True by (simp add: receive_vote_def)
        next
          case (Inr ev)
          with \<open>verify_vote blake2s ed (fe_context e) v = Inr p\<close> show ?thesis
            using evidence [OF Some _ Inr] True round Some by (simp add: receive_vote_def)
        qed
      next
        case False
        then have "receive_vote blake2s ed v e =
            (Err (if vote_block w = vote_block v then DuplicateVote else Equivocation), e)"
          using Some Inr round unfolding receive_vote_def by auto
        then show ?thesis by (rule rejected) simp
      qed
    qed
  qed
qed

lemma engine_ok_receive:
  assumes "engine_ok blake2s ed e"
  shows "engine_ok blake2s ed (snd (receive_vote blake2s ed v e))"
  using assms
proof (cases rule: receive_vote_cases [where v = v])
  case (evidence w ev)
  have "vote_voter w = vote_voter v"
    using evidence(1) assms by (auto simp: engine_ok_def votes_ok_def)
  with receive_vote_evidence [OF assms evidence(3)] evidence(4) show ?thesis by simp
next
  case (recorded p tot)
  with engine_ok_settle [OF assms recorded(1,3,4,2,5)] show ?thesis by simp
qed (simp add: assms)

section \<open>Reachable engines\<close>

text \<open>Every engine a caller can obtain for a committee: any start round, any votes, any round changes.\<close>

inductive engine_reachable ::
  "(byte list \<Rightarrow> hash256) \<Rightarrow> ed25519 \<Rightarrow> auth_committee \<Rightarrow> finality_engine \<Rightarrow> bool"
  for blake2s ed ac where
  start: "engine_reachable blake2s ed ac (engine_for_round ac r)"
| receive: "engine_reachable blake2s ed ac e \<Longrightarrow>
    engine_reachable blake2s ed ac (snd (receive_vote blake2s ed v e))"
| advance: "engine_reachable blake2s ed ac e \<Longrightarrow> advance_round e = Ok e' \<Longrightarrow>
    engine_reachable blake2s ed ac e'"

lemma receive_vote_context [simp]: "fe_context (snd (receive_vote blake2s ed v e)) = fe_context e"
  by (auto simp: receive_vote_def Let_def split: sum.splits option.splits)

lemma engine_reachable_ok:
  assumes "engine_reachable blake2s ed ac e" and "committee_ok blake2s ed ac"
  shows "engine_ok blake2s ed e \<and> fe_context e = ac"
  using assms(1)
proof induction
  case (start r)
  then show ?case using assms(2) engine_ok_for_round by (simp add: engine_for_round_def)
next
  case (receive e v)
  then show ?case by (simp add: engine_ok_receive)
next
  case (advance e e')
  then show ?case
    using engine_ok_advance [of blake2s ed e e'] by (auto simp: advance_round_def result_simps split: if_splits)
qed

end
