(* ===== verification/Astro_Journal.thy ===== *)
theory Astro_Journal
  imports Astro_Codec Astro_BTree
begin

text \<open>
  The signing journal of the crate \<open>keystore\<close> (key.rs, error.rs, journal.rs and
  journal/rollover.rs) at the level of the bytes of its file: the chained records, replay on
  opening, reservation of a decision before it is signed, and the two rollover
  watermarks that bound the file.

  The file is the list of its bytes. A write followed by a synchronization has an
  outcome of type \<open>io_result\<close>, an argument of the operations: success, or an error after
  the first \<open>k\<close> bytes of the write have reached the file. Paths, permissions and the
  advisory file lock are not modelled.
\<close>

section \<open>Keys, positions and errors (key.rs, error.rs)\<close>

datatype keystore_error =
    InvalidSafety | Locked | AlreadyExists | InvalidJournal | ContextMismatch | InvalidPosition
  | StalePosition | JournalLimitExceeded | DurabilityUnknown | UnknownKey | WrongPurpose
  | ConflictingSign | JournalFailure | ProviderFailure

definition PROPOSAL_PHASE :: u8 where "PROPOSAL_PHASE = 0"
definition PREVOTE_PHASE :: u8 where "PREVOTE_PHASE = 1"
definition PRECOMMIT_PHASE :: u8 where "PRECOMMIT_PHASE = 2"

record signing_context =
  ctx_chain_id :: u32
  ctx_genesis :: hash256

record signing_lock =
  lock_round :: u32
  lock_block :: hash256

record signing_safety =
  sf_committee_root :: hash256
  sf_locked :: "signing_lock option"

text \<open>Coordinates with the derived lexicographic order.\<close>

datatype signing_position =
  SigningPosition (pos_height: u64) (pos_round: u32) (pos_phase: u8)

definition position_key :: "signing_position \<Rightarrow> u64 \<times> u32 \<times> u8" where
  "position_key p = (pos_height p, pos_round p, pos_phase p)"

lemma position_key_inject [simp]: "position_key p = position_key q \<longleftrightarrow> p = q"
  by (cases p; cases q) (simp add: position_key_def)

instantiation signing_position :: linorder
begin

definition less_signing_position :: "signing_position \<Rightarrow> signing_position \<Rightarrow> bool" where
  "less_signing_position p q \<longleftrightarrow> position_key p < position_key q"

definition less_eq_signing_position :: "signing_position \<Rightarrow> signing_position \<Rightarrow> bool" where
  "less_eq_signing_position p q \<longleftrightarrow> position_key p \<le> position_key q"

instance
proof
  fix p q :: signing_position
  show "(p < q) = (p \<le> q \<and> \<not> q \<le> p)"
    unfolding less_signing_position_def less_eq_signing_position_def by (rule less_le_not_le)
  show "p \<le> q \<Longrightarrow> q \<le> p \<Longrightarrow> p = q"
    by (simp add: less_eq_signing_position_def flip: position_key_inject)
qed (auto simp: less_eq_signing_position_def)

end

lemma position_lt_iff:
  "p < q \<longleftrightarrow> pos_height p < pos_height q \<or> pos_height p = pos_height q \<and>
     (pos_round p < pos_round q \<or> pos_round p = pos_round q \<and> pos_phase p < pos_phase q)"
  by (auto simp: less_signing_position_def position_key_def)

section \<open>Files\<close>

datatype io_result = IoOk | IoCut nat

definition write_at :: "nat \<Rightarrow> byte list \<Rightarrow> byte list \<Rightarrow> byte list" where
  "write_at off bs f = take off f @ bs @ drop (off + length bs) f"

fun persist :: "io_result \<Rightarrow> nat \<Rightarrow> byte list \<Rightarrow> byte list \<Rightarrow> bool \<times> byte list" where
  "persist IoOk off bs f = (True, write_at off bs f)"
| "persist (IoCut k) off bs f = (False, write_at off (take k bs) f)"

section \<open>Records (journal.rs)\<close>

definition HEADER_BYTES :: nat where "HEADER_BYTES = 108"
definition RECORD_BYTES :: nat where "RECORD_BYTES = 85"
definition PROTECTED_RECORD_BYTES :: nat where "PROTECTED_RECORD_BYTES = 154"
definition HEADER_DOMAIN :: "byte list" where "HEADER_DOMAIN = ascii ''astrolune.signing.journal.v1''"
definition RECORD_DOMAIN :: "byte list" where "RECORD_DOMAIN = ascii ''astrolune.signing.decision.v1''"
definition MAX_JOURNAL_RECORDS :: nat where "MAX_JOURNAL_RECORDS = 100000"
definition ROLLOVER_HEADER_BYTES :: nat where "ROLLOVER_HEADER_BYTES = 40"
definition EXTENSION_BYTES :: nat where
  "EXTENSION_BYTES = ROLLOVER_HEADER_BYTES + 2 * PROTECTED_RECORD_BYTES"
definition MAX_PROTECTED_JOURNAL_BYTES :: nat where
  "MAX_PROTECTED_JOURNAL_BYTES = HEADER_BYTES + PROTECTED_RECORD_BYTES * MAX_JOURNAL_RECORDS"
definition MAX_ROLLOVER_JOURNAL_BYTES :: nat where
  "MAX_ROLLOVER_JOURNAL_BYTES = MAX_PROTECTED_JOURNAL_BYTES + EXTENSION_BYTES"

definition header_body :: "signing_context \<Rightarrow> bytes32 \<Rightarrow> bool \<Rightarrow> byte list" where
  "header_body ctx public_key protected =
     ascii ''ALSJ'' @ le_bytes (if protected then 2 else 1 :: u32) @ le_bytes (ctx_chain_id ctx)
     @ be_bytes (ctx_genesis ctx) @ be_bytes public_key"

definition header_version ::
  "(byte list \<Rightarrow> hash256) \<Rightarrow> signing_context \<Rightarrow> bytes32 \<Rightarrow> bool \<Rightarrow> byte list" where
  "header_version blake2s ctx public_key protected =
     header_body ctx public_key protected
     @ be_bytes (domain_hash blake2s HEADER_DOMAIN (header_body ctx public_key protected))"

definition record_hash :: "(byte list \<Rightarrow> hash256) \<Rightarrow> hash256 \<Rightarrow> byte list \<Rightarrow> hash256" where
  "record_hash blake2s tip body = domain_hash blake2s RECORD_DOMAIN (be_bytes tip @ body)"

definition record_body :: "u64 \<Rightarrow> signing_position \<Rightarrow> hash256 \<Rightarrow> byte list" where
  "record_body seq pos msg = le_bytes seq @ le_bytes (pos_height pos) @ le_bytes (pos_round pos)
     @ [pos_phase pos] @ be_bytes msg"

definition record_bytes ::
  "(byte list \<Rightarrow> hash256) \<Rightarrow> u64 \<Rightarrow> signing_position \<Rightarrow> hash256 \<Rightarrow> hash256 \<Rightarrow> byte list" where
  "record_bytes blake2s seq pos msg tip =
     record_body seq pos msg @ be_bytes (record_hash blake2s tip (record_body seq pos msg))"

definition safety_bytes :: "signing_safety \<Rightarrow> byte list" where
  "safety_bytes s = be_bytes (sf_committee_root s) @ [of_bool (sf_locked s \<noteq> None)]
     @ (case sf_locked s of
          Some l \<Rightarrow> le_bytes (lock_round l) @ be_bytes (lock_block l)
        | None \<Rightarrow> le_bytes (0 :: u32) @ be_bytes (0 :: hash256))"

definition protected_body :: "u64 \<Rightarrow> signing_position \<Rightarrow> hash256 \<Rightarrow> signing_safety \<Rightarrow> byte list" where
  "protected_body seq pos msg s = record_body seq pos msg @ safety_bytes s"

definition protected_record ::
  "(byte list \<Rightarrow> hash256) \<Rightarrow> u64 \<Rightarrow> signing_position \<Rightarrow> hash256 \<Rightarrow> hash256 \<Rightarrow> signing_safety \<Rightarrow>
   byte list" where
  "protected_record blake2s seq pos msg tip s =
     protected_body seq pos msg s @ be_bytes (record_hash blake2s tip (protected_body seq pos msg s))"

definition lock_of_wire :: "u8 \<Rightarrow> u32 \<Rightarrow> hash256 \<Rightarrow> decode_error + signing_lock option" where
  "lock_of_wire flag round block =
     (if flag = 0 \<and> round = 0 \<and> block = 0 then Ok None
      else if flag = 1 then Ok (Some \<lparr>lock_round = round, lock_block = block\<rparr>)
      else Err NonCanonical)"

definition read_safety :: "decoder \<Rightarrow> decode_error + signing_safety \<times> decoder" where
  "read_safety d =
     try_bind (read_fixed d) (\<lambda>(committee_root, d).
     try_bind (read_u8 d) (\<lambda>(flag, d).
     try_bind (read_u32 d) (\<lambda>(round, d).
     try_bind (read_fixed d) (\<lambda>(block, d).
     try_bind (lock_of_wire flag round block) (\<lambda>locked.
     Ok (\<lparr>sf_committee_root = committee_root, sf_locked = locked\<rparr>, d))))))"

definition parse_entry ::
  "bool \<Rightarrow> byte list \<Rightarrow>
   decode_error + u64 \<times> signing_position \<times> hash256 \<times> hash256 \<times> signing_safety option" where
  "parse_entry protected bytes =
     try_bind (read_u64 (decoder_new bytes)) (\<lambda>(sequence, d).
     try_bind (read_u64 d) (\<lambda>(height, d).
     try_bind (read_u32 d) (\<lambda>(round, d).
     try_bind (read_u8 d) (\<lambda>(phase, d).
     try_bind (read_fixed d) (\<lambda>(msg, d).
     try_bind (if protected then try_bind (read_safety d) (\<lambda>(s, d). Ok (Some s, d)) else Ok (None, d))
       (\<lambda>(safety, d).
     try_bind (read_fixed d) (\<lambda>(checksum, d).
     try_bind (finish d) (\<lambda>_.
     Ok (sequence, SigningPosition height round phase, msg, checksum, safety)))))))))"

definition decode_entry ::
  "(byte list \<Rightarrow> hash256) \<Rightarrow> byte list \<Rightarrow> u64 \<Rightarrow> hash256 \<Rightarrow> bool \<Rightarrow>
   keystore_error + signing_position \<times> hash256 \<times> hash256 \<times> signing_safety option" where
  "decode_entry blake2s bytes sequence tip protected =
     try_bind (map_err (\<lambda>_. InvalidJournal) (parse_entry protected bytes))
       (\<lambda>(sq, pos, msg, checksum, safety).
       if sq \<noteq> sequence \<or> pos_phase pos > PRECOMMIT_PHASE
          \<or> checksum \<noteq> record_hash blake2s tip (take (length bytes - 32) bytes)
       then Err InvalidJournal
       else Ok (pos, msg, checksum, safety))"

definition validate_safety ::
  "signing_position \<Rightarrow> signing_safety \<Rightarrow> (signing_position \<times> signing_safety) option \<Rightarrow>
   keystore_error + unit" where
  "validate_safety pos safety previous =
     (if sf_committee_root safety = 0
         \<or> (case sf_locked safety of None \<Rightarrow> False | Some l \<Rightarrow> lock_round l > pos_round pos)
      then Err InvalidSafety
      else case previous of
        None \<Rightarrow> Ok ()
      | Some (old_pos, old) \<Rightarrow>
          if pos_height old_pos = pos_height pos
          then
            if sf_committee_root old \<noteq> sf_committee_root safety then Err InvalidSafety
            else (case sf_locked old of
                None \<Rightarrow> Ok ()
              | Some l \<Rightarrow>
                  if (case sf_locked safety of
                        None \<Rightarrow> False
                      | Some next \<Rightarrow> lock_round next > lock_round l \<or> next = l)
                  then Ok () else Err InvalidSafety)
          else Ok ())"

subsection \<open>The record codec\<close>

lemma length_header_body [simp]: "length (header_body ctx pk p) = 76"
  by (simp add: header_body_def)

lemma length_header_version [simp]: "length (header_version blake2s ctx pk p) = 108"
  by (simp add: header_version_def)

lemma length_record_body [simp]: "length (record_body sq pos msg) = 53"
  by (simp add: record_body_def)

lemma length_safety_bytes [simp]: "length (safety_bytes s) = 69"
  by (simp add: safety_bytes_def split: option.splits)

lemma length_protected_body [simp]: "length (protected_body sq pos msg s) = 122"
  by (simp add: protected_body_def)

lemma length_record_bytes [simp]: "length (record_bytes blake2s sq pos msg tip) = 85"
  by (simp add: record_bytes_def)

lemma length_protected_record [simp]: "length (protected_record blake2s sq pos msg tip s) = 154"
  by (simp add: protected_record_def)

lemma lock_of_wire_Ok:
  "lock_of_wire flag round block = Ok l \<longleftrightarrow>
     [of_bool (l \<noteq> None)] @ (case l of Some k \<Rightarrow> le_bytes (lock_round k) @ be_bytes (lock_block k)
        | None \<Rightarrow> le_bytes (0 :: u32) @ be_bytes (0 :: hash256))
     = flag # le_bytes round @ be_bytes block"
  by (cases l) (auto simp: lock_of_wire_def)

lemma read_safety_sound: "read_safety d = Ok (s, d') \<Longrightarrow> rest d = safety_bytes s @ rest d'"
  unfolding read_safety_def
  apply (clarsimp simp: result_simps lock_of_wire_Ok)
  apply (drule read_sound)+
  apply (simp add: safety_bytes_def)
  done

lemma read_safety_at:
  assumes "length pre + 69 < usize_limit"
  shows "read_safety (dec_at pre (safety_bytes s @ post)) = Ok (s, dec_at (pre @ safety_bytes s) post)"
proof (cases "sf_locked s")
  case None
  with assms show ?thesis
    by (simp add: read_safety_def safety_bytes_def lock_of_wire_def)
next
  case (Some l)
  with assms show ?thesis
    by (simp add: read_safety_def safety_bytes_def lock_of_wire_def)
qed

fun entry_body :: "u64 \<Rightarrow> signing_position \<Rightarrow> hash256 \<Rightarrow> signing_safety option \<Rightarrow> byte list" where
  "entry_body sq pos msg None = record_body sq pos msg"
| "entry_body sq pos msg (Some s) = protected_body sq pos msg s"

definition entry_record ::
  "(byte list \<Rightarrow> hash256) \<Rightarrow> u64 \<Rightarrow> signing_position \<Rightarrow> hash256 \<Rightarrow> hash256 \<Rightarrow>
   signing_safety option \<Rightarrow> byte list" where
  "entry_record blake2s sq pos msg tip safety =
     entry_body sq pos msg safety @ be_bytes (record_hash blake2s tip (entry_body sq pos msg safety))"

lemma entry_record_simps:
  "entry_record blake2s sq pos msg tip None = record_bytes blake2s sq pos msg tip"
  "entry_record blake2s sq pos msg tip (Some s) = protected_record blake2s sq pos msg tip s"
  by (simp_all add: entry_record_def record_bytes_def protected_record_def)

lemma parse_entry_sound:
  assumes "parse_entry protected bs = Ok (sq, pos, msg, checksum, safety)"
  shows "bs = entry_body sq pos msg safety @ be_bytes checksum \<and> (safety \<noteq> None \<longleftrightarrow> protected)"
  using assms unfolding parse_entry_def
  apply (cases protected)
   apply (clarsimp simp: result_simps finish_Ok)
   apply (drule read_sound read_safety_sound)+
   apply (simp add: protected_body_def record_body_def)
  apply (clarsimp simp: result_simps finish_Ok)
  apply (drule read_sound)+
  apply (simp add: record_body_def)
  done

lemma parse_entry_complete:
  assumes "safety \<noteq> None \<longleftrightarrow> protected"
  shows "parse_entry protected (entry_body sq pos msg safety @ be_bytes (checksum :: hash256))
    = Ok (sq, pos, msg, checksum, safety)"
proof (cases safety)
  case None
  with assms show ?thesis
    by (simp add: parse_entry_def record_body_def decoder_new_dec_at usize_limit_def)
next
  case (Some s)
  with assms show ?thesis
    by (simp add: parse_entry_def protected_body_def record_body_def decoder_new_dec_at
        read_safety_at usize_limit_def)
qed

lemma decode_entry_Ok:
  "decode_entry blake2s bs sq tip protected = Ok (pos, msg, checksum, safety) \<longleftrightarrow>
     bs = entry_record blake2s sq pos msg tip safety \<and> (safety \<noteq> None \<longleftrightarrow> protected)
     \<and> pos_phase pos \<le> PRECOMMIT_PHASE
     \<and> checksum = record_hash blake2s tip (entry_body sq pos msg safety)"
proof
  assume "decode_entry blake2s bs sq tip protected = Ok (pos, msg, checksum, safety)"
  then have parse: "parse_entry protected bs = Ok (sq, pos, msg, checksum, safety)"
    and "pos_phase pos \<le> PRECOMMIT_PHASE"
    and sum: "checksum = record_hash blake2s tip (take (length bs - 32) bs)"
    by (auto simp: decode_entry_def result_simps split: if_splits)
  note parsed = parse_entry_sound [OF parse]
  then have "take (length bs - 32) bs = entry_body sq pos msg safety" by simp
  with sum parsed \<open>pos_phase pos \<le> PRECOMMIT_PHASE\<close>
  show "bs = entry_record blake2s sq pos msg tip safety \<and> (safety \<noteq> None \<longleftrightarrow> protected)
     \<and> pos_phase pos \<le> PRECOMMIT_PHASE \<and> checksum = record_hash blake2s tip (entry_body sq pos msg safety)"
    by (simp add: entry_record_def)
next
  assume "bs = entry_record blake2s sq pos msg tip safety \<and> (safety \<noteq> None \<longleftrightarrow> protected)
     \<and> pos_phase pos \<le> PRECOMMIT_PHASE \<and> checksum = record_hash blake2s tip (entry_body sq pos msg safety)"
  then show "decode_entry blake2s bs sq tip protected = Ok (pos, msg, checksum, safety)"
    by (auto simp: decode_entry_def entry_record_def parse_entry_complete)
qed

lemma entry_body_inject:
  assumes "entry_body sq pos msg s = entry_body sq' pos' msg' s'"
  shows "sq = sq' \<and> pos = pos' \<and> msg = msg' \<and> s = s'"
proof -
  have len: "length (entry_body sq pos msg s) = length (entry_body sq' pos' msg' s')"
    using assms by simp
  then have same: "(s \<noteq> None) = (s' \<noteq> None)" by (cases s; cases s') simp_all
  have "parse_entry (s \<noteq> None) (entry_body sq pos msg s @ be_bytes (0 :: hash256)) = Ok (sq, pos, msg, 0, s)"
    and "parse_entry (s \<noteq> None) (entry_body sq' pos' msg' s' @ be_bytes (0 :: hash256)) = Ok (sq', pos', msg', 0, s')"
    using same by (simp_all add: parse_entry_complete)
  with assms show ?thesis by simp
qed

section \<open>Rollover watermarks (journal/rollover.rs)\<close>

record watermark =
  wm_sequence :: u64
  wm_position :: signing_position
  wm_message :: hash256
  wm_safety :: signing_safety

record rollover =
  ro_anchor :: hash256
  ro_slot0 :: watermark
  ro_slot1 :: watermark

definition ROLLOVER_MAGIC :: "byte list" where "ROLLOVER_MAGIC = ascii ''ALSR0001''"
definition ROLLOVER_HEADER_DOMAIN :: "byte list" where
  "ROLLOVER_HEADER_DOMAIN = ascii ''astrolune.signing.rollover.v1''"
definition ROLLOVER_SLOT_DOMAIN :: "byte list" where
  "ROLLOVER_SLOT_DOMAIN = ascii ''astrolune.signing.rollover.slot.v1''"

definition rollover_new ::
  "(byte list \<Rightarrow> hash256) \<Rightarrow> hash256 \<Rightarrow> (signing_position \<times> hash256) option \<Rightarrow>
   signing_safety option \<Rightarrow> keystore_error + rollover" where
  "rollover_new blake2s tip lst safety =
     try_bind (ok_or InvalidJournal lst) (\<lambda>(pos, msg).
     try_bind (ok_or InvalidJournal safety) (\<lambda>safety.
     let initial = \<lparr>wm_sequence = of_nat MAX_JOURNAL_RECORDS, wm_position = pos, wm_message = msg,
                    wm_safety = safety\<rparr> in
     Ok \<lparr>ro_anchor = domain_hash blake2s ROLLOVER_HEADER_DOMAIN (be_bytes tip),
         ro_slot0 = initial, ro_slot1 = initial\<rparr>))"

definition ro_latest :: "rollover \<Rightarrow> watermark" where
  "ro_latest r = (if wm_sequence (ro_slot0 r) > wm_sequence (ro_slot1 r) then ro_slot0 r else ro_slot1 r)"

definition ro_older :: "rollover \<Rightarrow> watermark option" where
  "ro_older r =
     (if wm_sequence (ro_slot0 r) = wm_sequence (ro_slot1 r) then None
      else if wm_sequence (ro_slot0 r) < wm_sequence (ro_slot1 r) then Some (ro_slot0 r)
      else Some (ro_slot1 r))"

definition ro_binding :: "(byte list \<Rightarrow> hash256) \<Rightarrow> hash256 \<Rightarrow> u8 \<Rightarrow> hash256" where
  "ro_binding blake2s anchor slot = domain_hash blake2s ROLLOVER_SLOT_DOMAIN (be_bytes anchor @ [slot])"

definition encode_slot :: "(byte list \<Rightarrow> hash256) \<Rightarrow> hash256 \<Rightarrow> u8 \<Rightarrow> watermark \<Rightarrow> byte list" where
  "encode_slot blake2s anchor slot w =
     protected_record blake2s (wm_sequence w) (wm_position w) (wm_message w)
       (ro_binding blake2s anchor slot) (wm_safety w)"

definition ro_encode :: "(byte list \<Rightarrow> hash256) \<Rightarrow> rollover \<Rightarrow> byte list" where
  "ro_encode blake2s r = ROLLOVER_MAGIC @ be_bytes (ro_anchor r)
     @ encode_slot blake2s (ro_anchor r) 0 (ro_slot0 r) @ encode_slot blake2s (ro_anchor r) 1 (ro_slot1 r)"

definition ro_slot_of :: "u64 \<Rightarrow> u8" where
  "ro_slot_of sequence = of_bool ((unat sequence - MAX_JOURNAL_RECORDS - 1) mod 2 \<noteq> 0)"

text \<open>One iteration of the loop over the two slots.\<close>

definition ro_read_slot ::
  "(byte list \<Rightarrow> hash256) \<Rightarrow> hash256 \<Rightarrow> watermark \<Rightarrow> u8 \<Rightarrow> byte list \<Rightarrow> keystore_error + watermark" where
  "ro_read_slot blake2s anchor baseline slot entry =
     (let sequence = from_le_bytes (take 8 entry) in
      try_bind (decode_entry blake2s entry sequence (ro_binding blake2s anchor slot) True)
        (\<lambda>(pos, msg, _, safety).
      try_bind (ok_or InvalidJournal safety) (\<lambda>safety.
      let w = \<lparr>wm_sequence = sequence, wm_position = pos, wm_message = msg, wm_safety = safety\<rparr> in
      if unat sequence < MAX_JOURNAL_RECORDS
         \<or> (unat sequence = MAX_JOURNAL_RECORDS \<and> w \<noteq> baseline)
         \<or> (unat sequence > MAX_JOURNAL_RECORDS
             \<and> (ro_slot_of sequence \<noteq> slot \<or> pos \<le> wm_position baseline))
      then Err InvalidJournal
      else try_bind (map_err (\<lambda>_. InvalidJournal)
          (validate_safety pos safety (Some (wm_position baseline, wm_safety baseline)))) (\<lambda>_. Ok w))))"

definition ro_pair_check :: "watermark \<Rightarrow> watermark \<Rightarrow> watermark \<Rightarrow> keystore_error + unit" where
  "ro_pair_check baseline a b =
     (if wm_sequence a = wm_sequence b
      then (if a \<noteq> baseline \<or> b \<noteq> baseline then Err InvalidJournal else Ok ())
      else
        let (older, newer) = (if wm_sequence a < wm_sequence b then (a, b) else (b, a)) in
        if checked_add (wm_sequence older) 1 \<noteq> Some (wm_sequence newer)
           \<or> wm_position older \<ge> wm_position newer
        then Err InvalidJournal
        else map_err (\<lambda>_. InvalidJournal)
          (validate_safety (wm_position newer) (wm_safety newer) (Some (wm_position older, wm_safety older))))"

definition ro_decode ::
  "(byte list \<Rightarrow> hash256) \<Rightarrow> hash256 \<Rightarrow> (signing_position \<times> hash256) option \<Rightarrow>
   signing_safety option \<Rightarrow> byte list \<Rightarrow> keystore_error + rollover" where
  "ro_decode blake2s tip lst safety bytes =
     try_bind (rollover_new blake2s tip lst safety) (\<lambda>result.
     let baseline = ro_latest result in
     if length bytes \<noteq> EXTENSION_BYTES \<or> take 8 bytes \<noteq> ROLLOVER_MAGIC
        \<or> take 32 (drop 8 bytes) \<noteq> be_bytes (ro_anchor result)
     then Err InvalidJournal
     else
       try_bind (ro_read_slot blake2s (ro_anchor result) baseline 0 (take 154 (drop 40 bytes))) (\<lambda>a.
       try_bind (ro_read_slot blake2s (ro_anchor result) baseline 1 (take 154 (drop 194 bytes))) (\<lambda>b.
       try_bind (ro_pair_check baseline a b) (\<lambda>_.
       Ok (result\<lparr>ro_slot0 := a, ro_slot1 := b\<rparr>)))))"

definition slot_offset :: "u8 \<Rightarrow> nat" where
  "slot_offset slot = MAX_PROTECTED_JOURNAL_BYTES + ROLLOVER_HEADER_BYTES
     + unat slot * PROTECTED_RECORD_BYTES"

definition ro_prepare ::
  "(byte list \<Rightarrow> hash256) \<Rightarrow> rollover \<Rightarrow> u64 \<Rightarrow> signing_position \<Rightarrow> hash256 \<Rightarrow> signing_safety \<Rightarrow>
   keystore_error + u8 \<times> byte list" where
  "ro_prepare blake2s r sequence pos msg safety =
     (let latest = ro_latest r in
      if checked_add (wm_sequence latest) 1 \<noteq> Some sequence \<or> pos \<le> wm_position latest
      then Err InvalidJournal
      else try_bind (validate_safety pos safety (Some (wm_position latest, wm_safety latest))) (\<lambda>_.
        let slot = ro_slot_of sequence in
        Ok (slot, encode_slot blake2s (ro_anchor r) slot
          \<lparr>wm_sequence = sequence, wm_position = pos, wm_message = msg, wm_safety = safety\<rparr>)))"

definition ro_publish ::
  "u8 \<Rightarrow> u64 \<Rightarrow> signing_position \<Rightarrow> hash256 \<Rightarrow> signing_safety \<Rightarrow> rollover \<Rightarrow> rollover" where
  "ro_publish slot sequence pos msg safety r =
     (let w = \<lparr>wm_sequence = sequence, wm_position = pos, wm_message = msg, wm_safety = safety\<rparr> in
      if slot = 0 then r\<lparr>ro_slot0 := w\<rparr> else r\<lparr>ro_slot1 := w\<rparr>)"

section \<open>The journal (journal.rs)\<close>

record journal_state =
  js_sequence :: u64
  js_position :: "signing_position option"
  js_message :: hash256
  js_tip :: hash256

record journal =
  jr_file :: "byte list"
  jr_count :: u64
  jr_identity :: hash256
  jr_tip :: hash256
  jr_last :: "(signing_position \<times> hash256) option"
  jr_previous :: "journal_state option"
  jr_poisoned :: bool
  jr_protected :: bool
  jr_safety :: "signing_safety option"
  jr_rollover :: "rollover option"

definition last_position :: "journal \<Rightarrow> signing_position option" where
  "last_position j = map_option fst (jr_last j)"

definition state_at :: "journal \<Rightarrow> u64 \<Rightarrow> journal_state" where
  "state_at j sequence = \<lparr>js_sequence = sequence, js_position = last_position j,
     js_message = (case jr_last j of Some (_, msg) \<Rightarrow> msg | None \<Rightarrow> 0), js_tip = jr_tip j\<rparr>"

definition journal_state_of :: "journal \<Rightarrow> journal_state" where
  "journal_state_of j = state_at j (jr_count j)"

definition fresh_journal :: "byte list \<Rightarrow> u64 \<Rightarrow> hash256 \<Rightarrow> bool \<Rightarrow> journal" where
  "fresh_journal file cnt checksum protected =
     \<lparr>jr_file = file, jr_count = cnt, jr_identity = checksum, jr_tip = checksum, jr_last = None,
      jr_previous = None, jr_poisoned = False, jr_protected = protected, jr_safety = None,
      jr_rollover = None\<rparr>"

definition create_mode ::
  "(byte list \<Rightarrow> hash256) \<Rightarrow> io_result \<Rightarrow> bool \<Rightarrow> signing_context \<Rightarrow> bytes32 \<Rightarrow> bool \<Rightarrow>
   keystore_error + journal" where
  "create_mode blake2s io_write exists ctx public_key protected =
     (if exists then Err AlreadyExists
      else
        let bytes = header_version blake2s ctx public_key protected;
            checksum = domain_hash blake2s HEADER_DOMAIN (take 76 bytes) in
        case persist io_write 0 bytes [] of
          (True, file) \<Rightarrow> Ok (fresh_journal file 0 checksum protected)
        | (False, _) \<Rightarrow> Err JournalFailure)"

text \<open>The last decision together with its safety, as \<open>validate_safety\<close> receives it.\<close>

definition last_safety :: "journal \<Rightarrow> (signing_position \<times> signing_safety) option" where
  "last_safety j =
     (case (jr_last j, jr_safety j) of (Some (pos, _), Some s) \<Rightarrow> Some (pos, s) | _ \<Rightarrow> None)"

text \<open>Replay reads \<open>n\<close> records from \<open>bytes\<close>, the rest of the file.\<close>

fun replay ::
  "(byte list \<Rightarrow> hash256) \<Rightarrow> nat \<Rightarrow> bool \<Rightarrow> nat \<Rightarrow> u64 \<Rightarrow> byte list \<Rightarrow> journal \<Rightarrow>
   keystore_error + journal \<times> byte list" where
  "replay blake2s record_size protected 0 sequence bytes j = Ok (j, bytes)"
| "replay blake2s record_size protected (Suc n) sequence bytes j =
     (if length bytes < record_size then Err InvalidJournal
      else
        try_bind (decode_entry blake2s (take record_size bytes) sequence (jr_tip j) protected)
          (\<lambda>(pos, msg, tip, safety).
        try_bind (case safety of
            None \<Rightarrow> Ok ()
          | Some next \<Rightarrow> map_err (\<lambda>_. InvalidJournal) (validate_safety pos next (last_safety j))) (\<lambda>_.
        if (case jr_last j of None \<Rightarrow> False | Some (previous, _) \<Rightarrow> pos \<le> previous)
        then Err InvalidJournal
        else replay blake2s record_size protected n (sequence + 1) (drop record_size bytes)
          (j\<lparr>jr_previous := Some (state_at j (sequence - 1)), jr_safety := safety,
             jr_last := Some (pos, msg), jr_tip := tip\<rparr>))))"

definition recover_rollover ::
  "(byte list \<Rightarrow> hash256) \<Rightarrow> byte list \<Rightarrow> journal \<Rightarrow> keystore_error + journal" where
  "recover_rollover blake2s bytes j =
     (if length bytes < EXTENSION_BYTES then Err InvalidJournal
      else
        try_bind (ro_decode blake2s (jr_tip j) (jr_last j) (jr_safety j) (take EXTENSION_BYTES bytes))
          (\<lambda>r.
        let latest = ro_latest r;
            previous = (case ro_older r of
                None \<Rightarrow> jr_previous j
              | Some older \<Rightarrow> Some \<lparr>js_sequence = wm_sequence older,
                  js_position = Some (wm_position older), js_message = wm_message older,
                  js_tip = jr_tip j\<rparr>) in
        Ok (j\<lparr>jr_previous := previous, jr_count := wm_sequence latest,
              jr_last := Some (wm_position latest, wm_message latest),
              jr_safety := Some (wm_safety latest), jr_rollover := Some r\<rparr>)))"

definition record_size :: "bool \<Rightarrow> nat" where
  "record_size protected = (if protected then PROTECTED_RECORD_BYTES else RECORD_BYTES)"

text \<open>
  The comparison that precedes every reservation. The reads of the file are taken to succeed; where one fails the
  code refuses and poisons the journal in the same way.
\<close>

definition length_ok :: "(byte list \<Rightarrow> hash256) \<Rightarrow> journal \<Rightarrow> bool" where
  "length_ok blake2s j \<longleftrightarrow>
     (let expected = (if jr_rollover j \<noteq> None then MAX_ROLLOVER_JOURNAL_BYTES
                      else HEADER_BYTES + unat (jr_count j) * record_size (jr_protected j)) in
      length (jr_file j) = expected
      \<and> (case jr_rollover j of
           None \<Rightarrow> True
         | Some r \<Rightarrow> take EXTENSION_BYTES (drop MAX_PROTECTED_JOURNAL_BYTES (jr_file j)) = ro_encode blake2s r))"

definition check_length :: "(byte list \<Rightarrow> hash256) \<Rightarrow> journal \<Rightarrow> (keystore_error + unit) \<times> journal" where
  "check_length blake2s j =
     (if length_ok blake2s j then (Ok (), j) else (Err InvalidJournal, j\<lparr>jr_poisoned := True\<rparr>))"

definition journal_open ::
  "(byte list \<Rightarrow> hash256) \<Rightarrow> bool \<Rightarrow> signing_context \<Rightarrow> bytes32 \<Rightarrow> byte list \<Rightarrow>
   keystore_error + journal" where
  "journal_open blake2s sync_ok ctx public_key file =
     (let len = length file in
      if \<not> (HEADER_BYTES \<le> len \<and> len \<le> MAX_ROLLOVER_JOURNAL_BYTES) then Err InvalidJournal
      else
        let bytes = take HEADER_BYTES file;
            checksum = domain_hash blake2s HEADER_DOMAIN (take 76 bytes);
            version = take 4 (drop 4 bytes) in
        if version \<noteq> [1, 0, 0, 0] \<and> version \<noteq> [2, 0, 0, 0] then Err InvalidJournal
        else
          let protected = (version = [2, 0, 0, 0]) in
          if take 4 bytes \<noteq> ascii ''ALSJ'' \<or> drop 76 bytes \<noteq> be_bytes checksum then Err InvalidJournal
          else if bytes \<noteq> header_version blake2s ctx public_key protected then Err ContextMismatch
          else
            let rolled = (protected \<and> len = MAX_ROLLOVER_JOURNAL_BYTES);
                prefix_length = (if rolled then MAX_PROTECTED_JOURNAL_BYTES else len) in
            if (prefix_length - HEADER_BYTES) mod record_size protected \<noteq> 0 then Err InvalidJournal
            else
              let cnt = (prefix_length - HEADER_BYTES) div record_size protected in
              if cnt > MAX_JOURNAL_RECORDS then Err InvalidJournal
              else
                try_bind (replay blake2s (record_size protected) protected cnt 1
                    (drop HEADER_BYTES file) (fresh_journal file (of_nat cnt) checksum protected))
                  (\<lambda>(j, bytes).
                try_bind (if rolled then recover_rollover blake2s bytes j else Ok j) (\<lambda>j.
                try_bind (fst (check_length blake2s j)) (\<lambda>_.
                if sync_ok then Ok j else Err JournalFailure))))"

definition activate_rollover ::
  "(byte list \<Rightarrow> hash256) \<Rightarrow> io_result \<Rightarrow> journal \<Rightarrow> (keystore_error + unit) \<times> journal" where
  "activate_rollover blake2s io_write j =
     (if \<not> jr_protected j \<or> unat (jr_count j) \<noteq> MAX_JOURNAL_RECORDS \<or> jr_rollover j \<noteq> None
      then (Err InvalidJournal, j)
      else case rollover_new blake2s (jr_tip j) (jr_last j) (jr_safety j) of
        Inl e \<Rightarrow> (Err e, j)
      | Inr r \<Rightarrow>
          (case persist io_write MAX_PROTECTED_JOURNAL_BYTES (ro_encode blake2s r) (jr_file j) of
             (False, file) \<Rightarrow> (Err DurabilityUnknown, j\<lparr>jr_poisoned := True, jr_file := file\<rparr>)
           | (True, file) \<Rightarrow> (Ok (), j\<lparr>jr_file := file, jr_rollover := Some r\<rparr>)))"

text \<open>The record to write and its place: a rollover slot, or the end of the file.\<close>

definition entry_update ::
  "(byte list \<Rightarrow> hash256) \<Rightarrow> journal \<Rightarrow> u64 \<Rightarrow> signing_position \<Rightarrow> hash256 \<Rightarrow> signing_safety option \<Rightarrow>
   keystore_error + u8 option \<times> nat \<times> byte list" where
  "entry_update blake2s j sequence pos msg safety =
     (case jr_rollover j of
        Some r \<Rightarrow>
          try_bind (ok_or InvalidSafety safety) (\<lambda>s.
          try_bind (ro_prepare blake2s r sequence pos msg s) (\<lambda>(slot, bytes).
          Ok (Some slot, slot_offset slot, bytes)))
      | None \<Rightarrow>
          (case safety of
             Some s \<Rightarrow> Ok (None, HEADER_BYTES + unat (jr_count j) * PROTECTED_RECORD_BYTES,
               protected_record blake2s sequence pos msg (jr_tip j) s)
           | None \<Rightarrow> Ok (None, HEADER_BYTES + unat (jr_count j) * RECORD_BYTES,
               record_bytes blake2s sequence pos msg (jr_tip j))))"

definition write_entry ::
  "(byte list \<Rightarrow> hash256) \<Rightarrow> io_result \<Rightarrow> journal \<Rightarrow> u64 \<Rightarrow> signing_position \<Rightarrow> hash256 \<Rightarrow>
   signing_safety option \<Rightarrow> (keystore_error + unit) \<times> journal" where
  "write_entry blake2s io_write j sequence pos msg safety =
     (case entry_update blake2s j sequence pos msg safety of
        Inl e \<Rightarrow> (Err e, j)
      | Inr (slot, off, bytes) \<Rightarrow>
          (case persist io_write off bytes (jr_file j) of
             (False, file) \<Rightarrow> (Err DurabilityUnknown, j\<lparr>jr_poisoned := True, jr_file := file\<rparr>)
           | (True, file) \<Rightarrow>
               (Ok (),
                j\<lparr>jr_file := file, jr_previous := Some (journal_state_of j), jr_last := Some (pos, msg),
                  jr_safety := safety,
                  jr_rollover := (case (slot, jr_rollover j, safety) of
                     (Some sl, Some r, Some s) \<Rightarrow> Some (ro_publish sl sequence pos msg s r)
                   | _ \<Rightarrow> jr_rollover j),
                  jr_tip := (if slot = None then record_hash blake2s (jr_tip j) (take (length bytes - 32) bytes)
                             else jr_tip j),
                  jr_count := sequence\<rparr>)))"

definition reserve_entry ::
  "(byte list \<Rightarrow> hash256) \<Rightarrow> io_result \<Rightarrow> io_result \<Rightarrow> signing_position \<Rightarrow> hash256 \<Rightarrow>
   signing_safety option \<Rightarrow> journal \<Rightarrow> (keystore_error + unit) \<times> journal" where
  "reserve_entry blake2s io_activate io_write pos msg safety j =
     (if jr_poisoned j then (Err DurabilityUnknown, j)
      else if pos_phase pos > PRECOMMIT_PHASE then (Err InvalidPosition, j)
      else if jr_protected j \<noteq> (safety \<noteq> None) then (Err InvalidSafety, j)
      else if \<not> length_ok blake2s j then (Err InvalidJournal, j\<lparr>jr_poisoned := True\<rparr>)
      else if (case jr_last j of None \<Rightarrow> False | Some (previous, _) \<Rightarrow> pos < previous)
      then (Err StalePosition, j)
      else if (case jr_last j of None \<Rightarrow> False | Some (previous, _) \<Rightarrow> pos = previous)
      then (if jr_last j = Some (pos, msg) \<and> safety = jr_safety j then (Ok (), j)
            else (Err ConflictingSign, j))
      else if \<not> jr_protected j \<and> unat (jr_count j) = MAX_JOURNAL_RECORDS
      then (Err JournalLimitExceeded, j)
      else case (case safety of None \<Rightarrow> Ok () | Some next \<Rightarrow> validate_safety pos next (last_safety j)) of
        Inl e \<Rightarrow> (Err e, j)
      | Inr _ \<Rightarrow>
          (case checked_add (jr_count j) 1 of
             None \<Rightarrow> (Err JournalLimitExceeded, j)
           | Some sequence \<Rightarrow>
               (if jr_protected j \<and> unat (jr_count j) = MAX_JOURNAL_RECORDS \<and> jr_rollover j = None
                then (case activate_rollover blake2s io_activate j of
                        (Inl e, j1) \<Rightarrow> (Err e, j1)
                      | (Inr _, j1) \<Rightarrow> write_entry blake2s io_write j1 sequence pos msg safety)
                else write_entry blake2s io_write j sequence pos msg safety)))"

definition reserve ::
  "(byte list \<Rightarrow> hash256) \<Rightarrow> io_result \<Rightarrow> signing_position \<Rightarrow> hash256 \<Rightarrow> journal \<Rightarrow>
   (keystore_error + unit) \<times> journal" where
  "reserve blake2s io_write pos msg j = reserve_entry blake2s IoOk io_write pos msg None j"

definition reserve_protected ::
  "(byte list \<Rightarrow> hash256) \<Rightarrow> io_result \<Rightarrow> io_result \<Rightarrow> signing_position \<Rightarrow> hash256 \<Rightarrow>
   signing_safety \<Rightarrow> journal \<Rightarrow> (keystore_error + unit) \<times> journal" where
  "reserve_protected blake2s io_activate io_write pos msg safety j =
     reserve_entry blake2s io_activate io_write pos msg (Some safety) j"

end
