(* ===== verification/Astro_Journal_Log.thy ===== *)
theory Astro_Journal_Log
  imports Astro_Journal
begin

text \<open>
  The journal of Astro\_Journal implements an append-only log of decisions. \<open>render\<close> gives
  the one journal, file and cached fields alike, that stands for a log; \<open>log_ok\<close> is what
  makes a log safe: positions ascend strictly, the committee of a height is fixed and its
  lock never regresses. Reservation appends to the log or changes nothing durable,
  opening the file of a journal gives the same journal back, and a write that was cut
  off at any byte is either rejected on opening or recovers the log before or after it.
\<close>

type_synonym decision = "signing_position \<times> hash256 \<times> signing_safety option"

abbreviation dec_pos :: "decision \<Rightarrow> signing_position" where "dec_pos d \<equiv> fst d"
abbreviation dec_msg :: "decision \<Rightarrow> hash256" where "dec_msg d \<equiv> fst (snd d)"
abbreviation dec_safety :: "decision \<Rightarrow> signing_safety option" where "dec_safety d \<equiv> snd (snd d)"

section \<open>Safe logs\<close>

text \<open>\<open>d\<close> may follow the decision \<open>prev\<close>.\<close>

definition follows :: "bool \<Rightarrow> decision option \<Rightarrow> decision \<Rightarrow> bool" where
  "follows protected prev d \<longleftrightarrow>
     pos_phase (dec_pos d) \<le> PRECOMMIT_PHASE \<and> (dec_safety d \<noteq> None \<longleftrightarrow> protected)
     \<and> (\<forall>q. prev = Some q \<longrightarrow> dec_pos q < dec_pos d)
     \<and> (\<forall>s. dec_safety d = Some s \<longrightarrow>
          validate_safety (dec_pos d) s
            (case prev of Some (p, _, Some s') \<Rightarrow> Some (p, s') | _ \<Rightarrow> None) = Ok ())"

fun last_opt :: "decision option \<Rightarrow> decision list \<Rightarrow> decision option" where
  "last_opt prev [] = prev"
| "last_opt prev (d # ds) = last_opt (Some d) ds"

fun log_from :: "bool \<Rightarrow> decision option \<Rightarrow> decision list \<Rightarrow> bool" where
  "log_from protected prev [] \<longleftrightarrow> True"
| "log_from protected prev (d # ds) \<longleftrightarrow> follows protected prev d \<and> log_from protected (Some d) ds"

definition log_ok :: "bool \<Rightarrow> decision list \<Rightarrow> bool" where
  "log_ok protected ds \<longleftrightarrow> log_from protected None ds"

lemma last_opt_append [simp]: "last_opt prev (ds @ [d]) = Some d"
  by (induction ds arbitrary: prev) auto

lemma last_opt_None: "last_opt None ds = (if ds = [] then None else Some (last ds))"
proof -
  have "last_opt prev ds = (if ds = [] then prev else Some (last ds))" for prev
    by (induction ds arbitrary: prev) auto
  then show ?thesis .
qed

lemma log_from_append:
  "log_from p prev (ds @ [d]) \<longleftrightarrow> log_from p prev ds \<and> follows p (last_opt prev ds) d"
  by (induction ds arbitrary: prev) auto

lemma log_from_append_list:
  "log_from p prev (ds @ es) \<longleftrightarrow> log_from p prev ds \<and> log_from p (last_opt prev ds) es"
  by (induction ds arbitrary: prev) auto

lemma log_from_sorted:
  "log_from p prev ds \<Longrightarrow> sorted_wrt (<) (map dec_pos ds) \<and> (\<forall>q. prev = Some q \<longrightarrow> (\<forall>d \<in> set ds. dec_pos q < dec_pos d))"
proof (induction ds arbitrary: prev)
  case (Cons d ds)
  then have "log_from p (Some d) ds" and head: "\<forall>q. prev = Some q \<longrightarrow> dec_pos q < dec_pos d"
    by (simp_all add: follows_def)
  with Cons.IH have tail: "sorted_wrt (<) (map dec_pos ds)" "\<forall>e \<in> set ds. dec_pos d < dec_pos e"
    by blast+
  with head show ?case by (auto intro: less_trans)
qed simp

lemma log_ok_sorted: "log_ok p ds \<Longrightarrow> sorted_wrt (<) (map dec_pos ds)"
  using log_from_sorted by (auto simp: log_ok_def)

lemma log_ok_phase: "log_ok p ds \<Longrightarrow> d \<in> set ds \<Longrightarrow> pos_phase (dec_pos d) \<le> PRECOMMIT_PHASE \<and> (dec_safety d \<noteq> None \<longleftrightarrow> p)"
proof -
  have "log_from p prev ds \<Longrightarrow> d \<in> set ds \<Longrightarrow> pos_phase (dec_pos d) \<le> PRECOMMIT_PHASE \<and> (dec_safety d \<noteq> None \<longleftrightarrow> p)" for prev
    by (induction ds arbitrary: prev) (auto simp: follows_def)
  then show "log_ok p ds \<Longrightarrow> d \<in> set ds \<Longrightarrow> ?thesis" by (simp add: log_ok_def)
qed

text \<open>Within a height the committee is fixed and locks only advance.\<close>

definition lock_le :: "signing_lock option \<Rightarrow> signing_lock option \<Rightarrow> bool" where
  "lock_le a b \<longleftrightarrow> (\<forall>l. a = Some l \<longrightarrow> (\<exists>n. b = Some n \<and> (lock_round l < lock_round n \<or> n = l)))"

lemma lock_le_refl [simp]: "lock_le a a"
  by (auto simp: lock_le_def)

lemma lock_le_trans: "lock_le a b \<Longrightarrow> lock_le b c \<Longrightarrow> lock_le a c"
  by (fastforce simp: lock_le_def intro: less_trans)

lemma validate_safety_Ok:
  "validate_safety pos s prev = Ok () \<longleftrightarrow>
     sf_committee_root s \<noteq> 0 \<and> (\<forall>l. sf_locked s = Some l \<longrightarrow> lock_round l \<le> pos_round pos)
     \<and> (\<forall>p s'. prev = Some (p, s') \<longrightarrow> pos_height p = pos_height pos \<longrightarrow>
          sf_committee_root s' = sf_committee_root s \<and> lock_le (sf_locked s') (sf_locked s))"
  by (auto simp: validate_safety_def lock_le_def not_less split: option.splits if_splits)

lemma validate_safety_trans:
  assumes "validate_safety p1 s1 (Some (p0, s0)) = Ok ()" "validate_safety p2 s2 (Some (p1, s1)) = Ok ()"
    and "p0 < p1" "p1 < p2"
  shows "validate_safety p2 s2 (Some (p0, s0)) = Ok ()"
proof -
  have "pos_height p1 = pos_height p2" if "pos_height p0 = pos_height p2"
    using assms(3,4) that by (auto simp: position_lt_iff)
  with assms(1,2) show ?thesis
    by (auto simp: validate_safety_Ok intro: lock_le_trans)
qed

lemma log_from_safety:
  assumes "log_from True prev ds" and "prev = Some (p, m, Some s)" and "d \<in> set ds" and "dec_safety d = Some t"
  shows "validate_safety (dec_pos d) t (Some (p, s)) = Ok ()"
  using assms
proof (induction ds arbitrary: prev p m s)
  case (Cons e ds)
  obtain pe me se where e: "e = (pe, me, Some se)"
    using Cons.prems(1) by (cases e) (auto simp: follows_def)
  have first: "validate_safety pe se (Some (p, s)) = Ok ()" "p < pe"
    using Cons.prems(1,2) by (auto simp: follows_def e)
  show ?case
  proof (cases "d = e")
    case True
    with first Cons.prems(4) show ?thesis by (simp add: e)
  next
    case False
    then have d: "d \<in> set ds" using Cons.prems(3) by simp
    have rest: "log_from True (Some (pe, me, Some se)) ds" using Cons.prems(1) by (simp add: e)
    have "validate_safety (dec_pos d) t (Some (pe, se)) = Ok ()"
      using Cons.IH [OF rest refl d Cons.prems(4)] .
    moreover have "pe < dec_pos d"
      using log_from_sorted [OF rest] d by auto
    ultimately show ?thesis using first validate_safety_trans by blast
  qed
qed simp

text \<open>Two decisions of a safe log, in order.\<close>

lemma log_ok_pair:
  assumes "log_ok True (xs @ d # ys)" and "e \<in> set ys" and "dec_safety d = Some s" "dec_safety e = Some t"
  shows "dec_pos d < dec_pos e \<and> validate_safety (dec_pos e) t (Some (dec_pos d, s)) = Ok ()"
proof -
  obtain p m where d: "d = (p, m, Some s)" using assms(3) by (cases d) auto
  have ys: "log_from True (Some d) ys"
    using assms(1) by (simp add: log_ok_def log_from_append_list)
  with assms d show ?thesis
    using log_from_safety [OF ys, of p m s e t] log_from_sorted [OF ys] by auto
qed

section \<open>The bytes of a log\<close>

fun chain_tip :: "(byte list \<Rightarrow> hash256) \<Rightarrow> hash256 \<Rightarrow> u64 \<Rightarrow> decision list \<Rightarrow> hash256" where
  "chain_tip blake2s tip sq [] = tip"
| "chain_tip blake2s tip sq ((p, m, s) # ds) =
     chain_tip blake2s (record_hash blake2s tip (entry_body sq p m s)) (sq + 1) ds"

fun chain_bytes :: "(byte list \<Rightarrow> hash256) \<Rightarrow> hash256 \<Rightarrow> u64 \<Rightarrow> decision list \<Rightarrow> byte list" where
  "chain_bytes blake2s tip sq [] = []"
| "chain_bytes blake2s tip sq ((p, m, s) # ds) =
     entry_record blake2s sq p m tip s
     @ chain_bytes blake2s (record_hash blake2s tip (entry_body sq p m s)) (sq + 1) ds"

definition log_last :: "decision list \<Rightarrow> (signing_position \<times> hash256) option" where
  "log_last ds = map_option (\<lambda>d. (dec_pos d, dec_msg d)) (last_opt None ds)"

definition log_safety :: "decision list \<Rightarrow> signing_safety option" where
  "log_safety ds = Option.bind (last_opt None ds) (\<lambda>d. dec_safety d)"

definition log_state :: "(byte list \<Rightarrow> hash256) \<Rightarrow> hash256 \<Rightarrow> decision list \<Rightarrow> journal_state" where
  "log_state blake2s ident ds = \<lparr>js_sequence = of_nat (length ds), js_position = map_option dec_pos (last_opt None ds),
     js_message = (case last_opt None ds of Some d \<Rightarrow> dec_msg d | None \<Rightarrow> 0),
     js_tip = chain_tip blake2s ident 1 (take MAX_JOURNAL_RECORDS ds)\<rparr>"

text \<open>The watermark of the \<open>n\<close>-th decision, and the slots of a log that has rolled over.\<close>

definition watermark_at :: "decision list \<Rightarrow> nat \<Rightarrow> watermark" where
  "watermark_at ds n = \<lparr>wm_sequence = of_nat n, wm_position = dec_pos (ds ! (n - 1)),
     wm_message = dec_msg (ds ! (n - 1)), wm_safety = the (dec_safety (ds ! (n - 1)))\<rparr>"

definition render_rollover :: "(byte list \<Rightarrow> hash256) \<Rightarrow> hash256 \<Rightarrow> decision list \<Rightarrow> rollover" where
  "render_rollover blake2s tip ds =
     (let n = length ds; older = max MAX_JOURNAL_RECORDS (n - 1) in
      \<lparr>ro_anchor = domain_hash blake2s ROLLOVER_HEADER_DOMAIN (be_bytes tip),
       ro_slot0 = watermark_at ds (if ro_slot_of (of_nat n) = 0 then n else older),
       ro_slot1 = watermark_at ds (if ro_slot_of (of_nat n) = 0 then older else n)\<rparr>)"

definition journal_identity :: "(byte list \<Rightarrow> hash256) \<Rightarrow> signing_context \<Rightarrow> bytes32 \<Rightarrow> bool \<Rightarrow> hash256" where
  "journal_identity blake2s ctx pk protected = domain_hash blake2s HEADER_DOMAIN (header_body ctx pk protected)"

definition render ::
  "(byte list \<Rightarrow> hash256) \<Rightarrow> signing_context \<Rightarrow> bytes32 \<Rightarrow> bool \<Rightarrow> bool \<Rightarrow> decision list \<Rightarrow> journal" where
  "render blake2s ctx pk protected rolled ds =
     (let ident = journal_identity blake2s ctx pk protected;
          prefix = take MAX_JOURNAL_RECORDS ds;
          tip = chain_tip blake2s ident 1 prefix;
          r = render_rollover blake2s tip ds in
      \<lparr>jr_file = header_version blake2s ctx pk protected @ chain_bytes blake2s ident 1 prefix
         @ (if rolled then ro_encode blake2s r else []),
       jr_count = of_nat (length ds), jr_identity = ident, jr_tip = tip, jr_last = log_last ds,
       jr_previous = (if ds = [] then None else Some (log_state blake2s ident (butlast ds))),
       jr_poisoned = False, jr_protected = protected, jr_safety = log_safety ds,
       jr_rollover = (if rolled then Some r else None)\<rparr>)"

definition renderable :: "bool \<Rightarrow> bool \<Rightarrow> decision list \<Rightarrow> bool" where
  "renderable protected rolled ds \<longleftrightarrow> log_ok protected ds \<and> length ds < 2 ^ 64
     \<and> (if rolled then protected \<and> MAX_JOURNAL_RECORDS \<le> length ds else length ds \<le> MAX_JOURNAL_RECORDS)"

lemma chain_append:
  "chain_tip blake2s tip sq (ds @ [(p, m, s)]) =
     record_hash blake2s (chain_tip blake2s tip sq ds) (entry_body (sq + of_nat (length ds)) p m s)"
  "chain_bytes blake2s tip sq (ds @ [(p, m, s)]) = chain_bytes blake2s tip sq ds
     @ entry_record blake2s (sq + of_nat (length ds)) p m (chain_tip blake2s tip sq ds) s"
  by (induction ds arbitrary: tip sq) (auto simp: add.assoc)

lemma length_entry_record: "length (entry_record blake2s sq p m tip s) = record_size (s \<noteq> None)"
  by (cases s) (simp_all add: entry_record_simps record_size_def PROTECTED_RECORD_BYTES_def RECORD_BYTES_def)

lemma length_chain_bytes:
  "(\<forall>d \<in> set ds. dec_safety d \<noteq> None \<longleftrightarrow> p) \<Longrightarrow> length (chain_bytes blake2s tip sq ds) = length ds * record_size p"
  by (induction blake2s tip sq ds rule: chain_bytes.induct) (auto simp: length_entry_record)

lemma length_encode_slot [simp]: "length (encode_slot blake2s a sl w) = 154"
  by (simp add: encode_slot_def)

lemma length_ro_encode [simp]: "length (ro_encode blake2s r) = EXTENSION_BYTES"
  by (simp add: ro_encode_def EXTENSION_BYTES_def ROLLOVER_MAGIC_def ROLLOVER_HEADER_BYTES_def
      PROTECTED_RECORD_BYTES_def)

section \<open>Reservation appends to the log\<close>

lemma MAX_JOURNAL_RECORDS_pos [simp]: "0 < MAX_JOURNAL_RECORDS"
  by (simp add: MAX_JOURNAL_RECORDS_def)

lemma unat_u64_nat: "n < 2 ^ 64 \<Longrightarrow> unat (of_nat n :: u64) = n"
  by (simp add: unat_of_nat)

lemma render_fields [simp]:
  "jr_count (render blake2s ctx pk p rolled ds) = of_nat (length ds)"
  "jr_last (render blake2s ctx pk p rolled ds) = log_last ds"
  "jr_safety (render blake2s ctx pk p rolled ds) = log_safety ds"
  "jr_poisoned (render blake2s ctx pk p rolled ds) = False"
  "jr_protected (render blake2s ctx pk p rolled ds) = p"
  "jr_identity (render blake2s ctx pk p rolled ds) = journal_identity blake2s ctx pk p"
  "jr_tip (render blake2s ctx pk p rolled ds) =
     chain_tip blake2s (journal_identity blake2s ctx pk p) 1 (take MAX_JOURNAL_RECORDS ds)"
  "jr_rollover (render blake2s ctx pk p rolled ds) =
     (if rolled then Some (render_rollover blake2s (jr_tip (render blake2s ctx pk p rolled ds)) ds) else None)"
  by (simp_all add: render_def Let_def)

lemma render_file:
  "jr_file (render blake2s ctx pk p rolled ds) =
     header_version blake2s ctx pk p
     @ chain_bytes blake2s (journal_identity blake2s ctx pk p) 1 (take MAX_JOURNAL_RECORDS ds)
     @ (if rolled then ro_encode blake2s
          (render_rollover blake2s (jr_tip (render blake2s ctx pk p rolled ds)) ds) else [])"
  by (simp add: render_def Let_def)

lemma chain_length_render:
  assumes "renderable p rolled ds"
  shows "length (chain_bytes blake2s tip sq (take MAX_JOURNAL_RECORDS ds)) =
    min (length ds) MAX_JOURNAL_RECORDS * record_size p"
proof -
  have "\<forall>d \<in> set (take MAX_JOURNAL_RECORDS ds). dec_safety d \<noteq> None \<longleftrightarrow> p"
  proof
    fix d assume "d \<in> set (take MAX_JOURNAL_RECORDS ds)"
    then have "d \<in> set ds" by (rule in_set_takeD)
    then show "dec_safety d \<noteq> None \<longleftrightarrow> p"
      using assms log_ok_phase [of p ds d] by (simp add: renderable_def)
  qed
  from length_chain_bytes [OF this] show ?thesis by (simp add: min.commute)
qed

lemma length_render_file:
  assumes "renderable p rolled ds"
  shows "length (jr_file (render blake2s ctx pk p rolled ds)) =
    (if rolled then MAX_ROLLOVER_JOURNAL_BYTES else HEADER_BYTES + length ds * record_size p)"
  using assms chain_length_render [OF assms]
  by (auto simp: render_file renderable_def HEADER_BYTES_def min_def
      MAX_ROLLOVER_JOURNAL_BYTES_def MAX_PROTECTED_JOURNAL_BYTES_def record_size_def)

lemma render_length_ok:
  assumes "renderable p rolled ds"
  shows "length_ok blake2s (render blake2s ctx pk p rolled ds)"
proof -
  have "drop MAX_PROTECTED_JOURNAL_BYTES (jr_file (render blake2s ctx pk p rolled ds)) =
      ro_encode blake2s (render_rollover blake2s (jr_tip (render blake2s ctx pk p rolled ds)) ds)" if rolled
    using that assms chain_length_render [OF assms]
    by (simp add: render_file renderable_def MAX_PROTECTED_JOURNAL_BYTES_def HEADER_BYTES_def
        record_size_def min_def)
  then show ?thesis
    using length_render_file [OF assms, of blake2s ctx pk] assms
    by (simp add: length_ok_def Let_def renderable_def unat_u64_nat)
qed

lemma render_latest:
  assumes "MAX_JOURNAL_RECORDS \<le> length ds" and "length ds < 2 ^ 64"
  shows "ro_latest (render_rollover blake2s tip ds) = watermark_at ds (length ds)"
proof (cases "length ds = MAX_JOURNAL_RECORDS")
  case True
  then show ?thesis by (simp add: ro_latest_def render_rollover_def Let_def)
next
  case False
  with assms have "MAX_JOURNAL_RECORDS < length ds" by simp
  then have "max MAX_JOURNAL_RECORDS (length ds - 1) = length ds - 1" and "0 < length ds" by auto
  moreover from this have "(of_nat (length ds - 1) :: u64) < of_nat (length ds)"
    using assms(2) by (simp add: word_less_nat_alt unat_u64_nat)
  ultimately show ?thesis
    by (auto simp: ro_latest_def render_rollover_def Let_def watermark_at_def)
qed

lemma ro_slot_of_cases: "ro_slot_of sq = 0 \<or> ro_slot_of sq = 1"
  unfolding ro_slot_of_def of_bool_def by auto

lemma ro_slot_of_Suc:
  assumes "MAX_JOURNAL_RECORDS < n" and "Suc n < 2 ^ 64"
  shows "ro_slot_of (of_nat (Suc n)) = 0 \<longleftrightarrow> ro_slot_of (of_nat n) = 1"
proof -
  have eq: "unat (of_nat (Suc n) :: u64) - MAX_JOURNAL_RECORDS - 1 = Suc (n - MAX_JOURNAL_RECORDS - 1)"
    "unat (of_nat n :: u64) - MAX_JOURNAL_RECORDS - 1 = n - MAX_JOURNAL_RECORDS - 1"
    using assms unat_u64_nat [of "Suc n"] unat_u64_nat [of n] by (simp_all del: of_nat_Suc)
  show ?thesis
    unfolding ro_slot_of_def eq by (simp add: mod_Suc)
qed

lemma watermark_at_append: "0 < k \<Longrightarrow> k \<le> length ds \<Longrightarrow> watermark_at (ds @ es) k = watermark_at ds k"
  by (cases k) (simp_all add: watermark_at_def nth_append Suc_le_eq)

lemma render_rollover_append:
  assumes "MAX_JOURNAL_RECORDS \<le> length ds" and "Suc (length ds) < 2 ^ 64"
  shows "render_rollover blake2s tip (ds @ [(pos, msg, Some s)]) =
    ro_publish (ro_slot_of (of_nat (Suc (length ds)))) (of_nat (Suc (length ds))) pos msg s
      (render_rollover blake2s tip ds)"
proof -
  let ?n = "length ds" and ?ds = "ds @ [(pos, msg, Some s)]"
  have n: "0 < ?n" using assms(1) MAX_JOURNAL_RECORDS_pos by linarith
  have last: "watermark_at ?ds (Suc ?n) = \<lparr>wm_sequence = of_nat (Suc ?n), wm_position = pos,
      wm_message = msg, wm_safety = s\<rparr>"
    by (simp add: watermark_at_def)
  have older: "max MAX_JOURNAL_RECORDS (Suc ?n - 1) = ?n" using assms(1) by simp
  have keep: "watermark_at ?ds ?n = watermark_at ds ?n"
    using n by (simp add: watermark_at_append)
  show ?thesis
  proof (cases "?n = MAX_JOURNAL_RECORDS")
    case True
    then have "ro_slot_of (of_nat (Suc ?n)) = 0"
      using unat_u64_nat [OF assms(2)] by (simp add: ro_slot_of_def del: of_nat_Suc)
    with True last keep show ?thesis
      by (simp add: render_rollover_def ro_publish_def Let_def del: of_nat_Suc)
  next
    case False
    then have "MAX_JOURNAL_RECORDS < ?n" using assms(1) by simp
    note slots = ro_slot_of_Suc [OF this assms(2)]
    show ?thesis
    proof (cases "ro_slot_of (of_nat (Suc ?n)) = 0")
      case True
      with slots last keep older show ?thesis
        by (simp add: render_rollover_def ro_publish_def Let_def del: of_nat_Suc)
    next
      case False
      with slots ro_slot_of_cases [of "of_nat ?n"] last keep older show ?thesis
        by (simp add: render_rollover_def ro_publish_def Let_def del: of_nat_Suc)
    qed
  qed
qed

lemma last_opt_some: "ds \<noteq> [] \<Longrightarrow> last_opt None ds = Some (ds ! (length ds - 1))"
  by (simp add: last_opt_None last_conv_nth)

lemma log_last_append [simp]: "log_last (ds @ [d]) = Some (dec_pos d, dec_msg d)"
  by (simp add: log_last_def)

lemma log_safety_append [simp]: "log_safety (ds @ [d]) = dec_safety d"
  by (simp add: log_safety_def)

lemma journal_state_render: "journal_state_of (render blake2s ctx pk p rolled ds) =
    log_state blake2s (journal_identity blake2s ctx pk p) ds"
  by (auto simp: journal_state_of_def state_at_def log_state_def last_position_def log_last_def
      split: option.splits)

lemma last_safety_render:
  "last_safety (render blake2s ctx pk p rolled ds) =
     (case last_opt None ds of Some (q, _, Some s) \<Rightarrow> Some (q, s) | _ \<Rightarrow> None)"
  by (auto simp: last_safety_def log_last_def log_safety_def split: option.splits)

lemma write_entry_append:
  assumes r: "renderable p False ds" and room: "length ds < MAX_JOURNAL_RECORDS"
    and s: "safety \<noteq> None \<longleftrightarrow> p"
  shows "write_entry blake2s IoOk (render blake2s ctx pk p False ds) (of_nat (Suc (length ds))) pos msg safety
    = (Ok (), render blake2s ctx pk p False (ds @ [(pos, msg, safety)]))"
proof -
  let ?j = "render blake2s ctx pk p False ds"
  define bytes where "bytes = entry_record blake2s (of_nat (Suc (length ds))) pos msg (jr_tip ?j) safety"
  have update: "entry_update blake2s ?j (of_nat (Suc (length ds))) pos msg safety
      = Ok (None, length (jr_file ?j), bytes)"
    using s length_render_file [OF r, of blake2s ctx pk] r unfolding bytes_def
    by (cases safety) (simp_all add: entry_update_def entry_record_simps record_size_def renderable_def
        unat_u64_nat del: of_nat_Suc)
  have body: "take (length bytes - 32) bytes = entry_body (1 + of_nat (length ds)) pos msg safety"
    by (simp add: entry_record_def bytes_def)
  have bytes: "bytes = entry_record blake2s (1 + of_nat (length ds)) pos msg
      (chain_tip blake2s (journal_identity blake2s ctx pk p) 1 ds) safety"
    using room by (simp add: bytes_def)
  have "write_at (length (jr_file ?j)) bytes (jr_file ?j) = jr_file ?j @ bytes"
    by (simp add: write_at_def)
  then show ?thesis
    unfolding write_entry_def update using room
    by (simp add: body journal_state_render del: of_nat_Suc)
      (simp add: render_def Let_def chain_append bytes)
qed

lemma write_at_middle:
  "n = length a \<Longrightarrow> length b' = length b \<Longrightarrow> write_at n b' (a @ b @ c) = a @ b' @ c"
  by (simp add: write_at_def)

text \<open>Overwriting one slot of the extension publishes the watermark.\<close>

lemma write_slot:
  assumes "length pre = MAX_PROTECTED_JOURNAL_BYTES" and "sl = 0 \<or> sl = 1"
    and w: "w = \<lparr>wm_sequence = sq, wm_position = pos, wm_message = msg, wm_safety = s\<rparr>"
  shows "write_at (slot_offset sl) (encode_slot blake2s (ro_anchor r) sl w) (pre @ ro_encode blake2s r) =
    pre @ ro_encode blake2s (ro_publish sl sq pos msg s r)"
  using assms(2)
proof
  assume sl: "sl = 0"
  have "write_at (slot_offset sl) (encode_slot blake2s (ro_anchor r) sl w)
      ((pre @ ROLLOVER_MAGIC @ be_bytes (ro_anchor r)) @ encode_slot blake2s (ro_anchor r) 0 (ro_slot0 r)
        @ encode_slot blake2s (ro_anchor r) 1 (ro_slot1 r))
    = (pre @ ROLLOVER_MAGIC @ be_bytes (ro_anchor r)) @ encode_slot blake2s (ro_anchor r) sl w
        @ encode_slot blake2s (ro_anchor r) 1 (ro_slot1 r)"
    using assms(1) sl
    by (intro write_at_middle) (simp_all add: slot_offset_def ROLLOVER_HEADER_BYTES_def ROLLOVER_MAGIC_def)
  with sl w show ?thesis by (simp add: ro_encode_def ro_publish_def)
next
  assume sl: "sl = 1"
  have "write_at (slot_offset sl) (encode_slot blake2s (ro_anchor r) sl w)
      ((pre @ ROLLOVER_MAGIC @ be_bytes (ro_anchor r) @ encode_slot blake2s (ro_anchor r) 0 (ro_slot0 r))
        @ encode_slot blake2s (ro_anchor r) 1 (ro_slot1 r) @ [])
    = (pre @ ROLLOVER_MAGIC @ be_bytes (ro_anchor r) @ encode_slot blake2s (ro_anchor r) 0 (ro_slot0 r))
        @ encode_slot blake2s (ro_anchor r) sl w @ []"
    using assms(1) sl
    by (intro write_at_middle) (simp_all add: slot_offset_def ROLLOVER_HEADER_BYTES_def ROLLOVER_MAGIC_def
        PROTECTED_RECORD_BYTES_def)
  with sl w show ?thesis by (simp add: ro_encode_def ro_publish_def)
qed

lemma length_render_prefix:
  assumes "renderable True rolled ds" and "MAX_JOURNAL_RECORDS \<le> length ds"
  shows "length (header_version blake2s ctx pk True
      @ chain_bytes blake2s tip 1 (take MAX_JOURNAL_RECORDS ds)) = MAX_PROTECTED_JOURNAL_BYTES"
  using assms(2) chain_length_render [OF assms(1), of blake2s tip 1]
  by (simp add: MAX_PROTECTED_JOURNAL_BYTES_def HEADER_BYTES_def record_size_def min_def)

lemma last_decision:
  assumes "renderable True rolled ds" and "MAX_JOURNAL_RECORDS \<le> length ds"
  obtains q m t where "last_opt None ds = Some (q, m, Some t)" "ds ! (length ds - 1) = (q, m, Some t)"
proof -
  have "ds \<noteq> []" using assms(2) MAX_JOURNAL_RECORDS_pos by (metis list.size(3) not_le)
  moreover obtain q m x where d: "ds ! (length ds - 1) = (q, m, x)" by (cases "ds ! (length ds - 1)")
  moreover have "ds ! (length ds - 1) \<in> set ds" using \<open>ds \<noteq> []\<close> by simp
  then have "dec_safety (ds ! (length ds - 1)) \<noteq> None"
    using assms(1) log_ok_phase [of True ds "ds ! (length ds - 1)"] by (simp add: renderable_def)
  ultimately show ?thesis using that last_opt_some [of ds] by auto
qed

text \<open>The slot record of the next decision; the shared checks of the rollover cannot fail.\<close>

lemma entry_update_rolled:
  assumes r: "renderable True True ds" and room: "Suc (length ds) < 2 ^ 64"
    and f: "follows True (last_opt None ds) (pos, msg, Some s)"
    and ro: "ro = render_rollover blake2s (jr_tip (render blake2s ctx pk True True ds)) ds"
    and sq: "sq = of_nat (Suc (length ds))"
  shows "entry_update blake2s (render blake2s ctx pk True True ds) sq pos msg (Some s) =
    Ok (Some (ro_slot_of sq), slot_offset (ro_slot_of sq),
      encode_slot blake2s (ro_anchor ro) (ro_slot_of sq)
        \<lparr>wm_sequence = sq, wm_position = pos, wm_message = msg, wm_safety = s\<rparr>)"
proof -
  have n: "MAX_JOURNAL_RECORDS \<le> length ds" "length ds < 2 ^ 64" using r by (simp_all add: renderable_def)
  obtain q m t where l: "last_opt None ds = Some (q, m, Some t)" "ds ! (length ds - 1) = (q, m, Some t)"
    using last_decision [OF r n(1)] .
  have latest: "ro_latest ro = \<lparr>wm_sequence = of_nat (length ds), wm_position = q, wm_message = m, wm_safety = t\<rparr>"
    unfolding ro render_latest [OF n] using l(2) by (simp add: watermark_at_def)
  have succ: "checked_add (of_nat (length ds)) 1 = Some sq"
    using room n by (simp add: checked_add_def unat_u64_nat sq)
  have "q < pos" "validate_safety pos s (Some (q, t)) = Ok ()"
    using f l(1) by (simp_all add: follows_def)
  then have prep: "ro_prepare blake2s ro sq pos msg s = Ok (ro_slot_of sq,
      encode_slot blake2s (ro_anchor ro) (ro_slot_of sq)
        \<lparr>wm_sequence = sq, wm_position = pos, wm_message = msg, wm_safety = s\<rparr>)"
    by (simp add: ro_prepare_def Let_def latest succ)
  have "jr_rollover (render blake2s ctx pk True True ds) = Some ro" by (simp add: ro)
  then show ?thesis by (simp only: entry_update_def option.case ok_or.simps try_bind.simps prep prod.case)
qed

lemma write_entry_rolled:
  assumes r: "renderable True True ds" and room: "Suc (length ds) < 2 ^ 64"
    and f: "follows True (last_opt None ds) (pos, msg, Some s)"
  shows "write_entry blake2s IoOk (render blake2s ctx pk True True ds) (of_nat (Suc (length ds))) pos msg (Some s)
    = (Ok (), render blake2s ctx pk True True (ds @ [(pos, msg, Some s)]))"
proof -
  let ?j = "render blake2s ctx pk True True ds" and ?sq = "of_nat (Suc (length ds)) :: u64"
  let ?ident = "journal_identity blake2s ctx pk True"
  let ?pre = "header_version blake2s ctx pk True @ chain_bytes blake2s ?ident 1 (take MAX_JOURNAL_RECORDS ds)"
  define tip where "tip = chain_tip blake2s ?ident 1 (take MAX_JOURNAL_RECORDS ds)"
  define ro where "ro = render_rollover blake2s tip ds"
  define w where "w = \<lparr>wm_sequence = ?sq, wm_position = pos, wm_message = msg, wm_safety = s\<rparr>"
  define bytes where "bytes = encode_slot blake2s (ro_anchor ro) (ro_slot_of ?sq) w"
  have n: "MAX_JOURNAL_RECORDS \<le> length ds" using r by (simp add: renderable_def)
  have ro: "jr_rollover ?j = Some ro" "ro = render_rollover blake2s (jr_tip ?j) ds"
    by (simp_all add: ro_def tip_def)
  have contents: "jr_file ?j = ?pre @ ro_encode blake2s ro" by (simp add: render_file ro_def tip_def)
  have written: "write_at (slot_offset (ro_slot_of ?sq)) bytes (jr_file ?j) =
      ?pre @ ro_encode blake2s (ro_publish (ro_slot_of ?sq) ?sq pos msg s ro)"
    unfolding contents bytes_def using length_render_prefix [OF r n] ro_slot_of_cases w_def
    by (rule write_slot)
  have publish: "render_rollover blake2s tip (ds @ [(pos, msg, Some s)])
      = ro_publish (ro_slot_of ?sq) ?sq pos msg s ro"
    unfolding ro_def using n room by (rule render_rollover_append)
  have upd: "entry_update blake2s ?j ?sq pos msg (Some s)
      = Ok (Some (ro_slot_of ?sq), slot_offset (ro_slot_of ?sq), bytes)"
    unfolding bytes_def w_def using r room f ro(2) refl by (rule entry_update_rolled)
  have "persist IoOk (slot_offset (ro_slot_of ?sq)) bytes (jr_file ?j) =
      (True, ?pre @ ro_encode blake2s (ro_publish (ro_slot_of ?sq) ?sq pos msg s ro))"
    by (simp only: persist.simps written)
  then show ?thesis
    unfolding write_entry_def upd
    using n by (simp add: ro(1) publish journal_state_render del: of_nat_Suc)
      (simp add: render_def Let_def publish ro_def flip: tip_def)
qed

lemma activate_render:
  assumes r: "renderable True False ds" and n: "length ds = MAX_JOURNAL_RECORDS"
  shows "activate_rollover blake2s IoOk (render blake2s ctx pk True False ds)
    = (Ok (), render blake2s ctx pk True True ds)"
proof -
  let ?j = "render blake2s ctx pk True False ds"
  have bound: "length ds < 2 ^ 64" using r by (simp add: renderable_def)
  obtain q m t where l: "last_opt None ds = Some (q, m, Some t)" "ds ! (length ds - 1) = (q, m, Some t)"
    using last_decision [OF r] n by auto
  have new: "rollover_new blake2s (jr_tip ?j) (log_last ds) (log_safety ds)
      = Ok (render_rollover blake2s (jr_tip ?j) ds)"
    using l n by (simp add: rollover_new_def log_last_def log_safety_def render_rollover_def Let_def watermark_at_def)
  have "length (jr_file ?j) = MAX_PROTECTED_JOURNAL_BYTES"
    using length_render_file [OF r, of blake2s ctx pk] n
    by (simp add: MAX_PROTECTED_JOURNAL_BYTES_def record_size_def mult.commute)
  then have "write_at MAX_PROTECTED_JOURNAL_BYTES bs (jr_file ?j) = jr_file ?j @ bs" for bs
    by (simp add: write_at_def)
  then show ?thesis
    using n bound unfolding activate_rollover_def
    by (simp add: new unat_u64_nat del: render_fields(7)) (simp add: render_def Let_def)
qed

section \<open>Every outcome of a reservation\<close>

text \<open>What a reservation of \<open>d\<close> can leave behind when its write fails.\<close>

inductive cut_off ::
  "(byte list \<Rightarrow> hash256) \<Rightarrow> signing_context \<Rightarrow> bytes32 \<Rightarrow> bool \<Rightarrow> decision list \<Rightarrow> decision \<Rightarrow>
   byte list \<Rightarrow> bool"
  for blake2s ctx pk p ds d where
  append: "renderable p False ds \<Longrightarrow> length ds < MAX_JOURNAL_RECORDS \<Longrightarrow>
    cut_off blake2s ctx pk p ds d
      (jr_file (render blake2s ctx pk p False ds)
       @ take k (entry_record blake2s (of_nat (Suc (length ds))) (dec_pos d) (dec_msg d)
           (jr_tip (render blake2s ctx pk p False ds)) (dec_safety d)))"
| activate: "renderable True False ds \<Longrightarrow> p \<Longrightarrow> length ds = MAX_JOURNAL_RECORDS \<Longrightarrow>
    cut_off blake2s ctx pk p ds d
      (jr_file (render blake2s ctx pk True False ds)
       @ take k (ro_encode blake2s (render_rollover blake2s (jr_tip (render blake2s ctx pk True False ds)) ds)))"
| slot: "renderable True True ds \<Longrightarrow> p \<Longrightarrow> Suc (length ds) < 2 ^ 64 \<Longrightarrow>
    cut_off blake2s ctx pk p ds d
      (write_at (slot_offset (ro_slot_of (of_nat (Suc (length ds)))))
        (take k (encode_slot blake2s
          (ro_anchor (render_rollover blake2s (jr_tip (render blake2s ctx pk True True ds)) ds))
          (ro_slot_of (of_nat (Suc (length ds)))) (watermark_at (ds @ [d]) (Suc (length ds)))))
        (jr_file (render blake2s ctx pk True True ds)))"

inductive reserved ::
  "(byte list \<Rightarrow> hash256) \<Rightarrow> signing_context \<Rightarrow> bytes32 \<Rightarrow> bool \<Rightarrow> bool \<Rightarrow> decision list \<Rightarrow> decision \<Rightarrow>
   (keystore_error + unit) \<times> journal \<Rightarrow> bool"
  for blake2s ctx pk p rolled ds d where
  refused: "reserved blake2s ctx pk p rolled ds d (Err e, render blake2s ctx pk p rolled ds)"
| repeated: "last_opt None ds = Some d \<Longrightarrow>
    reserved blake2s ctx pk p rolled ds d (Ok (), render blake2s ctx pk p rolled ds)"
| appended: "renderable p rolled' (ds @ [d]) \<Longrightarrow>
    reserved blake2s ctx pk p rolled ds d (Ok (), render blake2s ctx pk p rolled' (ds @ [d]))"
| failed: "cut_off blake2s ctx pk p ds d f \<Longrightarrow> log_ok p (ds @ [d]) \<Longrightarrow> Suc (length ds) < 2 ^ 64 \<Longrightarrow>
    jr_poisoned j \<Longrightarrow> jr_file j = f \<Longrightarrow>
    reserved blake2s ctx pk p rolled ds d (Err DurabilityUnknown, j)"

lemma write_at_end: "off = length f \<Longrightarrow> write_at off bs f = f @ bs"
  by (simp add: write_at_def)

lemma renderable_append:
  assumes "renderable p rolled ds" and "follows p (last_opt None ds) d" and "Suc (length ds) < 2 ^ 64"
    and "rolled \<or> length ds < MAX_JOURNAL_RECORDS"
  shows "renderable p rolled (ds @ [d])"
  using assms by (auto simp: renderable_def log_ok_def log_from_append)

lemma write_entry_reserved:
  assumes r: "renderable p rolled ds" and f: "follows p (last_opt None ds) (pos, msg, safety)"
    and n: "Suc (length ds) < 2 ^ 64" and room: "rolled \<or> length ds < MAX_JOURNAL_RECORDS"
  shows "reserved blake2s ctx pk p rolled0 ds (pos, msg, safety)
    (write_entry blake2s io_write (render blake2s ctx pk p rolled ds) (of_nat (Suc (length ds))) pos msg safety)"
proof -
  let ?d = "(pos, msg, safety)" and ?j = "render blake2s ctx pk p rolled ds"
  have s: "safety \<noteq> None \<longleftrightarrow> p" using f by (simp add: follows_def)
  have ok: "log_ok p (ds @ [?d])"
    using r f by (simp add: renderable_def log_ok_def log_from_append)
  show ?thesis
  proof (cases io_write)
    case IoOk
    show ?thesis
    proof (cases rolled)
      case True
      then have p: "p" using r by (simp add: renderable_def)
      with s obtain t where t: "safety = Some t" by auto
      show ?thesis
        using write_entry_rolled [of ds pos msg t] r f n True p t IoOk
          reserved.appended [OF renderable_append [OF r f n room]] by simp
    next
      case False
      with room r s IoOk show ?thesis
        using write_entry_append [of p ds safety] reserved.appended [OF renderable_append [OF r f n room]]
        by simp
    qed
  next
    case (IoCut k)
    show ?thesis
    proof (cases rolled)
      case True
      then have p: "p" using r by (simp add: renderable_def)
      with s obtain t where t: "safety = Some t" by auto
      define ro where "ro = render_rollover blake2s (jr_tip ?j) ds"
      define sq :: u64 where "sq = of_nat (Suc (length ds))"
      define bytes where "bytes = encode_slot blake2s (ro_anchor ro) (ro_slot_of sq)
        \<lparr>wm_sequence = sq, wm_position = pos, wm_message = msg, wm_safety = t\<rparr>"
      have upd: "entry_update blake2s ?j sq pos msg safety
          = Ok (Some (ro_slot_of sq), slot_offset (ro_slot_of sq), bytes)"
        using entry_update_rolled [of ds pos msg t ro blake2s ctx pk sq] r n f True p t
        by (simp add: bytes_def ro_def sq_def del: of_nat_Suc render_fields(7))
      have w: "watermark_at (ds @ [?d]) (Suc (length ds)) =
          \<lparr>wm_sequence = sq, wm_position = pos, wm_message = msg, wm_safety = t\<rparr>"
        using t by (simp add: watermark_at_def sq_def)
      have "cut_off blake2s ctx pk p ds ?d
          (write_at (slot_offset (ro_slot_of sq)) (take k bytes) (jr_file ?j))"
        using cut_off.slot [of ds p blake2s ctx pk ?d k] r True p n
        by (simp add: bytes_def ro_def w flip: sq_def del: of_nat_Suc render_fields(7))
      then show ?thesis
        using reserved.failed [OF _ ok n] IoCut upd by (simp add: write_entry_def flip: sq_def del: of_nat_Suc)
    next
      case False
      define sq :: u64 where "sq = of_nat (Suc (length ds))"
      define bytes where "bytes = entry_record blake2s sq pos msg (jr_tip ?j) safety"
      have upd: "entry_update blake2s ?j sq pos msg safety = Ok (None, length (jr_file ?j), bytes)"
        using s length_render_file [OF r, of blake2s ctx pk] r False unfolding bytes_def
        by (cases safety) (simp_all add: entry_update_def entry_record_simps record_size_def renderable_def
            unat_u64_nat)
      have "cut_off blake2s ctx pk p ds ?d (jr_file ?j @ take k bytes)"
        using cut_off.append [of p ds blake2s ctx pk ?d k] r room False
        by (simp add: bytes_def flip: sq_def del: of_nat_Suc)
      then show ?thesis
        using reserved.failed [OF _ ok n] IoCut
        by (simp add: write_entry_def upd write_at_end flip: sq_def del: of_nat_Suc)
    qed
  qed
qed

text \<open>The guards before the write, on a journal that stands for a log.\<close>

lemma reserve_entry_step:
  assumes r: "renderable p rolled ds" and f: "follows p (last_opt None ds) (pos, msg, safety)"
    and room: "Suc (length ds) < 2 ^ 64" "p \<or> length ds \<noteq> MAX_JOURNAL_RECORDS"
  shows "reserve_entry blake2s io_activate io_write pos msg safety (render blake2s ctx pk p rolled ds) =
    (if p \<and> length ds = MAX_JOURNAL_RECORDS \<and> \<not> rolled
     then (case activate_rollover blake2s io_activate (render blake2s ctx pk p rolled ds) of
             (Inl e, j1) \<Rightarrow> (Err e, j1)
           | (Inr _, j1) \<Rightarrow> write_entry blake2s io_write j1 (of_nat (Suc (length ds))) pos msg safety)
     else write_entry blake2s io_write (render blake2s ctx pk p rolled ds)
       (of_nat (Suc (length ds))) pos msg safety)"
proof -
  let ?j = "render blake2s ctx pk p rolled ds"
  let ?check = "case safety of None \<Rightarrow> Ok () | Some nx \<Rightarrow> validate_safety pos nx (last_safety ?j)"
  have n: "length ds < 2 ^ 64" "unat (of_nat (length ds) :: u64) = length ds"
    using r by (simp_all add: renderable_def unat_u64_nat)
  have roll: "jr_rollover ?j = None \<longleftrightarrow> \<not> rolled" by simp
  have ok: "\<not> PRECOMMIT_PHASE < pos_phase pos" "p \<longleftrightarrow> safety \<noteq> None"
    using f by (auto simp: follows_def)
  have guard: "\<not> (case log_last ds of None \<Rightarrow> False | Some (previous, _) \<Rightarrow> pos < previous)"
    "\<not> (case log_last ds of None \<Rightarrow> False | Some (previous, _) \<Rightarrow> pos = previous)"
    using f by (auto simp: follows_def log_last_def split: option.splits)
  have check: "?check = Ok ()"
    using f by (auto simp: follows_def last_safety_render split: option.splits)
  define sq :: u64 where "sq = of_nat (Suc (length ds))"
  have seq: "checked_add (of_nat (length ds)) 1 = Some sq"
    using room(1) n by (simp add: checked_add_def sq_def)
  show ?thesis
    using ok guard room(2) render_length_ok [OF r, of blake2s ctx pk]
    unfolding sq_def [symmetric] reserve_entry_def render_fields(1-5) roll n(2) seq check by auto
qed

lemma reserve_entry_guards:
  assumes r: "renderable p rolled ds"
  obtains (early) e where "reserve_entry blake2s io_activate io_write pos msg safety
      (render blake2s ctx pk p rolled ds) = (Err e, render blake2s ctx pk p rolled ds)"
  | (same) "reserve_entry blake2s io_activate io_write pos msg safety
      (render blake2s ctx pk p rolled ds) = (Ok (), render blake2s ctx pk p rolled ds)"
      "last_opt None ds = Some (pos, msg, safety)"
  | (go) "follows p (last_opt None ds) (pos, msg, safety)" "Suc (length ds) < 2 ^ 64"
      "p \<or> length ds \<noteq> MAX_JOURNAL_RECORDS"
      "reserve_entry blake2s io_activate io_write pos msg safety (render blake2s ctx pk p rolled ds) =
        (if p \<and> length ds = MAX_JOURNAL_RECORDS \<and> \<not> rolled
         then (case activate_rollover blake2s io_activate (render blake2s ctx pk p rolled ds) of
                 (Inl e, j1) \<Rightarrow> (Err e, j1)
               | (Inr _, j1) \<Rightarrow> write_entry blake2s io_write j1 (of_nat (Suc (length ds))) pos msg safety)
         else write_entry blake2s io_write (render blake2s ctx pk p rolled ds)
           (of_nat (Suc (length ds))) pos msg safety)"
proof -
  let ?j = "render blake2s ctx pk p rolled ds"
  let ?call = "reserve_entry blake2s io_activate io_write pos msg safety ?j"
  let ?check = "case safety of None \<Rightarrow> Ok () | Some nx \<Rightarrow> validate_safety pos nx (last_safety ?j)"
  have n: "length ds < 2 ^ 64" "unat (of_nat (length ds) :: u64) = length ds"
    using r by (simp_all add: renderable_def unat_u64_nat)
  have roll: "jr_rollover ?j = None \<longleftrightarrow> \<not> rolled" by simp
  show thesis
  proof (cases "PRECOMMIT_PHASE < pos_phase pos \<or> p \<noteq> (safety \<noteq> None)")
    case True
    then have "?call = (Err InvalidPosition, ?j) \<or> ?call = (Err InvalidSafety, ?j)"
      by (auto simp: reserve_entry_def)
    then show thesis using early by blast
  next
    case ok: False
    show thesis
    proof (cases "\<exists>q. last_opt None ds = Some q \<and> pos \<le> dec_pos q")
      case True
      then obtain q where q: "last_opt None ds = Some q" "pos \<le> dec_pos q" by blast
      have last: "log_last ds = Some (dec_pos q, dec_msg q)" "log_safety ds = dec_safety q"
        using q(1) by (simp_all add: log_last_def log_safety_def)
      show thesis
      proof (cases "pos = dec_pos q \<and> msg = dec_msg q \<and> safety = dec_safety q")
        case True
        then have "?call = (Ok (), ?j)"
          using ok last render_length_ok [OF r] by (auto simp: reserve_entry_def)
        with True q(1) show thesis using same by (cases q) simp
      next
        case False
        with q(2) have "?call = (Err StalePosition, ?j) \<or> ?call = (Err ConflictingSign, ?j)"
          using ok last render_length_ok [OF r] by (auto simp: reserve_entry_def)
        then show thesis using early by blast
      qed
    next
      case False
      then have fresh: "\<forall>q. last_opt None ds = Some q \<longrightarrow> dec_pos q < pos" by auto
      then have guard: "\<not> (case log_last ds of None \<Rightarrow> False | Some (previous, _) \<Rightarrow> pos < previous)"
        "\<not> (case log_last ds of None \<Rightarrow> False | Some (previous, _) \<Rightarrow> pos = previous)"
        by (auto simp: log_last_def split: option.splits)
      show thesis
      proof (cases "(\<not> p \<and> length ds = MAX_JOURNAL_RECORDS) \<or> ?check \<noteq> Ok () \<or> 2 ^ 64 \<le> Suc (length ds)")
        case True
        then have "\<exists>e. ?call = (Err e, ?j)"
          using ok guard render_length_ok [OF r] n
          by (cases ?check) (auto simp: reserve_entry_def checked_add_def)
        then show thesis using early by blast
      next
        case False
        then have f: "follows p (last_opt None ds) (pos, msg, safety)"
          using ok fresh by (auto simp: follows_def last_safety_render)
        moreover have "Suc (length ds) < 2 ^ 64" "p \<or> length ds \<noteq> MAX_JOURNAL_RECORDS"
          using False by auto
        ultimately show thesis using go reserve_entry_step [OF r f] by blast
      qed
    qed
  qed
qed

lemma reserve_entry_reserved:
  assumes r: "renderable p rolled ds"
  shows "reserved blake2s ctx pk p rolled ds (pos, msg, safety)
    (reserve_entry blake2s io_activate io_write pos msg safety (render blake2s ctx pk p rolled ds))"
  using r
proof (cases rule: reserve_entry_guards [where blake2s = blake2s and ctx = ctx and pk = pk and pos = pos
      and msg = msg and safety = safety and io_activate = io_activate and io_write = io_write])
  case (early e)
  then show ?thesis by (simp add: reserved.refused)
next
  case same
  then show ?thesis by (simp add: reserved.repeated)
next
  case go
  let ?d = "(pos, msg, safety)"
  show ?thesis
  proof (cases "p \<and> length ds = MAX_JOURNAL_RECORDS \<and> \<not> rolled")
    case True
    then have act: "renderable True False ds" "length ds = MAX_JOURNAL_RECORDS" and p: p "\<not> rolled"
      using r by simp_all
    show ?thesis
    proof (cases io_activate)
      case IoOk
      have "renderable p True ds" using act p by (simp add: renderable_def)
      from write_entry_reserved [OF this go(1,2)] show ?thesis
        using go(4) True IoOk activate_render [OF act, of blake2s ctx pk] by simp
    next
      case (IoCut k)
      let ?j = "render blake2s ctx pk True False ds"
      have len: "length (jr_file ?j) = MAX_PROTECTED_JOURNAL_BYTES"
        using length_render_file [OF act(1), of blake2s ctx pk] act(2)
        by (simp add: MAX_PROTECTED_JOURNAL_BYTES_def record_size_def mult.commute)
      obtain q m t where l: "last_opt None ds = Some (q, m, Some t)" "ds ! (length ds - 1) = (q, m, Some t)"
        using last_decision [OF act(1)] act(2) by auto
      have new: "rollover_new blake2s (jr_tip ?j) (log_last ds) (log_safety ds)
          = Ok (render_rollover blake2s (jr_tip ?j) ds)"
        using l act(2) by (simp add: rollover_new_def log_last_def log_safety_def render_rollover_def
            Let_def watermark_at_def)
      have "cut_off blake2s ctx pk p ds ?d (jr_file ?j
          @ take k (ro_encode blake2s (render_rollover blake2s (jr_tip ?j) ds)))"
        using act p by (intro cut_off.activate) simp_all
      moreover have "log_ok p (ds @ [?d])"
        using r go(1) by (simp add: renderable_def log_ok_def log_from_append)
      moreover have "activate_rollover blake2s io_activate ?j = (Err DurabilityUnknown,
          ?j\<lparr>jr_poisoned := True, jr_file := jr_file ?j
            @ take k (ro_encode blake2s (render_rollover blake2s (jr_tip ?j) ds))\<rparr>)"
        using act(2) IoCut unat_u64_nat [OF order_less_trans [OF lessI go(2)]]
        unfolding activate_rollover_def render_fields(1-5) new
        by (simp add: write_at_end len)
      ultimately show ?thesis
        using reserved.failed [of blake2s ctx pk p ds ?d _ _ rolled] go(2,4) True by simp
    qed
  next
    case False
    then have "rolled \<or> length ds < MAX_JOURNAL_RECORDS"
      using r go(3) by (auto simp: renderable_def split: if_splits)
    from write_entry_reserved [OF r go(1,2) this] False go(4) show ?thesis by auto
  qed
qed

text \<open>A decision that may follow is accepted when the writes succeed.\<close>

lemma reserve_protected_accepts:
  assumes r: "renderable True rolled ds" and f: "follows True (last_opt None ds) (pos, msg, Some s)"
    and n: "Suc (length ds) < 2 ^ 64"
  shows "\<exists>rolled'. renderable True rolled' (ds @ [(pos, msg, Some s)]) \<and>
    reserve_protected blake2s IoOk IoOk pos msg s (render blake2s ctx pk True rolled ds)
      = (Ok (), render blake2s ctx pk True rolled' (ds @ [(pos, msg, Some s)]))"
proof -
  have step: "\<exists>rolled'. renderable True rolled' (ds @ [(pos, msg, Some s)]) \<and>
      write_entry blake2s IoOk (render blake2s ctx pk True rd ds) (of_nat (Suc (length ds))) pos msg (Some s)
        = (Ok (), render blake2s ctx pk True rolled' (ds @ [(pos, msg, Some s)]))"
    if "renderable True rd ds" "rd \<or> length ds < MAX_JOURNAL_RECORDS" for rd
  proof (intro exI [of _ rd] conjI)
    show "renderable True rd (ds @ [(pos, msg, Some s)])" using renderable_append [OF that(1) f n that(2)] .
    show "write_entry blake2s IoOk (render blake2s ctx pk True rd ds) (of_nat (Suc (length ds))) pos msg (Some s)
        = (Ok (), render blake2s ctx pk True rd (ds @ [(pos, msg, Some s)]))"
    proof (cases rd)
      case True
      with that f n show ?thesis using write_entry_rolled [of ds pos msg s] by simp
    next
      case False
      with that f n show ?thesis using write_entry_append [of True ds "Some s"] by simp
    qed
  qed
  show ?thesis
  proof (cases "length ds = MAX_JOURNAL_RECORDS \<and> \<not> rolled")
    case True
    then have act: "renderable True False ds" "length ds = MAX_JOURNAL_RECORDS" using r by simp_all
    have "renderable True True ds" using act by (simp add: renderable_def)
    from step [OF this] show ?thesis
      using reserve_entry_step [OF r f n] True activate_render [OF act, of blake2s ctx pk]
      by (simp add: reserve_protected_def)
  next
    case False
    then have "rolled \<or> length ds < MAX_JOURNAL_RECORDS" using r by (auto simp: renderable_def split: if_splits)
    from step [OF r this] show ?thesis
      using reserve_entry_step [OF r f n] False by (auto simp: reserve_protected_def)
  qed
qed

end
