(* ===== verification/Astro_Recovery.thy ===== *)
theory Astro_Recovery
  imports Astro_Journal_Log
begin

text \<open>
  Opening a signing journal. The file of a journal that stands for a log opens to the same
  journal, and a write that was cut off at any byte is rejected or recovers the log
  before or after the decision. The rollover slots rely on the record checksum, so that
  case needs the digest to be collision free on the records that a cut can produce.
\<close>

section \<open>Replay\<close>

fun after_replay :: "(byte list \<Rightarrow> hash256) \<Rightarrow> journal \<Rightarrow> u64 \<Rightarrow> decision list \<Rightarrow> journal" where
  "after_replay blake2s j sq [] = j"
| "after_replay blake2s j sq ((p, m, s) # ds) =
     after_replay blake2s
       (j\<lparr>jr_previous := Some (state_at j (sq - 1)), jr_safety := s, jr_last := Some (p, m),
          jr_tip := record_hash blake2s (jr_tip j) (entry_body sq p m s)\<rparr>) (sq + 1) ds"

lemma replay_chain:
  assumes "log_from p prev ds"
    and "jr_last j = map_option (\<lambda>d. (dec_pos d, dec_msg d)) prev"
    and "jr_safety j = Option.bind prev (\<lambda>d. dec_safety d)"
  shows "replay blake2s (record_size p) p (length ds) sq (chain_bytes blake2s (jr_tip j) sq ds @ tail) j
    = Ok (after_replay blake2s j sq ds, tail)"
  using assms
proof (induction ds arbitrary: prev sq j)
  case (Cons d ds)
  obtain q m s where d: "d = (q, m, s)" by (cases d)
  have f: "follows p prev d" and rest: "log_from p (Some d) ds" using Cons.prems(1) by simp_all
  have s: "s \<noteq> None \<longleftrightarrow> p" using f by (simp add: follows_def d)
  let ?rec = "entry_record blake2s sq q m (jr_tip j) s"
  let ?tip = "record_hash blake2s (jr_tip j) (entry_body sq q m s)"
  have len: "length ?rec = record_size p" using s by (simp add: length_entry_record)
  have dec: "decode_entry blake2s ?rec sq (jr_tip j) p = Ok (q, m, ?tip, s)"
    using f s by (simp add: decode_entry_Ok follows_def d)
  have ls: "last_safety j = (case prev of Some (p, _, Some s') \<Rightarrow> Some (p, s') | _ \<Rightarrow> None)"
    using Cons.prems(2,3) by (auto simp: last_safety_def split: option.splits)
  have val: "(case s of None \<Rightarrow> Ok () | Some nx \<Rightarrow>
      map_err (\<lambda>_. InvalidJournal) (validate_safety q nx (last_safety j))) = Ok ()"
    using f by (auto simp: follows_def d ls split: option.splits)
  have asc: "\<not> (case jr_last j of None \<Rightarrow> False | Some (previous, _) \<Rightarrow> q \<le> previous)"
    using f Cons.prems(2) by (auto simp: follows_def d split: option.splits)
  let ?j = "j\<lparr>jr_previous := Some (state_at j (sq - 1)), jr_safety := s, jr_last := Some (q, m), jr_tip := ?tip\<rparr>"
  have IH: "replay blake2s (record_size p) p (length ds) (sq + 1)
      (chain_bytes blake2s (jr_tip ?j) (sq + 1) ds @ tail) ?j = Ok (after_replay blake2s ?j (sq + 1) ds, tail)"
    using rest by (rule Cons.IH) (simp_all add: d)
  show ?case
    using len dec val asc IH by (simp add: d)
qed simp

lemma after_replay_append:
  "after_replay blake2s j sq (ds @ [(p, m, s)]) =
    (let k = after_replay blake2s j sq ds in
     k\<lparr>jr_previous := Some (state_at k (sq + of_nat (length ds) - 1)), jr_safety := s, jr_last := Some (p, m),
       jr_tip := record_hash blake2s (jr_tip k) (entry_body (sq + of_nat (length ds)) p m s)\<rparr>)"
  by (induction ds arbitrary: j sq) (auto simp: Let_def add.assoc)

lemma after_replay_fresh:
  assumes "length ds \<le> MAX_JOURNAL_RECORDS"
  shows "after_replay blake2s (fresh_journal f n ident p) 1 ds =
    (fresh_journal f n ident p)\<lparr>jr_last := log_last ds, jr_safety := log_safety ds,
      jr_tip := chain_tip blake2s ident 1 ds,
      jr_previous := (if ds = [] then None else Some (log_state blake2s ident (butlast ds)))\<rparr>"
  using assms
proof (induction ds rule: rev_induct)
  case Nil
  then show ?case by (simp add: fresh_journal_def log_last_def log_safety_def)
next
  case (snoc d ds)
  obtain q m s where d: "d = (q, m, s)" by (cases d)
  have take: "take MAX_JOURNAL_RECORDS ds = ds" using snoc.prems by simp
  have state: "state_at ((fresh_journal f n ident p)\<lparr>jr_last := log_last ds, jr_safety := log_safety ds,
      jr_tip := chain_tip blake2s ident 1 ds,
      jr_previous := (if ds = [] then None else Some (log_state blake2s ident (butlast ds)))\<rparr>)
      (of_nat (length ds)) = log_state blake2s ident ds"
    by (auto simp: state_at_def log_state_def last_position_def log_last_def take split: option.splits)
  show ?case
    using snoc state unfolding d after_replay_append Let_def
    by (simp add: chain_append)
qed

section \<open>The rollover extension\<close>

lemma log_ok_nth:
  assumes "log_ok True ds" and "i < length ds"
  obtains q m s where "ds ! i = (q, m, Some s)" "pos_phase q \<le> PRECOMMIT_PHASE"
proof -
  obtain q m x where d: "ds ! i = (q, m, x)" by (cases "ds ! i")
  have "ds ! i \<in> set ds" using assms(2) by simp
  from log_ok_phase [OF assms(1) this] have "x \<noteq> None" "pos_phase q \<le> PRECOMMIT_PHASE"
    by (simp_all add: d)
  with d that show thesis by auto
qed

lemma ro_read_slot_render:
  assumes ok: "log_ok True ds" and n: "length ds < 2 ^ 64" and x: "MAX_JOURNAL_RECORDS \<le> x" "x \<le> length ds"
    and slot: "x = MAX_JOURNAL_RECORDS \<or> ro_slot_of (of_nat x) = sl"
  shows "ro_read_slot blake2s anchor (watermark_at ds MAX_JOURNAL_RECORDS) sl
      (encode_slot blake2s anchor sl (watermark_at ds x)) = Ok (watermark_at ds x)"
proof -
  have pos: "0 < x" using x(1) MAX_JOURNAL_RECORDS_pos by linarith
  define k where "k = MAX_JOURNAL_RECORDS"
  have k: "0 < k" "k \<le> x" using x(1) by (simp_all add: k_def)
  have inside: "x - 1 < length ds" "k - 1 < length ds" using pos k x(2) by simp_all
  obtain q m s where d: "ds ! (x - 1) = (q, m, Some s)" and phase: "pos_phase q \<le> PRECOMMIT_PHASE"
    using log_ok_nth [OF ok inside(1)] .
  obtain q0 m0 s0 where d0: "ds ! (k - 1) = (q0, m0, Some s0)"
    using log_ok_nth [OF ok inside(2)] .
  have seq: "unat (of_nat x :: u64) = x" using n x(2) by (simp add: unat_u64_nat)
  have head: "from_le_bytes (take 8 (encode_slot blake2s anchor sl (watermark_at ds x))) = (of_nat x :: u64)"
    by (simp add: encode_slot_def protected_record_def protected_body_def record_body_def watermark_at_def)
  have valid: "validate_safety q s (Some (q0, s0)) = Ok ()" and less: "k < x \<Longrightarrow> q0 < q"
  proof -
    have split: "ds = take (k - 1) ds @ ds ! (k - 1) # drop k ds"
      using k x(2) id_take_nth_drop [of "k - 1" ds] by simp
    have s0: "sf_committee_root s0 \<noteq> 0 \<and> (\<forall>l. sf_locked s0 = Some l \<longrightarrow> lock_round l \<le> pos_round q0)"
    proof -
      have "follows True (last_opt None (take (k - 1) ds)) (q0, m0, Some s0)"
        using ok split d0 by (metis log_from.simps(2) log_from_append_list log_ok_def)
      then show ?thesis by (simp add: follows_def validate_safety_Ok)
    qed
    show "validate_safety q s (Some (q0, s0)) = Ok ()"
    proof (cases "x = k")
      case True
      with d d0 s0 show ?thesis by (simp add: validate_safety_Ok)
    next
      case False
      then have "ds ! (x - 1) = drop k ds ! (x - 1 - k)" "x - 1 - k < length (drop k ds)"
        using k x(2) by simp_all
      then have "ds ! (x - 1) \<in> set (drop k ds)" by (metis nth_mem)
      with log_ok_pair [of "take (k - 1) ds" "ds ! (k - 1)" "drop k ds" "ds ! (x - 1)" s0 s] split ok d d0
      show ?thesis by simp
    qed
    show "q0 < q" if "k < x"
    proof -
      have "map dec_pos ds ! (k - 1) < map dec_pos ds ! (x - 1)"
        using that k x(2) log_ok_sorted [OF ok]
        by (intro sorted_wrt_nth_less [of "(<)"]) simp_all
      with that k x(2) d d0 show ?thesis by simp
    qed
  qed
  have w: "watermark_at ds x = \<lparr>wm_sequence = of_nat x, wm_position = q, wm_message = m, wm_safety = s\<rparr>"
    unfolding watermark_at_def d by simp
  have dec: "decode_entry blake2s (encode_slot blake2s anchor sl (watermark_at ds x)) (of_nat x)
      (ro_binding blake2s anchor sl) True
      = Ok (q, m, record_hash blake2s (ro_binding blake2s anchor sl) (protected_body (of_nat x) q m s), Some s)"
    using phase by (simp add: decode_entry_Ok encode_slot_def w entry_record_simps)
  have base: "wm_position (watermark_at ds MAX_JOURNAL_RECORDS) = q0"
    "wm_safety (watermark_at ds MAX_JOURNAL_RECORDS) = s0"
    unfolding watermark_at_def k_def [symmetric] d0 by simp_all
  have guard: "\<not> (x < MAX_JOURNAL_RECORDS
      \<or> (x = MAX_JOURNAL_RECORDS \<and> watermark_at ds x \<noteq> watermark_at ds MAX_JOURNAL_RECORDS)
      \<or> (x > MAX_JOURNAL_RECORDS \<and> (ro_slot_of (of_nat x) \<noteq> sl \<or> q \<le> q0)))"
    using slot less x(1) by (auto simp: k_def)
  show ?thesis
    unfolding ro_read_slot_def head Let_def dec try_bind.simps prod.case ok_or.simps base seq w [symmetric]
    using guard valid by simp
qed

text \<open>The rollover of a log, as its file holds it, decodes to itself.\<close>

lemma ro_pair_render:
  assumes ok: "log_ok True ds" and n: "length ds < 2 ^ 64" and x: "MAX_JOURNAL_RECORDS < length ds"
  shows "ro_pair_check base (watermark_at ds (length ds)) (watermark_at ds (length ds - 1)) = Ok ()"
    and "ro_pair_check base (watermark_at ds (length ds - 1)) (watermark_at ds (length ds)) = Ok ()"
proof -
  let ?n = "length ds"
  have pos: "1 < ?n" using x MAX_JOURNAL_RECORDS_pos by linarith
  have inside: "?n - 1 < ?n" "?n - 1 - 1 < ?n" using pos by simp_all
  obtain q m s where d: "ds ! (?n - 1) = (q, m, Some s)" using log_ok_nth [OF ok inside(1)] .
  obtain q0 m0 s0 where d0: "ds ! (?n - 1 - 1) = (q0, m0, Some s0)"
    using log_ok_nth [OF ok inside(2)] .
  have "map dec_pos ds ! (?n - 1 - 1) < map dec_pos ds ! (?n - 1)"
    using pos log_ok_sorted [OF ok] by (intro sorted_wrt_nth_less [of "(<)"]) simp_all
  then have less: "q0 < q" using inside by (simp only: nth_map d d0 fst_conv)
  have split: "ds = take (?n - 1 - 1) ds @ ds ! (?n - 1 - 1) # drop (?n - 1) ds"
    using pos id_take_nth_drop [of "?n - 1 - 1" ds] by (simp add: Suc_diff_Suc)
  have "ds ! (?n - 1) \<in> set (drop (?n - 1) ds)"
    unfolding Cons_nth_drop_Suc [OF inside(1), symmetric] by (rule list.set_intros(1))
  with log_ok_pair [of "take (?n - 1 - 1) ds" "ds ! (?n - 1 - 1)" "drop (?n - 1) ds" "ds ! (?n - 1)" s0 s]
    split ok d d0 have valid: "validate_safety q s (Some (q0, s0)) = Ok ()" by simp
  have w: "watermark_at ds ?n = \<lparr>wm_sequence = of_nat ?n, wm_position = q, wm_message = m, wm_safety = s\<rparr>"
    "watermark_at ds (?n - 1) = \<lparr>wm_sequence = of_nat (?n - 1), wm_position = q0, wm_message = m0, wm_safety = s0\<rparr>"
    unfolding watermark_at_def d d0 by simp_all
  have u: "unat (of_nat ?n :: u64) = ?n" "unat (of_nat (?n - 1) :: u64) = ?n - 1"
    by (rule unat_u64_nat, use n in linarith)+
  have order: "(of_nat (?n - 1) :: u64) < of_nat ?n"
    unfolding word_less_nat_alt u using pos by linarith
  have order': "(of_nat ?n :: u64) \<noteq> of_nat (?n - 1)" "\<not> (of_nat ?n :: u64) < of_nat (?n - 1)"
    using order by (auto simp del: One_nat_def of_nat_diff)
  have "(of_nat (?n - 1) :: u64) + 1 = of_nat (Suc (?n - 1))" by simp
  also have "Suc (?n - 1) = ?n" using pos by linarith
  finally have succ: "checked_add (of_nat (?n - 1)) 1 = Some (of_nat ?n :: u64)"
    unfolding checked_add_def u using pos n by simp
  show "ro_pair_check base (watermark_at ds ?n) (watermark_at ds (?n - 1)) = Ok ()"
    unfolding ro_pair_check_def w Let_def using order order' succ less valid by (simp add: not_le)
  show "ro_pair_check base (watermark_at ds (?n - 1)) (watermark_at ds ?n) = Ok ()"
    unfolding ro_pair_check_def w Let_def using order order' succ less valid by (simp add: not_le)
qed

lemma ro_decode_render:
  assumes r: "renderable True True ds"
    and tip: "tip = chain_tip blake2s ident 1 (take MAX_JOURNAL_RECORDS ds)"
  shows "ro_decode blake2s tip (log_last (take MAX_JOURNAL_RECORDS ds))
      (log_safety (take MAX_JOURNAL_RECORDS ds)) (ro_encode blake2s (render_rollover blake2s tip ds))
    = Ok (render_rollover blake2s tip ds)"
proof -
  define k where "k = MAX_JOURNAL_RECORDS"
  have k: "0 < k" "k \<le> length ds" "length ds < 2 ^ 64" and ok: "log_ok True ds"
    using r by (simp_all add: renderable_def k_def)
  have inside: "k - 1 < length ds" using k by linarith
  obtain q m s where d: "ds ! (k - 1) = (q, m, Some s)"
    using log_ok_nth [OF ok inside] .
  have "last_opt None (take k ds) = Some (q, m, Some s)"
  proof -
    have "take k ds \<noteq> []" "length (take k ds) = k" using k by auto
    then show ?thesis using k d by (simp add: last_opt_None last_conv_nth)
  qed
  then have l: "log_last (take k ds) = Some (q, m)" "log_safety (take k ds) = Some s"
    by (simp_all add: log_last_def log_safety_def)
  let ?base = "watermark_at ds k" and ?anchor = "domain_hash blake2s ROLLOVER_HEADER_DOMAIN (be_bytes tip)"
  have base: "?base = \<lparr>wm_sequence = of_nat k, wm_position = q, wm_message = m, wm_safety = s\<rparr>"
    unfolding watermark_at_def d by simp
  have new: "rollover_new blake2s tip (Some (q, m)) (Some s) =
      Ok \<lparr>ro_anchor = ?anchor, ro_slot0 = ?base, ro_slot1 = ?base\<rparr>"
    unfolding rollover_new_def Let_def base k_def [symmetric] by simp
  define a where "a = ro_slot0 (render_rollover blake2s tip ds)"
  define b where "b = ro_slot1 (render_rollover blake2s tip ds)"
  have anchor: "ro_anchor (render_rollover blake2s tip ds) = ?anchor"
    by (simp add: render_rollover_def Let_def)
  have ab: "ro_read_slot blake2s ?anchor ?base 0 (encode_slot blake2s ?anchor 0 a) = Ok a
      \<and> ro_read_slot blake2s ?anchor ?base 1 (encode_slot blake2s ?anchor 1 b) = Ok b
      \<and> ro_pair_check ?base a b = Ok ()"
  proof (cases "length ds = k")
    case True
    then have "a = ?base" "b = ?base" by (simp_all add: a_def b_def render_rollover_def Let_def k_def)
    with True k ok show ?thesis
      using ro_read_slot_render [OF ok k(3), of k] by (simp add: k_def ro_pair_check_def)
  next
    case False
    then have big: "MAX_JOURNAL_RECORDS < length ds" "k \<le> length ds - 1" using k by (simp_all add: k_def)
    then have older: "max MAX_JOURNAL_RECORDS (length ds - 1) = length ds - 1" by simp
    note rd = ro_read_slot_render [OF ok k(3), folded k_def]
    have prev: "length ds - 1 = k \<or> ro_slot_of (of_nat (length ds - 1)) \<noteq> ro_slot_of (of_nat (length ds))"
    proof (cases "length ds - 1 = k")
      case False
      then have "MAX_JOURNAL_RECORDS < length ds - 1" using big by (simp add: k_def)
      moreover have eq: "Suc (length ds - 1) = length ds" using big by linarith
      ultimately have "ro_slot_of (of_nat (length ds)) = 0 \<longleftrightarrow> ro_slot_of (of_nat (length ds - 1)) = 1"
        using ro_slot_of_Suc [of "length ds - 1"] k(3) unfolding eq by blast
      then show ?thesis
        using ro_slot_of_cases [of "of_nat (length ds)"] ro_slot_of_cases [of "of_nat (length ds - 1)"]
        by (metis zero_neq_one)
    qed simp
    show ?thesis
    proof (cases "ro_slot_of (of_nat (length ds)) = 0")
      case True
      then have "a = watermark_at ds (length ds)" "b = watermark_at ds (length ds - 1)"
        unfolding a_def b_def render_rollover_def Let_def older by simp_all
      moreover have "length ds - 1 = k \<or> ro_slot_of (of_nat (length ds - 1)) = 1"
        using prev True ro_slot_of_cases [of "of_nat (length ds - 1)"] by auto
      ultimately show ?thesis
        using rd [of "length ds" 0] rd [of "length ds - 1" 1] True k big ro_pair_render(1) [OF ok k(3) big(1)]
        by simp
    next
      case False
      then have one: "ro_slot_of (of_nat (length ds)) = 1" using ro_slot_of_cases by blast
      then have "a = watermark_at ds (length ds - 1)" "b = watermark_at ds (length ds)"
        unfolding a_def b_def render_rollover_def Let_def older by simp_all
      moreover have "length ds - 1 = k \<or> ro_slot_of (of_nat (length ds - 1)) = 0"
        using prev one ro_slot_of_cases [of "of_nat (length ds - 1)"] by auto
      ultimately show ?thesis
        using rd [of "length ds" 1] rd [of "length ds - 1" 0] one k big ro_pair_render(2) [OF ok k(3) big(1)]
        by simp
    qed
  qed
  have bytes: "ro_encode blake2s (render_rollover blake2s tip ds) =
      ROLLOVER_MAGIC @ be_bytes ?anchor @ encode_slot blake2s ?anchor 0 a @ encode_slot blake2s ?anchor 1 b"
    by (simp add: ro_encode_def anchor a_def b_def)
  have parts: "take 8 (ro_encode blake2s (render_rollover blake2s tip ds)) = ROLLOVER_MAGIC"
    "take 32 (drop 8 (ro_encode blake2s (render_rollover blake2s tip ds))) = be_bytes ?anchor"
    "take 154 (drop 40 (ro_encode blake2s (render_rollover blake2s tip ds))) = encode_slot blake2s ?anchor 0 a"
    "take 154 (drop 194 (ro_encode blake2s (render_rollover blake2s tip ds))) = encode_slot blake2s ?anchor 1 b"
    unfolding bytes by (simp_all add: ROLLOVER_MAGIC_def)
  have eta: "\<lparr>ro_anchor = ?anchor, ro_slot0 = a, ro_slot1 = b\<rparr> = render_rollover blake2s tip ds"
    using anchor by (simp add: a_def b_def)
  show ?thesis
    unfolding ro_decode_def k_def [symmetric] l new try_bind.simps Let_def
    using ab by (simp add: parts ro_latest_def eta)
qed

section \<open>Opening the file of a journal\<close>

lemma header_parts:
  "take 76 (header_version blake2s ctx pk p) = header_body ctx pk p"
  "drop 76 (header_version blake2s ctx pk p) = be_bytes (journal_identity blake2s ctx pk p)"
  "take 4 (header_version blake2s ctx pk p) = ascii ''ALSJ''"
  "take 4 (drop 4 (header_version blake2s ctx pk p)) = (if p then [2, 0, 0, 0] else [1, 0, 0, 0])"
  by (simp_all add: header_version_def header_body_def journal_identity_def le_bytes_def)

lemma render_take_prefix:
  assumes "renderable p rolled ds"
  shows "log_ok p (take MAX_JOURNAL_RECORDS ds)"
  using assms log_from_append_list [of p None "take MAX_JOURNAL_RECORDS ds" "drop MAX_JOURNAL_RECORDS ds"]
  by (simp add: renderable_def log_ok_def)

lemma ro_older_render:
  assumes "MAX_JOURNAL_RECORDS \<le> length ds" and "length ds < 2 ^ 64"
  shows "ro_older (render_rollover blake2s tip ds) =
    (if length ds = MAX_JOURNAL_RECORDS then None else Some (watermark_at ds (length ds - 1)))"
proof (cases "length ds = MAX_JOURNAL_RECORDS")
  case True
  then show ?thesis by (simp add: ro_older_def render_rollover_def Let_def)
next
  case False
  with assms have big: "MAX_JOURNAL_RECORDS < length ds" by simp
  then have older: "max MAX_JOURNAL_RECORDS (length ds - 1) = length ds - 1" by simp
  have order: "(of_nat (length ds - 1) :: u64) < of_nat (length ds)"
    unfolding word_less_nat_alt using big assms(2) by (subst unat_u64_nat, linarith)+ linarith
  then have "(of_nat (length ds) :: u64) \<noteq> of_nat (length ds - 1)"
    "\<not> (of_nat (length ds) :: u64) < of_nat (length ds - 1)"
    by (auto simp del: One_nat_def of_nat_diff)
  with order False show ?thesis
    unfolding ro_older_def render_rollover_def Let_def older
    by (auto simp: watermark_at_def simp del: One_nat_def of_nat_diff)
qed

lemma journal_open_header:
  "journal_open blake2s sync_ok ctx pk (header_version blake2s ctx pk p @ body) =
     (let len = HEADER_BYTES + length body;
          rolled = (p \<and> len = MAX_ROLLOVER_JOURNAL_BYTES);
          size = (if rolled then MAX_PROTECTED_JOURNAL_BYTES - HEADER_BYTES else length body);
          cnt = size div record_size p in
      if MAX_ROLLOVER_JOURNAL_BYTES < len \<or> size mod record_size p \<noteq> 0 \<or> MAX_JOURNAL_RECORDS < cnt
      then Err InvalidJournal
      else
        try_bind (replay blake2s (record_size p) p cnt 1 body
            (fresh_journal (header_version blake2s ctx pk p @ body) (of_nat cnt) (journal_identity blake2s ctx pk p) p))
          (\<lambda>(j, bytes).
        try_bind (if rolled then recover_rollover blake2s bytes j else Ok j) (\<lambda>j.
        try_bind (fst (check_length blake2s j)) (\<lambda>_.
        if sync_ok then Ok j else Err JournalFailure))))"
proof -
  let ?h = "header_version blake2s ctx pk p"
  have head: "take HEADER_BYTES (?h @ body) = ?h" "drop HEADER_BYTES (?h @ body) = body"
    by (simp_all add: HEADER_BYTES_def)
  have len: "length (?h @ body) = HEADER_BYTES + length body" by (simp add: HEADER_BYTES_def)
  have version: "((if p then [2, 0, 0, 0] else [1, 0, 0, 0]) = [2, 0, 0, 0 :: u8]) = p" by simp
  have known: "\<not> ((if p then [2, 0, 0, 0] else [1, 0, 0, 0]) \<noteq> [1, 0, 0, 0 :: u8]
      \<and> (if p then [2, 0, 0, 0] else [1, 0, 0, 0]) \<noteq> [2, 0, 0, 0 :: u8])" by simp
  show ?thesis
    unfolding journal_open_def Let_def len head header_parts version journal_identity_def [symmetric]
    using known by (simp add: if_distrib [of "\<lambda>n. n - HEADER_BYTES"] cong: if_cong)
qed

lemma check_length_ok: "length_ok blake2s j \<Longrightarrow> fst (check_length blake2s j) = Ok ()"
  by (simp add: check_length_def)

lemma record_size_pos [simp]: "0 < record_size p"
  by (simp add: record_size_def PROTECTED_RECORD_BYTES_def RECORD_BYTES_def)

lemma recover_render:
  assumes r: "renderable True True ds"
  shows "recover_rollover blake2s (ro_encode blake2s (render_rollover blake2s
        (jr_tip (render blake2s ctx pk True True ds)) ds))
      ((fresh_journal (jr_file (render blake2s ctx pk True True ds)) (of_nat MAX_JOURNAL_RECORDS)
          (journal_identity blake2s ctx pk True) True)
        \<lparr>jr_last := log_last (take MAX_JOURNAL_RECORDS ds), jr_safety := log_safety (take MAX_JOURNAL_RECORDS ds),
         jr_tip := chain_tip blake2s (journal_identity blake2s ctx pk True) 1 (take MAX_JOURNAL_RECORDS ds),
         jr_previous := (if take MAX_JOURNAL_RECORDS ds = [] then None
           else Some (log_state blake2s (journal_identity blake2s ctx pk True) (butlast (take MAX_JOURNAL_RECORDS ds))))\<rparr>)
    = Ok (render blake2s ctx pk True True ds)"
proof -
  define ident where "ident = journal_identity blake2s ctx pk True"
  define tip where "tip = chain_tip blake2s ident 1 (take MAX_JOURNAL_RECORDS ds)"
  have n: "MAX_JOURNAL_RECORDS \<le> length ds" "length ds < 2 ^ 64" using r by (simp_all add: renderable_def)
  have ne: "ds \<noteq> []" using n(1) MAX_JOURNAL_RECORDS_pos by (metis list.size(3) not_le)
  obtain q m t where l: "last_opt None ds = Some (q, m, Some t)" "ds ! (length ds - 1) = (q, m, Some t)"
    using last_decision [OF r n(1)] .
  have latest: "ro_latest (render_rollover blake2s tip ds) =
      \<lparr>wm_sequence = of_nat (length ds), wm_position = q, wm_message = m, wm_safety = t\<rparr>"
    unfolding render_latest [OF n] using l(2) by (simp add: watermark_at_def)
  have previous: "(case ro_older (render_rollover blake2s tip ds) of
       None \<Rightarrow> (if take MAX_JOURNAL_RECORDS ds = [] then None
           else Some (log_state blake2s ident (butlast (take MAX_JOURNAL_RECORDS ds))))
     | Some older \<Rightarrow> Some \<lparr>js_sequence = wm_sequence older, js_position = Some (wm_position older),
         js_message = wm_message older, js_tip = tip\<rparr>) = Some (log_state blake2s ident (butlast ds))"
  proof (cases "length ds = MAX_JOURNAL_RECORDS")
    case True
    with ne show ?thesis using ro_older_render [OF n] by simp
  next
    case False
    with n(1) have big: "MAX_JOURNAL_RECORDS \<le> length ds - 1" by simp
    have "butlast ds \<noteq> []" using big MAX_JOURNAL_RECORDS_pos by (metis length_butlast list.size(3) not_le)
    then have "last_opt None (butlast ds) = Some (ds ! (length ds - 1 - 1))"
      using last_conv_nth [of "butlast ds"] nth_butlast [of "length ds - 1 - 1" ds]
      by (simp add: last_opt_None flip: length_0_conv)
    moreover have "take MAX_JOURNAL_RECORDS (butlast ds) = take MAX_JOURNAL_RECORDS ds"
      using big by (simp add: butlast_conv_take)
    ultimately show ?thesis
      using False ro_older_render [OF n] by (simp add: log_state_def watermark_at_def tip_def)
  qed
  have log: "log_last ds = Some (q, m)" "log_safety ds = Some t"
    using l(1) by (simp_all add: log_last_def log_safety_def)
  have dec: "ro_decode blake2s tip (log_last (take MAX_JOURNAL_RECORDS ds)) (log_safety (take MAX_JOURNAL_RECORDS ds))
      (ro_encode blake2s (render_rollover blake2s tip ds)) = Ok (render_rollover blake2s tip ds)"
    using r tip_def by (rule ro_decode_render)
  have contents: "jr_file (render blake2s ctx pk True True ds) = header_version blake2s ctx pk True
      @ chain_bytes blake2s ident 1 (take MAX_JOURNAL_RECORDS ds) @ ro_encode blake2s (render_rollover blake2s tip ds)"
    by (simp add: render_file ident_def tip_def)
  have "jr_tip (render blake2s ctx pk True True ds) = tip" by (simp add: tip_def ident_def)
  then show ?thesis
    unfolding recover_rollover_def contents ident_def [symmetric] tip_def [symmetric]
    using previous by (simp add: dec latest fresh_journal_def cong: option.case_cong)
      (simp add: render_def Let_def log ne flip: ident_def tip_def)
qed

theorem journal_open_render:
  assumes r: "renderable p rolled ds"
  shows "journal_open blake2s True ctx pk (jr_file (render blake2s ctx pk p rolled ds))
    = Ok (render blake2s ctx pk p rolled ds)"
proof -
  let ?ident = "journal_identity blake2s ctx pk p" and ?pre = "take MAX_JOURNAL_RECORDS ds"
  let ?j = "render blake2s ctx pk p rolled ds"
  define tail where "tail = (if rolled then ro_encode blake2s (render_rollover blake2s (jr_tip ?j) ds) else [])"
  define body where "body = chain_bytes blake2s ?ident 1 ?pre @ tail"
  have contents: "jr_file ?j = header_version blake2s ctx pk p @ body"
    by (simp add: render_file body_def tail_def)
  have len: "length (jr_file ?j) = HEADER_BYTES + length body" by (simp add: contents HEADER_BYTES_def)
  have sized: "length body = (if rolled then MAX_ROLLOVER_JOURNAL_BYTES - HEADER_BYTES else length ds * record_size p)"
    using length_render_file [OF r, of blake2s ctx pk] len by (simp split: if_splits)
  have small: "length ds \<le> MAX_JOURNAL_RECORDS" if "\<not> rolled" using r that by (simp add: renderable_def)
  have below: "HEADER_BYTES + length ds * record_size p < MAX_ROLLOVER_JOURNAL_BYTES" if "\<not> rolled"
  proof -
    have "length ds * record_size p \<le> MAX_JOURNAL_RECORDS * PROTECTED_RECORD_BYTES"
      using small [OF that] by (intro mult_le_mono) (simp_all add: record_size_def PROTECTED_RECORD_BYTES_def RECORD_BYTES_def)
    then show ?thesis
      by (simp add: MAX_ROLLOVER_JOURNAL_BYTES_def MAX_PROTECTED_JOURNAL_BYTES_def EXTENSION_BYTES_def
        ROLLOVER_HEADER_BYTES_def mult.commute)
  qed
  have rolled: "(p \<and> HEADER_BYTES + length body = MAX_ROLLOVER_JOURNAL_BYTES) = rolled"
    using r len length_render_file [OF r, of blake2s ctx pk] below by (cases rolled) (auto simp: renderable_def)
  have cnt: "(if rolled then MAX_PROTECTED_JOURNAL_BYTES - HEADER_BYTES else length body) = length ?pre * record_size p"
    using r sized small by (auto simp: renderable_def MAX_PROTECTED_JOURNAL_BYTES_def record_size_def)
  have fresh: "replay blake2s (record_size p) p (length ?pre) 1 body (fresh_journal (jr_file ?j) (of_nat (length ?pre)) ?ident p)
      = Ok (after_replay blake2s (fresh_journal (jr_file ?j) (of_nat (length ?pre)) ?ident p) 1 ?pre, tail)"
    using replay_chain [of p None ?pre "fresh_journal (jr_file ?j) (of_nat (length ?pre)) ?ident p" blake2s 1 tail]
      render_take_prefix [OF r]
    by (simp add: body_def log_ok_def fresh_journal_def)
  have bound: "\<not> MAX_ROLLOVER_JOURNAL_BYTES < HEADER_BYTES + length body"
    using len length_render_file [OF r, of blake2s ctx pk] below by (cases rolled) auto
  have final: "(if rolled then recover_rollover blake2s tail
        (after_replay blake2s (fresh_journal (jr_file ?j) (of_nat (length ?pre)) ?ident p) 1 ?pre)
      else Ok (after_replay blake2s (fresh_journal (jr_file ?j) (of_nat (length ?pre)) ?ident p) 1 ?pre)) = Ok ?j"
  proof (cases rolled)
    case True
    then have p: "p" and n: "MAX_JOURNAL_RECORDS \<le> length ds" using r by (simp_all add: renderable_def)
    then have "length ?pre = MAX_JOURNAL_RECORDS" by simp
    then show ?thesis
      using recover_render [of ds blake2s ctx pk] r True p after_replay_fresh [of ?pre blake2s]
      by (simp add: tail_def del: render_fields length_take)
  next
    case False
    then have "?pre = ds" using small by simp
    with False small show ?thesis
      using after_replay_fresh [of ds blake2s] by (simp add: contents body_def tail_def)
        (simp add: render_def Let_def fresh_journal_def)
  qed
  have size: "(length ?pre * record_size p) div record_size p = length ?pre"
    "(length ?pre * record_size p) mod record_size p = 0" "\<not> MAX_JOURNAL_RECORDS < length ?pre"
    by simp_all
  have "journal_open blake2s True ctx pk (jr_file ?j) = try_bind (fst (check_length blake2s ?j)) (\<lambda>_. Ok ?j)"
    unfolding contents journal_open_header Let_def rolled cnt size
    unfolding contents [symmetric] fresh try_bind.simps prod.case final
    using bound size(3) by simp
  then show ?thesis
    using check_length_ok [OF render_length_ok [OF r, of blake2s ctx pk]] by simp
qed

section \<open>Recovery after a write that was cut off\<close>

text \<open>A slot that reads back is a record with a valid checksum.\<close>

lemma ro_read_slot_Ok:
  assumes "ro_read_slot blake2s anchor base sl t = Ok w"
  shows "length t = 154 \<and> drop 122 t = be_bytes (record_hash blake2s (ro_binding blake2s anchor sl) (take 122 t))"
proof -
  obtain pos msg sum safety where
    "decode_entry blake2s t (from_le_bytes (take 8 t)) (ro_binding blake2s anchor sl) True = Ok (pos, msg, sum, safety)"
    using assms by (auto simp: ro_read_slot_def Let_def result_simps)
  then obtain s where "t = entry_record blake2s (from_le_bytes (take 8 t)) pos msg (ro_binding blake2s anchor sl) (Some s)"
    by (auto simp: decode_entry_Ok)
  then obtain sq where "t = entry_record blake2s sq pos msg (ro_binding blake2s anchor sl) (Some s)" ..
  then show ?thesis by (simp add: entry_record_def)
qed

lemma encode_slot_checksum:
  "drop 122 (encode_slot blake2s anchor sl w) =
     be_bytes (record_hash blake2s (ro_binding blake2s anchor sl) (take 122 (encode_slot blake2s anchor sl w)))"
  by (simp add: encode_slot_def protected_record_def)

lemma torn_checksum:
  fixes digest :: "byte list \<Rightarrow> hash256" and old new :: "byte list"
  defines "t \<equiv> \<lambda>k. take k new @ drop k old"
  assumes len: "length old = n + 32" "length new = n + 32"
    and old: "drop n old = be_bytes (digest (take n old))" and new: "drop n new = be_bytes (digest (take n new))"
    and sum: "drop n (t k) = be_bytes (digest (take n (t k)))"
    and inj: "k \<le> n \<Longrightarrow> digest (take n (t k)) = digest (take n old) \<Longrightarrow> take n (t k) = take n old"
  shows "t k = old \<or> t k = new"
proof (cases "k \<le> n")
  case True
  then have tail: "drop n (t k) = drop n old" using len by (simp add: t_def)
  with sum old have "digest (take n (t k)) = digest (take n old)" by simp
  with inj [OF True] tail have "t k = old" by (metis append_take_drop_id)
  then show ?thesis ..
next
  case False
  then have head: "take n (t k) = take n new" using len by (simp add: t_def)
  with sum new have "drop n (t k) = drop n new" by simp
  with head have "t k = new" by (metis append_take_drop_id)
  then show ?thesis ..
qed

text \<open>The messages whose digests a torn record can bring together.\<close>

definition torn_messages :: "(byte list \<Rightarrow> byte list) \<Rightarrow> nat \<Rightarrow> byte list \<Rightarrow> byte list \<Rightarrow> byte list set" where
  "torn_messages preimage n old new = (\<lambda>k. preimage (take n (take k new @ drop k old))) ` {..n}"

lemma torn_record:
  fixes blake2s :: "byte list \<Rightarrow> hash256"
  assumes len: "length old = n + 32" "length new = n + 32"
    and old: "drop n old = be_bytes (blake2s (preimage (take n old)))"
    and new: "drop n new = be_bytes (blake2s (preimage (take n new)))"
    and sum: "drop n (take k new @ drop k old) = be_bytes (blake2s (preimage (take n (take k new @ drop k old))))"
    and pre: "\<And>x y. preimage x = preimage y \<Longrightarrow> x = y"
    and inj: "inj_on blake2s (torn_messages preimage n old new)"
  shows "take k new @ drop k old = old \<or> take k new @ drop k old = new"
proof (rule torn_checksum [where digest = "\<lambda>x. blake2s (preimage x)", OF len old new sum])
  assume k: "k \<le> n" and eq: "blake2s (preimage (take n (take k new @ drop k old))) = blake2s (preimage (take n old))"
  have "preimage (take n (take k new @ drop k old)) \<in> torn_messages preimage n old new"
    unfolding torn_messages_def using k by blast
  moreover have "preimage (take n (take 0 new @ drop 0 old)) \<in> torn_messages preimage n old new"
    unfolding torn_messages_def by blast
  ultimately have "preimage (take n (take k new @ drop k old)) = preimage (take n old)"
    using eq inj by (simp add: inj_on_def)
  then show "take n (take k new @ drop k old) = take n old" by (rule pre)
qed

definition record_preimage :: "hash256 \<Rightarrow> byte list \<Rightarrow> byte list" where
  "record_preimage tip body = domain_preimage RECORD_DOMAIN (be_bytes tip @ body)"

lemma record_hash_preimage: "record_hash blake2s tip body = blake2s (record_preimage tip body)"
  by (simp add: record_hash_def record_preimage_def domain_hash_def)

lemma torn_slot:
  assumes read: "ro_read_slot blake2s anchor base sl (take k new @ drop k old) = Ok x"
    and old: "old = encode_slot blake2s anchor sl w" and new: "new = encode_slot blake2s anchor sl w'"
    and inj: "inj_on blake2s (torn_messages (record_preimage (ro_binding blake2s anchor sl)) 122 old new)"
  shows "take k new @ drop k old = old \<or> take k new @ drop k old = new"
  using inj ro_read_slot_Ok [OF read]
  by (intro torn_record [where n = 122 and blake2s = blake2s
        and preimage = "record_preimage (ro_binding blake2s anchor sl)"])
    (simp_all add: old new encode_slot_checksum record_hash_preimage,
     simp add: record_preimage_def domain_preimage_def)

text \<open>The bytes of the extension around its two slots.\<close>

definition extension_bytes :: "hash256 \<Rightarrow> byte list \<Rightarrow> byte list \<Rightarrow> byte list" where
  "extension_bytes anchor a b = ROLLOVER_MAGIC @ be_bytes anchor @ a @ b"

lemma ro_encode_extension:
  "ro_encode blake2s r = extension_bytes (ro_anchor r) (encode_slot blake2s (ro_anchor r) 0 (ro_slot0 r))
     (encode_slot blake2s (ro_anchor r) 1 (ro_slot1 r))"
  by (simp add: ro_encode_def extension_bytes_def)

lemma extension_parts:
  assumes "length a = 154" "length b = 154"
  shows "length (extension_bytes anchor a b) = EXTENSION_BYTES"
    "take 8 (extension_bytes anchor a b) = ROLLOVER_MAGIC"
    "take 154 (drop 40 (extension_bytes anchor a b)) = a"
    "take 154 (drop 194 (extension_bytes anchor a b)) = b"
  using assms by (simp_all add: extension_bytes_def ROLLOVER_MAGIC_def EXTENSION_BYTES_def
      ROLLOVER_HEADER_BYTES_def PROTECTED_RECORD_BYTES_def)

lemma write_torn_slot:
  assumes pre: "length pre = MAX_PROTECTED_JOURNAL_BYTES" and sl: "sl = 0 \<or> sl = 1" and new: "length new = 154"
    and a: "length a = 154" and b: "length b = 154"
  shows "write_at (slot_offset sl) (take k new) (pre @ extension_bytes anchor a b) =
    pre @ (if sl = 0 then extension_bytes anchor (take k new @ drop k a) b
           else extension_bytes anchor a (take k new @ drop k b))"
  using sl
proof
  assume "sl = 0"
  moreover have "write_at (slot_offset 0) (take k new)
      ((pre @ ROLLOVER_MAGIC @ be_bytes anchor) @ take k a @ drop k a @ b)
    = (pre @ ROLLOVER_MAGIC @ be_bytes anchor) @ take k new @ drop k a @ b"
    using assms by (intro write_at_middle) (simp_all add: slot_offset_def ROLLOVER_HEADER_BYTES_def ROLLOVER_MAGIC_def)
  moreover have "take k a @ drop k a @ b = a @ b" by (metis append.assoc append_take_drop_id)
  ultimately show ?thesis by (simp add: extension_bytes_def)
next
  assume "sl = 1"
  moreover have "write_at (slot_offset 1) (take k new)
      ((pre @ ROLLOVER_MAGIC @ be_bytes anchor @ a) @ take k b @ drop k b)
    = (pre @ ROLLOVER_MAGIC @ be_bytes anchor @ a) @ take k new @ drop k b"
    using assms by (intro write_at_middle) (simp_all add: slot_offset_def ROLLOVER_HEADER_BYTES_def ROLLOVER_MAGIC_def
        PROTECTED_RECORD_BYTES_def)
  ultimately show ?thesis by (simp add: extension_bytes_def)
qed

lemma journal_open_slots:
  assumes r: "renderable True True ds" and ab: "length a = 154" "length b = 154"
    and tip: "tip = jr_tip (render blake2s ctx pk True True ds)"
    and anchor: "anchor = ro_anchor (render_rollover blake2s tip ds)"
    and opened: "journal_open blake2s True ctx pk (header_version blake2s ctx pk True
      @ chain_bytes blake2s (journal_identity blake2s ctx pk True) 1 (take MAX_JOURNAL_RECORDS ds)
      @ extension_bytes anchor a b) = Ok j"
  shows "\<exists>base wa wb. ro_read_slot blake2s anchor base 0 a = Ok wa \<and> ro_read_slot blake2s anchor base 1 b = Ok wb"
proof -
  let ?ident = "journal_identity blake2s ctx pk True" and ?pre = "take MAX_JOURNAL_RECORDS ds"
  let ?body = "chain_bytes blake2s ?ident 1 ?pre @ extension_bytes anchor a b"
  have n: "MAX_JOURNAL_RECORDS \<le> length ds" using r by (simp add: renderable_def)
  have len: "HEADER_BYTES + length ?body = MAX_ROLLOVER_JOURNAL_BYTES"
    using length_render_prefix [OF r n, of blake2s ctx pk ?ident] extension_parts(1) [OF ab]
    by (simp add: HEADER_BYTES_def MAX_ROLLOVER_JOURNAL_BYTES_def)
  have cnt: "(MAX_PROTECTED_JOURNAL_BYTES - HEADER_BYTES) div record_size True = MAX_JOURNAL_RECORDS"
    by (simp add: MAX_PROTECTED_JOURNAL_BYTES_def record_size_def PROTECTED_RECORD_BYTES_def)
  define f where "f = fresh_journal (header_version blake2s ctx pk True @ ?body) (of_nat MAX_JOURNAL_RECORDS) ?ident True"
  have replayed: "replay blake2s (record_size True) True MAX_JOURNAL_RECORDS 1 ?body f
      = Ok (after_replay blake2s f 1 ?pre, extension_bytes anchor a b)"
    using replay_chain [of True None ?pre f blake2s 1 "extension_bytes anchor a b"] render_take_prefix [OF r] n
    by (simp add: log_ok_def f_def fresh_journal_def)
  have tip': "jr_tip (after_replay blake2s f 1 ?pre) = tip"
    unfolding f_def using after_replay_fresh [of ?pre blake2s] by (simp add: tip)
  have "\<exists>j'. recover_rollover blake2s (extension_bytes anchor a b) (after_replay blake2s f 1 ?pre) = Ok j'"
    using opened unfolding journal_open_header Let_def len
    by (simp add: cnt replayed result_simps flip: f_def split: if_splits)
  then obtain ro where dec: "ro_decode blake2s tip (jr_last (after_replay blake2s f 1 ?pre))
      (jr_safety (after_replay blake2s f 1 ?pre)) (extension_bytes anchor a b) = Ok ro"
    using extension_parts(1) [OF ab, of anchor] by (auto simp: recover_rollover_def result_simps tip' split: if_splits)
  have "ro_anchor r' = anchor" if "rollover_new blake2s tip x y = Ok r'" for x y r'
    using that by (auto simp: rollover_new_def Let_def result_simps anchor render_rollover_def)
  with dec show ?thesis
    by (auto simp: ro_decode_def Let_def result_simps extension_parts [OF ab] split: if_splits)
qed

text \<open>Opening a file of the wrong length.\<close>

lemma journal_open_partial:
  assumes len: "HEADER_BYTES + length body \<noteq> MAX_ROLLOVER_JOURNAL_BYTES"
    and bad: "length body mod record_size p \<noteq> 0 \<or> MAX_JOURNAL_RECORDS < length body div record_size p"
  shows "journal_open blake2s sync_ok ctx pk (header_version blake2s ctx pk p @ body) = Err InvalidJournal"
  unfolding journal_open_header Let_def using assms by auto

lemma recover_append:
  assumes r: "renderable p False ds" and room: "length ds < MAX_JOURNAL_RECORDS"
    and f: "f = jr_file (render blake2s ctx pk p False ds)
       @ take k (entry_record blake2s (of_nat (Suc (length ds))) (dec_pos d) (dec_msg d)
           (jr_tip (render blake2s ctx pk p False ds)) (dec_safety d))"
    and d: "follows p (last_opt None ds) d"
    and opened: "journal_open blake2s True ctx pk f = Ok j"
  shows "j = render blake2s ctx pk p False ds \<or> j = render blake2s ctx pk p False (ds @ [d])"
proof -
  let ?j = "render blake2s ctx pk p False ds"
  define rec where "rec = entry_record blake2s (of_nat (Suc (length ds))) (dec_pos d) (dec_msg d) (jr_tip ?j) (dec_safety d)"
  note f = f [folded rec_def]
  have size: "length rec = record_size p" using d by (simp add: rec_def length_entry_record follows_def)
  have r': "renderable p False (ds @ [d])"
    using r d room by (auto simp: renderable_def log_ok_def log_from_append MAX_JOURNAL_RECORDS_def)
  have whole: "jr_file (render blake2s ctx pk p False (ds @ [d])) = jr_file ?j @ rec"
    using room by (cases d) (simp add: render_file chain_append(2) rec_def)
  consider "k = 0" | "record_size p \<le> k" | "0 < k" "k < record_size p" by linarith
  then show ?thesis
  proof cases
    case 1
    with f opened journal_open_render [OF r] show ?thesis by simp
  next
    case 2
    with size f whole have "f = jr_file (render blake2s ctx pk p False (ds @ [d]))" by simp
    with opened journal_open_render [OF r'] show ?thesis by simp
  next
    case 3
    define body where "body = chain_bytes blake2s (journal_identity blake2s ctx pk p) 1 (take MAX_JOURNAL_RECORDS ds) @ take k rec"
    have f': "f = header_version blake2s ctx pk p @ body" using f by (simp add: render_file body_def)
    have len: "length body = length ds * record_size p + k"
      using chain_length_render [OF r, of blake2s _ 1] room 3 size by (simp add: body_def)
    have "length ds * record_size p + k < Suc (length ds) * record_size p" using 3 by simp
    also have "\<dots> \<le> MAX_JOURNAL_RECORDS * PROTECTED_RECORD_BYTES"
      using room by (intro mult_le_mono) (simp_all add: record_size_def PROTECTED_RECORD_BYTES_def RECORD_BYTES_def)
    finally have "HEADER_BYTES + length body \<noteq> MAX_ROLLOVER_JOURNAL_BYTES"
      by (simp add: len MAX_ROLLOVER_JOURNAL_BYTES_def MAX_PROTECTED_JOURNAL_BYTES_def mult.commute)
    moreover have "length body mod record_size p \<noteq> 0" using 3 by (simp add: len)
    ultimately have "journal_open blake2s True ctx pk f = Err InvalidJournal"
      unfolding f' by (intro journal_open_partial) simp_all
    with opened show ?thesis by simp
  qed
qed

lemma recover_activate:
  assumes r: "renderable True False ds" and n: "length ds = MAX_JOURNAL_RECORDS"
    and f: "f = jr_file (render blake2s ctx pk True False ds)
       @ take k (ro_encode blake2s (render_rollover blake2s (jr_tip (render blake2s ctx pk True False ds)) ds))"
    and opened: "journal_open blake2s True ctx pk f = Ok j"
  shows "\<exists>rolled. renderable True rolled ds \<and> j = render blake2s ctx pk True rolled ds"
proof -
  let ?j = "render blake2s ctx pk True False ds"
  define ext where "ext = ro_encode blake2s (render_rollover blake2s (jr_tip ?j) ds)"
  note f = f [folded ext_def]
  have size: "length ext = EXTENSION_BYTES" by (simp add: ext_def)
  have r': "renderable True True ds" using r n by (simp add: renderable_def)
  have whole: "jr_file (render blake2s ctx pk True True ds) = jr_file ?j @ ext"
    by (simp add: render_file ext_def)
  consider "k = 0" | "EXTENSION_BYTES \<le> k" | "0 < k" "k < EXTENSION_BYTES" by linarith
  then show ?thesis
  proof cases
    case 1
    with f opened journal_open_render [OF r] r show ?thesis by (intro exI [of _ False]) simp
  next
    case 2
    with size f whole have "f = jr_file (render blake2s ctx pk True True ds)" by simp
    with opened journal_open_render [OF r'] r' show ?thesis by (intro exI [of _ True]) simp
  next
    case 3
    define body where "body = chain_bytes blake2s (journal_identity blake2s ctx pk True) 1 (take MAX_JOURNAL_RECORDS ds) @ take k ext"
    have f': "f = header_version blake2s ctx pk True @ body" using f by (simp add: render_file body_def)
    have len: "length body = MAX_JOURNAL_RECORDS * record_size True + k"
      using chain_length_render [OF r, of blake2s _ 1] n 3 size by (simp add: body_def)
    have "HEADER_BYTES + length body \<noteq> MAX_ROLLOVER_JOURNAL_BYTES"
      using 3 by (simp add: len MAX_ROLLOVER_JOURNAL_BYTES_def MAX_PROTECTED_JOURNAL_BYTES_def record_size_def)
    moreover have "length body mod record_size True \<noteq> 0 \<or> MAX_JOURNAL_RECORDS < length body div record_size True"
    proof (cases "k mod record_size True = 0")
      case True
      then have "record_size True \<le> k" using 3 by (auto intro: dvd_imp_le simp: mod_eq_0_iff_dvd)
      then have "0 < k div record_size True" by (simp add: div_greater_zero_iff)
      then show ?thesis by (simp add: len)
    next
      case False
      then show ?thesis by (simp add: len)
    qed
    ultimately have "journal_open blake2s True ctx pk f = Err InvalidJournal"
      unfolding f' by (intro journal_open_partial)
    with opened show ?thesis by simp
  qed
qed

text \<open>The record that a slot holds before the next decision is written, and the one written.\<close>

definition slot_old :: "(byte list \<Rightarrow> hash256) \<Rightarrow> signing_context \<Rightarrow> bytes32 \<Rightarrow> decision list \<Rightarrow> byte list" where
  "slot_old blake2s ctx pk ds =
     (let r = render_rollover blake2s (jr_tip (render blake2s ctx pk True True ds)) ds;
          sl = ro_slot_of (of_nat (Suc (length ds))) in
      encode_slot blake2s (ro_anchor r) sl (if sl = 0 then ro_slot0 r else ro_slot1 r))"

definition slot_new ::
  "(byte list \<Rightarrow> hash256) \<Rightarrow> signing_context \<Rightarrow> bytes32 \<Rightarrow> decision list \<Rightarrow> decision \<Rightarrow> byte list" where
  "slot_new blake2s ctx pk ds d =
     encode_slot blake2s (ro_anchor (render_rollover blake2s (jr_tip (render blake2s ctx pk True True ds)) ds))
       (ro_slot_of (of_nat (Suc (length ds)))) (watermark_at (ds @ [d]) (Suc (length ds)))"

definition torn_slot_messages ::
  "(byte list \<Rightarrow> hash256) \<Rightarrow> signing_context \<Rightarrow> bytes32 \<Rightarrow> decision list \<Rightarrow> decision \<Rightarrow> byte list set" where
  "torn_slot_messages blake2s ctx pk ds d =
     torn_messages (record_preimage (ro_binding blake2s
         (ro_anchor (render_rollover blake2s (jr_tip (render blake2s ctx pk True True ds)) ds))
         (ro_slot_of (of_nat (Suc (length ds)))))) 122
       (slot_old blake2s ctx pk ds) (slot_new blake2s ctx pk ds d)"

lemma recover_slot:
  assumes r: "renderable True True ds" and n: "Suc (length ds) < 2 ^ 64"
    and f: "f = write_at (slot_offset (ro_slot_of (of_nat (Suc (length ds)))))
        (take k (slot_new blake2s ctx pk ds d)) (jr_file (render blake2s ctx pk True True ds))"
    and d: "follows True (last_opt None ds) d"
    and inj: "inj_on blake2s (torn_slot_messages blake2s ctx pk ds d)"
    and opened: "journal_open blake2s True ctx pk f = Ok j"
  shows "j = render blake2s ctx pk True True ds \<or> j = render blake2s ctx pk True True (ds @ [d])"
proof -
  let ?j = "render blake2s ctx pk True True ds"
  define r0 where "r0 = render_rollover blake2s (jr_tip ?j) ds"
  define sl where "sl = ro_slot_of (of_nat (Suc (length ds)))"
  define old where "old = slot_old blake2s ctx pk ds"
  define new where "new = slot_new blake2s ctx pk ds d"
  define a where "a = encode_slot blake2s (ro_anchor r0) 0 (ro_slot0 r0)"
  define b where "b = encode_slot blake2s (ro_anchor r0) 1 (ro_slot1 r0)"
  define pre where "pre = header_version blake2s ctx pk True
    @ chain_bytes blake2s (journal_identity blake2s ctx pk True) 1 (take MAX_JOURNAL_RECORDS ds)"
  define file_of where "file_of t = pre @ (if sl = 0 then extension_bytes (ro_anchor r0) t b
      else extension_bytes (ro_anchor r0) a t)" for t
  have m: "MAX_JOURNAL_RECORDS \<le> length ds" using r by (simp add: renderable_def)
  have sl: "sl = 0 \<or> sl = 1" unfolding sl_def by (rule ro_slot_of_cases)
  have len: "length old = 154" "length new = 154" "length a = 154" "length b = 154"
    by (simp_all add: old_def new_def slot_old_def slot_new_def a_def b_def Let_def)
  have old: "old = (if sl = 0 then a else b)"
    unfolding old_def slot_old_def Let_def r0_def [symmetric] sl_def [symmetric] a_def b_def
    using sl by auto
  have file0: "jr_file ?j = pre @ extension_bytes (ro_anchor r0) a b"
    by (simp add: render_file pre_def a_def b_def r0_def flip: ro_encode_extension)
  then have current: "jr_file ?j = file_of old" by (simp add: file_of_def old)
  have prelen: "length pre = MAX_PROTECTED_JOURNAL_BYTES"
    unfolding pre_def by (rule length_render_prefix [OF r m])
  have cut: "f = file_of (take k new @ drop k old)"
    unfolding f file0 sl_def [symmetric] new_def [symmetric] write_torn_slot [OF prelen sl len(2-4)] file_of_def old
    by simp
  have next': "jr_file (render blake2s ctx pk True True (ds @ [d])) = file_of new"
  proof -
    obtain pos msg s where ds: "d = (pos, msg, Some s)" using d by (cases d) (auto simp: follows_def)
    have "new = encode_slot blake2s (ro_anchor r0) sl
        \<lparr>wm_sequence = of_nat (Suc (length ds)), wm_position = pos, wm_message = msg, wm_safety = s\<rparr>"
      unfolding new_def slot_new_def r0_def [symmetric] sl_def [symmetric] watermark_at_def ds by simp
    moreover have "render_rollover blake2s (jr_tip ?j) (ds @ [d]) = ro_publish sl (of_nat (Suc (length ds))) pos msg s r0"
      unfolding r0_def sl_def ds using m n by (rule render_rollover_append)
    ultimately show ?thesis
      using m sl by (auto simp: render_file file_of_def pre_def ro_encode_extension ro_publish_def a_def b_def Let_def)
  qed
  note slots = slot_old_def [of blake2s ctx pk ds, unfolded Let_def, folded r0_def sl_def old_def]
    slot_new_def [of blake2s ctx pk ds d, folded r0_def sl_def new_def]
  have "take k new @ drop k old = old \<or> take k new @ drop k old = new"
    if "ro_read_slot blake2s (ro_anchor r0) base sl (take k new @ drop k old) = Ok x" for base x
    using that slots inj [unfolded torn_slot_messages_def, folded old_def new_def sl_def r0_def]
    by (rule torn_slot)
  moreover have "\<exists>base x. ro_read_slot blake2s (ro_anchor r0) base sl (take k new @ drop k old) = Ok x"
  proof -
    let ?t = "take k new @ drop k old"
    have t: "length ?t = 154" using len by simp
    show ?thesis
    proof (cases "sl = 0")
      case True
      then show ?thesis
        using journal_open_slots [OF r t len(4) refl refl, of blake2s ctx pk j] opened cut
        by (auto simp: file_of_def pre_def r0_def)
    next
      case False
      with sl show ?thesis
        using journal_open_slots [OF r len(3) t refl refl, of blake2s ctx pk j] opened cut
        by (auto simp: file_of_def pre_def r0_def)
    qed
  qed
  ultimately have "f = jr_file ?j \<or> f = jr_file (render blake2s ctx pk True True (ds @ [d]))"
    using cut current next' by metis
  moreover have "renderable True True (ds @ [d])" using renderable_append [OF r d n] by simp
  ultimately show ?thesis
    using opened journal_open_render [OF r] journal_open_render [of True True "ds @ [d]"] by auto
qed

theorem journal_open_cut_off:
  assumes cut: "cut_off blake2s ctx pk p ds d f" and ok: "log_ok p (ds @ [d])" and n: "Suc (length ds) < 2 ^ 64"
    and inj: "p \<Longrightarrow> MAX_JOURNAL_RECORDS \<le> length ds \<Longrightarrow> inj_on blake2s (torn_slot_messages blake2s ctx pk ds d)"
    and opened: "journal_open blake2s True ctx pk f = Ok j"
  shows "\<exists>rolled es. (es = ds \<or> es = ds @ [d]) \<and> renderable p rolled es \<and> j = render blake2s ctx pk p rolled es"
proof -
  have d: "follows p (last_opt None ds) d" using ok by (simp add: log_ok_def log_from_append)
  show ?thesis
    using cut
  proof cases
    case (append k)
    then have "renderable p False (ds @ [d])"
      using d n by (intro renderable_append) auto
    with append recover_append [OF append(2,3,1) d opened] show ?thesis by blast
  next
    case (activate k)
    with recover_activate [of ds f blake2s ctx pk k j] opened show ?thesis by auto
  next
    case (slot k)
    then have p: "p" "MAX_JOURNAL_RECORDS \<le> length ds" by (simp_all add: renderable_def)
    have "renderable p True (ds @ [d])" using renderable_append [of p True ds d] slot p d n by simp
    with recover_slot [of ds f k blake2s ctx pk d j] slot p d n inj opened show ?thesis
      by (auto simp: slot_new_def)
  qed
qed

end
