(* ===== verification/Astro_Vrf.thy ===== *)
theory Astro_Vrf
  imports Astro_Crypto
begin

text \<open>
  Verifiable randomness (crypto/src/vrf.rs) and the in-memory keystore
  (crypto/src/ed25519_provider.rs). The RFC 9381 backend is a record of functions: parsing
  of keys and proofs, proving, verification. What the round trip relies on is the predicate
  \<open>ecvrf_complete\<close>: the documented completeness of the suite. A Rust \<open>String\<close> is the list of
  its bytes.
\<close>

section \<open>VRF inputs and outputs\<close>

definition VRF_PROOF_BYTES :: nat where "VRF_PROOF_BYTES = 80"
definition VRF_ENVELOPE_BYTES :: nat where "VRF_ENVELOPE_BYTES = 120"
definition VRF_OUTPUT_DOMAIN :: "byte list" where "VRF_OUTPUT_DOMAIN = ascii ''astrolune.vrf.output.v1''"
definition VRF_COMMITTEE :: "byte list" where "VRF_COMMITTEE = ascii ''astrolune.vrf.committee.v1''"
definition VRF_PRODUCER :: "byte list" where "VRF_PRODUCER = ascii ''astrolune.vrf.producer.v1''"

datatype vrf_role = CommitteeRole | ProducerRole

record vrf_input =
  vi_chain_id :: u32
  vi_genesis :: hash256
  vi_epoch :: u64
  vi_height :: u64
  vi_parent_randomness :: hash256
  vi_round :: u32
  vi_role :: vrf_role

record vrf_output =
  vo_randomness :: hash256
  vo_proof :: "byte list"

record 'p ecvrf =
  vrf_secret_parses :: "bytes32 \<Rightarrow> bool"
  vrf_prove :: "bytes32 \<Rightarrow> byte list \<Rightarrow> 'p option"
  vrf_own_verify :: "bytes32 \<Rightarrow> byte list \<Rightarrow> 'p \<Rightarrow> byte list option"
  vrf_public_parses :: "bytes32 \<Rightarrow> bool"
  vrf_public_verify :: "bytes32 \<Rightarrow> byte list \<Rightarrow> 'p \<Rightarrow> byte list option"
  encode_pi :: "'p \<Rightarrow> byte list"
  decode_pi :: "byte list \<Rightarrow> 'p option"

definition vrf_seed_bytes :: "vrf_input \<Rightarrow> byte list" where
  "vrf_seed_bytes i = le_bytes (vi_chain_id i) @ be_bytes (vi_genesis i) @ le_bytes (vi_epoch i)
     @ le_bytes (vi_height i) @ be_bytes (vi_parent_randomness i) @ le_bytes (vi_round i)"

definition role_domain :: "vrf_role \<Rightarrow> byte list" where
  "role_domain r = (case r of CommitteeRole \<Rightarrow> VRF_COMMITTEE | ProducerRole \<Rightarrow> VRF_PRODUCER)"

definition vrf_seed :: "(byte list \<Rightarrow> hash256) \<Rightarrow> vrf_input \<Rightarrow> hash256" where
  "vrf_seed blake2s i = domain_hash blake2s (role_domain (vi_role i)) (vrf_seed_bytes i)"

definition prove_vrf ::
  "(byte list \<Rightarrow> hash256) \<Rightarrow> 'p ecvrf \<Rightarrow> bytes32 \<Rightarrow> vrf_input \<Rightarrow> crypto_error + vrf_output" where
  "prove_vrf blake2s vrf secret input =
     (if \<not> vrf_secret_parses vrf secret then Err InvalidSeed
      else
        try_bind (ok_or InvalidVrfProof (vrf_prove vrf secret (be_bytes (vrf_seed blake2s input)))) (\<lambda>proof.
        let bytes = encode_pi vrf proof in
        try_bind (ok_or InvalidVrfProof (vrf_own_verify vrf secret (be_bytes (vrf_seed blake2s input)) proof))
          (\<lambda>beta.
        Ok \<lparr>vo_randomness = domain_hash blake2s VRF_OUTPUT_DOMAIN beta, vo_proof = bytes\<rparr>)))"

definition decode_proof :: "'p ecvrf \<Rightarrow> byte list \<Rightarrow> crypto_error + 'p" where
  "decode_proof vrf bytes =
     (if length bytes \<noteq> VRF_PROOF_BYTES then Err InvalidVrfProof
      else try_bind (ok_or InvalidVrfProof (decode_pi vrf bytes)) (\<lambda>proof.
        if encode_pi vrf proof \<noteq> bytes then Err InvalidVrfProof else Ok proof))"

definition verify_ecvrf ::
  "ed25519 \<Rightarrow> 'p ecvrf \<Rightarrow> bytes32 \<Rightarrow> byte list \<Rightarrow> byte list \<Rightarrow> crypto_error + byte list" where
  "verify_ecvrf ed vrf public_key alpha proof =
     (if \<not> vk_parses ed public_key then Err InvalidPublicKey
      else if vk_is_weak ed public_key \<or> vk_recompress ed public_key \<noteq> public_key then Err InvalidPublicKey
      else
        try_bind (decode_proof vrf proof) (\<lambda>proof.
        if \<not> vrf_public_parses vrf public_key then Err InvalidPublicKey
        else ok_or InvalidVrfProof (vrf_public_verify vrf public_key alpha proof)))"

definition verify_vrf ::
  "(byte list \<Rightarrow> hash256) \<Rightarrow> ed25519 \<Rightarrow> 'p ecvrf \<Rightarrow> bytes32 \<Rightarrow> hash256 \<Rightarrow> vrf_output \<Rightarrow>
   crypto_error + unit" where
  "verify_vrf blake2s ed vrf public_key seed output =
     try_bind (verify_ecvrf ed vrf public_key (be_bytes seed) (vo_proof output)) (\<lambda>beta.
     if domain_hash blake2s VRF_OUTPUT_DOMAIN beta \<noteq> vo_randomness output then Err InvalidVrfProof
     else Ok ())"

text \<open>\<open>Blake2sProvider::verify_vrf\<close>: the registered key of the validator is used.\<close>

definition provider_verify_vrf ::
  "(byte list \<Rightarrow> hash256) \<Rightarrow> ed25519 \<Rightarrow> 'p ecvrf \<Rightarrow> provider \<Rightarrow> validator_id \<Rightarrow> hash256 \<Rightarrow> vrf_output \<Rightarrow> bool" where
  "provider_verify_vrf blake2s ed vrf keys v seed output =
     (case bt_get keys v of None \<Rightarrow> False
      | Some key \<Rightarrow> verify_vrf blake2s ed vrf key seed output = Ok ())"

definition encode_vrf_output :: "'p ecvrf \<Rightarrow> vrf_output \<Rightarrow> crypto_error + byte list" where
  "encode_vrf_output vrf out =
     try_bind (decode_proof vrf (vo_proof out)) (\<lambda>_.
     Ok (ascii ''ALVR'' @ le_bytes (1 :: u32) @ be_bytes (vo_randomness out) @ vo_proof out))"

definition decode_vrf_output :: "'p ecvrf \<Rightarrow> byte list \<Rightarrow> crypto_error + vrf_output" where
  "decode_vrf_output vrf bytes =
     (if length bytes \<noteq> VRF_ENVELOPE_BYTES \<or> take 4 bytes \<noteq> ascii ''ALVR''
         \<or> take 4 (drop 4 bytes) \<noteq> le_bytes (1 :: u32)
      then Err InvalidVrfProof
      else try_bind (decode_proof vrf (drop 40 bytes)) (\<lambda>_.
        Ok \<lparr>vo_randomness = from_be_bytes (take 32 (drop 8 bytes)), vo_proof = drop 40 bytes\<rparr>))"

section \<open>Lemmas\<close>

lemma decode_proof_Ok:
  "decode_proof vrf bs = Ok p \<longleftrightarrow> length bs = VRF_PROOF_BYTES \<and> decode_pi vrf bs = Some p \<and> encode_pi vrf p = bs"
  by (auto simp: decode_proof_def result_simps)

text \<open>The envelope codec is canonical.\<close>

lemma decode_vrf_output_Ok:
  "decode_vrf_output vrf bs = Ok out \<longleftrightarrow> encode_vrf_output vrf out = Ok bs"
proof
  assume dec: "decode_vrf_output vrf bs = Ok out"
  then obtain p where p: "decode_proof vrf (drop 40 bs) = Ok p"
    and len: "length bs = 120" and tag: "take 4 bs = ascii ''ALVR''" "take 4 (drop 4 bs) = le_bytes (1 :: u32)"
    and out: "out = \<lparr>vo_randomness = from_be_bytes (take 32 (drop 8 bs)), vo_proof = drop 40 bs\<rparr>"
    by (auto simp: decode_vrf_output_def result_simps VRF_ENVELOPE_BYTES_def split: if_splits)
  have "drop 8 bs = take 32 (drop 8 bs) @ drop 40 bs" using append_take_drop_id [of 32 "drop 8 bs"] by simp
  moreover have "drop 4 bs = take 4 (drop 4 bs) @ drop 8 bs" using append_take_drop_id [of 4 "drop 4 bs"] by simp
  ultimately have "bs = take 4 bs @ take 4 (drop 4 bs) @ take 32 (drop 8 bs) @ drop 40 bs"
    by (metis append_take_drop_id)
  moreover have "be_bytes (from_be_bytes (take 32 (drop 8 bs)) :: hash256) = take 32 (drop 8 bs)"
    using len by (simp add: be_from_be_bytes)
  ultimately show "encode_vrf_output vrf out = Ok bs"
    using p tag by (simp add: encode_vrf_output_def out)
next
  assume "encode_vrf_output vrf out = Ok bs"
  then show "decode_vrf_output vrf bs = Ok out"
    by (auto simp: encode_vrf_output_def decode_vrf_output_def result_simps decode_proof_Ok VRF_PROOF_BYTES_def
        VRF_ENVELOPE_BYTES_def)
qed

lemma vrf_seed_bytes_inject:
  "vrf_seed_bytes i = vrf_seed_bytes j \<Longrightarrow> vi_role i = vi_role j \<Longrightarrow> i = j"
  by (simp add: vrf_seed_bytes_def)

text \<open>Two contexts, or two roles, never share the hashed message.\<close>

lemma vrf_seed_preimage_inject:
  "domain_preimage (role_domain (vi_role i)) (vrf_seed_bytes i)
     = domain_preimage (role_domain (vi_role j)) (vrf_seed_bytes j) \<Longrightarrow> i = j"
proof -
  have len: "length (role_domain r) < 2 ^ 64" for r
    by (cases r) (simp_all add: role_domain_def VRF_COMMITTEE_def VRF_PRODUCER_def)
  have dom: "role_domain r = role_domain r' \<longleftrightarrow> r = r'" for r r'
    by (cases r; cases r') (simp_all add: role_domain_def VRF_COMMITTEE_def VRF_PRODUCER_def ascii_def)
  assume "domain_preimage (role_domain (vi_role i)) (vrf_seed_bytes i)
     = domain_preimage (role_domain (vi_role j)) (vrf_seed_bytes j)"
  then show "i = j"
    using domain_preimage_inject [of "role_domain (vi_role i)" "role_domain (vi_role j)"] len dom
      vrf_seed_bytes_inject [of i j] by simp
qed

text \<open>What the proof of a secret relies on: the documented completeness of the suite.\<close>

definition ecvrf_complete :: "ed25519 \<Rightarrow> 'p ecvrf \<Rightarrow> bytes32 \<Rightarrow> byte list \<Rightarrow> bool" where
  "ecvrf_complete ed vrf sk alpha \<longleftrightarrow>
     (let pk = sk_public ed sk in
      vrf_secret_parses vrf sk \<and> vk_parses ed pk \<and> \<not> vk_is_weak ed pk \<and> vk_recompress ed pk = pk
      \<and> vrf_public_parses vrf pk
      \<and> (case vrf_prove vrf sk alpha of None \<Rightarrow> False
         | Some p \<Rightarrow> vrf_own_verify vrf sk alpha p \<noteq> None
             \<and> vrf_public_verify vrf pk alpha p = vrf_own_verify vrf sk alpha p
             \<and> length (encode_pi vrf p) = VRF_PROOF_BYTES \<and> decode_pi vrf (encode_pi vrf p) = Some p))"

lemma prove_vrf_verifies:
  assumes "ecvrf_complete ed vrf sk (be_bytes (vrf_seed blake2s i))"
  shows "\<exists>out. prove_vrf blake2s vrf sk i = Ok out
    \<and> verify_vrf blake2s ed vrf (sk_public ed sk) (vrf_seed blake2s i) out = Ok ()"
proof -
  obtain p beta where p: "vrf_prove vrf sk (be_bytes (vrf_seed blake2s i)) = Some p"
    and beta: "vrf_own_verify vrf sk (be_bytes (vrf_seed blake2s i)) p = Some beta"
    and pi: "decode_proof vrf (encode_pi vrf p) = Ok p"
    using assms by (auto simp: ecvrf_complete_def Let_def decode_proof_Ok split: option.splits)
  with assms show ?thesis
    by (auto simp: ecvrf_complete_def Let_def prove_vrf_def verify_vrf_def verify_ecvrf_def)
qed

text \<open>Acceptance fixes the output: two accepted outputs with the same proof are equal.\<close>

lemma verify_vrf_output:
  "verify_vrf blake2s ed vrf pk seed out = Ok () \<longleftrightarrow>
     (\<exists>beta. verify_ecvrf ed vrf pk (be_bytes seed) (vo_proof out) = Ok beta
       \<and> vo_randomness out = domain_hash blake2s VRF_OUTPUT_DOMAIN beta)"
  by (auto simp: verify_vrf_def result_simps)

section \<open>The in-memory keystore\<close>

record key_entry =
  ke_secret :: bytes32
  ke_public_key :: bytes32
  ke_validator_id :: validator_id
  ke_label :: "byte list"

record ed25519_keystore =
  mk_keys :: "(byte list, key_entry) btree"
  mk_signed :: "(byte list \<times> u64 \<times> u32 \<times> u32, bytes32) btree"

definition keystore_empty :: ed25519_keystore where
  "keystore_empty = \<lparr>mk_keys = [], mk_signed = []\<rparr>"

definition generate_key ::
  "(byte list \<Rightarrow> hash256) \<Rightarrow> ed25519 \<Rightarrow> byte list \<Rightarrow> bytes32 \<Rightarrow> ed25519_keystore \<Rightarrow>
   (crypto_error + byte list) \<times> ed25519_keystore" where
  "generate_key blake2s ed key_id seed ks =
     (if bt_contains (mk_keys ks) key_id then (Err DuplicateKey, ks)
      else
        let secret = derive_key blake2s (be_bytes seed) (ascii ''ed25519.'' @ key_id);
            public = sk_public ed secret;
            entry = \<lparr>ke_secret = secret, ke_public_key = public, ke_validator_id = blake2s (be_bytes public),
                     ke_label = key_id\<rparr> in
        (Ok key_id, ks\<lparr>mk_keys := bt_insert key_id entry (mk_keys ks)\<rparr>))"

definition mk_public_key :: "ed25519_keystore \<Rightarrow> byte list \<Rightarrow> crypto_error + bytes32" where
  "mk_public_key ks key_id =
     try_bind (ok_or KeyNotFound (bt_get (mk_keys ks) key_id)) (\<lambda>entry. Ok (ke_public_key entry))"

definition mk_validator_id :: "ed25519_keystore \<Rightarrow> byte list \<Rightarrow> crypto_error + validator_id" where
  "mk_validator_id ks key_id =
     try_bind (ok_or KeyNotFound (bt_get (mk_keys ks) key_id)) (\<lambda>entry. Ok (ke_validator_id entry))"

definition mk_sign :: "ed25519 \<Rightarrow> ed25519_keystore \<Rightarrow> byte list \<Rightarrow> byte list \<Rightarrow> crypto_error + bytes64" where
  "mk_sign ed ks key_id msg =
     try_bind (ok_or KeyNotFound (bt_get (mk_keys ks) key_id)) (\<lambda>entry. Ok (sk_sign ed (ke_secret entry) msg))"

definition mk_prove_vrf ::
  "(byte list \<Rightarrow> hash256) \<Rightarrow> 'p ecvrf \<Rightarrow> ed25519_keystore \<Rightarrow> byte list \<Rightarrow> vrf_input \<Rightarrow>
   crypto_error + vrf_output" where
  "mk_prove_vrf blake2s vrf ks key_id input =
     try_bind (ok_or KeyNotFound (bt_get (mk_keys ks) key_id)) (\<lambda>entry.
     prove_vrf blake2s vrf (ke_secret entry) input)"

definition sign_at_position ::
  "ed25519 \<Rightarrow> byte list \<Rightarrow> u64 \<Rightarrow> u32 \<Rightarrow> u32 \<Rightarrow> bytes32 \<Rightarrow> ed25519_keystore \<Rightarrow>
   (crypto_error + bytes64) \<times> ed25519_keystore" where
  "sign_at_position ed key_id height round phase msg ks =
     (let key = (key_id, height, round, phase) in
      if (case bt_get (mk_signed ks) key of None \<Rightarrow> False | Some existing \<Rightarrow> existing \<noteq> msg)
      then (Err EquivocationDetected, ks)
      else case bt_get (mk_keys ks) key_id of
        None \<Rightarrow> (Err KeyNotFound, ks)
      | Some entry \<Rightarrow>
          (Ok (sk_sign ed (ke_secret entry) (be_bytes msg)),
           ks\<lparr>mk_signed := bt_insert key msg (mk_signed ks)\<rparr>))"

definition mk_verify ::
  "ed25519 \<Rightarrow> ed25519_keystore \<Rightarrow> validator_id \<Rightarrow> byte list \<Rightarrow> bytes64 \<Rightarrow> crypto_error + bool" where
  "mk_verify ed ks v msg sig =
     (case filter (\<lambda>e. ke_validator_id e = v) (map snd (mk_keys ks)) of
        [] \<Rightarrow> Err KeyNotFound
      | e # _ \<Rightarrow> Ok (ed25519_verify ed (ke_public_key e) msg sig))"

text \<open>The operations of the keystore, and every keystore they can produce.\<close>

inductive keystore_run ::
  "(byte list \<Rightarrow> hash256) \<Rightarrow> ed25519 \<Rightarrow> ((byte list \<times> u64 \<times> u32 \<times> u32) \<times> bytes32) set \<Rightarrow>
   ed25519_keystore \<Rightarrow> bool"
  for blake2s ed where
  empty: "keystore_run blake2s ed {} keystore_empty"
| generate: "keystore_run blake2s ed released ks \<Longrightarrow>
    keystore_run blake2s ed released (snd (generate_key blake2s ed key_id seed ks))"
| sign: "keystore_run blake2s ed released ks \<Longrightarrow>
    sign_at_position ed key_id h r ph msg ks = (Ok sig, ks') \<Longrightarrow>
    keystore_run blake2s ed (insert ((key_id, h, r, ph), msg) released) ks'"
| refuse: "keystore_run blake2s ed released ks \<Longrightarrow>
    sign_at_position ed key_id h r ph msg ks = (Err e, ks') \<Longrightarrow> keystore_run blake2s ed released ks'"

lemma sign_at_position_Ok:
  assumes "sign_at_position ed key_id h r ph msg ks = (Ok sig, ks')"
  shows "bt_get (mk_signed ks) (key_id, h, r, ph) \<in> {None, Some msg}
    \<and> mk_signed ks' = bt_insert (key_id, h, r, ph) msg (mk_signed ks) \<and> mk_keys ks' = mk_keys ks"
  using assms by (auto simp: sign_at_position_def Let_def split: if_splits option.splits)

lemma keystore_run_positions:
  assumes "keystore_run blake2s ed released ks"
  shows "bt_ok (mk_signed ks) \<and> (\<forall>key msg. (key, msg) \<in> released \<longrightarrow> bt_get (mk_signed ks) key = Some msg)"
  using assms
proof induction
  case empty
  then show ?case by (simp add: keystore_empty_def)
next
  case (generate released ks key_id seed)
  then show ?case by (simp add: generate_key_def Let_def)
next
  case (sign released ks key_id h r ph msg sig ks')
  define pos where "pos = (key_id, h, r, ph)"
  have ok: "bt_get (mk_signed ks) pos \<in> {None, Some msg}" "mk_signed ks' = bt_insert pos msg (mk_signed ks)"
    using sign_at_position_Ok [OF sign(2)] by (simp_all add: pos_def)
  have IH: "bt_ok (mk_signed ks)" "\<And>key m. (key, m) \<in> released \<Longrightarrow> bt_get (mk_signed ks) key = Some m"
    using sign.IH by blast+
  have "bt_get (mk_signed ks') key = Some m" if "(key, m) \<in> insert (pos, msg) released" for key m
    using that ok IH(2) [of key m] IH(1) by (cases "key = pos") (auto simp: bt_get_insert)
  then show ?case using ok(2) IH(1) by (simp add: bt_ok_insert flip: pos_def)
next
  case (refuse released ks key_id h r ph msg e ks')
  then have "ks' = ks" by (auto simp: sign_at_position_def Let_def split: if_splits option.splits)
  with refuse.IH show ?case by simp
qed

text \<open>Within one process no position is ever signed with two different messages.\<close>

lemma keystore_no_equivocation:
  assumes "keystore_run blake2s ed released ks" and "(key, msg) \<in> released" "(key, msg') \<in> released"
  shows "msg = msg'"
  using keystore_run_positions [OF assms(1)] assms(2,3) by (metis option.inject)

end
