(* ===== verification/Astro_Intents.thy ===== *)
theory Astro_Intents
  imports Astro_Codec Astro_Vrf
begin

text \<open>
  Operator approvals signed with the consensus key but outside of voting: admission of a
  candidate (keystore/src/admission.rs) and change of network parameters
  (keystore/src/governance.rs). Both requests have one canonical encoding.
\<close>

section \<open>Admission\<close>

record admission_intent =
  ai_chain_id :: u32
  ai_genesis :: hash256
  ai_height :: u64
  ai_parent :: hash256
  ai_committee_root :: hash256
  ai_public_key :: bytes32

definition ADMISSION_BYTES :: nat where "ADMISSION_BYTES = 140"

definition admission_validate ::
  "(byte list \<Rightarrow> hash256) \<Rightarrow> ed25519 \<Rightarrow> admission_intent \<Rightarrow> decode_error + unit" where
  "admission_validate blake2s ed i =
     (if ai_chain_id i = 0 \<or> ai_genesis i = 0 \<or> ai_parent i = 0 \<or> ai_committee_root i = 0
         \<or> ai_height i = 0 \<or> ai_height i = - 1
      then Err NonCanonical
      else try_bind (map_err (\<lambda>_. NonCanonical) (register_validator blake2s ed (ai_public_key i) [])) (\<lambda>_.
        Ok ()))"

definition admission_bytes :: "admission_intent \<Rightarrow> byte list" where
  "admission_bytes i = le_bytes (ai_chain_id i) @ be_bytes (ai_genesis i) @ le_bytes (ai_height i)
     @ be_bytes (ai_parent i) @ be_bytes (ai_committee_root i) @ be_bytes (ai_public_key i)"

definition admission_from_bytes ::
  "(byte list \<Rightarrow> hash256) \<Rightarrow> ed25519 \<Rightarrow> byte list \<Rightarrow> decode_error + admission_intent" where
  "admission_from_bytes blake2s ed bytes =
     (if length bytes \<noteq> ADMISSION_BYTES then Err NonCanonical
      else
        try_bind (read_u32 (decoder_new bytes)) (\<lambda>(chain_id, d).
        try_bind (read_fixed d) (\<lambda>(genesis, d).
        try_bind (read_u64 d) (\<lambda>(height, d).
        try_bind (read_fixed d) (\<lambda>(parent, d).
        try_bind (read_fixed d) (\<lambda>(committee_root, d).
        try_bind (read_fixed d) (\<lambda>(public_key, d).
        try_bind (finish d) (\<lambda>_.
        let result = \<lparr>ai_chain_id = chain_id, ai_genesis = genesis, ai_height = height, ai_parent = parent,
                      ai_committee_root = committee_root, ai_public_key = public_key\<rparr> in
        try_bind (admission_validate blake2s ed result) (\<lambda>_. Ok result)))))))))"

definition consent_hash :: "(byte list \<Rightarrow> hash256) \<Rightarrow> admission_intent \<Rightarrow> hash256" where
  "consent_hash blake2s i = domain_hash blake2s (ascii ''astrolune.admission.consent.v1'') (admission_bytes i)"

definition verify_consent ::
  "(byte list \<Rightarrow> hash256) \<Rightarrow> ed25519 \<Rightarrow> admission_intent \<Rightarrow> bytes64 \<Rightarrow> bool" where
  "verify_consent blake2s ed i sig \<longleftrightarrow>
     admission_validate blake2s ed i = Ok ()
     \<and> ed25519_verify ed (ai_public_key i) (be_bytes (consent_hash blake2s i)) sig"

definition admission_request_id :: "(byte list \<Rightarrow> hash256) \<Rightarrow> admission_intent \<Rightarrow> bytes64 \<Rightarrow> hash256" where
  "admission_request_id blake2s i consent =
     domain_hash blake2s (ascii ''astrolune.admission.request.v1'') (admission_bytes i @ be_bytes consent)"

definition admission_approval_hash ::
  "(byte list \<Rightarrow> hash256) \<Rightarrow> admission_intent \<Rightarrow> bytes64 \<Rightarrow> validator_id \<Rightarrow> hash256" where
  "admission_approval_hash blake2s i consent voter =
     domain_hash blake2s (ascii ''astrolune.admission.approval.v1'')
       (be_bytes (admission_request_id blake2s i consent) @ be_bytes voter)"

section \<open>Governance\<close>

record governance_intent =
  gi_chain_id :: u32
  gi_genesis :: hash256
  gi_height :: u64
  gi_parent :: hash256
  gi_committee_root :: hash256
  gi_activate_at :: u64
  gi_capacity :: resources
  gi_prices :: resources

definition GOVERNANCE_BYTES :: nat where "GOVERNANCE_BYTES = 188"

definition governance_validate :: "governance_intent \<Rightarrow> decode_error + unit" where
  "governance_validate i =
     (if gi_chain_id i = 0 \<or> gi_genesis i = 0 \<or> gi_parent i = 0 \<or> gi_committee_root i = 0
         \<or> gi_height i = 0 \<or> gi_activate_at i \<le> gi_height i
         \<or> compute (gi_capacity i) = 0 \<or> memory (gi_capacity i) = 0 \<or> io (gi_capacity i) = 0
         \<or> bandwidth (gi_capacity i) = 0
      then Err NonCanonical else Ok ())"

definition governance_bytes :: "governance_intent \<Rightarrow> byte list" where
  "governance_bytes i = ascii ''ALGVRQ01'' @ le_bytes (gi_chain_id i) @ be_bytes (gi_genesis i)
     @ le_bytes (gi_height i) @ be_bytes (gi_parent i) @ be_bytes (gi_committee_root i)
     @ le_bytes (gi_activate_at i) @ encode_resources (gi_capacity i) @ encode_resources (gi_prices i)"

definition governance_from_bytes :: "byte list \<Rightarrow> decode_error + governance_intent" where
  "governance_from_bytes bytes =
     (if length bytes \<noteq> GOVERNANCE_BYTES then Err NonCanonical
      else
        try_bind (read_exact 8 (decoder_new bytes)) (\<lambda>(tag, d).
        if tag \<noteq> ascii ''ALGVRQ01'' then Err Unsupported
        else
        try_bind (read_u32 d) (\<lambda>(chain_id, d).
        try_bind (read_fixed d) (\<lambda>(genesis, d).
        try_bind (read_u64 d) (\<lambda>(height, d).
        try_bind (read_fixed d) (\<lambda>(parent, d).
        try_bind (read_fixed d) (\<lambda>(committee_root, d).
        try_bind (read_u64 d) (\<lambda>(activate_at, d).
        try_bind (read_exact 32 d) (\<lambda>(cap, d).
        try_bind (decode_resources cap) (\<lambda>capacity.
        try_bind (read_exact 32 d) (\<lambda>(pr, d).
        try_bind (decode_resources pr) (\<lambda>prices.
        try_bind (finish d) (\<lambda>_.
        let result = \<lparr>gi_chain_id = chain_id, gi_genesis = genesis, gi_height = height, gi_parent = parent,
                      gi_committee_root = committee_root, gi_activate_at = activate_at,
                      gi_capacity = capacity, gi_prices = prices\<rparr> in
        try_bind (governance_validate result) (\<lambda>_. Ok result))))))))))))))"

definition governance_id :: "(byte list \<Rightarrow> hash256) \<Rightarrow> governance_intent \<Rightarrow> hash256" where
  "governance_id blake2s i = domain_hash blake2s (ascii ''astrolune.governance.request.v1'') (governance_bytes i)"

definition governance_approval_hash ::
  "(byte list \<Rightarrow> hash256) \<Rightarrow> governance_intent \<Rightarrow> validator_id \<Rightarrow> hash256" where
  "governance_approval_hash blake2s i voter =
     domain_hash blake2s (ascii ''astrolune.governance.approval.v1'')
       (be_bytes (governance_id blake2s i) @ be_bytes voter)"

section \<open>Canonical encodings\<close>

lemma length_admission_bytes [simp]: "length (admission_bytes i) = ADMISSION_BYTES"
  by (simp add: admission_bytes_def ADMISSION_BYTES_def)

lemma length_governance_bytes [simp]: "length (governance_bytes i) = GOVERNANCE_BYTES"
  by (simp add: governance_bytes_def GOVERNANCE_BYTES_def)

lemma admission_sound:
  "admission_from_bytes blake2s ed bs = Ok i \<Longrightarrow> admission_validate blake2s ed i = Ok () \<and> admission_bytes i = bs"
  unfolding admission_from_bytes_def Let_def
  apply (clarsimp simp: result_simps finish_Ok split: if_splits)
  apply (drule read_sound)+
  apply (simp add: admission_bytes_def)
  done

lemma admission_complete:
  "admission_validate blake2s ed i = Ok () \<Longrightarrow> admission_from_bytes blake2s ed (admission_bytes i) = Ok i"
  by (cases i, simp add: admission_from_bytes_def)
    (simp add: admission_bytes_def decoder_new_dec_at usize_limit_def Let_def)

interpretation admission_format:
  wire_format "Some \<circ> admission_bytes" "admission_from_bytes blake2s ed"
    "\<lambda>i. admission_validate blake2s ed i = Ok ()" for blake2s ed
  by unfold_locales (auto dest: admission_sound intro: admission_complete simp: usize_limit_def ADMISSION_BYTES_def)

lemma decode_resources_32:
  "length bs = 32 \<Longrightarrow> decode_resources bs = Ok r \<longleftrightarrow> encode_resources r = bs"
  using resources_format.dec_iff [of bs r] by (simp add: usize_limit_def)

lemma decode_encode_resources: "decode_resources (encode_resources r) = Ok r"
  by (simp add: decode_resources_32)

lemma governance_sound:
  assumes "governance_from_bytes bs = Ok i"
  shows "governance_validate i = Ok () \<and> governance_bytes i = bs"
  using assms unfolding governance_from_bytes_def Let_def
  apply (clarsimp simp: result_simps finish_Ok split: if_splits)
  apply (drule read_exact_sound read_sound)+
  apply (clarsimp simp: decode_resources_32 governance_bytes_def)
  done

lemma governance_complete:
  "governance_validate i = Ok () \<Longrightarrow> governance_from_bytes (governance_bytes i) = Ok i"
  by (cases i, simp add: governance_from_bytes_def)
    (simp add: governance_bytes_def decoder_new_dec_at usize_limit_def decode_encode_resources Let_def)

interpretation governance_format:
  wire_format "Some \<circ> governance_bytes" governance_from_bytes "\<lambda>i. governance_validate i = Ok ()"
  by unfold_locales (auto dest: governance_sound intro: governance_complete simp: usize_limit_def GOVERNANCE_BYTES_def)

end
