(* ===== verification/Astro_Signer.thy ===== *)
theory Astro_Signer
  imports Astro_Anchor Astro_Intents
begin

text \<open>
  The durable signer (keystore/src/durable.rs): a signature is released only after its
  decision has been reserved in the journal and witnessed by the anchor, if one is paired.
  The lemmas follow the signer through failed writes, crashes and restarts: the positions that
  were signed stay in its log, so no position is ever signed twice with different messages.
\<close>

section \<open>Handles (key.rs)\<close>

datatype key_purpose = ConsensusKey | NetworkKey | ServiceKey | WalletKey

record key_handle =
  kh_id :: "byte list"
  kh_purpose :: key_purpose

text \<open>\<open>Hash256::to_string\<close>: two lower-case hexadecimal digits for every byte.\<close>

definition hex_digit :: "nat \<Rightarrow> byte" where
  "hex_digit n = of_nat (if n < 10 then 48 + n else 87 + n)"

definition hash_to_string :: "hash256 \<Rightarrow> byte list" where
  "hash_to_string h = concat (map (\<lambda>b. [hex_digit (unat b div 16), hex_digit (unat b mod 16)]) (be_bytes h))"

section \<open>The signer (durable.rs)\<close>

record durable_signer =
  sg_seed :: bytes32
  sg_public_key :: bytes32
  sg_validator :: validator_id
  sg_handle :: key_handle
  sg_context :: signing_context
  sg_journal :: journal
  sg_anchor :: "anchor_store option"

text \<open>\<open>journal_of\<close> is the call that creates or opens the journal file for the public key.\<close>

definition signer_initialize ::
  "(byte list \<Rightarrow> hash256) \<Rightarrow> ed25519 \<Rightarrow> signing_context \<Rightarrow> bytes32 \<Rightarrow>
   (bytes32 \<Rightarrow> keystore_error + journal) \<Rightarrow> keystore_error + durable_signer" where
  "signer_initialize blake2s ed ctx seed journal_of =
     (if ctx_genesis ctx = 0 then Err ContextMismatch
      else
        let public_key = ed25519_public_key ed seed;
            validator = blake2s (be_bytes public_key) in
        try_bind (journal_of public_key) (\<lambda>j.
        Ok \<lparr>sg_seed = seed, sg_public_key = public_key, sg_validator = validator,
            sg_handle = \<lparr>kh_id = hash_to_string validator, kh_purpose = ConsensusKey\<rparr>,
            sg_context = ctx, sg_journal = j, sg_anchor = None\<rparr>))"

definition signer_create ::
  "(byte list \<Rightarrow> hash256) \<Rightarrow> ed25519 \<Rightarrow> io_result \<Rightarrow> bool \<Rightarrow> signing_context \<Rightarrow> bytes32 \<Rightarrow>
   keystore_error + durable_signer" where
  "signer_create blake2s ed io_write exists ctx seed =
     signer_initialize blake2s ed ctx seed (\<lambda>pk. create_mode blake2s io_write exists ctx pk False)"

definition signer_create_protected ::
  "(byte list \<Rightarrow> hash256) \<Rightarrow> ed25519 \<Rightarrow> io_result \<Rightarrow> bool \<Rightarrow> signing_context \<Rightarrow> bytes32 \<Rightarrow>
   keystore_error + durable_signer" where
  "signer_create_protected blake2s ed io_write exists ctx seed =
     signer_initialize blake2s ed ctx seed (\<lambda>pk. create_mode blake2s io_write exists ctx pk True)"

definition signer_open ::
  "(byte list \<Rightarrow> hash256) \<Rightarrow> ed25519 \<Rightarrow> bool \<Rightarrow> signing_context \<Rightarrow> bytes32 \<Rightarrow> byte list \<Rightarrow>
   keystore_error + durable_signer" where
  "signer_open blake2s ed sync_ok ctx seed file =
     signer_initialize blake2s ed ctx seed (\<lambda>pk. journal_open blake2s sync_ok ctx pk file)"

definition signer_create_anchor ::
  "(byte list \<Rightarrow> hash256) \<Rightarrow> ed25519 \<Rightarrow> bool \<Rightarrow> io_result \<Rightarrow> bool \<Rightarrow> signing_context \<Rightarrow> bytes32 \<Rightarrow>
   byte list \<Rightarrow> keystore_error + durable_signer" where
  "signer_create_anchor blake2s ed sync_ok io_write exists ctx seed file =
     try_bind (signer_open blake2s ed sync_ok ctx seed file) (\<lambda>signer.
     try_bind (anchor_create blake2s io_write exists ctx (sg_public_key signer)
         (jr_identity (sg_journal signer)) (journal_state_of (sg_journal signer))) (\<lambda>store.
     Ok (signer\<lparr>sg_anchor := Some store\<rparr>)))"

definition signer_open_with_anchor ::
  "(byte list \<Rightarrow> hash256) \<Rightarrow> ed25519 \<Rightarrow> bool \<Rightarrow> bool \<Rightarrow> io_result \<Rightarrow> signing_context \<Rightarrow> bytes32 \<Rightarrow>
   byte list \<Rightarrow> byte list \<Rightarrow> keystore_error + durable_signer" where
  "signer_open_with_anchor blake2s ed sync_ok anchor_sync_ok io_write ctx seed file anchor =
     try_bind (signer_open blake2s ed sync_ok ctx seed file) (\<lambda>signer.
     try_bind (anchor_open blake2s anchor_sync_ok ctx (sg_public_key signer)
         (jr_identity (sg_journal signer)) anchor) (\<lambda>store.
     case anchor_reconcile blake2s io_write (journal_state_of (sg_journal signer))
         (jr_previous (sg_journal signer)) store of
       (Inl e, _) \<Rightarrow> Err e
     | (Inr _, store) \<Rightarrow> Ok (signer\<lparr>sg_anchor := Some store\<rparr>)))"

definition witness_decision ::
  "(byte list \<Rightarrow> hash256) \<Rightarrow> io_result \<Rightarrow> durable_signer \<Rightarrow> (keystore_error + unit) \<times> durable_signer" where
  "witness_decision blake2s io_write sg =
     (case sg_anchor sg of
        None \<Rightarrow> (Ok (), sg)
      | Some store \<Rightarrow>
          let (r, store') = anchor_commit blake2s io_write (journal_state_of (sg_journal sg)) store in
          (r, sg\<lparr>sg_anchor := Some store'\<rparr>))"

definition anchor_ready :: "durable_signer \<Rightarrow> keystore_error + unit" where
  "anchor_ready sg =
     (case sg_anchor sg of
        None \<Rightarrow> Ok ()
      | Some store \<Rightarrow> if an_poisoned store then Err DurabilityUnknown else Ok ())"

definition signer_validator_id :: "durable_signer \<Rightarrow> key_handle \<Rightarrow> keystore_error + validator_id" where
  "signer_validator_id sg handle =
     (if kh_purpose handle \<noteq> ConsensusKey then Err WrongPurpose
      else if kh_id handle \<noteq> kh_id (sg_handle sg) then Err UnknownKey
      else Ok (sg_validator sg))"

text \<open>The outcomes of the three writes that one signature may need.\<close>

record sign_io =
  si_activate :: io_result
  si_write :: io_result
  si_anchor :: io_result

text \<open>Reservation, witness, signature; the two entry points differ in the reservation.\<close>

definition sign_with ::
  "(byte list \<Rightarrow> hash256) \<Rightarrow> ed25519 \<Rightarrow> io_result \<Rightarrow> (journal \<Rightarrow> (keystore_error + unit) \<times> journal) \<Rightarrow>
   key_handle \<Rightarrow> hash256 \<Rightarrow> durable_signer \<Rightarrow> (keystore_error + bytes64) \<times> durable_signer" where
  "sign_with blake2s ed io_anchor reservation handle msg sg =
     (case signer_validator_id sg handle of Inl e \<Rightarrow> (Err e, sg) | Inr _ \<Rightarrow>
      case anchor_ready sg of Inl e \<Rightarrow> (Err e, sg) | Inr _ \<Rightarrow>
      case reservation (sg_journal sg) of
        (Inl e, j) \<Rightarrow> (Err e, sg\<lparr>sg_journal := j\<rparr>)
      | (Inr _, j) \<Rightarrow>
          (case witness_decision blake2s io_anchor (sg\<lparr>sg_journal := j\<rparr>) of
             (Inl e, sg') \<Rightarrow> (Err e, sg')
           | (Inr _, sg') \<Rightarrow> (Ok (ed25519_sign ed (sg_seed sg') (be_bytes msg)), sg')))"

definition sign_protected ::
  "(byte list \<Rightarrow> hash256) \<Rightarrow> ed25519 \<Rightarrow> sign_io \<Rightarrow> key_handle \<Rightarrow> signing_position \<Rightarrow> hash256 \<Rightarrow>
   signing_safety \<Rightarrow> durable_signer \<Rightarrow> (keystore_error + bytes64) \<times> durable_signer" where
  "sign_protected blake2s ed ios handle pos msg safety sg =
     sign_with blake2s ed (si_anchor ios)
       (reserve_protected blake2s (si_activate ios) (si_write ios) pos msg safety) handle msg sg"

definition sign_consensus ::
  "(byte list \<Rightarrow> hash256) \<Rightarrow> ed25519 \<Rightarrow> sign_io \<Rightarrow> key_handle \<Rightarrow> signing_position \<Rightarrow> hash256 \<Rightarrow>
   durable_signer \<Rightarrow> (keystore_error + bytes64) \<times> durable_signer" where
  "sign_consensus blake2s ed ios handle pos msg sg =
     sign_with blake2s ed (si_anchor ios) (reserve blake2s (si_write ios) pos msg) handle msg sg"

definition signer_prove_vrf ::
  "(byte list \<Rightarrow> hash256) \<Rightarrow> 'p ecvrf \<Rightarrow> durable_signer \<Rightarrow> vrf_input \<Rightarrow> keystore_error + vrf_output" where
  "signer_prove_vrf blake2s vrf sg input =
     (if \<not> jr_protected (sg_journal sg) then Err InvalidSafety
      else if vi_chain_id input \<noteq> ctx_chain_id (sg_context sg) \<or> vi_genesis input \<noteq> ctx_genesis (sg_context sg)
      then Err ContextMismatch
      else if vi_round input \<noteq> 0 \<or> vi_height input < 2 \<or> vi_epoch input \<noteq> vi_height input
      then Err InvalidSafety
      else if (case last_position (sg_journal sg) of None \<Rightarrow> False
               | Some pos \<Rightarrow> pos_height pos \<ge> vi_height input)
      then Err StalePosition
      else map_err (\<lambda>_. ProviderFailure) (prove_vrf blake2s vrf (sg_seed sg) input))"

text \<open>The watermark check shared by the two approvals.\<close>

definition approval_position_check ::
  "durable_signer \<Rightarrow> u64 \<Rightarrow> hash256 \<Rightarrow> keystore_error + unit" where
  "approval_position_check sg height committee_root =
     (case last_position (sg_journal sg) of
        None \<Rightarrow> Ok ()
      | Some pos \<Rightarrow>
          if pos_height pos > height then Err StalePosition
          else if pos_height pos = height
            \<and> (case jr_safety (sg_journal sg) of None \<Rightarrow> True
               | Some s \<Rightarrow> sf_committee_root s \<noteq> committee_root)
          then Err InvalidSafety else Ok ())"

definition approve_admission ::
  "(byte list \<Rightarrow> hash256) \<Rightarrow> ed25519 \<Rightarrow> durable_signer \<Rightarrow> admission_intent \<Rightarrow> bytes64 \<Rightarrow>
   keystore_error + bytes64" where
  "approve_admission blake2s ed sg intent consent =
     (if \<not> jr_protected (sg_journal sg) then Err InvalidSafety
      else if ai_chain_id intent \<noteq> ctx_chain_id (sg_context sg) \<or> ai_genesis intent \<noteq> ctx_genesis (sg_context sg)
      then Err ContextMismatch
      else if \<not> verify_consent blake2s ed intent consent then Err InvalidSafety
      else try_bind (approval_position_check sg (ai_height intent) (ai_committee_root intent)) (\<lambda>_.
        Ok (ed25519_sign ed (sg_seed sg)
          (be_bytes (admission_approval_hash blake2s intent consent (sg_validator sg))))))"

definition approve_governance ::
  "(byte list \<Rightarrow> hash256) \<Rightarrow> ed25519 \<Rightarrow> durable_signer \<Rightarrow> governance_intent \<Rightarrow> keystore_error + bytes64" where
  "approve_governance blake2s ed sg intent =
     (if \<not> jr_protected (sg_journal sg) \<or> governance_validate intent \<noteq> Ok () then Err InvalidSafety
      else if gi_chain_id intent \<noteq> ctx_chain_id (sg_context sg) \<or> gi_genesis intent \<noteq> ctx_genesis (sg_context sg)
      then Err ContextMismatch
      else try_bind (approval_position_check sg (gi_height intent) (gi_committee_root intent)) (\<lambda>_.
        Ok (ed25519_sign ed (sg_seed sg) (be_bytes (governance_approval_hash blake2s intent (sg_validator sg))))))"

section \<open>Files and journals that stand for a log\<close>

text \<open>
  The digests of the slot record that a reservation may leave half written, read off the journal
  before the write.
\<close>

definition write_hashes ::
  "(byte list \<Rightarrow> hash256) \<Rightarrow> signing_position \<Rightarrow> hash256 \<Rightarrow> signing_safety \<Rightarrow> journal \<Rightarrow> byte list set" where
  "write_hashes blake2s pos msg s j =
     (if unat (jr_count j) < MAX_JOURNAL_RECORDS then {}
      else case (case jr_rollover j of Some r \<Rightarrow> Ok r
                 | None \<Rightarrow> rollover_new blake2s (jr_tip j) (jr_last j) (jr_safety j)) of
        Inl e \<Rightarrow> {}
      | Inr r \<Rightarrow>
          (let sq = jr_count j + 1; sl = ro_slot_of sq in
           torn_messages (record_preimage (ro_binding blake2s (ro_anchor r) sl)) 122
             (encode_slot blake2s (ro_anchor r) sl (if sl = 0 then ro_slot0 r else ro_slot1 r))
             (encode_slot blake2s (ro_anchor r) sl
               \<lparr>wm_sequence = sq, wm_position = pos, wm_message = msg, wm_safety = s\<rparr>)))"

lemma write_hashes_render:
  assumes r: "renderable True rolled ds" and n: "MAX_JOURNAL_RECORDS \<le> length ds"
  shows "write_hashes blake2s pos msg s (render blake2s ctx pk True rolled ds)
    = torn_slot_messages blake2s ctx pk ds (pos, msg, Some s)"
proof -
  let ?j = "render blake2s ctx pk True rolled ds"
  define ro where "ro = render_rollover blake2s (jr_tip (render blake2s ctx pk True True ds)) ds"
  have tip: "jr_tip ?j = jr_tip (render blake2s ctx pk True True ds)" by simp
  obtain q m t where l: "last_opt None ds = Some (q, m, Some t)" "ds ! (length ds - 1) = (q, m, Some t)"
    using last_decision [OF r n] .
  have "(case jr_rollover ?j of Some r \<Rightarrow> Ok r
      | None \<Rightarrow> rollover_new blake2s (jr_tip ?j) (jr_last ?j) (jr_safety ?j)) = Ok ro"
  proof (cases rolled)
    case False
    then have "length ds = MAX_JOURNAL_RECORDS" using r n by (simp add: renderable_def)
    with False l show ?thesis
      by (simp add: ro_def rollover_new_def log_last_def log_safety_def render_rollover_def Let_def watermark_at_def)
  qed (simp add: ro_def)
  moreover have "unat (jr_count ?j) = length ds" using r by (simp add: renderable_def unat_u64_nat)
  moreover have "watermark_at (ds @ [(pos, msg, Some s)]) (Suc (length ds)) =
      \<lparr>wm_sequence = of_nat (Suc (length ds)), wm_position = pos, wm_message = msg, wm_safety = s\<rparr>"
    by (simp add: watermark_at_def)
  moreover have "jr_count ?j + 1 = of_nat (Suc (length ds))" by simp
  ultimately show ?thesis
    using n unfolding write_hashes_def torn_slot_messages_def slot_old_def slot_new_def Let_def ro_def [symmetric]
    by (simp del: of_nat_Suc render_fields)
qed

text \<open>
  \<open>pend\<close> is a decision whose write failed: the file is then the one of \<open>ds\<close> with part of the
  write. \<open>hs\<close> holds the digests that must not collide.
\<close>

inductive file_stands ::
  "(byte list \<Rightarrow> hash256) \<Rightarrow> signing_context \<Rightarrow> bytes32 \<Rightarrow> byte list set \<Rightarrow> decision list \<Rightarrow>
   decision option \<Rightarrow> byte list \<Rightarrow> bool"
  for blake2s ctx pk hs ds where
  whole: "renderable True rolled ds \<Longrightarrow>
    file_stands blake2s ctx pk hs ds None (jr_file (render blake2s ctx pk True rolled ds))"
| torn: "cut_off blake2s ctx pk True ds d f \<Longrightarrow> log_ok True (ds @ [d]) \<Longrightarrow> Suc (length ds) < 2 ^ 64 \<Longrightarrow>
    (MAX_JOURNAL_RECORDS \<le> length ds \<Longrightarrow> torn_slot_messages blake2s ctx pk ds d \<subseteq> hs) \<Longrightarrow>
    file_stands blake2s ctx pk hs ds (Some d) f"

inductive journal_stands ::
  "(byte list \<Rightarrow> hash256) \<Rightarrow> signing_context \<Rightarrow> bytes32 \<Rightarrow> byte list set \<Rightarrow> decision list \<Rightarrow>
   decision option \<Rightarrow> journal \<Rightarrow> bool"
  for blake2s ctx pk hs ds where
  clean: "renderable True rolled ds \<Longrightarrow>
    journal_stands blake2s ctx pk hs ds None (render blake2s ctx pk True rolled ds)"
| poisoned: "jr_poisoned j \<Longrightarrow> file_stands blake2s ctx pk hs ds (Some d) (jr_file j) \<Longrightarrow>
    journal_stands blake2s ctx pk hs ds (Some d) j"

inductive_cases journal_stands_None: "journal_stands blake2s ctx pk hs ds None j"
inductive_cases journal_stands_Some: "journal_stands blake2s ctx pk hs ds (Some d) j"

lemma file_stands_mono: "file_stands blake2s ctx pk hs ds pend f \<Longrightarrow> hs \<subseteq> hs' \<Longrightarrow> file_stands blake2s ctx pk hs' ds pend f"
  by (auto elim!: file_stands.cases intro: file_stands.intros)

lemma journal_stands_mono: "journal_stands blake2s ctx pk hs ds pend j \<Longrightarrow> hs \<subseteq> hs' \<Longrightarrow> journal_stands blake2s ctx pk hs' ds pend j"
  by (auto elim!: journal_stands.cases intro: journal_stands.intros file_stands_mono)

lemma journal_stands_file: "journal_stands blake2s ctx pk hs ds pend j \<Longrightarrow> file_stands blake2s ctx pk hs ds pend (jr_file j)"
  by (auto elim!: journal_stands.cases intro: file_stands.whole)

lemma journal_stands_log: "journal_stands blake2s ctx pk hs ds None j \<Longrightarrow>
    log_ok True ds \<and> jr_last j = log_last ds \<and> jr_safety j = log_safety ds \<and> jr_protected j \<and> \<not> jr_poisoned j"
  by (auto elim!: journal_stands_None simp: renderable_def)

text \<open>Reservation, seen from the log.\<close>

lemma reserve_stands:
  assumes j: "journal_stands blake2s ctx pk hs ds None j"
    and hs: "write_hashes blake2s pos msg s j \<subseteq> hs"
    and res: "reserve_protected blake2s io1 io2 pos msg s j = (r, j')"
  obtains (kept) e where "r = Err e" "j' = j"
  | (repeated) "r = Ok ()" "j' = j" "last_opt None ds = Some (pos, msg, Some s)"
  | (appended) "r = Ok ()" "journal_stands blake2s ctx pk hs (ds @ [(pos, msg, Some s)]) None j'"
      "log_ok True (ds @ [(pos, msg, Some s)])"
  | (failed) "r = Err DurabilityUnknown" "journal_stands blake2s ctx pk hs ds (Some (pos, msg, Some s)) j'"
      "log_ok True (ds @ [(pos, msg, Some s)])"
proof -
  let ?d = "(pos, msg, Some s)"
  obtain rolled where rr: "renderable True rolled ds" and jr: "j = render blake2s ctx pk True rolled ds"
    using j by (auto elim: journal_stands_None)
  have "reserved blake2s ctx pk True rolled ds ?d (r, j')"
    using reserve_entry_reserved [OF rr, of blake2s ctx pk pos msg "Some s" io1 io2] res
    by (simp add: reserve_protected_def jr)
  then show thesis
  proof cases
    case (refused e)
    then show thesis using kept jr by simp
  next
    case repeated
    then show thesis using that(2) jr by simp
  next
    case (appended rolled')
    then have "log_ok True (ds @ [?d])" by (simp add: renderable_def)
    with appended show thesis using that(3) journal_stands.clean by blast
  next
    case (failed f)
    have "torn_slot_messages blake2s ctx pk ds ?d \<subseteq> hs" if "MAX_JOURNAL_RECORDS \<le> length ds"
      using hs write_hashes_render [OF rr that] by (simp add: jr)
    with failed have "file_stands blake2s ctx pk hs ds (Some ?d) (jr_file j')"
      by (intro file_stands.torn) auto
    with failed show thesis using that(4) journal_stands.poisoned by blast
  qed
qed

lemma reserve_poisoned:
  "jr_poisoned j \<Longrightarrow> reserve_protected blake2s io1 io2 pos msg s j = (Err DurabilityUnknown, j)"
  by (simp add: reserve_protected_def reserve_entry_def)

text \<open>Restart, seen from the log.\<close>

lemma reopen_stands:
  assumes f: "file_stands blake2s ctx pk hs ds pend f" and inj: "inj_on blake2s hs"
    and opened: "journal_open blake2s True ctx pk f = Ok j"
  shows "\<exists>es. journal_stands blake2s ctx pk hs es None j \<and> (es = ds \<or> (\<exists>d. pend = Some d \<and> es = ds @ [d]))"
  using f
proof cases
  case (whole rolled)
  with opened journal_open_render [OF whole(3)] show ?thesis by (auto intro: journal_stands.clean)
next
  case (torn d)
  have "inj_on blake2s (torn_slot_messages blake2s ctx pk ds d)" if "MAX_JOURNAL_RECORDS \<le> length ds"
    using torn(5) [OF that] inj by (rule inj_on_subset [rotated])
  with journal_open_cut_off [OF torn(2-4) _ opened] obtain rolled es where
    "es = ds \<or> es = ds @ [d]" "renderable True rolled es" "j = render blake2s ctx pk True rolled es" by blast
  with torn(1) show ?thesis by (auto intro: journal_stands.clean)
qed

lemma create_render:
  assumes "create_mode blake2s io0 False ctx pk True = Ok j"
  shows "j = render blake2s ctx pk True False []"
  using assms by (cases io0) (auto simp: create_mode_def Let_def render_def fresh_journal_def header_parts
      journal_identity_def log_last_def log_safety_def write_at_def split: prod.splits)

lemma renderable_Nil: "renderable True False []"
  by (simp add: renderable_def log_ok_def)

lemma create_stands:
  assumes "create_mode blake2s io0 False ctx pk True = Ok j"
  shows "journal_stands blake2s ctx pk hs [] None j"
  unfolding create_render [OF assms] by (rule journal_stands.clean [OF renderable_Nil])

section \<open>Signing, seen from the log\<close>

text \<open>One attempt to reserve \<open>d\<close>: the log keeps, grows by \<open>d\<close>, or is left with \<open>d\<close> pending.\<close>

inductive attempt :: "decision \<Rightarrow> decision list \<times> decision option \<Rightarrow> decision list \<times> decision option \<Rightarrow> bool"
  for d where
  keep: "attempt d (ds, pend) (ds, pend)"
| grow: "log_ok True (ds @ [d]) \<Longrightarrow> attempt d (ds, None) (ds @ [d], None)"
| fail: "log_ok True (ds @ [d]) \<Longrightarrow> attempt d (ds, None) (ds, Some d)"

lemma witness_journal [simp]:
  "sg_journal (snd (witness_decision blake2s io0 sg)) = sg_journal sg"
  "sg_seed (snd (witness_decision blake2s io0 sg)) = sg_seed sg"
  "sg_public_key (snd (witness_decision blake2s io0 sg)) = sg_public_key sg"
  "sg_validator (snd (witness_decision blake2s io0 sg)) = sg_validator sg"
  "sg_handle (snd (witness_decision blake2s io0 sg)) = sg_handle sg"
  "sg_context (snd (witness_decision blake2s io0 sg)) = sg_context sg"
  by (auto simp: witness_decision_def split: option.splits prod.splits)

lemma sign_with_fields:
  assumes "sign_with blake2s ed io0 res handle msg sg = (r, sg')"
  shows "sg_seed sg' = sg_seed sg" "sg_public_key sg' = sg_public_key sg" "sg_validator sg' = sg_validator sg"
    "sg_handle sg' = sg_handle sg" "sg_context sg' = sg_context sg"
    "sg_journal sg' = sg_journal sg \<or> sg_journal sg' = snd (res (sg_journal sg))"
    "r = Ok sig \<Longrightarrow> fst (res (sg_journal sg)) = Ok () \<and> sg_journal sg' = snd (res (sg_journal sg))
       \<and> sig = ed25519_sign ed (sg_seed sg) (be_bytes msg)"
proof -
  obtain x j where res: "res (sg_journal sg) = (x, j)" by (cases "res (sg_journal sg)")
  obtain y sg1 where wit: "witness_decision blake2s io0 (sg\<lparr>sg_journal := j\<rparr>) = (y, sg1)"
    by (cases "witness_decision blake2s io0 (sg\<lparr>sg_journal := j\<rparr>)")
  have sg1: "sg_seed sg1 = sg_seed sg" "sg_public_key sg1 = sg_public_key sg" "sg_validator sg1 = sg_validator sg"
    "sg_handle sg1 = sg_handle sg" "sg_context sg1 = sg_context sg" "sg_journal sg1 = j"
    using witness_journal [of blake2s io0 "sg\<lparr>sg_journal := j\<rparr>"] by (simp_all add: wit)
  note def = assms [unfolded sign_with_def res wit prod.case]
  show "sg_seed sg' = sg_seed sg" "sg_public_key sg' = sg_public_key sg" "sg_validator sg' = sg_validator sg"
    "sg_handle sg' = sg_handle sg" "sg_context sg' = sg_context sg"
    "sg_journal sg' = sg_journal sg \<or> sg_journal sg' = snd (res (sg_journal sg))"
    "r = Ok sig \<Longrightarrow> fst (res (sg_journal sg)) = Ok () \<and> sg_journal sg' = snd (res (sg_journal sg))
       \<and> sig = ed25519_sign ed (sg_seed sg) (be_bytes msg)"
    using def sg1 by (auto simp: res split: sum.splits)
qed

lemma sign_protected_stands:
  assumes j: "journal_stands blake2s ctx pk hs ds pend (sg_journal sg)"
    and hs: "write_hashes blake2s pos msg s (sg_journal sg) \<subseteq> hs"
    and sign: "sign_protected blake2s ed ios handle pos msg s sg = (r, sg')"
  shows "\<exists>es pend'. journal_stands blake2s ctx pk hs es pend' (sg_journal sg')
    \<and> attempt (pos, msg, Some s) (ds, pend) (es, pend')
    \<and> (\<forall>sig. r = Ok sig \<longrightarrow> pend' = None \<and> (pos, msg, Some s) \<in> set es)"
proof -
  let ?res = "reserve_protected blake2s (si_activate ios) (si_write ios) pos msg s" and ?d = "(pos, msg, Some s)"
  obtain x j' where res: "?res (sg_journal sg) = (x, j')" by (cases "?res (sg_journal sg)")
  note fields = sign_with_fields [OF sign [unfolded sign_protected_def], unfolded res fst_conv snd_conv]
  show ?thesis
  proof (cases pend)
    case (Some d)
    then have "jr_poisoned (sg_journal sg)" using j by (auto elim: journal_stands_Some)
    then have "x = Err DurabilityUnknown" "j' = sg_journal sg" using res reserve_poisoned by simp_all
    with fields j show ?thesis by (auto intro!: exI [of _ ds] exI [of _ pend] attempt.keep)
  next
    case None
    note stands = j [unfolded None]
    show ?thesis
      using stands hs res
    proof (cases rule: reserve_stands)
      case (kept e)
      with fields stands None show ?thesis by (auto intro!: exI [of _ ds] exI [of _ None] attempt.keep)
    next
      case repeated
      then have "?d \<in> set ds" by (metis last_in_set last_opt_None option.distinct(1) option.inject)
      with repeated fields stands None show ?thesis
        by (auto intro!: exI [of _ ds] exI [of _ None] attempt.keep)
    next
      case appended
      show ?thesis
      proof (cases "sg_journal sg' = j'")
        case True
        with appended None show ?thesis by (auto intro!: exI [of _ "ds @ [?d]"] exI [of _ None] attempt.grow)
      next
        case False
        then have "sg_journal sg' = sg_journal sg" "\<nexists>sig. r = Ok sig" using fields(6,7) by auto
        with stands None show ?thesis by (auto intro!: exI [of _ ds] exI [of _ None] attempt.keep)
      qed
    next
      case failed
      show ?thesis
      proof (cases "sg_journal sg' = j'")
        case True
        with failed fields(7) None show ?thesis
          by (auto intro!: exI [of _ ds] exI [of _ "Some ?d"] attempt.fail)
      next
        case False
        then have "sg_journal sg' = sg_journal sg" using fields(6) by auto
        with stands None failed fields(7) show ?thesis by (auto intro!: exI [of _ ds] exI [of _ None] attempt.keep)
      qed
    qed
  qed
qed

section \<open>A signer over its whole life\<close>

text \<open>
  The state of one validator key: running, or down with its journal file and anchor file. The
  relation also collects what was released and the digests that half-written slots depend on.
\<close>

datatype signer_state = Up durable_signer | Down "byte list" "byte list option"

definition signer_files :: "durable_signer \<Rightarrow> signer_state" where
  "signer_files sg = Down (jr_file (sg_journal sg)) (map_option an_file (sg_anchor sg))"

inductive signer_run ::
  "(byte list \<Rightarrow> hash256) \<Rightarrow> ed25519 \<Rightarrow> signing_context \<Rightarrow> bytes32 \<Rightarrow>
   (signing_position \<times> hash256) set \<Rightarrow> byte list set \<Rightarrow> signer_state \<Rightarrow> bool"
  for blake2s ed ctx seed where
  provision: "signer_create_protected blake2s ed io_write False ctx seed = Ok sg \<Longrightarrow>
    signer_run blake2s ed ctx seed {} {} (Up sg)"
| sign: "signer_run blake2s ed ctx seed rel hs (Up sg) \<Longrightarrow>
    sign_protected blake2s ed ios handle pos msg s sg = (Ok sig, sg') \<Longrightarrow>
    signer_run blake2s ed ctx seed (insert (pos, msg) rel)
      (hs \<union> write_hashes blake2s pos msg s (sg_journal sg)) (Up sg')"
| refuse: "signer_run blake2s ed ctx seed rel hs (Up sg) \<Longrightarrow>
    sign_protected blake2s ed ios handle pos msg s sg = (Err e, sg') \<Longrightarrow>
    signer_run blake2s ed ctx seed rel (hs \<union> write_hashes blake2s pos msg s (sg_journal sg)) (Up sg')"
| crash: "signer_run blake2s ed ctx seed rel hs (Up sg) \<Longrightarrow>
    signer_run blake2s ed ctx seed rel hs (signer_files sg)"
| restart: "signer_run blake2s ed ctx seed rel hs (Down f a) \<Longrightarrow>
    signer_open blake2s ed True ctx seed f = Ok sg \<Longrightarrow> signer_run blake2s ed ctx seed rel hs (Up sg)"
| pair: "signer_run blake2s ed ctx seed rel hs (Down f a) \<Longrightarrow>
    signer_create_anchor blake2s ed True io_write False ctx seed f = Ok sg \<Longrightarrow>
    signer_run blake2s ed ctx seed rel hs (Up sg)"
| restart_anchor: "signer_run blake2s ed ctx seed rel hs (Down f a) \<Longrightarrow>
    signer_open_with_anchor blake2s ed True True io_write ctx seed f f' = Ok sg \<Longrightarrow>
    signer_run blake2s ed ctx seed rel hs (Up sg)"

text \<open>Opening in any of the three ways goes through the journal of the same file.\<close>

lemma signer_open_journal:
  "signer_open blake2s ed sync_ok ctx seed f = Ok sg \<Longrightarrow>
     journal_open blake2s sync_ok ctx (sk_public ed seed) f = Ok (sg_journal sg) \<and> sg_anchor sg = None
     \<and> sg_seed sg = seed \<and> sg_public_key sg = sk_public ed seed \<and> sg_context sg = ctx
     \<and> sg_validator sg = blake2s (be_bytes (sk_public ed seed))
     \<and> sg_handle sg = \<lparr>kh_id = hash_to_string (sg_validator sg), kh_purpose = ConsensusKey\<rparr>"
  by (auto simp: signer_open_def signer_initialize_def Let_def ed25519_public_key_def result_simps split: if_splits)

lemma signer_create_anchor_open:
  "signer_create_anchor blake2s ed sync_ok io_write ex ctx seed f = Ok sg \<Longrightarrow>
     \<exists>sg0 a. signer_open blake2s ed sync_ok ctx seed f = Ok sg0 \<and> sg = sg0\<lparr>sg_anchor := Some a\<rparr>"
  by (auto simp: signer_create_anchor_def result_simps)

lemma signer_open_with_anchor_open:
  "signer_open_with_anchor blake2s ed sync_ok sync2 io_write ctx seed f f' = Ok sg \<Longrightarrow>
     \<exists>sg0 s0 a. signer_open blake2s ed sync_ok ctx seed f = Ok sg0 \<and> sg = sg0\<lparr>sg_anchor := Some a\<rparr>
       \<and> anchor_open blake2s sync2 ctx (sg_public_key sg0) (jr_identity (sg_journal sg0)) f' = Ok s0
       \<and> anchor_reconcile blake2s io_write (journal_state_of (sg_journal sg0)) (jr_previous (sg_journal sg0)) s0
         = (Ok (), a)"
proof -
  assume "signer_open_with_anchor blake2s ed sync_ok sync2 io_write ctx seed f f' = Ok sg"
  then obtain sg0 s0 where open0: "signer_open blake2s ed sync_ok ctx seed f = Ok sg0"
    "anchor_open blake2s sync2 ctx (sg_public_key sg0) (jr_identity (sg_journal sg0)) f' = Ok s0"
    and res: "(case anchor_reconcile blake2s io_write (journal_state_of (sg_journal sg0))
        (jr_previous (sg_journal sg0)) s0 of
       (Inl e, _) \<Rightarrow> Err e | (Inr _, store) \<Rightarrow> Ok (sg0\<lparr>sg_anchor := Some store\<rparr>)) = Ok sg"
    unfolding signer_open_with_anchor_def try_bind_Ok by blast
  obtain r a where rec: "anchor_reconcile blake2s io_write (journal_state_of (sg_journal sg0))
      (jr_previous (sg_journal sg0)) s0 = (r, a)" by fastforce
  with res have "r = Ok ()" "sg = sg0\<lparr>sg_anchor := Some a\<rparr>" by (cases r; simp)+
  with open0 rec show ?thesis by blast
qed

definition state_stands ::
  "(byte list \<Rightarrow> hash256) \<Rightarrow> signing_context \<Rightarrow> bytes32 \<Rightarrow> byte list set \<Rightarrow> decision list \<Rightarrow>
   decision option \<Rightarrow> signer_state \<Rightarrow> bool" where
  "state_stands blake2s ctx pk hs ds pend st =
     (case st of Up sg \<Rightarrow> journal_stands blake2s ctx pk hs ds pend (sg_journal sg)
      | Down f a \<Rightarrow> file_stands blake2s ctx pk hs ds pend f)"

lemma reopened_stands:
  assumes IH: "inj_on blake2s hs \<Longrightarrow> \<exists>ds pend. state_stands blake2s ctx pk hs ds pend (Down f a) \<and> log_ok True ds
      \<and> rel \<subseteq> (\<lambda>d. (dec_pos d, dec_msg d)) ` set ds"
    and inj: "inj_on blake2s hs" and opened: "journal_open blake2s True ctx pk f = Ok (sg_journal sg)"
  shows "\<exists>ds pend. state_stands blake2s ctx pk hs ds pend (Up sg) \<and> log_ok True ds
      \<and> rel \<subseteq> (\<lambda>d. (dec_pos d, dec_msg d)) ` set ds"
proof -
  obtain ds pend where "file_stands blake2s ctx pk hs ds pend f"
    and rel: "rel \<subseteq> (\<lambda>d. (dec_pos d, dec_msg d)) ` set ds"
    using IH [OF inj] by (auto simp: state_stands_def)
  from reopen_stands [OF this(1) inj opened] obtain es where
    es: "journal_stands blake2s ctx pk hs es None (sg_journal sg)" and "set ds \<subseteq> set es"
    by (metis set_append sup_ge1 subset_refl)
  moreover have "log_ok True es" using journal_stands_log [OF es] by blast
  ultimately show ?thesis using rel by (auto simp: state_stands_def) blast
qed

lemma signer_run_stands:
  assumes "signer_run blake2s ed ctx seed rel hs st" and "inj_on blake2s hs"
  shows "\<exists>ds pend. state_stands blake2s ctx (sk_public ed seed) hs ds pend st \<and> log_ok True ds
    \<and> rel \<subseteq> (\<lambda>d. (dec_pos d, dec_msg d)) ` set ds"
  using assms
proof induction
  case (provision io_write sg)
  then have "create_mode blake2s io_write False ctx (sk_public ed seed) True = Ok (sg_journal sg)"
    by (auto simp: signer_create_protected_def signer_initialize_def Let_def ed25519_public_key_def
        result_simps split: if_splits)
  from create_stands [OF this] show ?case
    by (auto simp: state_stands_def log_ok_def intro!: exI [of _ "[]"])
next
  case (sign rel hs sg ios handle pos msg s sig sg')
  let ?hs = "hs \<union> write_hashes blake2s pos msg s (sg_journal sg)" and ?d = "(pos, msg, Some s)"
  have "inj_on blake2s hs" using sign.prems by (rule inj_on_subset) blast
  with sign.IH obtain ds pend where
    j: "journal_stands blake2s ctx (sk_public ed seed) hs ds pend (sg_journal sg)"
    and ds: "log_ok True ds" "rel \<subseteq> (\<lambda>d. (dec_pos d, dec_msg d)) ` set ds"
    by (auto simp: state_stands_def)
  from sign_protected_stands [OF journal_stands_mono [OF j, of ?hs] _ sign(2)] obtain es pend' where
    "journal_stands blake2s ctx (sk_public ed seed) ?hs es pend' (sg_journal sg')"
    and step: "attempt ?d (ds, pend) (es, pend')" and mem: "?d \<in> set es" by auto
  moreover have "log_ok True es" "set ds \<subseteq> set es" using step ds(1) by (auto elim: attempt.cases)
  moreover have "insert (pos, msg) rel \<subseteq> (\<lambda>d. (dec_pos d, dec_msg d)) ` set es"
    using ds(2) mem \<open>set ds \<subseteq> set es\<close> by (auto simp: image_iff) force
  ultimately show ?case by (auto simp: state_stands_def)
next
  case (refuse rel hs sg ios handle pos msg s e sg')
  let ?hs = "hs \<union> write_hashes blake2s pos msg s (sg_journal sg)" and ?d = "(pos, msg, Some s)"
  have "inj_on blake2s hs" using refuse.prems by (rule inj_on_subset) blast
  with refuse.IH obtain ds pend where
    j: "journal_stands blake2s ctx (sk_public ed seed) hs ds pend (sg_journal sg)"
    and ds: "log_ok True ds" "rel \<subseteq> (\<lambda>d. (dec_pos d, dec_msg d)) ` set ds"
    by (auto simp: state_stands_def)
  from sign_protected_stands [OF journal_stands_mono [OF j, of ?hs] _ refuse(2)] obtain es pend' where
    "journal_stands blake2s ctx (sk_public ed seed) ?hs es pend' (sg_journal sg')"
    and step: "attempt ?d (ds, pend) (es, pend')" by auto
  moreover have "log_ok True es" "set ds \<subseteq> set es" using step ds(1) by (auto elim: attempt.cases)
  ultimately show ?case using ds(2) by (auto simp: state_stands_def) blast
next
  case (crash rel hs sg)
  then obtain ds pend where
    j: "journal_stands blake2s ctx (sk_public ed seed) hs ds pend (sg_journal sg)"
    and ds: "log_ok True ds" "rel \<subseteq> (\<lambda>d. (dec_pos d, dec_msg d)) ` set ds"
    by (auto simp: state_stands_def)
  with journal_stands_file [OF j] show ?case by (auto simp: state_stands_def signer_files_def)
next
  case (restart rel hs f a sg)
  then show ?case using signer_open_journal [OF restart(2)] by (intro reopened_stands) auto
next
  case (pair rel hs f a io_write sg)
  then show ?case using signer_create_anchor_open [OF pair(2)] signer_open_journal
    by (intro reopened_stands) fastforce+
next
  case (restart_anchor rel hs f a io_write f' sg)
  then show ?case using signer_open_with_anchor_open [OF restart_anchor(2)] signer_open_journal
    by (intro reopened_stands) fastforce+
qed

theorem signer_no_equivocation:
  assumes "signer_run blake2s ed ctx seed rel hs st" and "inj_on blake2s hs"
    and "(pos, msg) \<in> rel" "(pos, msg') \<in> rel"
  shows "msg = msg'"
proof -
  obtain ds where ok: "log_ok True ds" and rel: "rel \<subseteq> (\<lambda>d. (dec_pos d, dec_msg d)) ` set ds"
    using signer_run_stands [OF assms(1,2)] by blast
  have "distinct (map dec_pos ds)" using log_ok_sorted [OF ok] by (simp add: strict_sorted_iff)
  moreover obtain d where d: "d \<in> set ds" "(pos, msg) = (dec_pos d, dec_msg d)" using rel assms(3) by blast
  moreover obtain d' where d': "d' \<in> set ds" "(pos, msg') = (dec_pos d', dec_msg d')" using rel assms(4) by blast
  ultimately have "d = d'" by (metis distinct_map inj_onD prod.inject)
  with d d' show ?thesis by simp
qed

section \<open>The anchor against a restored journal\<close>

lemma log_state_wf:
  assumes "log_ok True ds" and "length ds < 2 ^ 64"
  shows "state_wf (log_state blake2s ident ds)"
proof (cases "ds = []")
  case True
  then show ?thesis by (simp add: state_wf_def log_state_def)
next
  case False
  then have l: "last_opt None ds = Some (last ds)" by (simp add: last_opt_None)
  have "pos_phase (dec_pos (last ds)) \<le> PRECOMMIT_PHASE" using log_ok_phase [OF assms(1), of "last ds"] False by simp
  moreover have "0 < (of_nat (length ds) :: u64)"
    using False assms(2) by (simp add: word_less_nat_alt unat_u64_nat)
  ultimately show ?thesis by (simp add: state_wf_def log_state_def l)
qed

lemma log_state_next:
  assumes "log_ok True ds" and "ds \<noteq> []"
  shows "js_position (log_state blake2s ident (butlast ds)) < js_position (log_state blake2s ident ds)"
proof -
  obtain es d where ds: "ds = es @ [d]" using assms(2) by (metis append_butlast_last_id)
  have "follows True (last_opt None es) d" using assms(1) by (simp add: ds log_ok_def log_from_append)
  then show ?thesis by (cases "last_opt None es") (simp_all add: ds log_state_def follows_def)
qed

text \<open>
  An anchor that witnessed more decisions than the journal holds stops the signer; an accepted
  pair agrees, or the journal is exactly one decision ahead and the anchor catches up.
\<close>

lemma anchor_reconcile_log:
  fixes blake2s :: "byte list \<Rightarrow> hash256" and ident :: hash256
  defines "at \<equiv> \<lambda>ds. log_state blake2s ident ds"
  assumes ok: "log_ok True ds" "length ds < 2 ^ 64" and pair: "pair_ok a b"
    and rec: "anchor_reconcile blake2s IoOk (at ds) (if ds = [] then None else Some (at (butlast ds)))
      (anchor_of blake2s ctx pk ident a b) = (r, st)"
  shows "js_sequence (slots_latest a b) > of_nat (length ds) \<Longrightarrow> r = Err StalePosition"
    and "r = Ok () \<Longrightarrow> (slots_latest a b = at ds \<or> ds \<noteq> [] \<and> slots_latest a b = at (butlast ds))
      \<and> (\<exists>a' b'. pair_ok a' b' \<and> st = anchor_of blake2s ctx pk ident a' b' \<and> slots_latest a' b' = at ds)"
proof -
  have seq: "js_sequence (at ds) = of_nat (length ds)" by (simp add: at_def log_state_def)
  show "r = Err StalePosition" if "js_sequence (slots_latest a b) > of_nat (length ds)"
    using rec that by (simp add: anchor_reconcile_def Let_def seq)
  assume Ok: "r = Ok ()"
  show "(slots_latest a b = at ds \<or> ds \<noteq> [] \<and> slots_latest a b = at (butlast ds))
      \<and> (\<exists>a' b'. pair_ok a' b' \<and> st = anchor_of blake2s ctx pk ident a' b' \<and> slots_latest a' b' = at ds)"
  proof (cases "slots_latest a b = at ds")
    case True
    then have "st = anchor_of blake2s ctx pk ident a b" using rec by (simp add: anchor_reconcile_def Let_def)
    with True pair show ?thesis by blast
  next
    case False
    then have ne: "ds \<noteq> []" and prev: "slots_latest a b = at (butlast ds)"
      and succ: "checked_add (js_sequence (slots_latest a b)) 1 = Some (js_sequence (at ds))"
      and commit: "anchor_commit blake2s IoOk (at ds) (anchor_of blake2s ctx pk ident a b) = (r, st)"
      using rec Ok by (auto simp: anchor_reconcile_def Let_def split: if_splits)
    obtain a' b' where s: "stored_slots (at ds) a b = (a', b')" by fastforce
    have pos: "js_position (slots_latest a b) < js_position (at ds)"
      using log_state_next [OF ok(1) ne] prev by (simp add: at_def)
    have wf: "state_wf (at ds)" using log_state_wf [OF ok] by (simp add: at_def)
    show ?thesis
      using ne prev commit anchor_commit_stored [OF pair wf succ pos s, of blake2s ctx pk ident]
        pair_ok_stored [OF pair wf succ pos s] by auto
  qed
qed

theorem open_with_anchor_log:
  fixes blake2s :: "byte list \<Rightarrow> hash256" and ed :: ed25519 and ctx :: signing_context and seed :: bytes32
  defines "pk \<equiv> sk_public ed seed"
  defines "ident \<equiv> journal_identity blake2s ctx pk True"
  defines "at \<equiv> \<lambda>ds. log_state blake2s ident ds"
  assumes r: "renderable True rolled ds" and pair: "pair_ok a b" and gen: "ctx_genesis ctx \<noteq> 0"
  shows "js_sequence (slots_latest a b) > of_nat (length ds) \<Longrightarrow>
      signer_open_with_anchor blake2s ed True True IoOk ctx seed (jr_file (render blake2s ctx pk True rolled ds))
        (an_file (anchor_of blake2s ctx pk ident a b)) = Err StalePosition"
    and "signer_open_with_anchor blake2s ed True True IoOk ctx seed (jr_file (render blake2s ctx pk True rolled ds))
        (an_file (anchor_of blake2s ctx pk ident a b)) = Ok sg \<Longrightarrow>
      (slots_latest a b = at ds \<or> ds \<noteq> [] \<and> slots_latest a b = at (butlast ds))
      \<and> (\<exists>a' b'. pair_ok a' b' \<and> sg_anchor sg = Some (anchor_of blake2s ctx pk ident a' b')
          \<and> slots_latest a' b' = at ds)"
proof -
  let ?j = "render blake2s ctx pk True rolled ds"
  have ok: "log_ok True ds" "length ds < 2 ^ 64" using r by (simp_all add: renderable_def)
  define sg0 where "sg0 = \<lparr>sg_seed = seed, sg_public_key = pk, sg_validator = blake2s (be_bytes pk),
    sg_handle = \<lparr>kh_id = hash_to_string (blake2s (be_bytes pk)), kh_purpose = ConsensusKey\<rparr>,
    sg_context = ctx, sg_journal = ?j, sg_anchor = None\<rparr>"
  have opened: "signer_open blake2s ed True ctx seed (jr_file ?j) = Ok sg0"
    using gen journal_open_render [OF r, of blake2s ctx pk]
    by (simp add: signer_open_def signer_initialize_def Let_def ed25519_public_key_def sg0_def flip: pk_def)
  have store: "anchor_open blake2s True ctx (sg_public_key sg0) (jr_identity (sg_journal sg0))
      (an_file (anchor_of blake2s ctx pk ident a b)) = Ok (anchor_of blake2s ctx pk ident a b)"
    using anchor_open_stored [OF pair, of blake2s ctx pk ident] by (simp add: sg0_def ident_def)
  have states: "journal_state_of (sg_journal sg0) = at ds"
    "jr_previous (sg_journal sg0) = (if ds = [] then None else Some (at (butlast ds)))"
    by (simp_all add: sg0_def at_def ident_def journal_state_render) (simp add: render_def Let_def)
  obtain res st where rec: "anchor_reconcile blake2s IoOk (at ds) (if ds = [] then None else Some (at (butlast ds)))
      (anchor_of blake2s ctx pk ident a b) = (res, st)" by fastforce
  have total: "signer_open_with_anchor blake2s ed True True IoOk ctx seed (jr_file ?j)
      (an_file (anchor_of blake2s ctx pk ident a b))
    = (case res of Inl e \<Rightarrow> Err e | Inr _ \<Rightarrow> Ok (sg0\<lparr>sg_anchor := Some st\<rparr>))"
    unfolding signer_open_with_anchor_def opened try_bind.simps store states rec by (simp split: sum.split)
  note log = anchor_reconcile_log [OF ok pair rec [unfolded at_def], folded at_def]
  show "js_sequence (slots_latest a b) > of_nat (length ds) \<Longrightarrow>
      signer_open_with_anchor blake2s ed True True IoOk ctx seed (jr_file ?j)
        (an_file (anchor_of blake2s ctx pk ident a b)) = Err StalePosition"
    using log(1) total by simp
  assume sg: "signer_open_with_anchor blake2s ed True True IoOk ctx seed (jr_file ?j)
        (an_file (anchor_of blake2s ctx pk ident a b)) = Ok sg"
  then have "res = Ok ()" "sg = sg0\<lparr>sg_anchor := Some st\<rparr>" unfolding total by (cases res; simp)+
  with log(2) show "(slots_latest a b = at ds \<or> ds \<noteq> [] \<and> slots_latest a b = at (butlast ds))
      \<and> (\<exists>a' b'. pair_ok a' b' \<and> sg_anchor sg = Some (anchor_of blake2s ctx pk ident a' b')
          \<and> slots_latest a' b' = at ds)" by auto
qed

section \<open>Signers that have been created or opened\<close>

text \<open>The anchor, if there is one, holds the last decision of the log.\<close>

definition anchor_follows ::
  "(byte list \<Rightarrow> hash256) \<Rightarrow> signing_context \<Rightarrow> bytes32 \<Rightarrow> decision list \<Rightarrow> anchor_store option \<Rightarrow> bool" where
  "anchor_follows blake2s ctx pk ds anchor =
     (case anchor of
        None \<Rightarrow> True
      | Some an \<Rightarrow> \<exists>a b. pair_ok a b \<and> an = anchor_of blake2s ctx pk (journal_identity blake2s ctx pk True) a b
          \<and> slots_latest a b = log_state blake2s (journal_identity blake2s ctx pk True) ds)"

lemma anchor_followsI:
  "pair_ok a b \<Longrightarrow> slots_latest a b = log_state blake2s (journal_identity blake2s ctx pk True) ds
   \<Longrightarrow> anchor_follows blake2s ctx pk ds (Some (anchor_of blake2s ctx pk (journal_identity blake2s ctx pk True) a b))"
  by (auto simp: anchor_follows_def)

lemma pair_ok_same: "state_wf a \<Longrightarrow> pair_ok a a \<and> slots_latest a a = a"
  by (simp add: pair_ok_def slots_check_def slots_latest_def)

lemma anchor_commit_follows:
  assumes an: "anchor_follows blake2s ctx pk ds (Some an)" and log: "log_ok True (ds @ [d])" and n: "Suc (length ds) < 2 ^ 64"
  shows "\<exists>an'. anchor_commit blake2s IoOk (log_state blake2s (journal_identity blake2s ctx pk True) (ds @ [d])) an = (Ok (), an')
    \<and> anchor_follows blake2s ctx pk (ds @ [d]) (Some an')"
proof -
  let ?at = "log_state blake2s (journal_identity blake2s ctx pk True)"
  obtain a b where ab: "pair_ok a b" "an = anchor_of blake2s ctx pk (journal_identity blake2s ctx pk True) a b" "slots_latest a b = ?at ds"
    using an by (auto simp: anchor_follows_def)
  have succ: "checked_add (js_sequence (slots_latest a b)) 1 = Some (js_sequence (?at (ds @ [d])))"
    using n by (simp add: ab(3) log_state_def checked_add_def unat_u64_nat)
  have pos: "js_position (slots_latest a b) < js_position (?at (ds @ [d]))"
    using log_state_next [OF log, of blake2s "journal_identity blake2s ctx pk True"] by (simp add: ab(3))
  have wf: "state_wf (?at (ds @ [d]))" using n by (intro log_state_wf [OF log]) simp
  obtain a' b' where s: "stored_slots (?at (ds @ [d])) a b = (a', b')" by fastforce
  show ?thesis
    using anchor_commit_stored [OF ab(1) wf succ pos s, of blake2s ctx pk "journal_identity blake2s ctx pk True"]
      pair_ok_stored [OF ab(1) wf succ pos s]
    by (auto simp: ab(2) anchor_follows_def)
qed

text \<open>
  How a signer comes into use: provisioned with a new journal, or opened on the journal of a log, without an anchor, with a
  new one, or with the anchor file \<open>f'\<close>.
\<close>

definition signer_started :: "(byte list \<Rightarrow> hash256) \<Rightarrow> ed25519 \<Rightarrow> signing_context \<Rightarrow> bytes32 \<Rightarrow> decision list \<Rightarrow> durable_signer \<Rightarrow> bool" where
  "signer_started blake2s ed ctx seed ds sg \<longleftrightarrow>
     (\<exists>io_write. ds = [] \<and> signer_create_protected blake2s ed io_write False ctx seed = Ok sg)
     \<or> (\<exists>rolled f. renderable True rolled ds \<and> f = jr_file (render blake2s ctx (sk_public ed seed) True rolled ds)
         \<and> (signer_open blake2s ed True ctx seed f = Ok sg
            \<or> (\<exists>io_write. signer_create_anchor blake2s ed True io_write False ctx seed f = Ok sg)
            \<or> (\<exists>io_write f'. signer_open_with_anchor blake2s ed True True io_write ctx seed f f' = Ok sg)))"

lemma anchor_create_io:
  "anchor_create blake2s io_write ex ctx pk ident st = Ok s \<Longrightarrow> s = anchor_of blake2s ctx pk ident st st"
  using anchor_create_Ok [of blake2s ctx pk ident st]
  by (cases io_write) (auto simp: anchor_create_def Let_def split: if_splits prod.splits)

lemma signer_started_current:
  fixes blake2s :: "byte list \<Rightarrow> hash256" and ed :: ed25519 and ctx :: signing_context and seed :: bytes32
  defines "pk \<equiv> sk_public ed seed"
  assumes "signer_started blake2s ed ctx seed ds sg"
  shows "\<exists>rolled. renderable True rolled ds \<and> sg_journal sg = render blake2s ctx pk True rolled ds
    \<and> anchor_follows blake2s ctx pk ds (sg_anchor sg)"
proof -
  let ?id = "journal_identity blake2s ctx pk True"
  consider (create) io_write where "ds = []" "signer_create_protected blake2s ed io_write False ctx seed = Ok sg"
    | (plain) rolled where "renderable True rolled ds"
        "signer_open blake2s ed True ctx seed (jr_file (render blake2s ctx pk True rolled ds)) = Ok sg"
    | (fresh) rolled io_write where "renderable True rolled ds"
        "signer_create_anchor blake2s ed True io_write False ctx seed (jr_file (render blake2s ctx pk True rolled ds)) = Ok sg"
    | (anchored) rolled io_write f' where "renderable True rolled ds"
        "signer_open_with_anchor blake2s ed True True io_write ctx seed (jr_file (render blake2s ctx pk True rolled ds)) f' = Ok sg"
    using assms(2) unfolding signer_started_def pk_def by blast
  then show ?thesis
  proof cases
    case create
    then have "create_mode blake2s io_write False ctx pk True = Ok (sg_journal sg)" "sg_anchor sg = None"
      by (auto simp: signer_create_protected_def signer_initialize_def Let_def ed25519_public_key_def result_simps pk_def split: if_splits)
    then show ?thesis using create(1) renderable_Nil create_render by (auto simp: anchor_follows_def)
  next
    case plain
    have "sg_journal sg = render blake2s ctx pk True rolled ds" "sg_anchor sg = None"
      using signer_open_journal [OF plain(2), folded pk_def] journal_open_render [OF plain(1), of blake2s ctx pk] by simp_all
    with plain(1) show ?thesis by (auto simp: anchor_follows_def)
  next
    case fresh
    obtain sg0 an where sg0: "signer_open blake2s ed True ctx seed (jr_file (render blake2s ctx pk True rolled ds)) = Ok sg0"
      "anchor_create blake2s io_write False ctx (sg_public_key sg0) (jr_identity (sg_journal sg0)) (journal_state_of (sg_journal sg0)) = Ok an"
      "sg = sg0\<lparr>sg_anchor := Some an\<rparr>"
      using fresh(2) by (auto simp: signer_create_anchor_def result_simps)
    have j: "sg_journal sg0 = render blake2s ctx pk True rolled ds" "sg_public_key sg0 = pk"
      using signer_open_journal [OF sg0(1), folded pk_def] journal_open_render [OF fresh(1), of blake2s ctx pk] by simp_all
    have an: "an = anchor_of blake2s ctx pk ?id (log_state blake2s ?id ds) (log_state blake2s ?id ds)"
      using anchor_create_io [OF sg0(2)] by (simp add: j journal_state_render)
    have "state_wf (log_state blake2s ?id ds)" using fresh(1) by (intro log_state_wf) (simp_all add: renderable_def)
    then have "anchor_follows blake2s ctx pk ds (Some an)" unfolding an by (intro anchor_followsI) (simp_all add: pair_ok_same)
    moreover have "sg_journal sg = render blake2s ctx pk True rolled ds" "sg_anchor sg = Some an" by (simp_all add: sg0(3) j(1))
    ultimately show ?thesis using fresh(1) by metis
  next
    case anchored
    obtain sg0 s0 an where sg0: "signer_open blake2s ed True ctx seed (jr_file (render blake2s ctx pk True rolled ds)) = Ok sg0"
      "sg = sg0\<lparr>sg_anchor := Some an\<rparr>"
      "anchor_open blake2s True ctx (sg_public_key sg0) (jr_identity (sg_journal sg0)) f' = Ok s0"
      "anchor_reconcile blake2s io_write (journal_state_of (sg_journal sg0)) (jr_previous (sg_journal sg0)) s0 = (Ok (), an)"
      using signer_open_with_anchor_open [OF anchored(2)] by blast
    have j: "sg_journal sg0 = render blake2s ctx pk True rolled ds" "sg_public_key sg0 = pk"
      using signer_open_journal [OF sg0(1), folded pk_def] journal_open_render [OF anchored(1), of blake2s ctx pk] by simp_all
    obtain a b where ab: "pair_ok a b" "s0 = anchor_of blake2s ctx pk ?id a b"
      using anchor_open_sound [OF sg0(3)] by (auto simp: j)
    have states: "journal_state_of (sg_journal sg0) = log_state blake2s ?id ds"
      "jr_previous (sg_journal sg0) = (if ds = [] then None else Some (log_state blake2s ?id (butlast ds)))"
      by (simp_all add: j journal_state_render) (simp add: render_def Let_def)
    have ok: "log_ok True ds" "length ds < 2 ^ 64" using anchored(1) by (simp_all add: renderable_def)
    have "anchor_reconcile blake2s IoOk (log_state blake2s ?id ds) (if ds = [] then None else Some (log_state blake2s ?id (butlast ds)))
        (anchor_of blake2s ctx pk ?id a b) = (Ok (), an)"
      using anchor_reconcile_io [OF sg0(4)] unfolding states ab(2) .
    from anchor_reconcile_log(2) [OF ok ab(1) this refl] have "anchor_follows blake2s ctx pk ds (Some an)"
      by (auto intro: anchor_followsI)
    moreover have "sg_journal sg = render blake2s ctx pk True rolled ds" "sg_anchor sg = Some an" by (simp_all add: sg0(2) j(1))
    ultimately show ?thesis using anchored(1) by metis
  qed
qed

end
