(* ===== verification/Astro_Local.thy ===== *)
theory Astro_Local
  imports Astro_Signer Astro_Committee
begin

text \<open>
  Local voting at one height (consensus/src/local.rs): proposals, prevotes, precommits, the
  three timeouts and finality, on top of the durable signer. An operation is split where the code
  calls the signer: the guards compute the value to sign, then the request is issued. The callback
  \<open>validate\<close> of the caller is an argument.
\<close>

datatype voting_step = AwaitingProposal | Prevoted | Precommitted | Finalized

datatype local_error = ConsensusFailure consensus_error | SigningFailure keystore_error

record local_bft =
  lb_committee :: auth_committee
  lb_signer :: durable_signer
  lb_handle :: key_handle
  lb_voter :: validator_id
  lb_round :: u32
  lb_step :: voting_step
  lb_locked :: "signing_lock option"
  lb_finalized :: "hash256 option"

definition local_prove_vrf ::
  "(byte list \<Rightarrow> hash256) \<Rightarrow> 'p ecvrf \<Rightarrow> local_bft \<Rightarrow> vrf_input \<Rightarrow> local_error + vrf_output" where
  "local_prove_vrf blake2s vrf lb input = map_err SigningFailure (signer_prove_vrf blake2s vrf (lb_signer lb) input)"

text \<open>The round, step and lock restored from the journal.\<close>

definition local_resume ::
  "auth_committee \<Rightarrow> journal \<Rightarrow> local_error + u32 \<times> voting_step \<times> signing_lock option" where
  "local_resume ac j =
     (case last_position j of
        None \<Rightarrow> Ok (0, AwaitingProposal, None)
      | Some pos \<Rightarrow>
          if pos_height pos > ac_height ac then Err (SigningFailure StalePosition)
          else if pos_height pos = ac_height ac
          then
            try_bind (ok_or (SigningFailure InvalidSafety) (jr_safety j)) (\<lambda>safety.
            if sf_committee_root safety \<noteq> ac_root ac then Err (SigningFailure ContextMismatch)
            else
              try_bind (if pos_phase pos = PROPOSAL_PHASE then Ok AwaitingProposal
                        else if pos_phase pos = PREVOTE_PHASE then Ok Prevoted
                        else if pos_phase pos = PRECOMMIT_PHASE then Ok Precommitted
                        else Err (SigningFailure InvalidPosition)) (\<lambda>step.
              Ok (pos_round pos, step, sf_locked safety)))
          else Ok (0, AwaitingProposal, None))"

definition local_new :: "auth_committee \<Rightarrow> durable_signer \<Rightarrow> hash256 \<Rightarrow> local_error + local_bft" where
  "local_new ac signer genesis =
     (if \<not> jr_protected (sg_journal signer) then Err (SigningFailure InvalidSafety)
      else if ctx_chain_id (sg_context signer) \<noteq> ac_chain_id ac \<or> ctx_genesis (sg_context signer) \<noteq> genesis
      then Err (SigningFailure ContextMismatch)
      else
        try_bind (map_err SigningFailure (signer_validator_id signer (sg_handle signer))) (\<lambda>voter.
        if voting_power ac voter = None then Err (ConsensusFailure UnknownVoter)
        else
          try_bind (local_resume ac (sg_journal signer)) (\<lambda>(round, step, locked).
          Ok \<lparr>lb_committee = ac, lb_signer = signer, lb_handle = sg_handle signer, lb_voter = voter,
              lb_round = round, lb_step = step, lb_locked = locked, lb_finalized = None\<rparr>)))"

definition valid_header :: "local_bft \<Rightarrow> block_header \<Rightarrow> (block_header \<Rightarrow> bool) \<Rightarrow> bool" where
  "valid_header lb header validate \<longleftrightarrow> hdr_height header = ac_height (lb_committee lb)
     \<and> hdr_committee_root header = ac_root (lb_committee lb) \<and> validate header"

text \<open>The journal coordinates and the vote of the current round.\<close>

definition phase_code :: "vote_phase \<Rightarrow> u8" where
  "phase_code ph = (case ph of Prevote \<Rightarrow> PREVOTE_PHASE | Precommit \<Rightarrow> PRECOMMIT_PHASE)"

definition phase_step :: "vote_phase \<Rightarrow> voting_step" where
  "phase_step ph = (case ph of Prevote \<Rightarrow> Prevoted | Precommit \<Rightarrow> Precommitted)"

definition unsigned_vote :: "local_bft \<Rightarrow> vote_phase \<Rightarrow> hash256 option \<Rightarrow> vote" where
  "unsigned_vote lb ph block =
     \<lparr>vote_chain_id = ac_chain_id (lb_committee lb), vote_committee_root = ac_root (lb_committee lb),
      vote_height = ac_height (lb_committee lb), vote_round = lb_round lb, vote_phase = ph,
      vote_block = block, vote_voter = lb_voter lb, vote_signature = 0\<rparr>"

definition local_issue ::
  "(byte list \<Rightarrow> hash256) \<Rightarrow> ed25519 \<Rightarrow> sign_io \<Rightarrow> vote_phase \<Rightarrow> hash256 option \<Rightarrow>
   signing_lock option \<Rightarrow> local_bft \<Rightarrow> (local_error + vote) \<times> local_bft" where
  "local_issue blake2s ed ios ph block locked lb =
     (let v = unsigned_vote lb ph block in
      case sign_protected blake2s ed ios (lb_handle lb)
          (SigningPosition (vote_height v) (vote_round v) (phase_code ph)) (vote_signing_hash blake2s v)
          \<lparr>sf_committee_root = vote_committee_root v, sf_locked = locked\<rparr> (lb_signer lb) of
        (Inl e, sg) \<Rightarrow> (Err (SigningFailure e), lb\<lparr>lb_signer := sg\<rparr>)
      | (Inr sig, sg) \<Rightarrow>
          (Ok (v\<lparr>vote_signature := sig\<rparr>),
           lb\<lparr>lb_signer := sg, lb_locked := locked, lb_step := phase_step ph\<rparr>))"

text \<open>What a prevote may name: the guards of \<open>LocalBft::prevote\<close>.\<close>

definition prevote_value ::
  "(byte list \<Rightarrow> hash256) \<Rightarrow> local_bft \<Rightarrow> block_header option \<Rightarrow> prevote_certificate option \<Rightarrow>
   (block_header \<Rightarrow> bool) \<Rightarrow> consensus_error + hash256 option" where
  "prevote_value blake2s lb header valid_round validate =
     (if \<not> (lb_step lb = AwaitingProposal \<or> lb_step lb = Prevoted) then Err InvalidTransition
      else
        try_bind (case valid_round of
            None \<Rightarrow> Ok ()
          | Some pc \<Rightarrow>
              try_bind (verify_context pc (lb_committee lb)) (\<lambda>_.
              if pc_round pc \<ge> lb_round lb
                 \<or> (case header of None \<Rightarrow> True | Some h \<Rightarrow> header_compute_hash blake2s h \<noteq> pc_block pc)
              then Err InvalidCertificate else Ok ())) (\<lambda>_.
        let block = (case header of
              None \<Rightarrow> None
            | Some h \<Rightarrow> if valid_header lb h validate then Some (header_compute_hash blake2s h) else None);
            permitted = (case lb_locked lb of
              None \<Rightarrow> True
            | Some l \<Rightarrow> block = Some (lock_block l)
                \<or> (case valid_round of None \<Rightarrow> False | Some pc \<Rightarrow> pc_round pc > lock_round l)) in
        Ok (if permitted then block else None)))"

definition local_prevote ::
  "(byte list \<Rightarrow> hash256) \<Rightarrow> ed25519 \<Rightarrow> sign_io \<Rightarrow> block_header option \<Rightarrow> prevote_certificate option \<Rightarrow>
   (block_header \<Rightarrow> bool) \<Rightarrow> local_bft \<Rightarrow> (local_error + vote) \<times> local_bft" where
  "local_prevote blake2s ed ios header valid_round validate lb =
     (case prevote_value blake2s lb header valid_round validate of
        Inl e \<Rightarrow> (Err (ConsensusFailure e), lb)
      | Inr block \<Rightarrow> local_issue blake2s ed ios Prevote block (lb_locked lb) lb)"

definition local_verify_proposal ::
  "(byte list \<Rightarrow> hash256) \<Rightarrow> ed25519 \<Rightarrow> local_bft \<Rightarrow> validator_id \<Rightarrow> proposal \<Rightarrow> block_header \<Rightarrow>
   prevote_certificate option \<Rightarrow> consensus_error + unit" where
  "local_verify_proposal blake2s ed lb expected_proposer p header valid_round =
     (if prop_round p \<noteq> lb_round lb then Err InvalidTransition
      else
        try_bind (ac_verify_proposal blake2s ed (lb_committee lb) p header expected_proposer
            (ctx_genesis (sg_context (lb_signer lb)))) (\<lambda>_.
        verify_valid_round p (lb_committee lb) valid_round))"

definition local_prevote_proposal ::
  "(byte list \<Rightarrow> hash256) \<Rightarrow> ed25519 \<Rightarrow> sign_io \<Rightarrow> validator_id \<Rightarrow> proposal \<Rightarrow> block_header \<Rightarrow>
   prevote_certificate option \<Rightarrow> (block_header \<Rightarrow> bool) \<Rightarrow> local_bft \<Rightarrow> (local_error + vote) \<times> local_bft" where
  "local_prevote_proposal blake2s ed ios expected_proposer p header valid_round validate lb =
     (case local_verify_proposal blake2s ed lb expected_proposer p header valid_round of
        Inl e \<Rightarrow> (Err (ConsensusFailure e), lb)
      | Inr _ \<Rightarrow> local_prevote blake2s ed ios (Some header) valid_round validate lb)"

definition precommit_value ::
  "(byte list \<Rightarrow> hash256) \<Rightarrow> local_bft \<Rightarrow> block_header \<Rightarrow> prevote_certificate \<Rightarrow>
   (block_header \<Rightarrow> bool) \<Rightarrow> consensus_error + hash256" where
  "precommit_value blake2s lb header pc validate =
     (if \<not> (lb_step lb = Prevoted \<or> lb_step lb = Precommitted) then Err InvalidTransition
      else
        try_bind (verify_context pc (lb_committee lb)) (\<lambda>_.
        if pc_round pc \<noteq> lb_round lb \<or> pc_block pc \<noteq> header_compute_hash blake2s header
           \<or> \<not> valid_header lb header validate
        then Err InvalidCertificate else Ok (pc_block pc)))"

definition local_precommit ::
  "(byte list \<Rightarrow> hash256) \<Rightarrow> ed25519 \<Rightarrow> sign_io \<Rightarrow> block_header \<Rightarrow> prevote_certificate \<Rightarrow>
   (block_header \<Rightarrow> bool) \<Rightarrow> local_bft \<Rightarrow> (local_error + vote) \<times> local_bft" where
  "local_precommit blake2s ed ios header pc validate lb =
     (case precommit_value blake2s lb header pc validate of
        Inl e \<Rightarrow> (Err (ConsensusFailure e), lb)
      | Inr block \<Rightarrow>
          local_issue blake2s ed ios Precommit (Some block)
            (Some \<lparr>lock_round = lb_round lb, lock_block = block\<rparr>) lb)"

definition local_timeout_proposal ::
  "(byte list \<Rightarrow> hash256) \<Rightarrow> ed25519 \<Rightarrow> sign_io \<Rightarrow> u32 \<Rightarrow> local_bft \<Rightarrow> (local_error + vote) \<times> local_bft" where
  "local_timeout_proposal blake2s ed ios round lb =
     (if round \<noteq> lb_round lb \<or> lb_step lb \<noteq> AwaitingProposal
      then (Err (ConsensusFailure InvalidTransition), lb)
      else local_issue blake2s ed ios Prevote None (lb_locked lb) lb)"

definition local_timeout_prevote ::
  "(byte list \<Rightarrow> hash256) \<Rightarrow> ed25519 \<Rightarrow> sign_io \<Rightarrow> u32 \<Rightarrow> local_bft \<Rightarrow> (local_error + vote) \<times> local_bft" where
  "local_timeout_prevote blake2s ed ios round lb =
     (if round \<noteq> lb_round lb \<or> lb_step lb \<noteq> Prevoted
      then (Err (ConsensusFailure InvalidTransition), lb)
      else local_issue blake2s ed ios Precommit None (lb_locked lb) lb)"

definition local_timeout_precommit :: "u32 \<Rightarrow> local_bft \<Rightarrow> (local_error + unit) \<times> local_bft" where
  "local_timeout_precommit round lb =
     (if round \<noteq> lb_round lb \<or> lb_step lb \<noteq> Precommitted
      then (Err (ConsensusFailure InvalidTransition), lb)
      else case checked_add (lb_round lb) 1 of
        None \<Rightarrow> (Err (ConsensusFailure InvalidTransition), lb)
      | Some nxt \<Rightarrow> (Ok (), lb\<lparr>lb_round := nxt, lb_step := AwaitingProposal\<rparr>))"

definition local_finalize ::
  "(byte list \<Rightarrow> hash256) \<Rightarrow> ed25519 \<Rightarrow> host \<Rightarrow> block_header \<Rightarrow> finality_certificate \<Rightarrow>
   (block_header \<Rightarrow> bool) \<Rightarrow> local_bft \<Rightarrow> (local_error + unit) \<times> local_bft" where
  "local_finalize blake2s ed hst header cert validate lb =
     (case verify_certificate blake2s ed hst (lb_committee lb) cert header of
        Inl e \<Rightarrow> (Err (ConsensusFailure e), lb)
      | Inr _ \<Rightarrow>
          if \<not> valid_header lb header validate
             \<or> (case lb_finalized lb of None \<Rightarrow> False | Some h \<Rightarrow> h \<noteq> fc_block cert)
          then (Err (ConsensusFailure InvalidTransition), lb)
          else (Ok (), lb\<lparr>lb_finalized := Some (fc_block cert), lb_step := Finalized\<rparr>))"

text \<open>The proposal that \<open>LocalBft::propose\<close> signs, or why it does not.\<close>

definition proposal_value ::
  "(byte list \<Rightarrow> hash256) \<Rightarrow> local_bft \<Rightarrow> validator_id \<Rightarrow> block_header \<Rightarrow> prevote_certificate option \<Rightarrow>
   (block_header \<Rightarrow> bool) \<Rightarrow> consensus_error + proposal" where
  "proposal_value blake2s lb expected_proposer header valid_round validate =
     (if lb_step lb \<noteq> AwaitingProposal \<or> lb_voter lb \<noteq> expected_proposer
         \<or> \<not> valid_header lb header validate
      then Err InvalidTransition
      else
        let p = \<lparr>prop_chain_id = ac_chain_id (lb_committee lb), prop_genesis = ctx_genesis (sg_context (lb_signer lb)),
                 prop_height = ac_height (lb_committee lb), prop_round = lb_round lb,
                 prop_committee_root = ac_root (lb_committee lb), prop_block = header_compute_hash blake2s header,
                 prop_proposer = lb_voter lb, prop_valid_round = map_option pc_round valid_round,
                 prop_signature = 0\<rparr> in
        try_bind (verify_valid_round p (lb_committee lb) valid_round) (\<lambda>_.
        if (case lb_locked lb of
              None \<Rightarrow> False
            | Some l \<Rightarrow> lock_block l \<noteq> prop_block p
                \<and> (case valid_round of None \<Rightarrow> True | Some pc \<Rightarrow> pc_round pc \<le> lock_round l))
        then Err InvalidTransition else Ok p))"

definition local_propose ::
  "(byte list \<Rightarrow> hash256) \<Rightarrow> ed25519 \<Rightarrow> sign_io \<Rightarrow> validator_id \<Rightarrow> block_header \<Rightarrow>
   prevote_certificate option \<Rightarrow> (block_header \<Rightarrow> bool) \<Rightarrow> local_bft \<Rightarrow> (local_error + proposal) \<times> local_bft" where
  "local_propose blake2s ed ios expected_proposer header valid_round validate lb =
     (case proposal_value blake2s lb expected_proposer header valid_round validate of
        Inl e \<Rightarrow> (Err (ConsensusFailure e), lb)
      | Inr p \<Rightarrow>
          (case sign_protected blake2s ed ios (lb_handle lb)
              (SigningPosition (prop_height p) (lb_round lb) PROPOSAL_PHASE) (proposal_signing_hash blake2s p)
              \<lparr>sf_committee_root = prop_committee_root p, sf_locked = lb_locked lb\<rparr> (lb_signer lb) of
             (Inl e, sg) \<Rightarrow> (Err (SigningFailure e), lb\<lparr>lb_signer := sg\<rparr>)
           | (Inr sig, sg) \<Rightarrow> (Ok (p\<lparr>prop_signature := sig\<rparr>), lb\<lparr>lb_signer := sg\<rparr>)))"

section \<open>Progress\<close>

definition io_fine :: sign_io where
  "io_fine = \<lparr>si_activate = IoOk, si_write = IoOk, si_anchor = IoOk\<rparr>"

text \<open>With working storage, a decision that may follow is signed, and the anchor, if there is one, follows the log.\<close>

lemma witness_accepts:
  assumes "anchor_follows blake2s ctx pk ds (sg_anchor sg)" and "log_ok True (ds @ [d])" and "Suc (length ds) < 2 ^ 64"
    and "journal_state_of (sg_journal sg) = log_state blake2s (journal_identity blake2s ctx pk True) (ds @ [d])"
  shows "\<exists>an. witness_decision blake2s IoOk sg = (Ok (), sg\<lparr>sg_anchor := an\<rparr>) \<and> anchor_follows blake2s ctx pk (ds @ [d]) an"
proof (cases "sg_anchor sg")
  case None
  then have "sg = sg\<lparr>sg_anchor := None\<rparr>" by (cases sg) simp
  then show ?thesis using None by (intro exI [of _ None]) (simp add: witness_decision_def anchor_follows_def)
next
  case (Some an)
  with anchor_commit_follows [OF assms(1) [unfolded Some] assms(2,3)] assms(4) show ?thesis
    by (auto simp: witness_decision_def Let_def)
qed

lemma anchor_follows_ready: "anchor_follows blake2s ctx pk ds (sg_anchor sg) \<Longrightarrow> anchor_ready sg = Ok ()"
  by (auto simp: anchor_follows_def anchor_ready_def anchor_of_def Let_def split: option.splits)

lemma sign_protected_accepts:
  assumes j: "sg_journal sg = render blake2s ctx pk True rolled ds" "renderable True rolled ds"
    and f: "follows True (last_opt None ds) (pos, msg, Some s)" and n: "Suc (length ds) < 2 ^ 64"
    and sg: "anchor_follows blake2s ctx pk ds (sg_anchor sg)" "signer_validator_id sg handle = Ok v"
  shows "\<exists>rolled' an. renderable True rolled' (ds @ [(pos, msg, Some s)])
    \<and> anchor_follows blake2s ctx pk (ds @ [(pos, msg, Some s)]) an
    \<and> sign_protected blake2s ed io_fine handle pos msg s sg
      = (Ok (ed25519_sign ed (sg_seed sg) (be_bytes msg)),
         sg\<lparr>sg_journal := render blake2s ctx pk True rolled' (ds @ [(pos, msg, Some s)]), sg_anchor := an\<rparr>)"
proof -
  let ?ds = "ds @ [(pos, msg, Some s)]"
  obtain rolled' where r: "renderable True rolled' ?ds"
    and res: "reserve_protected blake2s IoOk IoOk pos msg s (render blake2s ctx pk True rolled ds) = (Ok (), render blake2s ctx pk True rolled' ?ds)"
    using reserve_protected_accepts [OF j(2) f n, of blake2s ctx pk] by blast
  let ?sg = "sg\<lparr>sg_journal := render blake2s ctx pk True rolled' ?ds\<rparr>"
  have "anchor_follows blake2s ctx pk ds (sg_anchor ?sg)" "log_ok True ?ds"
    "journal_state_of (sg_journal ?sg) = log_state blake2s (journal_identity blake2s ctx pk True) ?ds"
    using sg(1) r by (simp_all add: renderable_def journal_state_render)
  from witness_accepts [OF this(1,2) n this(3)] obtain an where
    an: "witness_decision blake2s IoOk ?sg = (Ok (), ?sg\<lparr>sg_anchor := an\<rparr>)" "anchor_follows blake2s ctx pk ?ds an" by blast
  show ?thesis
    by (intro exI [of _ rolled'] exI [of _ an])
      (simp add: r an sign_protected_def sign_with_def io_fine_def j(1) res sg(2) anchor_follows_ready [OF sg(1)])
qed

text \<open>The journal is behind the step of the node and its lock does not exceed the held one.\<close>

definition in_step :: "local_bft \<Rightarrow> decision list \<Rightarrow> bool" where
  "in_step lb ds \<longleftrightarrow> ac_root (lb_committee lb) \<noteq> 0
     \<and> (\<forall>l. lb_locked lb = Some l \<longrightarrow> lock_round l \<le> lb_round lb)
     \<and> (\<forall>q. last_opt None ds = Some q \<longrightarrow>
          (lb_step lb = AwaitingProposal \<longrightarrow>
             dec_pos q < SigningPosition (ac_height (lb_committee lb)) (lb_round lb) PREVOTE_PHASE)
          \<and> (lb_step lb = Prevoted \<longrightarrow>
             dec_pos q < SigningPosition (ac_height (lb_committee lb)) (lb_round lb) PRECOMMIT_PHASE)
          \<and> (lb_step lb = Precommitted \<longrightarrow>
             dec_pos q \<le> SigningPosition (ac_height (lb_committee lb)) (lb_round lb) PRECOMMIT_PHASE)
          \<and> (\<forall>t. dec_safety q = Some t \<longrightarrow> pos_height (dec_pos q) = ac_height (lb_committee lb) \<longrightarrow>
               sf_committee_root t = ac_root (lb_committee lb) \<and> lock_le (sf_locked t) (lb_locked lb)))"

definition live :: "(byte list \<Rightarrow> hash256) \<Rightarrow> signing_context \<Rightarrow> bytes32 \<Rightarrow> decision list \<Rightarrow> local_bft \<Rightarrow> bool" where
  "live blake2s ctx pk ds lb \<longleftrightarrow> (\<exists>rolled. renderable True rolled ds
     \<and> sg_journal (lb_signer lb) = render blake2s ctx pk True rolled ds)
     \<and> anchor_follows blake2s ctx pk ds (sg_anchor (lb_signer lb)) \<and> (\<exists>v. signer_validator_id (lb_signer lb) (lb_handle lb) = Ok v)"

lemma signer_validator_id_journal [simp]:
  "signer_validator_id (sg\<lparr>sg_journal := j\<rparr>) = signer_validator_id sg"
  "signer_validator_id (sg\<lparr>sg_anchor := an\<rparr>) = signer_validator_id sg"
  by (rule ext, simp add: signer_validator_id_def)+

lemma local_issue_accepts:
  fixes blake2s :: "byte list \<Rightarrow> hash256" and ph :: vote_phase and b :: "hash256 option" and lb :: local_bft
    and locked :: "signing_lock option"
  defines "d \<equiv> (SigningPosition (ac_height (lb_committee lb)) (lb_round lb) (phase_code ph),
      vote_signing_hash blake2s (unsigned_vote lb ph b),
      Some \<lparr>sf_committee_root = ac_root (lb_committee lb), sf_locked = locked\<rparr>)"
  assumes live: "live blake2s ctx pk ds lb" and f: "follows True (last_opt None ds) d" and n: "Suc (length ds) < 2 ^ 64"
  shows "\<exists>sg. local_issue blake2s ed io_fine ph b locked lb =
      (Ok ((unsigned_vote lb ph b)\<lparr>vote_signature := ed25519_sign ed (sg_seed (lb_signer lb))
          (be_bytes (vote_signing_hash blake2s (unsigned_vote lb ph b)))\<rparr>),
       lb\<lparr>lb_signer := sg, lb_locked := locked, lb_step := phase_step ph\<rparr>)
    \<and> sg_seed sg = sg_seed (lb_signer lb)
    \<and> live blake2s ctx pk (ds @ [d]) (lb\<lparr>lb_signer := sg, lb_locked := locked, lb_step := phase_step ph\<rparr>)"
proof -
  obtain rolled v where r: "renderable True rolled ds" "sg_journal (lb_signer lb) = render blake2s ctx pk True rolled ds"
    and sg: "anchor_follows blake2s ctx pk ds (sg_anchor (lb_signer lb))" "signer_validator_id (lb_signer lb) (lb_handle lb) = Ok v"
    using live by (auto simp: live_def)
  have slot: "vote_height (unsigned_vote lb ph b) = ac_height (lb_committee lb)"
    "vote_round (unsigned_vote lb ph b) = lb_round lb"
    "vote_committee_root (unsigned_vote lb ph b) = ac_root (lb_committee lb)"
    by (simp_all add: unsigned_vote_def)
  from sign_protected_accepts [OF r(2,1) f [unfolded d_def] n sg, of ed, folded d_def] obtain rolled' an where
    r': "renderable True rolled' (ds @ [d])" "anchor_follows blake2s ctx pk (ds @ [d]) an"
    and sign: "sign_protected blake2s ed io_fine (lb_handle lb)
        (SigningPosition (ac_height (lb_committee lb)) (lb_round lb) (phase_code ph))
        (vote_signing_hash blake2s (unsigned_vote lb ph b))
        \<lparr>sf_committee_root = ac_root (lb_committee lb), sf_locked = locked\<rparr> (lb_signer lb)
      = (Ok (ed25519_sign ed (sg_seed (lb_signer lb)) (be_bytes (vote_signing_hash blake2s (unsigned_vote lb ph b)))),
         (lb_signer lb)\<lparr>sg_journal := render blake2s ctx pk True rolled' (ds @ [d]), sg_anchor := an\<rparr>)" by blast
  show ?thesis
    using r' sg by (intro exI [of _ "(lb_signer lb)\<lparr>sg_journal := render blake2s ctx pk True rolled' (ds @ [d]), sg_anchor := an\<rparr>"])
      (auto simp: local_issue_def Let_def slot sign live_def)
qed

lemma follows_step:
  assumes "in_step lb ds" and "phase_code ph = PREVOTE_PHASE \<longrightarrow> lb_step lb = AwaitingProposal"
    and "phase_code ph = PRECOMMIT_PHASE \<longrightarrow> lb_step lb = Prevoted"
  shows "follows True (last_opt None ds) (SigningPosition (ac_height (lb_committee lb)) (lb_round lb) (phase_code ph),
      m, Some \<lparr>sf_committee_root = ac_root (lb_committee lb), sf_locked = lb_locked lb\<rparr>)"
  using assms
  by (cases ph) (auto simp: in_step_def follows_def validate_safety_Ok phase_code_def PREVOTE_PHASE_def
      PRECOMMIT_PHASE_def split: option.splits)

text \<open>The three timers of a round, in order; a timer that does not apply is refused.\<close>

definition round_timeouts :: "(byte list \<Rightarrow> hash256) \<Rightarrow> ed25519 \<Rightarrow> sign_io \<Rightarrow> local_bft \<Rightarrow> local_bft" where
  "round_timeouts blake2s ed ios lb =
     (let r = lb_round lb in
      snd (local_timeout_precommit r (snd (local_timeout_prevote blake2s ed ios r
        (snd (local_timeout_proposal blake2s ed ios r lb))))))"

text \<open>A nil vote for the current slot, which both timeouts issue.\<close>

lemma timeout_issue:
  assumes "live blake2s ctx pk ds lb" "in_step lb ds" "Suc (length ds) < 2 ^ 64"
    and "ph = Prevote \<and> lb_step lb = AwaitingProposal \<or> ph = Precommit \<and> lb_step lb = Prevoted"
  shows "\<exists>sg d. snd (local_issue blake2s ed io_fine ph None (lb_locked lb) lb) = lb\<lparr>lb_signer := sg, lb_step := phase_step ph\<rparr>
    \<and> live blake2s ctx pk (ds @ [d]) (lb\<lparr>lb_signer := sg, lb_step := phase_step ph\<rparr>)
    \<and> in_step (lb\<lparr>lb_signer := sg, lb_step := phase_step ph\<rparr>) (ds @ [d])"
proof -
  let ?d = "(SigningPosition (ac_height (lb_committee lb)) (lb_round lb) (phase_code ph),
      vote_signing_hash blake2s (unsigned_vote lb ph None),
      Some \<lparr>sf_committee_root = ac_root (lb_committee lb), sf_locked = lb_locked lb\<rparr>)"
  have f: "follows True (last_opt None ds) ?d"
    using assms(2,4) by (intro follows_step) (auto simp: phase_code_def PREVOTE_PHASE_def PRECOMMIT_PHASE_def)
  have "in_step (lb\<lparr>lb_signer := sg, lb_step := phase_step ph\<rparr>) (ds @ [?d])" for sg
    using assms(2,4) by (auto simp: in_step_def phase_step_def phase_code_def PREVOTE_PHASE_def PRECOMMIT_PHASE_def position_lt_iff)
  moreover obtain sg where "snd (local_issue blake2s ed io_fine ph None (lb_locked lb) lb) = lb\<lparr>lb_signer := sg, lb_step := phase_step ph\<rparr>"
    "live blake2s ctx pk (ds @ [?d]) (lb\<lparr>lb_signer := sg, lb_step := phase_step ph\<rparr>)"
    using local_issue_accepts [OF assms(1) f assms(3), of ed] by auto
  ultimately show ?thesis by blast
qed

lemma timeout_awaiting:
  assumes "live blake2s ctx pk ds lb" "in_step lb ds" "Suc (length ds) < 2 ^ 64" "lb_step lb = AwaitingProposal"
  shows "\<exists>sg d. snd (local_timeout_proposal blake2s ed io_fine (lb_round lb) lb) = lb\<lparr>lb_signer := sg, lb_step := Prevoted\<rparr>
    \<and> live blake2s ctx pk (ds @ [d]) (lb\<lparr>lb_signer := sg, lb_step := Prevoted\<rparr>)
    \<and> in_step (lb\<lparr>lb_signer := sg, lb_step := Prevoted\<rparr>) (ds @ [d])"
  using timeout_issue [OF assms(1-3), of Prevote ed] assms(4) by (auto simp: local_timeout_proposal_def phase_step_def)

lemma timeout_prevoted:
  assumes "live blake2s ctx pk ds lb" "in_step lb ds" "Suc (length ds) < 2 ^ 64" "lb_step lb = Prevoted"
  shows "\<exists>sg d. snd (local_timeout_prevote blake2s ed io_fine (lb_round lb) lb) = lb\<lparr>lb_signer := sg, lb_step := Precommitted\<rparr>
    \<and> live blake2s ctx pk (ds @ [d]) (lb\<lparr>lb_signer := sg, lb_step := Precommitted\<rparr>)
    \<and> in_step (lb\<lparr>lb_signer := sg, lb_step := Precommitted\<rparr>) (ds @ [d])"
  using timeout_issue [OF assms(1-3), of Precommit ed] assms(4) by (auto simp: local_timeout_prevote_def phase_step_def)

lemma timeout_precommitted:
  assumes "live blake2s ctx pk ds lb" "in_step lb ds" "lb_step lb = Precommitted" "unat (lb_round lb) + 1 < 2 ^ 32"
  shows "snd (local_timeout_precommit (lb_round lb) lb) = lb\<lparr>lb_round := lb_round lb + 1, lb_step := AwaitingProposal\<rparr>
    \<and> live blake2s ctx pk ds (lb\<lparr>lb_round := lb_round lb + 1, lb_step := AwaitingProposal\<rparr>)
    \<and> in_step (lb\<lparr>lb_round := lb_round lb + 1, lb_step := AwaitingProposal\<rparr>) ds"
proof -
  have add: "checked_add (lb_round lb) 1 = Some (lb_round lb + 1)" using assms(4) by (simp add: checked_add_def)
  then have less: "lb_round lb < lb_round lb + 1" by (rule checked_add_succ_less)
  have "in_step (lb\<lparr>lb_round := lb_round lb + 1, lb_step := AwaitingProposal\<rparr>) ds"
    unfolding in_step_def
  proof (intro conjI allI impI; simp)
    fix l assume "lb_locked lb = Some l"
    with assms(2) less show "lock_round l \<le> lb_round lb + 1" by (force simp: in_step_def)
  next
    fix q assume q: "last_opt None ds = Some q"
    have "dec_pos q \<le> SigningPosition (ac_height (lb_committee lb)) (lb_round lb) PRECOMMIT_PHASE"
      using assms(2,3) q by (simp add: in_step_def)
    also have "\<dots> < SigningPosition (ac_height (lb_committee lb)) (lb_round lb + 1) PREVOTE_PHASE"
      using less by (simp add: position_lt_iff)
    finally show "dec_pos q < SigningPosition (ac_height (lb_committee lb)) (lb_round lb + 1) PREVOTE_PHASE" .
  qed (use assms(2) in \<open>auto simp: in_step_def\<close>)
  then show ?thesis using assms(1,3) add by (simp add: local_timeout_precommit_def live_def)
qed

lemma round_timeouts_advance:
  assumes live: "live blake2s ctx pk ds lb" and step: "in_step lb ds" and n: "length ds + 2 < 2 ^ 64"
    and open_round: "lb_step lb \<noteq> Finalized" "unat (lb_round lb) + 1 < 2 ^ 32"
  shows "\<exists>sg es. round_timeouts blake2s ed io_fine lb = lb\<lparr>lb_signer := sg, lb_round := lb_round lb + 1, lb_step := AwaitingProposal\<rparr>
    \<and> length es \<le> length ds + 2
    \<and> live blake2s ctx pk es (lb\<lparr>lb_signer := sg, lb_round := lb_round lb + 1, lb_step := AwaitingProposal\<rparr>)
    \<and> in_step (lb\<lparr>lb_signer := sg, lb_round := lb_round lb + 1, lb_step := AwaitingProposal\<rparr>) es"
proof -
  let ?next = "\<lambda>sg. lb\<lparr>lb_signer := sg, lb_round := lb_round lb + 1, lb_step := AwaitingProposal\<rparr>"
  have pre: "\<exists>sg' es'. snd (local_timeout_precommit (lb_round lb) (snd (local_timeout_prevote blake2s ed io_fine (lb_round lb)
        (lb\<lparr>lb_signer := sg, lb_step := Prevoted\<rparr>)))) = ?next sg'
      \<and> length es' = Suc (length es) \<and> live blake2s ctx pk es' (?next sg') \<and> in_step (?next sg') es'"
    if "live blake2s ctx pk es (lb\<lparr>lb_signer := sg, lb_step := Prevoted\<rparr>)"
      "in_step (lb\<lparr>lb_signer := sg, lb_step := Prevoted\<rparr>) es" "Suc (length es) < 2 ^ 64" for sg es
  proof -
    from timeout_prevoted [OF that, of ed] obtain sg' d where
      t: "snd (local_timeout_prevote blake2s ed io_fine (lb_round lb) (lb\<lparr>lb_signer := sg, lb_step := Prevoted\<rparr>))
          = lb\<lparr>lb_signer := sg', lb_step := Precommitted\<rparr>"
      "live blake2s ctx pk (es @ [d]) (lb\<lparr>lb_signer := sg', lb_step := Precommitted\<rparr>)"
      "in_step (lb\<lparr>lb_signer := sg', lb_step := Precommitted\<rparr>) (es @ [d])" by auto
    from timeout_precommitted [OF t(2,3)] open_round(2) show ?thesis
      by (intro exI [of _ sg'] exI [of _ "es @ [d]"]) (simp add: t(1))
  qed
  have self: "lb\<lparr>lb_signer := lb_signer lb, lb_step := s\<rparr> = lb" if "lb_step lb = s" for s using that by (cases lb) simp
  show ?thesis
  proof (cases "lb_step lb")
    case AwaitingProposal
    with timeout_awaiting [OF live step _ AwaitingProposal, of ed] n obtain sg d where
      t: "snd (local_timeout_proposal blake2s ed io_fine (lb_round lb) lb) = lb\<lparr>lb_signer := sg, lb_step := Prevoted\<rparr>"
      "live blake2s ctx pk (ds @ [d]) (lb\<lparr>lb_signer := sg, lb_step := Prevoted\<rparr>)"
      "in_step (lb\<lparr>lb_signer := sg, lb_step := Prevoted\<rparr>) (ds @ [d])" by auto
    have "Suc (length (ds @ [d])) < 2 ^ 64" using n by simp
    from pre [OF t(2,3) this] show ?thesis
      unfolding round_timeouts_def Let_def t(1)
      apply (elim exE conjE)
      subgoal for sg' es' by (intro exI [of _ sg'] exI [of _ es']) simp
      done
  next
    case Prevoted
    then have "snd (local_timeout_proposal blake2s ed io_fine (lb_round lb) lb) = lb" by (simp add: local_timeout_proposal_def)
    then have same: "round_timeouts blake2s ed io_fine lb
        = snd (local_timeout_precommit (lb_round lb) (snd (local_timeout_prevote blake2s ed io_fine (lb_round lb) lb)))"
      by (simp add: round_timeouts_def Let_def)
    have "Suc (length ds) < 2 ^ 64" using n by simp
    from pre [of ds "lb_signer lb", unfolded self [OF Prevoted], OF live step this] show ?thesis
      unfolding same
      apply (elim exE conjE)
      subgoal for sg' es' by (intro exI [of _ sg'] exI [of _ es']) simp
      done
  next
    case Precommitted
    then have "round_timeouts blake2s ed io_fine lb = snd (local_timeout_precommit (lb_round lb) lb)"
      by (simp add: round_timeouts_def Let_def local_timeout_proposal_def local_timeout_prevote_def)
    with timeout_precommitted [OF live step Precommitted open_round(2)] show ?thesis
      by (intro exI [of _ "lb_signer lb"] exI [of _ ds]) simp
  qed (use open_round in simp)
qed

text \<open>Any number of rounds.\<close>

lemma rounds_advance:
  assumes "live blake2s ctx pk ds lb" "in_step lb ds" "lb_step lb \<noteq> Finalized"
    and "length ds + 2 * Suc n < 2 ^ 64" "unat (lb_round lb) + Suc n < 2 ^ 32"
  shows "\<exists>sg. (round_timeouts blake2s ed io_fine ^^ Suc n) lb
    = lb\<lparr>lb_signer := sg, lb_round := lb_round lb + of_nat (Suc n), lb_step := AwaitingProposal\<rparr>"
  using assms
proof (induction n arbitrary: lb ds)
  case 0
  with round_timeouts_advance [OF 0(1,2) _ 0(3), of ed] show ?case by auto
next
  case (Suc n)
  obtain sg es where one: "round_timeouts blake2s ed io_fine lb = lb\<lparr>lb_signer := sg, lb_round := lb_round lb + 1, lb_step := AwaitingProposal\<rparr>"
    "length es \<le> length ds + 2"
    "live blake2s ctx pk es (lb\<lparr>lb_signer := sg, lb_round := lb_round lb + 1, lb_step := AwaitingProposal\<rparr>)"
    "in_step (lb\<lparr>lb_signer := sg, lb_round := lb_round lb + 1, lb_step := AwaitingProposal\<rparr>) es"
    using round_timeouts_advance [OF Suc.prems(1,2) _ Suc.prems(3), of ed] Suc.prems(4,5) by auto
  have "unat (lb_round lb + 1) = unat (lb_round lb) + 1"
    using Suc.prems(5) by (simp add: unat_word_ariths)
  with Suc.IH [OF one(3,4)] one(2) Suc.prems(4,5) obtain sg' where
    "(round_timeouts blake2s ed io_fine ^^ Suc n) (lb\<lparr>lb_signer := sg, lb_round := lb_round lb + 1, lb_step := AwaitingProposal\<rparr>)
      = lb\<lparr>lb_signer := sg', lb_round := lb_round lb + 1 + of_nat (Suc n), lb_step := AwaitingProposal\<rparr>" by auto
  then show ?case
    unfolding funpow_Suc_right [of "Suc n"] comp_apply one(1) by (intro exI [of _ sg']) (simp add: algebra_simps)
qed

text \<open>A node resumed by \<open>LocalBft::new\<close> is in step with its journal.\<close>

lemma local_new_in_step:
  assumes new: "local_new ac sg genesis = Ok lb" and j: "sg_journal sg = render blake2s ctx pk True rolled ds"
    and r: "renderable True rolled ds" and anchor: "anchor_follows blake2s ctx pk ds (sg_anchor sg)" and root: "ac_root ac \<noteq> 0"
  shows "live blake2s ctx pk ds lb" "in_step lb ds" "lb_step lb \<noteq> Finalized" "lb_committee lb = ac"
proof -
  obtain rd step locked where resume: "local_resume ac (sg_journal sg) = Ok (rd, step, locked)"
    and lb: "lb_committee lb = ac" "lb_round lb = rd" "lb_step lb = step" "lb_locked lb = locked"
      "lb_signer lb = sg" "lb_handle lb = sg_handle sg"
    and v: "\<exists>v. signer_validator_id sg (sg_handle sg) = Ok v"
    using new by (auto simp: local_new_def result_simps split: if_splits)
  show "live blake2s ctx pk ds lb" using j r anchor v by (auto simp: live_def lb)
  show "lb_committee lb = ac" by (fact lb)
  have log: "log_ok True ds" using r by (simp add: renderable_def)
  show "lb_step lb \<noteq> Finalized"
    using resume by (auto simp: lb local_resume_def j last_position_def log_last_def result_simps
        split: option.splits if_splits)
  show "in_step lb ds"
  proof (cases "last_opt None ds")
    case None
    then have "rd = 0" "step = AwaitingProposal" "locked = None"
      using resume by (simp_all add: local_resume_def j last_position_def log_last_def)
    with None root show ?thesis by (simp add: in_step_def lb)
  next
    case (Some q)
    obtain pos m s where q: "q = (pos, m, s)" by (cases q)
    have mem: "q \<in> set ds" using Some by (metis last_in_set last_opt_None option.distinct(1) option.inject)
    then obtain t where t: "s = Some t" using log_ok_phase [OF log mem] by (auto simp: q)
    have bound: "\<forall>l. sf_locked t = Some l \<longrightarrow> lock_round l \<le> pos_round pos"
    proof -
      obtain xs ys where "ds = xs @ q # ys" using mem by (meson split_list)
      then have "follows True (last_opt None xs) q" using log by (simp add: log_ok_def log_from_append_list)
      then show ?thesis by (simp add: follows_def validate_safety_Ok q t)
    qed
    have last: "last_position (sg_journal sg) = Some pos" "jr_safety (sg_journal sg) = Some t"
      using Some by (simp_all add: j last_position_def log_last_def log_safety_def q t)
    show ?thesis
    proof (cases "pos_height pos = ac_height ac")
      case True
      then have "rd = pos_round pos" "locked = sf_locked t" "sf_committee_root t = ac_root ac"
        "step = AwaitingProposal \<longrightarrow> pos_phase pos = PROPOSAL_PHASE" "step = Prevoted \<longrightarrow> pos_phase pos = PREVOTE_PHASE"
        "step = Precommitted \<longrightarrow> pos_phase pos = PRECOMMIT_PHASE"
        using resume by (auto simp: local_resume_def last result_simps split: if_splits)
      with True Some bound root show ?thesis
        by (cases pos) (simp add: in_step_def lb q t position_lt_iff PROPOSAL_PHASE_def PREVOTE_PHASE_def PRECOMMIT_PHASE_def)
    next
      case False
      then have "rd = 0" "step = AwaitingProposal" "locked = None" "pos_height pos < ac_height ac"
        using resume by (auto simp: local_resume_def last result_simps split: if_splits)
      with False Some root show ?thesis
        by (cases pos) (simp add: in_step_def lb q t position_lt_iff)
    qed
  qed
qed

end
