(* ===== verification/Astro_Agreement.thy ===== *)
theory Astro_Agreement
  imports Astro_Local
begin

text \<open>
  Safety of the voting rules. A validator runs the operations of consensus/src/local.rs in
  any order, with failed writes, crashes and restarts in between, over the durable signer. Every
  entry of its journal is then justified by the locking rules (\<open>entry_ok\<close>), and two verified
  finality certificates of one height name the same block when less than a third of the power is
  Byzantine. The committee of each height, which the code receives from its caller, is the
  parameter \<open>com\<close>; \<open>seen\<close> is the set of votes that were ever presented.
\<close>

section \<open>The operations as one dispatcher\<close>

datatype local_op =
    Propose validator_id block_header "prevote_certificate option" "block_header \<Rightarrow> bool"
  | PrevoteProposal validator_id proposal block_header "prevote_certificate option" "block_header \<Rightarrow> bool"
  | PrevoteHeader "block_header option" "prevote_certificate option" "block_header \<Rightarrow> bool"
  | PrecommitHeader block_header prevote_certificate "block_header \<Rightarrow> bool"
  | TimeoutProposal u32
  | TimeoutPrevote u32
  | TimeoutPrecommit u32
  | FinalizeBlock host block_header finality_certificate "block_header \<Rightarrow> bool"

fun digests :: "('a \<Rightarrow> hash256) \<Rightarrow> local_error + 'a \<Rightarrow> hash256 set" where
  "digests f (Inl e) = {}"
| "digests f (Inr x) = {f x}"

text \<open>The digests whose signatures leave the node, and the node afterwards.\<close>

fun local_exec ::
  "(byte list \<Rightarrow> hash256) \<Rightarrow> ed25519 \<Rightarrow> sign_io \<Rightarrow> local_op \<Rightarrow> local_bft \<Rightarrow> hash256 set \<times> local_bft" where
  "local_exec blake2s ed ios (Propose expected header pc validate) lb =
     map_prod (digests (proposal_signing_hash blake2s)) id (local_propose blake2s ed ios expected header pc validate lb)"
| "local_exec blake2s ed ios (PrevoteProposal expected p header pc validate) lb =
     map_prod (digests (vote_signing_hash blake2s)) id
       (local_prevote_proposal blake2s ed ios expected p header pc validate lb)"
| "local_exec blake2s ed ios (PrevoteHeader header pc validate) lb =
     map_prod (digests (vote_signing_hash blake2s)) id (local_prevote blake2s ed ios header pc validate lb)"
| "local_exec blake2s ed ios (PrecommitHeader header pc validate) lb =
     map_prod (digests (vote_signing_hash blake2s)) id (local_precommit blake2s ed ios header pc validate lb)"
| "local_exec blake2s ed ios (TimeoutProposal r) lb =
     map_prod (digests (vote_signing_hash blake2s)) id (local_timeout_proposal blake2s ed ios r lb)"
| "local_exec blake2s ed ios (TimeoutPrevote r) lb =
     map_prod (digests (vote_signing_hash blake2s)) id (local_timeout_prevote blake2s ed ios r lb)"
| "local_exec blake2s ed ios (TimeoutPrecommit r) lb = ({}, snd (local_timeout_precommit r lb))"
| "local_exec blake2s ed ios (FinalizeBlock hst header cert validate) lb =
     ({}, snd (local_finalize blake2s ed hst header cert validate lb))"

fun op_certificates :: "local_op \<Rightarrow> prevote_certificate set" where
  "op_certificates (Propose expected header pc validate) = set_option pc"
| "op_certificates (PrevoteProposal expected p header pc validate) = set_option pc"
| "op_certificates (PrevoteHeader header pc validate) = set_option pc"
| "op_certificates (PrecommitHeader header pc validate) = {pc}"
| "op_certificates _ = {}"

text \<open>What an operation asks the signer to sign: hashed message, position, safety.\<close>

type_synonym request = "byte list \<times> signing_position \<times> signing_safety"

definition vote_message :: "vote \<Rightarrow> byte list" where
  "vote_message v = domain_preimage DOMAIN_CONSENSUS_VOTE (vote_signing_bytes v)"

definition proposal_message :: "proposal \<Rightarrow> byte list" where
  "proposal_message p = domain_preimage DOMAIN_CONSENSUS_PROPOSAL (proposal_signing_bytes p)"

definition vote_request :: "local_bft \<Rightarrow> vote_phase \<Rightarrow> hash256 option \<Rightarrow> signing_lock option \<Rightarrow> request" where
  "vote_request lb ph block locked =
     (vote_message (unsigned_vote lb ph block),
      SigningPosition (ac_height (lb_committee lb)) (lb_round lb) (phase_code ph),
      \<lparr>sf_committee_root = ac_root (lb_committee lb), sf_locked = locked\<rparr>)"

definition prevote_request ::
  "(byte list \<Rightarrow> hash256) \<Rightarrow> block_header option \<Rightarrow> prevote_certificate option \<Rightarrow> (block_header \<Rightarrow> bool) \<Rightarrow>
   local_bft \<Rightarrow> request option" where
  "prevote_request blake2s header pc validate lb =
     (case prevote_value blake2s lb header pc validate of
        Inl e \<Rightarrow> None | Inr b \<Rightarrow> Some (vote_request lb Prevote b (lb_locked lb)))"

fun local_request :: "(byte list \<Rightarrow> hash256) \<Rightarrow> ed25519 \<Rightarrow> local_op \<Rightarrow> local_bft \<Rightarrow> request option" where
  "local_request blake2s ed (Propose expected header pc validate) lb =
     (case proposal_value blake2s lb expected header pc validate of
        Inl e \<Rightarrow> None
      | Inr p \<Rightarrow> Some (proposal_message p,
          SigningPosition (ac_height (lb_committee lb)) (lb_round lb) PROPOSAL_PHASE,
          \<lparr>sf_committee_root = ac_root (lb_committee lb), sf_locked = lb_locked lb\<rparr>))"
| "local_request blake2s ed (PrevoteProposal expected p header pc validate) lb =
     (case local_verify_proposal blake2s ed lb expected p header pc of
        Inl e \<Rightarrow> None
      | Inr u \<Rightarrow> prevote_request blake2s (Some header) pc validate lb)"
| "local_request blake2s ed (PrevoteHeader header pc validate) lb = prevote_request blake2s header pc validate lb"
| "local_request blake2s ed (PrecommitHeader header pc validate) lb =
     (case precommit_value blake2s lb header pc validate of
        Inl e \<Rightarrow> None
      | Inr b \<Rightarrow> Some (vote_request lb Precommit (Some b) (Some \<lparr>lock_round = lb_round lb, lock_block = b\<rparr>)))"
| "local_request blake2s ed (TimeoutProposal r) lb =
     (if r \<noteq> lb_round lb \<or> lb_step lb \<noteq> AwaitingProposal then None
      else Some (vote_request lb Prevote None (lb_locked lb)))"
| "local_request blake2s ed (TimeoutPrevote r) lb =
     (if r \<noteq> lb_round lb \<or> lb_step lb \<noteq> Prevoted then None
      else Some (vote_request lb Precommit None (lb_locked lb)))"
| "local_request blake2s ed _ lb = None"

lemma signing_hash_message:
  "vote_signing_hash blake2s v = blake2s (vote_message v)" "proposal_signing_hash blake2s p = blake2s (proposal_message p)"
  by (simp_all add: vote_signing_hash_def vote_message_def proposal_signing_hash_def proposal_message_def domain_hash_def)

lemma message_signature [simp]:
  "vote_message (v\<lparr>vote_signature := sig\<rparr>) = vote_message v"
  "proposal_message (p\<lparr>prop_signature := sig\<rparr>) = proposal_message p"
  by (simp_all add: vote_message_def proposal_message_def vote_signing_bytes_def proposal_signing_bytes_def)

lemma unsigned_vote_slot [simp]:
  "vote_height (unsigned_vote lb ph b) = ac_height (lb_committee lb)"
  "vote_round (unsigned_vote lb ph b) = lb_round lb"
  "vote_committee_root (unsigned_vote lb ph b) = ac_root (lb_committee lb)"
  by (simp_all add: unsigned_vote_def)

text \<open>Issuing a vote signs its request.\<close>

definition signs ::
  "(byte list \<Rightarrow> hash256) \<Rightarrow> ed25519 \<Rightarrow> sign_io \<Rightarrow> request \<Rightarrow> hash256 set \<Rightarrow> local_bft \<Rightarrow> local_bft \<Rightarrow> bool" where
  "signs blake2s ed ios req out lb lb' \<longleftrightarrow> (case req of (m, pos, s) \<Rightarrow>
     \<exists>r. sign_protected blake2s ed ios (lb_handle lb) pos (blake2s m) s (lb_signer lb) = (r, lb_signer lb')
       \<and> out \<subseteq> {blake2s m} \<and> (out \<noteq> {} \<longrightarrow> (\<exists>sig. r = Ok sig)))"

lemma local_issue_cases:
  assumes "local_issue blake2s ed ios ph b locked lb = (r, lb')"
  obtains (refused) sg e where "lb' = lb\<lparr>lb_signer := sg\<rparr>" "r = Err e"
      "signs blake2s ed ios (vote_request lb ph b locked) (digests (vote_signing_hash blake2s) r) lb lb'"
  | (issued) sg where "lb' = lb\<lparr>lb_signer := sg, lb_locked := locked, lb_step := phase_step ph\<rparr>"
      "signs blake2s ed ios (vote_request lb ph b locked) (digests (vote_signing_hash blake2s) r) lb lb'"
  using assms
  by (auto simp: local_issue_def Let_def signs_def vote_request_def signing_hash_message
      split: prod.splits sum.splits)

section \<open>Justified journals\<close>

text \<open>
  \<open>P h r b\<close> stands for a proved prevote quorum. A held lock was proved; before the
  precommit of a round it belongs to an earlier round.
\<close>

definition lock_ok :: "(u64 \<Rightarrow> u32 \<Rightarrow> hash256 \<Rightarrow> bool) \<Rightarrow> u64 \<Rightarrow> u32 \<Rightarrow> bool \<Rightarrow> signing_lock option \<Rightarrow> bool" where
  "lock_ok P h r late locked \<longleftrightarrow> (\<forall>l. locked = Some l \<longrightarrow>
     P h (lock_round l) (lock_block l) \<and> lock_round l \<le> r \<and> (\<not> late \<longrightarrow> lock_round l < r))"

definition slot_vote :: "auth_committee \<Rightarrow> validator_id \<Rightarrow> u32 \<Rightarrow> vote_phase \<Rightarrow> hash256 option \<Rightarrow> vote" where
  "slot_vote ac v r ph b =
     \<lparr>vote_chain_id = ac_chain_id ac, vote_committee_root = ac_root ac, vote_height = ac_height ac, vote_round = r,
      vote_phase = ph, vote_block = b, vote_voter = v, vote_signature = 0\<rparr>"

inductive entry_ok ::
  "(byte list \<Rightarrow> hash256) \<Rightarrow> (u64 \<Rightarrow> u32 \<Rightarrow> hash256 \<Rightarrow> bool) \<Rightarrow> (u64 \<Rightarrow> auth_committee) \<Rightarrow> byte list set \<Rightarrow>
   validator_id \<Rightarrow> decision \<Rightarrow> bool"
  for blake2s P com hs v where
  proposal: "proposal_message p \<in> hs \<Longrightarrow> lock_ok P h r False (sf_locked s) \<Longrightarrow>
    entry_ok blake2s P com hs v (SigningPosition h r PROPOSAL_PHASE, blake2s (proposal_message p), Some s)"
| prevote: "vote_message (slot_vote (com h) v r Prevote b) \<in> hs \<Longrightarrow> lock_ok P h r False (sf_locked s) \<Longrightarrow>
    (\<And>x l. b = Some x \<Longrightarrow> sf_locked s = Some l \<Longrightarrow>
       lock_block l = x \<or> (\<exists>vr. P h vr x \<and> lock_round l < vr \<and> vr < r)) \<Longrightarrow>
    entry_ok blake2s P com hs v
      (SigningPosition h r PREVOTE_PHASE, blake2s (vote_message (slot_vote (com h) v r Prevote b)), Some s)"
| precommit: "vote_message (slot_vote (com h) v r Precommit b) \<in> hs \<Longrightarrow> lock_ok P h r True (sf_locked s) \<Longrightarrow>
    (\<And>x. b = Some x \<Longrightarrow> sf_locked s = Some \<lparr>lock_round = r, lock_block = x\<rparr>) \<Longrightarrow>
    entry_ok blake2s P com hs v
      (SigningPosition h r PRECOMMIT_PHASE, blake2s (vote_message (slot_vote (com h) v r Precommit b)), Some s)"

definition lb_ok ::
  "(u64 \<Rightarrow> u32 \<Rightarrow> hash256 \<Rightarrow> bool) \<Rightarrow> (u64 \<Rightarrow> auth_committee) \<Rightarrow> validator_id \<Rightarrow> local_bft \<Rightarrow> bool" where
  "lb_ok P com v lb \<longleftrightarrow> lb_committee lb = com (ac_height (lb_committee lb)) \<and> lb_voter lb = v
     \<and> lock_ok P (ac_height (lb_committee lb)) (lb_round lb)
         (\<not> (lb_step lb = AwaitingProposal \<or> lb_step lb = Prevoted)) (lb_locked lb)"

lemma lock_ok_late: "lock_ok P h r False locked \<Longrightarrow> lock_ok P h r late locked"
  by (auto simp: lock_ok_def)

lemma unsigned_slot_vote: "unsigned_vote lb ph b = slot_vote (lb_committee lb) (lb_voter lb) (lb_round lb) ph b"
  by (simp add: unsigned_vote_def slot_vote_def)

text \<open>What the guards of the two votes establish.\<close>

lemma prevote_value_Ok:
  assumes "prevote_value blake2s lb header pc validate = Ok b" and "b = Some x" and "lb_locked lb = Some l"
  shows "lock_block l = x \<or> (\<exists>c. pc = Some c \<and> verify_context c (lb_committee lb) = Ok () \<and> pc_block c = x
     \<and> lock_round l < pc_round c \<and> pc_round c < lb_round lb)"
  using assms
  by (auto simp: prevote_value_def Let_def result_simps not_le split: if_splits option.splits)

lemma prevote_value_step:
  "prevote_value blake2s lb header pc validate = Ok b \<Longrightarrow> lb_step lb = AwaitingProposal \<or> lb_step lb = Prevoted"
  by (auto simp: prevote_value_def split: if_splits)

lemma precommit_value_Ok:
  "precommit_value blake2s lb header pc validate = Ok b \<Longrightarrow>
     verify_context pc (lb_committee lb) = Ok () \<and> b = pc_block pc \<and> pc_round pc = lb_round lb"
  by (auto simp: precommit_value_def result_simps split: if_splits)

lemma proposal_value_step:
  "proposal_value blake2s lb expected header pc validate = Ok p \<Longrightarrow> lb_step lb = AwaitingProposal
     \<and> prop_height p = ac_height (lb_committee lb) \<and> prop_committee_root p = ac_root (lb_committee lb)"
  by (auto simp: proposal_value_def Let_def result_simps split: if_splits)

text \<open>An operation either asks for nothing, or signs its request.\<close>

lemma local_exec_signs:
  assumes "local_exec blake2s ed ios op lb = (out, lb')"
  shows "case local_request blake2s ed op lb of
      None \<Rightarrow> out = {} \<and> lb_signer lb' = lb_signer lb
    | Some req \<Rightarrow> signs blake2s ed ios req out lb lb'"
proof -
  have issue: "signs blake2s ed ios (vote_request lb ph b locked) out lb lb'"
    if e: "map_prod (digests (vote_signing_hash blake2s)) id (local_issue blake2s ed ios ph b locked lb) = (out, lb')"
    for ph b locked
  proof -
    obtain r where r: "local_issue blake2s ed ios ph b locked lb = (r, lb')"
      "out = digests (vote_signing_hash blake2s) r"
      using e by (cases "local_issue blake2s ed ios ph b locked lb") auto
    from r(1) show ?thesis by (cases rule: local_issue_cases) (simp_all add: r(2))
  qed
  show ?thesis
  proof (cases op)
    case (Propose expected header pc validate)
    show ?thesis
    proof (cases "proposal_value blake2s lb expected header pc validate")
      case (Inr p)
      with Propose assms proposal_value_step [OF Inr] show ?thesis
        by (auto simp: local_propose_def signs_def signing_hash_message split: prod.splits sum.splits)
    qed (use Propose assms in \<open>auto simp: local_propose_def\<close>)
  next
    case (PrevoteProposal expected p header pc validate)
    with assms issue show ?thesis
      by (auto simp: local_prevote_proposal_def local_prevote_def prevote_request_def split: sum.splits)
  next
    case (PrevoteHeader header pc validate)
    with assms issue show ?thesis
      by (auto simp: local_prevote_def prevote_request_def split: sum.splits)
  next
    case (PrecommitHeader header pc validate)
    with assms issue show ?thesis
      by (auto simp: local_precommit_def split: sum.splits)
  next
    case (TimeoutProposal r)
    with assms issue show ?thesis by (auto simp: local_timeout_proposal_def split: if_splits)
  next
    case (TimeoutPrevote r)
    with assms issue show ?thesis by (auto simp: local_timeout_prevote_def split: if_splits)
  next
    case (TimeoutPrecommit r)
    with assms show ?thesis by (auto simp: local_timeout_precommit_def split: if_splits option.splits)
  next
    case (FinalizeBlock hst header cert validate)
    with assms show ?thesis by (auto simp: local_finalize_def split: if_splits sum.splits)
  qed
qed

text \<open>Certificates handed to an operation prove their quorum.\<close>

definition proved :: "(u64 \<Rightarrow> u32 \<Rightarrow> hash256 \<Rightarrow> bool) \<Rightarrow> local_bft \<Rightarrow> local_op \<Rightarrow> bool" where
  "proved P lb op \<longleftrightarrow> (\<forall>pc \<in> op_certificates op. verify_context pc (lb_committee lb) = Ok () \<longrightarrow>
     P (ac_height (lb_committee lb)) (pc_round pc) (pc_block pc))"

lemma local_issue_ok:
  assumes ok: "lb_ok P com v lb"
    and lock: "lock_ok P (ac_height (lb_committee lb)) (lb_round lb) (ph = Precommit) locked"
  shows "lb_ok P com v (snd (local_issue blake2s ed ios ph b locked lb))"
proof -
  obtain r lb' where issue: "local_issue blake2s ed ios ph b locked lb = (r, lb')" by fastforce
  then show ?thesis
  proof (cases rule: local_issue_cases)
    case (refused sg e)
    with ok issue show ?thesis by (simp add: lb_ok_def)
  next
    case (issued sg)
    with ok lock issue show ?thesis by (cases ph) (simp_all add: lb_ok_def phase_step_def)
  qed
qed

lemma lb_ok_early:
  "lb_ok P com v lb \<Longrightarrow> lb_step lb = AwaitingProposal \<or> lb_step lb = Prevoted \<Longrightarrow>
   lock_ok P (ac_height (lb_committee lb)) (lb_round lb) late (lb_locked lb)"
  by (auto simp: lb_ok_def intro: lock_ok_late)

lemma precommit_lock_ok:
  assumes "precommit_value blake2s lb header pc validate = Ok b" and "proved P lb (PrecommitHeader header pc validate)"
  shows "lock_ok P (ac_height (lb_committee lb)) (lb_round lb) True (Some \<lparr>lock_round = lb_round lb, lock_block = b\<rparr>)"
  using precommit_value_Ok [OF assms(1)] assms(2) by (auto simp: lock_ok_def proved_def)

lemma local_exec_ok:
  assumes ok: "lb_ok P com v lb" and proved: "proved P lb op"
  shows "lb_ok P com v (snd (local_exec blake2s ed ios op lb))"
proof (cases op)
  case (Propose expected header pc validate)
  with ok show ?thesis by (auto simp: local_propose_def lb_ok_def split: sum.splits prod.splits)
next
  case (PrevoteProposal expected p header pc validate)
  with ok show ?thesis
    by (auto simp: local_prevote_proposal_def local_prevote_def split: sum.splits
        intro: local_issue_ok [OF ok lb_ok_early [OF ok prevote_value_step]])
next
  case (PrevoteHeader header pc validate)
  with ok show ?thesis
    by (auto simp: local_prevote_def split: sum.splits
        intro: local_issue_ok [OF ok lb_ok_early [OF ok prevote_value_step]])
next
  case (PrecommitHeader header pc validate)
  with ok proved precommit_lock_ok [of blake2s lb header pc validate] show ?thesis
    by (auto simp: local_precommit_def split: sum.splits intro: local_issue_ok [OF ok])
next
  case (TimeoutProposal r)
  with ok show ?thesis
    by (auto simp: local_timeout_proposal_def split: if_splits intro: local_issue_ok [OF ok lb_ok_early [OF ok]])
next
  case (TimeoutPrevote r)
  with ok show ?thesis
    by (auto simp: local_timeout_prevote_def split: if_splits intro: local_issue_ok [OF ok lb_ok_early [OF ok]])
next
  case (TimeoutPrecommit r)
  have "lock_ok P h nxt False locked" if "lock_ok P h rd late locked" "checked_add rd 1 = Some nxt" for h nxt rd late locked
  proof -
    have "unat nxt = Suc (unat rd)" using that(2) unfolding checked_add_Some by (elim conjE) simp
    then have "rd < nxt" by (simp add: word_less_nat_alt)
    with that(1) show ?thesis by (auto simp: lock_ok_def)
  qed
  with TimeoutPrecommit ok show ?thesis
    by (auto simp: local_timeout_precommit_def lb_ok_def split: if_splits option.splits)
next
  case (FinalizeBlock hst header cert validate)
  with ok show ?thesis
    by (auto simp: local_finalize_def lb_ok_def lock_ok_def split: if_splits sum.splits)
qed

lemma local_request_ok:
  assumes ok: "lb_ok P com v lb" and proved: "proved P lb op"
    and req: "local_request blake2s ed op lb = Some (m, pos, s)" and m: "m \<in> hs"
  shows "entry_ok blake2s P com hs v (pos, blake2s m, Some s)"
proof -
  let ?h = "ac_height (lb_committee lb)" and ?ac = "lb_committee lb"
  have com: "?ac = com ?h" and v: "lb_voter lb = v" using ok by (simp_all add: lb_ok_def)
  have vote: "entry_ok blake2s P com hs v (pos, blake2s m, Some s)"
    if "vote_request lb ph b locked = (m, pos, s)"
      and "lock_ok P ?h (lb_round lb) (ph = Precommit) locked"
      and "\<And>x l. ph = Prevote \<Longrightarrow> b = Some x \<Longrightarrow> locked = Some l \<Longrightarrow>
        lock_block l = x \<or> (\<exists>vr. P ?h vr x \<and> lock_round l < vr \<and> vr < lb_round lb)"
      and "\<And>x. ph = Precommit \<Longrightarrow> b = Some x \<Longrightarrow> locked = Some \<lparr>lock_round = lb_round lb, lock_block = x\<rparr>"
    for ph b locked
  proof (cases ph)
    case Prevote
    with that m com v show ?thesis
      using entry_ok.prevote [of com ?h v "lb_round lb" b hs P s blake2s]
      by (auto simp: vote_request_def unsigned_slot_vote phase_code_def)
  next
    case Precommit
    with that m com v show ?thesis
      using entry_ok.precommit [of com ?h v "lb_round lb" b hs P s blake2s]
      by (auto simp: vote_request_def unsigned_slot_vote phase_code_def)
  qed
  have pre: ?thesis if r: "prevote_request blake2s header pc validate lb = Some (m, pos, s)"
    and c: "set_option pc \<subseteq> op_certificates op" for header pc validate
  proof -
    obtain b where b: "prevote_value blake2s lb header pc validate = Ok b"
      "vote_request lb Prevote b (lb_locked lb) = (m, pos, s)"
      using r by (auto simp: prevote_request_def split: sum.splits)
    show ?thesis
      using lb_ok_early [OF ok prevote_value_step [OF b(1)]] prevote_value_Ok [OF b(1)] proved c
      by (intro vote [OF b(2)]) (fastforce simp: proved_def)+
  qed
  show ?thesis
  proof (cases op)
    case (Propose expected header pc validate)
    with req obtain p where p: "proposal_value blake2s lb expected header pc validate = Ok p"
      "m = proposal_message p" "pos = SigningPosition ?h (lb_round lb) PROPOSAL_PHASE" "sf_locked s = lb_locked lb"
      by (auto split: sum.splits)
    then show ?thesis
      using m lb_ok_early [OF ok, of False] proposal_value_step [OF p(1)]
      by (auto intro: entry_ok.proposal)
  next
    case (PrecommitHeader header pc validate)
    with req obtain b where b: "precommit_value blake2s lb header pc validate = Ok b"
      "vote_request lb Precommit (Some b) (Some \<lparr>lock_round = lb_round lb, lock_block = b\<rparr>) = (m, pos, s)"
      by (auto split: sum.splits)
    show ?thesis
      using precommit_lock_ok [OF b(1)] proved PrecommitHeader by (intro vote [OF b(2)]) auto
  next
    case (TimeoutProposal r)
    with req show ?thesis
      using lb_ok_early [OF ok] by (intro vote [of Prevote None "lb_locked lb"]) (auto split: if_splits)
  next
    case (TimeoutPrevote r)
    with req show ?thesis
      using lb_ok_early [OF ok] by (intro vote [of Precommit None "lb_locked lb"]) (auto split: if_splits)
  qed (use req pre in \<open>auto split: sum.splits\<close>)
qed

section \<open>A validator over its whole life\<close>

datatype node = Voting local_bft | Idle durable_signer | Stopped "byte list" "byte list option"

fun node_signer :: "node \<Rightarrow> durable_signer option" where
  "node_signer (Voting lb) = Some (lb_signer lb)"
| "node_signer (Idle sg) = Some sg"
| "node_signer (Stopped f a) = None"

definition node_files :: "durable_signer \<Rightarrow> node" where
  "node_files sg = Stopped (jr_file (sg_journal sg)) (map_option an_file (sg_anchor sg))"

text \<open>A prevote certificate built by \<open>PrevoteCertificate::from_votes\<close> from votes that were seen.\<close>

definition received ::
  "(byte list \<Rightarrow> hash256) \<Rightarrow> ed25519 \<Rightarrow> (u64 \<Rightarrow> auth_committee) \<Rightarrow> vote set \<Rightarrow> prevote_certificate \<Rightarrow> bool" where
  "received blake2s ed com seen pc \<longleftrightarrow>
     (\<exists>hst h votes. prevotes_from_votes blake2s ed hst (com h) votes = Ok pc \<and> set votes \<subseteq> seen)"

definition admission_message :: "(byte list \<Rightarrow> hash256) \<Rightarrow> admission_intent \<Rightarrow> bytes64 \<Rightarrow> validator_id \<Rightarrow> byte list" where
  "admission_message blake2s i consent voter = domain_preimage (ascii ''astrolune.admission.approval.v1'')
     (be_bytes (admission_request_id blake2s i consent) @ be_bytes voter)"

definition governance_message :: "(byte list \<Rightarrow> hash256) \<Rightarrow> governance_intent \<Rightarrow> validator_id \<Rightarrow> byte list" where
  "governance_message blake2s i voter = domain_preimage (ascii ''astrolune.governance.approval.v1'')
     (be_bytes (governance_id blake2s i) @ be_bytes voter)"

text \<open>
  \<open>hs\<close> holds the messages hashed for signing and the slot records of the journal;
  \<open>rel\<close> holds the digests the key has signed.
\<close>

inductive node_run ::
  "(byte list \<Rightarrow> hash256) \<Rightarrow> ed25519 \<Rightarrow> signing_context \<Rightarrow> (u64 \<Rightarrow> auth_committee) \<Rightarrow> vote set \<Rightarrow>
   byte list set \<Rightarrow> bytes32 \<Rightarrow> hash256 set \<Rightarrow> node \<Rightarrow> bool"
  for blake2s ed ctx com seen hs seed where
  provision: "signer_create_protected blake2s ed io_write False ctx seed = Ok sg \<Longrightarrow>
    node_run blake2s ed ctx com seen hs seed {} (Idle sg)"
| begin_height: "node_run blake2s ed ctx com seen hs seed rel (Idle sg) \<Longrightarrow> local_new (com h) sg genesis = Ok lb \<Longrightarrow>
    node_run blake2s ed ctx com seen hs seed rel (Voting lb)"
| operate: "node_run blake2s ed ctx com seen hs seed rel (Voting lb) \<Longrightarrow>
    (\<And>pc. pc \<in> op_certificates op \<Longrightarrow> received blake2s ed com seen pc) \<Longrightarrow>
    (\<And>m pos s. local_request blake2s ed op lb = Some (m, pos, s) \<Longrightarrow>
       m \<in> hs \<and> write_hashes blake2s pos (blake2s m) s (sg_journal (lb_signer lb)) \<subseteq> hs) \<Longrightarrow>
    local_exec blake2s ed ios op lb = (out, lb') \<Longrightarrow>
    node_run blake2s ed ctx com seen hs seed (rel \<union> out) (Voting lb')"
| into_signer: "node_run blake2s ed ctx com seen hs seed rel (Voting lb) \<Longrightarrow>
    node_run blake2s ed ctx com seen hs seed rel (Idle (lb_signer lb))"
| admit: "node_run blake2s ed ctx com seen hs seed rel st \<Longrightarrow> node_signer st = Some sg \<Longrightarrow>
    approve_admission blake2s ed sg ai consent = Ok sig \<Longrightarrow> admission_message blake2s ai consent (sg_validator sg) \<in> hs \<Longrightarrow>
    node_run blake2s ed ctx com seen hs seed
      (insert (admission_approval_hash blake2s ai consent (sg_validator sg)) rel) st"
| govern: "node_run blake2s ed ctx com seen hs seed rel st \<Longrightarrow> node_signer st = Some sg \<Longrightarrow>
    approve_governance blake2s ed sg gi = Ok sig \<Longrightarrow> governance_message blake2s gi (sg_validator sg) \<in> hs \<Longrightarrow>
    node_run blake2s ed ctx com seen hs seed (insert (governance_approval_hash blake2s gi (sg_validator sg)) rel) st"
| crash: "node_run blake2s ed ctx com seen hs seed rel st \<Longrightarrow> node_signer st = Some sg \<Longrightarrow>
    node_run blake2s ed ctx com seen hs seed rel (node_files sg)"
| restart: "node_run blake2s ed ctx com seen hs seed rel (Stopped f a) \<Longrightarrow>
    signer_open blake2s ed True ctx seed f = Ok sg \<Longrightarrow> node_run blake2s ed ctx com seen hs seed rel (Idle sg)"
| pair: "node_run blake2s ed ctx com seen hs seed rel (Stopped f a) \<Longrightarrow>
    signer_create_anchor blake2s ed True io_write False ctx seed f = Ok sg \<Longrightarrow>
    node_run blake2s ed ctx com seen hs seed rel (Idle sg)"
| restart_anchor: "node_run blake2s ed ctx com seen hs seed rel (Stopped f a) \<Longrightarrow>
    signer_open_with_anchor blake2s ed True True io_write ctx seed f f' = Ok sg \<Longrightarrow>
    node_run blake2s ed ctx com seen hs seed rel (Idle sg)"

text \<open>The quorums that \<open>seen\<close> proves.\<close>

definition prevoted ::
  "(byte list \<Rightarrow> hash256) \<Rightarrow> ed25519 \<Rightarrow> (u64 \<Rightarrow> auth_committee) \<Rightarrow> vote set \<Rightarrow> u64 \<Rightarrow> u32 \<Rightarrow> hash256 \<Rightarrow> bool" where
  "prevoted blake2s ed com seen h r b \<longleftrightarrow>
     (\<exists>vs. quorum_votes blake2s ed (com h) r Prevote b vs \<and> set vs \<subseteq> seen)"

definition committees_ok :: "(byte list \<Rightarrow> hash256) \<Rightarrow> ed25519 \<Rightarrow> (u64 \<Rightarrow> auth_committee) \<Rightarrow> bool" where
  "committees_ok blake2s ed com \<longleftrightarrow> (\<forall>h. committee_ok blake2s ed (com h) \<and> ac_height (com h) = h)"

lemma received_proved:
  assumes com: "committees_ok blake2s ed com" and lb: "lb_ok P com v lb"
    and rec: "\<And>pc. pc \<in> op_certificates op \<Longrightarrow> received blake2s ed com seen pc"
  shows "proved (prevoted blake2s ed com seen) lb op"
  unfolding proved_def
proof (intro ballI impI)
  fix pc
  assume mem: "pc \<in> op_certificates op" and ctx: "verify_context pc (lb_committee lb) = Ok ()"
  obtain hst h votes where votes: "prevotes_from_votes blake2s ed hst (com h) votes = Ok pc" "set votes \<subseteq> seen"
    using rec [OF mem] unfolding received_def by blast
  have ok: "committee_ok blake2s ed (com h)" "ac_height (com h) = h" using com by (simp_all add: committees_ok_def)
  note pc = prevotes_from_votes_Ok [OF ok(1) votes(1)]
  have "h = ac_height (lb_committee lb)"
    using ctx pc(4) ok(2) by (auto simp: verify_context_def Let_def split: if_splits)
  with pc(5) votes(2) show "prevoted blake2s ed com seen (ac_height (lb_committee lb)) (pc_round pc) (pc_block pc)"
    by (auto simp: prevoted_def)
qed

definition approvals :: "byte list set \<Rightarrow> byte list set" where
  "approvals hs = {m \<in> hs. \<exists>x. m = domain_preimage (ascii ''astrolune.admission.approval.v1'') x
     \<or> m = domain_preimage (ascii ''astrolune.governance.approval.v1'') x}"

text \<open>The invariant of a validator: its log is justified and holds everything it signed.\<close>

definition node_log ::
  "(byte list \<Rightarrow> hash256) \<Rightarrow> ed25519 \<Rightarrow> (u64 \<Rightarrow> auth_committee) \<Rightarrow> vote set \<Rightarrow> byte list set \<Rightarrow> validator_id \<Rightarrow>
   hash256 set \<Rightarrow> decision list \<Rightarrow> decision option \<Rightarrow> bool" where
  "node_log blake2s ed com seen hs v rel ds pend \<longleftrightarrow> log_ok True ds
     \<and> (\<forall>d \<in> set ds \<union> set_option pend. entry_ok blake2s (prevoted blake2s ed com seen) com hs v d)
     \<and> rel \<subseteq> dec_msg ` set ds \<union> blake2s ` approvals hs"

definition node_stands ::
  "(byte list \<Rightarrow> hash256) \<Rightarrow> ed25519 \<Rightarrow> signing_context \<Rightarrow> (u64 \<Rightarrow> auth_committee) \<Rightarrow> vote set \<Rightarrow>
   byte list set \<Rightarrow> bytes32 \<Rightarrow> decision list \<Rightarrow> decision option \<Rightarrow> node \<Rightarrow> bool" where
  "node_stands blake2s ed ctx com seen hs seed ds pend st =
     (case st of
        Voting lb \<Rightarrow> journal_stands blake2s ctx (sk_public ed seed) hs ds pend (sg_journal (lb_signer lb))
          \<and> sg_validator (lb_signer lb) = blake2s (be_bytes (sk_public ed seed))
          \<and> (pend = None \<longrightarrow> lb_ok (prevoted blake2s ed com seen) com (blake2s (be_bytes (sk_public ed seed))) lb)
      | Idle sg \<Rightarrow> journal_stands blake2s ctx (sk_public ed seed) hs ds pend (sg_journal sg)
          \<and> sg_validator sg = blake2s (be_bytes (sk_public ed seed))
      | Stopped f a \<Rightarrow> file_stands blake2s ctx (sk_public ed seed) hs ds pend f)"

lemma local_new_ok:
  assumes com: "committees_ok blake2s ed com" and new: "local_new (com h) sg genesis = Ok lb"
    and j: "journal_stands blake2s ctx pk hs ds None (sg_journal sg)"
    and log: "\<And>d. d \<in> set ds \<Longrightarrow> entry_ok blake2s P com hs v d" and v: "sg_validator sg = v"
  shows "lb_ok P com v lb"
proof -
  have h: "ac_height (com h) = h" using com by (simp add: committees_ok_def)
  obtain r step locked where resume: "local_resume (com h) (sg_journal sg) = Ok (r, step, locked)"
    and lb: "lb_committee lb = com h" "lb_voter lb = v" "lb_round lb = r" "lb_step lb = step" "lb_locked lb = locked"
    using new v by (auto simp: local_new_def signer_validator_id_def result_simps split: if_splits)
  have j: "jr_last (sg_journal sg) = log_last ds" "jr_safety (sg_journal sg) = log_safety ds"
    using journal_stands_log [OF j] by simp_all
  have "lock_ok P h r (\<not> (step = AwaitingProposal \<or> step = Prevoted)) locked"
  proof (cases "locked = None")
    case False
    then obtain l pos m s where last: "last_opt None ds = Some (pos, m, Some s)" "sf_locked s = Some l" "locked = Some l"
      "pos_height pos = h" "pos_round pos = r"
      and step: "step = (if pos_phase pos = PROPOSAL_PHASE then AwaitingProposal
        else if pos_phase pos = PREVOTE_PHASE then Prevoted else Precommitted)"
      using resume h
      by (auto simp: local_resume_def last_position_def j log_last_def log_safety_def result_simps
          split: option.splits if_splits prod.splits)
    then have "entry_ok blake2s P com hs v (pos, m, Some s)"
      using log [of "(pos, m, Some s)"] by (metis last_in_set last_opt_None option.distinct(1) option.inject)
    then show ?thesis
      by cases (use last step in \<open>auto simp: PROPOSAL_PHASE_def PREVOTE_PHASE_def PRECOMMIT_PHASE_def\<close>)
  qed (simp add: lock_ok_def)
  then show ?thesis using h by (simp add: lb_ok_def lb)
qed

lemma node_log_attempt:
  assumes "node_log blake2s ed com seen hs v rel ds pend" and "attempt d (ds, pend) (es, pend')"
    and "pend = None \<Longrightarrow> entry_ok blake2s (prevoted blake2s ed com seen) com hs v d"
    and "out \<subseteq> {dec_msg d}" and "out \<noteq> {} \<Longrightarrow> d \<in> set es"
  shows "node_log blake2s ed com seen hs v (rel \<union> out) es pend'"
proof -
  have "set ds \<subseteq> set es" using assms(2) by (auto elim: attempt.cases)
  moreover have "out \<subseteq> dec_msg ` set es" using assms(4,5) by blast
  ultimately have "rel \<union> out \<subseteq> dec_msg ` set es \<union> blake2s ` approvals hs"
    using assms(1) unfolding node_log_def by blast
  with assms(1-3) show ?thesis by (auto simp: node_log_def elim!: attempt.cases)
qed

lemma node_reopen:
  assumes log: "node_log blake2s ed com seen hs v rel ds pend" and inj: "inj_on blake2s hs"
    and f: "file_stands blake2s ctx pk hs ds pend f" and opened: "journal_open blake2s True ctx pk f = Ok j"
  shows "\<exists>es. journal_stands blake2s ctx pk hs es None j \<and> node_log blake2s ed com seen hs v rel es None"
proof -
  from reopen_stands [OF f inj opened] obtain es where es: "journal_stands blake2s ctx pk hs es None j"
    and ext: "es = ds \<or> (\<exists>d. pend = Some d \<and> es = ds @ [d])" by blast
  have "log_ok True es" using journal_stands_log [OF es] by blast
  with log ext es show ?thesis by (intro exI [of _ es]) (auto simp: node_log_def)
qed

lemma node_operate:
  assumes com: "committees_ok blake2s ed com"
    and st: "node_stands blake2s ed ctx com seen hs seed ds pend (Voting lb)"
    and log: "node_log blake2s ed com seen hs (blake2s (be_bytes (sk_public ed seed))) rel ds pend"
    and rec: "\<And>pc. pc \<in> op_certificates op \<Longrightarrow> received blake2s ed com seen pc"
    and hs: "\<And>m pos s. local_request blake2s ed op lb = Some (m, pos, s) \<Longrightarrow>
       m \<in> hs \<and> write_hashes blake2s pos (blake2s m) s (sg_journal (lb_signer lb)) \<subseteq> hs"
    and exec: "local_exec blake2s ed ios op lb = (out, lb')"
  shows "\<exists>es pend'. node_stands blake2s ed ctx com seen hs seed es pend' (Voting lb')
    \<and> node_log blake2s ed com seen hs (blake2s (be_bytes (sk_public ed seed))) (rel \<union> out) es pend'"
proof -
  let ?P = "prevoted blake2s ed com seen" and ?pk = "sk_public ed seed"
  let ?v = "blake2s (be_bytes ?pk)"
  have j: "journal_stands blake2s ctx ?pk hs ds pend (sg_journal (lb_signer lb))"
    and v: "sg_validator (lb_signer lb) = ?v" and lb: "pend = None \<Longrightarrow> lb_ok ?P com ?v lb"
    using st by (simp_all add: node_stands_def)
  have proved: "proved ?P lb op" if "pend = None"
    using received_proved [OF com lb [OF that], of op seen] rec by blast
  have lb': "lb_ok ?P com ?v lb'" if "pend = None"
    using local_exec_ok [OF lb [OF that] proved [OF that], of blake2s ed ios] exec by simp
  show ?thesis
  proof (cases "local_request blake2s ed op lb")
    case None
    then have "out = {}" "lb_signer lb' = lb_signer lb" using local_exec_signs [OF exec] by simp_all
    with j v lb' log show ?thesis by (intro exI [of _ ds] exI [of _ pend]) (simp add: node_stands_def)
  next
    case (Some req)
    obtain m pos s where req: "req = (m, pos, s)" by (cases req)
    have hs: "m \<in> hs" "write_hashes blake2s pos (blake2s m) s (sg_journal (lb_signer lb)) \<subseteq> hs"
      using hs [of m pos s] Some req by simp_all
    obtain r where sign: "sign_protected blake2s ed ios (lb_handle lb) pos (blake2s m) s (lb_signer lb) = (r, lb_signer lb')"
      and out: "out \<subseteq> {blake2s m}" "out \<noteq> {} \<longrightarrow> (\<exists>sig. r = Ok sig)"
      using local_exec_signs [OF exec] by (auto simp: Some req signs_def)
    obtain es pend' where es: "journal_stands blake2s ctx ?pk hs es pend' (sg_journal (lb_signer lb'))"
      and step: "attempt (pos, blake2s m, Some s) (ds, pend) (es, pend')"
      and rel: "\<forall>sig. r = Ok sig \<longrightarrow> pend' = None \<and> (pos, blake2s m, Some s) \<in> set es"
      using sign_protected_stands [OF j hs(2) sign] by blast
    have "entry_ok blake2s ?P com hs ?v (pos, blake2s m, Some s)" if "pend = None"
      using local_request_ok [OF lb [OF that] proved [OF that] Some [unfolded req] hs(1)] .
    from node_log_attempt [OF log step this, of out] out rel
    have "node_log blake2s ed com seen hs ?v (rel \<union> out) es pend'" by auto
    moreover have "sg_validator (lb_signer lb') = ?v"
      using sign_with_fields(3) [OF sign [unfolded sign_protected_def]] v by simp
    moreover have "lb_ok ?P com ?v lb'" if "pend' = None"
      using lb' step that by (auto elim: attempt.cases)
    ultimately show ?thesis using es by (intro exI [of _ es] exI [of _ pend']) (simp add: node_stands_def)
  qed
qed

lemma approval_hash_message:
  "admission_approval_hash blake2s ai consent v = blake2s (admission_message blake2s ai consent v)"
  "governance_approval_hash blake2s gi v = blake2s (governance_message blake2s gi v)"
  by (simp_all add: admission_approval_hash_def admission_message_def governance_approval_hash_def
      governance_message_def domain_hash_def)

lemma node_log_approval:
  "node_log blake2s ed com seen hs v rel ds pend \<Longrightarrow> m \<in> approvals hs \<Longrightarrow>
   node_log blake2s ed com seen hs v (insert (blake2s m) rel) ds pend"
  by (auto simp: node_log_def)

lemma node_files_stand:
  "node_stands blake2s ed ctx com seen hs seed ds pend st \<Longrightarrow> node_signer st = Some sg \<Longrightarrow>
   node_stands blake2s ed ctx com seen hs seed ds pend (node_files sg)"
  by (cases st) (auto simp: node_stands_def node_files_def intro: journal_stands_file)

lemma node_run_stands:
  assumes "node_run blake2s ed ctx com seen hs seed rel st"
    and com: "committees_ok blake2s ed com" and inj: "inj_on blake2s hs"
  shows "\<exists>ds pend. node_stands blake2s ed ctx com seen hs seed ds pend st
    \<and> node_log blake2s ed com seen hs (blake2s (be_bytes (sk_public ed seed))) rel ds pend"
  using assms(1)
proof induction
  case (provision io_write sg)
  then have "create_mode blake2s io_write False ctx (sk_public ed seed) True = Ok (sg_journal sg)"
    "sg_validator sg = blake2s (be_bytes (sk_public ed seed))"
    by (auto simp: signer_create_protected_def signer_initialize_def Let_def ed25519_public_key_def
        result_simps split: if_splits)
  with create_stands [OF this(1), of hs] show ?case
    by (intro exI [of _ "[]"] exI [of _ None]) (simp add: node_stands_def node_log_def log_ok_def)
next
  case (begin_height rel sg h genesis lb)
  then obtain ds pend where st: "node_stands blake2s ed ctx com seen hs seed ds pend (Idle sg)"
    and log: "node_log blake2s ed com seen hs (blake2s (be_bytes (sk_public ed seed))) rel ds pend" by blast
  have signer: "lb_signer lb = sg"
    using begin_height(2) by (auto simp: local_new_def result_simps split: if_splits)
  have "lb_ok (prevoted blake2s ed com seen) com (blake2s (be_bytes (sk_public ed seed))) lb" if "pend = None"
    using local_new_ok [OF com begin_height(2), where ctx = ctx and pk = "sk_public ed seed" and hs = hs and ds = ds] st log that
    by (simp add: node_stands_def node_log_def)
  with st log signer show ?case by (intro exI [of _ ds] exI [of _ pend]) (simp add: node_stands_def)
next
  case (operate rel lb op ios out lb')
  then show ?case using node_operate [OF com] by blast
next
  case (into_signer rel lb)
  then show ?case by (fastforce simp: node_stands_def)
next
  case (admit rel st sg ai consent sig)
  moreover have "admission_message blake2s ai consent (sg_validator sg) \<in> approvals hs"
    using admit by (auto simp: approvals_def admission_message_def)
  ultimately show ?case using node_log_approval unfolding approval_hash_message by blast
next
  case (govern rel st sg gi sig)
  moreover have "governance_message blake2s gi (sg_validator sg) \<in> approvals hs"
    using govern by (auto simp: approvals_def governance_message_def)
  ultimately show ?case using node_log_approval unfolding approval_hash_message by blast
next
  case (crash rel st sg)
  then show ?case using node_files_stand by blast
next
  case (restart rel f a sg)
  then show ?case using signer_open_journal [OF restart(2)] node_reopen [OF _ inj]
    by (simp add: node_stands_def) blast
next
  case (pair rel f a io_write sg)
  then show ?case using signer_create_anchor_open [OF pair(2)] signer_open_journal node_reopen [OF _ inj]
    by (simp add: node_stands_def) fastforce
next
  case (restart_anchor rel f a io_write f' sg)
  then show ?case using signer_open_with_anchor_open [OF restart_anchor(2)] signer_open_journal node_reopen [OF _ inj]
    by (simp add: node_stands_def) fastforce
qed

section \<open>Agreement\<close>

lemma vote_message_inject: "vote_message v = vote_message w \<longleftrightarrow> vote_signing_bytes v = vote_signing_bytes w"
  by (simp add: vote_message_def domain_preimage_inject DOMAIN_CONSENSUS_VOTE_def)

lemma vote_message_separate:
  "vote_message v \<noteq> proposal_message p" "vote_message v \<notin> approvals hs"
  by (simp_all add: vote_message_def proposal_message_def approvals_def domain_preimage_inject
      DOMAIN_CONSENSUS_VOTE_def DOMAIN_CONSENSUS_PROPOSAL_def ascii_def)

text \<open>A verified vote of an honest validator is an entry of its log.\<close>

lemma honest_vote_entry:
  assumes com: "committees_ok blake2s ed com" and log: "node_log blake2s ed com seen hs v rel ds pend"
    and inj: "inj_on blake2s (hs \<union> vote_message ` seen)" and seen: "w \<in> seen"
    and rel: "vote_signing_hash blake2s w \<in> rel"
  obtains s where "(SigningPosition (vote_height w) (vote_round w) (phase_code (vote_phase w)),
       vote_signing_hash blake2s w, Some s) \<in> set ds"
    "lock_ok (prevoted blake2s ed com seen) (vote_height w) (vote_round w) (vote_phase w = Precommit) (sf_locked s)"
    "\<And>x l. vote_phase w = Prevote \<Longrightarrow> vote_block w = Some x \<Longrightarrow> sf_locked s = Some l \<Longrightarrow>
       lock_block l = x \<or> (\<exists>vr. prevoted blake2s ed com seen (vote_height w) vr x \<and> lock_round l < vr \<and> vr < vote_round w)"
    "\<And>x. vote_phase w = Precommit \<Longrightarrow> vote_block w = Some x \<Longrightarrow>
       sf_locked s = Some \<lparr>lock_round = vote_round w, lock_block = x\<rparr>"
proof -
  have same: "m = vote_message w" if "blake2s m = blake2s (vote_message w)" "m \<in> hs" for m
    using inj that seen by (auto dest: inj_onD)
  have "blake2s (vote_message w) \<notin> blake2s ` approvals hs"
  proof
    assume "blake2s (vote_message w) \<in> blake2s ` approvals hs"
    then obtain m where m: "m \<in> approvals hs" "blake2s m = blake2s (vote_message w)" by auto
    with same [of m] vote_message_separate(2) [of w hs] show False by (auto simp: approvals_def)
  qed
  then obtain d where d: "d \<in> set ds" "dec_msg d = blake2s (vote_message w)"
    using log rel by (auto simp: node_log_def signing_hash_message)
  have "entry_ok blake2s (prevoted blake2s ed com seen) com hs v d" using log d(1) by (simp add: node_log_def)
  then show thesis
  proof cases
    case (proposal p h r s)
    with d(2) same [of "proposal_message p"] vote_message_separate(1) [of w p] show thesis by auto
  next
    case (prevote h r b s)
    then have "vote_signing_bytes (slot_vote (com h) v r Prevote b) = vote_signing_bytes w"
      using d(2) same [of "vote_message (slot_vote (com h) v r Prevote b)"] by (simp add: vote_message_inject)
    then have w: "vote_height w = h" "vote_round w = r" "vote_phase w = Prevote" "vote_block w = b"
      using com by (cases w; auto simp: vote_signing_bytes_inject slot_vote_def committees_ok_def)+
    show thesis
      using prevote w d by (intro that [of s]) (auto simp: phase_code_def signing_hash_message)
  next
    case (precommit h r b s)
    then have "vote_signing_bytes (slot_vote (com h) v r Precommit b) = vote_signing_bytes w"
      using d(2) same [of "vote_message (slot_vote (com h) v r Precommit b)"] by (simp add: vote_message_inject)
    then have w: "vote_height w = h" "vote_round w = r" "vote_phase w = Precommit" "vote_block w = b"
      using com by (cases w; auto simp: vote_signing_bytes_inject slot_vote_def committees_ok_def)+
    show thesis
      using precommit w d by (intro that [of s]) (auto simp: phase_code_def signing_hash_message)
  qed
qed

lemma honest_prevote:
  assumes "committees_ok blake2s ed com" "node_log blake2s ed com seen hs v rel ds pend"
    "inj_on blake2s (hs \<union> vote_message ` seen)" "w \<in> seen" "vote_signing_hash blake2s w \<in> rel"
    and w: "vote_height w = h" "vote_round w = r" "vote_phase w = Prevote" "vote_block w = Some x"
  shows "\<exists>s. (SigningPosition h r PREVOTE_PHASE, vote_signing_hash blake2s w, Some s) \<in> set ds
    \<and> lock_ok (prevoted blake2s ed com seen) h r False (sf_locked s)
    \<and> (\<forall>l. sf_locked s = Some l \<longrightarrow> lock_block l = x
         \<or> (\<exists>vr. prevoted blake2s ed com seen h vr x \<and> lock_round l < vr \<and> vr < r))"
proof -
  obtain s where "(SigningPosition h r PREVOTE_PHASE, vote_signing_hash blake2s w, Some s) \<in> set ds"
    "lock_ok (prevoted blake2s ed com seen) h r False (sf_locked s)"
    "\<And>y l. vote_block w = Some y \<Longrightarrow> sf_locked s = Some l \<Longrightarrow> lock_block l = y
         \<or> (\<exists>vr. prevoted blake2s ed com seen h vr y \<and> lock_round l < vr \<and> vr < r)"
    by (rule honest_vote_entry [OF assms(1-5)]) (simp add: phase_code_def w)
  with w(4) show ?thesis by blast
qed

lemma honest_precommit:
  assumes "committees_ok blake2s ed com" "node_log blake2s ed com seen hs v rel ds pend"
    "inj_on blake2s (hs \<union> vote_message ` seen)" "w \<in> seen" "vote_signing_hash blake2s w \<in> rel"
    and w: "vote_height w = h" "vote_round w = r" "vote_phase w = Precommit" "vote_block w = Some x"
  shows "\<exists>s. (SigningPosition h r PRECOMMIT_PHASE, vote_signing_hash blake2s w, Some s) \<in> set ds
    \<and> prevoted blake2s ed com seen h r x \<and> sf_locked s = Some \<lparr>lock_round = r, lock_block = x\<rparr>"
proof -
  obtain s where s: "(SigningPosition h r PRECOMMIT_PHASE, vote_signing_hash blake2s w, Some s) \<in> set ds"
    "lock_ok (prevoted blake2s ed com seen) h r True (sf_locked s)"
    "\<And>y. vote_block w = Some y \<Longrightarrow> sf_locked s = Some \<lparr>lock_round = r, lock_block = y\<rparr>"
    by (rule honest_vote_entry [OF assms(1-5)]) (simp add: phase_code_def w)
  with s(3) [OF w(4)] show ?thesis by (auto simp: lock_ok_def)
qed

lemma log_ok_later:
  assumes ok: "log_ok True ds" and d: "d \<in> set ds" "dec_safety d = Some s" and e: "e \<in> set ds" "dec_safety e = Some t"
    and less: "dec_pos d < dec_pos e"
  shows "validate_safety (dec_pos e) t (Some (dec_pos d, s)) = Ok ()"
proof -
  obtain xs ys where ds: "ds = xs @ d # ys" using d(1) by (meson split_list)
  have "e \<notin> set xs" "e \<noteq> d" using log_ok_sorted [OF ok] less by (auto simp: ds sorted_wrt_append)
  then have "e \<in> set ys" using e(1) ds by auto
  with log_ok_pair [OF ok [unfolded ds] _ d(2) e(2)] show ?thesis by blast
qed

text \<open>
  What the runs of the honest validators provide: justified logs, and no verified vote of an
  honest validator that its key did not sign.
\<close>

definition honest_logs ::
  "(byte list \<Rightarrow> hash256) \<Rightarrow> ed25519 \<Rightarrow> (u64 \<Rightarrow> auth_committee) \<Rightarrow> vote set \<Rightarrow> byte list set \<Rightarrow> validator_id set \<Rightarrow>
   (validator_id \<Rightarrow> hash256 set) \<Rightarrow> bool" where
  "honest_logs blake2s ed com seen hs honest rel \<longleftrightarrow> committees_ok blake2s ed com
     \<and> inj_on blake2s (hs \<union> vote_message ` seen)
     \<and> (\<forall>v \<in> honest. \<exists>ds pend. node_log blake2s ed com seen hs v (rel v) ds pend)
     \<and> (\<forall>w \<in> seen. vote_voter w \<in> honest \<longrightarrow> (\<exists>p. verify_vote blake2s ed (com (vote_height w)) w = Ok p) \<longrightarrow>
          vote_signing_hash blake2s w \<in> rel (vote_voter w))"

definition byzantine_minority :: "auth_committee \<Rightarrow> validator_id set \<Rightarrow> bool" where
  "byzantine_minority ac honest \<longleftrightarrow> 3 * set_power ac (members ac - honest) < unat (ac_total ac)"

lemma quorums_share_honest:
  assumes net: "honest_logs blake2s ed com seen hs honest rel" and byz: "byzantine_minority (com h) honest"
    and A: "quorum_votes blake2s ed (com h) r ph b vs" "set vs \<subseteq> seen"
    and B: "quorum_votes blake2s ed (com h) r' ph' b' vs'" "set vs' \<subseteq> seen"
  obtains v w w' ds pend where "node_log blake2s ed com seen hs v (rel v) ds pend" "w \<in> seen" "w' \<in> seen"
    "vote_signing_hash blake2s w \<in> rel v" "vote_signing_hash blake2s w' \<in> rel v"
    "vote_height w = h" "vote_round w = r" "vote_phase w = ph" "vote_block w = Some b"
    "vote_height w' = h" "vote_round w' = r'" "vote_phase w' = ph'" "vote_block w' = Some b'"
proof -
  have ok: "committee_ok blake2s ed (com h)" "ac_height (com h) = h"
    using net by (simp_all add: honest_logs_def committees_ok_def)
  obtain v where v: "v \<in> vote_voter ` set vs" "v \<in> vote_voter ` set vs'" "v \<notin> members (com h) - honest"
    using committee_quorums.honest_in_both [OF quorum_votes_members [OF A(1)] quorum_votes_members [OF B(1)],
        of "members (com h) - honest"] A(1) B(1) byz set_power_members [OF ok(1)]
    by (auto simp: quorum_votes_def byzantine_minority_def set_power_def)
  then have honest: "v \<in> honest" using quorum_votes_members [OF A(1)] by blast
  from v(1) A obtain w where w: "w \<in> seen" "vote_voter w = v" "\<exists>p. verify_vote blake2s ed (com h) w = Ok p"
    "vote_round w = r" "vote_phase w = ph" "vote_block w = Some b" by (auto simp: quorum_votes_def)
  from v(2) B obtain w' where w': "w' \<in> seen" "vote_voter w' = v" "\<exists>p. verify_vote blake2s ed (com h) w' = Ok p"
    "vote_round w' = r'" "vote_phase w' = ph'" "vote_block w' = Some b'" by (auto simp: quorum_votes_def)
  have "vote_height w = h" "vote_height w' = h" using w(3) w'(3) ok(2) by (auto simp: verify_vote_Ok)
  moreover from honest net obtain ds pend where "node_log blake2s ed com seen hs v (rel v) ds pend"
    by (auto simp: honest_logs_def)
  ultimately show thesis using w w' honest net by (intro that [of v ds pend w w']) (auto simp: honest_logs_def)
qed

lemma prevotes_agree:
  assumes net: "honest_logs blake2s ed com seen hs honest rel" and byz: "byzantine_minority (com h) honest"
    and A: "prevoted blake2s ed com seen h r b" and B: "prevoted blake2s ed com seen h r b'"
  shows "b = b'"
proof -
  have com: "committees_ok blake2s ed com" and inj: "inj_on blake2s (hs \<union> vote_message ` seen)"
    using net by (simp_all add: honest_logs_def)
  obtain v w w' ds pend where log: "node_log blake2s ed com seen hs v (rel v) ds pend"
    and w: "w \<in> seen" "vote_signing_hash blake2s w \<in> rel v"
      "vote_height w = h" "vote_round w = r" "vote_phase w = Prevote" "vote_block w = Some b"
    and w': "w' \<in> seen" "vote_signing_hash blake2s w' \<in> rel v"
      "vote_height w' = h" "vote_round w' = r" "vote_phase w' = Prevote" "vote_block w' = Some b'"
    using A B quorums_share_honest [OF net byz] unfolding prevoted_def by metis
  from honest_prevote [OF com log inj w] obtain s where
    s: "(SigningPosition h r PREVOTE_PHASE, vote_signing_hash blake2s w, Some s) \<in> set ds" by blast
  from honest_prevote [OF com log inj w'] obtain s' where
    s': "(SigningPosition h r PREVOTE_PHASE, vote_signing_hash blake2s w', Some s') \<in> set ds" by blast
  have "distinct (map dec_pos ds)" using log log_ok_sorted by (auto simp: node_log_def strict_sorted_iff)
  then have "vote_signing_hash blake2s w = vote_signing_hash blake2s w'"
    using s s' by (meson eq_key_imp_eq_value prod.inject)
  then have "vote_message w = vote_message w'"
    using inj w(1) w'(1) by (auto simp: signing_hash_message dest: inj_onD)
  with w w' show ?thesis
    by (cases w; cases w') (simp add: vote_message_inject vote_signing_bytes_inject)
qed

text \<open>A precommit quorum for \<open>b\<close> locks every later prevote quorum of the height to \<open>b\<close>.\<close>

lemma locked_prevotes:
  assumes net: "honest_logs blake2s ed com seen hs honest rel" and byz: "byzantine_minority (com h) honest"
    and cert: "quorum_votes blake2s ed (com h) r Precommit b vs" "set vs \<subseteq> seen"
    and "prevoted blake2s ed com seen h r' b'" and "r \<le> r'"
  shows "b' = b"
  using assms(5,6)
proof (induction "unat r'" arbitrary: r' b' rule: less_induct)
  case less
  have com: "committees_ok blake2s ed com" and inj: "inj_on blake2s (hs \<union> vote_message ` seen)"
    using net by (simp_all add: honest_logs_def)
  obtain v w w' ds pend where log: "node_log blake2s ed com seen hs v (rel v) ds pend"
    and w: "w \<in> seen" "vote_signing_hash blake2s w \<in> rel v"
      "vote_height w = h" "vote_round w = r" "vote_phase w = Precommit" "vote_block w = Some b"
    and w': "w' \<in> seen" "vote_signing_hash blake2s w' \<in> rel v"
      "vote_height w' = h" "vote_round w' = r'" "vote_phase w' = Prevote" "vote_block w' = Some b'"
    using less.prems(1) quorums_share_honest [OF net byz cert] unfolding prevoted_def by metis
  from honest_precommit [OF com log inj w] obtain s where
    s: "(SigningPosition h r PRECOMMIT_PHASE, vote_signing_hash blake2s w, Some s) \<in> set ds"
      "prevoted blake2s ed com seen h r b" "sf_locked s = Some \<lparr>lock_round = r, lock_block = b\<rparr>" by blast
  show ?case
  proof (cases "r = r'")
    case True
    with less.prems(1) s(2) show ?thesis using prevotes_agree [OF net byz] by blast
  next
    case False
    with less.prems(2) have later: "r < r'" by simp
    from honest_prevote [OF com log inj w'] obtain s' where
      s': "(SigningPosition h r' PREVOTE_PHASE, vote_signing_hash blake2s w', Some s') \<in> set ds"
        "lock_ok (prevoted blake2s ed com seen) h r' False (sf_locked s')"
        "\<And>l. sf_locked s' = Some l \<Longrightarrow> lock_block l = b'
           \<or> (\<exists>vr. prevoted blake2s ed com seen h vr b' \<and> lock_round l < vr \<and> vr < r')" by blast
    have ok: "log_ok True ds" using log by (simp add: node_log_def)
    have "validate_safety (SigningPosition h r' PREVOTE_PHASE) s' (Some (SigningPosition h r PRECOMMIT_PHASE, s)) = Ok ()"
      using log_ok_later [OF ok s(1) _ s'(1)] later by (simp add: position_lt_iff)
    then obtain n where n: "sf_locked s' = Some n" "r < lock_round n \<or> n = \<lparr>lock_round = r, lock_block = b\<rparr>"
      by (auto simp: validate_safety_Ok lock_le_def s(3))
    have lock: "prevoted blake2s ed com seen h (lock_round n) (lock_block n)" "lock_round n < r'"
      using s'(2) n(1) by (simp_all add: lock_ok_def)
    have IH: "x = b" if "prevoted blake2s ed com seen h q x" "r \<le> q" "q < r'" for q x
      using less.hyps [of q x] that by (simp add: word_less_nat_alt)
    have "r \<le> lock_round n" using n(2) by auto
    then have "lock_block n = b" using IH lock by blast
    with s'(3) [OF n(1)] show ?thesis
      using IH [of _ b'] \<open>r \<le> lock_round n\<close> by (auto intro: order_trans less_imp_le)
  qed
qed

lemma precommits_agree:
  assumes net: "honest_logs blake2s ed com seen hs honest rel" and byz: "byzantine_minority (com h) honest"
    and A: "quorum_votes blake2s ed (com h) r Precommit b vs" "set vs \<subseteq> seen"
    and B: "quorum_votes blake2s ed (com h) r' Precommit b' vs'" "set vs' \<subseteq> seen"
  shows "b = b'"
proof -
  have com: "committees_ok blake2s ed com" and inj: "inj_on blake2s (hs \<union> vote_message ` seen)"
    using net by (simp_all add: honest_logs_def)
  have pre: "prevoted blake2s ed com seen h r b"
    if cert: "quorum_votes blake2s ed (com h) r Precommit b vs" "set vs \<subseteq> seen" for r b vs
  proof -
    obtain v w w' ds pend where log: "node_log blake2s ed com seen hs v (rel v) ds pend"
      and w: "w \<in> seen" "vote_signing_hash blake2s w \<in> rel v"
        "vote_height w = h" "vote_round w = r" "vote_phase w = Precommit" "vote_block w = Some b"
      by (rule quorums_share_honest [OF net byz cert cert])
    from honest_precommit [OF com log inj w] show ?thesis by blast
  qed
  show ?thesis
  proof (cases "r \<le> r'")
    case True
    with locked_prevotes [OF net byz A pre [OF B]] show ?thesis by simp
  next
    case False
    with locked_prevotes [OF net byz B pre [OF A]] show ?thesis by simp
  qed
qed

lemma honest_logs_runs:
  assumes "committees_ok blake2s ed com" and "inj_on blake2s (hs \<union> vote_message ` seen)"
    and "\<And>v. v \<in> honest \<Longrightarrow> v = blake2s (be_bytes (sk_public ed (seed v)))
        \<and> node_run blake2s ed ctx com seen hs (seed v) (rel v) (st v)"
    and "\<And>w p. w \<in> seen \<Longrightarrow> vote_voter w \<in> honest \<Longrightarrow> verify_vote blake2s ed (com (vote_height w)) w = Ok p \<Longrightarrow>
        vote_signing_hash blake2s w \<in> rel (vote_voter w)"
  shows "honest_logs blake2s ed com seen hs honest rel"
proof -
  have inj: "inj_on blake2s hs" using assms(2) by (rule inj_on_subset) blast
  have "\<exists>ds pend. node_log blake2s ed com seen hs v (rel v) ds pend" if "v \<in> honest" for v
    using node_run_stands [OF _ assms(1) inj, of ctx seen "seed v" "rel v" "st v"] assms(3) [OF that] by metis
  with assms show ?thesis by (auto simp: honest_logs_def)
qed

end
