(* ===== verification/Astro_Samples.thy ===== *)
theory Astro_Samples
  imports Astro_Finality Astro_Agreement
begin

text \<open>
  Small concrete inputs for the witnesses: a digest that returns the length of its
  message, a signature scheme that accepts the signature 1, a committee of one validator.
\<close>

definition sample_hash :: "byte list \<Rightarrow> hash256" where
  "sample_hash bs = of_nat (length bs)"

definition sample_ed :: ed25519 where
  "sample_ed = \<lparr>vk_parses = (\<lambda>_. True), vk_recompress = id, vk_is_weak = (\<lambda>_. False),
     verify_strict = (\<lambda>_ _ s. s = 1), sk_public = id, sk_sign = (\<lambda>_ _. 1)\<rparr>"

definition sample_host :: host where
  "sample_host = \<lparr>host_parallelism = 1, host_spawns = (\<lambda>_. True)\<rparr>"

definition sample_committee :: committee where
  "sample_committee = \<lparr>com_height = 5, com_members = [\<lparr>cm_id = 32, cm_power = 3\<rparr>]\<rparr>"

definition sample_ac :: auth_committee where
  "sample_ac = \<lparr>ac_chain_id = 1, ac_height = 5, ac_root = 115, ac_total = 3, ac_powers = [(32, 3)],
     ac_seats = [32], ac_crypto = [(32, 7)]\<rparr>"

lemma sample_ac_new: "auth_committee_new sample_hash sample_ed 1 sample_committee [7] = Ok sample_ac"
  by (simp add: auth_committee_new_def sample_committee_def total_power_def MAX_COMMITTEE_MEMBERS_def
      checked_add_def commitment_def committee_bytes_def domain_hash_def domain_preimage_def sample_hash_def
      DOMAIN_COMMITTEE_def bt_collect_def register_validator_def sample_ed_def sample_ac_def bt_contains_def)

definition sample_header :: block_header where
  "sample_header = \<lparr>hdr_height = 5, hdr_parent = 1, hdr_transactions_root = 2, hdr_state_root = 3,
     hdr_receipts_root = 4, hdr_committee_root = 115, hdr_capacity = resources_zero\<rparr>"

definition sample_certificate :: finality_certificate where
  "sample_certificate = \<lparr>fc_chain_id = 1, fc_height = 5, fc_round = 0, fc_committee_root = 115,
     fc_block = header_compute_hash sample_hash sample_header,
     fc_signatures = [\<lparr>cs_voter = 32, cs_signature = 1\<rparr>]\<rparr>"

definition sample_transaction :: transaction where
  "sample_transaction = \<lparr>tx_version = TRANSACTION_VERSION, tx_expires_at = 9, tx_lane = lane_from_payload [], tx_resource_prices = resources_zero,
     tx_chain_id = 1, tx_sender = 32, tx_nonce = 0, tx_access_list = [[1, 2]], tx_resource_limit = resources_zero,
     tx_payload = [], tx_signature = 1\<rparr>"

lemma sample_transaction_wire: "wire_transaction sample_transaction"
  by (simp add: wire_transaction_def sample_transaction_def MAX_LIST_LEN_def MAX_STATE_KEY_LEN_def MAX_PAYLOAD_def)

lemma sample_members: "members sample_ac = {32}" "power_of sample_ac 32 = 3"
  by (simp_all add: members_def power_of_def sample_ac_def bt_keys_def)

lemmas sample_verify = verify_vote_def vote_credentials_def digest_verify_def ed25519_verify_def
  registered_key_def

lemma sample_verify_vote:
  "(\<exists>p. verify_vote sample_hash sample_ed sample_ac v = Ok p) \<longleftrightarrow> vote_voter v = 32
     \<and> vote_chain_id v = 1 \<and> vote_height v = 5 \<and> vote_committee_root v = 115 \<and> vote_signature v = 1"
  by (auto simp: sample_verify sample_ac_def sample_ed_def)

lemma sample_quorum:
  "quorum_votes sample_hash sample_ed sample_ac r ph b vs \<longleftrightarrow> vs \<noteq> [] \<and> (\<forall>v \<in> set vs. vote_voter v = 32
     \<and> vote_chain_id v = 1 \<and> vote_height v = 5 \<and> vote_committee_root v = 115 \<and> vote_signature v = 1
     \<and> vote_round v = r \<and> vote_phase v = ph \<and> vote_block v = Some b)"
proof (cases "vs = [] \<or> (\<exists>v \<in> set vs. vote_voter v \<noteq> 32)")
  case True
  then show ?thesis
    unfolding quorum_votes_def sample_verify_vote by (auto simp: set_power_def sample_ac_def)
next
  case False
  then have "vote_voter ` set vs = {32}" by (cases vs) auto
  with False show ?thesis
    unfolding quorum_votes_def sample_verify_vote
    by (auto simp: set_power_def sample_members) (auto simp: sample_ac_def)
qed

section \<open>One validator that prevotes and precommits\<close>

text \<open>A digest that separates the two votes: length and sum of the bytes.\<close>

definition sample_sum :: "byte list \<Rightarrow> hash256" where
  "sample_sum bs = of_nat (length bs) + 65536 * (\<Sum>b \<leftarrow> bs. ucast b)"

definition sample_vid :: validator_id where "sample_vid = sample_sum (be_bytes (7 :: bytes32))"

definition sample_ctx :: signing_context where
  "sample_ctx = \<lparr>ctx_chain_id = 1, ctx_genesis = 9\<rparr>"

definition sample_com :: "u64 \<Rightarrow> auth_committee" where
  "sample_com h = \<lparr>ac_chain_id = 1, ac_height = h, ac_root = 115, ac_total = 3, ac_powers = [(sample_vid, 3)],
     ac_seats = [sample_vid], ac_crypto = [(sample_vid, 7)]\<rparr>"

definition sample_block :: hash256 where "sample_block = header_compute_hash sample_sum sample_header"

definition sample_vote :: "vote_phase \<Rightarrow> vote" where
  "sample_vote ph = (slot_vote (sample_com 5) sample_vid 0 ph (Some sample_block))\<lparr>vote_signature := 1\<rparr>"

definition sample_cert :: finality_certificate where
  "sample_cert = \<lparr>fc_chain_id = 1, fc_height = 5, fc_round = 0, fc_committee_root = 115, fc_block = sample_block,
     fc_signatures = [\<lparr>cs_voter = sample_vid, cs_signature = 1\<rparr>]\<rparr>"

definition sample_signer :: "journal \<Rightarrow> durable_signer" where
  "sample_signer j = \<lparr>sg_seed = 7, sg_public_key = 7, sg_validator = sample_vid,
     sg_handle = \<lparr>kh_id = hash_to_string sample_vid, kh_purpose = ConsensusKey\<rparr>, sg_context = sample_ctx,
     sg_journal = j, sg_anchor = None\<rparr>"

definition sample_node :: "durable_signer \<Rightarrow> local_bft" where
  "sample_node sg = \<lparr>lb_committee = sample_com 5, lb_signer = sg,
     lb_handle = \<lparr>kh_id = hash_to_string sample_vid, kh_purpose = ConsensusKey\<rparr>, lb_voter = sample_vid,
     lb_round = 0, lb_step = AwaitingProposal, lb_locked = None, lb_finalized = None\<rparr>"

lemma sample_committees: "committees_ok sample_sum sample_ed sample_com"
  by (simp add: committees_ok_def committee_ok_def sample_com_def provider_ok_def sample_vid_def
      sample_ed_def MAX_COMMITTEE_MEMBERS_def)

lemma sample_com_members: "members (sample_com h) = {sample_vid}" "power_of (sample_com h) sample_vid = 3"
  by (simp_all add: members_def power_of_def sample_com_def)

lemma sample_vote_verifies: "verify_vote sample_sum sample_ed (sample_com 5) (sample_vote ph) = Ok 3"
  by (simp add: sample_verify sample_vote_def slot_vote_def sample_com_def sample_ed_def)

lemma sample_vote_quorum:
  "quorum_votes sample_sum sample_ed (sample_com 5) 0 ph sample_block [sample_vote ph]"
  by (simp add: quorum_votes_def sample_vote_verifies)
    (simp add: sample_vote_def slot_vote_def set_power_def sample_com_members, simp add: sample_com_def)

lemma sample_certificate_votes: "map (certificate_vote sample_cert) (fc_signatures sample_cert) = [sample_vote Precommit]"
  by (simp add: sample_cert_def certificate_vote_def sample_vote_def slot_vote_def sample_com_def)

lemma sample_cert_verifies:
  "verify_certificate sample_sum sample_ed hst (sample_com 5) sample_cert sample_header = Ok ()"
proof -
  have ok: "committee_ok sample_sum sample_ed (sample_com 5)" using sample_committees by (simp add: committees_ok_def)
  show ?thesis
    unfolding verify_certificate_Ok [OF ok] sample_certificate_votes
    using sample_vote_quorum [of Precommit]
    by (simp add: wire_certificate_def sample_cert_def sample_com_def sample_header_def sample_block_def
        MAX_COMMITTEE_MEMBERS_def)
qed

lemma sample_prevotes:
  "prevotes_from_votes sample_sum sample_ed sample_host (sample_com 5) [sample_vote Prevote]
     = Ok \<lparr>pc_votes = [sample_vote Prevote]\<rparr>"
proof -
  have "serial_decision sample_ed (ac_quorum (sample_com 5)) (prevote_check sample_sum (sample_com 5) (sample_vote Prevote))
      [sample_vote Prevote] = Ok ()"
    by (simp add: serial_decision_def prevote_check_def sample_verify sample_vote_def slot_vote_def sample_com_def
        sample_ed_def checked_add_def ac_quorum_def quorum_power_le_iff not_less)
  then show ?thesis
    by (simp add: prevotes_from_votes_def batch_decision_serial MAX_COMMITTEE_MEMBERS_def Let_def)
      (simp add: sample_vote_def slot_vote_def)
qed

lemma sample_messages_differ: "sample_sum (vote_message (sample_vote Prevote)) \<noteq> sample_sum (vote_message (sample_vote Precommit))"
  by (simp add: sample_sum_def vote_message_def domain_preimage_def vote_signing_bytes_def sample_vote_def slot_vote_def)

definition sample_seen :: "vote set" where
  "sample_seen = {sample_vote Prevote, sample_vote Precommit}"

definition sample_messages :: "byte list set" where
  "sample_messages = {vote_message (sample_vote Prevote), vote_message (sample_vote Precommit)}"

lemma sample_injective: "inj_on sample_sum (sample_messages \<union> vote_message ` sample_seen)"
  using sample_messages_differ by (auto simp: sample_messages_def sample_seen_def inj_on_def)

lemma sample_create:
  "signer_create_protected sample_sum sample_ed IoOk False sample_ctx 7
     = Ok (sample_signer (render sample_sum sample_ctx 7 True False []))"
proof -
  have "create_mode sample_sum IoOk False sample_ctx 7 True = Ok (render sample_sum sample_ctx 7 True False [])"
    by (auto simp: create_mode_def Let_def render_def fresh_journal_def header_parts
        journal_identity_def log_last_def log_safety_def write_at_def)
  then show ?thesis
    by (simp add: signer_create_protected_def signer_initialize_def Let_def ed25519_public_key_def sample_ed_def
        sample_signer_def sample_vid_def) (simp add: sample_ctx_def)
qed

lemma sample_new:
  "local_new (sample_com 5) (sample_signer (render sample_sum sample_ctx 7 True False [])) 9
     = Ok (sample_node (sample_signer (render sample_sum sample_ctx 7 True False [])))"
  by (simp add: local_new_def sample_signer_def sample_ctx_def sample_com_def signer_validator_id_def voting_power_def
      local_resume_def last_position_def log_last_def sample_node_def)

lemma sample_live: "live sample_sum sample_ctx 7 [] (sample_node (sample_signer (render sample_sum sample_ctx 7 True False [])))"
  by (auto simp: live_def sample_node_def sample_signer_def signer_validator_id_def renderable_def log_ok_def anchor_follows_def)

definition sample_released :: "hash256 set" where
  "sample_released = {vote_signing_hash sample_sum (sample_vote Prevote), vote_signing_hash sample_sum (sample_vote Precommit)}"

abbreviation sample_run :: "hash256 set \<Rightarrow> node \<Rightarrow> bool" where
  "sample_run \<equiv> node_run sample_sum sample_ed sample_ctx sample_com sample_seen sample_messages 7"

lemma sample_prevote_step:
  assumes "sample_run rel (Voting lb)" and lb: "lb = sample_node sg" and live: "live sample_sum sample_ctx 7 [] lb"
  shows "\<exists>sg' d. sample_run (rel \<union> {vote_signing_hash sample_sum (sample_vote Prevote)})
      (Voting (sample_node sg'\<lparr>lb_step := Prevoted\<rparr>)) \<and> live sample_sum sample_ctx 7 [d] (sample_node sg'\<lparr>lb_step := Prevoted\<rparr>)
      \<and> dec_pos d = SigningPosition 5 0 PREVOTE_PHASE \<and> dec_safety d = Some \<lparr>sf_committee_root = 115, sf_locked = None\<rparr>"
proof -
  let ?op = "PrevoteHeader (Some sample_header) None (\<lambda>_. True)"
  have val: "prevote_value sample_sum lb (Some sample_header) None (\<lambda>_. True) = Ok (Some sample_block)"
    by (simp add: prevote_value_def lb sample_node_def valid_header_def sample_header_def sample_com_def sample_block_def)
  have v: "unsigned_vote lb Prevote (Some sample_block) = slot_vote (sample_com 5) sample_vid 0 Prevote (Some sample_block)"
    by (simp add: unsigned_slot_vote lb sample_node_def)
  have com: "lb_committee lb = sample_com 5" "lb_round lb = 0" "lb_locked lb = None" by (simp_all add: lb sample_node_def)
  let ?d = "(SigningPosition (ac_height (lb_committee lb)) (lb_round lb) (phase_code Prevote),
      vote_signing_hash sample_sum (unsigned_vote lb Prevote (Some sample_block)),
      Some \<lparr>sf_committee_root = ac_root (lb_committee lb), sf_locked = lb_locked lb\<rparr>)"
  have "follows True (last_opt None []) ?d"
    by (simp add: follows_def com sample_com_def phase_code_def PREVOTE_PHASE_def PRECOMMIT_PHASE_def validate_safety_Ok)
  from local_issue_accepts [OF live this, of sample_ed] obtain sg' sig where
    issue: "local_issue sample_sum sample_ed io_fine Prevote (Some sample_block) (lb_locked lb) lb
        = (Ok ((unsigned_vote lb Prevote (Some sample_block))\<lparr>vote_signature := sig\<rparr>),
           sample_node sg'\<lparr>lb_step := Prevoted\<rparr>)"
    and live': "live sample_sum sample_ctx 7 [?d] (sample_node sg'\<lparr>lb_step := Prevoted\<rparr>)"
    by (auto simp: lb sample_node_def phase_step_def)
  have msg: "vote_message (unsigned_vote lb Prevote (Some sample_block)) = vote_message (sample_vote Prevote)"
    by (simp add: v sample_vote_def)
  have journal: "unat (jr_count (sg_journal (lb_signer lb))) < MAX_JOURNAL_RECORDS"
    using live by (auto simp: live_def)
  have "sample_run (rel \<union> {vote_signing_hash sample_sum (sample_vote Prevote)}) (Voting (sample_node sg'\<lparr>lb_step := Prevoted\<rparr>))"
  proof (rule node_run.operate [OF assms(1), of ?op io_fine])
    show "local_exec sample_sum sample_ed io_fine ?op lb
        = ({vote_signing_hash sample_sum (sample_vote Prevote)}, sample_node sg'\<lparr>lb_step := Prevoted\<rparr>)"
      by (simp add: local_prevote_def val issue signing_hash_message msg)
  qed (auto simp: prevote_request_def val vote_request_def msg sample_messages_def write_hashes_def journal)
  moreover have "dec_pos ?d = SigningPosition 5 0 PREVOTE_PHASE"
    "dec_safety ?d = Some \<lparr>sf_committee_root = 115, sf_locked = None\<rparr>"
    by (simp_all add: com phase_code_def) (simp_all add: sample_com_def)
  ultimately show ?thesis using live' by blast
qed

lemma sample_precommit_step:
  assumes "sample_run rel (Voting lb)" and lb: "lb = sample_node sg\<lparr>lb_step := Prevoted\<rparr>"
    and live: "live sample_sum sample_ctx 7 [d] lb"
    and d: "dec_pos d = SigningPosition 5 0 PREVOTE_PHASE" "dec_safety d = Some \<lparr>sf_committee_root = 115, sf_locked = None\<rparr>"
  shows "\<exists>lb'. sample_run (rel \<union> {vote_signing_hash sample_sum (sample_vote Precommit)}) (Voting lb')"
proof -
  let ?pc = "\<lparr>pc_votes = [sample_vote Prevote]\<rparr>" and ?lock = "Some \<lparr>lock_round = 0, lock_block = sample_block\<rparr>"
  let ?op = "PrecommitHeader sample_header ?pc (\<lambda>_. True)"
  have com: "lb_committee lb = sample_com 5" "lb_round lb = 0" "lb_locked lb = None" "lb_voter lb = sample_vid"
    by (simp_all add: lb sample_node_def)
  have val: "precommit_value sample_sum lb sample_header ?pc (\<lambda>_. True) = Ok sample_block"
    by (simp add: precommit_value_def com verify_context_def pc_round_def pc_block_def valid_header_def
        sample_vote_def slot_vote_def) (simp add: lb sample_node_def sample_header_def sample_com_def sample_block_def)
  have msg: "vote_message (unsigned_vote lb Precommit (Some sample_block)) = vote_message (sample_vote Precommit)"
    by (simp add: unsigned_slot_vote com sample_vote_def)
  obtain pos m where dd: "d = (pos, m, Some \<lparr>sf_committee_root = 115, sf_locked = None\<rparr>)" using d(2) by (cases d) simp
  have "follows True (last_opt None [d]) (SigningPosition (ac_height (lb_committee lb)) (lb_round lb) (phase_code Precommit),
      vote_signing_hash sample_sum (unsigned_vote lb Precommit (Some sample_block)),
      Some \<lparr>sf_committee_root = ac_root (lb_committee lb), sf_locked = ?lock\<rparr>)"
    using d by (simp add: follows_def com dd phase_code_def PREVOTE_PHASE_def PRECOMMIT_PHASE_def validate_safety_Ok
        lock_le_def) (simp add: sample_com_def position_lt_iff)
  from local_issue_accepts [OF live this, of sample_ed] obtain sig lb' where
    issue: "local_issue sample_sum sample_ed io_fine Precommit (Some sample_block) ?lock lb
        = (Ok ((unsigned_vote lb Precommit (Some sample_block))\<lparr>vote_signature := sig\<rparr>), lb')" by auto
  have journal: "unat (jr_count (sg_journal (lb_signer lb))) < MAX_JOURNAL_RECORDS"
    using live by (auto simp: live_def MAX_JOURNAL_RECORDS_def)
  have "sample_run (rel \<union> {vote_signing_hash sample_sum (sample_vote Precommit)}) (Voting lb')"
  proof (rule node_run.operate [OF assms(1), of ?op io_fine])
    show "local_exec sample_sum sample_ed io_fine ?op lb
        = ({vote_signing_hash sample_sum (sample_vote Precommit)}, lb')"
      using issue by (simp add: local_precommit_def val signing_hash_message msg com)
    show "received sample_sum sample_ed sample_com sample_seen pc" if "pc \<in> op_certificates ?op" for pc
      using that sample_prevotes unfolding received_def
      by (intro exI [of _ sample_host] exI [of _ 5] exI [of _ "[sample_vote Prevote]"]) (simp add: sample_seen_def)
  qed (auto simp: val vote_request_def msg sample_messages_def write_hashes_def journal)
  then show ?thesis by blast
qed

lemma sample_run_votes: "\<exists>st. sample_run sample_released st"
proof -
  let ?sg = "sample_signer (render sample_sum sample_ctx 7 True False [])"
  have "sample_run {} (Voting (sample_node ?sg))"
    by (rule node_run.begin_height [where com = sample_com, OF node_run.provision [OF sample_create] sample_new])
  from sample_prevote_step [OF this refl sample_live] obtain sg d where
    "sample_run ({} \<union> {vote_signing_hash sample_sum (sample_vote Prevote)}) (Voting (sample_node sg\<lparr>lb_step := Prevoted\<rparr>))"
    "live sample_sum sample_ctx 7 [d] (sample_node sg\<lparr>lb_step := Prevoted\<rparr>)"
    "dec_pos d = SigningPosition 5 0 PREVOTE_PHASE" "dec_safety d = Some \<lparr>sf_committee_root = 115, sf_locked = None\<rparr>"
    by blast
  from sample_precommit_step [OF this(1) refl this(2-4)] show ?thesis by (simp add: sample_released_def insert_commute) blast
qed

section \<open>A signer, a journal and an anchor\<close>

definition sample_position :: signing_position where "sample_position = SigningPosition 5 0 PREVOTE_PHASE"

definition sample_safety :: signing_safety where "sample_safety = \<lparr>sf_committee_root = 115, sf_locked = None\<rparr>"

definition sample_decision :: decision where "sample_decision = (sample_position, 77, Some sample_safety)"

definition sample_journal :: journal where "sample_journal = render sample_sum sample_ctx 7 True False []"

lemma sample_renderable: "renderable True False []"
  by (simp add: renderable_def log_ok_def)

lemma sample_follows: "follows True (last_opt None []) (sample_position, 77, Some sample_safety)"
  by (simp add: follows_def sample_position_def sample_safety_def PREVOTE_PHASE_def PRECOMMIT_PHASE_def validate_safety_Ok)

lemma sample_signer_run: "\<exists>st. signer_run sample_sum sample_ed sample_ctx 7 {(sample_position, 77)} {} st"
proof -
  let ?sg = "sample_signer (render sample_sum sample_ctx 7 True False [])"
  let ?h = "\<lparr>kh_id = hash_to_string sample_vid, kh_purpose = ConsensusKey\<rparr>"
  have sg: "sg_journal ?sg = render sample_sum sample_ctx 7 True False []"
    "anchor_follows sample_sum sample_ctx 7 [] (sg_anchor ?sg)" "signer_validator_id ?sg ?h = Ok sample_vid"
    by (simp_all add: sample_signer_def signer_validator_id_def anchor_follows_def)
  obtain sig sg' where sign: "sign_protected sample_sum sample_ed io_fine ?h sample_position 77 sample_safety ?sg = (Ok sig, sg')"
    using sign_protected_accepts [OF sg(1) sample_renderable sample_follows _ sg(2,3), of sample_ed] by auto
  have "write_hashes sample_sum sample_position 77 sample_safety (sg_journal ?sg) = {}"
    by (simp add: write_hashes_def sg(1))
  with signer_run.sign [OF signer_run.provision [OF sample_create] sign] show ?thesis by auto
qed

definition sample_cut_journal :: "nat \<Rightarrow> journal" where
  "sample_cut_journal k = snd (reserve_protected sample_sum IoOk (IoCut k) sample_position 77 sample_safety sample_journal)"

lemma sample_reserve_cut:
  "reserve_protected sample_sum IoOk (IoCut k) sample_position 77 sample_safety sample_journal
     = (Err DurabilityUnknown, sample_cut_journal k)"
  "jr_poisoned (sample_cut_journal k)" "jr_file (sample_cut_journal 0) = jr_file sample_journal"
proof -
  have "reserve_protected sample_sum IoOk (IoCut k) sample_position 77 sample_safety sample_journal
      = write_entry sample_sum (IoCut k) sample_journal (of_nat (Suc 0)) sample_position 77 (Some sample_safety)" for k
    using reserve_entry_step [OF sample_renderable sample_follows, of sample_sum IoOk "IoCut k" sample_ctx 7]
    by (simp add: reserve_protected_def sample_journal_def MAX_JOURNAL_RECORDS_def)
  moreover have "entry_update sample_sum sample_journal (of_nat (Suc 0)) sample_position 77 (Some sample_safety)
      = Ok (None, length (jr_file sample_journal), protected_record sample_sum 1 sample_position 77 (jr_tip sample_journal) sample_safety)"
    using length_render_file [OF sample_renderable, of sample_sum sample_ctx 7] by (simp add: entry_update_def sample_journal_def)
  ultimately have cut: "reserve_protected sample_sum IoOk (IoCut k) sample_position 77 sample_safety sample_journal
      = (Err DurabilityUnknown, sample_journal\<lparr>jr_poisoned := True, jr_file := jr_file sample_journal
          @ take k (protected_record sample_sum 1 sample_position 77 (jr_tip sample_journal) sample_safety)\<rparr>)" for k
    by (simp add: write_entry_def write_at_end)
  show "reserve_protected sample_sum IoOk (IoCut k) sample_position 77 sample_safety sample_journal
      = (Err DurabilityUnknown, sample_cut_journal k)"
    by (simp add: sample_cut_journal_def cut)
  show "jr_poisoned (sample_cut_journal k)" "jr_file (sample_cut_journal 0) = jr_file sample_journal"
    by (simp_all add: sample_cut_journal_def cut)
qed

text \<open>The state an anchor holds after one decision.\<close>

definition sample_state :: journal_state where
  "sample_state = log_state sample_sum (journal_identity sample_sum sample_ctx 7 True) [sample_decision]"

lemma sample_pair_ok: "pair_ok sample_state sample_state"
  by (simp add: pair_ok_def slots_check_def sample_state_def log_state_def state_wf_def sample_decision_def
      sample_position_def PREVOTE_PHASE_def PRECOMMIT_PHASE_def)

text \<open>The sample signer with a new anchor beside its new journal.\<close>

definition sample_anchored :: durable_signer where
  "sample_anchored = (let st = log_state sample_sum (journal_identity sample_sum sample_ctx 7 True) [] in
     (sample_signer sample_journal)\<lparr>sg_anchor :=
       Some (anchor_of sample_sum sample_ctx 7 (journal_identity sample_sum sample_ctx 7 True) st st)\<rparr>)"

lemma sample_anchored_started: "signer_started sample_sum sample_ed sample_ctx 7 [] sample_anchored"
proof -
  have pk: "sk_public sample_ed 7 = 7" by (simp add: sample_ed_def)
  have "signer_open sample_sum sample_ed True sample_ctx 7 (jr_file sample_journal) = Ok (sample_signer sample_journal)"
    using journal_open_render [OF sample_renderable, of sample_sum sample_ctx 7]
    by (simp add: signer_open_def signer_initialize_def Let_def ed25519_public_key_def pk sample_journal_def sample_signer_def
        sample_vid_def sample_ctx_def)
  then have "signer_create_anchor sample_sum sample_ed True IoOk False sample_ctx 7 (jr_file sample_journal) = Ok sample_anchored"
    by (simp add: signer_create_anchor_def sample_signer_def sample_journal_def journal_state_render anchor_create_Ok
        sample_anchored_def Let_def)
  with sample_renderable show ?thesis unfolding signer_started_def pk sample_journal_def by blast
qed

lemma sample_anchored_new: "local_new (sample_com 5) sample_anchored 9 = Ok (sample_node sample_anchored)"
  by (simp add: local_new_def sample_anchored_def sample_journal_def sample_signer_def sample_ctx_def sample_com_def
      signer_validator_id_def voting_power_def local_resume_def last_position_def log_last_def sample_node_def Let_def)

definition sample_vrf :: "unit ecvrf" where
  "sample_vrf = \<lparr>vrf_secret_parses = (\<lambda>_. True), vrf_prove = (\<lambda>_ _. Some ()), vrf_own_verify = (\<lambda>_ _ _. Some []),
     vrf_public_parses = (\<lambda>_. True), vrf_public_verify = (\<lambda>_ _ _. Some []), encode_pi = (\<lambda>_. replicate 80 0),
     decode_pi = (\<lambda>_. Some ())\<rparr>"

definition sample_vrf_input :: vrf_input where
  "sample_vrf_input = \<lparr>vi_chain_id = 1, vi_genesis = 9, vi_epoch = 6, vi_height = 6, vi_parent_randomness = 4,
     vi_round = 0, vi_role = CommitteeRole\<rparr>"

lemma sample_vrf_complete: "ecvrf_complete sample_ed sample_vrf sk alpha"
  by (simp add: ecvrf_complete_def sample_ed_def sample_vrf_def VRF_PROOF_BYTES_def)

section \<open>An engine that finalizes\<close>

definition sample_engine :: finality_engine where
  "sample_engine = snd (receive_vote sample_sum sample_ed (sample_vote Precommit) (engine_new (sample_com 5)))"

lemma sample_engine_certificate: "fe_certificate sample_engine = Some sample_cert"
proof -
  have "quorum_power 3 \<le> (3 :: u128)" by (simp add: quorum_power_le_iff)
  then show ?thesis
    by (simp add: sample_engine_def receive_vote_def engine_new_def engine_for_round_def)
      (simp add: sample_vote_verifies checked_add_def Let_def, simp add: sample_vote_def slot_vote_def sample_com_def
        ac_quorum_def collect_certificate_def sample_cert_def bt_values_def)
qed

end
