(* ===== verification/Astro_Mempool.thy ===== *)
theory Astro_Mempool
  imports Astro_Types Astro_BTree "HOL-Library.Product_Lexorder" "HOL-Library.Sublist"
begin

text \<open>
  The crate \<open>mempool\<close>: bounded admission keyed by sender and nonce, removal, expiry, and the
  deterministic selection of a proposal.
\<close>

section \<open>The pool (lib.rs)\<close>

datatype mempool_error = InvalidLimits | Duplicate | ConflictingNonce | CapacityExceeded

record pool_entry =
  po_id :: hash256
  po_transaction :: transaction
  po_priority :: u64
  po_sequence :: u64

record pool_limits =
  max_transactions :: nat
  max_pool_bytes :: nat

record mempool =
  mp_limits :: pool_limits
  mp_entries :: "(address \<times> u64, pool_entry \<times> nat) btree"
  mp_ids :: "hash256 set"
  mp_bytes :: nat

definition mempool_new :: "pool_limits \<Rightarrow> mempool_error + mempool" where
  "mempool_new limits =
     (if max_transactions limits = 0 \<or> max_pool_bytes limits = 0 then Err InvalidLimits
      else Ok \<lparr>mp_limits = limits, mp_entries = [], mp_ids = {}, mp_bytes = 0\<rparr>)"

abbreviation entry_key :: "pool_entry \<Rightarrow> address \<times> u64" where
  "entry_key e \<equiv> (tx_sender (po_transaction e), tx_nonce (po_transaction e))"

definition pool_insert :: "pool_entry \<Rightarrow> nat \<Rightarrow> mempool \<Rightarrow> (mempool_error + unit) \<times> mempool" where
  "pool_insert e len m =
     (if len > max_pool_bytes (mp_limits m) then (Err CapacityExceeded, m)
      else if po_id e \<in> mp_ids m then (Err Duplicate, m)
      else if bt_contains (mp_entries m) (entry_key e) then (Err ConflictingNonce, m)
      else if length (mp_entries m) = max_transactions (mp_limits m)
        \<or> (case checked_add_usize (mp_bytes m) len of None \<Rightarrow> True | Some bytes \<Rightarrow> bytes > max_pool_bytes (mp_limits m))
      then (Err CapacityExceeded, m)
      else (Ok (), m\<lparr>mp_bytes := mp_bytes m + len, mp_ids := insert (po_id e) (mp_ids m),
                     mp_entries := bt_insert (entry_key e) (e, len) (mp_entries m)\<rparr>))"

definition pool_remove :: "address \<Rightarrow> u64 \<Rightarrow> mempool \<Rightarrow> mempool" where
  "pool_remove sender nonce m =
     (case bt_get (mp_entries m) (sender, nonce) of
        None \<Rightarrow> m
      | Some (e, bytes) \<Rightarrow>
          m\<lparr>mp_entries := bt_remove (sender, nonce) (mp_entries m), mp_bytes := mp_bytes m - bytes,
            mp_ids := mp_ids m - {po_id e}\<rparr>)"

definition retain_entry :: "u64 \<Rightarrow> (address \<times> u64) \<times> pool_entry \<times> nat \<Rightarrow> mempool \<Rightarrow> mempool" where
  "retain_entry next_height = (\<lambda>(k, e, bytes) m.
     if tx_expires_at (po_transaction e) < next_height
     then m\<lparr>mp_bytes := mp_bytes m - bytes, mp_ids := mp_ids m - {po_id e}\<rparr>
     else m\<lparr>mp_entries := mp_entries m @ [(k, e, bytes)]\<rparr>)"

definition remove_expired :: "u64 \<Rightarrow> mempool \<Rightarrow> mempool" where
  "remove_expired next_height m = fold (retain_entry next_height) (mp_entries m) (m\<lparr>mp_entries := []\<rparr>)"

definition remove_batch :: "(address \<times> u64) list \<Rightarrow> mempool \<Rightarrow> mempool" where
  "remove_batch ks m = fold (\<lambda>(sender, nonce). pool_remove sender nonce) ks m"

text \<open>\<open>Reverse(priority)\<close> is the complement, which reverses the order of \<open>u64\<close>.\<close>

definition candidate_key :: "pool_entry \<Rightarrow> u64 \<times> u64 \<times> hash256" where
  "candidate_key e = (- 1 - po_priority e, po_sequence e, po_id e)"

definition candidates :: "mempool \<Rightarrow> pool_entry list" where
  "candidates m = sort_key candidate_key (map fst (bt_values (mp_entries m)))"

definition checked_add_resources :: "resources \<Rightarrow> resources \<Rightarrow> resources option" where
  "checked_add_resources l r =
     Option.bind (checked_add (compute l) (compute r)) (\<lambda>c.
     Option.bind (checked_add (memory l) (memory r)) (\<lambda>m.
     Option.bind (checked_add (io l) (io r)) (\<lambda>i.
     Option.bind (checked_add (bandwidth l) (bandwidth r)) (\<lambda>b.
     Some \<lparr>compute = c, memory = m, io = i, bandwidth = b\<rparr>))))"

fun select_from :: "resources \<Rightarrow> nat \<Rightarrow> resources \<Rightarrow> pool_entry list \<Rightarrow> pool_entry list" where
  "select_from capacity n used [] = []"
| "select_from capacity n used (e # es) =
     (if n = 0 then []
      else case checked_add_resources used (tx_resource_limit (po_transaction e)) of
        None \<Rightarrow> select_from capacity n used es
      | Some nxt \<Rightarrow>
          if compute nxt > compute capacity \<or> memory nxt > memory capacity \<or> io nxt > io capacity
            \<or> bandwidth nxt > bandwidth capacity
          then select_from capacity n used es
          else e # select_from capacity (n - 1) nxt es)"

definition pool_select :: "mempool \<Rightarrow> nat \<Rightarrow> resources \<Rightarrow> pool_entry list" where
  "pool_select m n capacity = select_from capacity n resources_zero (candidates m)"

section \<open>The pool stays consistent and bounded\<close>

definition pool_ok :: "mempool \<Rightarrow> bool" where
  "pool_ok m \<longleftrightarrow> bt_ok (mp_entries m)
     \<and> (\<forall>(k, e, n) \<in> set (mp_entries m). k = entry_key e)
     \<and> distinct (map (\<lambda>(k, e, n). po_id e) (mp_entries m))
     \<and> mp_ids m = (\<lambda>(k, e, n). po_id e) ` set (mp_entries m)
     \<and> mp_bytes m = (\<Sum>(k, e, n) \<leftarrow> mp_entries m. n)
     \<and> length (mp_entries m) \<le> max_transactions (mp_limits m)
     \<and> mp_bytes m \<le> max_pool_bytes (mp_limits m)"

lemma pool_ok_new: "mempool_new limits = Ok m \<Longrightarrow> pool_ok m"
  by (auto simp: mempool_new_def pool_ok_def split: if_splits)

lemma map_bt_insert_new:
  assumes "k \<notin> fst ` set m"
  shows "mset (map f (bt_insert k v m)) = add_mset (f (k, v)) (mset (map f m))"
  using mset_bt_insert_new [OF assms, of v] by simp

lemma sum_bt_insert_new:
  assumes "k \<notin> fst ` set m"
  shows "sum_list (map f (bt_insert k v m)) = f (k, v) + (sum_list (map f m) :: nat)"
  using arg_cong [OF map_bt_insert_new [OF assms, of f v], of sum_mset] by (simp only: sum_mset_sum_list sum_mset.add_mset)

lemma distinct_bt_insert_new:
  assumes "k \<notin> fst ` set m"
  shows "distinct (map f (bt_insert k v m)) \<longleftrightarrow> f (k, v) \<notin> f ` set m \<and> distinct (map f m)"
proof -
  have "mset (map f (bt_insert k v m)) = mset (f (k, v) # map f m)" using map_bt_insert_new [OF assms, of f v] by simp
  from mset_eq_imp_distinct_iff [OF this] show ?thesis by simp
qed

lemma pool_insert_Ok:
  assumes "fst (pool_insert e len m) = Ok u"
  shows "po_id e \<notin> mp_ids m" "entry_key e \<notin> fst ` set (mp_entries m)" "length (mp_entries m) \<noteq> max_transactions (mp_limits m)"
    "mp_bytes m + len \<le> max_pool_bytes (mp_limits m)"
    "snd (pool_insert e len m) = m\<lparr>mp_bytes := mp_bytes m + len, mp_ids := insert (po_id e) (mp_ids m),
      mp_entries := bt_insert (entry_key e) (e, len) (mp_entries m)\<rparr>"
  using assms by (simp_all add: pool_insert_def bt_contains_iff checked_add_usize_def split: if_splits)

lemma pool_ok_insert:
  assumes "pool_ok m"
  shows "pool_ok (snd (pool_insert e len m))"
proof (cases "fst (pool_insert e len m)")
  case (Inl err)
  then have "snd (pool_insert e len m) = m" by (auto simp: pool_insert_def split: if_splits)
  with assms show ?thesis by simp
next
  case (Inr u)
  note new = pool_insert_Ok [OF Inr]
  show ?thesis
    using assms new(1,3,4) unfolding new(5) pool_ok_def
    by (simp add: sum_bt_insert_new [OF new(2)] distinct_bt_insert_new [OF new(2)] length_bt_insert_new [OF new(2)]
        set_bt_insert_new [OF new(2)])
qed

lemma bt_remove_get:
  assumes "bt_get m k = Some v"
  shows "mset m = add_mset (k, v) (mset (bt_remove k m))"
  using assms by (induction m) (auto split: if_splits)

lemma pool_ok_remove:
  assumes "pool_ok m"
  shows "pool_ok (pool_remove sender nonce m)"
proof (cases "bt_get (mp_entries m) (sender, nonce)")
  case None
  with assms show ?thesis by (simp add: pool_remove_def)
next
  case (Some v)
  obtain e n where v: "v = (e, n)" by (cases v)
  define es where "es = bt_remove (sender, nonce) (mp_entries m)"
  have ms: "mset (map f (mp_entries m)) = mset (f ((sender, nonce), e, n) # map f es)" for f :: "_ \<Rightarrow> 'b"
    using bt_remove_get [OF Some] by (simp add: v es_def)
  have st: "set (mp_entries m) = insert ((sender, nonce), e, n) (set es)"
    using arg_cong [OF ms [of id], of set_mset] by simp
  have len: "length (mp_entries m) = Suc (length es)" using arg_cong [OF ms [of id], of size] by simp
  have sm: "sum_list (map f (mp_entries m)) = f ((sender, nonce), e, n) + sum_list (map f es)" for f :: "_ \<Rightarrow> nat"
    using arg_cong [OF ms [of f], of sum_mset] by (simp only: sum_mset_sum_list sum_list.Cons)
  have dist: "distinct (map f (mp_entries m)) \<longleftrightarrow> distinct (f ((sender, nonce), e, n) # map f es)" for f :: "_ \<Rightarrow> hash256"
    by (rule mset_eq_imp_distinct_iff [OF ms])
  have rm: "pool_remove sender nonce m = m\<lparr>mp_entries := es, mp_bytes := mp_bytes m - n, mp_ids := mp_ids m - {po_id e}\<rparr>"
    by (simp add: pool_remove_def Some v es_def)
  show ?thesis
    using assms unfolding rm pool_ok_def by (auto simp: st len sm dist) (simp add: es_def)
qed

lemma pool_ok_remove_batch: "pool_ok m \<Longrightarrow> pool_ok (remove_batch ks m)"
  unfolding remove_batch_def by (induction ks arbitrary: m) (auto simp: pool_ok_remove)

abbreviation alive :: "u64 \<Rightarrow> (address \<times> u64) \<times> pool_entry \<times> nat \<Rightarrow> bool" where
  "alive next_height \<equiv> (\<lambda>(k, e, n). next_height \<le> tx_expires_at (po_transaction e))"

lemma fold_retain:
  "fold (retain_entry h) es m = m\<lparr>mp_entries := mp_entries m @ filter (alive h) es,
     mp_bytes := mp_bytes m - (\<Sum>(k, e, n) \<leftarrow> filter (- alive h) es. n),
     mp_ids := mp_ids m - (\<lambda>(k, e, n). po_id e) ` set (filter (- alive h) es)\<rparr>"
proof (induction es arbitrary: m)
  case (Cons x es)
  obtain k e n where x: "x = (k, e, n)" by (cases x)
  show ?case
  proof (cases "h \<le> tx_expires_at (po_transaction e)")
    case True
    then have "retain_entry h x m = m\<lparr>mp_entries := mp_entries m @ [x]\<rparr>" by (simp add: retain_entry_def x not_less)
    with True show ?thesis by (simp add: Cons.IH x)
  next
    case False
    then have "retain_entry h x m = m\<lparr>mp_bytes := mp_bytes m - n, mp_ids := mp_ids m - {po_id e}\<rparr>"
      by (simp add: retain_entry_def x not_le)
    moreover have "filter (- alive h) (x # es) = x # filter (- alive h) es" "filter (alive h) (x # es) = filter (alive h) es"
      using False by (simp_all add: x)
    ultimately show ?thesis
      unfolding fold_Cons comp_def by (simp only: Cons.IH) (simp add: x fun_Compl_def Diff_insert2 [symmetric] del: set_filter)
  qed
qed simp

lemma remove_expired_eq:
  assumes "pool_ok m"
  shows "remove_expired h m = m\<lparr>mp_entries := filter (alive h) (mp_entries m),
     mp_bytes := (\<Sum>(k, e, n) \<leftarrow> filter (alive h) (mp_entries m). n),
     mp_ids := (\<lambda>(k, e, n). po_id e) ` set (filter (alive h) (mp_entries m))\<rparr>"
proof -
  have sums: "sum_list (map f es) = sum_list (map f (filter P es)) + sum_list (map f (filter (- P) es))"
    for f :: "_ \<Rightarrow> nat" and P and es :: "((address \<times> u64) \<times> pool_entry \<times> nat) list"
    by (induction es) auto
  have ids: "f ` set es - f ` set (filter (- P) es) = f ` set (filter P es)" if "distinct (map f es)"
    for f :: "_ \<Rightarrow> hash256" and P and es :: "((address \<times> u64) \<times> pool_entry \<times> nat) list"
    using that by (induction es) auto
  from assms have ok: "distinct (map (\<lambda>(k, e, n). po_id e) (mp_entries m))" "mp_ids m = (\<lambda>(k, e, n). po_id e) ` set (mp_entries m)"
      "mp_bytes m = (\<Sum>(k, e, n) \<leftarrow> mp_entries m. n)"
    by (simp_all only: pool_ok_def)
  have "mp_ids m - (\<lambda>(k, e, n). po_id e) ` set (filter (- alive h) (mp_entries m)) = (\<lambda>(k, e, n). po_id e) ` set (filter (alive h) (mp_entries m))"
    unfolding ok(2) by (rule ids [OF ok(1)])
  moreover have "mp_bytes m - (\<Sum>(k, e, n) \<leftarrow> filter (- alive h) (mp_entries m). n) = (\<Sum>(k, e, n) \<leftarrow> filter (alive h) (mp_entries m). n)"
    unfolding ok(3) sums [of "\<lambda>(k, e, n). n" "mp_entries m" "alive h"] by simp
  ultimately show ?thesis
    unfolding remove_expired_def fold_retain by simp
qed

lemma pool_ok_remove_expired:
  assumes "pool_ok m"
  shows "pool_ok (remove_expired h m)"
proof -
  have sums: "sum_list (map f (filter P es)) \<le> sum_list (map f es)"
    for f :: "_ \<Rightarrow> nat" and P and es :: "((address \<times> u64) \<times> pool_entry \<times> nat) list"
    by (induction es) auto
  have ok: "bt_ok (filter P es)" if "bt_ok es" for P and es :: "((address \<times> u64) \<times> pool_entry \<times> nat) list"
    using that by (induction es) auto
  from assms have m: "bt_ok (mp_entries m)" "\<forall>(k, e, n) \<in> set (mp_entries m). k = entry_key e"
      "distinct (map (\<lambda>(k, e, n). po_id e) (mp_entries m))" "(\<Sum>(k, e, n) \<leftarrow> mp_entries m. n) \<le> max_pool_bytes (mp_limits m)"
      "length (mp_entries m) \<le> max_transactions (mp_limits m)"
    by (auto simp: pool_ok_def)
  show ?thesis
    unfolding remove_expired_eq [OF assms] pool_ok_def
    using ok [OF m(1), of "alive h"] m(2) distinct_map_filter [OF m(3), of "alive h"]
      order_trans [OF sums [of "\<lambda>(k, e, n). n" "alive h" "mp_entries m"] m(4)]
      order_trans [OF length_filter_le [of "alive h" "mp_entries m"] m(5)] by simp
qed

text \<open>The pools that a node can reach.\<close>

inductive pool_run :: "pool_limits \<Rightarrow> mempool \<Rightarrow> bool" for limits where
  opened: "mempool_new limits = Ok m \<Longrightarrow> pool_run limits m"
| inserted: "pool_run limits m \<Longrightarrow> pool_run limits (snd (pool_insert e len m))"
| removed: "pool_run limits m \<Longrightarrow> pool_run limits (pool_remove sender nonce m)"
| expired: "pool_run limits m \<Longrightarrow> pool_run limits (remove_expired next_height m)"
| batched: "pool_run limits m \<Longrightarrow> pool_run limits (remove_batch ks m)"

lemma pool_run_ok:
  assumes "pool_run limits m"
  shows "pool_ok m \<and> mp_limits m = limits"
  using assms
proof (induction rule: pool_run.induct)
  case (opened m)
  then show ?case by (auto simp: pool_ok_new) (auto simp: mempool_new_def split: if_splits)
next
  case (inserted m e len)
  then have "mp_limits (snd (pool_insert e len m)) = limits" by (simp add: pool_insert_def)
  with inserted show ?case by (simp add: pool_ok_insert)
next
  case (removed m sender nonce)
  then have "mp_limits (pool_remove sender nonce m) = limits" by (simp add: pool_remove_def split: option.splits)
  with removed show ?case by (simp add: pool_ok_remove)
next
  case (expired m next_height)
  then have "mp_limits (remove_expired next_height m) = limits" by (simp add: remove_expired_eq)
  with expired show ?case by (simp add: pool_ok_remove_expired)
next
  case (batched m ks)
  have "mp_limits (remove_batch ks m) = mp_limits m" for m :: mempool
    unfolding remove_batch_def by (induction ks arbitrary: m) (auto simp: pool_remove_def split: option.splits)
  with batched show ?case by (simp add: pool_ok_remove_batch)
qed

section \<open>Selection is greedy in priority order within the capacity\<close>

lemma complement_order: "- 1 - a \<le> (- 1 - b :: u64) \<longleftrightarrow> b \<le> a"
proof -
  have "unat (- 1 - x) = 2 ^ 64 - 1 - unat x" for x :: u64
    using unat_sub [of x "- 1"] by (simp add: unsigned_minus_1_eq_mask mask_eq_exp_minus_1)
  moreover have "unat x < 2 ^ 64" for x :: u64 using unsigned_less [of x, where ?'a = nat] by simp
  ultimately have "2 ^ 64 - 1 - unat a \<le> 2 ^ 64 - 1 - unat b \<longleftrightarrow> unat b \<le> unat a"
    by (metis diff_diff_cancel diff_le_mono2 Suc_diff_1 less_Suc_eq_le zero_less_numeral zero_less_power)
  then show ?thesis by (simp add: word_le_nat_alt \<open>\<And>x :: u64. unat (- 1 - x) = 2 ^ 64 - 1 - unat x\<close>)
qed

lemma candidates_sorted:
  assumes "candidates m = xs @ e # ys" and "f \<in> set ys"
  shows "po_priority f \<le> po_priority e
    \<and> (po_priority f = po_priority e \<longrightarrow> (po_sequence e, po_id e) \<le> (po_sequence f, po_id f))"
proof -
  have "sorted (map candidate_key (xs @ e # ys))" using assms(1) by (metis candidates_def sorted_sort_key)
  then have "candidate_key e \<le> candidate_key f" using assms(2) by (simp add: sorted_append)
  then have "- 1 - po_priority e \<le> - 1 - po_priority f" "- 1 - po_priority e = - 1 - po_priority f \<Longrightarrow> (po_sequence e, po_id e) \<le> (po_sequence f, po_id f)"
    by (auto simp: candidate_key_def less_eq_prod_def less_imp_le)
  then show ?thesis by (auto simp: complement_order)
qed

text \<open>The resources of entries, summed with overflow checks.\<close>

fun pool_reserved :: "resources \<Rightarrow> pool_entry list \<Rightarrow> resources option" where
  "pool_reserved used [] = Some used"
| "pool_reserved used (e # es) = Option.bind (checked_add_resources used (tx_resource_limit (po_transaction e))) (\<lambda>u. pool_reserved u es)"

abbreviation entry_fits :: "resources \<Rightarrow> resources \<Rightarrow> pool_entry \<Rightarrow> bool" where
  "entry_fits capacity used e \<equiv>
     (\<exists>u. checked_add_resources used (tx_resource_limit (po_transaction e)) = Some u \<and> fits_in u capacity)"

lemma select_from_step:
  "select_from capacity n used (e # es) =
     (if n = 0 then []
      else if entry_fits capacity used e
      then e # select_from capacity (n - 1) (the (checked_add_resources used (tx_resource_limit (po_transaction e)))) es
      else select_from capacity n used es)"
  by (auto simp: fits_in_def not_less not_le split: option.splits)

declare select_from.simps(2) [simp del]

lemma select_from_subseq: "subseq (select_from capacity n used es) es"
  by (induction es arbitrary: n used) (simp_all add: select_from_step list_emb_Cons)

lemma select_from_length: "length (select_from capacity n used es) \<le> n"
proof (induction es arbitrary: n used)
  case (Cons e es)
  then show ?case using Cons.IH [of "n - 1"] by (simp add: select_from_step) (metis One_nat_def Suc_le_mono Suc_pred)
qed simp

lemma select_from_reserved:
  "fits_in used capacity \<Longrightarrow> \<exists>u. pool_reserved used (select_from capacity n used es) = Some u \<and> fits_in u capacity"
  by (induction es arbitrary: n used) (auto simp: select_from_step)

lemma select_from_greedy:
  assumes "length (select_from capacity n used (xs @ e # ys)) < n" and "e \<notin> set (select_from capacity n used (xs @ e # ys))"
  shows "\<exists>u. pool_reserved used (select_from capacity n used xs) = Some u \<and> \<not> entry_fits capacity u e"
  using assms
proof (induction xs arbitrary: n used)
  case Nil
  then show ?case by (auto simp: select_from_step split: if_splits)
next
  case (Cons x xs)
  show ?case
  proof (cases "n \<noteq> 0 \<and> entry_fits capacity used x")
    case True
    then obtain u where u: "checked_add_resources used (tx_resource_limit (po_transaction x)) = Some u" "n \<noteq> 0" "fits_in u capacity" by blast
    with Cons.prems show ?thesis using Cons.IH [of "n - 1" u] by (auto simp: select_from_step)
  next
    case False
    have "n \<noteq> 0" using Cons.prems(1) by simp
    with False have "\<not> entry_fits capacity used x" by blast
    with \<open>n \<noteq> 0\<close> have "select_from capacity n used (x # es) = select_from capacity n used es" for es
      by (simp only: select_from_step if_False)
    with Cons.prems Cons.IH [of n used] show ?thesis by simp
  qed
qed

end
