(* ===== verification/Astro_Tree.thy ===== *)
theory Astro_Tree
  imports Astro_Codec Astro_BTree Astro_Crypto "HOL-Library.List_Lexorder"
begin

text \<open>
  The state tree of the crate \<open>state\<close>: count-bound Merkle commitments over the sorted
  entries (commitment.rs) and their persistent representation (tree.rs). A node that is shared
  rather than rebuilt (the same \<open>Arc\<close>) is the value \<open>None\<close> of \<open>node_replace\<close>.
\<close>

section \<open>Limits and hashes (snapshot.rs, commitment.rs)\<close>

datatype state_error =
    Corrupt | LeaseViolation | StaleSnapshot | LimitExceeded | RootMismatch | StateLocked | StateIo
  | StateDurabilityUnknown

definition MAX_STATE_ENTRIES :: nat where "MAX_STATE_ENTRIES = 1048576"
definition MAX_STATE_KEY_BYTES :: nat where "MAX_STATE_KEY_BYTES = 256"
definition MAX_STATE_VALUE_BYTES :: nat where "MAX_STATE_VALUE_BYTES = 1048576"
definition MAX_SNAPSHOT_BYTES :: nat where "MAX_SNAPSHOT_BYTES = 64 * 1024 * 1024"
definition SNAPSHOT_HEADER_BYTES :: nat where "SNAPSHOT_HEADER_BYTES = 8 + 2 + 8 + 32"

definition entry_size :: "state_key \<Rightarrow> byte list \<Rightarrow> nat" where
  "entry_size key val = 16 + length key + length val"

text \<open>The bytes of one entry, in leaves, snapshots and proofs.\<close>

definition state_entry_bytes :: "state_key \<Rightarrow> byte list \<Rightarrow> byte list" where
  "state_entry_bytes key val = le_bytes (of_nat (length key) :: u64) @ key
     @ le_bytes (of_nat (length val) :: u64) @ val"

definition leaf_hash :: "(byte list \<Rightarrow> hash256) \<Rightarrow> state_key \<Rightarrow> byte list \<Rightarrow> hash256" where
  "leaf_hash blake2s key val = domain_hash blake2s DOMAIN_STATE_LEAF (state_entry_bytes key val)"

definition node_hash :: "(byte list \<Rightarrow> hash256) \<Rightarrow> hash256 \<Rightarrow> hash256 \<Rightarrow> hash256" where
  "node_hash blake2s l r = domain_hash blake2s DOMAIN_STATE_NODE (be_bytes l @ be_bytes r)"

definition root_hash :: "(byte list \<Rightarrow> hash256) \<Rightarrow> u64 \<Rightarrow> hash256 \<Rightarrow> hash256" where
  "root_hash blake2s leaf_count tp = domain_hash blake2s DOMAIN_STATE_ROOT (le_bytes leaf_count @ be_bytes tp)"

definition empty_root :: "(byte list \<Rightarrow> hash256) \<Rightarrow> hash256" where
  "empty_root blake2s = root_hash blake2s 0 0"

section \<open>Nodes (tree.rs)\<close>

datatype state_node =
    LeafNode (nd_hash: hash256) (nd_last_key: state_key) (nd_count: nat) (nd_bytes: nat) "byte list"
  | BranchNode (nd_hash: hash256) (nd_last_key: state_key) (nd_count: nat) (nd_bytes: nat) state_node state_node

definition node_leaf :: "(byte list \<Rightarrow> hash256) \<Rightarrow> state_key \<Rightarrow> byte list \<Rightarrow> state_node" where
  "node_leaf blake2s key val = LeafNode (leaf_hash blake2s key val) key 1 (entry_size key val) val"

definition node_branch :: "(byte list \<Rightarrow> hash256) \<Rightarrow> state_node \<Rightarrow> state_node \<Rightarrow> state_node" where
  "node_branch blake2s l r = BranchNode (node_hash blake2s (nd_hash l) (nd_hash r)) (nd_last_key r)
     (nd_count l + nd_count r) (nd_bytes l + nd_bytes r) l r"

definition node_or :: "state_node \<Rightarrow> state_node option \<Rightarrow> state_node" where
  "node_or n r = (case r of None \<Rightarrow> n | Some n' \<Rightarrow> n')"

fun pair_nodes :: "(byte list \<Rightarrow> hash256) \<Rightarrow> state_node list \<Rightarrow> state_node list" where
  "pair_nodes blake2s (l # r # ns) = node_branch blake2s l r # pair_nodes blake2s ns"
| "pair_nodes blake2s [n] = [n]"
| "pair_nodes blake2s [] = []"

lemma length_pair_nodes [simp]: "length (pair_nodes blake2s ns) = (length ns + 1) div 2"
  by (induction blake2s ns rule: pair_nodes.induct) auto

function reduce_nodes :: "(byte list \<Rightarrow> hash256) \<Rightarrow> state_node list \<Rightarrow> state_node list" where
  "reduce_nodes blake2s level =
     (if length level > 1 then reduce_nodes blake2s (pair_nodes blake2s level) else level)"
  by pat_completeness auto
termination
  by (relation "measure (\<lambda>(_, ns). length ns)") auto

declare reduce_nodes.simps [simp del]

type_synonym tree = "state_node option"

definition tree_from_map :: "(byte list \<Rightarrow> hash256) \<Rightarrow> (state_key, byte list) btree \<Rightarrow> tree" where
  "tree_from_map blake2s data =
     (case rev (reduce_nodes blake2s (map (\<lambda>(k, v). node_leaf blake2s k v) data)) of
        [] \<Rightarrow> None | n # _ \<Rightarrow> Some n)"

definition tree_len :: "tree \<Rightarrow> nat" where
  "tree_len t = (case t of None \<Rightarrow> 0 | Some n \<Rightarrow> nd_count n)"

definition tree_hash :: "(byte list \<Rightarrow> hash256) \<Rightarrow> tree \<Rightarrow> hash256" where
  "tree_hash blake2s t = root_hash blake2s (of_nat (tree_len t)) (case t of None \<Rightarrow> 0 | Some n \<Rightarrow> nd_hash n)"

fun node_get :: "state_node \<Rightarrow> state_key \<Rightarrow> byte list option" where
  "node_get (LeafNode h k c b v) key = (if key = k then Some v else None)"
| "node_get (BranchNode h k c b l r) key = (if key \<le> nd_last_key l then node_get l key else node_get r key)"

definition tree_get :: "tree \<Rightarrow> state_key \<Rightarrow> byte list option" where
  "tree_get t key = (case t of None \<Rightarrow> None | Some n \<Rightarrow> node_get n key)"

text \<open>The iterator over the entries keeps a stack of pending nodes.\<close>

function entries_from :: "state_node list \<Rightarrow> (state_key \<times> byte list) list" where
  "entries_from [] = []"
| "entries_from (LeafNode h k c b v # pending) = (k, v) # entries_from pending"
| "entries_from (BranchNode h k c b l r # pending) = entries_from (l # r # pending)"
  by pat_completeness auto
termination
  by (relation "measure (\<lambda>ns. \<Sum>n \<leftarrow> ns. 2 * size n + 1)") auto

definition tree_entries :: "tree \<Rightarrow> (state_key \<times> byte list) list" where
  "tree_entries t = entries_from (case t of None \<Rightarrow> [] | Some n \<Rightarrow> [n])"

definition tree_to_map :: "tree \<Rightarrow> (state_key, byte list) btree" where
  "tree_to_map t = bt_collect (tree_entries t)"

fun node_position :: "state_node \<Rightarrow> state_key \<Rightarrow> nat \<Rightarrow> nat + nat" where
  "node_position (LeafNode h k c b v) key index =
     (if key = k then Ok index else if key < k then Err index else Err (index + 1))"
| "node_position (BranchNode h k c b l r) key index =
     (if key \<le> nd_last_key l then node_position l key index else node_position r key (index + nd_count l))"

definition tree_position :: "tree \<Rightarrow> state_key \<Rightarrow> nat + nat" where
  "tree_position t key = (case t of None \<Rightarrow> Err 0 | Some n \<Rightarrow> node_position n key 0)"

record state_proof =
  sp_index :: u64
  sp_leaf_count :: u64
  sp_siblings :: "hash256 list"

record state_witness =
  sw_key :: state_key
  sw_value :: "byte list"
  sw_proof :: state_proof

record state_absence_proof =
  sa_lower :: "state_witness option"
  sa_upper :: "state_witness option"

fun descend :: "state_node \<Rightarrow> nat \<Rightarrow> hash256 list \<Rightarrow> state_key \<times> byte list \<times> hash256 list" where
  "descend (LeafNode h k c b v) pos siblings = (k, v, rev siblings)"
| "descend (BranchNode h k c b l r) pos siblings =
     (if pos < nd_count l then descend l pos (siblings @ [nd_hash r])
      else descend r (pos - nd_count l) (siblings @ [nd_hash l]))"

definition entry_proof :: "tree \<Rightarrow> nat \<Rightarrow> (state_key \<times> byte list \<times> state_proof) option" where
  "entry_proof t index =
     (if index \<ge> tree_len t then None
      else case t of
        None \<Rightarrow> None
      | Some n \<Rightarrow>
          (case descend n index [] of (k, v, siblings) \<Rightarrow>
             Some (k, v, \<lparr>sp_index = of_nat index, sp_leaf_count = of_nat (tree_len t), sp_siblings = siblings\<rparr>)))"

definition tree_prove :: "tree \<Rightarrow> state_key \<Rightarrow> state_proof option" where
  "tree_prove t key =
     (case tree_position t key of Inl _ \<Rightarrow> None | Inr index \<Rightarrow> map_option (\<lambda>(_, _, proof). proof) (entry_proof t index))"

definition tree_witness :: "tree \<Rightarrow> nat \<Rightarrow> state_witness option" where
  "tree_witness t index =
     map_option (\<lambda>(key, val, proof). \<lparr>sw_key = key, sw_value = val, sw_proof = proof\<rparr>) (entry_proof t index)"

definition tree_prove_absence :: "tree \<Rightarrow> state_key \<Rightarrow> state_error + state_absence_proof option" where
  "tree_prove_absence t key =
     (if length key > MAX_STATE_KEY_BYTES then Err LimitExceeded
      else case tree_position t key of
        Inr _ \<Rightarrow> Ok None
      | Inl index \<Rightarrow>
          Ok (Some \<lparr>sa_lower = (if index = 0 then None else tree_witness t (index - 1)),
                    sa_upper = tree_witness t index\<rparr>))"

text \<open>\<open>Node::replace\<close>: the writes are sorted, so the partition point ends the longest prefix.\<close>

fun node_replace :: "(byte list \<Rightarrow> hash256) \<Rightarrow> state_node \<Rightarrow> (state_key \<times> byte list) list \<Rightarrow> state_node option" where
  "node_replace blake2s (LeafNode h k c b v) writes =
     (case writes of
        [] \<Rightarrow> None
      | w # _ \<Rightarrow> if v = snd w then None else Some (node_leaf blake2s k (snd w)))"
| "node_replace blake2s (BranchNode h k c b l r) writes =
     (if writes = [] then None
      else
        let next_left = node_replace blake2s l (takeWhile (\<lambda>w. fst w \<le> nd_last_key l) writes);
            next_right = node_replace blake2s r (dropWhile (\<lambda>w. fst w \<le> nd_last_key l) writes) in
        if next_left = None \<and> next_right = None then None
        else Some (node_branch blake2s (node_or l next_left) (node_or r next_right)))"

section \<open>Verification of proofs (commitment.rs)\<close>

text \<open>
  The loop of \<open>StateProof::verify\<close>. The leaf count is at most \<open>MAX_STATE_ENTRIES\<close>
  when it runs, so its 64-bit index and width are the numbers they stand for.
\<close>

function proof_loop :: "(byte list \<Rightarrow> hash256) \<Rightarrow> nat \<Rightarrow> nat \<Rightarrow> hash256 \<Rightarrow> hash256 list \<Rightarrow> (hash256 \<times> hash256 list) option" where
  "proof_loop blake2s index width hash siblings =
     (if width > 1
      then
        if index mod 2 = 1
        then (case siblings of
                [] \<Rightarrow> None
              | l # siblings' \<Rightarrow> proof_loop blake2s (index div 2) ((width + 1) div 2) (node_hash blake2s l hash) siblings')
        else if index + 1 < width
        then (case siblings of
                [] \<Rightarrow> None
              | r # siblings' \<Rightarrow> proof_loop blake2s (index div 2) ((width + 1) div 2) (node_hash blake2s hash r) siblings')
        else proof_loop blake2s (index div 2) ((width + 1) div 2) hash siblings
      else Some (hash, siblings))"
  by pat_completeness auto
termination
  by (relation "measure (\<lambda>(_, _, w, _, _). w)") auto

declare proof_loop.simps [simp del]

definition state_proof_verify ::
  "(byte list \<Rightarrow> hash256) \<Rightarrow> state_proof \<Rightarrow> hash256 \<Rightarrow> state_key \<Rightarrow> byte list \<Rightarrow> bool" where
  "state_proof_verify blake2s p root key val \<longleftrightarrow>
     \<not> (sp_leaf_count p = 0 \<or> unat (sp_leaf_count p) > MAX_STATE_ENTRIES \<or> sp_index p \<ge> sp_leaf_count p
        \<or> length (sp_siblings p) > 20 \<or> length key > MAX_STATE_KEY_BYTES \<or> length val > MAX_STATE_VALUE_BYTES)
     \<and> (case proof_loop blake2s (unat (sp_index p)) (unat (sp_leaf_count p)) (leaf_hash blake2s key val) (sp_siblings p) of
          None \<Rightarrow> False
        | Some (hash, siblings) \<Rightarrow> siblings = [] \<and> root_hash blake2s (sp_leaf_count p) hash = root)"

definition absence_verify ::
  "(byte list \<Rightarrow> hash256) \<Rightarrow> state_absence_proof \<Rightarrow> hash256 \<Rightarrow> state_key \<Rightarrow> bool" where
  "absence_verify blake2s p root key \<longleftrightarrow>
     length key \<le> MAX_STATE_KEY_BYTES
     \<and> (case sa_lower p of
          None \<Rightarrow> True
        | Some l \<Rightarrow> sw_key l < key \<and> state_proof_verify blake2s (sw_proof l) root (sw_key l) (sw_value l))
     \<and> (case sa_upper p of
          None \<Rightarrow> True
        | Some u \<Rightarrow> key < sw_key u \<and> state_proof_verify blake2s (sw_proof u) root (sw_key u) (sw_value u))
     \<and> (case (sa_lower p, sa_upper p) of
          (None, None) \<Rightarrow> root = empty_root blake2s
        | (None, Some u) \<Rightarrow> sp_index (sw_proof u) = 0
        | (Some l, None) \<Rightarrow> sp_index (sw_proof l) + 1 = sp_leaf_count (sw_proof l)
        | (Some l, Some u) \<Rightarrow> sp_leaf_count (sw_proof l) = sp_leaf_count (sw_proof u)
            \<and> sp_index (sw_proof l) + 1 = sp_index (sw_proof u))"

section \<open>Trees stand for their entries\<close>

fun node_entries :: "state_node \<Rightarrow> (state_key \<times> byte list) list" where
  "node_entries (LeafNode h k c b v) = [(k, v)]"
| "node_entries (BranchNode h k c b l r) = node_entries l @ node_entries r"

text \<open>The cached fields are what the constructors compute.\<close>

fun node_wf :: "(byte list \<Rightarrow> hash256) \<Rightarrow> state_node \<Rightarrow> bool" where
  "node_wf blake2s (LeafNode h k c b v) \<longleftrightarrow> LeafNode h k c b v = node_leaf blake2s k v"
| "node_wf blake2s (BranchNode h k c b l r) \<longleftrightarrow> BranchNode h k c b l r = node_branch blake2s l r
     \<and> node_wf blake2s l \<and> node_wf blake2s r"

lemma node_leaf_simps [simp]:
  "nd_hash (node_leaf blake2s k v) = leaf_hash blake2s k v" "nd_last_key (node_leaf blake2s k v) = k"
  "nd_count (node_leaf blake2s k v) = 1" "nd_bytes (node_leaf blake2s k v) = entry_size k v"
  "node_entries (node_leaf blake2s k v) = [(k, v)]" "node_wf blake2s (node_leaf blake2s k v)"
  "node_get (node_leaf blake2s k v) key = (if key = k then Some v else None)"
  by (simp_all add: node_leaf_def)

lemma node_branch_simps [simp]:
  "nd_hash (node_branch blake2s l r) = node_hash blake2s (nd_hash l) (nd_hash r)"
  "nd_last_key (node_branch blake2s l r) = nd_last_key r" "nd_count (node_branch blake2s l r) = nd_count l + nd_count r"
  "nd_bytes (node_branch blake2s l r) = nd_bytes l + nd_bytes r"
  "node_entries (node_branch blake2s l r) = node_entries l @ node_entries r"
  "node_wf blake2s (node_branch blake2s l r) \<longleftrightarrow> node_wf blake2s l \<and> node_wf blake2s r"
  "node_get (node_branch blake2s l r) key = (if key \<le> nd_last_key l then node_get l key else node_get r key)"
  "node_position (node_branch blake2s l r) key i =
     (if key \<le> nd_last_key l then node_position l key i else node_position r key (i + nd_count l))"
  "descend (node_branch blake2s l r) p ss = (if p < nd_count l then descend l p (ss @ [nd_hash r])
     else descend r (p - nd_count l) (ss @ [nd_hash l]))"
  by (simp_all add: node_branch_def)

text \<open>Induction over well-formed nodes.\<close>

lemma node_wf_induct [consumes 1, case_names leaf branch]:
  assumes "node_wf blake2s n"
    and "\<And>k v. P (node_leaf blake2s k v)"
    and "\<And>l r. node_wf blake2s l \<Longrightarrow> node_wf blake2s r \<Longrightarrow> P l \<Longrightarrow> P r \<Longrightarrow> P (node_branch blake2s l r)"
  shows "P n"
  using assms(1)
proof (induction n)
  case (LeafNode h k c b v)
  then show ?case using assms(2) [of k v] by simp
next
  case (BranchNode h k c b l r)
  then show ?case using assms(3) [of l r] by simp
qed

lemma entries_from_append: "entries_from (n # ns) = node_entries n @ entries_from ns"
  by (induction n arbitrary: ns) simp_all

lemma tree_entries_Some [simp]: "tree_entries (Some n) = node_entries n" "tree_entries None = []"
  by (simp_all add: tree_entries_def entries_from_append)

lemma node_entries_nonempty [simp]: "node_entries n \<noteq> []"
  by (induction n) auto

lemma node_wf_cache:
  assumes "node_wf blake2s n"
  shows "nd_count n = length (node_entries n)" "nd_last_key n = fst (last (node_entries n))"
    "nd_bytes n = (\<Sum>(k, v) \<leftarrow> node_entries n. entry_size k v)"
  using assms by (induction rule: node_wf_induct) simp_all

lemma sorted_last_key:
  assumes "bt_ok es" and "e \<in> set es"
  shows "fst e \<le> fst (last es)"
proof -
  obtain xs where es: "es = xs @ [last es]" using assms(2) by (metis append_butlast_last_id list.set_cases list.distinct(1))
  have "bt_ok (xs @ [last es])" using assms(1) es by metis
  then have "fst x < fst (last es)" if "x \<in> set xs" for x using that by (auto simp: sorted_wrt_append)
  moreover have "e \<in> set xs \<or> e = last es" using assms(2) es by (metis Un_iff set_append empty_iff list.set(1,2) singletonD insert_iff)
  ultimately show ?thesis by fastforce
qed

lemma bt_get_append_sorted:
  assumes "bt_ok (xs @ ys)" and "xs \<noteq> []"
  shows "bt_get (xs @ ys) k = (if k \<le> fst (last xs) then bt_get xs k else bt_get ys k)"
proof -
  have cross: "fst x < fst y" if "x \<in> set xs" "y \<in> set ys" for x y
    using assms(1) that by (auto simp: sorted_wrt_append)
  show ?thesis
  proof (cases "k \<le> fst (last xs)")
    case True
    then have "k \<notin> fst ` set ys" using cross [of "last xs"] assms(2) by fastforce
    then have "map_of ys k = None" by (simp add: map_of_eq_None_iff)
    with True show ?thesis by (simp add: bt_get_map_of map_add_def split: option.splits)
  next
    case False
    then have "k \<notin> fst ` set xs" using sorted_last_key [of xs] assms(1) by (fastforce simp: sorted_wrt_append)
    then have "map_of xs k = None" by (simp add: map_of_eq_None_iff)
    with False show ?thesis by (simp add: bt_get_map_of map_add_def split: option.splits)
  qed
qed

lemma node_get_entries:
  assumes "node_wf blake2s n" and "bt_ok (node_entries n)"
  shows "node_get n k = bt_get (node_entries n) k"
  using assms
proof (induction rule: node_wf_induct)
  case (branch l r)
  then show ?case
    using bt_get_append_sorted [of "node_entries l" "node_entries r" k]
    by (auto simp: node_wf_cache sorted_wrt_append)
qed simp

text \<open>Replacing values rebuilds the same shape.\<close>

fun node_rebuild :: "(byte list \<Rightarrow> hash256) \<Rightarrow> (state_key \<Rightarrow> byte list \<Rightarrow> byte list) \<Rightarrow> state_node \<Rightarrow> state_node" where
  "node_rebuild blake2s f (LeafNode h k c b v) = node_leaf blake2s k (f k v)"
| "node_rebuild blake2s f (BranchNode h k c b l r) =
     node_branch blake2s (node_rebuild blake2s f l) (node_rebuild blake2s f r)"

lemma node_rebuild_simps [simp]:
  "node_rebuild blake2s f (node_leaf blake2s' k v) = node_leaf blake2s k (f k v)"
  "node_rebuild blake2s f (node_branch blake2s' l r) = node_branch blake2s (node_rebuild blake2s f l) (node_rebuild blake2s f r)"
  by (simp_all add: node_leaf_def node_branch_def)

lemma node_rebuild_id: "node_wf blake2s n \<Longrightarrow> (\<And>k v. (k, v) \<in> set (node_entries n) \<Longrightarrow> f k v = v) \<Longrightarrow> node_rebuild blake2s f n = n"
  by (induction rule: node_wf_induct) simp_all

lemma node_rebuild_cong:
  "(\<And>k v. (k, v) \<in> set (node_entries n) \<Longrightarrow> f k v = g k v) \<Longrightarrow> node_rebuild blake2s f n = node_rebuild blake2s g n"
  by (induction n) auto

lemma node_entries_rebuild: "node_entries (node_rebuild blake2s f n) = map (\<lambda>(k, v). (k, f k v)) (node_entries n)"
  by (induction n) auto

lemma node_wf_rebuild [simp]: "node_wf blake2s (node_rebuild blake2s f n)"
  by (induction n) auto

lemma pair_nodes_rebuild:
  "map (node_rebuild blake2s f) (pair_nodes blake2s ns) = pair_nodes blake2s (map (node_rebuild blake2s f) ns)"
  by (induction blake2s ns rule: pair_nodes.induct) auto

lemma reduce_nodes_rebuild:
  "map (node_rebuild blake2s f) (reduce_nodes blake2s ns) = reduce_nodes blake2s (map (node_rebuild blake2s f) ns)"
proof (induction blake2s ns rule: reduce_nodes.induct)
  case (1 blake2s ns)
  then show ?case
    by (subst (1 2) reduce_nodes.simps) (simp add: pair_nodes_rebuild)
qed

lemma tree_from_map_rebuild:
  "tree_from_map blake2s (map (\<lambda>(k, v). (k, f k v)) data) = map_option (node_rebuild blake2s f) (tree_from_map blake2s data)"
proof -
  have leaves: "map (\<lambda>(k, v). node_leaf blake2s k v) (map (\<lambda>(k, v). (k, f k v)) data)
      = map (node_rebuild blake2s f) (map (\<lambda>(k, v). node_leaf blake2s k v) data)"
    by (simp add: case_prod_unfold)
  show ?thesis
    unfolding tree_from_map_def leaves reduce_nodes_rebuild [symmetric] rev_map [symmetric]
    by (cases "rev (reduce_nodes blake2s (map (\<lambda>(k, v). node_leaf blake2s k v) data))") simp_all
qed

lemma entries_pair_nodes: "concat (map node_entries (pair_nodes blake2s ns)) = concat (map node_entries ns)"
  by (induction blake2s ns rule: pair_nodes.induct) auto

lemma wf_pair_nodes: "list_all (node_wf blake2s) ns \<Longrightarrow> list_all (node_wf blake2s) (pair_nodes blake2s ns)"
  by (induction blake2s ns rule: pair_nodes.induct) auto

lemma entries_reduce_nodes: "concat (map node_entries (reduce_nodes blake2s ns)) = concat (map node_entries ns)"
proof (induction blake2s ns rule: reduce_nodes.induct)
  case (1 blake2s ns)
  then show ?case by (subst reduce_nodes.simps) (simp add: entries_pair_nodes)
qed

lemma wf_reduce_nodes: "list_all (node_wf blake2s) ns \<Longrightarrow> list_all (node_wf blake2s) (reduce_nodes blake2s ns)"
proof (induction blake2s ns rule: reduce_nodes.induct)
  case (1 blake2s ns)
  then show ?case by (subst reduce_nodes.simps) (simp add: wf_pair_nodes)
qed

lemma length_reduce_nodes: "length (reduce_nodes blake2s ns) = min 1 (length ns)"
proof (induction blake2s ns rule: reduce_nodes.induct)
  case (1 blake2s ns)
  then show ?case by (subst reduce_nodes.simps) auto
qed

abbreviation leaf_nodes :: "(byte list \<Rightarrow> hash256) \<Rightarrow> (state_key \<times> byte list) list \<Rightarrow> state_node list" where
  "leaf_nodes blake2s data \<equiv> map (\<lambda>(k, v). node_leaf blake2s k v) data"

text \<open>The tree of a map: no node for the empty one, otherwise a well-formed node with its entries.\<close>

lemma tree_from_map_Nil [simp]: "tree_from_map blake2s [] = None"
  by (simp add: tree_from_map_def reduce_nodes.simps)

lemma tree_from_map_cases:
  obtains "data = []" "tree_from_map blake2s data = None"
  | n where "data \<noteq> []" "tree_from_map blake2s data = Some n" "reduce_nodes blake2s (leaf_nodes blake2s data) = [n]"
      "node_wf blake2s n" "node_entries n = data"
proof (cases data)
  case Nil
  then show thesis using that(1) by simp
next
  case (Cons e es)
  then obtain n where n: "reduce_nodes blake2s (leaf_nodes blake2s data) = [n]"
    using length_reduce_nodes [of blake2s "leaf_nodes blake2s data"] by (auto simp: length_Suc_conv)
  have wf: "node_wf blake2s n"
    using wf_reduce_nodes [of blake2s "leaf_nodes blake2s data"] by (simp only: n) (simp add: list_all_iff case_prod_unfold)
  have "concat (map node_entries (leaf_nodes blake2s data)) = data"
    by (induction data) auto
  then have "node_entries n = data"
    using entries_reduce_nodes [of blake2s "leaf_nodes blake2s data"] by (simp only: n) simp
  then show thesis using that(2) [of n] Cons n wf by (simp add: tree_from_map_def)
qed

lemma tree_entries_from_map [simp]: "tree_entries (tree_from_map blake2s data) = data"
  by (rule tree_from_map_cases [of data blake2s]) simp_all

lemma tree_len_from_map [simp]: "tree_len (tree_from_map blake2s data) = length data"
  by (rule tree_from_map_cases [of data blake2s]) (simp_all add: tree_len_def node_wf_cache)

lemma tree_get_from_map [simp]:
  "bt_ok data \<Longrightarrow> tree_get (tree_from_map blake2s data) k = bt_get data k"
  by (rule tree_from_map_cases [of data blake2s]) (simp_all add: tree_get_def node_get_entries)

lemma bt_collect_sorted [simp]:
  assumes "bt_ok es"
  shows "bt_collect es = es"
proof (rule bt_ext)
  have "bt_get es = map_of es" by (simp add: fun_eq_iff bt_get_map_of)
  then show "bt_get (bt_collect es) = bt_get es"
    using bt_distinct [OF assms] by (simp add: bt_get_collect map_of_inject_set rev_map [symmetric])
qed (simp_all add: assms)

lemma tree_to_map_from_map [simp]: "bt_ok data \<Longrightarrow> tree_to_map (tree_from_map blake2s data) = data"
  by (simp add: tree_to_map_def)

text \<open>Overwriting present keys through shared subtrees is rebuilding with the new values.\<close>

definition overwrite :: "(state_key, byte list) btree \<Rightarrow> state_key \<Rightarrow> byte list \<Rightarrow> byte list" where
  "overwrite writes k v = (case bt_get writes k of None \<Rightarrow> v | Some w \<Rightarrow> w)"

lemma takeWhile_sorted:
  assumes "bt_ok ws"
  shows "takeWhile (\<lambda>w. fst w \<le> k) ws = filter (\<lambda>w. fst w \<le> k) ws"
    "dropWhile (\<lambda>w. fst w \<le> k) ws = filter (\<lambda>w. k < fst w) ws"
  using assms
proof (induction ws)
  case (Cons w ws)
  {
    case 1
    then have "fst w < fst x" if "x \<in> set ws" for x using that by simp
    then have "filter (\<lambda>w. fst w \<le> k) ws = []" if "k < fst w" using that by (force simp: filter_empty_conv)
    with 1 Cons.IH(1) show ?case by (auto simp: not_le)
  next
    case 2
    then have "fst w < fst x" if "x \<in> set ws" for x using that by simp
    then have "filter (\<lambda>w. k < fst w) ws = ws" if "k < fst w" using that by (force simp: filter_id_conv)
    with 2 Cons.IH(2) show ?case by (auto simp: not_le)
  }
qed simp_all

lemma bt_get_filter: "bt_get (filter (\<lambda>w. P (fst w)) ws) k = (if P k then bt_get ws k else None)"
  by (induction ws) auto

lemma bt_ok_filter: "bt_ok ws \<Longrightarrow> bt_ok (filter P ws)"
  by (induction ws) auto

lemma node_replace_rebuild:
  assumes "node_wf blake2s n" and "bt_ok (node_entries n)"
    and "bt_ok writes" and "fst ` set writes \<subseteq> fst ` set (node_entries n)"
  shows "node_or n (node_replace blake2s n writes) = node_rebuild blake2s (overwrite writes) n"
  using assms
proof (induction arbitrary: writes rule: node_wf_induct)
  case (leaf k v)
  have "writes = [] \<or> (\<exists>w. writes = [(k, w)])"
  proof (cases writes)
    case (Cons x ws)
    with leaf have "fst x = k" by simp
    have "fst y = k \<and> k < fst y" if "y \<in> set ws" for y
      using leaf(2,3) that by (auto simp: Cons \<open>fst x = k\<close>)
    then have "ws = []" by (metis less_irrefl list.set_intros(1) neq_Nil_conv)
    with Cons \<open>fst x = k\<close> show ?thesis by (cases x) auto
  qed simp
  then show ?case
  proof
    assume "writes = []"
    then show ?thesis by (simp add: node_leaf_def node_or_def overwrite_def)
  next
    assume "\<exists>w. writes = [(k, w)]"
    then obtain w where "writes = [(k, w)]" by blast
    then show ?thesis by (simp add: node_leaf_def node_or_def overwrite_def)
  qed
next
  case (branch l r)
  let ?wl = "filter (\<lambda>w. fst w \<le> nd_last_key l) writes" and ?wr = "filter (\<lambda>w. nd_last_key l < fst w) writes"
  have sorted: "bt_ok (node_entries l)" "bt_ok (node_entries r)"
    and cross: "\<And>a b. a \<in> set (node_entries l) \<Longrightarrow> b \<in> set (node_entries r) \<Longrightarrow> fst a < fst b"
    using branch.prems(1) by (auto simp: sorted_wrt_append)
  have low: "fst a \<le> nd_last_key l" if "a \<in> set (node_entries l)" for a
    using sorted_last_key [OF sorted(1) that] node_wf_cache(2) [OF branch.hyps(1)] by simp
  have high: "nd_last_key l < fst b" if "b \<in> set (node_entries r)" for b
    using cross [of "last (node_entries l)" b] that node_wf_cache(2) [OF branch.hyps(1)] by simp
  have "fst ` set ?wl \<subseteq> fst ` set (node_entries l)" "fst ` set ?wr \<subseteq> fst ` set (node_entries r)"
  proof -
    have "fst w \<in> fst ` set (node_entries l) \<or> fst w \<in> fst ` set (node_entries r)" if "w \<in> set writes" for w
      using branch.prems(3) that by (simp add: image_Un subset_iff)
    moreover have "k \<le> nd_last_key l" if "k \<in> fst ` set (node_entries l)" for k using that low by blast
    moreover have "nd_last_key l < k" if "k \<in> fst ` set (node_entries r)" for k using that high by blast
    ultimately show "fst ` set ?wl \<subseteq> fst ` set (node_entries l)" "fst ` set ?wr \<subseteq> fst ` set (node_entries r)"
      by (auto simp: not_le [symmetric]) (meson not_le)+
  qed
  then have ih: "node_or l (node_replace blake2s l ?wl) = node_rebuild blake2s (overwrite ?wl) l"
      "node_or r (node_replace blake2s r ?wr) = node_rebuild blake2s (overwrite ?wr) r"
    using branch.IH sorted branch.prems(2) by (simp_all add: bt_ok_filter)
  have parts: "node_rebuild blake2s (overwrite ?wl) l = node_rebuild blake2s (overwrite writes) l"
      "node_rebuild blake2s (overwrite ?wr) r = node_rebuild blake2s (overwrite writes) r"
    by (rule node_rebuild_cong,
        simp add: overwrite_def bt_get_filter [where P = "\<lambda>k. k \<le> nd_last_key l"],
        metis fst_conv low)
       (rule node_rebuild_cong,
        simp add: overwrite_def bt_get_filter [where P = "\<lambda>k. nd_last_key l < k"], metis fst_conv high)
  show ?case
  proof (cases "writes = []")
    case True
    then have "overwrite writes = (\<lambda>k v. v)" by (simp add: overwrite_def fun_eq_iff)
    with True show ?thesis
      using node_rebuild_id [OF branch.hyps(1)] node_rebuild_id [OF branch.hyps(2)]
      by (simp add: node_branch_def node_or_def)
  next
    case False
    then show ?thesis
      using ih parts by (auto simp: node_branch_def node_or_def Let_def takeWhile_sorted [OF branch.prems(2)]
          split: option.splits)
  qed
qed

section \<open>Membership proofs\<close>

text \<open>The siblings of the node at a position of a level, from that level upwards.\<close>

function level_siblings :: "(byte list \<Rightarrow> hash256) \<Rightarrow> state_node list \<Rightarrow> nat \<Rightarrow> hash256 list" where
  "level_siblings blake2s ns j =
     (if length ns > 1
      then (if j mod 2 = 1 then [nd_hash (ns ! (j - 1))]
            else if j + 1 < length ns then [nd_hash (ns ! (j + 1))] else [])
        @ level_siblings blake2s (pair_nodes blake2s ns) (j div 2)
      else [])"
  by pat_completeness auto
termination
  by (relation "measure (\<lambda>(_, ns, _). length ns)") auto

declare level_siblings.simps [simp del]

lemma nth_pair_nodes:
  assumes "j < length (pair_nodes blake2s ns)"
  shows "pair_nodes blake2s ns ! j = (if 2 * j + 1 < length ns then node_branch blake2s (ns ! (2 * j)) (ns ! (2 * j + 1)) else ns ! (2 * j))"
  using assms
proof (induction blake2s ns arbitrary: j rule: pair_nodes.induct)
  case (1 blake2s l r ns)
  then show ?case by (cases j) auto
qed auto

lemma proof_loop_siblings:
  assumes "j < length ns"
  shows "proof_loop blake2s j (length ns) (nd_hash (ns ! j)) (level_siblings blake2s ns j @ extra)
    = Some (nd_hash (hd (reduce_nodes blake2s ns)), extra)"
  using assms
proof (induction blake2s ns j rule: level_siblings.induct)
  case (1 blake2s ns j)
  show ?case
  proof (cases "length ns > 1")
    case False
    with 1 show ?thesis
      by (cases ns) (simp_all add: proof_loop.simps level_siblings.simps reduce_nodes.simps)
  next
    case True
    have half: "j div 2 < length (pair_nodes blake2s ns)" using 1(2) by simp
    note ih = 1(1) [OF True half]
    have node: "nd_hash (pair_nodes blake2s ns ! (j div 2)) =
        (if j mod 2 = 1 then node_hash blake2s (nd_hash (ns ! (j - 1))) (nd_hash (ns ! j))
         else if j + 1 < length ns then node_hash blake2s (nd_hash (ns ! j)) (nd_hash (ns ! (j + 1)))
         else nd_hash (ns ! j))"
    proof (cases "j mod 2 = 1")
      case True
      then have "2 * (j div 2) = j - 1" "2 * (j div 2) + 1 = j" by presburger+
      with True 1(2) show ?thesis by (simp add: nth_pair_nodes [OF half])
    next
      case False
      then have "2 * (j div 2) = j" by presburger
      with False show ?thesis by (simp add: nth_pair_nodes [OF half])
    qed
    show ?thesis
      using True ih node
      by (auto simp: proof_loop.simps [of blake2s j "length ns"] level_siblings.simps [of blake2s ns j]
          reduce_nodes.simps [of blake2s ns])
  qed
qed

lemma length_level_siblings: "length ns \<le> 2 ^ k \<Longrightarrow> length (level_siblings blake2s ns j) \<le> k"
proof (induction k arbitrary: ns j)
  case 0
  then show ?case by (simp add: level_siblings.simps)
next
  case (Suc k)
  then have "length (pair_nodes blake2s ns) \<le> 2 ^ k" by simp
  then show ?case using Suc.IH [of "pair_nodes blake2s ns" "j div 2"] by (subst level_siblings.simps) simp
qed

text \<open>The siblings a descent collects, leaf first.\<close>

fun node_path :: "state_node \<Rightarrow> nat \<Rightarrow> hash256 list" where
  "node_path (LeafNode h k c b v) pos = []"
| "node_path (BranchNode h k c b l r) pos =
     (if pos < nd_count l then node_path l pos @ [nd_hash r] else node_path r (pos - nd_count l) @ [nd_hash l])"

lemma node_path_simps [simp]:
  "node_path (node_leaf blake2s k v) pos = []"
  "node_path (node_branch blake2s l r) pos =
     (if pos < nd_count l then node_path l pos @ [nd_hash r] else node_path r (pos - nd_count l) @ [nd_hash l])"
  by (simp_all add: node_leaf_def node_branch_def)

lemma descend_path:
  assumes "node_wf blake2s n" and "pos < nd_count n"
  shows "descend n pos ss = (fst (node_entries n ! pos), snd (node_entries n ! pos), node_path n pos @ rev ss)"
  using assms
proof (induction arbitrary: pos ss rule: node_wf_induct)
  case (leaf k v)
  then show ?case by (simp add: node_leaf_def)
next
  case (branch l r)
  then show ?case by (simp add: nth_append node_wf_cache)
qed

definition level_offset :: "state_node list \<Rightarrow> nat \<Rightarrow> nat" where
  "level_offset ns j = sum_list (map nd_count (take j ns))"

lemma level_offset_pair:
  "2 * j \<le> length ns \<Longrightarrow> level_offset (pair_nodes blake2s ns) j = level_offset ns (2 * j)"
proof (induction blake2s ns arbitrary: j rule: pair_nodes.induct)
  case (1 blake2s l r ns)
  then show ?case by (cases j) (auto simp: level_offset_def)
next
  case (2 blake2s n)
  then have "j = 0" by simp
  then show ?case by (simp add: level_offset_def)
qed (simp add: level_offset_def)

lemma path_level_siblings:
  assumes "list_all (node_wf blake2s) ns" and "j < length ns" and "pos < nd_count (ns ! j)"
  shows "node_path (hd (reduce_nodes blake2s ns)) (level_offset ns j + pos) = node_path (ns ! j) pos @ level_siblings blake2s ns j"
  using assms
proof (induction blake2s ns j arbitrary: pos rule: level_siblings.induct)
  case (1 blake2s ns j)
  show ?case
  proof (cases "length ns > 1")
    case False
    with 1(3) show ?thesis
      by (cases ns) (simp_all add: level_siblings.simps reduce_nodes.simps level_offset_def)
  next
    case True
    have half: "j div 2 < length (pair_nodes blake2s ns)" using 1(3) by simp
    note ih = 1(1) [OF True wf_pair_nodes [OF 1(2)] half]
    have two: "2 * (j div 2) \<le> length ns" using 1(3) by simp
    note red = reduce_nodes.simps [of blake2s ns] level_siblings.simps [of blake2s ns j]
    show ?thesis
    proof (cases "j mod 2 = 1")
      case odd: True
      then have j: "2 * (j div 2) = j - 1" "2 * (j div 2) + 1 = j" by presburger+
      have off: "level_offset ns j = level_offset ns (j - 1) + nd_count (ns ! (j - 1))"
        using 1(3) j take_Suc_conv_app_nth [of "j - 1" ns] by (simp add: level_offset_def)
      have "pair_nodes blake2s ns ! (j div 2) = node_branch blake2s (ns ! (j - 1)) (ns ! j)"
        using 1(3) j by (simp add: nth_pair_nodes [OF half])
      then show ?thesis
        using ih [of "nd_count (ns ! (j - 1)) + pos"] 1(4) True odd
        by (simp add: red level_offset_pair [OF two] j off add.assoc)
    next
      case even: False
      then have j: "2 * (j div 2) = j" by presburger
      have "pair_nodes blake2s ns ! (j div 2) = (if j + 1 < length ns then node_branch blake2s (ns ! j) (ns ! (j + 1)) else ns ! j)"
        using j by (simp add: nth_pair_nodes [OF half])
      then show ?thesis
        using ih [of pos] 1(4) True even by (simp add: red level_offset_pair [OF two] j)
    qed
  qed
qed

lemma level_offset_leaves: "j \<le> length data \<Longrightarrow> level_offset (leaf_nodes blake2s data) j = j"
  by (simp add: level_offset_def take_map comp_def case_prod_unfold sum_list_triv)

text \<open>The proof of the entry at an index carries the siblings of its leaf.\<close>

lemma entry_proof_from_map:
  "entry_proof (tree_from_map blake2s data) i =
     (if i < length data
      then Some (fst (data ! i), snd (data ! i), \<lparr>sp_index = of_nat i, sp_leaf_count = of_nat (length data),
             sp_siblings = level_siblings blake2s (leaf_nodes blake2s data) i\<rparr>)
      else None)"
proof (cases "i < length data")
  case True
  then obtain n where n: "tree_from_map blake2s data = Some n" "reduce_nodes blake2s (leaf_nodes blake2s data) = [n]"
      "node_wf blake2s n" "node_entries n = data"
    by (cases rule: tree_from_map_cases [of data blake2s]) auto
  have len: "tree_len (Some n) = length data" using tree_len_from_map [of blake2s data] by (simp only: n(1))
  have "node_path n i = level_siblings blake2s (leaf_nodes blake2s data) i"
    using path_level_siblings [of blake2s "leaf_nodes blake2s data" i 0] True
    unfolding n(2) by (simp add: level_offset_leaves list_all_iff split_beta)
  moreover have "i < nd_count n" using True by (simp add: node_wf_cache(1) [OF n(3)] n(4))
  ultimately show ?thesis
    using True by (simp add: entry_proof_def n(1) len descend_path [OF n(3)] n(4))
qed (simp add: entry_proof_def)

end
