(* ===== verification/Astro_State_Proof.thy ===== *)
theory Astro_State_Proof
  imports Astro_Tree
begin

text \<open>
  Membership and absence proofs of the state tree: the proofs the tree hands out verify, and a
  proof that verifies tells the truth about the entries behind the root, as long as the digest
  does not collide on the messages hashed by the tree and by the verification.
\<close>

section \<open>Bounded state maps\<close>

text \<open>The bounds every state map satisfies (snapshot.rs).\<close>

definition map_size :: "(state_key, byte list) btree \<Rightarrow> nat" where
  "map_size data = SNAPSHOT_HEADER_BYTES + (\<Sum>(k, v) \<leftarrow> data. entry_size k v)"

definition entry_bounded :: "state_key \<times> byte list \<Rightarrow> bool" where
  "entry_bounded e \<longleftrightarrow> length (fst e) \<le> MAX_STATE_KEY_BYTES \<and> length (snd e) \<le> MAX_STATE_VALUE_BYTES"

definition map_bounded :: "(state_key, byte list) btree \<Rightarrow> bool" where
  "map_bounded data \<longleftrightarrow> bt_ok data \<and> length data \<le> MAX_STATE_ENTRIES \<and> list_all entry_bounded data
     \<and> map_size data \<le> MAX_SNAPSHOT_BYTES"

lemma map_boundedD:
  assumes "map_bounded data"
  shows "bt_ok data" "length data \<le> MAX_STATE_ENTRIES" "map_size data \<le> MAX_SNAPSHOT_BYTES"
    "e \<in> set data \<Longrightarrow> entry_bounded e"
  using assms by (auto simp: map_bounded_def list_all_iff)

lemma state_entry_bytes_inject:
  assumes "entry_bounded e" "entry_bounded e'"
    and "state_entry_bytes (fst e) (snd e) = state_entry_bytes (fst e') (snd e')"
  shows "e = e'"
proof -
  have len: "length (fst e) < 2 ^ 64" "length (fst e') < 2 ^ 64" "length (snd e) < 2 ^ 64" "length (snd e') < 2 ^ 64"
    using assms(1,2) by (auto simp: entry_bounded_def MAX_STATE_KEY_BYTES_def MAX_STATE_VALUE_BYTES_def)
  have word: "(of_nat a :: u64) = of_nat b \<longleftrightarrow> a = b" if "a < 2 ^ 64" "b < 2 ^ 64" for a b
    using that by (simp add: word_of_nat_eq_iff take_bit_nat_eq_self)
  have "fst e = fst e'" "snd e = snd e'"
    using assms(3) len by (auto simp: state_entry_bytes_def word)
  then show ?thesis by (simp add: prod_eq_iff)
qed

section \<open>Positions\<close>

definition rank :: "(state_key \<times> byte list) list \<Rightarrow> state_key \<Rightarrow> nat" where
  "rank es key = length (takeWhile (\<lambda>e. fst e < key) es)"

lemma rank_append:
  "rank (xs @ ys) key = (if \<forall>e \<in> set xs. fst e < key then length xs + rank ys key else rank xs key)"
  by (auto simp: rank_def takeWhile_append)

lemma node_position_rank:
  assumes "node_wf blake2s n" and "bt_ok (node_entries n)"
  shows "node_position n key i =
    (if key \<in> fst ` set (node_entries n) then Ok (i + rank (node_entries n) key) else Err (i + rank (node_entries n) key))"
  using assms
proof (induction arbitrary: i rule: node_wf_induct)
  case (leaf k v)
  then show ?case by (auto simp: node_leaf_def rank_def)
next
  case (branch l r)
  have sorted: "bt_ok (node_entries l)" "bt_ok (node_entries r)"
    and cross: "\<And>a b. a \<in> set (node_entries l) \<Longrightarrow> b \<in> set (node_entries r) \<Longrightarrow> fst a < fst b"
    using branch.prems by (auto simp: sorted_wrt_append)
  have last: "nd_last_key l = fst (last (node_entries l))" "last (node_entries l) \<in> set (node_entries l)"
    by (simp_all add: node_wf_cache [OF branch.hyps(1)])
  show ?case
  proof (cases "key \<le> nd_last_key l")
    case True
    then have low: "(\<forall>e \<in> set (node_entries l). fst e < key) = False" using last by (metis not_le)
    moreover have "key \<notin> fst ` set (node_entries r)" using cross [OF last(2)] True last(1) by force
    ultimately show ?thesis using True branch.IH(1) [OF sorted(1)]
      by (simp only: rank_append low if_False node_branch_simps set_append image_Un) simp
  next
    case False
    then have "fst e < key" if "e \<in> set (node_entries l)" for e
      using sorted_last_key [OF sorted(1) that] last(1) by simp
    then have "\<forall>e \<in> set (node_entries l). fst e < key" "key \<notin> fst ` set (node_entries l)" by auto
    then show ?thesis
      using False branch.IH(2) [OF sorted(2)] by (simp add: rank_append image_Un node_wf_cache(1) [OF branch.hyps(1)] add.assoc)
  qed
qed

lemma tree_position_from_map:
  assumes "bt_ok data"
  shows "tree_position (tree_from_map blake2s data) key =
    (if key \<in> fst ` set data then Ok (rank data key) else Err (rank data key))"
proof (rule tree_from_map_cases [of data blake2s])
  fix n
  assume "tree_from_map blake2s data = Some n" "node_wf blake2s n" "node_entries n = data"
  with assms show ?thesis using node_position_rank [of blake2s n key 0] by (simp add: tree_position_def)
qed (simp add: tree_position_def rank_def)

lemma rank_present:
  assumes "bt_ok es" and "(key, v) \<in> set es"
  shows "rank es key < length es \<and> es ! rank es key = (key, v)"
  using assms
proof (induction es)
  case (Cons e es)
  then show ?case by (auto simp: rank_def)
qed simp

lemma rank_absent:
  assumes "bt_ok es" and "key \<notin> fst ` set es"
  shows "rank es key \<le> length es" "i < rank es key \<Longrightarrow> fst (es ! i) < key"
    "rank es key \<le> i \<Longrightarrow> i < length es \<Longrightarrow> key < fst (es ! i)"
proof -
  show "rank es key \<le> length es" by (simp add: rank_def length_takeWhile_le)
  show "i < rank es key \<Longrightarrow> fst (es ! i) < key"
    unfolding rank_def by (metis nth_mem set_takeWhileD takeWhile_nth)
next
  assume i: "rank es key \<le> i" "i < length es"
  let ?r = "rank es key"
  have r: "?r < length es" using i by simp
  have "\<not> fst (es ! ?r) < key" using nth_length_takeWhile [of "\<lambda>e. fst e < key" es] r by (simp add: rank_def)
  moreover have "fst (es ! ?r) \<noteq> key" using assms(2) r by (metis image_eqI nth_mem)
  ultimately have "key < fst (es ! ?r)" by simp
  moreover have "fst (es ! ?r) \<le> fst (es ! i)"
    using assms(1) i by (cases "?r = i") (auto simp: sorted_wrt_iff_nth_less less_imp_le)
  ultimately show "key < fst (es ! i)" by simp
qed

section \<open>Proofs of the tree verify\<close>

lemma of_nat_u64_small: "n \<le> MAX_STATE_ENTRIES \<Longrightarrow> unat (of_nat n :: u64) = n"
  by (simp add: MAX_STATE_ENTRIES_def unat_of_nat take_bit_nat_eq_self)

lemma of_nat_u64_less: "m < n \<Longrightarrow> n \<le> MAX_STATE_ENTRIES \<Longrightarrow> (of_nat m :: u64) < of_nat n"
  by (simp add: word_less_nat_alt of_nat_u64_small)

lemma leaf_proof_verifies:
  assumes "map_bounded data" and "i < length data"
  shows "state_proof_verify blake2s \<lparr>sp_index = of_nat i, sp_leaf_count = of_nat (length data),
      sp_siblings = level_siblings blake2s (leaf_nodes blake2s data) i\<rparr>
    (tree_hash blake2s (tree_from_map blake2s data)) (fst (data ! i)) (snd (data ! i))"
proof -
  let ?ns = "leaf_nodes blake2s data"
  note bounds = map_boundedD [OF assms(1)]
  have small: "unat (of_nat i :: u64) = i" "unat (of_nat (length data) :: u64) = length data"
    using assms(2) bounds(2) by (simp_all add: of_nat_u64_small)
  have "length (level_siblings blake2s ?ns i) \<le> 20"
    using bounds(2) by (intro length_level_siblings) (simp add: MAX_STATE_ENTRIES_def)
  moreover have "entry_bounded (data ! i)" using bounds(4) assms(2) by simp
  moreover obtain n where n: "tree_from_map blake2s data = Some n" "reduce_nodes blake2s ?ns = [n]"
    using assms(2) by (cases rule: tree_from_map_cases [of data blake2s]) auto
  moreover have "tree_hash blake2s (Some n) = root_hash blake2s (of_nat (length data)) (nd_hash n)"
    using tree_len_from_map [of blake2s data] by (simp add: tree_hash_def n(1) del: tree_len_from_map)
  moreover have "proof_loop blake2s i (length data) (leaf_hash blake2s (fst (data ! i)) (snd (data ! i)))
      (level_siblings blake2s ?ns i) = Some (nd_hash n, [])"
    using proof_loop_siblings [of i ?ns blake2s "[]"] assms(2) n(2) by (simp add: split_beta)
  moreover have "\<not> sp_leaf_count \<lparr>sp_index = of_nat i, sp_leaf_count = of_nat (length data),
      sp_siblings = level_siblings blake2s ?ns i\<rparr> = 0"
    using small assms(2) by (metis less_nat_zero_code state_proof.select_convs(2) unat_0)
  ultimately show ?thesis
    using small bounds(2) of_nat_u64_less [OF assms(2) bounds(2)]
    by (simp add: state_proof_verify_def entry_bounded_def not_le not_less)
qed

lemma tree_prove_complete:
  assumes "map_bounded data"
  shows "(case bt_get data key of
      None \<Rightarrow> tree_prove (tree_from_map blake2s data) key = None
    | Some v \<Rightarrow> \<exists>p. tree_prove (tree_from_map blake2s data) key = Some p
        \<and> state_proof_verify blake2s p (tree_hash blake2s (tree_from_map blake2s data)) key v)"
proof (cases "bt_get data key")
  case None
  then have "key \<notin> fst ` set data" by (simp only: bt_get_None_iff not_False_eq_True)
  with None show ?thesis by (simp add: tree_prove_def tree_position_from_map [OF map_boundedD(1) [OF assms]])
next
  case (Some v)
  then have "(key, v) \<in> set data" by (rule bt_get_Some_mem)
  moreover then have "key \<in> fst ` set data" by force
  ultimately show ?thesis
    using Some rank_present [OF map_boundedD(1) [OF assms], of key v] leaf_proof_verifies [OF assms, of "rank data key" blake2s]
    by (simp add: tree_prove_def tree_position_from_map [OF map_boundedD(1) [OF assms]] entry_proof_from_map)
qed

lemma tree_witness_from_map:
  "tree_witness (tree_from_map blake2s data) i =
     (if i < length data
      then Some \<lparr>sw_key = fst (data ! i), sw_value = snd (data ! i),
             sw_proof = \<lparr>sp_index = of_nat i, sp_leaf_count = of_nat (length data),
               sp_siblings = level_siblings blake2s (leaf_nodes blake2s data) i\<rparr>\<rparr>
      else None)"
  by (simp add: tree_witness_def entry_proof_from_map)

lemma tree_prove_absence_complete:
  assumes "map_bounded data" and "length key \<le> MAX_STATE_KEY_BYTES"
  shows "if key \<in> fst ` set data then tree_prove_absence (tree_from_map blake2s data) key = Ok None
    else \<exists>p. tree_prove_absence (tree_from_map blake2s data) key = Ok (Some p)
      \<and> absence_verify blake2s p (tree_hash blake2s (tree_from_map blake2s data)) key"
proof (cases "key \<in> fst ` set data")
  case True
  then show ?thesis using assms
    by (simp add: tree_prove_absence_def tree_position_from_map [OF map_boundedD(1) [OF assms(1)]])
next
  case False
  let ?r = "rank data key" and ?t = "tree_from_map blake2s data"
  note rank = rank_absent [OF map_boundedD(1) [OF assms(1)] False]
  note proofs = leaf_proof_verifies [OF assms(1), of _ blake2s]
  define p where "p = \<lparr>sa_lower = (if ?r = 0 then None else tree_witness ?t (?r - 1)), sa_upper = tree_witness ?t ?r\<rparr>"
  have "tree_prove_absence ?t key = Ok (Some p)"
    using False assms(2) by (simp add: tree_prove_absence_def tree_position_from_map [OF map_boundedD(1) [OF assms(1)]] p_def)
  moreover have "absence_verify blake2s p (tree_hash blake2s ?t) key"
  proof -
    consider "?r = 0" "data = []" | "?r = 0" "0 < length data" | "0 < ?r" "?r = length data" | "0 < ?r" "?r < length data"
      using rank(1) by fastforce
    then show ?thesis
    proof cases
      case 1
      then show ?thesis using assms(2)
        by (simp add: p_def tree_witness_def entry_proof_def tree_len_def absence_verify_def tree_hash_def empty_root_def)
    next
      case 2
      then show ?thesis using assms(2) rank(3) [of 0] proofs [of 0]
        by (simp add: p_def tree_witness_from_map absence_verify_def)
    next
      case 3
      then have "of_nat (?r - 1) + 1 = (of_nat (length data) :: u64)" by (metis Suc_pred' add.commute of_nat_Suc)
      with 3 show ?thesis using assms(2) rank(2) [of "?r - 1"] proofs [of "?r - 1"]
        by (simp add: p_def tree_witness_from_map absence_verify_def)
    next
      case 4
      then have "of_nat (?r - 1) + 1 = (of_nat ?r :: u64)" by (metis Suc_pred' add.commute of_nat_Suc)
      moreover have "?r - 1 < length data" using 4 by simp
      ultimately show ?thesis
        using 4 assms(2) rank(2) [of "?r - 1"] rank(3) [of ?r] proofs [of "?r - 1"] proofs [of ?r]
        by (simp add: p_def tree_witness_from_map absence_verify_def)
    qed
  qed
  ultimately show ?thesis using False by simp
qed

section \<open>Proofs that verify are true\<close>

text \<open>The messages the tree of a map hashes, and those the verification of a proof hashes.\<close>

definition leaf_message :: "state_key \<Rightarrow> byte list \<Rightarrow> byte list" where
  "leaf_message k v = domain_preimage DOMAIN_STATE_LEAF (state_entry_bytes k v)"

definition node_message :: "hash256 \<Rightarrow> hash256 \<Rightarrow> byte list" where
  "node_message l r = domain_preimage DOMAIN_STATE_NODE (be_bytes l @ be_bytes r)"

definition root_message :: "u64 \<Rightarrow> hash256 \<Rightarrow> byte list" where
  "root_message c h = domain_preimage DOMAIN_STATE_ROOT (le_bytes c @ be_bytes h)"

lemma hash_messages:
  "leaf_hash blake2s k v = blake2s (leaf_message k v)" "node_hash blake2s l r = blake2s (node_message l r)"
  "root_hash blake2s c h = blake2s (root_message c h)"
  by (simp_all add: leaf_hash_def node_hash_def root_hash_def domain_hash_def leaf_message_def node_message_def root_message_def)

lemma node_message_inject [simp]: "node_message l r = node_message l' r' \<longleftrightarrow> l = l' \<and> r = r'"
  by (simp add: node_message_def domain_preimage_inject DOMAIN_STATE_NODE_def)

lemma root_message_inject [simp]: "root_message c h = root_message c' h' \<longleftrightarrow> c = c' \<and> h = h'"
  by (simp add: root_message_def domain_preimage_inject DOMAIN_STATE_ROOT_def)

lemma leaf_message_inject:
  "entry_bounded e \<Longrightarrow> entry_bounded e' \<Longrightarrow> leaf_message (fst e) (snd e) = leaf_message (fst e') (snd e') \<longleftrightarrow> e = e'"
  using state_entry_bytes_inject [of e e'] by (auto simp: leaf_message_def domain_preimage_inject DOMAIN_STATE_LEAF_def)

fun pair_messages :: "state_node list \<Rightarrow> byte list list" where
  "pair_messages (l # r # ns) = node_message (nd_hash l) (nd_hash r) # pair_messages ns"
| "pair_messages [n] = []"
| "pair_messages [] = []"

function level_messages :: "(byte list \<Rightarrow> hash256) \<Rightarrow> state_node list \<Rightarrow> byte list list" where
  "level_messages blake2s ns =
     (if length ns > 1 then pair_messages ns @ level_messages blake2s (pair_nodes blake2s ns) else [])"
  by pat_completeness auto
termination
  by (relation "measure (\<lambda>(_, ns). length ns)") auto

declare level_messages.simps [simp del]

definition tree_messages :: "(byte list \<Rightarrow> hash256) \<Rightarrow> (state_key, byte list) btree \<Rightarrow> byte list list" where
  "tree_messages blake2s data = map (\<lambda>(k, v). leaf_message k v) data @ level_messages blake2s (leaf_nodes blake2s data)
     @ [root_message (of_nat (length data)) (case tree_from_map blake2s data of None \<Rightarrow> 0 | Some n \<Rightarrow> nd_hash n)]"

function loop_messages :: "(byte list \<Rightarrow> hash256) \<Rightarrow> nat \<Rightarrow> nat \<Rightarrow> hash256 \<Rightarrow> hash256 list \<Rightarrow> byte list list" where
  "loop_messages blake2s index width hash siblings =
     (if width > 1
      then
        if index mod 2 = 1
        then (case siblings of
                [] \<Rightarrow> []
              | l # siblings' \<Rightarrow> node_message l hash
                  # loop_messages blake2s (index div 2) ((width + 1) div 2) (node_hash blake2s l hash) siblings')
        else if index + 1 < width
        then (case siblings of
                [] \<Rightarrow> []
              | r # siblings' \<Rightarrow> node_message hash r
                  # loop_messages blake2s (index div 2) ((width + 1) div 2) (node_hash blake2s hash r) siblings')
        else loop_messages blake2s (index div 2) ((width + 1) div 2) hash siblings
      else [])"
  by pat_completeness auto
termination
  by (relation "measure (\<lambda>(_, _, w, _, _). w)") auto

declare loop_messages.simps [simp del]

definition proof_messages :: "(byte list \<Rightarrow> hash256) \<Rightarrow> state_proof \<Rightarrow> state_key \<Rightarrow> byte list \<Rightarrow> byte list list" where
  "proof_messages blake2s p k v =
     leaf_message k v # loop_messages blake2s (unat (sp_index p)) (unat (sp_leaf_count p)) (leaf_hash blake2s k v) (sp_siblings p)
     @ (case proof_loop blake2s (unat (sp_index p)) (unat (sp_leaf_count p)) (leaf_hash blake2s k v) (sp_siblings p) of
          None \<Rightarrow> [] | Some (h, _) \<Rightarrow> [root_message (sp_leaf_count p) h])"

lemma nth_pair_messages:
  "2 * j + 1 < length ns \<Longrightarrow> node_message (nd_hash (ns ! (2 * j))) (nd_hash (ns ! (2 * j + 1))) \<in> set (pair_messages ns)"
proof (induction ns arbitrary: j rule: pair_messages.induct)
  case (1 l r ns)
  then show ?case by (cases j) auto
qed auto

lemma proof_loop_binds:
  assumes "j < length ns" and "proof_loop blake2s j (length ns) h siblings = Some (nd_hash (hd (reduce_nodes blake2s ns)), extra)"
    and "inj_on blake2s (set (level_messages blake2s ns) \<union> set (loop_messages blake2s j (length ns) h siblings))"
  shows "nd_hash (ns ! j) = h"
  using assms
proof (induction blake2s ns j arbitrary: h siblings rule: level_siblings.induct)
  case (1 blake2s ns j)
  show ?case
  proof (cases "length ns > 1")
    case False
    with 1(2,3) show ?thesis by (cases ns) (simp_all add: proof_loop.simps reduce_nodes.simps)
  next
    case True
    have half: "j div 2 < length (pair_nodes blake2s ns)" using 1(2) by simp
    note unfolds = proof_loop.simps [of blake2s j "length ns"] reduce_nodes.simps [of blake2s ns]
      level_messages.simps [of blake2s ns] loop_messages.simps [of blake2s j "length ns"]
    note ih = 1(1) [OF True half, unfolded length_pair_nodes] and idx = 1(2) and run = 1(3) and noc = 1(4)
    consider "j mod 2 = 1" | "j mod 2 = 0" "j + 1 < length ns" | "j mod 2 = 0" "\<not> j + 1 < length ns" by linarith
    then show ?thesis
    proof cases
      case 1
      then have j: "2 * (j div 2) = j - 1" "2 * (j div 2) + 1 = j" by presburger+
      from 1 True run obtain l siblings' where sib: "siblings = l # siblings'"
        by (cases siblings) (simp_all add: unfolds)
      have inj: "inj_on blake2s (insert (node_message l h) (set (pair_messages ns) \<union> set (level_messages blake2s (pair_nodes blake2s ns))
          \<union> set (loop_messages blake2s (j div 2) ((length ns + 1) div 2) (node_hash blake2s l h) siblings')))"
        using noc 1 True by (simp add: unfolds sib Un_assoc)
      have "nd_hash (pair_nodes blake2s ns ! (j div 2)) = node_hash blake2s l h"
        using run 1 True by (intro ih [OF _ inj_on_subset [OF inj]]) (auto simp: unfolds sib)
      moreover have "nd_hash (pair_nodes blake2s ns ! (j div 2)) = node_hash blake2s (nd_hash (ns ! (j - 1))) (nd_hash (ns ! j))"
        using j idx by (simp add: nth_pair_nodes [OF half])
      moreover have "node_message (nd_hash (ns ! (j - 1))) (nd_hash (ns ! j)) \<in> set (pair_messages ns)"
        using nth_pair_messages [of "j div 2" ns] j idx by simp
      ultimately have "node_message (nd_hash (ns ! (j - 1))) (nd_hash (ns ! j)) = node_message l h"
        by (intro inj_onD [OF inj]) (auto simp: hash_messages)
      then show ?thesis by simp
    next
      case 2
      then have j: "2 * (j div 2) = j" by presburger
      from 2 True run obtain r siblings' where sib: "siblings = r # siblings'"
        by (cases siblings) (simp_all add: unfolds)
      have inj: "inj_on blake2s (insert (node_message h r) (set (pair_messages ns) \<union> set (level_messages blake2s (pair_nodes blake2s ns))
          \<union> set (loop_messages blake2s (j div 2) ((length ns + 1) div 2) (node_hash blake2s h r) siblings')))"
        using noc 2 True by (simp add: unfolds sib Un_assoc)
      have "nd_hash (pair_nodes blake2s ns ! (j div 2)) = node_hash blake2s h r"
        using run 2 True by (intro ih [OF _ inj_on_subset [OF inj]]) (auto simp: unfolds sib)
      moreover have "nd_hash (pair_nodes blake2s ns ! (j div 2)) = node_hash blake2s (nd_hash (ns ! j)) (nd_hash (ns ! (j + 1)))"
        using 2 j by (simp add: nth_pair_nodes [OF half])
      moreover have "node_message (nd_hash (ns ! j)) (nd_hash (ns ! (j + 1))) \<in> set (pair_messages ns)"
        using nth_pair_messages [of "j div 2" ns] j 2 by simp
      ultimately have "node_message (nd_hash (ns ! j)) (nd_hash (ns ! (j + 1))) = node_message h r"
        by (intro inj_onD [OF inj]) (auto simp: hash_messages)
      then show ?thesis by simp
    next
      case 3
      then have j: "2 * (j div 2) = j" by presburger
      have "nd_hash (pair_nodes blake2s ns ! (j div 2)) = h"
        using run 3 True
        by (intro ih [OF _ inj_on_subset [OF noc]]) (auto simp: unfolds)
      then show ?thesis using 3 j by (simp add: nth_pair_nodes [OF half])
    qed
  qed
qed

text \<open>A proof that verifies under the root of a map names the entry at its index.\<close>

lemma state_proof_sound:
  assumes "map_bounded data" and "state_proof_verify blake2s p (tree_hash blake2s (tree_from_map blake2s data)) k v"
    and "inj_on blake2s (set (tree_messages blake2s data) \<union> set (proof_messages blake2s p k v))"
  shows "unat (sp_leaf_count p) = length data \<and> unat (sp_index p) < length data \<and> data ! unat (sp_index p) = (k, v)"
proof -
  let ?t = "tree_from_map blake2s data" and ?ns = "leaf_nodes blake2s data" and ?j = "unat (sp_index p)"
  define tp where "tp = (case ?t of None \<Rightarrow> 0 | Some n \<Rightarrow> nd_hash n)"
  have root: "tree_hash blake2s ?t = blake2s (root_message (of_nat (length data)) tp)"
    by (simp add: tree_hash_def hash_messages tp_def)
  obtain h where run: "proof_loop blake2s ?j (unat (sp_leaf_count p)) (leaf_hash blake2s k v) (sp_siblings p) = Some (h, [])"
    and eq: "blake2s (root_message (sp_leaf_count p) h) = tree_hash blake2s ?t"
    using assms(2) by (auto simp: state_proof_verify_def hash_messages split: option.splits prod.splits)
  have bounds: "sp_index p < sp_leaf_count p" "entry_bounded (k, v)"
    using assms(2) by (auto simp: state_proof_verify_def entry_bounded_def)
  have "root_message (sp_leaf_count p) h = root_message (of_nat (length data)) tp"
    using eq unfolding root
    by (rule inj_onD [OF assms(3)]) (simp_all add: proof_messages_def run tree_messages_def tp_def)
  then have cnt: "sp_leaf_count p = of_nat (length data)" and top: "h = tp" by simp_all
  have len: "unat (sp_leaf_count p) = length data" using map_boundedD(2) [OF assms(1)] by (simp add: cnt of_nat_u64_small)
  have j: "?j < length data" using bounds(1) by (simp add: word_less_nat_alt len)
  then obtain n where n: "?t = Some n" "reduce_nodes blake2s ?ns = [n]"
    by (cases rule: tree_from_map_cases [of data blake2s]) auto
  have "nd_hash (?ns ! ?j) = leaf_hash blake2s k v"
  proof (rule proof_loop_binds [of _ _ blake2s _ "sp_siblings p" "[]"])
    show "?j < length ?ns" using j by simp
    show "proof_loop blake2s ?j (length ?ns) (leaf_hash blake2s k v) (sp_siblings p) = Some (nd_hash (hd (reduce_nodes blake2s ?ns)), [])"
      using run top by (simp add: len n tp_def)
    show "inj_on blake2s (set (level_messages blake2s ?ns) \<union> set (loop_messages blake2s ?j (length ?ns) (leaf_hash blake2s k v) (sp_siblings p)))"
      by (rule inj_on_subset [OF assms(3)]) (auto simp: tree_messages_def proof_messages_def len)
  qed
  then have "blake2s (leaf_message (fst (data ! ?j)) (snd (data ! ?j))) = blake2s (leaf_message k v)"
    using j by (simp add: hash_messages split_beta)
  then have "leaf_message (fst (data ! ?j)) (snd (data ! ?j)) = leaf_message (fst (k, v)) (snd (k, v))"
    using j by (intro inj_onD [OF assms(3)]) (force simp: tree_messages_def proof_messages_def split_beta)+
  then have "data ! ?j = (k, v)"
    using leaf_message_inject [OF map_boundedD(4) [OF assms(1) nth_mem [OF j]] bounds(2)] by simp
  with len j show ?thesis by simp
qed

definition absence_messages :: "(byte list \<Rightarrow> hash256) \<Rightarrow> state_absence_proof \<Rightarrow> byte list list" where
  "absence_messages blake2s p = root_message 0 0
     # (case sa_lower p of None \<Rightarrow> [] | Some w \<Rightarrow> proof_messages blake2s (sw_proof w) (sw_key w) (sw_value w))
     @ (case sa_upper p of None \<Rightarrow> [] | Some w \<Rightarrow> proof_messages blake2s (sw_proof w) (sw_key w) (sw_value w))"

lemma absence_sound:
  assumes "map_bounded data" and "absence_verify blake2s p (tree_hash blake2s (tree_from_map blake2s data)) key"
    and "inj_on blake2s (set (tree_messages blake2s data) \<union> set (absence_messages blake2s p))"
  shows "bt_get data key = None"
proof -
  let ?root = "tree_hash blake2s (tree_from_map blake2s data)"
  have nth: "\<And>i j. i < j \<Longrightarrow> j < length data \<Longrightarrow> fst (data ! i) < fst (data ! j)"
    using map_boundedD(1) [OF assms(1)] by (simp add: sorted_wrt_iff_nth_less)
  have lower: "sw_key l < key \<and> unat (sp_leaf_count (sw_proof l)) = length data \<and> unat (sp_index (sw_proof l)) < length data
      \<and> data ! unat (sp_index (sw_proof l)) = (sw_key l, sw_value l)" if "sa_lower p = Some l" for l
    using assms(2) that
      state_proof_sound [OF assms(1), of blake2s "sw_proof l" "sw_key l" "sw_value l", OF _ inj_on_subset [OF assms(3)]]
    by (auto simp: absence_verify_def absence_messages_def)
  have upper: "key < sw_key u \<and> unat (sp_leaf_count (sw_proof u)) = length data \<and> unat (sp_index (sw_proof u)) < length data
      \<and> data ! unat (sp_index (sw_proof u)) = (sw_key u, sw_value u)" if "sa_upper p = Some u" for u
    using assms(2) that
      state_proof_sound [OF assms(1), of blake2s "sw_proof u" "sw_key u" "sw_value u", OF _ inj_on_subset [OF assms(3)]]
    by (auto simp: absence_verify_def absence_messages_def)
  have succ: "unat (w + 1) = unat w + 1" if "unat w < length data" for w :: u64
    using that map_boundedD(2) [OF assms(1)] by (simp add: MAX_STATE_ENTRIES_def unat_word_ariths)
  have "fst (data ! i) \<noteq> key" if i: "i < length data" for i
  proof (cases "sa_lower p"; cases "sa_upper p")
    assume none: "sa_lower p = None" "sa_upper p = None"
    then have "?root = blake2s (root_message 0 0)"
      using assms(2) by (simp add: absence_verify_def empty_root_def hash_messages)
    moreover have "?root = blake2s (root_message (of_nat (length data)) (case tree_from_map blake2s data of None \<Rightarrow> 0 | Some n \<Rightarrow> nd_hash n))"
      by (simp add: tree_hash_def hash_messages)
    ultimately have "root_message 0 0 = root_message (of_nat (length data)) (case tree_from_map blake2s data of None \<Rightarrow> 0 | Some n \<Rightarrow> nd_hash n)"
      by (intro inj_onD [OF assms(3)]) (simp_all add: tree_messages_def absence_messages_def)
    then have "unat (of_nat (length data) :: u64) = 0" by simp
    with i show ?thesis using map_boundedD(2) [OF assms(1)] by (simp add: of_nat_u64_small)
  next
    fix u assume u: "sa_lower p = None" "sa_upper p = Some u"
    then have "key < fst (data ! 0)" using assms(2) upper [OF u(2)] by (simp add: absence_verify_def)
    with i nth [of 0 i] show ?thesis by (cases i) auto
  next
    fix l assume l: "sa_lower p = Some l" "sa_upper p = None"
    then have "sp_index (sw_proof l) + 1 = sp_leaf_count (sw_proof l)" using assms(2) by (simp add: absence_verify_def)
    then have ix: "unat (sp_index (sw_proof l)) = length data - 1" using lower [OF l(1)] succ [of "sp_index (sw_proof l)"] by simp
    then have "fst (data ! (length data - 1)) < key" using lower [OF l(1)] by simp
    moreover have "i = length data - 1 \<or> i < length data - 1 \<and> length data - 1 < length data" using i by linarith
    ultimately show ?thesis using nth [of i "length data - 1"] by (metis less_asym less_irrefl)
  next
    fix l u assume lu: "sa_lower p = Some l" "sa_upper p = Some u"
    then have "sp_index (sw_proof l) + 1 = sp_index (sw_proof u)" using assms(2) by (simp add: absence_verify_def)
    then have ix: "unat (sp_index (sw_proof u)) = unat (sp_index (sw_proof l)) + 1"
      using lower [OF lu(1)] succ [of "sp_index (sw_proof l)"] by simp
    let ?j = "unat (sp_index (sw_proof l))"
    have "fst (data ! ?j) < key" "key < fst (data ! (?j + 1))" "?j + 1 < length data"
      using lower [OF lu(1)] upper [OF lu(2)] ix by simp_all
    moreover have "i \<le> ?j \<or> ?j + 1 \<le> i" by linarith
    ultimately show ?thesis using i nth [of i ?j] nth [of "?j + 1" i] by (cases "i = ?j"; cases "i = ?j + 1") force+
  qed
  then have "key \<notin> fst ` set data" by (metis imageE in_set_conv_nth)
  then show ?thesis by (simp add: bt_get_map_of map_of_eq_None_iff)
qed

end
