(* ===== verification/Astro_State.thy ===== *)
theory Astro_State
  imports Astro_State_Proof
begin

text \<open>
  State transitions of the crate \<open>state\<close>: diffs (diff.rs), the reference staging and the
  snapshot codec (snapshot.rs), the sharing update of the tree (\<open>Tree::prepare\<close>), and the
  in-memory state built on them (memory.rs).
\<close>

section \<open>Diffs (diff.rs)\<close>

datatype state_change = Put state_key "byte list" | Delete state_key

fun change_key :: "state_change \<Rightarrow> state_key" where
  "change_key (Put key _) = key"
| "change_key (Delete key) = key"

record state_diff =
  sd_changes :: "state_change list"

definition diff_new :: state_diff where
  "diff_new = \<lparr>sd_changes = []\<rparr>"

definition diff_put :: "state_key \<Rightarrow> byte list \<Rightarrow> state_diff \<Rightarrow> state_diff" where
  "diff_put key val d = d\<lparr>sd_changes := sd_changes d @ [Put key val]\<rparr>"

definition diff_delete :: "state_key \<Rightarrow> state_diff \<Rightarrow> state_diff" where
  "diff_delete key d = d\<lparr>sd_changes := sd_changes d @ [Delete key]\<rparr>"

definition sort_canonical :: "state_diff \<Rightarrow> state_diff" where
  "sort_canonical d = d\<lparr>sd_changes := sort_key change_key (sd_changes d)\<rparr>"

fun apply_change :: "state_change \<Rightarrow> (state_key, byte list) btree \<Rightarrow> (state_key, byte list) btree" where
  "apply_change (Put key val) m = bt_insert key val m"
| "apply_change (Delete key) m = bt_remove key m"

definition apply_to :: "state_diff \<Rightarrow> (state_key, byte list) btree \<Rightarrow> (state_key, byte list) btree" where
  "apply_to d m = fold apply_change (sd_changes d) m"

definition diff_merge :: "state_diff \<Rightarrow> state_diff \<Rightarrow> state_diff" where
  "diff_merge d other = d\<lparr>sd_changes := sd_changes d @ sd_changes other\<rparr>"

text \<open>Encoding a length above the codec's limit panics, which is the value \<open>None\<close>.\<close>

fun encode_change :: "state_change \<Rightarrow> byte list option" where
  "encode_change (Put key val) =
     (case (encode_state_key key, encode_bytes val) of (Some k, Some v) \<Rightarrow> Some (1 # k @ v) | _ \<Rightarrow> None)"
| "encode_change (Delete key) = (case encode_state_key key of Some k \<Rightarrow> Some (2 # k) | None \<Rightarrow> None)"

fun encode_changes :: "state_change list \<Rightarrow> byte list option" where
  "encode_changes [] = Some []"
| "encode_changes (c # cs) = (case (encode_change c, encode_changes cs) of (Some b, Some bs) \<Rightarrow> Some (b @ bs) | _ \<Rightarrow> None)"

definition encode_diff :: "state_diff \<Rightarrow> byte list option" where
  "encode_diff d = (case (encode_length (length (sd_changes d)), encode_changes (sd_changes d)) of
     (Some n, Some bs) \<Rightarrow> Some (n @ bs) | _ \<Rightarrow> None)"

definition diff_commitment :: "(byte list \<Rightarrow> hash256) \<Rightarrow> state_diff \<Rightarrow> hash256 option" where
  "diff_commitment blake2s d = map_option (domain_hash blake2s DOMAIN_STATE_DIFF) (encode_diff d)"

section \<open>Staging (snapshot.rs)\<close>

fun encoded_size_from :: "nat \<Rightarrow> (state_key \<times> byte list) list \<Rightarrow> state_error + nat" where
  "encoded_size_from sz [] = Ok sz"
| "encoded_size_from sz ((key, val) # es) =
     try_bind (ok_or LimitExceeded (checked_add_usize sz (entry_size key val))) (\<lambda>sz. encoded_size_from sz es)"

definition encoded_size :: "(state_key, byte list) btree \<Rightarrow> state_error + nat" where
  "encoded_size data = encoded_size_from SNAPSHOT_HEADER_BYTES data"

fun stage_changes ::
  "nat \<Rightarrow> (state_key, byte list) btree \<Rightarrow> state_change list \<Rightarrow> state_error + (state_key, byte list) btree" where
  "stage_changes sz m [] = Ok m"
| "stage_changes sz m (Put key val # cs) =
     (if length key > MAX_STATE_KEY_BYTES then Err LimitExceeded
      else if length val > MAX_STATE_VALUE_BYTES then Err LimitExceeded
      else
        let sz = (case bt_get m key of None \<Rightarrow> sz | Some old \<Rightarrow> sz - entry_size key old) in
        case checked_add_usize sz (entry_size key val) of
          None \<Rightarrow> Err LimitExceeded
        | Some sz \<Rightarrow>
            if sz > MAX_SNAPSHOT_BYTES \<or> \<not> bt_contains m key \<and> length m = MAX_STATE_ENTRIES
            then Err LimitExceeded
            else stage_changes sz (bt_insert key val m) cs)"
| "stage_changes sz m (Delete key # cs) =
     (if length key > MAX_STATE_KEY_BYTES then Err LimitExceeded
      else
        let sz = (case bt_get m key of None \<Rightarrow> sz | Some old \<Rightarrow> sz - entry_size key old) in
        stage_changes sz (bt_remove key m) cs)"

abbreviation all_changes :: "state_diff list \<Rightarrow> state_change list" where
  "all_changes diffs \<equiv> concat (map sd_changes diffs)"

definition stage :: "(state_key, byte list) btree \<Rightarrow> state_diff list \<Rightarrow> state_error + (state_key, byte list) btree" where
  "stage m diffs = try_bind (encoded_size m) (\<lambda>sz. stage_changes sz m (all_changes diffs))"

section \<open>The sharing update (tree.rs)\<close>

fun prepare_writes ::
  "tree \<Rightarrow> nat \<Rightarrow> (state_key, byte list) btree \<Rightarrow> state_change list \<Rightarrow> state_error + (state_key, byte list) btree option" where
  "prepare_writes t sz writes [] = Ok (Some writes)"
| "prepare_writes t sz writes (Put key val # cs) =
     (if length key > MAX_STATE_KEY_BYTES then Err LimitExceeded
      else if length val > MAX_STATE_VALUE_BYTES then Err LimitExceeded
      else case tree_get t key of
        None \<Rightarrow> Ok None
      | Some original \<Rightarrow>
          let old = (case bt_get writes key of None \<Rightarrow> original | Some w \<Rightarrow> w) in
          case checked_add_usize (sz - length old) (length val) of
            None \<Rightarrow> Err LimitExceeded
          | Some sz \<Rightarrow>
              if sz \<le> MAX_SNAPSHOT_BYTES then prepare_writes t sz (bt_insert key val writes) cs
              else Err LimitExceeded)"
| "prepare_writes t sz writes (Delete key # cs) =
     (if length key > MAX_STATE_KEY_BYTES then Err LimitExceeded
      else if tree_get t key \<noteq> None then Ok None
      else prepare_writes t sz writes cs)"

definition tree_bytes :: "tree \<Rightarrow> nat" where
  "tree_bytes t = SNAPSHOT_HEADER_BYTES + (case t of None \<Rightarrow> 0 | Some n \<Rightarrow> nd_bytes n)"

definition tree_prepare :: "(byte list \<Rightarrow> hash256) \<Rightarrow> tree \<Rightarrow> state_diff list \<Rightarrow> state_error + tree option" where
  "tree_prepare blake2s t diffs =
     try_bind (prepare_writes t (tree_bytes t) [] (all_changes diffs)) (\<lambda>prepared.
       case prepared of
         None \<Rightarrow> Ok None
       | Some writes \<Rightarrow> Ok (Some (map_option (\<lambda>n. node_or n (node_replace blake2s n writes)) t)))"

section \<open>The in-memory state (memory.rs)\<close>

record in_memory_state =
  ms_data :: tree
  ms_root :: hash256

definition state_new :: "(byte list \<Rightarrow> hash256) \<Rightarrow> in_memory_state" where
  "state_new blake2s = \<lparr>ms_data = None, ms_root = empty_root blake2s\<rparr>"

text \<open>The end of \<open>prepare_sealed\<close>: the prepared tree, or the rebuilt one.\<close>

definition finish_prepare ::
  "(byte list \<Rightarrow> hash256) \<Rightarrow> in_memory_state \<Rightarrow> state_diff list \<Rightarrow> tree option \<Rightarrow> state_error + in_memory_state" where
  "finish_prepare blake2s s diffs prepared =
     try_bind (case prepared of
         Some t \<Rightarrow> Ok t
       | None \<Rightarrow> try_bind (stage (tree_to_map (ms_data s)) diffs) (\<lambda>m. Ok (tree_from_map blake2s m)))
       (\<lambda>t. Ok \<lparr>ms_data = t, ms_root = tree_hash blake2s t\<rparr>)"

definition state_prepare ::
  "(byte list \<Rightarrow> hash256) \<Rightarrow> in_memory_state \<Rightarrow> hash256 \<Rightarrow> state_diff list \<Rightarrow> state_error + in_memory_state" where
  "state_prepare blake2s s parent diffs =
     (if parent \<noteq> ms_root s then Err StaleSnapshot
      else try_bind (tree_prepare blake2s (ms_data s) diffs) (finish_prepare blake2s s diffs))"

definition state_commit ::
  "(byte list \<Rightarrow> hash256) \<Rightarrow> in_memory_state \<Rightarrow> hash256 \<Rightarrow> state_diff list \<Rightarrow> (state_error + hash256) \<times> in_memory_state" where
  "state_commit blake2s s parent diffs =
     (case state_prepare blake2s s parent diffs of Inl e \<Rightarrow> (Err e, s) | Inr s' \<Rightarrow> (Ok (ms_root s'), s'))"

definition state_commit_verified ::
  "(byte list \<Rightarrow> hash256) \<Rightarrow> in_memory_state \<Rightarrow> hash256 \<Rightarrow> state_diff list \<Rightarrow> hash256
   \<Rightarrow> (state_error + hash256) \<times> in_memory_state" where
  "state_commit_verified blake2s s parent diffs expected =
     (case state_prepare blake2s s parent diffs of
        Inl e \<Rightarrow> (Err e, s)
      | Inr s' \<Rightarrow> if ms_root s' \<noteq> expected then (Err RootMismatch, s) else (Ok (ms_root s'), s'))"

section \<open>Snapshots (snapshot.rs)\<close>

definition SNAPSHOT_MAGIC :: "byte list" where "SNAPSHOT_MAGIC = ascii ''ASTSTATE''"
definition SNAPSHOT_VERSION :: u16 where "SNAPSHOT_VERSION = 1"

definition snapshot_encode :: "nat \<Rightarrow> (state_key \<times> byte list) list \<Rightarrow> hash256 \<Rightarrow> byte list" where
  "snapshot_encode cnt es root = SNAPSHOT_MAGIC @ le_bytes SNAPSHOT_VERSION @ le_bytes (of_nat cnt :: u64) @ be_bytes root
     @ concat (map (\<lambda>(key, val). state_entry_bytes key val) es)"

text \<open>Decoding errors become \<open>Corrupt\<close>.\<close>

abbreviation corrupt :: "decode_error + 'a \<Rightarrow> state_error + 'a" where
  "corrupt \<equiv> map_err (\<lambda>_. Corrupt)"

definition bounded_length :: "nat \<Rightarrow> decoder \<Rightarrow> state_error + nat \<times> decoder" where
  "bounded_length mx d =
     try_bind (corrupt (read_u64 d)) (\<lambda>(n, d). if unat n > mx then Err LimitExceeded else Ok (unat n, d))"

definition state_read_bytes :: "nat \<Rightarrow> decoder \<Rightarrow> state_error + byte list \<times> decoder" where
  "state_read_bytes mx d = try_bind (bounded_length mx d) (\<lambda>(n, d). corrupt (read_exact n d))"

fun check_state_entries :: "nat \<Rightarrow> byte list option \<Rightarrow> decoder \<Rightarrow> state_error + decoder" where
  "check_state_entries 0 previous d = Ok d"
| "check_state_entries (Suc n) previous d =
     try_bind (state_read_bytes MAX_STATE_KEY_BYTES d) (\<lambda>(key, d).
       if (case previous of None \<Rightarrow> False | Some p \<Rightarrow> p \<ge> key) then Err Corrupt
       else try_bind (state_read_bytes MAX_STATE_VALUE_BYTES d) (\<lambda>(_, d). check_state_entries n (Some key) d))"

fun read_state_entries :: "nat \<Rightarrow> (state_key, byte list) btree \<Rightarrow> decoder \<Rightarrow> state_error + (state_key, byte list) btree" where
  "read_state_entries 0 data d = Ok data"
| "read_state_entries (Suc n) data d =
     try_bind (state_read_bytes MAX_STATE_KEY_BYTES d) (\<lambda>(key, d).
     try_bind (state_read_bytes MAX_STATE_VALUE_BYTES d) (\<lambda>(val, d). read_state_entries n (bt_insert key val data) d))"

definition snapshot_decode :: "(byte list \<Rightarrow> hash256) \<Rightarrow> byte list \<Rightarrow> state_error + tree \<times> hash256" where
  "snapshot_decode blake2s bytes =
     (if length bytes > MAX_SNAPSHOT_BYTES then Err LimitExceeded
      else
        try_bind (corrupt (read_exact 8 (decoder_new bytes))) (\<lambda>(magic, d).
        if magic \<noteq> SNAPSHOT_MAGIC then Err Corrupt
        else
        try_bind (corrupt (read_u16 d)) (\<lambda>(version, d).
        if version \<noteq> SNAPSHOT_VERSION then Err Corrupt
        else
        try_bind (bounded_length MAX_STATE_ENTRIES d) (\<lambda>(cnt, d).
        try_bind (corrupt (read_fixed d)) (\<lambda>(root, entries).
        try_bind (check_state_entries cnt None entries) (\<lambda>d.
        try_bind (corrupt (finish d)) (\<lambda>_.
        try_bind (read_state_entries cnt [] entries) (\<lambda>data.
        let t = tree_from_map blake2s data in
        if tree_hash blake2s t \<noteq> root then Err RootMismatch else Ok (t, root)))))))))"

definition export_snapshot :: "in_memory_state \<Rightarrow> byte list" where
  "export_snapshot s = snapshot_encode (tree_len (ms_data s)) (tree_entries (ms_data s)) (ms_root s)"

definition decode_snapshot :: "(byte list \<Rightarrow> hash256) \<Rightarrow> byte list \<Rightarrow> state_error + in_memory_state" where
  "decode_snapshot blake2s bytes =
     try_bind (snapshot_decode blake2s bytes) (\<lambda>(t, root). Ok \<lparr>ms_data = t, ms_root = root\<rparr>)"

definition from_snapshot :: "(byte list \<Rightarrow> hash256) \<Rightarrow> byte list \<Rightarrow> hash256 \<Rightarrow> state_error + in_memory_state" where
  "from_snapshot blake2s bytes expected =
     try_bind (decode_snapshot blake2s bytes) (\<lambda>s. if ms_root s \<noteq> expected then Err RootMismatch else Ok s)"

section \<open>The states of the database\<close>

text \<open>The canonical state of a map, and the states the operations produce.\<close>

definition state_of :: "(byte list \<Rightarrow> hash256) \<Rightarrow> (state_key, byte list) btree \<Rightarrow> in_memory_state" where
  "state_of blake2s data = \<lparr>ms_data = tree_from_map blake2s data, ms_root = tree_hash blake2s (tree_from_map blake2s data)\<rparr>"

definition state_map :: "in_memory_state \<Rightarrow> (state_key, byte list) btree" where
  "state_map s = tree_entries (ms_data s)"

definition state_ok :: "(byte list \<Rightarrow> hash256) \<Rightarrow> in_memory_state \<Rightarrow> bool" where
  "state_ok blake2s s \<longleftrightarrow> map_bounded (state_map s) \<and> s = state_of blake2s (state_map s)"

lemma state_map_of [simp]: "state_map (state_of blake2s data) = data"
  by (simp add: state_map_def state_of_def)

lemma state_of_simps [simp]:
  "ms_data (state_of blake2s data) = tree_from_map blake2s data"
  "ms_root (state_of blake2s data) = tree_hash blake2s (tree_from_map blake2s data)"
  by (simp_all add: state_of_def)

lemma state_ok_of: "map_bounded data \<Longrightarrow> state_ok blake2s (state_of blake2s data)"
  by (simp add: state_ok_def)

lemma state_new_of: "state_new blake2s = state_of blake2s []"
  by (simp add: state_new_def state_of_def tree_hash_def tree_len_def empty_root_def)

lemma map_bounded_Nil [simp]: "map_bounded []"
  by (simp add: map_bounded_def map_size_def SNAPSHOT_HEADER_BYTES_def MAX_SNAPSHOT_BYTES_def)

section \<open>Staging applies the changes within the bounds\<close>

lemma sum_bt_insert:
  fixes f :: "'k::linorder \<times> 'v \<Rightarrow> nat"
  assumes "bt_ok m"
  shows "sum_list (map f (bt_insert k v m)) + (case bt_get m k of None \<Rightarrow> 0 | Some w \<Rightarrow> f (k, w)) = sum_list (map f m) + f (k, v)"
  using assms
proof (induction m)
  case (Cons e m)
  have "bt_get m k = None" if "k < fst e"
    using Cons.prems that by (force simp: bt_get_map_of map_of_eq_None_iff)
  with Cons show ?case by (cases e) (auto split: option.splits)
qed simp

lemma sum_bt_remove:
  fixes f :: "'k::linorder \<times> 'v \<Rightarrow> nat"
  assumes "bt_ok m"
  shows "sum_list (map f (bt_remove k m)) + (case bt_get m k of None \<Rightarrow> 0 | Some w \<Rightarrow> f (k, w)) = sum_list (map f m)"
  using assms by (induction m) (auto split: option.splits)

lemma length_bt_insert: "bt_ok m \<Longrightarrow> length (bt_insert k v m) = (if bt_get m k = None then Suc (length m) else length m)"
  using sum_bt_insert [of m "\<lambda>_. 1" k v] by (auto simp: sum_list_triv split: option.splits)

lemma length_bt_remove: "bt_ok m \<Longrightarrow> length (bt_remove k m) \<le> length m"
  using sum_bt_remove [of m "\<lambda>_. 1" k] by (auto simp: sum_list_triv split: option.splits)

lemma map_size_insert:
  "bt_ok m \<Longrightarrow> map_size (bt_insert k v m) + (case bt_get m k of None \<Rightarrow> 0 | Some w \<Rightarrow> entry_size k w) = map_size m + entry_size k v"
  using sum_bt_insert [of m "\<lambda>(k, v). entry_size k v" k v] by (simp add: map_size_def split: option.splits)

lemma map_size_remove:
  "bt_ok m \<Longrightarrow> map_size (bt_remove k m) + (case bt_get m k of None \<Rightarrow> 0 | Some w \<Rightarrow> entry_size k w) = map_size m"
  using sum_bt_remove [of m "\<lambda>(k, v). entry_size k v" k] by (simp add: map_size_def split: option.splits)

lemma entry_size_le_map: "bt_get m k = Some v \<Longrightarrow> entry_size k v \<le> map_size m"
  using member_le_sum_list [of "entry_size k v" "map (\<lambda>(k, v). entry_size k v) m"] bt_get_Some_mem [of m k v]
  by (force simp: map_size_def)

lemma small_usize: "MAX_SNAPSHOT_BYTES < usize_limit" "MAX_STATE_ENTRIES < usize_limit"
  by (simp_all add: MAX_SNAPSHOT_BYTES_def MAX_STATE_ENTRIES_def usize_limit_def)

lemma encoded_size_from_ok:
  "sz + (\<Sum>(k, v) \<leftarrow> es. entry_size k v) < usize_limit \<Longrightarrow> encoded_size_from sz es = Ok (sz + (\<Sum>(k, v) \<leftarrow> es. entry_size k v))"
  by (induction sz es rule: encoded_size_from.induct) (auto simp: checked_add_usize_def add.assoc)

lemma encoded_size_ok: "map_bounded m \<Longrightarrow> encoded_size m = Ok (map_size m)"
  using encoded_size_from_ok [of SNAPSHOT_HEADER_BYTES m] small_usize(1) map_boundedD(3) [of m]
  by (simp add: encoded_size_def map_size_def)

text \<open>Every change is bounded and leaves a bounded map.\<close>

fun changes_fit :: "(state_key, byte list) btree \<Rightarrow> state_change list \<Rightarrow> bool" where
  "changes_fit m [] \<longleftrightarrow> True"
| "changes_fit m (c # cs) \<longleftrightarrow> length (change_key c) \<le> MAX_STATE_KEY_BYTES \<and> map_bounded (apply_change c m)
     \<and> changes_fit (apply_change c m) cs"

lemma map_bounded_insert:
  assumes "map_bounded m"
  shows "map_bounded (bt_insert k v m) \<longleftrightarrow> entry_bounded (k, v) \<and> \<not> (bt_get m k = None \<and> length m = MAX_STATE_ENTRIES)
    \<and> map_size (bt_insert k v m) \<le> MAX_SNAPSHOT_BYTES"
proof -
  note m = map_boundedD [OF assms]
  have "list_all entry_bounded (bt_insert k v m) \<longleftrightarrow> entry_bounded (k, v)"
    using m(4) by (auto simp: list_all_iff set_bt_insert [OF m(1)])
  then show ?thesis
    using m(1,2) by (auto simp: map_bounded_def length_bt_insert)
qed

lemma map_bounded_remove:
  assumes "map_bounded m"
  shows "map_bounded (bt_remove k m)"
  using map_boundedD [OF assms] map_size_remove [of m k] length_bt_remove [of m k]
  by (auto simp: map_bounded_def list_all_iff set_bt_remove)

lemma stage_changes_iff:
  assumes "map_bounded m"
  shows "stage_changes (map_size m) m cs = (if changes_fit m cs then Ok (fold apply_change cs m) else Err LimitExceeded)"
  using assms
proof (induction cs arbitrary: m)
  case (Cons c cs)
  note m = map_boundedD [OF Cons.prems]
  show ?case
  proof (cases c)
    case (Put k v)
    define sz where "sz = (case bt_get m k of None \<Rightarrow> map_size m | Some w \<Rightarrow> map_size m - entry_size k w)"
    have sz: "sz + entry_size k v = map_size (bt_insert k v m)"
      using map_size_insert [OF m(1), of k v] entry_size_le_map [of m k] by (auto simp: sz_def split: option.splits)
    have contains: "bt_contains m k \<longleftrightarrow> bt_get m k \<noteq> None" by (simp add: bt_contains_def bt_get_None_iff bt_contains_iff)
    show ?thesis
      using Cons.IH [of "bt_insert k v m"] small_usize(1)
      by (simp add: Put Let_def sz_def [symmetric] checked_add_usize_def sz map_bounded_insert [OF Cons.prems] entry_bounded_def contains)
  next
    case (Delete k)
    have "(case bt_get m k of None \<Rightarrow> map_size m | Some w \<Rightarrow> map_size m - entry_size k w) = map_size (bt_remove k m)"
      using map_size_remove [OF m(1), of k] by (auto split: option.splits)
    then show ?thesis
      using Cons.IH [of "bt_remove k m"] map_bounded_remove [OF Cons.prems, of k] by (simp add: Delete Let_def)
  qed
qed simp

lemma stage_iff:
  assumes "map_bounded m"
  shows "stage m diffs = (if changes_fit m (all_changes diffs) then Ok (fold apply_change (all_changes diffs) m) else Err LimitExceeded)"
  by (simp only: stage_def encoded_size_ok [OF assms] try_bind.simps stage_changes_iff [OF assms])

lemma changes_fit_bounded: "map_bounded m \<Longrightarrow> changes_fit m cs \<Longrightarrow> map_bounded (fold apply_change cs m)"
  by (induction cs arbitrary: m) auto

lemma all_changes_apply_to: "fold apply_change (all_changes diffs) m = fold apply_to diffs m"
  by (induction diffs arbitrary: m) (simp_all add: apply_to_def)

section \<open>The sharing update is the reference update\<close>

definition updated :: "(state_key, byte list) btree \<Rightarrow> (state_key, byte list) btree \<Rightarrow> (state_key, byte list) btree" where
  "updated writes data = map (\<lambda>(k, v). (k, overwrite writes k v)) data"

lemma updated_keys [simp]: "map fst (updated writes data) = map fst data" "fst ` set (updated writes data) = fst ` set data"
  by (simp_all add: updated_def comp_def case_prod_unfold image_image)

lemma bt_get_updated: "bt_get (updated writes data) k = map_option (overwrite writes k) (bt_get data k)"
  by (induction data) (auto simp: updated_def)

lemma updated_insert:
  assumes "bt_ok data" and "bt_get data k \<noteq> None"
  shows "updated (bt_insert k v writes) data = bt_insert k v (updated writes data)"
proof (rule bt_ext)
  show "bt_get (updated (bt_insert k v writes) data) = bt_get (bt_insert k v (updated writes data))"
    using assms(2)
    by (auto simp: fun_eq_iff bt_get_updated overwrite_def intro!: option.map_cong split: option.splits)
qed (simp_all add: assms(1))

lemma updated_Nil [simp]: "updated [] data = data"
  by (simp add: updated_def overwrite_def)

lemma prepare_writes_stage:
  assumes "bt_ok data" and "bt_ok writes" and "fst ` set writes \<subseteq> fst ` set data" and "map_bounded (updated writes data)"
  shows "case prepare_writes (tree_from_map blake2s data) (map_size (updated writes data)) writes cs of
      Inl e \<Rightarrow> stage_changes (map_size (updated writes data)) (updated writes data) cs = Err e
    | Inr None \<Rightarrow> True
    | Inr (Some w) \<Rightarrow> bt_ok w \<and> fst ` set w \<subseteq> fst ` set data
        \<and> stage_changes (map_size (updated writes data)) (updated writes data) cs = Ok (updated w data)"
  using assms(2-4)
proof (induction cs arbitrary: writes)
  case (Cons c cs)
  let ?cur = "updated writes data"
  note cur = map_boundedD [OF Cons.prems(3)]
  show ?case
  proof (cases c)
    case (Put k v)
    show ?thesis
    proof (cases "bt_get data k")
      case None
      then show ?thesis by (simp add: Put assms(1))
    next
      case (Some w)
      define old where "old = overwrite writes k w"
      have old: "(case bt_get writes k of None \<Rightarrow> w | Some u \<Rightarrow> u) = old" by (simp add: old_def overwrite_def)
      have get: "bt_get ?cur k = Some old" by (simp add: bt_get_updated Some old_def)
      then have present: "bt_contains ?cur k" by (simp add: bt_contains_def)
      have ins: "updated (bt_insert k v writes) data = bt_insert k v ?cur" using updated_insert assms(1) Some by simp
      have sz: "map_size ?cur - entry_size k old + entry_size k v = map_size (bt_insert k v ?cur)"
          "map_size ?cur - length old + length v = map_size (bt_insert k v ?cur)"
        using map_size_insert [OF cur(1), of k v] entry_size_le_map [OF get] get by (simp_all add: entry_size_def)
      have "k \<in> fst ` set data" using bt_get_Some_mem [OF Some] by (metis fst_conv image_eqI)
      then have sub: "fst ` set (bt_insert k v writes) \<subseteq> fst ` set data" using Cons.prems(2) by simp
      have next_bounded: "map_bounded (bt_insert k v ?cur)"
        if "length k \<le> MAX_STATE_KEY_BYTES" "length v \<le> MAX_STATE_VALUE_BYTES" "map_size (bt_insert k v ?cur) \<le> MAX_SNAPSHOT_BYTES"
        using that get by (simp add: map_bounded_insert [OF Cons.prems(3)] entry_bounded_def)
      have ih: "case prepare_writes (tree_from_map blake2s data) (map_size (bt_insert k v ?cur)) (bt_insert k v writes) cs of
          Inl e \<Rightarrow> stage_changes (map_size (bt_insert k v ?cur)) (bt_insert k v ?cur) cs = Err e
        | Inr None \<Rightarrow> True
        | Inr (Some w) \<Rightarrow> bt_ok w \<and> fst ` set w \<subseteq> fst ` set data
            \<and> stage_changes (map_size (bt_insert k v ?cur)) (bt_insert k v ?cur) cs = Ok (updated w data)"
        if "map_bounded (bt_insert k v ?cur)"
        using Cons.IH [of "bt_insert k v writes", unfolded ins, OF bt_ok_insert [OF Cons.prems(1)] sub that] .
      let ?bad = "length k > MAX_STATE_KEY_BYTES \<or> length v > MAX_STATE_VALUE_BYTES \<or> map_size (bt_insert k v ?cur) > MAX_SNAPSHOT_BYTES"
      have steps: "prepare_writes (tree_from_map blake2s data) (map_size ?cur) writes (Put k v # cs) = (if ?bad then Err LimitExceeded
            else prepare_writes (tree_from_map blake2s data) (map_size (bt_insert k v ?cur)) (bt_insert k v writes) cs)"
          "stage_changes (map_size ?cur) ?cur (Put k v # cs) = (if ?bad then Err LimitExceeded
            else stage_changes (map_size (bt_insert k v ?cur)) (bt_insert k v ?cur) cs)"
        using small_usize(1) by (simp_all add: assms(1) Some old get present Let_def sz checked_add_usize_def)
      show ?thesis
        unfolding Put steps using ih next_bounded by (cases ?bad) simp_all
    qed
  next
    case (Delete k)
    show ?thesis
    proof (cases "bt_get data k")
      case None
      then have get: "bt_get ?cur k = None" by (simp add: bt_get_updated)
      have "bt_remove k ?cur = ?cur" by (rule bt_ext) (simp_all add: assms(1) get fun_eq_iff)
      then have steps: "prepare_writes (tree_from_map blake2s data) (map_size ?cur) writes (Delete k # cs) = (if length k > MAX_STATE_KEY_BYTES
            then Err LimitExceeded else prepare_writes (tree_from_map blake2s data) (map_size ?cur) writes cs)"
          "stage_changes (map_size ?cur) ?cur (Delete k # cs) = (if length k > MAX_STATE_KEY_BYTES then Err LimitExceeded
            else stage_changes (map_size ?cur) ?cur cs)"
        by (simp_all add: assms(1) None get Let_def)
      show ?thesis unfolding Delete steps using Cons.IH [OF Cons.prems] by simp
    next
      case (Some w)
      then show ?thesis by (simp add: Delete assms(1))
    qed
  qed
qed simp

lemma tree_bytes_from_map [simp]: "tree_bytes (tree_from_map blake2s data) = map_size data"
  by (rule tree_from_map_cases [of data blake2s]) (simp_all add: tree_bytes_def map_size_def node_wf_cache)

lemma tree_replace_from_map:
  assumes "bt_ok data" "bt_ok writes" "fst ` set writes \<subseteq> fst ` set data"
  shows "map_option (\<lambda>n. node_or n (node_replace blake2s n writes)) (tree_from_map blake2s data) = tree_from_map blake2s (updated writes data)"
  unfolding updated_def tree_from_map_rebuild
  using assms by (cases rule: tree_from_map_cases [of data blake2s]) (simp_all add: node_replace_rebuild)

lemma tree_prepare_stage:
  assumes "map_bounded data"
  shows "case tree_prepare blake2s (tree_from_map blake2s data) diffs of
      Inl e \<Rightarrow> stage data diffs = Err e
    | Inr None \<Rightarrow> True
    | Inr (Some t) \<Rightarrow> \<exists>m. stage data diffs = Ok m \<and> t = tree_from_map blake2s m"
proof -
  note run = prepare_writes_stage [where blake2s = blake2s and cs = "all_changes diffs" and writes = "[]", simplified, OF map_boundedD(1) [OF assms] assms]
  show ?thesis
  proof (cases "prepare_writes (tree_from_map blake2s data) (map_size data) [] (all_changes diffs)")
    case (Inl e)
    with run show ?thesis by (simp add: tree_prepare_def stage_def encoded_size_ok [OF assms])
  next
    case (Inr w)
    with run show ?thesis
      by (cases w) (simp_all add: tree_prepare_def stage_def encoded_size_ok [OF assms] tree_replace_from_map [OF map_boundedD(1) [OF assms]])
  qed
qed

text \<open>Preparing a state is staging the changes on its map, errors included.\<close>

lemma state_prepare_stage:
  assumes "map_bounded data"
  shows "state_prepare blake2s (state_of blake2s data) parent diffs =
    (if parent \<noteq> tree_hash blake2s (tree_from_map blake2s data) then Err StaleSnapshot
     else try_bind (stage data diffs) (\<lambda>m. Ok (state_of blake2s m)))"
  using tree_prepare_stage [OF assms, where blake2s = blake2s and diffs = diffs] map_boundedD(1) [OF assms]
  by (auto simp: state_prepare_def finish_prepare_def state_of_def try_bind_split split: sum.splits option.splits)

lemma state_prepare_ok:
  assumes "state_ok blake2s s" and "state_prepare blake2s s parent diffs = Ok s'"
  shows "state_ok blake2s s' \<and> state_map s' = fold apply_to diffs (state_map s)"
proof -
  obtain data where data: "map_bounded data" "s = state_of blake2s data"
    using assms(1) by (auto simp: state_ok_def)
  then show ?thesis
    using assms(2) changes_fit_bounded [OF data(1), of "all_changes diffs"]
    by (auto simp: state_prepare_stage stage_iff all_changes_apply_to state_ok_of split: if_splits)
qed

section \<open>Snapshots are canonical\<close>

lemma state_read_bytes_sound:
  assumes "state_read_bytes mx d = Ok (v, d')"
  shows "length v \<le> mx \<and> rest d = le_bytes (of_nat (length v) :: u64) @ v @ rest d'"
proof -
  obtain n d1 where n: "read_u64 d = Ok (n, d1)" "unat n \<le> mx" and v: "read_exact (unat n) d1 = Ok (v, d')"
    using assms by (auto simp: state_read_bytes_def bounded_length_def result_simps split: if_splits)
  have "length v = unat n" "rest d1 = v @ rest d'" using read_exact_sound [OF v] by simp_all
  moreover have "n = of_nat (length v)" using \<open>length v = unat n\<close> by simp
  ultimately show ?thesis using read_u64_sound [OF n(1)] n(2) by simp
qed

lemma bounded_length_at:
  assumes "n \<le> mx" "mx < usize_limit" "length pre + 8 < usize_limit"
  shows "bounded_length mx (dec_at pre (le_bytes (of_nat n :: u64) @ post)) = Ok (n, dec_at (pre @ le_bytes (of_nat n :: u64)) post)"
proof -
  have "unat (of_nat n :: u64) = n" using assms(1,2) by (simp add: usize_limit_def unat_of_nat take_bit_nat_eq_self)
  with assms show ?thesis by (simp add: bounded_length_def)
qed

lemma state_read_bytes_at:
  assumes "length v \<le> mx" "mx < usize_limit" "length pre + 8 + length v < usize_limit"
  shows "state_read_bytes mx (dec_at pre (le_bytes (of_nat (length v) :: u64) @ v @ post))
    = Ok (v, dec_at (pre @ le_bytes (of_nat (length v) :: u64) @ v) post)"
  using assms bounded_length_at [of "length v" mx pre "v @ post"] by (simp add: state_read_bytes_def)

abbreviation entries_bytes :: "(state_key \<times> byte list) list \<Rightarrow> byte list" where
  "entries_bytes es \<equiv> concat (map (\<lambda>(key, val). state_entry_bytes key val) es)"

definition keys_after :: "byte list option \<Rightarrow> (state_key \<times> byte list) list \<Rightarrow> bool" where
  "keys_after previous es \<longleftrightarrow> bt_ok es \<and> (\<forall>p e. previous = Some p \<longrightarrow> e \<in> set es \<longrightarrow> p < fst e)"

lemma keys_after_simps [simp]:
  "keys_after previous []" "keys_after None es \<longleftrightarrow> bt_ok es"
  "keys_after previous ((k, v) # es) \<longleftrightarrow> (case previous of None \<Rightarrow> True | Some p \<Rightarrow> p < k) \<and> keys_after (Some k) es"
  by (auto simp: keys_after_def split: option.splits dest: less_trans)

lemma check_state_entries_sound:
  assumes "check_state_entries n previous d = Ok d'"
  shows "\<exists>es. length es = n \<and> keys_after previous es \<and> list_all entry_bounded es \<and> rest d = entries_bytes es @ rest d'
    \<and> (\<forall>m. read_state_entries n m d = Ok (fold (\<lambda>(k, v). bt_insert k v) es m))"
  using assms
proof (induction n arbitrary: previous d)
  case 0
  then show ?case by simp
next
  case (Suc n)
  then obtain k d1 v d2 where k: "state_read_bytes MAX_STATE_KEY_BYTES d = Ok (k, d1)"
    and v: "state_read_bytes MAX_STATE_VALUE_BYTES d1 = Ok (v, d2)"
    and prev: "case previous of None \<Rightarrow> True | Some p \<Rightarrow> p < k" and run: "check_state_entries n (Some k) d2 = Ok d'"
    by (auto simp: result_simps not_le split: if_splits option.splits)
  from Suc.IH [OF run] obtain es where es: "length es = n" "keys_after (Some k) es" "list_all entry_bounded es"
      "rest d2 = entries_bytes es @ rest d'" "\<forall>m. read_state_entries n m d2 = Ok (fold (\<lambda>(k, v). bt_insert k v) es m)"
    by blast
  have "length ((k, v) # es) = Suc n \<and> keys_after previous ((k, v) # es) \<and> list_all entry_bounded ((k, v) # es)
      \<and> rest d = entries_bytes ((k, v) # es) @ rest d' \<and> (\<forall>m. read_state_entries (Suc n) m d = Ok (fold (\<lambda>(k, v). bt_insert k v) ((k, v) # es) m))"
    using es prev state_read_bytes_sound [OF k] state_read_bytes_sound [OF v] k v
    by (simp add: entry_bounded_def state_entry_bytes_def)
  then show ?case by blast
qed

lemma read_entry_at:
  assumes "entry_bounded (k, v)" and "length pre + length (state_entry_bytes k v) < usize_limit"
  shows "state_read_bytes MAX_STATE_KEY_BYTES (dec_at pre (state_entry_bytes k v @ post))
        = Ok (k, dec_at (pre @ le_bytes (of_nat (length k) :: u64) @ k) (le_bytes (of_nat (length v) :: u64) @ v @ post))"
    and "state_read_bytes MAX_STATE_VALUE_BYTES
          (dec_at (pre @ le_bytes (of_nat (length k) :: u64) @ k) (le_bytes (of_nat (length v) :: u64) @ v @ post))
        = Ok (v, dec_at (pre @ state_entry_bytes k v) post)"
proof -
  let ?k = "le_bytes (of_nat (length k) :: u64) @ k"
  have "MAX_STATE_KEY_BYTES < usize_limit" "MAX_STATE_VALUE_BYTES < usize_limit"
    by (simp_all add: MAX_STATE_KEY_BYTES_def MAX_STATE_VALUE_BYTES_def usize_limit_def)
  then show "state_read_bytes MAX_STATE_KEY_BYTES (dec_at pre (state_entry_bytes k v @ post))
        = Ok (k, dec_at (pre @ ?k) (le_bytes (of_nat (length v) :: u64) @ v @ post))"
    and "state_read_bytes MAX_STATE_VALUE_BYTES (dec_at (pre @ ?k) (le_bytes (of_nat (length v) :: u64) @ v @ post))
        = Ok (v, dec_at (pre @ state_entry_bytes k v) post)"
    using assms state_read_bytes_at [of k MAX_STATE_KEY_BYTES pre "le_bytes (of_nat (length v) :: u64) @ v @ post"]
      state_read_bytes_at [of v MAX_STATE_VALUE_BYTES "pre @ ?k" post]
    by (simp_all add: entry_bounded_def state_entry_bytes_def)
qed

lemma check_state_entries_at:
  assumes "keys_after previous es" and "list_all entry_bounded es" and "length pre + length (entries_bytes es) < usize_limit"
  shows "check_state_entries (length es) previous (dec_at pre (entries_bytes es @ post)) = Ok (dec_at (pre @ entries_bytes es) post)"
  using assms
proof (induction es arbitrary: previous pre)
  case (Cons e es)
  obtain k v where e: "e = (k, v)" by (cases e)
  have "check_state_entries (length es) (Some k) (dec_at (pre @ state_entry_bytes k v) (entries_bytes es @ post))
      = Ok (dec_at ((pre @ state_entry_bytes k v) @ entries_bytes es) post)"
    using Cons.prems by (intro Cons.IH) (simp_all add: e)
  moreover have "\<not> (case previous of None \<Rightarrow> False | Some p \<Rightarrow> p \<ge> k)"
    using Cons.prems(1) by (auto simp: e split: option.splits)
  ultimately show ?case
    using Cons.prems(2,3) read_entry_at [of k v pre "entries_bytes es @ post"] by (simp add: e)
qed simp

lemma read_state_entries_at:
  assumes "list_all entry_bounded es" and "length pre + length (entries_bytes es) < usize_limit"
  shows "read_state_entries (length es) m (dec_at pre (entries_bytes es @ post)) = Ok (fold (\<lambda>(k, v). bt_insert k v) es m)"
  using assms
proof (induction es arbitrary: m pre)
  case (Cons e es)
  obtain k v where e: "e = (k, v)" by (cases e)
  have "read_state_entries (length es) (bt_insert k v m) (dec_at (pre @ state_entry_bytes k v) (entries_bytes es @ post))
      = Ok (fold (\<lambda>(k, v). bt_insert k v) es (bt_insert k v m))"
    using Cons.prems by (intro Cons.IH) (simp_all add: e)
  then show ?case
    using Cons.prems read_entry_at [of k v pre "entries_bytes es @ post"] by (simp add: e)
qed simp

lemma length_entries_bytes: "length (entries_bytes es) = (\<Sum>(k, v) \<leftarrow> es. entry_size k v)"
  by (induction es) (auto simp: state_entry_bytes_def entry_size_def)

lemma length_export: "length (export_snapshot (state_of blake2s data)) = map_size data"
  by (simp add: export_snapshot_def snapshot_encode_def length_entries_bytes map_size_def SNAPSHOT_HEADER_BYTES_def SNAPSHOT_MAGIC_def)

lemma decode_snapshot_sound:
  assumes "decode_snapshot blake2s bytes = Ok s"
  shows "\<exists>data. map_bounded data \<and> s = state_of blake2s data \<and> bytes = export_snapshot s"
proof -
  from assms obtain d1 d2 cnt d3 root d4 d5 data
    where len: "length bytes \<le> MAX_SNAPSHOT_BYTES"
      and magic: "read_exact 8 (decoder_new bytes) = Ok (SNAPSHOT_MAGIC, d1)" and version: "read_u16 d1 = Ok (SNAPSHOT_VERSION, d2)"
      and cnt: "bounded_length MAX_STATE_ENTRIES d2 = Ok (cnt, d3)" and root: "read_fixed d3 = Ok (root, d4)"
      and check: "check_state_entries cnt None d4 = Ok d5" and fin: "finish d5 = Ok ()"
      and data: "read_state_entries cnt [] d4 = Ok data"
      and s: "tree_hash blake2s (tree_from_map blake2s data) = root" "s = state_of blake2s data"
    by (auto simp: decode_snapshot_def snapshot_decode_def result_simps Let_def state_of_def split: if_splits)
  obtain es where es: "length es = cnt" "bt_ok es" "list_all entry_bounded es" "rest d4 = entries_bytes es"
      "read_state_entries cnt [] d4 = Ok (fold (\<lambda>(k, v). bt_insert k v) es [])"
    using check_state_entries_sound [OF check] fin by (auto simp: finish_Ok)
  have de: "data = es" using es(5) data bt_collect_sorted [OF es(2)] by (simp add: bt_collect_def)
  have c: "cnt \<le> MAX_STATE_ENTRIES" "rest d2 = le_bytes (of_nat cnt :: u64) @ rest d3"
    using cnt by (auto simp: bounded_length_def result_simps split: if_splits dest!: read_u64_sound)
  have bytes: "bytes = export_snapshot s"
    using read_exact_sound [OF magic] read_u16_sound [OF version] c(2) read_fixed32_sound [OF root] es(1,4)
    by (simp add: s(2) export_snapshot_def snapshot_encode_def s(1) [unfolded de] de)
  then have "map_bounded data"
    using len c(1) es(1-3) length_export [of blake2s data] by (simp add: map_bounded_def de s)
  with s bytes show ?thesis by blast
qed

lemma decode_snapshot_export:
  assumes "map_bounded data"
  shows "decode_snapshot blake2s (export_snapshot (state_of blake2s data)) = Ok (state_of blake2s data)"
proof -
  let ?root = "tree_hash blake2s (tree_from_map blake2s data)"
  let ?cnt = "le_bytes (of_nat (length data) :: u64)" and ?ver = "le_bytes SNAPSHOT_VERSION"
  note m = map_boundedD [OF assms]
  have bytes: "export_snapshot (state_of blake2s data) = SNAPSHOT_MAGIC @ ?ver @ ?cnt @ be_bytes ?root @ entries_bytes data"
    by (simp add: export_snapshot_def snapshot_encode_def)
  have lens: "length SNAPSHOT_MAGIC = 8" "length (SNAPSHOT_MAGIC @ ?ver @ ?cnt @ be_bytes ?root) = 50"
    by (simp_all add: SNAPSHOT_MAGIC_def)
  have fit: "50 + length (entries_bytes data) < usize_limit" "length (export_snapshot (state_of blake2s data)) \<le> MAX_SNAPSHOT_BYTES"
    using m(3) small_usize(1) by (simp_all add: length_entries_bytes map_size_def SNAPSHOT_HEADER_BYTES_def length_export)
  let ?d = "dec_at (SNAPSHOT_MAGIC @ ?ver @ ?cnt @ be_bytes ?root) (entries_bytes data)"
  have check: "check_state_entries (length data) None ?d = Ok (dec_at ((SNAPSHOT_MAGIC @ ?ver @ ?cnt @ be_bytes ?root) @ entries_bytes data) [])"
    using check_state_entries_at [of None data "SNAPSHOT_MAGIC @ ?ver @ ?cnt @ be_bytes ?root" "[]"] assms fit(1) lens
    by (simp add: map_bounded_def)
  have "read_state_entries (length data) [] ?d = Ok data"
    using read_state_entries_at [of data "SNAPSHOT_MAGIC @ ?ver @ ?cnt @ be_bytes ?root" "[]" "[]"] assms fit(1) lens
      bt_collect_sorted [OF m(1)]
    by (simp add: map_bounded_def bt_collect_def)
  with check show ?thesis
    using fit(2) m(2) small_usize lens
      bounded_length_at [OF m(2) small_usize(2), of "SNAPSHOT_MAGIC @ ?ver" "be_bytes ?root @ entries_bytes data"]
    unfolding decode_snapshot_def snapshot_decode_def bytes decoder_new_dec_at
    by (simp add: usize_limit_def) (simp add: state_of_def Let_def)
qed

end
