(* ===== verification/Astro_Seals.thy ===== *)
theory Astro_Seals
  imports Astro_State
begin

text \<open>
  Commit seals (tree.rs, \<open>CommitSeals\<close>): while a block executes, the subtrees whose final
  writers have all finished are rebuilt ahead of the commit, which then reuses them. The seals are
  shared by the execution workers; \<open>record\<close> is modelled as one atomic step. A result that is
  the same \<open>Arc\<close> as the base is the inner \<open>None\<close>. The identity of two \<open>Arc\<close>s is the
  parameter \<open>ptr_eq\<close>; of it the code needs that identical nodes are equal.
\<close>

section \<open>Seals (tree.rs)\<close>

record seal_partition =
  pa_base :: state_node
  pa_remaining :: nat
  pa_values :: "(state_key \<times> byte list option) list"
  pa_result :: "state_node option option"

record commit_seals =
  cs_parent :: hash256
  cs_transaction_root :: hash256
  cs_partitions :: "(state_key, seal_partition) btree"
  cs_writers :: "(state_key, nat \<times> state_key \<times> nat) btree"
  cs_reused :: nat

definition ready_partitions :: "commit_seals \<Rightarrow> nat" where
  "ready_partitions s = length (filter (\<lambda>p. pa_result p \<noteq> None) (bt_values (cs_partitions s)))"

text \<open>The reuse condition of \<open>replace_sealed\<close>.\<close>

definition sealed_result ::
  "(state_node \<Rightarrow> state_node \<Rightarrow> bool) \<Rightarrow> commit_seals option \<Rightarrow> state_node \<Rightarrow> (state_key \<times> byte list) list \<Rightarrow> state_node option option" where
  "sealed_result ptr_eq seals n writes =
     (case seals of
        None \<Rightarrow> None
      | Some s \<Rightarrow>
          (case bt_get (cs_partitions s) (nd_last_key n) of
             None \<Rightarrow> None
           | Some p \<Rightarrow>
               if ptr_eq n (pa_base p) \<and> length (pa_values p) = length writes
                 \<and> list_all (\<lambda>((key, slot), (actual_key, val)). key = actual_key \<and> slot = Some val) (zip (pa_values p) writes)
               then pa_result p else None))"

text \<open>The replaced node, if it is a new one, and how many sealed subtrees it reuses.\<close>

fun node_replace_sealed ::
  "(byte list \<Rightarrow> hash256) \<Rightarrow> (state_node \<Rightarrow> state_node \<Rightarrow> bool) \<Rightarrow> commit_seals option \<Rightarrow> state_node
   \<Rightarrow> (state_key \<times> byte list) list \<Rightarrow> state_node option \<times> nat" where
  "node_replace_sealed blake2s ptr_eq seals (LeafNode h k c b v) writes =
     (case writes of
        [] \<Rightarrow> (None, 0)
      | w # _ \<Rightarrow>
          (case sealed_result ptr_eq seals (LeafNode h k c b v) writes of
             Some r \<Rightarrow> (r, 1)
           | None \<Rightarrow> (if v = snd w then None else Some (node_leaf blake2s k (snd w)), 0)))"
| "node_replace_sealed blake2s ptr_eq seals (BranchNode h k c b l r) writes =
     (if writes = [] then (None, 0)
      else case sealed_result ptr_eq seals (BranchNode h k c b l r) writes of
        Some res \<Rightarrow> (res, 1)
      | None \<Rightarrow>
          let (next_left, m) = node_replace_sealed blake2s ptr_eq seals l (takeWhile (\<lambda>w. fst w \<le> nd_last_key l) writes);
              (next_right, n) = node_replace_sealed blake2s ptr_eq seals r (dropWhile (\<lambda>w. fst w \<le> nd_last_key l) writes) in
          (if next_left = None \<and> next_right = None then None
           else Some (node_branch blake2s (node_or l next_left) (node_or r next_right)), m + n))"

definition tree_prepare_sealed ::
  "(byte list \<Rightarrow> hash256) \<Rightarrow> (state_node \<Rightarrow> state_node \<Rightarrow> bool) \<Rightarrow> commit_seals option \<Rightarrow> tree \<Rightarrow> state_diff list
   \<Rightarrow> state_error + tree option \<times> nat" where
  "tree_prepare_sealed blake2s ptr_eq seals t diffs =
     try_bind (prepare_writes t (tree_bytes t) [] (all_changes diffs)) (\<lambda>prepared.
       case prepared of
         None \<Rightarrow> Ok (None, 0)
       | Some writes \<Rightarrow>
           (case t of
              None \<Rightarrow> Ok (Some None, 0)
            | Some n \<Rightarrow>
                (case node_replace_sealed blake2s ptr_eq seals n writes of
                   (r, reused) \<Rightarrow> Ok (Some (Some (node_or n r)), reused))))"

text \<open>Recording the diff of one transaction. \<open>None\<close> is a panic of an index operation.\<close>

definition record_value ::
  "(byte list \<Rightarrow> hash256) \<Rightarrow> commit_seals \<Rightarrow> state_key \<Rightarrow> nat \<Rightarrow> byte list \<Rightarrow> (state_error + unit) option \<times> commit_seals" where
  "record_value blake2s s partition_key slot val =
     (case bt_get (cs_partitions s) partition_key of
        None \<Rightarrow> (None, s)
      | Some p \<Rightarrow>
          if slot \<ge> length (pa_values p) then (None, s)
          else if snd (pa_values p ! slot) \<noteq> None then (Some (Err LeaseViolation), s)
          else
            let vs = (pa_values p)[slot := (fst (pa_values p ! slot), Some val)];
                left = (if pa_remaining p = 0 then usize_limit - 1 else pa_remaining p - 1);
                p1 = p\<lparr>pa_values := vs, pa_remaining := left\<rparr>;
                store = (\<lambda>p. s\<lparr>cs_partitions := bt_insert partition_key p (cs_partitions s)\<rparr>) in
            if pa_remaining p \<noteq> 1 then (Some (Ok ()), store p1)
            else if list_ex (\<lambda>(_, v). v = None) vs then (Some (Err Corrupt), store p1)
            else if pa_result p \<noteq> None then (Some (Err Corrupt), store p1)
            else (Some (Ok ()),
                  store (p1\<lparr>pa_result := Some (node_replace blake2s (pa_base p) (map (\<lambda>(k, v). (k, the v)) vs))\<rparr>)))"

fun record_changes ::
  "(byte list \<Rightarrow> hash256) \<Rightarrow> commit_seals \<Rightarrow> nat \<Rightarrow> state_change list \<Rightarrow> (state_error + unit) option \<times> commit_seals" where
  "record_changes blake2s s index [] = (Some (Ok ()), s)"
| "record_changes blake2s s index (Delete key # cs) = (Some (Err LeaseViolation), s)"
| "record_changes blake2s s index (Put key val # cs) =
     (case bt_get (cs_writers s) key of
        None \<Rightarrow> (Some (Err LeaseViolation), s)
      | Some (last_writer, partition_key, slot) \<Rightarrow>
          if index > last_writer \<or> length val > MAX_STATE_VALUE_BYTES then (Some (Err LeaseViolation), s)
          else if index \<noteq> last_writer then record_changes blake2s s index cs
          else
            (case record_value blake2s s partition_key slot val of
               (Some (Inr _), s') \<Rightarrow> record_changes blake2s s' index cs
             | other \<Rightarrow> other))"

definition seals_record ::
  "(byte list \<Rightarrow> hash256) \<Rightarrow> commit_seals \<Rightarrow> nat \<Rightarrow> state_diff \<Rightarrow> (state_error + unit) option \<times> commit_seals" where
  "seals_record blake2s s index d = record_changes blake2s s index (sd_changes d)"

section \<open>Planning (tree.rs, \<open>plan_seals\<close>)\<close>

definition insert_writer :: "state_key \<Rightarrow> nat \<times> state_key \<times> nat \<Rightarrow> (state_key, nat \<times> state_key \<times> nat) btree
   \<Rightarrow> (state_key, nat \<times> state_key \<times> nat) btree" where
  "insert_writer partition_key = (\<lambda>(slot, key, writer). bt_insert key (writer, partition_key, slot))"

definition seal_subtree :: "state_node \<Rightarrow> (state_key \<times> nat) list \<Rightarrow> commit_seals \<Rightarrow> commit_seals" where
  "seal_subtree n keys s =
     s\<lparr>cs_writers := fold (insert_writer (nd_last_key n)) (enumerate 0 keys) (cs_writers s),
       cs_partitions := bt_insert (nd_last_key n)
         \<lparr>pa_base = n, pa_remaining = length keys, pa_values = map (\<lambda>(key, _). (key, None)) keys, pa_result = None\<rparr>
         (cs_partitions s)\<rparr>"

fun plan_partition :: "state_node \<Rightarrow> (state_key \<times> nat) list \<Rightarrow> commit_seals \<Rightarrow> commit_seals" where
  "plan_partition (LeafNode h k c b v) keys s =
     (if keys = [] then s else if c \<le> 64 then seal_subtree (LeafNode h k c b v) keys s else s)"
| "plan_partition (BranchNode h k c b l r) keys s =
     (if keys = [] then s
      else if c \<le> 64 then seal_subtree (BranchNode h k c b l r) keys s
      else plan_partition r (dropWhile (\<lambda>e. fst e \<le> nd_last_key l) keys)
             (plan_partition l (takeWhile (\<lambda>e. fst e \<le> nd_last_key l) keys) s))"

fun plan_keys :: "tree \<Rightarrow> nat \<Rightarrow> state_key list \<Rightarrow> (state_key, nat) btree \<Rightarrow> (state_key, nat) btree option" where
  "plan_keys t index [] lst = Some lst"
| "plan_keys t index (key # keys) lst =
     (case tree_get t key of None \<Rightarrow> None | Some _ \<Rightarrow> plan_keys t index keys (bt_insert key index lst))"

fun plan_writes :: "tree \<Rightarrow> nat \<Rightarrow> state_key list list \<Rightarrow> (state_key, nat) btree \<Rightarrow> (state_key, nat) btree option" where
  "plan_writes t index [] lst = Some lst"
| "plan_writes t index (keys # writes) lst =
     (if length keys > 2 then None
      else case plan_keys t index keys lst of None \<Rightarrow> None | Some lst \<Rightarrow> plan_writes t (index + 1) writes lst)"

definition plan_seals ::
  "(byte list \<Rightarrow> hash256) \<Rightarrow> tree \<Rightarrow> hash256 \<Rightarrow> state_key list list \<Rightarrow> commit_seals option" where
  "plan_seals blake2s t transaction_root writes =
     (if length writes > 8192 then None
      else case plan_writes t 0 writes [] of
        None \<Rightarrow> None
      | Some lst \<Rightarrow>
          if length lst < 512 then None
          else case t of
            None \<Rightarrow> None
          | Some n \<Rightarrow>
              Some (plan_partition n lst
                \<lparr>cs_parent = tree_hash blake2s t, cs_transaction_root = transaction_root, cs_partitions = [],
                 cs_writers = [], cs_reused = 0\<rparr>))"

section \<open>Sealed commits (memory.rs)\<close>

definition state_prepare_sealed ::
  "(byte list \<Rightarrow> hash256) \<Rightarrow> (state_node \<Rightarrow> state_node \<Rightarrow> bool) \<Rightarrow> in_memory_state \<Rightarrow> hash256 \<Rightarrow> state_diff list
   \<Rightarrow> commit_seals option \<Rightarrow> (state_error + in_memory_state) \<times> commit_seals option" where
  "state_prepare_sealed blake2s ptr_eq s parent diffs seals =
     (if parent \<noteq> ms_root s then (Err StaleSnapshot, seals)
      else
        let use = (case seals of Some x \<Rightarrow> if cs_parent x = parent then Some x else None | None \<Rightarrow> None) in
        case tree_prepare_sealed blake2s ptr_eq use (ms_data s) diffs of
          Inl e \<Rightarrow> (Err e, seals)
        | Inr (prepared, reused) \<Rightarrow>
            (finish_prepare blake2s s diffs prepared,
             map_option (\<lambda>x. x\<lparr>cs_reused := cs_reused x + reused\<rparr>) seals))"

definition state_commit_sealed ::
  "(byte list \<Rightarrow> hash256) \<Rightarrow> (state_node \<Rightarrow> state_node \<Rightarrow> bool) \<Rightarrow> in_memory_state \<Rightarrow> hash256 \<Rightarrow> state_diff list
   \<Rightarrow> commit_seals option \<Rightarrow> (state_error + hash256) \<times> in_memory_state \<times> commit_seals option" where
  "state_commit_sealed blake2s ptr_eq s parent diffs seals =
     (case state_prepare_sealed blake2s ptr_eq s parent diffs seals of
        (Inl e, seals') \<Rightarrow> (Err e, s, seals')
      | (Inr s', seals') \<Rightarrow> (Ok (ms_root s'), s', seals'))"

section \<open>Seals hold what the commit would compute\<close>

definition partition_wf :: "(byte list \<Rightarrow> hash256) \<Rightarrow> seal_partition \<Rightarrow> bool" where
  "partition_wf blake2s p \<longleftrightarrow> pa_remaining p = length (filter (\<lambda>e. snd e = None) (pa_values p))
     \<and> length (pa_values p) < usize_limit
     \<and> pa_result p = (if pa_remaining p = 0 then Some (node_replace blake2s (pa_base p) (map (\<lambda>(k, v). (k, the v)) (pa_values p))) else None)"

definition seals_wf :: "(byte list \<Rightarrow> hash256) \<Rightarrow> commit_seals \<Rightarrow> bool" where
  "seals_wf blake2s s \<longleftrightarrow> bt_ok (cs_partitions s) \<and> bt_ok (cs_writers s)
     \<and> (\<forall>pk p. bt_get (cs_partitions s) pk = Some p \<longrightarrow> partition_wf blake2s p)
     \<and> (\<forall>k w pk i. bt_get (cs_writers s) k = Some (w, pk, i) \<longrightarrow>
          (\<exists>p. bt_get (cs_partitions s) pk = Some p \<and> i < length (pa_values p) \<and> fst (pa_values p ! i) = k))"

lemma sealed_result_replace:
  assumes "seals_wf blake2s s" and "\<And>a b. ptr_eq a b \<Longrightarrow> a = b" and "sealed_result ptr_eq (Some s) n writes = Some r"
  shows "r = node_replace blake2s n writes"
proof -
  obtain p where p: "bt_get (cs_partitions s) (nd_last_key n) = Some p" "ptr_eq n (pa_base p)"
      "length (pa_values p) = length writes"
      "list_all (\<lambda>((key, slot), (actual_key, val)). key = actual_key \<and> slot = Some val) (zip (pa_values p) writes)"
      "pa_result p = Some r"
    using assms(3) by (auto simp: sealed_result_def split: option.splits if_splits)
  have "map (\<lambda>(k, v). (k, the v)) (pa_values p) = writes"
    using p(3,4) by (auto simp: list_all_length intro!: nth_equalityI)
  moreover have "partition_wf blake2s p" using assms(1) p(1) by (simp add: seals_wf_def)
  ultimately show ?thesis
    using p(5) assms(2) [OF p(2)] by (auto simp: partition_wf_def split: if_splits)
qed

lemma node_replace_sealed_eq:
  assumes "\<And>s. seals = Some s \<Longrightarrow> seals_wf blake2s s" and "\<And>a b. ptr_eq a b \<Longrightarrow> a = b"
  shows "fst (node_replace_sealed blake2s ptr_eq seals n writes) = node_replace blake2s n writes"
proof -
  have sealed: "r = node_replace blake2s n writes" if "sealed_result ptr_eq seals n writes = Some r" for n writes r
    using that sealed_result_replace [OF _ assms(2)] assms(1) by (cases seals) (auto simp: sealed_result_def)
  show ?thesis
  proof (induction n arbitrary: writes)
    case (LeafNode h k c b v)
    then show ?case using sealed [of "LeafNode h k c b v" writes] by (auto split: list.splits option.splits)
  next
    case (BranchNode h k c b l r)
    then show ?case using sealed [of "BranchNode h k c b l r" writes]
      by (auto simp: Let_def split_beta split: option.splits)
  qed
qed

lemma tree_prepare_sealed_eq:
  assumes "\<And>s. seals = Some s \<Longrightarrow> seals_wf blake2s s" and "\<And>a b. ptr_eq a b \<Longrightarrow> a = b"
  shows "try_bind (tree_prepare_sealed blake2s ptr_eq seals t diffs) (\<lambda>(prepared, _). Ok prepared) = tree_prepare blake2s t diffs"
proof -
  have "fst (node_replace_sealed blake2s ptr_eq seals n writes) = node_replace blake2s n writes" for n writes
    using assms by (rule node_replace_sealed_eq)
  then show ?thesis
    by (cases "prepare_writes t (tree_bytes t) [] (all_changes diffs)")
      (auto simp: tree_prepare_sealed_def tree_prepare_def split_beta split: option.splits)
qed

text \<open>A commit with well-formed seals is the commit without them.\<close>

lemma state_prepare_sealed_eq:
  assumes "\<And>s. seals = Some s \<Longrightarrow> seals_wf blake2s s" and "\<And>a b. ptr_eq a b \<Longrightarrow> a = b"
  shows "fst (state_prepare_sealed blake2s ptr_eq s parent diffs seals) = state_prepare blake2s s parent diffs"
proof -
  define use where "use = (case seals of Some x \<Rightarrow> if cs_parent x = parent then Some x else None | None \<Rightarrow> None)"
  have "seals_wf blake2s x" if "use = Some x" for x
    using assms(1) that by (auto simp: use_def split: option.splits if_splits)
  then have eq: "tree_prepare blake2s (ms_data s) diffs
      = try_bind (tree_prepare_sealed blake2s ptr_eq use (ms_data s) diffs) (\<lambda>(prepared, _). Ok prepared)"
    using tree_prepare_sealed_eq assms(2) by metis
  show ?thesis
    unfolding state_prepare_sealed_def state_prepare_def Let_def use_def [symmetric]
    by (auto simp: eq split: sum.splits prod.splits)
qed

section \<open>Recording keeps the seals\<close>

lemma filter_update:
  assumes "i < length xs" and "P (xs ! i)" and "\<not> P x"
  shows "length (filter P xs) = Suc (length (filter P (xs[i := x])))"
  using assms by (induction xs arbitrary: i) (auto split: nat.splits)

lemma seals_wf_update:
  assumes "seals_wf blake2s s" and "bt_get (cs_partitions s) pk = Some p" and "partition_wf blake2s p'"
    and "map fst (pa_values p') = map fst (pa_values p)"
  shows "seals_wf blake2s (s\<lparr>cs_partitions := bt_insert pk p' (cs_partitions s)\<rparr>)"
proof -
  have len: "length (pa_values p') = length (pa_values p)" using assms(4) by (metis length_map)
  have nth: "fst (pa_values p' ! i) = fst (pa_values p ! i)" if "i < length (pa_values p)" for i
    using assms(4) that len by (metis nth_map)
  show ?thesis
    unfolding seals_wf_def
  proof (intro conjI allI impI)
    fix k w pk' i
    assume "bt_get (cs_writers (s\<lparr>cs_partitions := bt_insert pk p' (cs_partitions s)\<rparr>)) k = Some (w, pk', i)"
    then obtain q where "bt_get (cs_partitions s) pk' = Some q" "i < length (pa_values q)" "fst (pa_values q ! i) = k"
      using assms(1) unfolding seals_wf_def by simp blast
    then show "\<exists>p. bt_get (cs_partitions (s\<lparr>cs_partitions := bt_insert pk p' (cs_partitions s)\<rparr>)) pk' = Some p
        \<and> i < length (pa_values p) \<and> fst (pa_values p ! i) = k"
      using assms(2) len nth by (cases "pk' = pk") auto
  qed (use assms(1,3) in \<open>auto simp: seals_wf_def split: if_splits\<close>)
qed

lemma record_value_keeps:
  assumes "seals_wf blake2s s" and "bt_get (cs_partitions s) pk = Some p" and "slot < length (pa_values p)"
    and "record_value blake2s s pk slot val = (out, s')"
  shows "seals_wf blake2s s' \<and> cs_writers s' = cs_writers s \<and> (out = Some (Ok ()) \<or> out = Some (Err LeaseViolation))"
proof (cases "snd (pa_values p ! slot) = None")
  case False
  then show ?thesis using assms by (auto simp: record_value_def)
next
  case True
  let ?vs = "(pa_values p)[slot := (fst (pa_values p ! slot), Some val)]"
  have wf: "partition_wf blake2s p" using assms(1,2) by (simp add: seals_wf_def)
  have unset: "length (filter (\<lambda>e. snd e = None) (pa_values p)) = Suc (length (filter (\<lambda>e. snd e = None) ?vs))"
    using filter_update [OF assms(3), of "\<lambda>e. snd e = None"] True by simp
  then have rem: "pa_remaining p = Suc (length (filter (\<lambda>e. snd e = None) ?vs))" using wf by (simp add: partition_wf_def)
  have keys: "map fst ?vs = map fst (pa_values p)" using assms(3) by (metis fst_conv list_update_id map_update nth_map)
  have all: "list_ex (\<lambda>(_, v). v = None) ?vs \<longleftrightarrow> filter (\<lambda>e. snd e = None) ?vs \<noteq> []"
    by (auto simp: list_ex_iff filter_empty_conv split_beta)
  note upd = seals_wf_update [OF assms(1,2)]
  show ?thesis
  proof (cases "pa_remaining p = 1")
    case False
    let ?p = "p\<lparr>pa_values := ?vs, pa_remaining := pa_remaining p - 1\<rparr>"
    have "partition_wf blake2s ?p" using wf False rem by (auto simp: partition_wf_def)
    then show ?thesis using upd [of ?p] keys False assms(2-4) rem True by (auto simp: record_value_def Let_def)
  next
    case last: True
    let ?p = "p\<lparr>pa_values := ?vs, pa_remaining := 0,
      pa_result := Some (node_replace blake2s (pa_base p) (map (\<lambda>(k, v). (k, the v)) ?vs))\<rparr>"
    have "filter (\<lambda>e. snd e = None) ?vs = []" using last rem by simp
    moreover from this wf have "partition_wf blake2s ?p" by (simp add: partition_wf_def)
    moreover have "pa_result p = None" using wf last by (simp add: partition_wf_def)
    ultimately show ?thesis using upd [of ?p] keys last assms(2-4) True all by (auto simp: record_value_def Let_def)
  qed
qed

lemma record_changes_keeps:
  assumes "seals_wf blake2s s" and "record_changes blake2s s index cs = (out, s')"
  shows "seals_wf blake2s s' \<and> (out = Some (Ok ()) \<or> out = Some (Err LeaseViolation))"
  using assms
proof (induction cs arbitrary: s)
  case (Cons c cs)
  show ?case
  proof (cases "\<exists>key val w pk slot. c = Put key val \<and> bt_get (cs_writers s) key = Some (w, pk, slot)")
    case False
    then show ?thesis using Cons.prems by (cases c) (auto split: option.splits)
  next
    case True
    then obtain key val w pk slot where c: "c = Put key val" and get: "bt_get (cs_writers s) key = Some (w, pk, slot)" by blast
    then obtain p where p: "bt_get (cs_partitions s) pk = Some p" "slot < length (pa_values p)"
      using Cons.prems(1) unfolding seals_wf_def by blast
    obtain o1 s1 where rv: "record_value blake2s s pk slot val = (o1, s1)" by fastforce
    note keep = record_value_keeps [OF Cons.prems(1) p rv]
    show ?thesis
    proof (cases "index > w \<or> length val > MAX_STATE_VALUE_BYTES \<or> index \<noteq> w")
      case True
      then show ?thesis using Cons.prems Cons.IH [of s] by (auto simp: c get split: if_splits)
    next
      case False
      then show ?thesis using Cons.prems(2) Cons.IH [of s1] keep by (auto simp: c get rv)
    qed
  qed
qed simp

section \<open>Planned seals are well formed\<close>

lemma fold_insert_writer:
  assumes "bt_ok m"
  shows "bt_ok (fold (insert_writer pk) es m)
    \<and> (distinct (map (fst \<circ> snd) es) \<longrightarrow> (\<forall>k. bt_get (fold (insert_writer pk) es m) k =
         (case map_of (map (\<lambda>(i, k, w). (k, (w, pk, i))) es) k of Some x \<Rightarrow> Some x | None \<Rightarrow> bt_get m k)))"
  using assms
proof (induction es arbitrary: m)
  case (Cons e es)
  obtain i k w where e: "e = (i, k, w)" by (cases e)
  let ?m = "bt_insert k (w, pk, i) m"
  have "bt_ok ?m" using Cons.prems by simp
  note ih = Cons.IH [OF this]
  have notin: "map_of (map (\<lambda>(i, k, w). (k, (w, pk, i))) es) k = None" if "k \<notin> (fst \<circ> snd) ` set es"
    using that by (force simp: map_of_eq_None_iff)
  show ?case using ih notin by (auto simp: e insert_writer_def split: option.splits)
qed simp

lemma writers_seal_subtree:
  assumes "bt_ok (cs_writers s)" and "bt_ok keys"
  shows "bt_ok (cs_writers (seal_subtree n keys s))"
    and "bt_get (cs_writers (seal_subtree n keys s)) k = Some (w, pk, i) \<Longrightarrow>
      pk = nd_last_key n \<and> i < length keys \<and> fst (keys ! i) = k \<or> bt_get (cs_writers s) k = Some (w, pk, i)"
proof -
  let ?es = "map (\<lambda>(i, k, w). (k, (w, nd_last_key n, i))) (enumerate 0 keys)"
  have "map (fst \<circ> snd) (enumerate 0 keys) = map fst keys"
    unfolding map_map [symmetric] by simp
  then have "distinct (map (fst \<circ> snd) (enumerate 0 keys))" using bt_distinct [OF assms(2)] by simp
  then have ok: "bt_ok (cs_writers (seal_subtree n keys s))" and get: "bt_get (cs_writers (seal_subtree n keys s)) k =
      (case map_of ?es k of Some x \<Rightarrow> Some x | None \<Rightarrow> bt_get (cs_writers s) k)" for k
    using fold_insert_writer [OF assms(1), of "nd_last_key n" "enumerate 0 keys"] by (auto simp: seal_subtree_def)
  show "bt_ok (cs_writers (seal_subtree n keys s))" by (fact ok)
  have mem: "pk = nd_last_key n \<and> i < length keys \<and> fst (keys ! i) = k" if "map_of ?es k = Some (w, pk, i)" for k w pk i
    using map_of_SomeD [OF that] by (auto simp: in_set_enumerate_eq)
  then show "bt_get (cs_writers (seal_subtree n keys s)) k = Some (w, pk, i) \<Longrightarrow>
      pk = nd_last_key n \<and> i < length keys \<and> fst (keys ! i) = k \<or> bt_get (cs_writers s) k = Some (w, pk, i)"
    by (auto simp: get split: option.splits)
qed

lemma seal_subtree_wf:
  assumes "seals_wf blake2s s" and "keys \<noteq> []" and "bt_ok keys" and "length keys < usize_limit"
    and "nd_last_key n \<notin> fst ` set (cs_partitions s)" 
  shows "seals_wf blake2s (seal_subtree n keys s)"
proof -
  let ?p = "\<lparr>pa_base = n, pa_remaining = length keys, pa_values = map (\<lambda>(key, _). (key, None)) keys, pa_result = None\<rparr> :: seal_partition"
  have ok: "bt_ok (cs_partitions s)" "bt_ok (cs_writers s)" using assms(1) by (simp_all add: seals_wf_def)
  have "filter (\<lambda>e. snd e = (None :: byte list option)) (map (\<lambda>(key, _). (key, None)) keys) = map (\<lambda>(key, _). (key, None)) keys"
    by (simp add: filter_id_conv split_beta)
  then have wf: "partition_wf blake2s ?p" using assms(2,4) by (simp add: partition_wf_def)
  have parts: "cs_partitions (seal_subtree n keys s) = bt_insert (nd_last_key n) ?p (cs_partitions s)" by (simp add: seal_subtree_def)
  note ws = writers_seal_subtree [OF ok(2) assms(3), of n]
  show ?thesis
    unfolding seals_wf_def
  proof (intro conjI allI impI)
    fix k w pk i
    assume "bt_get (cs_writers (seal_subtree n keys s)) k = Some (w, pk, i)"
    then consider "pk = nd_last_key n" "i < length keys" "fst (keys ! i) = k" | "bt_get (cs_writers s) k = Some (w, pk, i)"
      using ws(2) by blast
    then show "\<exists>p. bt_get (cs_partitions (seal_subtree n keys s)) pk = Some p \<and> i < length (pa_values p) \<and> fst (pa_values p ! i) = k"
    proof cases
      case 1
      then show ?thesis by (auto simp: parts split_beta)
    next
      case 2
      then obtain p where "bt_get (cs_partitions s) pk = Some p" "i < length (pa_values p)" "fst (pa_values p ! i) = k"
        using assms(1) unfolding seals_wf_def by blast
      moreover from this(1) assms(5) have "pk \<noteq> nd_last_key n" by (auto dest: bt_get_Some_mem intro: rev_image_eqI)
      ultimately show ?thesis by (simp add: parts)
    qed
  qed (use assms(1) ok ws(1) wf in \<open>auto simp: parts seals_wf_def split: if_splits\<close>)
qed

lemma plan_partition_wf:
  assumes "node_wf blake2s n" and "bt_ok (node_entries n)" and "seals_wf blake2s s" and "bt_ok keys" and "length keys < usize_limit"
    and "fst ` set (cs_partitions s) \<inter> fst ` set (node_entries n) = {}"
  shows "seals_wf blake2s (plan_partition n keys s)
    \<and> fst ` set (cs_partitions (plan_partition n keys s)) \<subseteq> fst ` set (cs_partitions s) \<union> fst ` set (node_entries n)
    \<and> cs_parent (plan_partition n keys s) = cs_parent s"
proof -
  have sealed: "seals_wf blake2s (seal_subtree n keys s)
      \<and> fst ` set (cs_partitions (seal_subtree n keys s)) \<subseteq> fst ` set (cs_partitions s) \<union> fst ` set (node_entries n)
      \<and> cs_parent (seal_subtree n keys s) = cs_parent s"
    if "keys \<noteq> []" "node_wf blake2s n" "seals_wf blake2s s" "bt_ok keys" "length keys < usize_limit"
      "fst ` set (cs_partitions s) \<inter> fst ` set (node_entries n) = {}" for n keys s
  proof -
    have "nd_last_key n \<in> fst ` set (node_entries n)" using node_wf_cache(2) [OF that(2)] by simp
    then show ?thesis
      using that seal_subtree_wf [of blake2s s keys n] by (auto simp: seal_subtree_def)
  qed
  show ?thesis
    using assms
  proof (induction arbitrary: keys s rule: node_wf_induct)
    case (leaf k v)
    then show ?case using sealed [of keys "node_leaf blake2s k v" s] by (auto simp: node_leaf_def)
  next
    case (branch l r)
    let ?kl = "takeWhile (\<lambda>e. fst e \<le> nd_last_key l) keys" and ?kr = "dropWhile (\<lambda>e. fst e \<le> nd_last_key l) keys"
    have ok: "bt_ok (node_entries l)" "bt_ok (node_entries r)"
      and cross: "\<And>a b. a \<in> set (node_entries l) \<Longrightarrow> b \<in> set (node_entries r) \<Longrightarrow> fst a < fst b"
      using branch.prems(1) by (auto simp: sorted_wrt_append)
    have disj: "fst ` set (node_entries l) \<inter> fst ` set (node_entries r) = {}"
    proof -
      have "fst a \<noteq> fst b" if "a \<in> set (node_entries l)" "b \<in> set (node_entries r)" for a b
        using cross [OF that] by (rule less_imp_neq)
      then show ?thesis by blast
    qed
    have keys: "bt_ok ?kl" "bt_ok ?kr" using branch.prems(3) by (simp_all add: takeWhile_sorted [OF branch.prems(3)] bt_ok_filter)
    have len: "length ?kl < usize_limit" "length ?kr < usize_limit"
      using branch.prems(4) length_takeWhile_le [of "\<lambda>e. fst e \<le> nd_last_key l" keys] length_dropWhile_le [of "\<lambda>e. fst e \<le> nd_last_key l" keys]
      by linarith+
    have left: "fst ` set (cs_partitions s) \<inter> fst ` set (node_entries l) = {}"
      using branch.prems(5) unfolding node_branch_simps set_append image_Un by blast
    note ihl = branch.IH(1) [OF ok(1) branch.prems(2) keys(1) len(1) left]
    have right: "fst ` set (cs_partitions (plan_partition l ?kl s)) \<inter> fst ` set (node_entries r) = {}"
      using conjunct1 [OF conjunct2 [OF ihl]] disj branch.prems(5) unfolding node_branch_simps set_append image_Un by blast
    note ihr = branch.IH(2) [OF ok(2) conjunct1 [OF ihl] keys(2) len(2) right]
    show ?case
    proof (cases "keys = [] \<or> nd_count l + nd_count r \<le> 64")
      case True
      then show ?thesis
        using sealed [of keys "node_branch blake2s l r" s] branch by (auto simp: node_branch_def)
    next
      case False
      then have eq: "plan_partition (node_branch blake2s l r) keys s = plan_partition r ?kr (plan_partition l ?kl s)"
        by (simp add: node_branch_def)
      show ?thesis
        unfolding eq node_branch_simps set_append image_Un using ihl ihr by (metis (no_types, lifting) Un_assoc sup.mono dual_order.trans order_refl)
    qed
  qed
qed

lemma plan_writes_ok: "bt_ok lst \<Longrightarrow> plan_writes t i ws lst = Some lst' \<Longrightarrow> bt_ok lst'"
proof (induction t i ws lst rule: plan_writes.induct)
  case (2 t i ks ws lst)
  have "bt_ok lst \<Longrightarrow> plan_keys t i ks lst = Some l \<Longrightarrow> bt_ok l" for l and lst :: "(state_key, nat) btree"
    by (induction t i ks lst rule: plan_keys.induct) (auto split: option.splits)
  with 2 show ?case by (auto split: if_splits option.splits)
qed simp

lemma plan_writes_length:
  "plan_writes t i ws lst = Some lst' \<Longrightarrow> length lst' \<le> length lst + 2 * length ws"
proof (induction t i ws lst rule: plan_writes.induct)
  case (2 t i ks ws lst)
  have len: "length (bt_insert k x m) \<le> Suc (length m)" for k x and m :: "(state_key, nat) btree" by (induction m) auto
  have "plan_keys t i ks lst = Some l \<Longrightarrow> length l \<le> length lst + length ks" for l and lst :: "(state_key, nat) btree"
  proof (induction t i ks lst rule: plan_keys.induct)
    case (2 t i k ks lst)
    then show ?case using len [of k i lst] by (fastforce split: option.splits)
  qed simp
  with 2 show ?case by (fastforce split: if_splits option.splits)
qed simp

lemma plan_seals_wf:
  assumes "bt_ok data" and "plan_seals blake2s (tree_from_map blake2s data) transaction_root writes = Some s"
  shows "seals_wf blake2s s \<and> cs_parent s = tree_hash blake2s (tree_from_map blake2s data)"
proof -
  let ?t = "tree_from_map blake2s data"
  obtain lst n where lst: "plan_writes ?t 0 writes [] = Some lst" "length writes \<le> 8192" and t: "?t = Some n"
    and s: "s = plan_partition n lst \<lparr>cs_parent = tree_hash blake2s ?t, cs_transaction_root = transaction_root,
        cs_partitions = [], cs_writers = [], cs_reused = 0\<rparr>" (is "s = plan_partition n lst ?s0")
    using assms(2) by (auto simp: plan_seals_def split: if_splits option.splits)
  have n: "node_wf blake2s n" "node_entries n = data" using t by (cases rule: tree_from_map_cases [of data blake2s]; simp)+
  have "length lst < usize_limit" using plan_writes_length [OF lst(1)] lst(2) by (simp add: usize_limit_def)
  moreover have "seals_wf blake2s ?s0" by (simp add: seals_wf_def)
  ultimately show ?thesis
    using plan_partition_wf [OF n(1), of ?s0 lst] plan_writes_ok [OF _ lst(1)] assms(1) n(2) by (simp add: s)
qed

end
