(* ===== verification/Astro_Store.thy ===== *)
theory Astro_Store
  imports Astro_State
begin

text \<open>
  The rest of the crate \<open>state\<close>: transport of absence and value proofs (absence.rs,
  value_proof.rs), access leases (lease.rs), account entries (account.rs) and the file-backed
  database with atomic publication (persistent.rs).
\<close>

section \<open>Transport of absence proofs (absence.rs)\<close>

definition ABSENCE_MAGIC :: "byte list" where "ABSENCE_MAGIC = ascii ''ASTABSEN''"
definition ABSENCE_VERSION :: u16 where "ABSENCE_VERSION = 1"
definition MAX_SIBLINGS :: nat where "MAX_SIBLINGS = 20"

definition MAX_ABSENCE_PROOF_BYTES :: nat where
  "MAX_ABSENCE_PROOF_BYTES = 12 + 2 * (33 + MAX_STATE_KEY_BYTES + MAX_STATE_VALUE_BYTES + 32 * MAX_SIBLINGS)"

definition validate_bounds :: "nat \<Rightarrow> nat \<Rightarrow> u64 \<Rightarrow> u64 \<Rightarrow> nat \<Rightarrow> state_error + unit" where
  "validate_bounds key_len value_len index leaf_count sibling_count =
     (if key_len > MAX_STATE_KEY_BYTES \<or> value_len > MAX_STATE_VALUE_BYTES \<or> unat leaf_count > MAX_STATE_ENTRIES
        \<or> sibling_count > MAX_SIBLINGS
      then Err LimitExceeded
      else if leaf_count = 0 \<or> index \<ge> leaf_count then Err Corrupt
      else Ok ())"

definition witness_bounds :: "state_witness \<Rightarrow> state_error + unit" where
  "witness_bounds w = validate_bounds (length (sw_key w)) (length (sw_value w)) (sp_index (sw_proof w))
     (sp_leaf_count (sw_proof w)) (length (sp_siblings (sw_proof w)))"

fun witness_bytes :: "state_witness option \<Rightarrow> byte list" where
  "witness_bytes None = [0]"
| "witness_bytes (Some w) = 1 # state_entry_bytes (sw_key w) (sw_value w)
     @ le_bytes (sp_index (sw_proof w)) @ le_bytes (sp_leaf_count (sw_proof w))
     @ of_nat (length (sp_siblings (sw_proof w))) # concat (map be_bytes (sp_siblings (sw_proof w)))"

definition absence_to_bytes :: "state_absence_proof \<Rightarrow> state_error + byte list" where
  "absence_to_bytes p =
     try_bind (case sa_lower p of None \<Rightarrow> Ok () | Some w \<Rightarrow> witness_bounds w) (\<lambda>_.
     try_bind (case sa_upper p of None \<Rightarrow> Ok () | Some w \<Rightarrow> witness_bounds w) (\<lambda>_.
     Ok (ABSENCE_MAGIC @ le_bytes ABSENCE_VERSION @ witness_bytes (sa_lower p) @ witness_bytes (sa_upper p))))"

function sibling_chunks :: "byte list \<Rightarrow> hash256 list" where
  "sibling_chunks bs = (if length bs < 32 then [] else from_be_bytes (take 32 bs) # sibling_chunks (drop 32 bs))"
  by pat_completeness auto
termination
  by (relation "measure length") auto

declare sibling_chunks.simps [simp del]

definition read_witness :: "decoder \<Rightarrow> state_error + state_witness option \<times> decoder" where
  "read_witness d =
     try_bind (corrupt (read_u8 d)) (\<lambda>(tag, d).
     if tag = 0 then Ok (None, d)
     else if tag \<noteq> 1 then Err Corrupt
     else
     try_bind (state_read_bytes MAX_STATE_KEY_BYTES d) (\<lambda>(key, d).
     try_bind (state_read_bytes MAX_STATE_VALUE_BYTES d) (\<lambda>(val, d).
     try_bind (corrupt (read_u64 d)) (\<lambda>(index, d).
     try_bind (corrupt (read_u64 d)) (\<lambda>(leaf_count, d).
     try_bind (corrupt (read_u8 d)) (\<lambda>(n, d).
     try_bind (validate_bounds (length key) (length val) index leaf_count (unat n)) (\<lambda>_.
     try_bind (corrupt (read_exact (unat n * 32) d)) (\<lambda>(siblings, d).
     Ok (Some \<lparr>sw_key = key, sw_value = val,
               sw_proof = \<lparr>sp_index = index, sp_leaf_count = leaf_count, sp_siblings = sibling_chunks siblings\<rparr>\<rparr>, d)))))))))"

definition absence_from_bytes :: "byte list \<Rightarrow> state_error + state_absence_proof" where
  "absence_from_bytes bytes =
     (if length bytes > MAX_ABSENCE_PROOF_BYTES then Err LimitExceeded
      else
        try_bind (corrupt (read_exact 8 (decoder_new bytes))) (\<lambda>(magic, d).
        if magic \<noteq> ABSENCE_MAGIC then Err Corrupt
        else
        try_bind (corrupt (read_u16 d)) (\<lambda>(version, d).
        if version \<noteq> ABSENCE_VERSION then Err Corrupt
        else
        try_bind (read_witness d) (\<lambda>(lower, d).
        try_bind (read_witness d) (\<lambda>(upper, d).
        try_bind (corrupt (finish d)) (\<lambda>_.
        Ok \<lparr>sa_lower = lower, sa_upper = upper\<rparr>))))))"

section \<open>Value proofs (value\_proof.rs)\<close>

datatype state_value_proof = Present state_witness | Absent state_absence_proof

definition VALUE_PROOF_MAX_BYTES :: nat where
  "VALUE_PROOF_MAX_BYTES = 1 + MAX_ABSENCE_PROOF_BYTES"

definition value_proof_create :: "in_memory_state \<Rightarrow> state_key \<Rightarrow> state_error + state_value_proof" where
  "value_proof_create s key =
     (if length key > MAX_STATE_KEY_BYTES then Err LimitExceeded
      else case tree_get (ms_data s) key of
        Some val \<Rightarrow>
          try_bind (ok_or Corrupt (tree_prove (ms_data s) key)) (\<lambda>proof.
            Ok (Present \<lparr>sw_key = key, sw_value = val, sw_proof = proof\<rparr>))
      | None \<Rightarrow>
          try_bind (tree_prove_absence (ms_data s) key) (\<lambda>p.
          try_bind (ok_or Corrupt p) (\<lambda>p. Ok (Absent p))))"

fun value_proof_verify ::
  "(byte list \<Rightarrow> hash256) \<Rightarrow> state_value_proof \<Rightarrow> hash256 \<Rightarrow> state_key \<Rightarrow> state_error + byte list option" where
  "value_proof_verify blake2s (Present w) root key =
     (if sw_key w = key \<and> state_proof_verify blake2s (sw_proof w) root key (sw_value w) then Ok (Some (sw_value w)) else Err Corrupt)"
| "value_proof_verify blake2s (Absent p) root key = (if absence_verify blake2s p root key then Ok None else Err Corrupt)"

fun value_proof_witnesses :: "state_value_proof \<Rightarrow> state_witness list" where
  "value_proof_witnesses (Present w) = [w]"
| "value_proof_witnesses (Absent p) = (case sa_lower p of None \<Rightarrow> [] | Some w \<Rightarrow> [w]) @ (case sa_upper p of None \<Rightarrow> [] | Some w \<Rightarrow> [w])"

definition witness_fits :: "state_witness \<Rightarrow> bool" where
  "witness_fits w \<longleftrightarrow> \<not> (length (sw_key w) > MAX_STATE_KEY_BYTES \<or> length (sw_value w) > MAX_STATE_VALUE_BYTES
     \<or> length (sp_siblings (sw_proof w)) > 20 \<or> sp_leaf_count (sw_proof w) = 0
     \<or> unat (sp_leaf_count (sw_proof w)) > MAX_STATE_ENTRIES \<or> sp_index (sw_proof w) \<ge> sp_leaf_count (sw_proof w))"

definition value_proof_to_bytes :: "state_value_proof \<Rightarrow> state_error + byte list" where
  "value_proof_to_bytes p =
     (if \<not> list_all witness_fits (value_proof_witnesses p) then Err LimitExceeded
      else
        let (tag, proof) = (case p of Present w \<Rightarrow> (1, \<lparr>sa_lower = Some w, sa_upper = None\<rparr>) | Absent a \<Rightarrow> (0, a)) in
        try_bind (absence_to_bytes proof) (\<lambda>bs. Ok (tag # bs)))"

definition value_proof_from_bytes :: "byte list \<Rightarrow> state_error + state_value_proof" where
  "value_proof_from_bytes bytes =
     (if bytes = [] \<or> length bytes > VALUE_PROOF_MAX_BYTES then Err LimitExceeded
      else
        try_bind (absence_from_bytes (tl bytes)) (\<lambda>proof.
          if hd bytes = 0 then Ok (Absent proof)
          else if hd bytes = 1
          then (case (sa_lower proof, sa_upper proof) of (Some w, None) \<Rightarrow> Ok (Present w) | _ \<Rightarrow> Err Corrupt)
          else Err Corrupt))"

section \<open>Accounts (account.rs)\<close>

definition account_key :: "address \<Rightarrow> state_key" where
  "account_key a = ascii ''astrolune/account/v1/'' @ be_bytes a"

definition read_account :: "(state_key \<Rightarrow> state_error + byte list option) \<Rightarrow> address \<Rightarrow> state_error + account_state option" where
  "read_account snapshot_get a =
     try_bind (snapshot_get (account_key a)) (\<lambda>entry.
       case entry of
         None \<Rightarrow> Ok None
       | Some bytes \<Rightarrow> try_bind (corrupt (decode_account bytes)) (\<lambda>account. Ok (Some account)))"

section \<open>Leases (lease.rs)\<close>

datatype access_mode = ReadMode | WriteMode

record access_request =
  ar_key :: state_key
  ar_mode :: access_mode

record state_lease =
  sl_requests :: "access_request list"

definition merge_mode :: "access_request \<Rightarrow> (state_key, access_mode) btree \<Rightarrow> (state_key, access_mode) btree" where
  "merge_mode r modes =
     (case bt_get modes (ar_key r) of
        None \<Rightarrow> bt_insert (ar_key r) (ar_mode r) modes
      | Some mode \<Rightarrow> bt_insert (ar_key r) (if ar_mode r = WriteMode then WriteMode else mode) modes)"

definition lease_new :: "access_request list \<Rightarrow> state_lease" where
  "lease_new requests =
     \<lparr>sl_requests = map (\<lambda>(key, mode). \<lparr>ar_key = key, ar_mode = mode\<rparr>) (fold merge_mode requests [])\<rparr>"

definition lease_covers :: "state_lease \<Rightarrow> state_key \<Rightarrow> access_mode \<Rightarrow> bool" where
  "lease_covers l key mode \<longleftrightarrow> list_ex (\<lambda>r. ar_key r = key \<and> (ar_mode r = WriteMode \<or> ar_mode r = mode)) (sl_requests l)"

definition conflicts_with :: "state_lease \<Rightarrow> state_lease \<Rightarrow> bool" where
  "conflicts_with l other \<longleftrightarrow>
     list_ex (\<lambda>a. list_ex (\<lambda>b. ar_key a = ar_key b \<and> (ar_mode a = WriteMode \<or> ar_mode b = WriteMode)) (sl_requests other)) (sl_requests l)"

definition has_writes :: "state_lease \<Rightarrow> bool" where
  "has_writes l \<longleftrightarrow> list_ex (\<lambda>r. ar_mode r = WriteMode) (sl_requests l)"

definition write_keys :: "state_lease \<Rightarrow> state_key list" where
  "write_keys l = map ar_key (filter (\<lambda>r. ar_mode r = WriteMode) (sl_requests l))"

section \<open>The file-backed database (persistent.rs)\<close>

text \<open>
  The directory holds the published snapshot and the staging file \<open>.pending\<close>. A file has its bytes and whether they have been
  synchronized: after a power loss a file that was not synchronized may hold anything. A rename is visible at once and
  survives a power loss only after the directory has been synchronized; until then the published name may fall back to an
  entry it had before. \<open>dk_unsynced\<close> lists these entries, the latest first. Each system call of \<open>publish\<close> may
  fail; a write may leave any prefix. \<open>pe_remove\<close> is false if a staging file of an earlier process cannot be removed;
  \<open>pe_cleanup\<close> tells whether the removal of the staging file after a failure happens. \<open>pe_sync_parent\<close> is the
  outcome of \<open>sync_parent\<close> on Unix.
\<close>

record disk_file =
  df_bytes :: "byte list"
  df_synced :: bool

record disk =
  dk_published :: "disk_file option"
  dk_pending :: "disk_file option"
  dk_unsynced :: "disk_file option list"

record publish_env =
  pe_remove :: bool
  pe_create :: bool
  pe_write :: "nat option"
  pe_sync :: bool
  pe_rename :: bool
  pe_cleanup :: bool
  pe_sync_parent :: bool

record file_state =
  fs_state :: in_memory_state
  fs_recovery_required :: bool

definition remove_pending :: "bool \<Rightarrow> disk \<Rightarrow> disk" where
  "remove_pending ok dk = (if ok then dk\<lparr>dk_pending := None\<rparr> else dk)"

definition rename_pending :: "disk \<Rightarrow> disk" where
  "rename_pending dk = dk\<lparr>dk_published := dk_pending dk, dk_pending := None, dk_unsynced := dk_published dk # dk_unsynced dk\<rparr>"

definition sync_parent :: "bool \<Rightarrow> disk \<Rightarrow> disk" where
  "sync_parent ok dk = (if ok then dk\<lparr>dk_unsynced := []\<rparr> else dk)"

text \<open>
  Writing the staging file and renaming it; \<open>pe_write = Some n\<close> cuts the write after \<open>n\<close> bytes. The bytes are synchronized
  exactly if \<open>sync_all\<close> succeeds.
\<close>

definition publish_file :: "publish_env \<Rightarrow> byte list \<Rightarrow> disk \<Rightarrow> (state_error + unit) \<times> disk" where
  "publish_file env bytes dk =
     (if \<not> pe_create env then (Err StateIo, dk)
      else case pe_write env of
        Some n \<Rightarrow> (Err StateIo, dk\<lparr>dk_pending := Some \<lparr>df_bytes = take n bytes, df_synced = False\<rparr>\<rparr>)
      | None \<Rightarrow>
          let dk1 = dk\<lparr>dk_pending := Some \<lparr>df_bytes = bytes, df_synced = pe_sync env\<rparr>\<rparr> in
          if \<not> pe_sync env then (Err StateIo, dk1)
          else if \<not> pe_rename env then (Err StateIo, dk1)
          else (Ok (), rename_pending dk1))"

definition publish :: "publish_env \<Rightarrow> file_state \<Rightarrow> in_memory_state \<Rightarrow> disk \<Rightarrow> (state_error + unit) \<times> file_state \<times> disk" where
  "publish env db st dk =
     (if fs_recovery_required db then (Err StateDurabilityUnknown, db, dk)
      else if \<not> pe_remove env then (Err StateIo, db, dk)
      else
        case publish_file env (export_snapshot st) (dk\<lparr>dk_pending := None\<rparr>) of
          (Inl e, dk1) \<Rightarrow> (Err e, db, remove_pending (pe_cleanup env) dk1)
        | (Inr _, dk1) \<Rightarrow>
            let dk2 = sync_parent (pe_sync_parent env) dk1 in
            if \<not> pe_sync_parent env
            then (Err StateDurabilityUnknown, db\<lparr>fs_state := st, fs_recovery_required := True\<rparr>, dk2)
            else (Ok (), db\<lparr>fs_state := st\<rparr>, dk2))"

datatype lock_result = LockAcquired | LockWouldBlock | LockFailed

text \<open>What the file system answers to \<open>open\<close>.\<close>

record open_env =
  oe_canonical :: bool
  oe_symlink :: bool
  oe_lock_file :: bool
  oe_lock :: lock_result
  oe_open :: bool
  oe_read :: bool
  oe_publish :: publish_env

definition file_open :: "(byte list \<Rightarrow> hash256) \<Rightarrow> open_env \<Rightarrow> disk \<Rightarrow> (state_error + file_state) \<times> disk" where
  "file_open blake2s env dk =
     (if \<not> oe_canonical env then (Err StateIo, dk)
      else if oe_symlink env then (Err StateIo, dk)
      else if \<not> oe_lock_file env then (Err StateIo, dk)
      else case oe_lock env of
        LockWouldBlock \<Rightarrow> (Err StateLocked, dk)
      | LockFailed \<Rightarrow> (Err StateIo, dk)
      | LockAcquired \<Rightarrow>
          if \<not> oe_open env then (Err StateIo, dk)
          else case dk_published dk of
            Some file \<Rightarrow>
              if \<not> oe_read env then (Err StateIo, dk)
              else (case decode_snapshot blake2s (take (MAX_SNAPSHOT_BYTES + 1) (df_bytes file)) of
                      Inl e \<Rightarrow> (Err e, dk)
                    | Inr s \<Rightarrow> (Ok \<lparr>fs_state = s, fs_recovery_required = False\<rparr>, dk))
          | None \<Rightarrow>
              (case publish (oe_publish env) \<lparr>fs_state = state_new blake2s, fs_recovery_required = False\<rparr> (state_new blake2s) dk of
                 (Inl e, _, dk') \<Rightarrow> (Err e, dk')
               | (Inr _, db, dk') \<Rightarrow> (Ok db, dk')))"

definition file_commit ::
  "(byte list \<Rightarrow> hash256) \<Rightarrow> publish_env \<Rightarrow> file_state \<Rightarrow> hash256 \<Rightarrow> state_diff list \<Rightarrow> disk
   \<Rightarrow> (state_error + hash256) \<times> file_state \<times> disk" where
  "file_commit blake2s env db parent diffs dk =
     (case state_prepare blake2s (fs_state db) parent diffs of
        Inl e \<Rightarrow> (Err e, db, dk)
      | Inr st \<Rightarrow>
          (case publish env db st dk of
             (Inl e, db', dk') \<Rightarrow> (Err e, db', dk')
           | (Inr _, db', dk') \<Rightarrow> (Ok (ms_root (fs_state db')), db', dk')))"

definition file_commit_verified ::
  "(byte list \<Rightarrow> hash256) \<Rightarrow> publish_env \<Rightarrow> file_state \<Rightarrow> hash256 \<Rightarrow> state_diff list \<Rightarrow> hash256 \<Rightarrow> disk
   \<Rightarrow> (state_error + hash256) \<times> file_state \<times> disk" where
  "file_commit_verified blake2s env db parent diffs expected dk =
     (case state_prepare blake2s (fs_state db) parent diffs of
        Inl e \<Rightarrow> (Err e, db, dk)
      | Inr st \<Rightarrow>
          if ms_root st \<noteq> expected then (Err RootMismatch, db, dk)
          else
            (case publish env db st dk of
               (Inl e, db', dk') \<Rightarrow> (Err e, db', dk')
             | (Inr _, db', dk') \<Rightarrow> (Ok (ms_root (fs_state db')), db', dk')))"

section \<open>Value proofs tell the truth\<close>

lemma value_proof_create_verifies:
  assumes "state_ok blake2s s" and "length key \<le> MAX_STATE_KEY_BYTES"
  shows "\<exists>p. value_proof_create s key = Ok p \<and> value_proof_verify blake2s p (ms_root s) key = Ok (bt_get (state_map s) key)"
proof -
  obtain data where data: "map_bounded data" "s = state_of blake2s data" using assms(1) by (auto simp: state_ok_def)
  note ok = map_boundedD(1) [OF data(1)]
  show ?thesis
  proof (cases "bt_get data key")
    case None
    then have "key \<notin> fst ` set data" by (simp only: bt_get_None_iff not_False_eq_True)
    then obtain p where "tree_prove_absence (tree_from_map blake2s data) key = Ok (Some p)"
        "absence_verify blake2s p (tree_hash blake2s (tree_from_map blake2s data)) key"
      using tree_prove_absence_complete [OF data(1) assms(2), of blake2s] by auto
    then show ?thesis using None assms(2) ok by (simp add: data(2) value_proof_create_def)
  next
    case (Some v)
    then obtain p where "tree_prove (tree_from_map blake2s data) key = Some p"
        "state_proof_verify blake2s p (tree_hash blake2s (tree_from_map blake2s data)) key v"
      using tree_prove_complete [OF data(1), of blake2s key] by auto
    then show ?thesis using Some assms(2) ok by (simp add: data(2) value_proof_create_def)
  qed
qed

fun value_proof_messages :: "(byte list \<Rightarrow> hash256) \<Rightarrow> state_value_proof \<Rightarrow> byte list list" where
  "value_proof_messages blake2s (Present w) = proof_messages blake2s (sw_proof w) (sw_key w) (sw_value w)"
| "value_proof_messages blake2s (Absent p) = absence_messages blake2s p"

lemma value_proof_verify_sound:
  assumes "state_ok blake2s s" and "value_proof_verify blake2s p (ms_root s) key = Ok r"
    and "inj_on blake2s (set (tree_messages blake2s (state_map s)) \<union> set (value_proof_messages blake2s p))"
  shows "r = bt_get (state_map s) key"
proof -
  obtain data where data: "map_bounded data" "s = state_of blake2s data" using assms(1) by (auto simp: state_ok_def)
  show ?thesis
  proof (cases p)
    case (Present w)
    then have w: "sw_key w = key" "r = Some (sw_value w)"
        "state_proof_verify blake2s (sw_proof w) (tree_hash blake2s (tree_from_map blake2s data)) key (sw_value w)"
      using assms(2) by (auto simp: data(2) split: if_splits)
    then have "(key, sw_value w) \<in> set data"
      using state_proof_sound [OF data(1) w(3)] assms(3) nth_mem by (fastforce simp: Present data(2))
    then have "bt_get data key = Some (sw_value w)" by (simp add: bt_get_Some_iff [OF map_boundedD(1) [OF data(1)]])
    then show ?thesis using w(2) by (simp add: data(2))
  next
    case (Absent a)
    then show ?thesis
      using assms(2,3) absence_sound [OF data(1), of blake2s a key] by (auto simp: data(2) split: if_splits)
  qed
qed

section \<open>The transport is canonical\<close>

lemma sibling_chunks_bytes: "sibling_chunks (concat (map be_bytes hs)) = hs"
  by (induction hs) (simp_all add: sibling_chunks.simps)

lemma bytes_sibling_chunks:
  "length bs = n * 32 \<Longrightarrow> length (sibling_chunks bs) = n \<and> concat (map be_bytes (sibling_chunks bs)) = bs"
proof (induction n arbitrary: bs)
  case 0
  then show ?case by (simp add: sibling_chunks.simps)
next
  case (Suc n)
  have "be_bytes (from_be_bytes (take 32 bs) :: hash256) = take 32 bs"
    using Suc.prems by (simp add: be_from_be_bytes)
  then show ?case using Suc.IH [of "drop 32 bs"] Suc.prems by (subst (1 2) sibling_chunks.simps) simp
qed

abbreviation optional_fits :: "state_witness option \<Rightarrow> bool" where
  "optional_fits w \<equiv> (case w of None \<Rightarrow> True | Some w \<Rightarrow> witness_fits w)"

lemma witness_bounds_Ok [simp]: "witness_bounds w = Ok u \<longleftrightarrow> witness_fits w"
  by (auto simp: witness_bounds_def validate_bounds_def witness_fits_def MAX_SIBLINGS_def)

lemma absence_to_bytes_Ok:
  "absence_to_bytes p = Ok bs \<longleftrightarrow> optional_fits (sa_lower p) \<and> optional_fits (sa_upper p)
    \<and> bs = ABSENCE_MAGIC @ le_bytes ABSENCE_VERSION @ witness_bytes (sa_lower p) @ witness_bytes (sa_upper p)"
  by (auto simp: absence_to_bytes_def result_simps split: option.splits)

lemma read_witness_sound:
  assumes "read_witness d = Ok (w, d')"
  shows "optional_fits w \<and> rest d = witness_bytes w @ rest d'"
proof -
  obtain tag d1 where tag: "read_u8 d = Ok (tag, d1)" and tag01: "tag = 0 \<or> tag = 1"
    using assms by (auto simp: read_witness_def result_simps split: if_splits)
  note r1 = read_u8_sound [OF tag]
  show ?thesis
  proof (cases "tag = 0")
    case True
    then show ?thesis using assms tag r1 by (simp add: read_witness_def)
  next
    case False
    then have "tag = 1" using tag01 by simp
    then obtain key d2 val d3 index d4 leaf_count d5 n d6 sib
      where key: "state_read_bytes MAX_STATE_KEY_BYTES d1 = Ok (key, d2)" and val: "state_read_bytes MAX_STATE_VALUE_BYTES d2 = Ok (val, d3)"
        and index: "read_u64 d3 = Ok (index, d4)" and leaf_count: "read_u64 d4 = Ok (leaf_count, d5)" and n: "read_u8 d5 = Ok (n, d6)"
        and ok: "validate_bounds (length key) (length val) index leaf_count (unat n) = Ok ()"
        and sib: "read_exact (unat n * 32) d6 = Ok (sib, d')"
        and w: "w = Some \<lparr>sw_key = key, sw_value = val, sw_proof = \<lparr>sp_index = index, sp_leaf_count = leaf_count, sp_siblings = sibling_chunks sib\<rparr>\<rparr>"
      using assms tag by (auto simp: read_witness_def result_simps)
    have chunks: "length (sibling_chunks sib) = unat n" "concat (map be_bytes (sibling_chunks sib)) = sib"
      using bytes_sibling_chunks [of sib "unat n"] read_exact_sound [OF sib] by simp_all
    have "witness_fits (the w)"
      using ok by (auto simp: w witness_fits_def validate_bounds_def chunks MAX_SIBLINGS_def split: if_splits)
    moreover have "rest d = witness_bytes w @ rest d'"
      using r1 \<open>tag = 1\<close> state_read_bytes_sound [OF key] state_read_bytes_sound [OF val] read_u64_sound [OF index]
        read_u64_sound [OF leaf_count] read_u8_sound [OF n] read_exact_sound [OF sib]
      by (simp add: w chunks state_entry_bytes_def)
    ultimately show ?thesis by (simp add: w)
  qed
qed

lemma read_witness_at:
  assumes "optional_fits w" and "length pre + length (witness_bytes w) < usize_limit"
  shows "read_witness (dec_at pre (witness_bytes w @ post)) = Ok (w, dec_at (pre @ witness_bytes w) post)"
proof (cases w)
  case None
  then show ?thesis using assms(2) by (simp add: read_witness_def)
next
  case (Some x)
  let ?p = "sw_proof x"
  let ?sib = "concat (map be_bytes (sp_siblings ?p))"
  have lens: "length ?sib = length (sp_siblings ?p) * 32" by (simp add: length_concat comp_def sum_list_triv)
  have fits: "entry_bounded (sw_key x, sw_value x)" "length (sp_siblings ?p) \<le> 20"
      "unat (of_nat (length (sp_siblings ?p)) :: u8) = length (sp_siblings ?p)"
    using assms(1) by (simp_all add: Some witness_fits_def entry_bounded_def unat_of_nat take_bit_nat_eq_self)
  have ok: "validate_bounds (length (sw_key x)) (length (sw_value x)) (sp_index ?p) (sp_leaf_count ?p) (length (sp_siblings ?p)) = Ok ()"
    using assms(1) by (simp add: Some witness_fits_def validate_bounds_def MAX_SIBLINGS_def)
  have len: "length pre + (34 + length (sw_key x) + length (sw_value x) + length ?sib) < usize_limit"
    using assms(2) by (simp add: Some state_entry_bytes_def)
  have sib: "read_exact (length (sp_siblings ?p) * 32) (dec_at q (?sib @ post)) = Ok (?sib, dec_at (q @ ?sib) post)"
    if "length q + length ?sib < usize_limit" for q
    using read_exact_at [of ?sib "length (sp_siblings ?p) * 32" q post] that lens by simp
  show ?thesis
    using read_entry_at [OF fits(1), of "pre @ [1]"] len ok
    by (simp add: Some read_witness_def fits(3) sib sibling_chunks_bytes state_entry_bytes_def)
qed

lemma length_witness_bytes:
  assumes "optional_fits w"
  shows "length (witness_bytes w) \<le> 34 + MAX_STATE_KEY_BYTES + MAX_STATE_VALUE_BYTES + 32 * MAX_SIBLINGS"
  using assms
  by (auto simp: witness_fits_def state_entry_bytes_def length_concat comp_def sum_list_triv MAX_SIBLINGS_def split: option.splits)

lemma absence_codec:
  "absence_from_bytes bs = Ok p \<longleftrightarrow> absence_to_bytes p = Ok bs"
proof
  assume "absence_from_bytes bs = Ok p"
  then obtain d1 d2 d3 d4 where magic: "read_exact 8 (decoder_new bs) = Ok (ABSENCE_MAGIC, d1)" and version: "read_u16 d1 = Ok (ABSENCE_VERSION, d2)"
    and lower: "read_witness d2 = Ok (sa_lower p, d3)" and upper: "read_witness d3 = Ok (sa_upper p, d4)" and fin: "finish d4 = Ok ()"
    by (auto simp: absence_from_bytes_def result_simps split: if_splits)
  then show "absence_to_bytes p = Ok bs"
    using read_exact_sound [OF magic] read_u16_sound [OF version] read_witness_sound [OF lower] read_witness_sound [OF upper]
    by (simp add: absence_to_bytes_Ok finish_Ok)
next
  assume "absence_to_bytes p = Ok bs"
  then have fits: "optional_fits (sa_lower p)" "optional_fits (sa_upper p)"
    and bs: "bs = ABSENCE_MAGIC @ le_bytes ABSENCE_VERSION @ witness_bytes (sa_lower p) @ witness_bytes (sa_upper p)"
    by (simp_all add: absence_to_bytes_Ok)
  have len: "length (witness_bytes (sa_lower p)) \<le> 34 + MAX_STATE_KEY_BYTES + MAX_STATE_VALUE_BYTES + 32 * MAX_SIBLINGS"
      "length (witness_bytes (sa_upper p)) \<le> 34 + MAX_STATE_KEY_BYTES + MAX_STATE_VALUE_BYTES + 32 * MAX_SIBLINGS"
    using fits by (simp_all only: length_witness_bytes)
  have magic: "length ABSENCE_MAGIC = 8" by (simp add: ABSENCE_MAGIC_def)
  have fit: "length bs \<le> MAX_ABSENCE_PROOF_BYTES" using len magic by (simp add: bs MAX_ABSENCE_PROOF_BYTES_def)
  have small: "length bs < usize_limit"
    using len magic by (simp add: bs usize_limit_def MAX_STATE_KEY_BYTES_def MAX_STATE_VALUE_BYTES_def MAX_SIBLINGS_def)
  show "absence_from_bytes bs = Ok p"
    using fit small read_witness_at [OF fits(1), of "ABSENCE_MAGIC @ le_bytes ABSENCE_VERSION" "witness_bytes (sa_upper p)"]
      read_witness_at [OF fits(2), of "ABSENCE_MAGIC @ le_bytes ABSENCE_VERSION @ witness_bytes (sa_lower p)" "[]"] magic
    unfolding absence_from_bytes_def bs decoder_new_dec_at by simp
qed

lemma value_proof_codec:
  "value_proof_from_bytes bs = Ok p \<longleftrightarrow> value_proof_to_bytes p = Ok bs"
proof -
  have fits: "list_all witness_fits (value_proof_witnesses (Absent a)) \<longleftrightarrow> optional_fits (sa_lower a) \<and> optional_fits (sa_upper a)" for a
    by (auto split: option.splits)
  have len: "length cs \<le> MAX_ABSENCE_PROOF_BYTES" if "absence_from_bytes cs = Ok a" for cs a
    using that by (auto simp: absence_from_bytes_def split: if_splits)
  show ?thesis
  proof (cases bs)
    case Nil
    then show ?thesis
      by (auto simp: value_proof_from_bytes_def value_proof_to_bytes_def result_simps Let_def split: if_splits prod.splits)
  next
    case (Cons tag cs)
    show ?thesis
    proof (cases p)
      case (Present w)
      have "absence_from_bytes cs = Ok \<lparr>sa_lower = Some w, sa_upper = None\<rparr> \<longleftrightarrow> absence_to_bytes \<lparr>sa_lower = Some w, sa_upper = None\<rparr> = Ok cs"
        by (rule absence_codec)
      moreover have "value_proof_from_bytes bs = Ok p \<longleftrightarrow> tag = 1 \<and> absence_from_bytes cs = Ok \<lparr>sa_lower = Some w, sa_upper = None\<rparr>"
        using len [of cs] by (cases "absence_from_bytes cs")
          (auto simp: Cons Present value_proof_from_bytes_def VALUE_PROOF_MAX_BYTES_def split: option.splits)
      moreover have "value_proof_to_bytes p = Ok bs \<longleftrightarrow> tag = 1 \<and> absence_to_bytes \<lparr>sa_lower = Some w, sa_upper = None\<rparr> = Ok cs"
        by (auto simp: Cons Present value_proof_to_bytes_def result_simps absence_to_bytes_Ok split: if_splits)
      ultimately show ?thesis by simp
    next
      case (Absent a)
      have "absence_from_bytes cs = Ok a \<longleftrightarrow> absence_to_bytes a = Ok cs" by (rule absence_codec)
      then show ?thesis using len [of cs a] fits [of a]
        by (auto simp: Cons Absent value_proof_from_bytes_def value_proof_to_bytes_def VALUE_PROOF_MAX_BYTES_def result_simps
            absence_to_bytes_Ok split: if_splits option.splits)
    qed
  qed
qed

section \<open>Leases\<close>

lemma fold_merge_mode:
  assumes "bt_ok modes"
  shows "bt_ok (fold merge_mode rs modes)
    \<and> (bt_get (fold merge_mode rs modes) k = Some WriteMode \<longleftrightarrow> bt_get modes k = Some WriteMode \<or> (\<exists>r \<in> set rs. ar_key r = k \<and> ar_mode r = WriteMode))
    \<and> (bt_get (fold merge_mode rs modes) k \<noteq> None \<longleftrightarrow> bt_get modes k \<noteq> None \<or> (\<exists>r \<in> set rs. ar_key r = k))"
  using assms
proof (induction rs arbitrary: modes)
  case (Cons r rs)
  have "bt_ok (merge_mode r modes)" using Cons.prems by (simp add: merge_mode_def split: option.splits)
  note ih = Cons.IH [OF this]
  have "bt_get (merge_mode r modes) k = Some WriteMode \<longleftrightarrow> bt_get modes k = Some WriteMode \<or> ar_key r = k \<and> ar_mode r = WriteMode"
      "bt_get (merge_mode r modes) k \<noteq> None \<longleftrightarrow> bt_get modes k \<noteq> None \<or> ar_key r = k"
    by (auto simp: merge_mode_def split: option.splits)
  with ih show ?case by auto
qed simp

text \<open>A lease covers exactly what was requested, a write request covering reads too.\<close>

lemma lease_covers_new:
  "lease_covers (lease_new rs) key mode \<longleftrightarrow> (\<exists>r \<in> set rs. ar_key r = key \<and> (ar_mode r = WriteMode \<or> mode = ReadMode))"
proof -
  let ?m = "fold merge_mode rs []"
  note ok = fold_merge_mode [of "[]" rs key]
  have "lease_covers (lease_new rs) key mode \<longleftrightarrow> (\<exists>x. (key, x) \<in> set ?m \<and> (x = WriteMode \<or> x = mode))"
    by (auto simp: lease_covers_def lease_new_def list_ex_iff intro!: bexI [of _ "(key, _)"])
  also have "\<dots> \<longleftrightarrow> (\<exists>x. bt_get ?m key = Some x \<and> (x = WriteMode \<or> x = mode))"
    using ok by (simp add: bt_get_Some_iff)
  also have "\<dots> \<longleftrightarrow> (\<exists>r \<in> set rs. ar_key r = key \<and> (ar_mode r = WriteMode \<or> mode = ReadMode))"
    using ok by (cases mode; cases "bt_get ?m key") (auto, (metis access_mode.exhaust)+)
  finally show ?thesis .
qed

end
