(* ===== verification/Astro_Transaction.thy ===== *)
theory Astro_Transaction
  imports Astro_Codec Astro_BTree Astro_Crypto "HOL-Library.List_Lexorder"
begin

text \<open>
  The crate \<open>transaction\<close>: envelopes, payment and contract payloads, signing hashes, and the
  validators. Encoding a list longer than the wire format allows panics; the digests of such
  transactions are unspecified, and the validators reject them first.
\<close>

section \<open>Errors (error.rs) and signing (signing.rs)\<close>

datatype transaction_error =
    InvalidEnvelope | WrongChain | Expired | UnknownSender | InvalidNonce | InsufficientResources
  | TxInvalidSignature | UnsupportedPayload

definition address_from_public_key :: "(byte list \<Rightarrow> hash256) \<Rightarrow> bytes32 \<Rightarrow> address" where
  "address_from_public_key blake2s public_key = domain_hash blake2s DOMAIN_ACCOUNT_ADDRESS (be_bytes public_key)"

definition signing_hash :: "(byte list \<Rightarrow> hash256) \<Rightarrow> transaction \<Rightarrow> hash256" where
  "signing_hash blake2s tx = domain_hash blake2s DOMAIN_TRANSACTION (the (encode_unsigned_transaction tx))"

definition compute_tx_id :: "(byte list \<Rightarrow> hash256) \<Rightarrow> transaction \<Rightarrow> hash256" where
  "compute_tx_id blake2s tx = domain_hash blake2s DOMAIN_TRANSACTION_ID (the (encode_transaction tx))"

section \<open>Envelopes (envelope.rs)\<close>

record envelope =
  env_transaction :: transaction
  env_signature :: bytes64

definition envelope_new :: "transaction \<Rightarrow> bytes64 \<Rightarrow> envelope" where
  "envelope_new tx sig = \<lparr>env_transaction = tx\<lparr>tx_signature := sig\<rparr>, env_signature = sig\<rparr>"

definition envelope_id :: "(byte list \<Rightarrow> hash256) \<Rightarrow> envelope \<Rightarrow> hash256" where
  "envelope_id blake2s e = compute_tx_id blake2s ((env_transaction e)\<lparr>tx_signature := env_signature e\<rparr>)"

definition is_well_formed :: "envelope \<Rightarrow> bool" where
  "is_well_formed e \<longleftrightarrow> tx_version (env_transaction e) = TRANSACTION_VERSION \<and> env_signature e \<noteq> 0
     \<and> env_signature e = tx_signature (env_transaction e) \<and> tx_chain_id (env_transaction e) \<noteq> 0
     \<and> tx_sender (env_transaction e) \<noteq> 0"

section \<open>Payments (payment.rs)\<close>

definition PAYMENT_TAG :: "byte list" where "PAYMENT_TAG = ascii ''ALPAY001''"

record payment =
  pay_public_key :: bytes32
  pay_recipient :: address
  pay_amount :: u64

definition PAYMENT_ENCODED_LEN :: nat where "PAYMENT_ENCODED_LEN = 80"

definition payment_to_bytes :: "payment \<Rightarrow> byte list" where
  "payment_to_bytes p = PAYMENT_TAG @ be_bytes (pay_public_key p) @ be_bytes (pay_recipient p) @ le_bytes (pay_amount p)"

definition payment_decode :: "byte list \<Rightarrow> transaction_error + payment" where
  "payment_decode bytes =
     (if length bytes \<noteq> PAYMENT_ENCODED_LEN \<or> take 8 bytes \<noteq> PAYMENT_TAG then Err UnsupportedPayload
      else
        let public_key = from_be_bytes (take 32 (drop 8 bytes));
            recipient = from_be_bytes (take 32 (drop 40 bytes));
            amount = from_le_bytes (take 8 (drop 72 bytes)) in
        if recipient = 0 \<or> amount = 0 then Err UnsupportedPayload
        else Ok \<lparr>pay_public_key = public_key, pay_recipient = recipient, pay_amount = amount\<rparr>)"

section \<open>Contract payloads (contract.rs)\<close>

definition MAX_CONTRACT_CODE :: nat where "MAX_CONTRACT_CODE = 1000000"
definition MAX_CONTRACT_KEYS :: nat where "MAX_CONTRACT_KEYS = 1024"
definition MAX_TROCTO_SOURCE :: nat where "MAX_TROCTO_SOURCE = 65536"

datatype contract_action =
    Deploy "byte list"
  | Call address "byte list" "byte list list"
  | DeployTrocto "byte list"
  | CallTrocto address "byte list" "byte list list"

record contract_payload =
  cp_public_key :: bytes32
  cp_action :: contract_action

text \<open>A length above the range of \<open>u32\<close> panics.\<close>

definition contract_encode_bytes :: "byte list \<Rightarrow> byte list option" where
  "contract_encode_bytes bs = (if length bs < 2 ^ 32 then Some (le_bytes (of_nat (length bs) :: u32) @ bs) else None)"

fun contract_encode_keys :: "byte list list \<Rightarrow> byte list option" where
  "contract_encode_keys [] = Some []"
| "contract_encode_keys (k # ks) =
     Option.bind (contract_encode_bytes k) (\<lambda>b. Option.bind (contract_encode_keys ks) (\<lambda>bs. Some (b @ bs)))"

definition encode_call :: "address \<Rightarrow> byte list \<Rightarrow> byte list list \<Rightarrow> byte list option" where
  "encode_call address inp ks =
     (if length ks < 2 ^ 32
      then Option.bind (contract_encode_bytes inp) (\<lambda>i. Option.bind (contract_encode_keys ks) (\<lambda>kb.
        Some (1 # be_bytes address @ i @ le_bytes (of_nat (length ks) :: u32) @ kb)))
      else None)"

definition is_native :: "contract_action \<Rightarrow> bool" where
  "is_native a = (case a of DeployTrocto _ \<Rightarrow> True | CallTrocto _ _ _ \<Rightarrow> True | _ \<Rightarrow> False)"

fun encode_action :: "contract_action \<Rightarrow> byte list option" where
  "encode_action (Deploy code) = map_option ((#) 0) (contract_encode_bytes code)"
| "encode_action (DeployTrocto code) = map_option ((#) 0) (contract_encode_bytes code)"
| "encode_action (Call address inp ks) = encode_call address inp ks"
| "encode_action (CallTrocto address inp ks) = encode_call address inp ks"

definition contract_to_bytes :: "contract_payload \<Rightarrow> byte list option" where
  "contract_to_bytes p = map_option (\<lambda>a.
     ascii (if is_native (cp_action p) then ''ALCON003'' else ''ALCON002'') @ be_bytes (cp_public_key p) @ a)
     (encode_action (cp_action p))"

definition contract_decode_bytes :: "nat \<Rightarrow> decoder \<Rightarrow> decode_error + byte list \<times> decoder" where
  "contract_decode_bytes mx d =
     try_bind (read_u32 d) (\<lambda>(n, d). if unat n > mx then Err LimitExceeded else read_exact (unat n) d)"

fun contract_read_keys :: "nat \<Rightarrow> byte list option \<Rightarrow> decoder \<Rightarrow> decode_error + byte list list \<times> decoder" where
  "contract_read_keys 0 previous d = Ok ([], d)"
| "contract_read_keys (Suc n) previous d =
     try_bind (contract_decode_bytes 256 d) (\<lambda>(key, d).
     if key = [] \<or> (case previous of None \<Rightarrow> False | Some p \<Rightarrow> p \<ge> key) then Err NonCanonical
     else try_bind (contract_read_keys n (Some key) d) (\<lambda>(ks, d). Ok (key # ks, d)))"

text \<open>The validity of UTF-8 text, as \<open>std::str::from_utf8\<close> checks it.\<close>

definition utf8_cont :: "byte \<Rightarrow> bool" where
  "utf8_cont b \<longleftrightarrow> 0x80 \<le> b \<and> b \<le> 0xBF"

fun utf8_valid :: "byte list \<Rightarrow> bool" where
  "utf8_valid [] \<longleftrightarrow> True"
| "utf8_valid (a # bs) \<longleftrightarrow>
     (if a < 0x80 then utf8_valid bs
      else if 0xC2 \<le> a \<and> a \<le> 0xDF
      then (case bs of b # cs \<Rightarrow> utf8_cont b \<and> utf8_valid cs | [] \<Rightarrow> False)
      else if 0xE0 \<le> a \<and> a \<le> 0xEF
      then (case bs of
              b # c # cs \<Rightarrow> (if a = 0xE0 then 0xA0 \<le> b \<and> b \<le> 0xBF else if a = 0xED then 0x80 \<le> b \<and> b \<le> 0x9F else utf8_cont b)
                \<and> utf8_cont c \<and> utf8_valid cs
            | _ \<Rightarrow> False)
      else if 0xF0 \<le> a \<and> a \<le> 0xF4
      then (case bs of
              b # c # d # cs \<Rightarrow> (if a = 0xF0 then 0x90 \<le> b \<and> b \<le> 0xBF else if a = 0xF4 then 0x80 \<le> b \<and> b \<le> 0x8F else utf8_cont b)
                \<and> utf8_cont c \<and> utf8_cont d \<and> utf8_valid cs
            | _ \<Rightarrow> False)
      else False)"

definition decode_deploy :: "bool \<Rightarrow> decoder \<Rightarrow> decode_error + contract_action \<times> decoder" where
  "decode_deploy native d =
     try_bind (contract_decode_bytes (if native then MAX_TROCTO_SOURCE else MAX_CONTRACT_CODE) d) (\<lambda>(code, d).
     if code = [] then Err NonCanonical
     else if native then (if utf8_valid code then Ok (DeployTrocto code, d) else Err NonCanonical)
     else Ok (Deploy code, d))"

definition decode_call :: "bool \<Rightarrow> decoder \<Rightarrow> decode_error + contract_action \<times> decoder" where
  "decode_call native d =
     try_bind (read_fixed d) (\<lambda>(address, d).
     if address = 0 then Err NonCanonical
     else
     try_bind (contract_decode_bytes 65536 d) (\<lambda>(inp, d).
     if native \<and> length inp \<noteq> 8 then Err NonCanonical
     else
     try_bind (read_u32 d) (\<lambda>(cnt, d).
     if unat cnt > MAX_CONTRACT_KEYS \<or> unat cnt > remaining d div 5 then Err LimitExceeded
     else
     try_bind (contract_read_keys (unat cnt) None d) (\<lambda>(ks, d).
     Ok (if native then CallTrocto address inp ks else Call address inp ks, d)))))"

definition contract_decode_inner :: "byte list \<Rightarrow> decode_error + contract_payload" where
  "contract_decode_inner bytes =
     (if length bytes > MAX_CONTRACT_CODE + 45 then Err LimitExceeded
      else
        try_bind (read_exact 8 (decoder_new bytes)) (\<lambda>(magic, d).
        if magic \<noteq> ascii ''ALCON002'' \<and> magic \<noteq> ascii ''ALCON003'' then Err NonCanonical
        else
        let native = (magic = ascii ''ALCON003'') in
        try_bind (read_fixed d) (\<lambda>(public_key, d).
        try_bind (read_u8 d) (\<lambda>(tag, d).
        try_bind (if tag = 0 then decode_deploy native d else if tag = 1 then decode_call native d else Err NonCanonical) (\<lambda>(action, d).
        try_bind (finish d) (\<lambda>_.
        Ok \<lparr>cp_public_key = public_key, cp_action = action\<rparr>))))))"

definition contract_decode :: "byte list \<Rightarrow> transaction_error + contract_payload" where
  "contract_decode bytes = map_err (\<lambda>_. UnsupportedPayload) (contract_decode_inner bytes)"

definition deploy_preimage :: "u32 \<Rightarrow> address \<Rightarrow> u64 \<Rightarrow> byte list" where
  "deploy_preimage chain_id sender nonce = le_bytes chain_id @ be_bytes sender @ le_bytes nonce"

definition contract_address :: "(byte list \<Rightarrow> hash256) \<Rightarrow> u32 \<Rightarrow> address \<Rightarrow> u64 \<Rightarrow> address" where
  "contract_address blake2s chain_id sender nonce =
     domain_hash blake2s (ascii ''astrolune.contract.address.v2'') (deploy_preimage chain_id sender nonce)"

definition contract_code_key :: "address \<Rightarrow> state_key" where
  "contract_code_key address = ascii ''astrolune/contract/code/v2/'' @ be_bytes address"

definition contract_state_key :: "(byte list \<Rightarrow> hash256) \<Rightarrow> address \<Rightarrow> byte list \<Rightarrow> state_key" where
  "contract_state_key blake2s address local = ascii ''astrolune/contract/state/v2/'' @ be_bytes address
     @ be_bytes (domain_hash blake2s (ascii ''astrolune.contract.key.v2'') local)"

definition trocto_contract_address :: "(byte list \<Rightarrow> hash256) \<Rightarrow> u32 \<Rightarrow> address \<Rightarrow> u64 \<Rightarrow> address" where
  "trocto_contract_address blake2s chain_id sender nonce =
     domain_hash blake2s (ascii ''astrolune.contract.address.v3'') (deploy_preimage chain_id sender nonce)"

definition trocto_contract_code_key :: "address \<Rightarrow> state_key" where
  "trocto_contract_code_key address = ascii ''astrolune/contract/code/v3/'' @ be_bytes address"

definition trocto_contract_state_key :: "(byte list \<Rightarrow> hash256) \<Rightarrow> address \<Rightarrow> byte list \<Rightarrow> state_key" where
  "trocto_contract_state_key blake2s address local = ascii ''astrolune/contract/state/v3/'' @ be_bytes address
     @ be_bytes (domain_hash blake2s (ascii ''astrolune.contract.key.v3'') local)"

section \<open>Validation (validator.rs, signed\_validator.rs)\<close>

record validation_context =
  vc_chain_id :: u32
  vc_next_height :: u64
  vc_max_transaction_bytes :: nat

record validated_transaction =
  vt_id :: hash256
  vt_lane :: transaction_lane
  vt_transaction :: transaction

definition prefix_len :: "nat \<Rightarrow> nat option" where
  "prefix_len n = (if n < 2 ^ 32 then Some (if n < 128 then 1 else 5) else None)"

fun keys_encoded_len :: "nat \<Rightarrow> state_key list \<Rightarrow> nat option" where
  "keys_encoded_len sz [] = Some sz"
| "keys_encoded_len sz (k # ks) =
     Option.bind (prefix_len (length k)) (\<lambda>p.
     Option.bind (checked_add_usize sz p) (\<lambda>sz.
     Option.bind (checked_add_usize sz (length k)) (\<lambda>sz. keys_encoded_len sz ks)))"

definition encoded_len :: "transaction \<Rightarrow> nat option" where
  "encoded_len tx =
     Option.bind (prefix_len (length (tx_access_list tx))) (\<lambda>p.
     Option.bind (checked_add_usize (8 + 4 + 32 + 8 + 8 + 1 + 32 + 32 + 64) p) (\<lambda>sz.
     Option.bind (keys_encoded_len sz (tx_access_list tx)) (\<lambda>sz.
     Option.bind (prefix_len (length (tx_payload tx))) (\<lambda>p.
     Option.bind (checked_add_usize sz p) (\<lambda>sz. checked_add_usize sz (length (tx_payload tx)))))))"

definition estimate_encoded_len :: "transaction \<Rightarrow> nat" where
  "estimate_encoded_len tx = (case encoded_len tx of Some n \<Rightarrow> n | None \<Rightarrow> usize_limit - 1)"

definition tx_validate_shape :: "transaction \<Rightarrow> nat \<Rightarrow> transaction_error + unit" where
  "tx_validate_shape tx max_bytes =
     (if tx_version tx \<noteq> TRANSACTION_VERSION \<or> length (tx_access_list tx) > MAX_LIST_LEN
        \<or> list_ex (\<lambda>key. length key > MAX_STATE_KEY_LEN) (tx_access_list tx) \<or> length (tx_payload tx) > MAX_PAYLOAD
        \<or> (case encoded_len tx of None \<Rightarrow> True | Some n \<Rightarrow> n > max_bytes)
      then Err InvalidEnvelope else Ok ())"

definition validated :: "(byte list \<Rightarrow> hash256) \<Rightarrow> transaction \<Rightarrow> validated_transaction" where
  "validated blake2s tx = \<lparr>vt_id = compute_tx_id blake2s tx, vt_lane = tx_lane tx, vt_transaction = tx\<rparr>"

record basic_validator =
  bv_accounts :: "(address, account_state) btree"

definition advance_nonce :: "address \<Rightarrow> basic_validator \<Rightarrow> (transaction_error + unit) \<times> basic_validator" where
  "advance_nonce a v =
     (case bt_get (bv_accounts v) a of
        None \<Rightarrow> (Ok (), v)
      | Some acc \<Rightarrow>
          (case checked_add (acc_nonce acc) 1 of
             None \<Rightarrow> (Err InvalidNonce, v)
           | Some n \<Rightarrow> (Ok (), v\<lparr>bv_accounts := bt_insert a (acc\<lparr>acc_nonce := n\<rparr>) (bv_accounts v)\<rparr>)))"

definition basic_validate ::
  "(byte list \<Rightarrow> hash256) \<Rightarrow> basic_validator \<Rightarrow> transaction \<Rightarrow> validation_context \<Rightarrow> transaction_error + validated_transaction" where
  "basic_validate blake2s v tx ctx =
     try_bind (tx_validate_shape tx (vc_max_transaction_bytes ctx)) (\<lambda>_.
     if tx_chain_id tx \<noteq> vc_chain_id ctx then Err WrongChain
     else if vc_next_height ctx > tx_expires_at tx then Err Expired
     else if tx_nonce tx = - 1 then Err InvalidNonce
     else
     try_bind (case bt_get (bv_accounts v) (tx_sender tx) of
         None \<Rightarrow> if tx_nonce tx \<noteq> 0 then Err InvalidNonce else Ok ()
       | Some acc \<Rightarrow>
           if tx_nonce tx \<noteq> acc_nonce acc then Err InvalidNonce
           else try_bind (ok_or InsufficientResources (checked_cost (tx_resource_limit tx) (tx_resource_prices tx))) (\<lambda>cost.
             if cost > acc_balance acc then Err InsufficientResources else Ok ())) (\<lambda>_.
     if tx_signature tx = 0 then Err TxInvalidSignature
     else Ok (validated blake2s tx)))"

record registered_account =
  ra_state :: account_state
  ra_public_key :: bytes32

record signed_validator =
  sv_accounts :: "(address, registered_account) btree"
  sv_resource_limits :: resources
  sv_resource_prices :: resources

definition payload_public_key :: "transaction \<Rightarrow> transaction_error + bytes32" where
  "payload_public_key tx =
     (case tx_lane tx of
        Payments \<Rightarrow> try_bind (payment_decode (tx_payload tx)) (\<lambda>p. Ok (pay_public_key p))
      | Contracts \<Rightarrow> try_bind (contract_decode (tx_payload tx)) (\<lambda>p. Ok (cp_public_key p))
      | System \<Rightarrow> Err UnsupportedPayload)"

definition signed_validate ::
  "(byte list \<Rightarrow> hash256) \<Rightarrow> ed25519 \<Rightarrow> signed_validator \<Rightarrow> transaction \<Rightarrow> validation_context
   \<Rightarrow> transaction_error + validated_transaction" where
  "signed_validate blake2s ed v tx ctx =
     try_bind (tx_validate_shape tx (vc_max_transaction_bytes ctx)) (\<lambda>_.
     if tx_chain_id tx \<noteq> vc_chain_id ctx then Err WrongChain
     else if vc_next_height ctx > tx_expires_at tx then Err Expired
     else
     try_bind (ok_or UnknownSender (bt_get (sv_accounts v) (tx_sender tx))) (\<lambda>account.
     if address_from_public_key blake2s (ra_public_key account) \<noteq> tx_sender tx then Err UnknownSender
     else if tx_nonce tx \<noteq> acc_nonce (ra_state account) \<or> tx_nonce tx = - 1 then Err InvalidNonce
     else if tx_resource_prices tx \<noteq> sv_resource_prices v then Err InsufficientResources
     else
     try_bind (ok_or InsufficientResources (checked_cost (tx_resource_limit tx) (sv_resource_prices v))) (\<lambda>cost.
     if \<not> fits_in (tx_resource_limit tx) (sv_resource_limits v) \<or> cost > acc_balance (ra_state account)
     then Err InsufficientResources
     else if \<not> ed25519_verify ed (ra_public_key account) (be_bytes (signing_hash blake2s tx)) (tx_signature tx)
     then Err TxInvalidSignature
     else
     try_bind (payload_public_key tx) (\<lambda>public_key.
     if public_key \<noteq> ra_public_key account then Err UnsupportedPayload
     else Ok (validated blake2s tx)))))"

section \<open>The declared length is the encoded length\<close>

lemma prefix_len_encode_length: "prefix_len n = map_option length (encode_length n)"
  by (simp add: encode_length_def prefix_len_def)

lemma keys_encoded_len_iff:
  "keys_encoded_len sz ks = Some n \<longleftrightarrow> (\<exists>bs. encode_keys ks = Some bs \<and> n = sz + length bs \<and> (ks \<noteq> [] \<longrightarrow> n < usize_limit))"
proof (induction sz ks rule: keys_encoded_len.induct)
  case (2 sz k ks)
  show ?case
  proof (cases "encode_length (length k)")
    case None
    then show ?thesis by (simp add: prefix_len_encode_length encode_state_key_def encode_bytes_def)
  next
    case (Some p)
    have bytes: "encode_state_key k = Some (p @ k)" by (simp add: encode_state_key_def encode_bytes_def Some)
    show ?thesis
    proof (cases "sz + length p + length k < usize_limit")
      case True
      have c1: "checked_add_usize sz (length p) = Some (sz + length p)" using True by (simp add: checked_add_usize_def)
      have c2: "checked_add_usize (sz + length p) (length k) = Some (sz + length p + length k)" using True by (simp add: checked_add_usize_def)
      have "prefix_len (length k) = Some (length p)" by (simp add: prefix_len_encode_length Some)
      then have "keys_encoded_len sz (k # ks) = keys_encoded_len (sz + length p + length k) ks" by (simp add: c1 c2)
      also have "\<dots> = Some n \<longleftrightarrow> (\<exists>bs. encode_keys ks = Some bs \<and> n = sz + length p + length k + length bs \<and> (ks \<noteq> [] \<longrightarrow> n < usize_limit))"
        by (rule 2 [OF _ c1 c2]) (simp add: prefix_len_encode_length Some)
      finally show ?thesis using True by (cases ks) (auto simp: bytes bind_eq_Some_conv)
    next
      case False
      then show ?thesis
        by (auto simp: prefix_len_encode_length Some bytes checked_add_usize_def bind_eq_Some_conv)
    qed
  qed
qed auto

lemma encoded_len_iff:
  "encoded_len tx = Some n \<longleftrightarrow> (\<exists>bs. encode_transaction tx = Some bs \<and> n = length bs \<and> length bs < usize_limit)"
proof (cases "encode_length (length (tx_access_list tx))")
  case None
  then show ?thesis by (simp add: encoded_len_def prefix_len_encode_length encode_transaction_def encode_unsigned_transaction_def)
next
  case (Some p)
  have p: "prefix_len (length (tx_access_list tx)) = Some (length p)" "length p \<le> 5"
    using length_encode_length [OF Some] by (simp_all add: prefix_len_encode_length Some)
  have fixed: "checked_add_usize (8 + 4 + 32 + 8 + 8 + 1 + 32 + 32 + 64) (length p) = Some (189 + length p)"
    using p(2) by (simp add: checked_add_usize_def usize_limit_def)
  have res: "length (encode_resources r) = 32" for r by (simp add: encode_resources_def)
  show ?thesis
    using keys_encoded_len_iff [of "189 + length p" "tx_access_list tx"]
    by (cases "encode_keys (tx_access_list tx)"; cases "encode_length (length (tx_payload tx))")
      (auto simp: encoded_len_def p(1) fixed prefix_len_encode_length encode_transaction_def encode_unsigned_transaction_def
        encode_bytes_def Some bind_eq_Some_conv checked_add_usize_def res keys_encoded_len_iff)
qed

lemma tx_validate_shape_Ok:
  "tx_validate_shape tx max_bytes = Ok u \<longleftrightarrow>
     wire_transaction tx \<and> (\<exists>bs. encode_transaction tx = Some bs \<and> length bs \<le> max_bytes \<and> length bs < usize_limit)"
proof (cases "encoded_len tx")
  case None
  then have "\<not> (\<exists>bs. encode_transaction tx = Some bs \<and> length bs < usize_limit)"
    using encoded_len_iff [of tx] by (metis option.distinct(1))
  with None show ?thesis by (auto simp: tx_validate_shape_def)
next
  case (Some n)
  then obtain bs where "encode_transaction tx = Some bs" "n = length bs" "length bs < usize_limit"
    using encoded_len_iff [of tx n] by blast
  with Some show ?thesis
    by (auto simp: tx_validate_shape_def wire_transaction_def list_all_iff list_ex_iff not_less [symmetric])
qed

section \<open>Payloads have one encoding\<close>

lemma payment_codec:
  "payment_decode bs = Ok p \<longleftrightarrow> pay_recipient p \<noteq> 0 \<and> pay_amount p \<noteq> 0 \<and> payment_to_bytes p = bs"
proof
  assume "payment_decode bs = Ok p"
  then have len: "length bs = 80" "take 8 bs = PAYMENT_TAG" and p: "pay_recipient p \<noteq> 0" "pay_amount p \<noteq> 0"
      "pay_public_key p = from_be_bytes (take 32 (drop 8 bs))" "pay_recipient p = from_be_bytes (take 32 (drop 40 bs))"
      "pay_amount p = from_le_bytes (take 8 (drop 72 bs))"
    by (auto simp: payment_decode_def PAYMENT_ENCODED_LEN_def Let_def split: if_splits)
  have "be_bytes (pay_public_key p) = take 32 (drop 8 bs)" "be_bytes (pay_recipient p) = take 32 (drop 40 bs)"
      "le_bytes (pay_amount p) = take 8 (drop 72 bs)"
    using len(1) by (simp_all add: p be_from_be_bytes le_from_le_bytes)
  moreover have "take 8 (drop 72 bs) = drop 72 bs" using len(1) by simp
  moreover have "bs = take 8 bs @ take 32 (drop 8 bs) @ take 32 (drop 40 bs) @ drop 72 bs"
    using append_take_drop_id [of 8 bs] append_take_drop_id [of 32 "drop 8 bs"] append_take_drop_id [of 32 "drop 40 bs"]
    by simp
  ultimately show "pay_recipient p \<noteq> 0 \<and> pay_amount p \<noteq> 0 \<and> payment_to_bytes p = bs"
    using p(1,2) len(2) by (simp add: payment_to_bytes_def)
next
  assume "pay_recipient p \<noteq> 0 \<and> pay_amount p \<noteq> 0 \<and> payment_to_bytes p = bs"
  then show "payment_decode bs = Ok p"
    by (auto simp: payment_decode_def payment_to_bytes_def PAYMENT_ENCODED_LEN_def PAYMENT_TAG_def)
qed

text \<open>The contract payloads that have a wire form.\<close>

fun local_keys_ok :: "byte list option \<Rightarrow> byte list list \<Rightarrow> bool" where
  "local_keys_ok previous [] \<longleftrightarrow> True"
| "local_keys_ok previous (k # ks) \<longleftrightarrow> k \<noteq> [] \<and> length k \<le> 256 \<and> (case previous of None \<Rightarrow> True | Some p \<Rightarrow> p < k)
     \<and> local_keys_ok (Some k) ks"

definition call_ok :: "address \<Rightarrow> byte list \<Rightarrow> byte list list \<Rightarrow> bool" where
  "call_ok address inp ks \<longleftrightarrow> address \<noteq> 0 \<and> length inp \<le> 65536 \<and> length ks \<le> MAX_CONTRACT_KEYS \<and> local_keys_ok None ks"

fun action_ok :: "contract_action \<Rightarrow> bool" where
  "action_ok (Deploy code) \<longleftrightarrow> code \<noteq> [] \<and> length code \<le> MAX_CONTRACT_CODE"
| "action_ok (DeployTrocto code) \<longleftrightarrow> code \<noteq> [] \<and> length code \<le> MAX_TROCTO_SOURCE \<and> utf8_valid code"
| "action_ok (Call address inp ks) \<longleftrightarrow> call_ok address inp ks"
| "action_ok (CallTrocto address inp ks) \<longleftrightarrow> call_ok address inp ks \<and> length inp = 8"

lemma contract_decode_bytes_sound:
  assumes "contract_decode_bytes mx d = Ok (v, d')"
  shows "length v \<le> mx \<and> (\<exists>bs. contract_encode_bytes v = Some bs \<and> rest d = bs @ rest d')"
proof -
  obtain n d1 where n: "read_u32 d = Ok (n, d1)" "unat n \<le> mx" and v: "read_exact (unat n) d1 = Ok (v, d')"
    using assms by (auto simp: contract_decode_bytes_def result_simps split: if_splits)
  have len: "length v = unat n" "rest d1 = v @ rest d'" using read_exact_sound [OF v] by simp_all
  then have "n = of_nat (length v)" "length v < 2 ^ 32" using unsigned_less [of n, where ?'a = nat] by simp_all
  then show ?thesis using len read_u32_sound [OF n(1)] n(2) by (simp add: contract_encode_bytes_def)
qed

lemma contract_decode_bytes_at:
  assumes "length v \<le> mx" and "contract_encode_bytes v = Some bs" and "length pre + length bs < usize_limit"
  shows "contract_decode_bytes mx (dec_at pre (bs @ post)) = Ok (v, dec_at (pre @ bs) post)"
proof -
  have v: "length v < 2 ^ 32" "bs = le_bytes (of_nat (length v) :: u32) @ v"
    using assms(2) by (auto simp: contract_encode_bytes_def split: if_splits)
  have "unat (of_nat (length v) :: u32) = length v" using v(1) by (simp add: unat_of_nat take_bit_nat_eq_self)
  then show ?thesis using assms(1,3) v(1) by (simp add: contract_decode_bytes_def v(2))
qed

lemma contract_read_keys_sound:
  "contract_read_keys n previous d = Ok (ks, d') \<Longrightarrow> length ks = n \<and> local_keys_ok previous ks
     \<and> (\<exists>bs. contract_encode_keys ks = Some bs \<and> rest d = bs @ rest d')"
proof (induction n arbitrary: previous d ks)
  case (Suc n)
  then obtain k d1 ks1 where k: "contract_decode_bytes 256 d = Ok (k, d1)" "k \<noteq> []" "case previous of None \<Rightarrow> True | Some p \<Rightarrow> p < k"
    and ks: "contract_read_keys n (Some k) d1 = Ok (ks1, d')" "ks = k # ks1"
    by (auto simp: result_simps not_le split: if_splits option.splits)
  show ?case using contract_decode_bytes_sound [OF k(1)] Suc.IH [OF ks(1)] k(2,3) by (auto simp: ks(2))
qed auto

lemma contract_read_keys_at:
  "local_keys_ok previous ks \<Longrightarrow> contract_encode_keys ks = Some bs \<Longrightarrow> length pre + length bs < usize_limit \<Longrightarrow>
   contract_read_keys (length ks) previous (dec_at pre (bs @ post)) = Ok (ks, dec_at (pre @ bs) post)"
proof (induction ks arbitrary: previous bs pre)
  case (Cons k ks)
  then obtain b bs' where b: "contract_encode_bytes k = Some b" "contract_encode_keys ks = Some bs'" "bs = b @ bs'"
    by (auto simp: bind_eq_Some_conv)
  have "contract_decode_bytes 256 (dec_at pre (b @ bs' @ post)) = Ok (k, dec_at (pre @ b) (bs' @ post))"
    using Cons.prems b by (intro contract_decode_bytes_at) simp_all
  moreover have "contract_read_keys (length ks) (Some k) (dec_at (pre @ b) (bs' @ post)) = Ok (ks, dec_at ((pre @ b) @ bs') post)"
    using Cons.prems b by (intro Cons.IH) simp_all
  moreover have "\<not> (k = [] \<or> (case previous of None \<Rightarrow> False | Some p \<Rightarrow> p \<ge> k))"
    using Cons.prems(1) by (auto split: option.splits)
  ultimately show ?case by (simp add: b(3))
qed simp

lemma contract_encode_keys_length:
  "local_keys_ok previous ks \<Longrightarrow> contract_encode_keys ks = Some bs \<Longrightarrow> 5 * length ks \<le> length bs"
proof (induction ks arbitrary: previous bs)
  case (Cons k ks)
  then obtain b bs' where b: "contract_encode_bytes k = Some b" "contract_encode_keys ks = Some bs'" "bs = b @ bs'"
    by (auto simp: bind_eq_Some_conv)
  have "5 * length ks \<le> length bs'" using Cons.prems(1) b(2) by (intro Cons.IH [of "Some k"]) simp_all
  moreover have "5 \<le> length b" using Cons.prems(1) b(1) by (cases k) (auto simp: contract_encode_bytes_def split: if_splits)
  ultimately show ?case by (simp add: b(3))
qed simp

lemma decode_deploy_sound:
  assumes "decode_deploy native d = Ok (a, d')"
  shows "action_ok a \<and> is_native a = native \<and> (\<exists>bs. encode_action a = Some (0 # bs) \<and> rest d = bs @ rest d')"
  using assms by (fastforce simp: decode_deploy_def result_simps is_native_def split: if_splits dest!: contract_decode_bytes_sound)

lemma decode_call_sound:
  assumes "decode_call native d = Ok (a, d')"
  shows "action_ok a \<and> is_native a = native \<and> (\<exists>bs. encode_action a = Some (1 # bs) \<and> rest d = bs @ rest d')"
proof -
  obtain address d1 inp d2 cnt d3 ks where address: "read_fixed d = Ok (address, d1)" "address \<noteq> 0"
    and inp: "contract_decode_bytes 65536 d1 = Ok (inp, d2)" "\<not> (native \<and> length inp \<noteq> 8)"
    and cnt: "read_u32 d2 = Ok (cnt, d3)" "unat cnt \<le> MAX_CONTRACT_KEYS"
    and ks: "contract_read_keys (unat cnt) None d3 = Ok (ks, d')"
    and a: "a = (if native then CallTrocto address inp ks else Call address inp ks)"
    using assms by (auto simp: decode_call_def result_simps split: if_splits)
  obtain i kb where i: "contract_encode_bytes inp = Some i" "rest d1 = i @ rest d2" "length inp \<le> 65536"
    and kb: "contract_encode_keys ks = Some kb" "rest d3 = kb @ rest d'" "length ks = unat cnt" "local_keys_ok None ks"
    using contract_decode_bytes_sound [OF inp(1)] contract_read_keys_sound [OF ks] by blast
  have "(of_nat (length ks) :: u32) = cnt" "length ks < 2 ^ 32" using kb(3) unsigned_less [of cnt, where ?'a = nat] by simp_all
  then have "encode_call address inp ks = Some (1 # be_bytes address @ i @ le_bytes cnt @ kb)"
    by (simp add: encode_call_def i kb)
  moreover have "rest d = be_bytes address @ i @ le_bytes cnt @ kb @ rest d'"
    using read_fixed32_sound [OF address(1)] i(2) read_u32_sound [OF cnt(1)] kb(2) by simp
  ultimately show ?thesis
    using a address(2) inp(2) i(3) cnt(2) kb by (auto simp: call_ok_def is_native_def)
qed

lemma contract_decode_sound:
  assumes "contract_decode_inner bs = Ok p"
  shows "action_ok (cp_action p) \<and> contract_to_bytes p = Some bs \<and> length bs \<le> MAX_CONTRACT_CODE + 45"
proof -
  obtain magic d1 pk d2 tag d3 d4 where magic: "read_exact 8 (decoder_new bs) = Ok (magic, d1)"
      "magic = ascii (if magic = ascii ''ALCON003'' then ''ALCON003'' else ''ALCON002'')"
    and pk: "read_fixed d1 = Ok (cp_public_key p, d2)" and tag: "read_u8 d2 = Ok (tag, d3)"
    and action: "(if tag = 0 then decode_deploy (magic = ascii ''ALCON003'') d3
        else if tag = 1 then decode_call (magic = ascii ''ALCON003'') d3 else Err NonCanonical) = Ok (cp_action p, d4)"
    and fin: "finish d4 = Ok ()" and len: "length bs \<le> MAX_CONTRACT_CODE + 45"
    using assms by (auto simp: contract_decode_inner_def result_simps Let_def split: if_splits)
  obtain body where "action_ok (cp_action p)" "is_native (cp_action p) = (magic = ascii ''ALCON003'')"
      "encode_action (cp_action p) = Some (tag # body)" "rest d3 = body @ rest d4"
    using action decode_deploy_sound [of "magic = ascii ''ALCON003''" d3 "cp_action p" d4]
      decode_call_sound [of "magic = ascii ''ALCON003''" d3 "cp_action p" d4]
    by (auto split: if_splits)
  then show ?thesis
    using len fin read_exact_sound [OF magic(1)] read_fixed32_sound [OF pk] read_u8_sound [OF tag] magic(2)
    by (simp add: contract_to_bytes_def finish_Ok)
qed

lemma contract_decode_complete:
  assumes "action_ok (cp_action p)" and "contract_to_bytes p = Some bs" and "length bs \<le> MAX_CONTRACT_CODE + 45"
  shows "contract_decode_inner bs = Ok p"
proof -
  let ?native = "is_native (cp_action p)"
  let ?magic = "ascii (if ?native then ''ALCON003'' else ''ALCON002'')"
  obtain body where body: "encode_action (cp_action p) = Some body"
    and bs: "bs = ?magic @ be_bytes (cp_public_key p) @ body"
    using assms(2) by (auto simp: contract_to_bytes_def)
  have magic: "length ?magic = 8" "(?magic = ascii ''ALCON003'') = ?native" "?magic = ascii ''ALCON002'' \<or> ?magic = ascii ''ALCON003''"
    by (simp_all add: ascii_def)
  have small: "length bs < usize_limit" using assms(3) by (simp add: MAX_CONTRACT_CODE_def usize_limit_def)
  let ?pre = "?magic @ be_bytes (cp_public_key p)"
  have pre: "length ?pre = 40" "40 + length body < usize_limit" using small magic(1) by (simp_all add: bs)
  have deploy: "decode_deploy ?native (dec_at (?pre @ [0]) b) = Ok (cp_action p, dec_at (?pre @ [0] @ b) [])" if eq: "body = 0 # b" for b
  proof -
    obtain code where code: "cp_action p = (if ?native then DeployTrocto code else Deploy code)" "contract_encode_bytes code = Some b"
      using body eq by (cases "cp_action p") (auto simp: is_native_def encode_call_def bind_eq_Some_conv split: if_splits)
    have "length code \<le> (if ?native then MAX_TROCTO_SOURCE else MAX_CONTRACT_CODE)" "code \<noteq> []" "?native \<longrightarrow> utf8_valid code"
      using assms(1) code(1) by (auto split: if_splits)
    then show ?thesis
      using contract_decode_bytes_at [OF _ code(2), of _ "?pre @ [0]" "[]"] pre eq code(1) by (auto simp: decode_deploy_def)
  qed
  have call: "decode_call ?native (dec_at (?pre @ [1]) b) = Ok (cp_action p, dec_at (?pre @ [1] @ b) [])" if eq: "body = 1 # b" for b
  proof -
    obtain a inp ks where act: "cp_action p = (if ?native then CallTrocto a inp ks else Call a inp ks)" "encode_call a inp ks = Some (1 # b)"
      using body eq by (cases "cp_action p") (auto simp: is_native_def split: if_splits)
    then obtain i kb where i: "contract_encode_bytes inp = Some i" and kb: "contract_encode_keys ks = Some kb"
      and b: "b = be_bytes a @ i @ le_bytes (of_nat (length ks) :: u32) @ kb"
      by (auto simp: encode_call_def bind_eq_Some_conv split: if_splits)
    have ok: "call_ok a inp ks" "?native \<longrightarrow> length inp = 8" using assms(1) act(1) by (auto split: if_splits)
    have cnt: "unat (of_nat (length ks) :: u32) = length ks"
      using ok(1) by (simp add: call_ok_def MAX_CONTRACT_KEYS_def unat_of_nat take_bit_nat_eq_self)
    let ?p1 = "?pre @ [1] @ be_bytes a"
    have inp: "contract_decode_bytes 65536 (dec_at ?p1 (i @ le_bytes (of_nat (length ks) :: u32) @ kb))
        = Ok (inp, dec_at (?p1 @ i) (le_bytes (of_nat (length ks) :: u32) @ kb))"
      using ok(1) pre eq by (intro contract_decode_bytes_at i) (simp_all add: call_ok_def b)
    have keys: "contract_read_keys (length ks) None (dec_at (?p1 @ i @ le_bytes (of_nat (length ks) :: u32)) kb)
        = Ok (ks, dec_at ((?p1 @ i @ le_bytes (of_nat (length ks) :: u32)) @ kb) [])"
      using contract_read_keys_at [OF _ kb, of None "?p1 @ i @ le_bytes (of_nat (length ks) :: u32)" "[]"] ok(1) pre eq
      by (simp add: call_ok_def b)
    have "length ks \<le> length kb div 5" using contract_encode_keys_length [OF _ kb, of None] ok(1) by (simp add: call_ok_def)
    then show ?thesis
      using ok inp keys pre eq act(1) cnt
      by (simp add: decode_call_def b call_ok_def remaining_rest)
  qed
  have tag: "\<exists>b. body = 0 # b \<or> body = 1 # b"
    using body by (cases "cp_action p") (auto simp: encode_call_def bind_eq_Some_conv split: if_splits)
  then obtain b where b: "body = 0 # b \<or> body = 1 # b" by blast
  show ?thesis
    unfolding contract_decode_inner_def
    using assms(3) magic pre deploy [of b] call [of b] b
    by (auto simp: bs decoder_new_dec_at Let_def)
qed

lemma contract_codec:
  "contract_decode bs = Ok p \<longleftrightarrow> action_ok (cp_action p) \<and> contract_to_bytes p = Some bs \<and> length bs \<le> MAX_CONTRACT_CODE + 45"
proof -
  have "contract_decode bs = Ok p \<longleftrightarrow> contract_decode_inner bs = Ok p" by (simp add: contract_decode_def result_simps)
  then show ?thesis using contract_decode_sound contract_decode_complete by blast
qed

end
