(* ===== verification/Astro_Payment.thy ===== *)
theory Astro_Payment
  imports Astro_Store Astro_Transaction
begin

text \<open>
  Sequential signed payments of the crate \<open>execution\<close>: the private account overlay
  \<open>PaymentSession\<close> and the atomic publication \<open>execute_payments\<close> (payment.rs). A snapshot is its
  lookup function. The lemmas show what a payment does to the balances: the amount moves, the fee is
  burned, nothing else changes, and a block of payments is published as a whole or not at all.
\<close>

section \<open>Errors and outputs (error.rs, executor.rs)\<close>

datatype execution_error =
    InvalidContract | UndeclaredStateAccess | ResourceLimit | Conflict | Trap | NativeUnavailable
  | TransactionValidation transaction_error | StateFailure state_error

type_synonym snapshot = "state_key \<Rightarrow> state_error + byte list option"

record transaction_output =
  to_diff :: state_diff
  to_receipt :: execution_receipt
  to_observed_lease :: state_lease

section \<open>Payments (payment.rs)\<close>

definition PAYMENT_PRICES :: resources where
  "PAYMENT_PRICES = \<lparr>compute = 1, memory = 0, io = 0, bandwidth = 0\<rparr>"

definition payment_resources :: "transaction \<Rightarrow> execution_error + resources" where
  "payment_resources tx =
     (if estimate_encoded_len tx < 2 ^ 64
      then Ok \<lparr>compute = 1, memory = 32, io = 4, bandwidth = of_nat (estimate_encoded_len tx)\<rparr>
      else Err ResourceLimit)"

record payment_session =
  ps_snapshot :: snapshot
  ps_accounts :: "(address, account_state) btree"
  ps_context :: validation_context
  ps_capacity :: resources
  ps_used :: resources
  ps_prices :: resources

definition payment_session_new :: "snapshot \<Rightarrow> validation_context \<Rightarrow> resources \<Rightarrow> payment_session" where
  "payment_session_new get ctx capacity =
     \<lparr>ps_snapshot = get, ps_accounts = [], ps_context = ctx, ps_capacity = capacity, ps_used = resources_zero,
      ps_prices = PAYMENT_PRICES\<rparr>"

definition payment_with_prices :: "resources \<Rightarrow> payment_session \<Rightarrow> payment_session" where
  "payment_with_prices prices s = s\<lparr>ps_prices := prices\<rparr>"

definition session_account :: "payment_session \<Rightarrow> address \<Rightarrow> execution_error + account_state option" where
  "session_account s a =
     (case bt_get (ps_accounts s) a of
        Some account \<Rightarrow> Ok (Some account)
      | None \<Rightarrow> map_err StateFailure (read_account (ps_snapshot s) a))"

text \<open>The account states after the payment; the recipient is missing for a transfer to oneself.\<close>

definition payment_accounts ::
  "payment_session \<Rightarrow> transaction \<Rightarrow> payment \<Rightarrow> account_state \<Rightarrow> u64 \<Rightarrow> execution_error + account_state \<times> account_state option" where
  "payment_accounts s tx p sender fee =
     try_bind (ok_or (TransactionValidation InvalidNonce) (checked_add (acc_nonce sender) 1)) (\<lambda>nonce.
     try_bind (ok_or (TransactionValidation InsufficientResources) (checked_sub (acc_balance sender) fee)) (\<lambda>balance.
     if tx_sender tx = pay_recipient p then Ok (\<lparr>acc_nonce = nonce, acc_balance = balance\<rparr>, None)
     else
     try_bind (ok_or (TransactionValidation InsufficientResources) (checked_sub balance (pay_amount p))) (\<lambda>balance.
     try_bind (session_account s (pay_recipient p)) (\<lambda>found.
     let recipient = (case found of Some r \<Rightarrow> r | None \<Rightarrow> \<lparr>acc_nonce = 0, acc_balance = 0\<rparr>) in
     try_bind (ok_or Trap (checked_add (acc_balance recipient) (pay_amount p))) (\<lambda>credited.
     Ok (\<lparr>acc_nonce = nonce, acc_balance = balance\<rparr>,
         Some \<lparr>acc_nonce = acc_nonce recipient, acc_balance = credited\<rparr>))))))"

definition payment_diff :: "transaction \<Rightarrow> payment \<Rightarrow> account_state \<Rightarrow> account_state option \<Rightarrow> state_diff" where
  "payment_diff tx p next_sender next_recipient =
     (let d = diff_put (account_key (tx_sender tx)) (encode_account next_sender) diff_new in
      sort_canonical (case next_recipient of
          None \<Rightarrow> d
        | Some r \<Rightarrow> diff_put (account_key (pay_recipient p)) (encode_account r) d))"

definition payment_checks ::
  "(byte list \<Rightarrow> hash256) \<Rightarrow> ed25519 \<Rightarrow> payment_session \<Rightarrow> transaction \<Rightarrow> payment \<Rightarrow> account_state
   \<Rightarrow> execution_error + validated_transaction \<times> resources \<times> resources \<times> u64" where
  "payment_checks blake2s ed s tx p sender =
     try_bind (map_err TransactionValidation (signed_validate blake2s ed
         \<lparr>sv_accounts = [(tx_sender tx, \<lparr>ra_state = sender, ra_public_key = pay_public_key p\<rparr>)],
          sv_resource_limits = ps_capacity s, sv_resource_prices = ps_prices s\<rparr> tx (ps_context s))) (\<lambda>valid.
     try_bind (payment_resources tx) (\<lambda>res.
     try_bind (ok_or ResourceLimit (resources_checked_add (ps_used s) res)) (\<lambda>used.
     if \<not> fits_in res (tx_resource_limit tx) \<or> \<not> fits_in used (ps_capacity s) then Err ResourceLimit
     else if account_key (tx_sender tx) \<notin> set (tx_access_list tx) \<or> account_key (pay_recipient p) \<notin> set (tx_access_list tx)
     then Err UndeclaredStateAccess
     else
     try_bind (ok_or (TransactionValidation InsufficientResources)
         (Option.bind (checked_cost (tx_resource_limit tx) (ps_prices s)) (\<lambda>fee. checked_add fee (pay_amount p)))) (\<lambda>reserve.
     if acc_balance sender < reserve then Err (TransactionValidation InsufficientResources)
     else
     try_bind (ok_or ResourceLimit (checked_cost res (ps_prices s))) (\<lambda>fee.
     Ok (valid, res, used, fee))))))"

definition payment_execute ::
  "(byte list \<Rightarrow> hash256) \<Rightarrow> ed25519 \<Rightarrow> payment_session \<Rightarrow> transaction \<Rightarrow> (execution_error + transaction_output) \<times> payment_session" where
  "payment_execute blake2s ed s tx =
     (case
        try_bind (map_err TransactionValidation (payment_decode (tx_payload tx))) (\<lambda>p.
        try_bind (session_account s (tx_sender tx)) (\<lambda>found.
        try_bind (ok_or (TransactionValidation UnknownSender) found) (\<lambda>sender.
        try_bind (payment_checks blake2s ed s tx p sender) (\<lambda>(valid, res, used, fee).
        try_bind (payment_accounts s tx p sender fee) (\<lambda>(next_sender, next_recipient).
        let d = payment_diff tx p next_sender next_recipient in
        Ok (\<lparr>to_diff = d,
             to_receipt = \<lparr>rc_transaction = vt_id valid, rc_succeeded = True, rc_resources = res,
               rc_output_root = the (diff_commitment blake2s d)\<rparr>,
             to_observed_lease = lease_new (map (\<lambda>key. \<lparr>ar_key = key, ar_mode = WriteMode\<rparr>)
               [account_key (tx_sender tx), account_key (pay_recipient p)])\<rparr>,
            s\<lparr>ps_accounts := (let accounts = bt_insert (tx_sender tx) next_sender (ps_accounts s) in
                case next_recipient of None \<Rightarrow> accounts | Some r \<Rightarrow> bt_insert (pay_recipient p) r accounts),
              ps_used := used\<rparr>))))))
      of Inl e \<Rightarrow> (Err e, s) | Inr (out, s') \<Rightarrow> (Ok out, s'))"

fun payment_execute_all ::
  "(byte list \<Rightarrow> hash256) \<Rightarrow> ed25519 \<Rightarrow> payment_session \<Rightarrow> transaction list \<Rightarrow> execution_error + transaction_output list" where
  "payment_execute_all blake2s ed s [] = Ok []"
| "payment_execute_all blake2s ed s (tx # txs) =
     (case payment_execute blake2s ed s tx of
        (Inl e, _) \<Rightarrow> Err e
      | (Inr out, s') \<Rightarrow> try_bind (payment_execute_all blake2s ed s' txs) (\<lambda>outs. Ok (out # outs)))"

definition state_snapshot :: "in_memory_state \<Rightarrow> snapshot" where
  "state_snapshot s key = Ok (tree_get (ms_data s) key)"

text \<open>The code is generic over the database; this is the database in memory, whose commit changes nothing when it fails.\<close>

definition execute_payments ::
  "(byte list \<Rightarrow> hash256) \<Rightarrow> ed25519 \<Rightarrow> in_memory_state \<Rightarrow> transaction list \<Rightarrow> hash256 \<Rightarrow> validation_context \<Rightarrow> resources
   \<Rightarrow> (execution_error + transaction_output list \<times> hash256) \<times> in_memory_state" where
  "execute_payments blake2s ed db txs parent ctx capacity =
     (if ms_root db \<noteq> parent then (Err (StateFailure StaleSnapshot), db)
      else case payment_execute_all blake2s ed (payment_session_new (state_snapshot db) ctx capacity) txs of
        Inl e \<Rightarrow> (Err e, db)
      | Inr outs \<Rightarrow>
          (case state_commit blake2s db parent (map to_diff outs) of
             (Inl e, db') \<Rightarrow> (Err (StateFailure e), db')
           | (Inr root, db') \<Rightarrow> (Ok (outs, root), db')))"

section \<open>What a payment does\<close>

lemma account_key_inj [simp]: "account_key a = account_key b \<longleftrightarrow> a = b"
  by (simp add: account_key_def)

lemma decode_encode_account [simp]: "decode_account (encode_account a) = Ok a"
  using account_format.roundtrip [of a] by simp

text \<open>The successful outcome of \<open>execute\<close> and everything it has checked.\<close>

definition payment_done ::
  "(byte list \<Rightarrow> hash256) \<Rightarrow> ed25519 \<Rightarrow> payment_session \<Rightarrow> transaction \<Rightarrow> payment \<Rightarrow> account_state \<Rightarrow> u64
   \<Rightarrow> account_state \<Rightarrow> account_state option \<Rightarrow> transaction_output \<Rightarrow> bool" where
  "payment_done blake2s ed s tx p sender fee next_sender next_recipient out \<longleftrightarrow>
     payment_decode (tx_payload tx) = Ok p \<and> session_account s (tx_sender tx) = Ok (Some sender)
     \<and> (\<exists>valid. signed_validate blake2s ed
         \<lparr>sv_accounts = [(tx_sender tx, \<lparr>ra_state = sender, ra_public_key = pay_public_key p\<rparr>)],
          sv_resource_limits = ps_capacity s, sv_resource_prices = ps_prices s\<rparr> tx (ps_context s) = Ok valid
         \<and> rc_transaction (to_receipt out) = vt_id valid)
     \<and> payment_resources tx = Ok (rc_resources (to_receipt out)) \<and> fits_in (rc_resources (to_receipt out)) (tx_resource_limit tx)
     \<and> account_key (tx_sender tx) \<in> set (tx_access_list tx) \<and> account_key (pay_recipient p) \<in> set (tx_access_list tx)
     \<and> checked_cost (rc_resources (to_receipt out)) (ps_prices s) = Some fee
     \<and> payment_accounts s tx p sender fee = Ok (next_sender, next_recipient)
     \<and> to_diff out = payment_diff tx p next_sender next_recipient"

lemma payment_execute_Ok:
  assumes "payment_execute blake2s ed s tx = (Ok out, s')"
  obtains p sender fee next_sender next_recipient used where
    "payment_done blake2s ed s tx p sender fee next_sender next_recipient out"
    "resources_checked_add (ps_used s) (rc_resources (to_receipt out)) = Some used" "fits_in used (ps_capacity s)"
    "s' = s\<lparr>ps_accounts := (let accounts = bt_insert (tx_sender tx) next_sender (ps_accounts s) in
        case next_recipient of None \<Rightarrow> accounts | Some r \<Rightarrow> bt_insert (pay_recipient p) r accounts), ps_used := used\<rparr>"
  using assms unfolding payment_execute_def payment_checks_def payment_done_def
  by (auto simp: result_simps Let_def split: sum.splits prod.splits if_splits)

lemma payment_execute_Err: "payment_execute blake2s ed s tx = (Err e, s') \<Longrightarrow> s' = s"
  by (auto simp: payment_execute_def split: sum.splits prod.splits)

abbreviation no_account :: account_state where
  "no_account \<equiv> \<lparr>acc_nonce = 0, acc_balance = 0\<rparr>"

lemma payment_accounts_Ok:
  assumes "payment_accounts s tx p sender fee = Ok (next_sender, next_recipient)"
  obtains (self) "tx_sender tx = pay_recipient p" "next_recipient = None"
      "unat (acc_nonce next_sender) = unat (acc_nonce sender) + 1"
      "unat (acc_balance next_sender) + unat fee = unat (acc_balance sender)"
  | (transfer) found r where "tx_sender tx \<noteq> pay_recipient p" "session_account s (pay_recipient p) = Ok found"
      "next_recipient = Some r" "acc_nonce r = acc_nonce (case found of Some a \<Rightarrow> a | None \<Rightarrow> no_account)"
      "unat (acc_balance r) = unat (acc_balance (case found of Some a \<Rightarrow> a | None \<Rightarrow> no_account)) + unat (pay_amount p)"
      "unat (acc_nonce next_sender) = unat (acc_nonce sender) + 1"
      "unat (acc_balance next_sender) + unat fee + unat (pay_amount p) = unat (acc_balance sender)"
proof -
  have sub: "unat c + unat b = unat a" if "checked_sub a b = Some c" for a b c :: u64
    using that by (auto simp: checked_sub_Some unat_sub word_le_nat_alt)
  have add: "unat c = unat a + unat b" if "checked_add a b = Some c" for a b c :: u64
    using that unfolding checked_add_Some by blast
  show thesis
  proof (cases "tx_sender tx = pay_recipient p")
    case True
    with assms obtain n b where n: "checked_add (acc_nonce sender) 1 = Some n" and b: "checked_sub (acc_balance sender) fee = Some b"
      and r: "next_sender = \<lparr>acc_nonce = n, acc_balance = b\<rparr>" "next_recipient = None"
      by (auto simp: payment_accounts_def result_simps)
    show thesis using self [OF True r(2)] sub [OF b] add [OF n] by (simp add: r)
  next
    case False
    with assms obtain n b b' found c where n: "checked_add (acc_nonce sender) 1 = Some n" and b: "checked_sub (acc_balance sender) fee = Some b"
      and b': "checked_sub b (pay_amount p) = Some b'" and found: "session_account s (pay_recipient p) = Ok found"
      and c: "checked_add (acc_balance (case found of Some a \<Rightarrow> a | None \<Rightarrow> no_account)) (pay_amount p) = Some c"
      and r: "next_sender = \<lparr>acc_nonce = n, acc_balance = b'\<rparr>"
        "next_recipient = Some \<lparr>acc_nonce = acc_nonce (case found of Some a \<Rightarrow> a | None \<Rightarrow> no_account), acc_balance = c\<rparr>"
      by (auto simp: payment_accounts_def result_simps Let_def)
    show thesis using transfer [OF False found r(2)] sub [OF b] sub [OF b'] add [OF n] add [OF c] by (simp add: r)
  qed
qed

section \<open>The session is the state with the diffs applied\<close>

definition map_snapshot :: "(state_key, byte list) btree \<Rightarrow> snapshot" where
  "map_snapshot m key = Ok (bt_get m key)"

definition session_reads :: "payment_session \<Rightarrow> (state_key, byte list) btree \<Rightarrow> bool" where
  "session_reads s m \<longleftrightarrow> (\<forall>a. session_account s a = map_err StateFailure (read_account (map_snapshot m) a))"

lemma read_account_insert:
  "read_account (map_snapshot (bt_insert (account_key a) (encode_account acc) m)) b
     = (if b = a then Ok (Some acc) else read_account (map_snapshot m) b)"
  by (simp add: read_account_def map_snapshot_def)

lemma bt_insert_commute:
  assumes "bt_ok m" and "k \<noteq> l"
  shows "bt_insert k v (bt_insert l w m) = bt_insert l w (bt_insert k v m)"
  using assms by (intro bt_ext) (simp_all add: fun_upd_twist)

lemma apply_payment_diff:
  assumes "bt_ok m" and "next_recipient \<noteq> None \<longrightarrow> tx_sender tx \<noteq> pay_recipient p"
  shows "apply_to (payment_diff tx p next_sender next_recipient) m =
    (let m1 = bt_insert (account_key (tx_sender tx)) (encode_account next_sender) m in
     case next_recipient of None \<Rightarrow> m1 | Some r \<Rightarrow> bt_insert (account_key (pay_recipient p)) (encode_account r) m1)"
  using assms
  by (auto simp: payment_diff_def apply_to_def sort_canonical_def diff_put_def diff_new_def Let_def bt_insert_commute
      split: option.splits)

lemma session_reads_step:
  assumes "session_reads s m" and "bt_ok m" and "payment_execute blake2s ed s tx = (Ok out, s')"
  shows "session_reads s' (apply_to (to_diff out) m)"
  using assms(3)
proof (cases rule: payment_execute_Ok)
  case (1 p sender fee next_sender next_recipient used)
  then have acc: "payment_accounts s tx p sender fee = Ok (next_sender, next_recipient)"
    and diff: "to_diff out = payment_diff tx p next_sender next_recipient" by (simp_all add: payment_done_def)
  have old: "(case bt_get (ps_accounts s) a of Some account \<Rightarrow> Ok (Some account) | None \<Rightarrow> map_err StateFailure (read_account (ps_snapshot s) a))
      = map_err StateFailure (read_account (map_snapshot m) a)" for a
    using assms(1) by (simp add: session_reads_def session_account_def)
  have keep: "ps_snapshot s' = ps_snapshot s" by (simp add: 1(4))
  from acc show ?thesis
  proof (cases rule: payment_accounts_Ok)
    case self
    then have "ps_accounts s' = bt_insert (tx_sender tx) next_sender (ps_accounts s)" by (simp add: 1(4))
    with self old keep show ?thesis
      by (auto simp: session_reads_def session_account_def diff apply_payment_diff assms(2) read_account_insert cong: option.case_cong)
  next
    case (transfer found r)
    then have "ps_accounts s' = bt_insert (pay_recipient p) r (bt_insert (tx_sender tx) next_sender (ps_accounts s))" by (simp add: 1(4))
    with transfer(1,3) old keep show ?thesis
      by (auto simp: session_reads_def session_account_def diff apply_payment_diff assms(2) read_account_insert cong: option.case_cong)
  qed
qed

section \<open>Conservation\<close>

text \<open>The balance that an entry of the state holds, if it is an account.\<close>

definition entry_balance :: "state_key \<times> byte list \<Rightarrow> nat" where
  "entry_balance e =
     (if \<exists>a. fst e = account_key a
      then (case decode_account (snd e) of Inr acc \<Rightarrow> unat (acc_balance acc) | Inl _ \<Rightarrow> 0) else 0)"

definition total_supply :: "(state_key, byte list) btree \<Rightarrow> nat" where
  "total_supply m = (\<Sum>e \<leftarrow> m. entry_balance e)"

definition balance_of :: "(state_key, byte list) btree \<Rightarrow> address \<Rightarrow> nat" where
  "balance_of m a = (case read_account (map_snapshot m) a of Inr (Some acc) \<Rightarrow> unat (acc_balance acc) | _ \<Rightarrow> 0)"

lemma balance_of_insert:
  "balance_of (bt_insert (account_key a) (encode_account acc) m) b = (if b = a then unat (acc_balance acc) else balance_of m b)"
  by (simp add: balance_of_def read_account_insert)

lemma total_supply_insert:
  assumes "bt_ok m"
  shows "total_supply (bt_insert (account_key a) (encode_account acc) m) + balance_of m a = total_supply m + unat (acc_balance acc)"
proof -
  have "entry_balance (account_key a, encode_account acc) = unat (acc_balance acc)" by (auto simp: entry_balance_def)
  moreover have "balance_of m a = (case bt_get m (account_key a) of None \<Rightarrow> 0 | Some v \<Rightarrow> entry_balance (account_key a, v))"
    by (auto simp: balance_of_def entry_balance_def read_account_def map_snapshot_def try_bind_split
        split: option.splits sum.splits)
  ultimately show ?thesis
    using sum_bt_insert [OF assms, of entry_balance "account_key a" "encode_account acc"] by (simp add: total_supply_def)
qed

definition nonce_of :: "(state_key, byte list) btree \<Rightarrow> address \<Rightarrow> nat" where
  "nonce_of m a = (case read_account (map_snapshot m) a of Inr (Some acc) \<Rightarrow> unat (acc_nonce acc) | _ \<Rightarrow> 0)"

lemma nonce_of_insert:
  "nonce_of (bt_insert (account_key a) (encode_account acc) m) b = (if b = a then unat (acc_nonce acc) else nonce_of m b)"
  by (simp add: nonce_of_def read_account_insert)

lemma session_reads_account:
  assumes "session_reads s m" and "session_account s a = Ok found"
  shows "balance_of m a = unat (acc_balance (case found of Some acc \<Rightarrow> acc | None \<Rightarrow> no_account))"
    "nonce_of m a = unat (acc_nonce (case found of Some acc \<Rightarrow> acc | None \<Rightarrow> no_account))"
proof -
  have "read_account (map_snapshot m) a = Ok found"
    using assms unfolding session_reads_def by (metis map_err_Ok)
  then show "balance_of m a = unat (acc_balance (case found of Some acc \<Rightarrow> acc | None \<Rightarrow> no_account))"
    "nonce_of m a = unat (acc_nonce (case found of Some acc \<Rightarrow> acc | None \<Rightarrow> no_account))"
    by (auto simp: balance_of_def nonce_of_def split: option.splits)
qed

lemma signed_validate_nonce:
  assumes "signed_validate blake2s ed \<lparr>sv_accounts = [(tx_sender tx, \<lparr>ra_state = sender, ra_public_key = pk\<rparr>)],
      sv_resource_limits = lim, sv_resource_prices = pr\<rparr> tx ctx = Ok v"
  shows "tx_nonce tx = acc_nonce sender" "tx_chain_id tx = vc_chain_id ctx" "vc_next_height ctx \<le> tx_expires_at tx"
    "address_from_public_key blake2s pk = tx_sender tx" "v = validated blake2s tx"
    "ed25519_verify ed pk (be_bytes (signing_hash blake2s tx)) (tx_signature tx)"
  using assms by (auto simp: signed_validate_def result_simps split: if_splits)

text \<open>One payment: the amount moves, the fee is burned, the nonce of the sender advances.\<close>

lemma payment_step:
  assumes reads: "session_reads s m" and ok: "bt_ok m" and exec: "payment_execute blake2s ed s tx = (Ok out, s')"
  defines "m' \<equiv> apply_to (to_diff out) m"
  shows "total_supply m' + exact_cost (rc_resources (to_receipt out)) (ps_prices s) = total_supply m"
    and "bt_ok m'"
    and "nonce_of m' a = nonce_of m a + of_bool (a = tx_sender tx)"
    and "unat (tx_nonce tx) = nonce_of m (tx_sender tx)"
proof -
  obtain p sender fee next_sender next_recipient used where
    pay: "payment_done blake2s ed s tx p sender fee next_sender next_recipient out"
    using exec by (rule payment_execute_Ok)
  then have acc: "payment_accounts s tx p sender fee = Ok (next_sender, next_recipient)"
    and diff: "to_diff out = payment_diff tx p next_sender next_recipient"
    and snd: "session_account s (tx_sender tx) = Ok (Some sender)"
    and fee: "unat fee = exact_cost (rc_resources (to_receipt out)) (ps_prices s)"
    and nonce: "tx_nonce tx = acc_nonce sender"
    using signed_validate_nonce(1) by (auto simp: payment_done_def checked_cost_Some_iff)
  note from_sender = session_reads_account [OF reads snd]
  from acc have "total_supply m' + exact_cost (rc_resources (to_receipt out)) (ps_prices s) = total_supply m \<and> bt_ok m'
      \<and> nonce_of m' a = nonce_of m a + of_bool (a = tx_sender tx)"
  proof (cases rule: payment_accounts_Ok)
    case self
    then have m': "m' = bt_insert (account_key (tx_sender tx)) (encode_account next_sender) m"
      by (simp add: m'_def diff apply_payment_diff ok)
    show ?thesis
      using self total_supply_insert [OF ok, of "tx_sender tx" next_sender] from_sender
      by (simp add: m' ok nonce_of_insert fee)
  next
    case (transfer found r)
    let ?m1 = "bt_insert (account_key (tx_sender tx)) (encode_account next_sender) m"
    have ok1: "bt_ok ?m1" using ok by simp
    have m': "m' = bt_insert (account_key (pay_recipient p)) (encode_account r) ?m1"
      using transfer by (simp add: m'_def diff apply_payment_diff ok)
    show ?thesis
      using transfer total_supply_insert [OF ok, of "tx_sender tx" next_sender] total_supply_insert [OF ok1, of "pay_recipient p" r]
        from_sender session_reads_account [OF reads transfer(2)]
      by (auto simp: m' ok nonce_of_insert balance_of_insert fee)
  qed
  then show "total_supply m' + exact_cost (rc_resources (to_receipt out)) (ps_prices s) = total_supply m" "bt_ok m'"
    "nonce_of m' a = nonce_of m a + of_bool (a = tx_sender tx)" by simp_all
  show "unat (tx_nonce tx) = nonce_of m (tx_sender tx)" using from_sender(2) by (simp add: nonce)
qed

text \<open>The number of transactions of one sender.\<close>

definition sent_by :: "address \<Rightarrow> transaction list \<Rightarrow> nat" where
  "sent_by a txs = length (filter (\<lambda>tx. tx_sender tx = a) txs)"

lemma payment_block:
  assumes "session_reads s m" and "bt_ok m" and "payment_execute_all blake2s ed s txs = Ok outs"
  shows "length outs = length txs
    \<and> total_supply (fold apply_to (map to_diff outs) m) + (\<Sum>out \<leftarrow> outs. exact_cost (rc_resources (to_receipt out)) (ps_prices s)) = total_supply m
    \<and> bt_ok (fold apply_to (map to_diff outs) m)
    \<and> (\<forall>a. nonce_of (fold apply_to (map to_diff outs) m) a = nonce_of m a + sent_by a txs)
    \<and> (\<forall>i < length txs. unat (tx_nonce (txs ! i)) = nonce_of m (tx_sender (txs ! i)) + sent_by (tx_sender (txs ! i)) (take i txs))"
  using assms
proof (induction txs arbitrary: s m outs)
  case Nil
  then show ?case by (simp add: sent_by_def)
next
  case (Cons tx txs)
  obtain out s' outs' where e: "payment_execute blake2s ed s tx = (Ok out, s')" and rest: "payment_execute_all blake2s ed s' txs = Ok outs'"
    and outs: "outs = out # outs'"
    using Cons.prems(3) by (auto simp: result_simps split: prod.splits sum.splits)
  let ?m = "apply_to (to_diff out) m"
  note step = payment_step [OF Cons.prems(1,2) e]
  have prices: "ps_prices s' = ps_prices s" using e by (rule payment_execute_Ok) simp
  note IH = Cons.IH [OF session_reads_step [OF Cons.prems(1,2) e] step(2) rest]
  have "unat (tx_nonce ((tx # txs) ! i)) = nonce_of m (tx_sender ((tx # txs) ! i)) + sent_by (tx_sender ((tx # txs) ! i)) (take i (tx # txs))"
    if "i < length (tx # txs)" for i
  proof (cases i)
    case 0
    then show ?thesis by (simp add: step(4) sent_by_def)
  next
    case (Suc j)
    then have "unat (tx_nonce (txs ! j)) = nonce_of ?m (tx_sender (txs ! j)) + sent_by (tx_sender (txs ! j)) (take j txs)"
      using IH that by simp
    then show ?thesis by (simp add: Suc step(3) sent_by_def)
  qed
  moreover have "length outs = length (tx # txs)" using IH by (simp add: outs)
  moreover have "total_supply (fold apply_to (map to_diff outs) m) + (\<Sum>out \<leftarrow> outs. exact_cost (rc_resources (to_receipt out)) (ps_prices s)) = total_supply m"
    using IH step(1) by (simp add: outs prices)
  moreover have "bt_ok (fold apply_to (map to_diff outs) m)" using IH by (simp add: outs)
  moreover have "nonce_of (fold apply_to (map to_diff outs) m) a = nonce_of m a + sent_by a (tx # txs)" for a
    using IH step(3) [of a] by (simp add: outs sent_by_def)
  ultimately show ?case by blast
qed

lemma payment_resources_cost:
  assumes "payment_resources tx = Ok r"
  shows "exact_cost r PAYMENT_PRICES = 1"
  using assms by (auto simp: payment_resources_def exact_cost_def PAYMENT_PRICES_def split: if_splits)

lemma payment_execute_all_receipts:
  assumes "payment_execute_all blake2s ed s txs = Ok outs"
  shows "list_all2 (\<lambda>tx out. payment_resources tx = Ok (rc_resources (to_receipt out))
    \<and> rc_transaction (to_receipt out) = compute_tx_id blake2s tx \<and> rc_succeeded (to_receipt out)) txs outs"
  using assms
proof (induction txs arbitrary: s outs)
  case (Cons tx txs)
  obtain out s' outs' where e: "payment_execute blake2s ed s tx = (Ok out, s')" and rest: "payment_execute_all blake2s ed s' txs = Ok outs'"
    and outs: "outs = out # outs'"
    using Cons.prems by (auto simp: result_simps split: prod.splits sum.splits)
  obtain p sender fee ns nr used where pay: "payment_done blake2s ed s tx p sender fee ns nr out"
    using e by (rule payment_execute_Ok)
  then obtain valid where "payment_resources tx = Ok (rc_resources (to_receipt out))" "rc_transaction (to_receipt out) = vt_id valid"
      "valid = validated blake2s tx"
    unfolding payment_done_def using signed_validate_nonce(5) by blast
  then have "payment_resources tx = Ok (rc_resources (to_receipt out))" "rc_transaction (to_receipt out) = compute_tx_id blake2s tx"
    by (simp_all add: validated_def)
  moreover have "rc_succeeded (to_receipt out)"
    using e by (auto simp: payment_execute_def result_simps Let_def split: sum.splits prod.splits if_splits)
  ultimately show ?case using Cons.IH [OF rest] by (simp add: outs)
qed simp

lemma session_reads_new: "state_ok blake2s db \<Longrightarrow> session_reads (payment_session_new (state_snapshot db) ctx capacity) (state_map db)"
proof -
  assume "state_ok blake2s db"
  then obtain data where data: "map_bounded data" "db = state_of blake2s data" by (auto simp: state_ok_def)
  then have "state_snapshot db = map_snapshot (state_map db)"
    using map_boundedD(1) [OF data(1)] by (simp add: fun_eq_iff state_snapshot_def map_snapshot_def tree_get_from_map)
  then show ?thesis by (simp add: session_reads_def session_account_def payment_session_new_def)
qed

text \<open>A block of payments is published as a whole or not at all.\<close>

lemma execute_payments_block:
  assumes ok: "state_ok blake2s db" and exec: "execute_payments blake2s ed db txs parent ctx capacity = (Ok (outs, root), db')"
  shows "state_ok blake2s db'" "root = ms_root db'" "state_map db' = fold apply_to (map to_diff outs) (state_map db)"
    "total_supply (state_map db') + length txs = total_supply (state_map db)"
    "nonce_of (state_map db') a = nonce_of (state_map db) a + sent_by a txs"
    "i < length txs \<Longrightarrow> unat (tx_nonce (txs ! i)) = nonce_of (state_map db) (tx_sender (txs ! i)) + sent_by (tx_sender (txs ! i)) (take i txs)"
proof -
  let ?s = "payment_session_new (state_snapshot db) ctx capacity"
  have all: "payment_execute_all blake2s ed ?s txs = Ok outs" and com: "state_commit blake2s db parent (map to_diff outs) = (Ok root, db')"
    using exec by (auto simp: execute_payments_def split: if_splits sum.splits prod.splits)
  from com have prep: "state_prepare blake2s db parent (map to_diff outs) = Ok db'" and root: "root = ms_root db'"
    by (auto simp: state_commit_def split: sum.splits)
  note st = state_prepare_ok [OF ok prep]
  have bt: "bt_ok (state_map db)" using ok by (simp add: state_ok_def map_boundedD(1))
  note block = payment_block [OF session_reads_new [OF ok] bt all]
  have "(\<Sum>out \<leftarrow> outs. exact_cost (rc_resources (to_receipt out)) PAYMENT_PRICES) = length outs"
    using payment_execute_all_receipts [OF all]
    by (induction rule: list_all2_induct) (auto simp: payment_resources_cost)
  then show "state_ok blake2s db'" "root = ms_root db'" "state_map db' = fold apply_to (map to_diff outs) (state_map db)"
    "total_supply (state_map db') + length txs = total_supply (state_map db)"
    "nonce_of (state_map db') a = nonce_of (state_map db) a + sent_by a txs"
    "i < length txs \<Longrightarrow> unat (tx_nonce (txs ! i)) = nonce_of (state_map db) (tx_sender (txs ! i)) + sent_by (tx_sender (txs ! i)) (take i txs)"
    using st block root by (simp_all add: payment_session_new_def)
qed

lemma execute_payments_Err:
  assumes "execute_payments blake2s ed db txs parent ctx capacity = (Err e, db')"
  shows "db' = db"
  using assms by (auto simp: execute_payments_def state_commit_def split: if_splits sum.splits prod.splits)

end
