(* ===== verification/Astro_Schedule.thy ===== *)
theory Astro_Schedule
  imports Astro_Payment
begin

text \<open>
  The planner of the crate \<open>execution\<close> (scheduler.rs, wave.rs): which declared keys a transaction may
  only read, the waves of \<open>GreedyScheduler::plan\<close>, and the conflict predecessors of
  \<open>GreedyScheduler::dependencies\<close>. The lemmas characterise both: a transaction stands in the
  first wave after its conflicting predecessors, and the dependency edges generate
  exactly the order of conflicting transactions.
\<close>

section \<open>Access modes (scheduler.rs)\<close>

definition read_only_code :: "transaction \<Rightarrow> state_key option" where
  "read_only_code tx =
     (if tx_lane tx \<noteq> Contracts
        \<or> \<not> (take 8 (tx_payload tx) = ascii ''ALCON002'' \<or> take 8 (tx_payload tx) = ascii ''ALCON003'')
        \<or> \<not> (40 < length (tx_payload tx) \<and> tx_payload tx ! 40 = 1)
      then None
      else case contract_decode (tx_payload tx) of
        Inl _ \<Rightarrow> None
      | Inr p \<Rightarrow>
          (case cp_action p of
             Call address _ _ \<Rightarrow> Some (contract_code_key address)
           | CallTrocto address _ _ \<Rightarrow> Some (trocto_contract_code_key address)
           | Deploy _ \<Rightarrow> None
           | DeployTrocto _ \<Rightarrow> None))"

definition key_mode :: "state_key \<Rightarrow> state_key option \<Rightarrow> access_mode" where
  "key_mode key read_only = (if read_only = Some key then ReadMode else WriteMode)"

definition serial_lease :: "transaction \<Rightarrow> state_lease" where
  "serial_lease tx = lease_new (map (\<lambda>key. \<lparr>ar_key = key, ar_mode = WriteMode\<rparr>) (tx_access_list tx))"

definition greedy_lease :: "transaction \<Rightarrow> state_lease" where
  "greedy_lease tx = lease_new (map (\<lambda>key. \<lparr>ar_key = key, ar_mode = key_mode key (read_only_code tx)\<rparr>) (tx_access_list tx))"

section \<open>Waves (scheduler.rs, wave.rs)\<close>

type_synonym execution_plan = "nat list list"

definition serial_plan :: "transaction list \<Rightarrow> execution_plan" where
  "serial_plan txs = map (\<lambda>i. [i]) [0..<length txs]"

record key_history =
  kh_writer :: "nat option"
  kh_last_access :: nat

definition predecessor_wave :: "(state_key, key_history) btree \<Rightarrow> (address, nat) btree \<Rightarrow> transaction \<Rightarrow> nat option" where
  "predecessor_wave hist senders tx =
     (let waves = List.map_filter (\<lambda>key. Option.bind (bt_get hist key) (\<lambda>h.
             case key_mode key (read_only_code tx) of ReadMode \<Rightarrow> kh_writer h | WriteMode \<Rightarrow> Some (kh_last_access h)))
           (tx_access_list tx)
         @ (case bt_get senders (tx_sender tx) of None \<Rightarrow> [] | Some w \<Rightarrow> [w]) in
      if waves = [] then None else Some (Max (set waves)))"

definition record_access :: "transaction \<Rightarrow> nat \<Rightarrow> state_key \<Rightarrow> (state_key, key_history) btree \<Rightarrow> (state_key, key_history) btree" where
  "record_access tx wave key hist =
     (let write = (key_mode key (read_only_code tx) = WriteMode) in
      bt_insert key
        (case bt_get hist key of
           Some h \<Rightarrow> \<lparr>kh_writer = (if write then Some wave else kh_writer h), kh_last_access = max (kh_last_access h) wave\<rparr>
         | None \<Rightarrow> \<lparr>kh_writer = (if write then Some wave else None), kh_last_access = wave\<rparr>)
        hist)"

fun greedy_plan_from ::
  "(state_key, key_history) btree \<Rightarrow> (address, nat) btree \<Rightarrow> execution_plan \<Rightarrow> nat \<Rightarrow> transaction list \<Rightarrow> execution_plan" where
  "greedy_plan_from hist senders waves index [] = waves"
| "greedy_plan_from hist senders waves index (tx # txs) =
     (let wave = (case predecessor_wave hist senders tx of None \<Rightarrow> 0 | Some previous \<Rightarrow> previous + 1);
          grown = (if wave = length waves then waves @ [[]] else waves) in
      greedy_plan_from (fold (record_access tx wave) (tx_access_list tx) hist) (bt_insert (tx_sender tx) wave senders)
        (grown[wave := grown ! wave @ [index]]) (index + 1) txs)"

definition greedy_plan :: "transaction list \<Rightarrow> execution_plan" where
  "greedy_plan txs = greedy_plan_from [] [] [] 0 txs"

section \<open>Dependencies (scheduler.rs)\<close>

record access_history =
  ah_writer :: "nat option"
  ah_readers :: "nat list"

definition option_list :: "'a option \<Rightarrow> 'a list" where
  "option_list v = (case v of None \<Rightarrow> [] | Some x \<Rightarrow> [x])"

definition previous_accesses :: "(state_key, access_history) btree \<Rightarrow> transaction \<Rightarrow> state_key \<Rightarrow> nat list" where
  "previous_accesses hist tx key =
     (case bt_get hist key of
        None \<Rightarrow> []
      | Some h \<Rightarrow> option_list (ah_writer h) @ (if key_mode key (read_only_code tx) = WriteMode then ah_readers h else []))"

definition note_access :: "transaction \<Rightarrow> nat \<Rightarrow> state_key \<Rightarrow> (state_key, access_history) btree \<Rightarrow> (state_key, access_history) btree" where
  "note_access tx index key hist =
     (let h = (case bt_get hist key of Some h \<Rightarrow> h | None \<Rightarrow> \<lparr>ah_writer = None, ah_readers = []\<rparr>) in
      bt_insert key
        (if key_mode key (read_only_code tx) = ReadMode
         then (if ah_readers h \<noteq> [] \<and> last (ah_readers h) = index then h else h\<lparr>ah_readers := ah_readers h @ [index]\<rparr>)
         else \<lparr>ah_writer = Some index, ah_readers = []\<rparr>)
        hist)"

fun dependencies_from ::
  "(state_key, access_history) btree \<Rightarrow> (address, nat) btree \<Rightarrow> nat \<Rightarrow> transaction list \<Rightarrow> nat list list" where
  "dependencies_from hist senders index [] = []"
| "dependencies_from hist senders index (tx # txs) =
     remdups_adj (sort (concat (map (previous_accesses hist tx) (tx_access_list tx)) @ option_list (bt_get senders (tx_sender tx))))
     # dependencies_from (fold (note_access tx index) (tx_access_list tx) hist) (bt_insert (tx_sender tx) index senders) (index + 1) txs"

definition dependencies :: "transaction list \<Rightarrow> nat list list" where
  "dependencies txs = dependencies_from [] [] 0 txs"

section \<open>Conflicts\<close>

abbreviation declares :: "transaction \<Rightarrow> state_key \<Rightarrow> bool" where
  "declares tx key \<equiv> key \<in> set (tx_access_list tx)"

definition writes_key :: "transaction \<Rightarrow> state_key \<Rightarrow> bool" where
  "writes_key tx key \<longleftrightarrow> declares tx key \<and> key_mode key (read_only_code tx) = WriteMode"

definition tx_conflict :: "transaction \<Rightarrow> transaction \<Rightarrow> bool" where
  "tx_conflict a b \<longleftrightarrow> tx_sender a = tx_sender b
     \<or> (\<exists>key. writes_key a key \<and> declares b key \<or> declares a key \<and> writes_key b key)"

lemma tx_conflict_sym: "tx_conflict a b \<longleftrightarrow> tx_conflict b a"
  by (auto simp: tx_conflict_def)

text \<open>Two transactions conflict if one sender made both or their leases conflict.\<close>

lemma tx_conflict_lease:
  "tx_conflict a b \<longleftrightarrow> tx_sender a = tx_sender b \<or> conflicts_with (greedy_lease a) (greedy_lease b)"
proof -
  have req: "(\<exists>r \<in> set (sl_requests (greedy_lease t)). ar_key r = key \<and> ar_mode r = mode)
      \<longleftrightarrow> declares t key \<and> key_mode key (read_only_code t) = mode" for t key mode
  proof -
    let ?m = "fold merge_mode (map (\<lambda>key. \<lparr>ar_key = key, ar_mode = key_mode key (read_only_code t)\<rparr>) (tx_access_list t)) []"
    note ok = fold_merge_mode [of "[]" "map (\<lambda>key. \<lparr>ar_key = key, ar_mode = key_mode key (read_only_code t)\<rparr>) (tx_access_list t)" key]
    have "(\<exists>r \<in> set (sl_requests (greedy_lease t)). ar_key r = key \<and> ar_mode r = mode) \<longleftrightarrow> (key, mode) \<in> set ?m"
      by (force simp: greedy_lease_def lease_new_def)
    also have "\<dots> \<longleftrightarrow> bt_get ?m key = Some mode" using ok by (simp add: bt_get_Some_iff)
    also have "\<dots> \<longleftrightarrow> declares t key \<and> key_mode key (read_only_code t) = mode"
      using ok by (cases mode; cases "bt_get ?m key") (auto, (metis access_mode.exhaust)+)
    finally show ?thesis .
  qed
  have "conflicts_with l m \<longleftrightarrow> (\<exists>k p q. (\<exists>r \<in> set (sl_requests l). ar_key r = k \<and> ar_mode r = p)
      \<and> (\<exists>r \<in> set (sl_requests m). ar_key r = k \<and> ar_mode r = q) \<and> (p = WriteMode \<or> q = WriteMode))" for l m
  proof
    assume "conflicts_with l m"
    then obtain a b where "a \<in> set (sl_requests l)" "b \<in> set (sl_requests m)" "ar_key a = ar_key b"
        "ar_mode a = WriteMode \<or> ar_mode b = WriteMode" unfolding conflicts_with_def list_ex_iff by blast
    then show "\<exists>k p q. (\<exists>r \<in> set (sl_requests l). ar_key r = k \<and> ar_mode r = p)
      \<and> (\<exists>r \<in> set (sl_requests m). ar_key r = k \<and> ar_mode r = q) \<and> (p = WriteMode \<or> q = WriteMode)"
      by (intro exI [of _ "ar_key a"] exI [of _ "ar_mode a"] exI [of _ "ar_mode b"] conjI bexI [of _ a] bexI [of _ b]) simp_all
  next
    assume "\<exists>k p q. (\<exists>r \<in> set (sl_requests l). ar_key r = k \<and> ar_mode r = p)
      \<and> (\<exists>r \<in> set (sl_requests m). ar_key r = k \<and> ar_mode r = q) \<and> (p = WriteMode \<or> q = WriteMode)"
    then obtain a b where "a \<in> set (sl_requests l)" "b \<in> set (sl_requests m)" "ar_key a = ar_key b"
        "ar_mode a = WriteMode \<or> ar_mode b = WriteMode" by metis
    then show "conflicts_with l m" unfolding conflicts_with_def list_ex_iff by blast
  qed
  then show ?thesis
    by (auto simp: req tx_conflict_def writes_key_def)
qed

section \<open>Every transaction stands in the first wave after its conflicting predecessors\<close>

text \<open>The numbers of the waves in the order of the block.\<close>

fun wave_numbers :: "(state_key, key_history) btree \<Rightarrow> (address, nat) btree \<Rightarrow> transaction list \<Rightarrow> nat list" where
  "wave_numbers hist senders [] = []"
| "wave_numbers hist senders (tx # txs) =
     (let wave = (case predecessor_wave hist senders tx of None \<Rightarrow> 0 | Some previous \<Rightarrow> previous + 1) in
      wave # wave_numbers (fold (record_access tx wave) (tx_access_list tx) hist) (bt_insert (tx_sender tx) wave senders) txs)"

definition opt_max :: "nat set \<Rightarrow> nat option" where
  "opt_max S = (if S = {} then None else Some (Max S))"

definition next_wave :: "nat set \<Rightarrow> nat" where
  "next_wave S = (case opt_max S of None \<Rightarrow> 0 | Some w \<Rightarrow> w + 1)"

lemma opt_max_insert:
  assumes "finite S" and "\<And>x. x \<in> S \<Longrightarrow> x \<le> w"
  shows "opt_max (insert w S) = Some w"
  using assms by (auto simp: opt_max_def intro: Max_eqI)

lemma opt_max_Some:
  assumes "finite S"
  shows "opt_max S = Some w \<longleftrightarrow> w \<in> S \<and> (\<forall>x \<in> S. x \<le> w)"
  using assms Max_eq_iff [of S w] by (auto simp: opt_max_def)

lemma next_wave_greater: "finite S \<Longrightarrow> x \<in> S \<Longrightarrow> x < next_wave S"
  by (auto simp: next_wave_def opt_max_def less_Suc_eq_le)

text \<open>The waves of the transactions planned so far that satisfy a predicate.\<close>

definition waves_where :: "transaction list \<Rightarrow> nat list \<Rightarrow> (transaction \<Rightarrow> bool) \<Rightarrow> nat set" where
  "waves_where prev ws P = (!) ws ` {i. i < length prev \<and> P (prev ! i)}"

lemma finite_waves_where [simp]: "finite (waves_where prev ws P)"
  by (simp add: waves_where_def)

lemma waves_where_snoc:
  assumes "length ws = length prev"
  shows "waves_where (prev @ [tx]) (ws @ [w]) P = (if P tx then insert w (waves_where prev ws P) else waves_where prev ws P)"
proof -
  let ?I = "{i. i < length prev \<and> P (prev ! i)}"
  have "{i. i < length (prev @ [tx]) \<and> P ((prev @ [tx]) ! i)} = ?I \<union> (if P tx then {length prev} else {})"
    by (auto simp: nth_append less_Suc_eq)
  moreover have "(!) (ws @ [w]) ` ?I = (!) ws ` ?I"
    by (rule image_cong) (simp_all add: nth_append assms)
  ultimately show ?thesis by (simp add: waves_where_def image_Un assms [symmetric])
qed

definition planned :: "transaction list \<Rightarrow> nat list \<Rightarrow> (state_key, key_history) btree \<Rightarrow> (address, nat) btree \<Rightarrow> bool" where
  "planned prev ws hist senders \<longleftrightarrow> length ws = length prev
     \<and> (\<forall>k. bt_get hist k = (case opt_max (waves_where prev ws (\<lambda>t. declares t k)) of
            None \<Rightarrow> None
          | Some l \<Rightarrow> Some \<lparr>kh_writer = opt_max (waves_where prev ws (\<lambda>t. writes_key t k)), kh_last_access = l\<rparr>))
     \<and> (\<forall>a. bt_get senders a = opt_max (waves_where prev ws (\<lambda>t. tx_sender t = a)))"

lemma planned_Nil: "planned [] [] [] []"
  by (simp add: planned_def waves_where_def opt_max_def)

lemma waves_where_conflict:
  "waves_where prev ws (\<lambda>t. tx_conflict t tx) =
     (\<Union>k \<in> set (tx_access_list tx). if key_mode k (read_only_code tx) = WriteMode then waves_where prev ws (\<lambda>t. declares t k)
        else waves_where prev ws (\<lambda>t. writes_key t k))
     \<union> waves_where prev ws (\<lambda>t. tx_sender t = tx_sender tx)"
  by (auto simp: waves_where_def tx_conflict_def writes_key_def)

lemma Max_image_opt:
  fixes F :: "'a \<Rightarrow> nat set"
  assumes "finite K" and "\<And>k. k \<in> K \<Longrightarrow> finite (F k)" and "finite G"
    and "C = {w. \<exists>k \<in> K. opt_max (F k) = Some w} \<union> {w. opt_max G = Some w}"
  shows "(if C = {} then None else Some (Max C)) = opt_max ((\<Union>k \<in> K. F k) \<union> G)"
proof -
  have sub: "C \<subseteq> (\<Union>k \<in> K. F k) \<union> G" using assms by (auto simp: opt_max_Some)
  have fin: "finite ((\<Union>k \<in> K. F k) \<union> G)" using assms by auto
  have dom: "\<exists>c \<in> C. x \<le> c" if "x \<in> (\<Union>k \<in> K. F k) \<union> G" for x
  proof -
    have "\<exists>c. opt_max S = Some c \<and> x \<le> c" if "x \<in> S" "finite S" for S :: "nat set"
      using that by (auto simp: opt_max_def)
    with that assms show ?thesis by blast
  qed
  show ?thesis
  proof (cases "C = {}")
    case True
    then have "(\<Union>k \<in> K. F k) \<union> G = {}" using dom by blast
    with True show ?thesis by (simp only: opt_max_def if_True refl)
  next
    case False
    then have ne: "(\<Union>k \<in> K. F k) \<union> G \<noteq> {}" using sub by blast
    have "Max C = Max ((\<Union>k \<in> K. F k) \<union> G)"
    proof (rule antisym)
      show "Max C \<le> Max ((\<Union>k \<in> K. F k) \<union> G)" by (rule Max_mono [OF sub False fin])
      obtain c where "c \<in> C" "Max ((\<Union>k \<in> K. F k) \<union> G) \<le> c" using dom [OF Max_in [OF fin ne]] by blast
      then show "Max ((\<Union>k \<in> K. F k) \<union> G) \<le> Max C" using Max_ge [OF finite_subset [OF sub fin]] order_trans by blast
    qed
    with False ne show ?thesis by (simp only: opt_max_def if_False)
  qed
qed

lemma predecessor_wave_spec:
  assumes "planned prev ws hist senders"
  shows "predecessor_wave hist senders tx = opt_max (waves_where prev ws (\<lambda>t. tx_conflict t tx))"
proof -
  define F where "F k = (if key_mode k (read_only_code tx) = WriteMode then waves_where prev ws (\<lambda>t. declares t k)
        else waves_where prev ws (\<lambda>t. writes_key t k))" for k
  let ?G = "waves_where prev ws (\<lambda>t. tx_sender t = tx_sender tx)"
  define xs where "xs = List.map_filter (\<lambda>key. Option.bind (bt_get hist key) (\<lambda>h.
             case key_mode key (read_only_code tx) of ReadMode \<Rightarrow> kh_writer h | WriteMode \<Rightarrow> Some (kh_last_access h)))
           (tx_access_list tx) @ (case bt_get senders (tx_sender tx) of None \<Rightarrow> [] | Some w \<Rightarrow> [w])"
  have hist: "bt_get hist k = (case opt_max (waves_where prev ws (\<lambda>t. declares t k)) of
            None \<Rightarrow> None
          | Some l \<Rightarrow> Some \<lparr>kh_writer = opt_max (waves_where prev ws (\<lambda>t. writes_key t k)), kh_last_access = l\<rparr>)"
    and snd: "bt_get senders a = opt_max (waves_where prev ws (\<lambda>t. tx_sender t = a))" for k a
    using assms by (simp_all only: planned_def)
  have none: "opt_max (waves_where prev ws (\<lambda>t. declares t k)) = None \<Longrightarrow> opt_max (waves_where prev ws (\<lambda>t. writes_key t k)) = None" for k
    by (auto simp: opt_max_def waves_where_def writes_key_def split: if_splits)
  have key: "Option.bind (bt_get hist key) (\<lambda>h.
       case key_mode key (read_only_code tx) of ReadMode \<Rightarrow> kh_writer h | WriteMode \<Rightarrow> Some (kh_last_access h)) = opt_max (F key)" for key
    using none [of key] unfolding hist F_def by (cases "key_mode key (read_only_code tx)") (auto split: option.splits)
  have filt: "set (List.map_filter f ys) = {w. \<exists>y \<in> set ys. f y = Some w}" for f :: "state_key \<Rightarrow> nat option" and ys
    by (induction ys) (auto simp: map_filter_simps split: option.splits)
  have "set xs = {w. \<exists>k \<in> set (tx_access_list tx). opt_max (F k) = Some w} \<union> {w. opt_max ?G = Some w}"
    unfolding xs_def key snd set_append filt by (auto split: option.splits)
  moreover have "finite (F k)" for k by (simp add: F_def)
  ultimately have "(if set xs = {} then None else Some (Max (set xs))) = opt_max ((\<Union>k \<in> set (tx_access_list tx). F k) \<union> ?G)"
    by (intro Max_image_opt) simp_all
  then show ?thesis
    unfolding waves_where_conflict F_def [symmetric] by (simp add: predecessor_wave_def xs_def [symmetric] Let_def)
qed

definition access_update :: "transaction \<Rightarrow> nat \<Rightarrow> state_key \<Rightarrow> key_history option \<Rightarrow> key_history" where
  "access_update tx wave key entry =
     (let write = (key_mode key (read_only_code tx) = WriteMode) in
      case entry of
        Some h \<Rightarrow> \<lparr>kh_writer = (if write then Some wave else kh_writer h), kh_last_access = max (kh_last_access h) wave\<rparr>
      | None \<Rightarrow> \<lparr>kh_writer = (if write then Some wave else None), kh_last_access = wave\<rparr>)"

lemma fold_record_access:
  "bt_get (fold (record_access tx wave) keys hist) k
     = (if k \<in> set keys then Some (access_update tx wave k (bt_get hist k)) else bt_get hist k)"
proof (induction keys arbitrary: hist)
  case (Cons key keys)
  have one: "record_access tx wave key hist = bt_insert key (access_update tx wave key (bt_get hist key)) hist"
    by (simp add: record_access_def access_update_def Let_def)
  have idem: "access_update tx wave key (Some (access_update tx wave key h)) = access_update tx wave key h" for h
    by (cases h) (simp_all add: access_update_def Let_def)
  show ?case
    unfolding fold_Cons comp_def Cons.IH one by (simp add: idem)
qed simp

lemma planned_step:
  fixes tx :: transaction
  assumes "planned prev ws hist senders"
  defines "wave \<equiv> next_wave (waves_where prev ws (\<lambda>t. tx_conflict t tx))"
  shows "planned (prev @ [tx]) (ws @ [wave]) (fold (record_access tx wave) (tx_access_list tx) hist) (bt_insert (tx_sender tx) wave senders)"
proof -
  have len: "length ws = length prev"
    and hist: "bt_get hist k = (case opt_max (waves_where prev ws (\<lambda>t. declares t k)) of
            None \<Rightarrow> None
          | Some l \<Rightarrow> Some \<lparr>kh_writer = opt_max (waves_where prev ws (\<lambda>t. writes_key t k)), kh_last_access = l\<rparr>)"
    and snd: "bt_get senders a = opt_max (waves_where prev ws (\<lambda>t. tx_sender t = a))" for k a
    using assms(1) by (simp_all only: planned_def)
  have later: "x < wave" if "x \<in> waves_where prev ws P" "\<And>t. P t \<Longrightarrow> tx_conflict t tx" for x P
  proof -
    have "x \<in> waves_where prev ws (\<lambda>t. tx_conflict t tx)" using that by (auto simp: waves_where_def)
    then show ?thesis unfolding wave_def by (rule next_wave_greater [OF finite_waves_where])
  qed
  have none: "opt_max (waves_where prev ws (\<lambda>t. declares t k)) = None \<Longrightarrow> opt_max (waves_where prev ws (\<lambda>t. writes_key t k)) = None" for k
    by (auto simp: opt_max_def waves_where_def writes_key_def split: if_splits)
  have insert_max: "opt_max (insert w S) = Some (case opt_max S of None \<Rightarrow> w | Some l \<Rightarrow> max l w)" if "finite S" for S w
    using that by (auto simp: opt_max_def max.commute)
  have entry: "bt_get (fold (record_access tx wave) (tx_access_list tx) hist) k =
      (case opt_max (waves_where (prev @ [tx]) (ws @ [wave]) (\<lambda>t. declares t k)) of
         None \<Rightarrow> None
       | Some l \<Rightarrow> Some \<lparr>kh_writer = opt_max (waves_where (prev @ [tx]) (ws @ [wave]) (\<lambda>t. writes_key t k)), kh_last_access = l\<rparr>)" for k
  proof (cases "declares tx k")
    case False
    then show ?thesis using len by (simp add: fold_record_access waves_where_snoc hist writes_key_def cong: option.case_cong)
  next
    case True
    show ?thesis
    proof (cases "key_mode k (read_only_code tx) = WriteMode")
      case w: True
      then have wr: "writes_key tx k" using True by (simp add: writes_key_def)
      have "opt_max (insert wave (waves_where prev ws (\<lambda>t. writes_key t k))) = Some wave"
      proof (rule opt_max_insert)
        fix x assume x: "x \<in> waves_where prev ws (\<lambda>t. writes_key t k)"
        have "x < wave" by (rule later [OF x]) (use True in \<open>auto simp: tx_conflict_def\<close>)
        then show "x \<le> wave" by simp
      qed simp
      with True wr w len none [of k] show ?thesis
        by (auto simp: fold_record_access waves_where_snoc hist access_update_def insert_max split: option.splits)
    next
      case r: False
      then have "\<not> writes_key tx k" by (simp add: writes_key_def)
      with True r len none [of k] show ?thesis
        by (auto simp: fold_record_access waves_where_snoc hist access_update_def insert_max split: option.splits)
    qed
  qed
  have "opt_max (insert wave (waves_where prev ws (\<lambda>t. tx_sender t = tx_sender tx))) = Some wave"
  proof (rule opt_max_insert)
    fix x assume x: "x \<in> waves_where prev ws (\<lambda>t. tx_sender t = tx_sender tx)"
    have "x < wave" by (rule later [OF x]) (simp add: tx_conflict_def)
    then show "x \<le> wave" by simp
  qed simp
  then have "bt_get (bt_insert (tx_sender tx) wave senders) a = opt_max (waves_where (prev @ [tx]) (ws @ [wave]) (\<lambda>t. tx_sender t = a))" for a
    using len by (cases "a = tx_sender tx") (simp_all add: waves_where_snoc snd)
  with entry len show ?thesis by (simp add: planned_def)
qed

text \<open>Each wave number is the specified one.\<close>

definition earliest :: "transaction list \<Rightarrow> nat list \<Rightarrow> bool" where
  "earliest txs ws \<longleftrightarrow> length ws = length txs
     \<and> (\<forall>j < length txs. ws ! j = next_wave ((!) ws ` {i. i < j \<and> tx_conflict (txs ! i) (txs ! j)}))"

lemma wave_numbers_earliest:
  assumes "planned prev ws hist senders" and "earliest prev ws"
  shows "earliest (prev @ txs) (ws @ wave_numbers hist senders txs)"
  using assms
proof (induction txs arbitrary: prev ws hist senders)
  case (Cons tx txs)
  define wave where "wave = next_wave (waves_where prev ws (\<lambda>t. tx_conflict t tx))"
  have len: "length ws = length prev" using Cons.prems(2) by (simp add: earliest_def)
  have wave: "(case predecessor_wave hist senders tx of None \<Rightarrow> 0 | Some previous \<Rightarrow> previous + 1) = wave"
    by (simp add: predecessor_wave_spec [OF Cons.prems(1)] wave_def next_wave_def)
  have "earliest (prev @ [tx]) (ws @ [wave])"
    unfolding earliest_def
  proof (intro conjI allI impI)
    fix j assume j: "j < length (prev @ [tx])"
    have img: "(!) (ws @ [wave]) ` {i. i < j \<and> tx_conflict ((prev @ [tx]) ! i) ((prev @ [tx]) ! j)}
        = (!) ws ` {i. i < j \<and> tx_conflict (prev ! i) ((prev @ [tx]) ! j)}"
      using j len by (intro image_cong Collect_cong conj_cong) (auto simp: nth_append)
    show "(ws @ [wave]) ! j = next_wave ((!) (ws @ [wave]) ` {i. i < j \<and> tx_conflict ((prev @ [tx]) ! i) ((prev @ [tx]) ! j)})"
    proof (cases "j < length prev")
      case True
      then show ?thesis unfolding img using Cons.prems(2) len by (simp add: earliest_def nth_append)
    next
      case False
      then have "j = length prev" using j by simp
      then show ?thesis unfolding img using len nth_append_length [of ws wave "[]"] by (simp add: wave_def waves_where_def)
    qed
  qed (simp add: len)
  from Cons.IH [OF planned_step [OF Cons.prems(1), of tx, folded wave_def] this] show ?case
    by (simp add: wave Let_def)
qed simp

text \<open>The plan groups the indexes by their wave.\<close>

definition plan_of :: "nat list \<Rightarrow> execution_plan" where
  "plan_of ws = map (\<lambda>w. filter (\<lambda>i. ws ! i = w) [0..<length ws]) [0..<next_wave (set ws)]"

lemma plan_of_snoc:
  assumes "w \<le> next_wave (set ws)"
  shows "plan_of (ws @ [w]) = (let grown = (if w = length (plan_of ws) then plan_of ws @ [[]] else plan_of ws) in
    grown[w := grown ! w @ [length ws]])"
proof -
  define N where "N = next_wave (set ws)"
  define f where "f v = filter (\<lambda>i. ws ! i = v) [0..<length ws]" for v
  have plan: "plan_of ws = map f [0..<N]" by (simp add: plan_of_def f_def N_def)
  have filt: "filter (\<lambda>i. (ws @ [w]) ! i = v) [0..<length (ws @ [w])] = f v @ (if v = w then [length ws] else [])" for v
  proof -
    have "filter (\<lambda>i. (ws @ [w]) ! i = v) [0..<length ws] = f v"
      unfolding f_def by (rule filter_cong) (auto simp: nth_append)
    then show ?thesis by simp
  qed
  have nw: "next_wave (set (ws @ [w])) = (if w = N then N + 1 else N)"
  proof (cases "ws = []")
    case True
    then show ?thesis using assms by (simp add: N_def next_wave_def opt_max_def)
  next
    case False
    then show ?thesis using assms by (auto simp: N_def next_wave_def opt_max_def max_def)
  qed
  have plan': "plan_of (ws @ [w]) = map (\<lambda>v. f v @ (if v = w then [length ws] else [])) [0..<if w = N then N + 1 else N]"
    unfolding plan_of_def filt nw ..
  have empty: "f N = []"
    unfolding f_def
  proof (rule filter_False, rule ballI)
    fix i assume "i \<in> set [0..<length ws]"
    then have "ws ! i < N" unfolding N_def by (intro next_wave_greater) simp_all
    then show "ws ! i \<noteq> N" by simp
  qed
  show ?thesis
  proof (cases "w = N")
    case True
    have "map (\<lambda>v. f v @ (if v = N then [length ws] else [])) [0..<N] = map f [0..<N]" by simp
    with True empty show ?thesis unfolding plan' plan by (simp add: list_update_append nth_append)
  next
    case False
    then have "w < N" using assms by (simp add: N_def)
    with False show ?thesis unfolding plan' plan
      by (intro nth_equalityI) (auto simp: nth_list_update Let_def)
  qed
qed

lemma greedy_plan_from_waves:
  assumes "planned prev ws hist senders"
  shows "greedy_plan_from hist senders (plan_of ws) (length ws) txs = plan_of (ws @ wave_numbers hist senders txs)"
  using assms
proof (induction txs arbitrary: prev ws hist senders)
  case (Cons tx txs)
  define wave where "wave = next_wave (waves_where prev ws (\<lambda>t. tx_conflict t tx))"
  have wave: "(case predecessor_wave hist senders tx of None \<Rightarrow> 0 | Some previous \<Rightarrow> previous + 1) = wave"
    by (simp add: predecessor_wave_spec [OF Cons.prems] wave_def next_wave_def)
  have "waves_where prev ws P \<subseteq> set ws" for P using Cons.prems by (auto simp: planned_def waves_where_def)
  then have "wave \<le> next_wave (set ws)"
    unfolding wave_def next_wave_def opt_max_def using Max_mono [OF _ _ finite_set, of _ ws] by fastforce
  note snoc = plan_of_snoc [OF this]
  from Cons.IH [OF planned_step [OF Cons.prems, of tx, folded wave_def]] show ?case
    by (simp add: wave snoc Let_def)
qed simp

lemma greedy_plan_waves: "greedy_plan txs = plan_of (wave_numbers [] [] txs)"
  using greedy_plan_from_waves [OF planned_Nil, of txs] by (simp add: greedy_plan_def plan_of_def next_wave_def opt_max_def)

lemma greedy_plan_earliest: "\<exists>ws. earliest txs ws \<and> greedy_plan txs = plan_of ws"
  using wave_numbers_earliest [OF planned_Nil, of txs] by (auto simp: greedy_plan_waves earliest_def)

section \<open>Dependencies generate the order of conflicting transactions\<close>

text \<open>The conflicts that \<open>dependencies\<close> lists: with the last writer of a declared key, with the readers since then for a written
  key, and with the previous transaction of the sender.\<close>

definition direct :: "transaction list \<Rightarrow> nat \<Rightarrow> nat \<Rightarrow> bool" where
  "direct txs i j \<longleftrightarrow> i < j \<and>
     ((\<exists>k. declares (txs ! j) k \<and> writes_key (txs ! i) k \<and> (\<forall>l. i < l \<and> l < j \<longrightarrow> \<not> writes_key (txs ! l) k))
      \<or> (\<exists>k. writes_key (txs ! j) k \<and> declares (txs ! i) k \<and> (\<forall>l. i \<le> l \<and> l < j \<longrightarrow> \<not> writes_key (txs ! l) k))
      \<or> tx_sender (txs ! i) = tx_sender (txs ! j) \<and> (\<forall>l. i < l \<and> l < j \<longrightarrow> tx_sender (txs ! l) \<noteq> tx_sender (txs ! j)))"

definition last_index :: "nat \<Rightarrow> (nat \<Rightarrow> bool) \<Rightarrow> nat option" where
  "last_index n P = opt_max {i. i < n \<and> P i}"

lemma last_index_Some: "last_index n P = Some i \<longleftrightarrow> i < n \<and> P i \<and> (\<forall>l. i < l \<and> l < n \<longrightarrow> \<not> P l)"
  unfolding last_index_def by (subst opt_max_Some) (auto simp: not_less [symmetric])

lemma last_index_Suc: "last_index (Suc n) P = (if P n then Some n else last_index n P)"
proof (cases "P n")
  case True
  then have "last_index (Suc n) P = Some n" by (subst last_index_Some) auto
  with True show ?thesis by simp
next
  case False
  then have "{i. i < Suc n \<and> P i} = {i. i < n \<and> P i}" by (auto simp: less_Suc_eq)
  with False show ?thesis by (simp add: last_index_def)
qed

definition readers_since :: "transaction list \<Rightarrow> nat \<Rightarrow> state_key \<Rightarrow> nat list" where
  "readers_since txs n k = filter (\<lambda>i. declares (txs ! i) k \<and> (\<forall>l. i \<le> l \<and> l < n \<longrightarrow> \<not> writes_key (txs ! l) k)) [0..<n]"

lemma readers_since_Suc:
  "readers_since txs (Suc n) k =
     (if writes_key (txs ! n) k then [] else if declares (txs ! n) k then readers_since txs n k @ [n] else readers_since txs n k)"
proof (cases "writes_key (txs ! n) k")
  case True
  have "readers_since txs (Suc n) k = []"
    unfolding readers_since_def
  proof (rule filter_False, rule ballI)
    fix i assume "i \<in> set [0..<Suc n]"
    then have "i \<le> n" by auto
    with True show "\<not> (declares (txs ! i) k \<and> (\<forall>l. i \<le> l \<and> l < Suc n \<longrightarrow> \<not> writes_key (txs ! l) k))" by (meson lessI)
  qed
  with True show ?thesis by simp
next
  case False
  then have "filter (\<lambda>i. declares (txs ! i) k \<and> (\<forall>l. i \<le> l \<and> l < Suc n \<longrightarrow> \<not> writes_key (txs ! l) k)) [0..<n] = readers_since txs n k"
    unfolding readers_since_def by (intro filter_cong) (auto simp: less_Suc_eq)
  with False show ?thesis by (auto simp: readers_since_def le_less_Suc_eq)
qed

definition noted :: "transaction list \<Rightarrow> nat \<Rightarrow> (state_key, access_history) btree \<Rightarrow> (address, nat) btree \<Rightarrow> bool" where
  "noted txs n hist senders \<longleftrightarrow>
     (\<forall>k. (case bt_get hist k of Some h \<Rightarrow> h | None \<Rightarrow> \<lparr>ah_writer = None, ah_readers = []\<rparr>)
        = \<lparr>ah_writer = last_index n (\<lambda>i. writes_key (txs ! i) k), ah_readers = readers_since txs n k\<rparr>)
     \<and> (\<forall>a. bt_get senders a = last_index n (\<lambda>i. tx_sender (txs ! i) = a))"

lemma noted_Nil: "noted txs 0 [] []"
  by (simp add: noted_def last_index_def opt_max_def readers_since_def)

definition note_update :: "transaction \<Rightarrow> nat \<Rightarrow> state_key \<Rightarrow> access_history \<Rightarrow> access_history" where
  "note_update tx index key h =
     (if key_mode key (read_only_code tx) = ReadMode
      then (if ah_readers h \<noteq> [] \<and> last (ah_readers h) = index then h else h\<lparr>ah_readers := ah_readers h @ [index]\<rparr>)
      else \<lparr>ah_writer = Some index, ah_readers = []\<rparr>)"

lemma fold_note_access:
  "bt_get (fold (note_access tx index) keys hist) k
     = (if k \<in> set keys
        then Some (note_update tx index k (case bt_get hist k of Some h \<Rightarrow> h | None \<Rightarrow> \<lparr>ah_writer = None, ah_readers = []\<rparr>))
        else bt_get hist k)"
proof (induction keys arbitrary: hist)
  case (Cons key keys)
  have one: "note_access tx index key hist
      = bt_insert key (note_update tx index key (case bt_get hist key of Some h \<Rightarrow> h | None \<Rightarrow> \<lparr>ah_writer = None, ah_readers = []\<rparr>)) hist"
    by (simp add: note_access_def note_update_def Let_def)
  have idem: "note_update tx index key (note_update tx index key h) = note_update tx index key h" for h
    by (auto simp: note_update_def)
  show ?case
    unfolding fold_Cons comp_def Cons.IH one by (simp add: idem)
qed simp

lemma noted_step:
  assumes "noted txs n hist senders"
  shows "noted txs (Suc n) (fold (note_access (txs ! n) n) (tx_access_list (txs ! n)) hist) (bt_insert (tx_sender (txs ! n)) n senders)"
proof -
  have hist: "(case bt_get hist k of Some h \<Rightarrow> h | None \<Rightarrow> \<lparr>ah_writer = None, ah_readers = []\<rparr>)
        = \<lparr>ah_writer = last_index n (\<lambda>i. writes_key (txs ! i) k), ah_readers = readers_since txs n k\<rparr>"
    and snd: "bt_get senders a = last_index n (\<lambda>i. tx_sender (txs ! i) = a)" for k a
    using assms by (simp_all only: noted_def)
  have new: "\<not> (readers_since txs n k \<noteq> [] \<and> last (readers_since txs n k) = n)" for k
  proof
    assume "readers_since txs n k \<noteq> [] \<and> last (readers_since txs n k) = n"
    then have "n \<in> set (readers_since txs n k)" using last_in_set by metis
    then show False by (simp add: readers_since_def)
  qed
  have "(case bt_get (fold (note_access (txs ! n) n) (tx_access_list (txs ! n)) hist) k of Some h \<Rightarrow> h | None \<Rightarrow> \<lparr>ah_writer = None, ah_readers = []\<rparr>)
      = \<lparr>ah_writer = last_index (Suc n) (\<lambda>i. writes_key (txs ! i) k), ah_readers = readers_since txs (Suc n) k\<rparr>" for k
  proof (cases "declares (txs ! n) k")
    case False
    then have "\<not> writes_key (txs ! n) k" by (simp add: writes_key_def)
    with False show ?thesis by (simp add: fold_note_access hist last_index_Suc readers_since_Suc)
  next
    case True
    note entry = fold_note_access [of "txs ! n" n "tx_access_list (txs ! n)" hist k, unfolded hist]
    show ?thesis
    proof (cases "key_mode k (read_only_code (txs ! n))")
      case ReadMode
      then have "\<not> writes_key (txs ! n) k" by (simp add: writes_key_def)
      with ReadMode True new [of k] show ?thesis
        unfolding entry note_update_def last_index_Suc readers_since_Suc by simp
    next
      case WriteMode
      then have "writes_key (txs ! n) k" using True by (simp add: writes_key_def)
      with WriteMode True show ?thesis
        unfolding entry note_update_def last_index_Suc readers_since_Suc by simp
    qed
  qed
  moreover have "bt_get (bt_insert (tx_sender (txs ! n)) n senders) a = last_index (Suc n) (\<lambda>i. tx_sender (txs ! i) = a)" for a
    by (auto simp: snd last_index_Suc)
  ultimately show ?thesis by (simp add: noted_def)
qed

lemma sorted_remdups_adj_strict: "sorted xs \<Longrightarrow> sorted_wrt (<) (remdups_adj (xs :: nat list))"
  by (induction xs rule: remdups_adj.induct) (auto simp: order_less_le)

lemma dependencies_from_direct:
  assumes "noted txs n hist senders" and "n + length us = length txs" and "us = drop n txs" and "j < length us"
  shows "set (dependencies_from hist senders n us ! j) = {i. direct txs i (n + j)} \<and> sorted_wrt (<) (dependencies_from hist senders n us ! j)"
  using assms
proof (induction us arbitrary: n hist senders j)
  case (Cons tx us)
  have n: "n < length txs" using Cons.prems(2) by simp
  then have tx: "tx = txs ! n" and us: "us = drop (Suc n) txs"
    using Cons.prems(3) by (metis Cons_nth_drop_Suc list.inject)+
  show ?case
  proof (cases j)
    case (Suc l)
    then show ?thesis
      using Cons.IH [OF noted_step [OF Cons.prems(1)], of l] Cons.prems(2,4) us by (simp add: tx)
  next
    case 0
    have hist: "(case bt_get hist k of Some h \<Rightarrow> h | None \<Rightarrow> \<lparr>ah_writer = None, ah_readers = []\<rparr>)
          = \<lparr>ah_writer = last_index n (\<lambda>i. writes_key (txs ! i) k), ah_readers = readers_since txs n k\<rparr>"
      and snd: "bt_get senders a = last_index n (\<lambda>i. tx_sender (txs ! i) = a)" for k a
      using Cons.prems(1) by (simp_all only: noted_def)
    have prev: "previous_accesses hist tx k = option_list (last_index n (\<lambda>i. writes_key (txs ! i) k))
        @ (if key_mode k (read_only_code tx) = WriteMode then readers_since txs n k else [])" for k
      using hist [of k] by (auto simp: previous_accesses_def option_list_def split: option.splits)
    have opt: "set (option_list v) = {x. v = Some x}" for v :: "nat option" by (cases v) (auto simp: option_list_def)
    let ?all = "concat (map (previous_accesses hist tx) (tx_access_list tx)) @ option_list (bt_get senders (tx_sender tx))"
    have "i \<in> set ?all \<longleftrightarrow> direct txs i n" for i
    proof -
      have "i \<in> set ?all \<longleftrightarrow> (\<exists>k \<in> set (tx_access_list tx). last_index n (\<lambda>i. writes_key (txs ! i) k) = Some i
            \<or> key_mode k (read_only_code tx) = WriteMode \<and> i \<in> set (readers_since txs n k))
          \<or> last_index n (\<lambda>i. tx_sender (txs ! i) = tx_sender tx) = Some i"
        unfolding set_append set_concat set_map Un_iff UN_iff prev snd opt by (auto simp: opt)
      also have "\<dots> \<longleftrightarrow> direct txs i n"
        unfolding last_index_Some readers_since_def direct_def tx writes_key_def by auto
      finally show ?thesis .
    qed
    then have "set ?all = {i. direct txs i n}" by blast
    with 0 sorted_remdups_adj_strict [OF sorted_sort, of ?all] show ?thesis by simp
  qed
qed simp

lemma length_dependencies: "length (dependencies txs) = length txs"
proof -
  have "length (dependencies_from hist senders n txs) = length txs" for hist senders n
    by (induction txs arbitrary: hist senders n) simp_all
  then show ?thesis by (simp add: dependencies_def)
qed

lemma dependencies_direct:
  assumes "j < length txs"
  shows "set (dependencies txs ! j) = {i. direct txs i j}" "sorted_wrt (<) (dependencies txs ! j)"
  using dependencies_from_direct [OF noted_Nil, of txs txs j] assms by (simp_all add: dependencies_def)

lemma direct_conflict: "direct txs i j \<Longrightarrow> i < j \<and> tx_conflict (txs ! i) (txs ! j)"
  by (auto simp: direct_def tx_conflict_def)

lemma conflict_direct:
  assumes "i < j" and "tx_conflict (txs ! i) (txs ! j)"
  shows "(direct txs)\<^sup>+\<^sup>+ i j"
  using assms
proof (induction j rule: less_induct)
  case (less j)
  have chain: "(direct txs)\<^sup>+\<^sup>+ i j" if "direct txs l j" "i = l \<or> i < l \<and> tx_conflict (txs ! i) (txs ! l)" for l
  proof (cases "i = l")
    case False
    then have "(direct txs)\<^sup>+\<^sup>+ i l" using that less.IH [of l] direct_conflict [OF that(1)] by blast
    with that(1) show ?thesis by (rule tranclp.trancl_into_trancl [rotated])
  qed (use that in blast)
  have last: "\<exists>l. last_index j P = Some l \<and> i \<le> l \<and> P l \<and> l < j" if "P i" for P
  proof -
    have "last_index j P \<noteq> None" using that less.prems(1) by (auto simp: last_index_def opt_max_def)
    then obtain l where l: "last_index j P = Some l" by blast
    then have "i \<le> l" using that less.prems(1) unfolding last_index_Some by (meson not_le)
    with l show ?thesis by (auto simp: last_index_Some)
  qed
  consider (sender) "tx_sender (txs ! i) = tx_sender (txs ! j)"
    | (writer) k where "writes_key (txs ! i) k" "declares (txs ! j) k"
    | (reader) k where "declares (txs ! i) k" "writes_key (txs ! j) k" "\<not> writes_key (txs ! i) k"
  proof (cases "tx_sender (txs ! i) = tx_sender (txs ! j)")
    case False
    then obtain k where "writes_key (txs ! i) k \<and> declares (txs ! j) k \<or> declares (txs ! i) k \<and> writes_key (txs ! j) k"
      using less.prems(2) unfolding tx_conflict_def by metis
    moreover have "declares t k" if "writes_key t k" for t using that by (simp add: writes_key_def)
    ultimately show thesis using that(2,3) [of k] by blast
  qed (rule that(1))
  then show ?case
  proof cases
    case sender
    obtain l where l: "last_index j (\<lambda>l. tx_sender (txs ! l) = tx_sender (txs ! j)) = Some l" "i \<le> l"
      using last [of "\<lambda>l. tx_sender (txs ! l) = tx_sender (txs ! j)"] sender by blast
    show ?thesis
      by (rule chain [of l]) (use l sender in \<open>auto simp: last_index_Some direct_def tx_conflict_def\<close>)
  next
    case (writer k)
    obtain l where l: "last_index j (\<lambda>l. writes_key (txs ! l) k) = Some l" "i \<le> l"
      using last [of "\<lambda>l. writes_key (txs ! l) k"] writer by blast
    show ?thesis
      by (rule chain [of l]) (use l writer in \<open>auto simp: last_index_Some direct_def tx_conflict_def writes_key_def\<close>)
  next
    case (reader k)
    show ?thesis
    proof (cases "\<exists>l. i \<le> l \<and> l < j \<and> writes_key (txs ! l) k")
      case False
      with reader less.prems(1) have "direct txs i j" unfolding direct_def by blast
      then show ?thesis by blast
    next
      case True
      then obtain m where m: "i \<le> m" "m < j" "writes_key (txs ! m) k" by blast
      then have "last_index j (\<lambda>l. writes_key (txs ! l) k) \<noteq> None" by (auto simp: last_index_def opt_max_def)
      then obtain l where l: "last_index j (\<lambda>l. writes_key (txs ! l) k) = Some l" by blast
      then have "m \<le> l" using m unfolding last_index_Some by (meson not_le)
      then have "i < l" using m(1) reader(3) l by (metis last_index_Some le_less_trans le_neq_implies_less order_trans)
      show ?thesis
        by (rule chain [of l]) (use l reader \<open>i < l\<close> in \<open>auto simp: last_index_Some direct_def tx_conflict_def writes_key_def\<close>)
    qed
  qed
qed

end
