(* ===== verification/Astro_Session.thy ===== *)
theory Astro_Session
  imports Astro_Schedule
begin

text \<open>
  Signed execution of the crate \<open>execution\<close>: the overlay on a parent snapshot, mixed sessions
  (signed.rs), the read-through cache (snapshot\_cache.rs), and the serial executor of
  parallel\_payment.rs. The execution of contracts is the argument \<open>execute_contract\<close>, a function of the
  snapshot it reads.
\<close>

section \<open>Overlays (parallel\_payment.rs)\<close>

record overlay =
  ov_parent :: snapshot
  ov_values :: "(state_key, byte list option) btree"

definition overlay_get :: "overlay \<Rightarrow> snapshot" where
  "overlay_get ov key = (case bt_get (ov_values ov) key of Some v \<Rightarrow> Ok v | None \<Rightarrow> ov_parent ov key)"

fun overlay_change :: "state_change \<Rightarrow> overlay \<Rightarrow> overlay" where
  "overlay_change (Put key val) ov = ov\<lparr>ov_values := bt_insert key (Some val) (ov_values ov)\<rparr>"
| "overlay_change (Delete key) ov = ov\<lparr>ov_values := bt_insert key None (ov_values ov)\<rparr>"

definition overlay_apply :: "state_diff \<Rightarrow> overlay \<Rightarrow> overlay" where
  "overlay_apply d ov = fold overlay_change (sd_changes d) ov"

section \<open>Sessions (signed.rs)\<close>

type_synonym contract_execution =
  "snapshot \<Rightarrow> transaction \<Rightarrow> validation_context \<Rightarrow> resources \<Rightarrow> resources \<Rightarrow> execution_error + transaction_output"

record execution_policy =
  ep_capacity :: resources
  ep_prices :: resources
  ep_contracts :: bool

record signed_session =
  ss_overlay :: overlay
  ss_context :: validation_context
  ss_capacity :: resources
  ss_used :: resources
  ss_contracts :: bool
  ss_prices :: resources

definition signed_session_new :: "snapshot \<Rightarrow> validation_context \<Rightarrow> resources \<Rightarrow> bool \<Rightarrow> signed_session" where
  "signed_session_new get ctx capacity contracts =
     \<lparr>ss_overlay = \<lparr>ov_parent = get, ov_values = []\<rparr>, ss_context = ctx, ss_capacity = capacity, ss_used = resources_zero,
      ss_contracts = contracts, ss_prices = PAYMENT_PRICES\<rparr>"

definition signed_with_prices :: "resources \<Rightarrow> signed_session \<Rightarrow> signed_session" where
  "signed_with_prices prices s = s\<lparr>ss_prices := prices\<rparr>"

text \<open>The lane decides how a transaction runs; the session takes part with its overlay only.\<close>

definition session_output ::
  "(byte list \<Rightarrow> hash256) \<Rightarrow> ed25519 \<Rightarrow> contract_execution \<Rightarrow> signed_session \<Rightarrow> transaction \<Rightarrow> execution_error + transaction_output" where
  "session_output blake2s ed execute_contract s tx =
     (case tx_lane tx of
        Payments \<Rightarrow>
          fst (payment_execute blake2s ed
            (payment_with_prices (ss_prices s) (payment_session_new (overlay_get (ss_overlay s)) (ss_context s) (ss_capacity s))) tx)
      | Contracts \<Rightarrow>
          if ss_contracts s
          then execute_contract (overlay_get (ss_overlay s)) tx (ss_context s) (ss_capacity s) (ss_prices s)
          else Err (TransactionValidation UnsupportedPayload)
      | System \<Rightarrow> Err (TransactionValidation UnsupportedPayload))"

definition signed_execute ::
  "(byte list \<Rightarrow> hash256) \<Rightarrow> ed25519 \<Rightarrow> contract_execution \<Rightarrow> signed_session \<Rightarrow> transaction
   \<Rightarrow> (execution_error + transaction_output) \<times> signed_session" where
  "signed_execute blake2s ed execute_contract s tx =
     (case session_output blake2s ed execute_contract s tx of
        Inl e \<Rightarrow> (Err e, s)
      | Inr out \<Rightarrow>
          (case resources_checked_add (ss_used s) (rc_resources (to_receipt out)) of
             None \<Rightarrow> (Err ResourceLimit, s)
           | Some used \<Rightarrow>
               if \<not> fits_in used (ss_capacity s) then (Err ResourceLimit, s)
               else (Ok out, s\<lparr>ss_overlay := overlay_apply (to_diff out) (ss_overlay s), ss_used := used\<rparr>)))"

fun signed_execute_all ::
  "(byte list \<Rightarrow> hash256) \<Rightarrow> ed25519 \<Rightarrow> contract_execution \<Rightarrow> signed_session \<Rightarrow> transaction list
   \<Rightarrow> execution_error + transaction_output list" where
  "signed_execute_all blake2s ed execute_contract s [] = Ok []"
| "signed_execute_all blake2s ed execute_contract s (tx # txs) =
     (case signed_execute blake2s ed execute_contract s tx of
        (Inl e, _) \<Rightarrow> Err e
      | (Inr out, s') \<Rightarrow> try_bind (signed_execute_all blake2s ed execute_contract s' txs) (\<lambda>outs. Ok (out # outs)))"

section \<open>The read cache (snapshot\_cache.rs)\<close>

definition CACHE_MAX_ENTRIES :: nat where "CACHE_MAX_ENTRIES = 4096"
definition CACHE_MAX_BYTES :: nat where "CACHE_MAX_BYTES = 8 * 1024 * 1024"

record snapshot_cache =
  sc_values :: "(state_key, byte list option) btree"
  sc_bytes :: nat

text \<open>
  A read has two critical sections, the lookup and the insertion after a miss; the lock is free between them, so other workers may run
  there. \<open>readable\<close> and \<open>writable\<close> tell whether the two attempts to lock the cache succeed.
\<close>

definition cache_lookup :: "bool \<Rightarrow> snapshot_cache \<Rightarrow> state_key \<Rightarrow> byte list option option" where
  "cache_lookup readable c key = (if readable then bt_get (sc_values c) key else None)"

definition cache_store :: "bool \<Rightarrow> state_key \<Rightarrow> byte list option \<Rightarrow> snapshot_cache \<Rightarrow> snapshot_cache" where
  "cache_store writable key v c =
     (case checked_add_usize (length key) (case v of None \<Rightarrow> 0 | Some bs \<Rightarrow> length bs) of
        None \<Rightarrow> c
      | Some n \<Rightarrow>
          if writable \<and> length (sc_values c) < CACHE_MAX_ENTRIES \<and> n \<le> CACHE_MAX_BYTES - sc_bytes c
            \<and> \<not> bt_contains (sc_values c) key
          then \<lparr>sc_values = bt_insert key v (sc_values c), sc_bytes = sc_bytes c + n\<rparr>
          else c)"

text \<open>One read; \<open>others\<close> is what the other workers do to the cache between the two critical sections.\<close>

definition cached_get ::
  "snapshot \<Rightarrow> bool \<Rightarrow> bool \<Rightarrow> (snapshot_cache \<Rightarrow> snapshot_cache) \<Rightarrow> snapshot_cache \<Rightarrow> state_key
   \<Rightarrow> (state_error + byte list option) \<times> snapshot_cache" where
  "cached_get parent readable writable others c key =
     (case cache_lookup readable c key of
        Some v \<Rightarrow> (Ok v, c)
      | None \<Rightarrow>
          (case parent key of
             Inl e \<Rightarrow> (Err e, c)
           | Inr v \<Rightarrow> (Ok v, cache_store writable key v (others c))))"

section \<open>Serial execution (signed.rs, parallel\_payment.rs)\<close>

definition publish_outputs ::
  "(byte list \<Rightarrow> hash256) \<Rightarrow> in_memory_state \<Rightarrow> hash256 \<Rightarrow> execution_error + transaction_output list
   \<Rightarrow> (execution_error + transaction_output list \<times> hash256) \<times> in_memory_state" where
  "publish_outputs blake2s db parent result =
     (case result of
        Inl e \<Rightarrow> (Err e, db)
      | Inr outs \<Rightarrow>
          (case state_commit blake2s db parent (map to_diff outs) of
             (Inl e, db') \<Rightarrow> (Err (StateFailure e), db')
           | (Inr root, db') \<Rightarrow> (Ok (outs, root), db')))"

definition execute_serial ::
  "(byte list \<Rightarrow> hash256) \<Rightarrow> ed25519 \<Rightarrow> contract_execution \<Rightarrow> in_memory_state \<Rightarrow> transaction list \<Rightarrow> hash256 \<Rightarrow> validation_context
   \<Rightarrow> execution_policy \<Rightarrow> (execution_error + transaction_output list \<times> hash256) \<times> in_memory_state" where
  "execute_serial blake2s ed execute_contract db txs parent ctx policy =
     (if ms_root db \<noteq> parent then (Err (StateFailure StaleSnapshot), db)
      else publish_outputs blake2s db parent
        (signed_execute_all blake2s ed execute_contract
          (signed_with_prices (ep_prices policy) (signed_session_new (state_snapshot db) ctx (ep_capacity policy) (ep_contracts policy))) txs))"

definition execute_signed ::
  "(byte list \<Rightarrow> hash256) \<Rightarrow> ed25519 \<Rightarrow> contract_execution \<Rightarrow> in_memory_state \<Rightarrow> transaction list \<Rightarrow> hash256 \<Rightarrow> validation_context
   \<Rightarrow> resources \<Rightarrow> (execution_error + transaction_output list \<times> hash256) \<times> in_memory_state" where
  "execute_signed blake2s ed execute_contract db txs parent ctx capacity =
     (if ms_root db \<noteq> parent then (Err (StateFailure StaleSnapshot), db)
      else publish_outputs blake2s db parent
        (signed_execute_all blake2s ed execute_contract (signed_session_new (state_snapshot db) ctx capacity True) txs))"

section \<open>The cache is transparent and bounded\<close>

text \<open>The bytes of the entries themselves.\<close>

definition cached_bytes :: "(state_key, byte list option) btree \<Rightarrow> nat" where
  "cached_bytes vs = (\<Sum>(k, v) \<leftarrow> vs. length k + (case v of None \<Rightarrow> 0 | Some bs \<Rightarrow> length bs))"

definition cache_ok :: "snapshot \<Rightarrow> snapshot_cache \<Rightarrow> bool" where
  "cache_ok parent c \<longleftrightarrow> (\<forall>key v. bt_get (sc_values c) key = Some v \<longrightarrow> parent key = Ok v)
     \<and> length (sc_values c) \<le> CACHE_MAX_ENTRIES \<and> sc_bytes c = cached_bytes (sc_values c) \<and> sc_bytes c \<le> CACHE_MAX_BYTES"

lemma cache_ok_new: "cache_ok parent \<lparr>sc_values = [], sc_bytes = 0\<rparr>"
  by (simp add: cache_ok_def cached_bytes_def)

lemma cached_bytes_insert:
  "k \<notin> fst ` set vs \<Longrightarrow> cached_bytes (bt_insert k v vs) = cached_bytes vs + (length k + (case v of None \<Rightarrow> 0 | Some bs \<Rightarrow> length bs))"
  by (induction k v vs rule: bt_insert.induct) (simp_all add: cached_bytes_def)

lemma cache_store_ok:
  assumes ok: "cache_ok parent c" and v: "parent key = Ok v"
  shows "cache_ok parent (cache_store writable key v c)"
proof (cases "cache_store writable key v c = c")
  case False
  define n where "n = length key + (case v of None \<Rightarrow> 0 | Some bs \<Rightarrow> length bs)"
  from False have new: "length (sc_values c) < CACHE_MAX_ENTRIES" "n \<le> CACHE_MAX_BYTES - sc_bytes c" "key \<notin> fst ` set (sc_values c)"
    and c': "cache_store writable key v c = \<lparr>sc_values = bt_insert key v (sc_values c), sc_bytes = sc_bytes c + n\<rparr>"
    by (auto simp: cache_store_def checked_add_usize_def bt_contains_iff n_def split: if_splits)
  have "length (bt_insert key v (sc_values c)) = Suc (length (sc_values c))" by (rule length_bt_insert_new) (rule new(3))
  moreover have "cached_bytes (bt_insert key v (sc_values c)) = cached_bytes (sc_values c) + n"
    using cached_bytes_insert [OF new(3)] by (simp add: n_def)
  ultimately show ?thesis using ok v new unfolding c' by (auto simp: cache_ok_def)
qed (use ok in simp)

text \<open>A cache in use: any number of workers, whose insertions come in any order.\<close>

inductive cache_run :: "snapshot \<Rightarrow> snapshot_cache \<Rightarrow> bool" for parent where
  empty: "cache_run parent \<lparr>sc_values = [], sc_bytes = 0\<rparr>"
| missed: "cache_run parent c \<Longrightarrow> parent key = Ok v \<Longrightarrow> cache_run parent (cache_store writable key v c)"

lemma cache_run_ok: "cache_run parent c \<Longrightarrow> cache_ok parent c"
  by (induction rule: cache_run.induct) (simp_all add: cache_ok_new cache_store_ok)

lemma cached_get_run:
  assumes "cache_run parent c" and "cache_run parent (others c)"
  shows "fst (cached_get parent readable writable others c key) = parent key \<and> cache_run parent (snd (cached_get parent readable writable others c key))"
  using assms cache_run_ok [OF assms(1)]
  by (auto simp: cached_get_def cache_lookup_def cache_ok_def intro: cache_run.missed split: option.splits sum.splits)

text \<open>An entry that fits is kept, and the next lookup finds it.\<close>

lemma cache_store_hit:
  assumes "length (sc_values c) < CACHE_MAX_ENTRIES" and "key \<notin> fst ` set (sc_values c)"
    and "sc_bytes c + (length key + (case v of None \<Rightarrow> 0 | Some bs \<Rightarrow> length bs)) \<le> CACHE_MAX_BYTES"
  shows "cache_lookup True (cache_store True key v c) key = Some v"
proof -
  have "length key + (case v of None \<Rightarrow> 0 | Some bs \<Rightarrow> length bs) < usize_limit"
    using assms(3) by (simp add: CACHE_MAX_BYTES_def usize_limit_def)
  with assms show ?thesis
    by (auto simp: cache_lookup_def cache_store_def checked_add_usize_def bt_contains_iff)
qed

section \<open>Sessions as functions of a view\<close>

text \<open>What a change does to a snapshot.\<close>

fun view_change :: "state_change \<Rightarrow> snapshot \<Rightarrow> snapshot" where
  "view_change (Put key val) v = v(key := Ok (Some val))"
| "view_change (Delete key) v = v(key := Ok None)"

definition view_apply :: "state_diff \<Rightarrow> snapshot \<Rightarrow> snapshot" where
  "view_apply d v = fold view_change (sd_changes d) v"

lemma overlay_get_change: "overlay_get (overlay_change c ov) = view_change c (overlay_get ov)"
  by (cases c) (auto simp: overlay_get_def fun_eq_iff cong: option.case_cong)

lemma overlay_get_apply: "overlay_get (overlay_apply d ov) = view_apply d (overlay_get ov)"
proof -
  have "overlay_get (fold overlay_change cs ov) = fold view_change cs (overlay_get ov)" for cs
    by (induction cs arbitrary: ov) (simp_all add: overlay_get_change)
  then show ?thesis by (simp add: overlay_apply_def view_apply_def)
qed

lemma view_apply_other: "key \<notin> change_key ` set (sd_changes d) \<Longrightarrow> view_apply d v key = v key"
proof -
  have "key \<notin> change_key ` set cs \<Longrightarrow> fold view_change cs v key = v key" for cs
  proof (induction cs arbitrary: v)
    case (Cons c cs)
    then show ?case by (cases c) simp_all
  qed simp
  then show "key \<notin> change_key ` set (sd_changes d) \<Longrightarrow> view_apply d v key = v key" by (simp add: view_apply_def)
qed

lemma view_apply_cong: "v key = w key \<Longrightarrow> view_apply d v key = view_apply d w key"
proof -
  have "v key = w key \<Longrightarrow> fold view_change cs v key = fold view_change cs w key" for cs
  proof (induction cs arbitrary: v w)
    case (Cons c cs)
    show ?case by (simp, rule Cons.IH) (cases c, use Cons.prems in auto)
  qed simp
  then show "v key = w key \<Longrightarrow> view_apply d v key = view_apply d w key" by (simp add: view_apply_def)
qed

text \<open>The output of one transaction on a view, for the parameters of a policy.\<close>

definition tx_output ::
  "(byte list \<Rightarrow> hash256) \<Rightarrow> ed25519 \<Rightarrow> contract_execution \<Rightarrow> validation_context \<Rightarrow> execution_policy \<Rightarrow> snapshot \<Rightarrow> transaction
   \<Rightarrow> execution_error + transaction_output" where
  "tx_output blake2s ed execute_contract ctx policy v tx =
     session_output blake2s ed execute_contract
       (signed_with_prices (ep_prices policy) (signed_session_new v ctx (ep_capacity policy) (ep_contracts policy))) tx"

definition session_for :: "validation_context \<Rightarrow> execution_policy \<Rightarrow> signed_session \<Rightarrow> bool" where
  "session_for ctx policy s \<longleftrightarrow> ss_context s = ctx \<and> ss_capacity s = ep_capacity policy \<and> ss_contracts s = ep_contracts policy
     \<and> ss_prices s = ep_prices policy"

lemma overlay_get_new [simp]: "overlay_get \<lparr>ov_parent = v, ov_values = []\<rparr> = v"
  by (simp add: overlay_get_def fun_eq_iff)

lemma session_output_view:
  assumes "session_for ctx policy s"
  shows "session_output blake2s ed execute_contract s tx = tx_output blake2s ed execute_contract ctx policy (overlay_get (ss_overlay s)) tx"
  using assms
  by (cases "tx_lane tx") (simp_all add: session_for_def session_output_def tx_output_def signed_with_prices_def signed_session_new_def)

lemma session_for_new [simp]:
  "session_for ctx policy (signed_with_prices (ep_prices policy) (signed_session_new v ctx (ep_capacity policy) (ep_contracts policy)))"
  by (simp add: session_for_def signed_with_prices_def signed_session_new_def)

lemma signed_execute_Ok:
  assumes "session_for ctx policy s" and "signed_execute blake2s ed execute_contract s tx = (Ok out, s')"
  shows "tx_output blake2s ed execute_contract ctx policy (overlay_get (ss_overlay s)) tx = Ok out"
    "overlay_get (ss_overlay s') = view_apply (to_diff out) (overlay_get (ss_overlay s))" "session_for ctx policy s'"
    "resources_checked_add (ss_used s) (rc_resources (to_receipt out)) = Some (ss_used s')" "fits_in (ss_used s') (ep_capacity policy)"
  using assms session_output_view [OF assms(1)]
  by (auto simp: signed_execute_def session_for_def overlay_get_apply split: sum.splits option.splits if_splits)

end
