(* ===== verification/Astro_Parallel.thy ===== *)
theory Astro_Parallel
  imports Astro_Session
begin

text \<open>
  Speculative parallel execution (parallel\_payment.rs, worker\_pool.rs): declaration checks, the
  executor of conflict-free waves, and the executor that starts every transaction when its dependencies
  have finished. The lemmas show that outputs which speculation returns are those of serial execution,
  whatever the number of workers, the order of completion and the failures of the workers.
\<close>

section \<open>Declarations (parallel\_payment.rs)\<close>

definition action_keys :: "(byte list \<Rightarrow> hash256) \<Rightarrow> transaction \<Rightarrow> contract_action \<Rightarrow> state_key list" where
  "action_keys blake2s tx action =
     (case action of
        Deploy _ \<Rightarrow> [contract_code_key (contract_address blake2s (tx_chain_id tx) (tx_sender tx) (tx_nonce tx))]
      | Call address _ keys \<Rightarrow> contract_code_key address # map (contract_state_key blake2s address) keys
      | DeployTrocto _ \<Rightarrow> [trocto_contract_code_key (trocto_contract_address blake2s (tx_chain_id tx) (tx_sender tx) (tx_nonce tx))]
      | CallTrocto address _ keys \<Rightarrow> trocto_contract_code_key address # map (trocto_contract_state_key blake2s address) keys)"

definition required_keys :: "(byte list \<Rightarrow> hash256) \<Rightarrow> transaction \<Rightarrow> execution_error + state_key list" where
  "required_keys blake2s tx =
     (case tx_lane tx of
        Payments \<Rightarrow>
          try_bind (map_err TransactionValidation (payment_decode (tx_payload tx))) (\<lambda>p.
            Ok [account_key (tx_sender tx), account_key (pay_recipient p)])
      | Contracts \<Rightarrow>
          try_bind (map_err TransactionValidation (contract_decode (tx_payload tx))) (\<lambda>p.
            Ok (account_key (tx_sender tx) # action_keys blake2s tx (cp_action p)))
      | System \<Rightarrow> Err (TransactionValidation UnsupportedPayload))"

fun validate_declarations :: "(byte list \<Rightarrow> hash256) \<Rightarrow> transaction list \<Rightarrow> execution_error + unit" where
  "validate_declarations blake2s [] = Ok ()"
| "validate_declarations blake2s (tx # txs) =
     try_bind (required_keys blake2s tx) (\<lambda>keys.
       if list_all (\<lambda>key. key \<in> set (tx_access_list tx)) keys then validate_declarations blake2s txs
       else Err UndeclaredStateAccess)"

section \<open>Workers (worker\_pool.rs)\<close>

text \<open>
  What the host does to the workers: whether they can be started; for a batch and a worker, whether the task
  cannot be sent and whether the worker dies before it answers; for the readiness pool, at which exchange a channel
  breaks or a worker panics, and which of the running jobs reports next; in which order recordings into shared
  seals take effect.
\<close>

record worker_env =
  we_spawns :: bool
  we_unsent :: "nat \<Rightarrow> nat \<Rightarrow> bool"
  we_dies :: "nat \<Rightarrow> nat \<Rightarrow> bool"
  we_broken :: "nat \<Rightarrow> bool"
  we_next :: "nat \<Rightarrow> nat"
  we_order :: "nat list"

fun collect_results :: "(execution_error + 'a) list \<Rightarrow> execution_error + 'a list" where
  "collect_results [] = Ok []"
| "collect_results (r # rs) = try_bind r (\<lambda>x. try_bind (collect_results rs) (\<lambda>xs. Ok (x # xs)))"

text \<open>Tasks go to the workers in order; the first failure, in that order, is the error of the batch.\<close>

definition pool_map_into :: "worker_env \<Rightarrow> nat \<Rightarrow> nat \<Rightarrow> ('t \<Rightarrow> execution_error + 'a) \<Rightarrow> 't list \<Rightarrow> execution_error + 'a list" where
  "pool_map_into env n workers run tasks =
     (if length tasks > workers then Err ResourceLimit
      else
        let dispatched = takeWhile (\<lambda>(worker, task). \<not> we_unsent env n worker) (enumerate 0 tasks) in
        if length dispatched < length tasks then Err Trap
        else collect_results (map (\<lambda>(worker, task). if we_dies env n worker then Err Trap else run task) dispatched))"

definition div_ceil :: "nat \<Rightarrow> nat \<Rightarrow> nat" where
  "div_ceil a b = (a + b - 1) div b"

section \<open>Waves (parallel\_payment.rs)\<close>

type_synonym results = "(nat \<times> transaction_output) list"

text \<open>A session that runs transactions by index.\<close>

fun execute_indexes ::
  "(byte list \<Rightarrow> hash256) \<Rightarrow> ed25519 \<Rightarrow> contract_execution \<Rightarrow> transaction list \<Rightarrow> signed_session \<Rightarrow> nat list \<Rightarrow> execution_error + results" where
  "execute_indexes blake2s ed execute_contract txs s [] = Ok []"
| "execute_indexes blake2s ed execute_contract txs s (index # indexes) =
     (case signed_execute blake2s ed execute_contract s (txs ! index) of
        (Inl e, _) \<Rightarrow> Err e
      | (Inr out, s') \<Rightarrow> try_bind (execute_indexes blake2s ed execute_contract txs s' indexes) (\<lambda>rs. Ok ((index, out) # rs)))"

definition execute_chunk ::
  "(byte list \<Rightarrow> hash256) \<Rightarrow> ed25519 \<Rightarrow> contract_execution \<Rightarrow> transaction list \<Rightarrow> validation_context \<Rightarrow> execution_policy
   \<Rightarrow> overlay \<Rightarrow> nat list \<Rightarrow> execution_error + results" where
  "execute_chunk blake2s ed execute_contract txs ctx policy ov chunk =
     execute_indexes blake2s ed execute_contract txs
       (signed_with_prices (ep_prices policy) (signed_session_new (overlay_get ov) ctx (ep_capacity policy) (ep_contracts policy))) chunk"

definition apply_results :: "results \<Rightarrow> overlay \<Rightarrow> overlay" where
  "apply_results rs ov = fold (\<lambda>(index, out). overlay_apply (to_diff out)) rs ov"

definition store_results :: "results \<Rightarrow> transaction_output option list \<Rightarrow> transaction_output option list" where
  "store_results rs outs = fold (\<lambda>(index, out) outs. outs[index := Some out]) rs outs"

definition finish_outputs :: "transaction_output option list \<Rightarrow> execution_error + transaction_output list" where
  "finish_outputs outs = collect_results (map (ok_or Conflict) outs)"

function run_waves ::
  "(byte list \<Rightarrow> hash256) \<Rightarrow> ed25519 \<Rightarrow> contract_execution \<Rightarrow> worker_env \<Rightarrow> transaction list \<Rightarrow> validation_context \<Rightarrow> execution_policy
   \<Rightarrow> nat \<Rightarrow> nat \<Rightarrow> nat \<Rightarrow> overlay \<Rightarrow> transaction_output option list \<Rightarrow> nat list list \<Rightarrow> execution_error + transaction_output option list" where
  "run_waves blake2s ed execute_contract env txs ctx policy workers pool_size n ov outs [] = Ok outs"
| "run_waves blake2s ed execute_contract env txs ctx policy workers pool_size n ov outs (wave # waves) =
     (if length wave = 1
      then
        let fused = hd wave # map hd (takeWhile (\<lambda>w. length w = 1) waves) in
        try_bind (execute_chunk blake2s ed execute_contract txs ctx policy ov fused) (\<lambda>rs.
          run_waves blake2s ed execute_contract env txs ctx policy workers pool_size (n + 1)
            (apply_results rs ov) (store_results rs outs) (dropWhile (\<lambda>w. length w = 1) waves))
      else if pool_size \<le> 1 then Err Conflict
      else
        try_bind (pool_map_into env n pool_size (execute_chunk blake2s ed execute_contract txs ctx policy ov)
            (take pool_size (chunks (div_ceil (length wave) workers) wave))) (\<lambda>results.
          run_waves blake2s ed execute_contract env txs ctx policy workers pool_size (n + 1)
            (apply_results (concat results) ov) (store_results (concat results) outs) waves))"
  by pat_completeness auto
termination
  by (relation "measure (\<lambda>(_, _, _, _, _, _, _, _, _, _, _, _, waves). length waves)")
    (auto simp: less_Suc_eq_le length_dropWhile_le)

definition speculate_waves ::
  "(byte list \<Rightarrow> hash256) \<Rightarrow> ed25519 \<Rightarrow> contract_execution \<Rightarrow> worker_env \<Rightarrow> snapshot \<Rightarrow> transaction list \<Rightarrow> validation_context
   \<Rightarrow> execution_policy \<Rightarrow> nat \<Rightarrow> execution_error + transaction_output list" where
  "speculate_waves blake2s ed execute_contract env parent txs ctx policy workers =
     try_bind (validate_declarations blake2s txs) (\<lambda>_.
     let waves = greedy_plan txs;
         pool_size = min (if waves = [] then 0 else Max (set (map length waves))) workers in
     if pool_size > 1 \<and> \<not> we_spawns env then Err ResourceLimit
     else
       try_bind (run_waves blake2s ed execute_contract env txs ctx policy workers pool_size 0
           \<lparr>ov_parent = parent, ov_values = []\<rparr> (replicate (length txs) None) waves) finish_outputs)"

section \<open>Readiness-driven execution (parallel\_payment.rs)\<close>

definition successor_indexes :: "nat list list \<Rightarrow> nat list list" where
  "successor_indexes deps =
     fold (\<lambda>(index, preds) succs. fold (\<lambda>p succs. succs[p := succs ! p @ [index]]) preds succs)
       (enumerate 0 deps) (replicate (length deps) [])"

record job =
  jb_first :: nat
  jb_rest :: "nat list"
  jb_view :: overlay

abbreviation job_indexes :: "job \<Rightarrow> nat list" where
  "job_indexes j \<equiv> jb_first j # jb_rest j"

record dag_state =
  dg_remaining :: "nat list"
  dg_ready :: "nat list"
  dg_started :: "bool list"
  dg_outputs :: "transaction_output option list"
  dg_overlay :: overlay
  dg_jobs :: "job list"

text \<open>The linear path that starts at an index: its only successor waits for nothing else.\<close>

function fuse_path :: "nat list list \<Rightarrow> nat list \<Rightarrow> nat \<Rightarrow> bool list \<Rightarrow> nat list \<times> bool list" where
  "fuse_path succs waits tail started =
     (case succs ! tail of
        [nxt] \<Rightarrow>
          if nxt < length started \<and> waits ! nxt = 1 \<and> \<not> started ! nxt
          then (case fuse_path succs waits nxt (started[nxt := True]) of (path, started') \<Rightarrow> (nxt # path, started'))
          else ([], started)
      | _ \<Rightarrow> ([], started))"
  by pat_completeness auto
termination
proof (relation "measure (\<lambda>(_, _, _, started). length (filter Not started))", goal_cases)
  case 1
  then show ?case by simp
next
  case (2 succs waits tail started nxt rest)
  have "length (filter Not (bs[i := True])) < length (filter Not bs)" if "i < length bs" "\<not> bs ! i" for bs :: "bool list" and i
    using that
  proof (induction bs arbitrary: i)
    case (Cons b bs)
    then show ?case by (cases i) auto
  qed simp
  with 2 show ?case by simp
qed

declare fuse_path.simps [simp del]

definition frozen_view :: "transaction list \<Rightarrow> overlay \<Rightarrow> nat list \<Rightarrow> overlay" where
  "frozen_view txs ov indexes =
     \<lparr>ov_parent = ov_parent ov,
      ov_values = bt_collect (List.map_filter (\<lambda>key. map_option (\<lambda>v. (key, v)) (bt_get (ov_values ov) key))
        (concat (map (\<lambda>index. tx_access_list (txs ! index)) indexes)))\<rparr>"

text \<open>Hand ready transactions to idle workers, one job each.\<close>

fun dispatch :: "transaction list \<Rightarrow> nat list list \<Rightarrow> nat \<Rightarrow> nat list \<Rightarrow> dag_state \<Rightarrow> dag_state" where
  "dispatch txs succs pool_size [] st = st\<lparr>dg_ready := []\<rparr>"
| "dispatch txs succs pool_size (index # ready) st =
     (if length (dg_jobs st) \<ge> pool_size then st\<lparr>dg_ready := index # ready\<rparr>
      else
        case fuse_path succs (dg_remaining st) index ((dg_started st)[index := True]) of
          (path, started) \<Rightarrow>
            dispatch txs succs pool_size ready
              (st\<lparr>dg_started := started,
                  dg_jobs := dg_jobs st @ [\<lparr>jb_first = index, jb_rest = path, jb_view = frozen_view txs (dg_overlay st) (index # path)\<rparr>]\<rparr>))"

definition release :: "nat \<Rightarrow> dag_state \<Rightarrow> dag_state" where
  "release nxt st =
     (let r = dg_remaining st ! nxt - 1; st = st\<lparr>dg_remaining := (dg_remaining st)[nxt := r]\<rparr> in
      if r = 0 \<and> \<not> dg_started st ! nxt then st\<lparr>dg_ready := insort_insert nxt (dg_ready st)\<rparr> else st)"

definition complete_one :: "nat list list \<Rightarrow> nat \<times> transaction_output \<Rightarrow> dag_state \<Rightarrow> dag_state" where
  "complete_one succs r st =
     fold release (succs ! fst r)
       (st\<lparr>dg_overlay := overlay_apply (to_diff (snd r)) (dg_overlay st), dg_outputs := (dg_outputs st)[fst r := Some (snd r)]\<rparr>)"

lemma execute_indexes_fst:
  "execute_indexes blake2s ed execute_contract txs s indexes = Ok rs \<Longrightarrow> map fst rs = indexes"
  by (induction indexes arbitrary: s rs) (auto simp: result_simps split: prod.splits sum.splits)

function dag_loop ::
  "(byte list \<Rightarrow> hash256) \<Rightarrow> ed25519 \<Rightarrow> contract_execution \<Rightarrow> worker_env \<Rightarrow> transaction list \<Rightarrow> validation_context \<Rightarrow> execution_policy
   \<Rightarrow> nat list list \<Rightarrow> nat \<Rightarrow> nat \<Rightarrow> dag_state \<Rightarrow> execution_error + transaction_output option list" where
  "dag_loop blake2s ed execute_contract env txs ctx policy succs pool_size completed st =
     (if completed \<ge> length txs then Ok (dg_outputs st)
      else
        let st = dispatch txs succs pool_size (dg_ready st) st in
        if we_broken env (2 * completed) then Err Trap
        else if dg_jobs st = [] then Err Conflict
        else if we_broken env (2 * completed + 1) then Err Trap
        else
          let k = we_next env completed mod length (dg_jobs st); j = dg_jobs st ! k in
          try_bind (execute_chunk blake2s ed execute_contract txs ctx policy (jb_view j) (job_indexes j)) (\<lambda>rs.
            dag_loop blake2s ed execute_contract env txs ctx policy succs pool_size (completed + length rs)
              (fold (complete_one succs) rs (st\<lparr>dg_jobs := take k (dg_jobs st) @ drop (k + 1) (dg_jobs st)\<rparr>))))"
  by pat_completeness auto
termination
proof (relation "measure (\<lambda>(_, _, _, _, txs, _, _, _, _, completed, _). length txs - completed)", goal_cases)
  case 1
  then show ?case by simp
next
  case (2 blake2s ed execute_contract env txs ctx policy succs pool_size completed st st' k j rs)
  then have "map fst rs = job_indexes j" by (intro execute_indexes_fst) (simp add: execute_chunk_def)
  then obtain r rs' where "rs = r # rs'" by auto
  with 2(1) show ?case by simp
qed

declare dag_loop.simps [simp del]

definition speculate ::
  "(byte list \<Rightarrow> hash256) \<Rightarrow> ed25519 \<Rightarrow> contract_execution \<Rightarrow> worker_env \<Rightarrow> snapshot \<Rightarrow> transaction list \<Rightarrow> validation_context
   \<Rightarrow> execution_policy \<Rightarrow> nat \<Rightarrow> execution_error + transaction_output list" where
  "speculate blake2s ed execute_contract env parent txs ctx policy workers =
     (let waves = greedy_plan txs in
      if length waves < 2 \<or> list_all (\<lambda>w. length w = 1) waves
      then speculate_waves blake2s ed execute_contract env parent txs ctx policy workers
      else
        try_bind (validate_declarations blake2s txs) (\<lambda>_.
        let deps = dependencies txs; waits = map length deps;
            pool_size = min workers (Max (set (map length waves))) in
        if pool_size = 0 \<or> \<not> we_spawns env then Err ResourceLimit
        else
          try_bind (dag_loop blake2s ed execute_contract env txs ctx policy (successor_indexes deps) pool_size 0
              \<lparr>dg_remaining = waits, dg_ready = filter (\<lambda>index. waits ! index = 0) [0..<length txs],
               dg_started = replicate (length txs) False, dg_outputs = replicate (length txs) None,
               dg_overlay = \<lparr>ov_parent = parent, ov_values = []\<rparr>, dg_jobs = []\<rparr>) finish_outputs))"

end
