(* ===== verification/Astro_Parallel_Proof.thy ===== *)
theory Astro_Parallel_Proof
  imports Astro_Parallel
begin

text \<open>
  Speculation agrees with serial execution. A log lists the transactions in the order in which the
  coordinator applied their diffs. If conflicting transactions stand in block order in a log and each was
  executed on a view that agrees with the log on its declared keys, sorting the log gives the serial
  execution (locale \<open>execution\<close>). Both executors produce such logs.
\<close>

section \<open>Logs\<close>

definition log_view :: "snapshot \<Rightarrow> results \<Rightarrow> snapshot" where
  "log_view v log = fold (\<lambda>r. view_apply (to_diff (snd r))) log v"

definition valid_log :: "(snapshot \<Rightarrow> transaction \<Rightarrow> execution_error + transaction_output) \<Rightarrow> transaction list \<Rightarrow> snapshot \<Rightarrow> results \<Rightarrow> bool" where
  "valid_log exec txs v log \<longleftrightarrow> (\<forall>b < length log. exec (log_view v (take b log)) (txs ! fst (log ! b)) = Ok (snd (log ! b)))"

definition in_order :: "transaction list \<Rightarrow> results \<Rightarrow> bool" where
  "in_order txs log \<longleftrightarrow> sorted_wrt (\<lambda>x y. tx_conflict (txs ! fst x) (txs ! fst y) \<longrightarrow> fst x < fst y) log"

lemma log_view_simps [simp]:
  "log_view v [] = v" "log_view v (r # log) = log_view (view_apply (to_diff (snd r)) v) log"
  "log_view v (log @ log') = log_view (log_view v log) log'"
  by (simp_all add: log_view_def)

lemma log_view_cong: "v k = w k \<Longrightarrow> log_view v log k = log_view w log k"
proof (induction log arbitrary: v w)
  case (Cons r log)
  show ?case unfolding log_view_simps by (rule Cons.IH, rule view_apply_cong, rule Cons.prems)
qed simp

lemma valid_log_Nil [simp]: "valid_log exec txs v []"
  by (simp add: valid_log_def)

lemma valid_log_snoc: "valid_log exec txs v (log @ [r]) \<longleftrightarrow> valid_log exec txs v log \<and> exec (log_view v log) (txs ! fst r) = Ok (snd r)"
  by (auto simp: valid_log_def nth_append less_Suc_eq)

lemma valid_log_append:
  "valid_log exec txs v (log @ log') \<longleftrightarrow> valid_log exec txs v log \<and> valid_log exec txs (log_view v log) log'"
proof (induction log' rule: rev_induct)
  case (snoc r log')
  then show ?case by (simp only: append_assoc [symmetric] valid_log_snoc log_view_simps) blast
qed simp

lemma valid_log_Cons:
  "valid_log exec txs v (r # log) \<longleftrightarrow> exec v (txs ! fst r) = Ok (snd r) \<and> valid_log exec txs (view_apply (to_diff (snd r)) v) log"
  using valid_log_append [of exec txs v "[r]" log] valid_log_snoc [of exec txs v "[]" r] by simp

section \<open>Executions that respect their declarations\<close>

text \<open>
  What the planner relies on: the outcome of a transaction whose keys are declared depends on
  the declared keys only, and it changes only keys declared for writing.
\<close>

locale execution =
  fixes exec :: "snapshot \<Rightarrow> transaction \<Rightarrow> execution_error + transaction_output"
    and covered :: "transaction \<Rightarrow> bool"
  assumes reads: "covered tx \<Longrightarrow> (\<And>k. declares tx k \<Longrightarrow> v k = w k) \<Longrightarrow> exec v tx = exec w tx"
    and writes: "exec v tx = Ok out \<Longrightarrow> c \<in> set (sd_changes (to_diff out)) \<Longrightarrow> writes_key tx (change_key c)"
begin

lemma unwritten:
  assumes "exec v tx = Ok out" and "\<not> writes_key tx k"
  shows "view_apply (to_diff out) w k = w k"
  using assms writes by (intro view_apply_other) blast

lemma log_result:
  assumes "valid_log exec txs v log" and "r \<in> set log"
  obtains u where "exec u (txs ! fst r) = Ok (snd r)"
  using assms unfolding valid_log_def in_set_conv_nth by metis

lemma log_view_filter:
  assumes "\<And>r. r \<in> set log \<Longrightarrow> \<exists>u. exec u (txs ! fst r) = Ok (snd r)"
  shows "log_view v log k = log_view v (filter (\<lambda>r. writes_key (txs ! fst r) k) log) k"
  using assms
proof (induction log arbitrary: v)
  case (Cons r log)
  obtain u where u: "exec u (txs ! fst r) = Ok (snd r)" using Cons.prems by (meson list.set_intros(1))
  show ?case
  proof (cases "writes_key (txs ! fst r) k")
    case True
    then show ?thesis using Cons by simp
  next
    case False
    have "log_view (view_apply (to_diff (snd r)) v) log k = log_view v log k"
      by (rule log_view_cong, rule unwritten [OF u False])
    then show ?thesis using False Cons by simp
  qed
qed simp

lemma log_view_unwritten:
  assumes "\<And>r. r \<in> set log \<Longrightarrow> \<exists>u. exec u (txs ! fst r) = Ok (snd r)" and "\<And>r. r \<in> set log \<Longrightarrow> \<not> writes_key (txs ! fst r) k"
  shows "log_view v log k = v k"
proof -
  have "filter (\<lambda>r. writes_key (txs ! fst r) k) log = []" using assms(2) by (simp add: filter_empty_conv)
  then show ?thesis using log_view_filter [OF assms(1), of log v k] by simp
qed

text \<open>Results of a session on an older or smaller view may be appended if the view agrees on the declared keys.\<close>

lemma append_results:
  assumes "valid_log exec txs v log" and "valid_log exec txs u rs"
    and "\<And>r. r \<in> set rs \<Longrightarrow> covered (txs ! fst r)"
    and "\<And>r k. r \<in> set rs \<Longrightarrow> declares (txs ! fst r) k \<Longrightarrow> u k = log_view v log k"
  shows "valid_log exec txs v (log @ rs)"
proof -
  have "exec (log_view (log_view v log) (take b rs)) (txs ! fst (rs ! b)) = Ok (snd (rs ! b))" if b: "b < length rs" for b
  proof -
    have mem: "rs ! b \<in> set rs" using b by simp
    have "exec (log_view (log_view v log) (take b rs)) (txs ! fst (rs ! b)) = exec (log_view u (take b rs)) (txs ! fst (rs ! b))"
    proof (rule reads [OF assms(3) [OF mem]])
      fix k assume "declares (txs ! fst (rs ! b)) k"
      then show "log_view (log_view v log) (take b rs) k = log_view u (take b rs) k"
        by (intro log_view_cong assms(4) [OF mem, symmetric])
    qed
    then show ?thesis using assms(2) b by (simp add: valid_log_def)
  qed
  then show ?thesis using assms(1) unfolding valid_log_append by (simp add: valid_log_def)
qed

text \<open>Sorting a log gives the serial execution.\<close>

lemma sort_log:
  assumes log: "valid_log exec txs v log" and dist: "distinct (map fst log)" and all: "fst ` set log = {..<n}"
    and ord: "in_order txs log" and cov: "\<And>i. i < n \<Longrightarrow> covered (txs ! i)"
  shows "valid_log exec txs v (map (\<lambda>i. (i, the (map_of log i))) [0..<n])"
proof -
  define f where "f i = the (map_of log i)" for i
  define slog where "slog = map (\<lambda>i. (i, f i)) [0..<n]"
  have pair: "r = (fst r, f (fst r))" if r: "r \<in> set log" for r
  proof -
    have "map_of log (fst r) = Some (snd r)" using dist r by (intro map_of_is_SomeI) simp_all
    then show ?thesis by (simp add: f_def)
  qed
  have res: "\<exists>u. exec u (txs ! fst r) = Ok (snd r)" if "r \<in> set log" for r
    using log_result [OF log that] by blast
  have "exec (log_view v (take i slog)) (txs ! i) = Ok (f i)" if i: "i < n" for i
  proof -
    have "i \<in> fst ` set log" using i all by simp
    then obtain out where "(i, out) \<in> set log" by auto
    then obtain b where b: "b < length log" "log ! b = (i, f i)" using pair by (metis fst_conv in_set_conv_nth)
    define front where "front = take b log"
    have split: "log = front @ (i, f i) # drop (Suc b) log" using b by (simp add: front_def id_take_nth_drop [symmetric] flip: b(2))
    have exec_b: "exec (log_view v front) (txs ! i) = Ok (f i)" using log b by (auto simp: valid_log_def front_def)
    have agree: "log_view v front k = log_view v (take i slog) k" if k: "declares (txs ! i) k" for k
    proof -
      let ?W = "\<lambda>r. writes_key (txs ! fst r) k"
      have slog: "take i slog = map (\<lambda>j. (j, f j)) [0..<i]" using i by (simp add: slog_def take_map)
      have conf: "tx_conflict (txs ! j) (txs ! i)" "tx_conflict (txs ! i) (txs ! j)" if "writes_key (txs ! j) k" for j
        using that k by (auto simp: tx_conflict_def)
      have ordered: "sorted_wrt (\<lambda>x y. tx_conflict (txs ! fst x) (txs ! fst y) \<longrightarrow> fst x < fst y) (front @ (i, f i) # drop (Suc b) log)"
        using ord split by (simp add: in_order_def)
      have sorted: "sorted_wrt (<) (map fst (filter ?W front))"
      proof -
        have "sorted_wrt (\<lambda>x y. tx_conflict (txs ! fst x) (txs ! fst y) \<longrightarrow> fst x < fst y) (filter ?W front)"
          using ordered by (simp add: sorted_wrt_append sorted_wrt_filter)
        then have "sorted_wrt (\<lambda>x y. fst x < fst y) (filter ?W front)"
          by (rule sorted_wrt_mono_rel [rotated]) (auto simp: tx_conflict_def writes_key_def)
        then show ?thesis by (simp add: sorted_wrt_map)
      qed
      have sets: "fst ` set (filter ?W front) = {j. j < i \<and> writes_key (txs ! j) k}"
      proof (intro set_eqI iffI)
        fix j assume "j \<in> fst ` set (filter ?W front)"
        then obtain out where j: "(j, out) \<in> set front" "writes_key (txs ! j) k" by auto
        then have "j < i" using ordered conf(1) by (fastforce simp: sorted_wrt_append)
        with j show "j \<in> {j. j < i \<and> writes_key (txs ! j) k}" by simp
      next
        fix j assume j: "j \<in> {j. j < i \<and> writes_key (txs ! j) k}"
        then have "j \<in> fst ` set log" using all i by simp
        then consider "j \<in> fst ` set front" | "j = i" | "j \<in> fst ` set (drop (Suc b) log)"
          by (subst (asm) split) auto
        then show "j \<in> fst ` set (filter ?W front)"
        proof cases
          case 3
          then have "i < j" using ordered conf(2) j by (fastforce simp: sorted_wrt_append)
          with j show ?thesis by simp
        qed (use j in auto)
      qed
      have names: "map fst (filter ?W front) = filter (\<lambda>j. writes_key (txs ! j) k) [0..<i]"
        using sorted sets by (intro strict_sorted_equal) (auto simp: sorted_wrt_filter)
      have pairs: "filter ?W front = map (\<lambda>j. (j, f j)) (map fst (filter ?W front))"
      proof -
        have "(fst r, f (fst r)) = r" if "r \<in> set (filter ?W front)" for r
          using pair [of r] that in_set_takeD [of r b log] by (simp add: front_def)
        then show ?thesis unfolding map_map comp_def by (intro map_idI [symmetric]) blast
      qed
      have "filter ?W front = map (\<lambda>j. (j, f j)) (filter (\<lambda>j. writes_key (txs ! j) k) [0..<i])"
        by (subst pairs) (simp only: names)
      also have "\<dots> = filter ?W (take i slog)" by (simp add: slog filter_map comp_def)
      finally have "filter ?W front = filter ?W (take i slog)" .
      moreover have "log_view v front k = log_view v (filter ?W front) k"
      proof (rule log_view_filter)
        fix r assume "r \<in> set front"
        then have "r \<in> set log" unfolding front_def by (rule in_set_takeD)
        then show "\<exists>u. exec u (txs ! fst r) = Ok (snd r)" by (rule res)
      qed
      moreover have "log_view v (take i slog) k = log_view v (filter ?W (take i slog)) k"
      proof (rule log_view_filter)
        fix r assume "r \<in> set (take i slog)"
        then obtain j where "r = (j, f j)" "j < n" using i by (auto simp: slog)
        then have "fst r \<in> fst ` set log" using all by simp
        then obtain x where "x \<in> set log" "fst x = fst r" by auto
        then have "r \<in> set log" using pair [of x] \<open>r = (j, f j)\<close> by simp
        then show "\<exists>u. exec u (txs ! fst r) = Ok (snd r)" by (rule res)
      qed
      ultimately show ?thesis by simp
    qed
    have "exec (log_view v (take i slog)) (txs ! i) = exec (log_view v front) (txs ! i)"
      using agree by (intro reads cov i) simp
    then show ?thesis by (simp add: exec_b)
  qed
  then show ?thesis unfolding valid_log_def slog_def [unfolded f_def, symmetric] by (simp add: slog_def f_def)
qed

end

section \<open>Transactions respect their declarations\<close>

definition covered :: "(byte list \<Rightarrow> hash256) \<Rightarrow> transaction \<Rightarrow> bool" where
  "covered blake2s tx \<longleftrightarrow> (\<exists>keys. required_keys blake2s tx = Ok keys \<and> set keys \<subseteq> set (tx_access_list tx))"

lemma validate_declarations_Ok: "validate_declarations blake2s txs = Ok () \<longleftrightarrow> (\<forall>tx \<in> set txs. covered blake2s tx)"
proof (induction txs)
  case (Cons tx txs)
  then show ?case
    by (cases "required_keys blake2s tx") (auto simp: covered_def list_all_iff)
qed simp

text \<open>What the planner relies on for contracts: the same two laws.\<close>

definition contract_frame :: "(byte list \<Rightarrow> hash256) \<Rightarrow> contract_execution \<Rightarrow> bool" where
  "contract_frame blake2s execute_contract \<longleftrightarrow>
     (\<forall>v w tx ctx capacity prices. tx_lane tx = Contracts \<longrightarrow> covered blake2s tx \<longrightarrow> (\<forall>k. declares tx k \<longrightarrow> v k = w k)
        \<longrightarrow> execute_contract v tx ctx capacity prices = execute_contract w tx ctx capacity prices)
     \<and> (\<forall>v tx ctx capacity prices out c. tx_lane tx = Contracts \<longrightarrow> execute_contract v tx ctx capacity prices = Ok out
        \<longrightarrow> c \<in> set (sd_changes (to_diff out)) \<longrightarrow> writes_key tx (change_key c))"

lemma payment_execute_reads:
  assumes "\<And>p. payment_decode (tx_payload tx) = Ok p \<Longrightarrow> read_account v (tx_sender tx) = read_account w (tx_sender tx)
      \<and> read_account v (pay_recipient p) = read_account w (pay_recipient p)"
  shows "fst (payment_execute blake2s ed (payment_with_prices pr (payment_session_new v ctx cap)) tx)
    = fst (payment_execute blake2s ed (payment_with_prices pr (payment_session_new w ctx cap)) tx)"
proof (cases "payment_decode (tx_payload tx)")
  case (Inl e)
  then show ?thesis by (simp add: payment_execute_def)
next
  case (Inr p)
  let ?s = "\<lambda>v. payment_with_prices pr (payment_session_new v ctx cap)"
  have acc: "session_account (?s v) a = session_account (?s w) a" if "a = tx_sender tx \<or> a = pay_recipient p" for a
    using that assms [OF Inr] by (auto simp: session_account_def payment_with_prices_def payment_session_new_def)
  have checks: "payment_checks blake2s ed (?s v) tx p sender = payment_checks blake2s ed (?s w) tx p sender" for sender
  proof -
    have sel: "ps_used (?s u) = resources_zero" "ps_prices (?s u) = pr" "ps_capacity (?s u) = cap" "ps_context (?s u) = ctx" for u
      by (simp_all add: payment_with_prices_def payment_session_new_def)
    show ?thesis unfolding payment_checks_def sel ..
  qed
  have accounts: "payment_accounts (?s v) tx p sender fee = payment_accounts (?s w) tx p sender fee" for sender fee
    unfolding payment_accounts_def acc [OF disjI2 [OF refl]] ..
  note same = payment_execute_def Inr acc [OF disjI1 [OF refl]] checks accounts
  show ?thesis
  proof (cases "\<exists>sender. session_account (?s w) (tx_sender tx) = Ok (Some sender)")
    case False
    then show ?thesis unfolding same by (cases "session_account (?s w) (tx_sender tx)"; cases "projr (session_account (?s w) (tx_sender tx))") auto
  next
    case True
    then obtain sender where sender: "session_account (?s w) (tx_sender tx) = Ok (Some sender)" ..
    show ?thesis
    proof (cases "payment_checks blake2s ed (?s w) tx p sender")
      case (Inl e)
      then show ?thesis unfolding same by (simp add: sender checks)
    next
      case checked: (Inr r)
      obtain valid res used fee where r: "r = (valid, res, used, fee)" by (cases r)
      show ?thesis
      proof (cases "payment_accounts (?s w) tx p sender fee")
        case (Inl e)
        then show ?thesis unfolding same by (simp add: sender checks checked r accounts)
      next
        case (Inr a)
        then show ?thesis unfolding same by (cases a) (simp add: sender checks checked r accounts Let_def)
      qed
    qed
  qed
qed

lemma payment_writes:
  assumes "payment_execute blake2s ed s tx = (Ok out, s')" and "tx_lane tx = Payments" and "c \<in> set (sd_changes (to_diff out))"
  shows "writes_key tx (change_key c)"
  using assms(1)
proof (cases rule: payment_execute_Ok)
  case (1 p sender fee next_sender next_recipient used)
  have "key_mode k (read_only_code tx) = WriteMode" for k using assms(2) by (simp add: read_only_code_def key_mode_def)
  moreover have "change_key c = account_key (tx_sender tx) \<or> change_key c = account_key (pay_recipient p)"
    using assms(3) 1(1)
    by (auto simp: payment_done_def payment_diff_def sort_canonical_def diff_put_def diff_new_def Let_def split: option.splits)
  ultimately show ?thesis using 1(1) by (auto simp: writes_key_def payment_done_def)
qed

lemma execution_tx_output:
  assumes "ep_contracts policy \<longrightarrow> contract_frame blake2s execute_contract"
  shows "execution (tx_output blake2s ed execute_contract ctx policy) (covered blake2s)"
proof
  fix tx :: transaction and v w :: snapshot
  assume cov: "covered blake2s tx" and eq: "\<And>k. declares tx k \<Longrightarrow> v k = w k"
  show "tx_output blake2s ed execute_contract ctx policy v tx = tx_output blake2s ed execute_contract ctx policy w tx"
  proof (cases "tx_lane tx")
    case Payments
    have "fst (payment_execute blake2s ed (payment_with_prices pr (payment_session_new v ctx cap)) tx)
        = fst (payment_execute blake2s ed (payment_with_prices pr (payment_session_new w ctx cap)) tx)" for pr cap
      using cov Payments by (intro payment_execute_reads) (auto simp: covered_def required_keys_def read_account_def eq)
    then show ?thesis
      using Payments by (simp add: tx_output_def session_output_def signed_with_prices_def signed_session_new_def)
  next
    case Contracts
    then show ?thesis
      using assms cov eq by (simp add: tx_output_def session_output_def signed_with_prices_def signed_session_new_def contract_frame_def)
  next
    case System
    then show ?thesis by (simp add: tx_output_def session_output_def)
  qed
next
  fix v tx out c
  assume out: "tx_output blake2s ed execute_contract ctx policy v tx = Ok out" and c: "c \<in> set (sd_changes (to_diff out))"
  show "writes_key tx (change_key c)"
  proof (cases "tx_lane tx")
    case Payments
    obtain s s' where "payment_execute blake2s ed s tx = (Ok out, s')"
      using out Payments by (auto simp: tx_output_def session_output_def) (metis prod.collapse)
    then show ?thesis using Payments c by (rule payment_writes)
  next
    case Contracts
    then show ?thesis
      using assms out c by (auto simp: tx_output_def session_output_def signed_with_prices_def signed_session_new_def contract_frame_def split: if_splits)
  next
    case System
    then show ?thesis using out by (simp add: tx_output_def session_output_def)
  qed
qed

text \<open>Without contracts nothing has to be assumed.\<close>

interpretation payments: execution "tx_output blake2s ed execute_contract ctx \<lparr>ep_capacity = capacity, ep_prices = prices, ep_contracts = False\<rparr>"
  "covered blake2s" for blake2s ed execute_contract ctx capacity prices
  by (rule execution_tx_output) simp

section \<open>Sessions produce logs\<close>

lemma execute_indexes_valid:
  assumes "session_for ctx policy s" and "execute_indexes blake2s ed execute_contract txs s indexes = Ok rs"
  shows "valid_log (tx_output blake2s ed execute_contract ctx policy) txs (overlay_get (ss_overlay s)) rs"
  using assms
proof (induction indexes arbitrary: s rs)
  case (Cons index indexes)
  obtain out s' rs' where e: "signed_execute blake2s ed execute_contract s (txs ! index) = (Ok out, s')"
    and r: "execute_indexes blake2s ed execute_contract txs s' indexes = Ok rs'" "rs = (index, out) # rs'"
    using Cons.prems(2) by (auto simp: result_simps split: prod.splits sum.splits)
  note ok = signed_execute_Ok [OF Cons.prems(1) e]
  show ?case using Cons.IH [OF ok(3) r(1)] ok(1,2) by (simp add: r(2) valid_log_Cons)
qed simp

lemma execute_chunk_valid:
  assumes "execute_chunk blake2s ed execute_contract txs ctx policy ov chunk = Ok rs"
  shows "valid_log (tx_output blake2s ed execute_contract ctx policy) txs (overlay_get ov) rs" "map fst rs = chunk"
proof -
  from assms show "map fst rs = chunk" by (intro execute_indexes_fst) (simp add: execute_chunk_def)
  show "valid_log (tx_output blake2s ed execute_contract ctx policy) txs (overlay_get ov) rs"
    using execute_indexes_valid [OF session_for_new assms [unfolded execute_chunk_def]]
    by (simp add: signed_with_prices_def signed_session_new_def)
qed

lemma overlay_get_results: "overlay_get (apply_results rs ov) = log_view (overlay_get ov) rs"
proof -
  have "overlay_get (fold (\<lambda>(index, out). overlay_apply (to_diff out)) rs ov) = log_view (overlay_get ov) rs"
    by (induction rs arbitrary: ov) (auto simp: overlay_get_apply)
  then show ?thesis by (simp add: apply_results_def)
qed

lemma store_results_log:
  assumes "distinct (map fst (log @ rs))"
  shows "store_results rs (map (map_of log) [0..<n]) = map (map_of (log @ rs)) [0..<n]"
  using assms
proof (induction rs arbitrary: log)
  case (Cons r rs)
  obtain i out where r: "r = (i, out)" by (cases r)
  have none: "map_of log i = None" using Cons.prems by (auto simp: r map_of_eq_None_iff)
  have "(map (map_of log) [0..<n])[i := Some out] = map (map_of (log @ [r])) [0..<n]"
    by (intro nth_equalityI) (auto simp: r none nth_list_update map_of_append map_add_def split: option.splits)
  moreover have "store_results (r # rs) outs = store_results rs (outs[i := Some out])" for outs by (simp add: store_results_def r)
  ultimately show ?case using Cons.IH [of "log @ [r]"] Cons.prems by simp
qed (simp add: store_results_def)

lemma collect_results_Ok: "collect_results rs = Ok xs \<longleftrightarrow> rs = map Ok xs"
  by (induction rs arbitrary: xs) (auto simp: result_simps)

lemma map_Ok_all2: "map f xs = map Ok ys \<Longrightarrow> list_all2 (\<lambda>x y. f x = Ok y) xs ys"
  by (induction xs arbitrary: ys) auto

lemma finish_outputs_log:
  assumes "finish_outputs (map (map_of log) [0..<n]) = Ok outs"
  shows "outs = map (\<lambda>i. the (map_of log i)) [0..<n]" "{..<n} \<subseteq> fst ` set log"
proof -
  have eq: "map (ok_or Conflict \<circ> map_of log) [0..<n] = map Ok outs" using assms by (simp add: finish_outputs_def collect_results_Ok)
  then have len: "length outs = n" by (metis length_map length_upt minus_nat.diff_0)
  have "ok_or Conflict (map_of log i) = Ok (outs ! i)" if "i < n" for i
    using arg_cong [OF eq, of "\<lambda>l. l ! i"] that len by simp
  then have each: "map_of log i = Some (outs ! i)" if "i < n" for i using that by (simp add: ok_or_Ok)
  then show "outs = map (\<lambda>i. the (map_of log i)) [0..<n]" using len by (intro nth_equalityI) simp_all
  show "{..<n} \<subseteq> fst ` set log"
  proof
    fix x assume "x \<in> {..<n}"
    then have "(x, outs ! x) \<in> set log" using each by (intro map_of_SomeD) simp
    then show "x \<in> fst ` set log" by force
  qed
qed

section \<open>The waves agree with serial execution\<close>

lemma earliest_conflict:
  assumes "earliest txs ws" and "i < j" and "j < length txs" and "tx_conflict (txs ! i) (txs ! j)"
  shows "ws ! i < ws ! j"
proof -
  have "ws ! j = next_wave ((!) ws ` {i. i < j \<and> tx_conflict (txs ! i) (txs ! j)})" using assms by (simp add: earliest_def)
  moreover have "ws ! i < next_wave ((!) ws ` {i. i < j \<and> tx_conflict (txs ! i) (txs ! j)})"
    using assms by (intro next_wave_greater) auto
  ultimately show ?thesis by simp
qed

lemma same_wave:
  assumes "earliest txs ws" and "i < length txs" and "j < length txs" and "ws ! i = ws ! j" and "i \<noteq> j"
  shows "\<not> tx_conflict (txs ! i) (txs ! j)"
  using assms earliest_conflict [of txs ws i j] earliest_conflict [of txs ws j i] tx_conflict_sym [of "txs ! i" "txs ! j"]
  by (cases "i < j") auto

definition wave_log ::
  "(snapshot \<Rightarrow> transaction \<Rightarrow> execution_error + transaction_output) \<Rightarrow> transaction list \<Rightarrow> snapshot \<Rightarrow> nat list \<Rightarrow> nat \<Rightarrow> results \<Rightarrow> bool" where
  "wave_log exec txs v ws c log \<longleftrightarrow> valid_log exec txs v log \<and> distinct (map fst log)
     \<and> (\<forall>r \<in> set log. fst r < length txs \<and> ws ! fst r < c) \<and> sorted (map (\<lambda>r. ws ! fst r) log)"

lemma wave_log_in_order:
  assumes "earliest txs ws" and "wave_log exec txs v ws c log"
  shows "in_order txs log"
  unfolding in_order_def sorted_wrt_iff_nth_less
proof (intro allI impI)
  fix a b assume ab: "a < b" "b < length log" and conf: "tx_conflict (txs ! fst (log ! a)) (txs ! fst (log ! b))"
  have dist: "fst (log ! a) \<noteq> fst (log ! b)"
    using assms(2) ab nth_eq_iff_index_eq [of "map fst log" a b] by (simp add: wave_log_def)
  have le: "ws ! fst (log ! a) \<le> ws ! fst (log ! b)"
    using assms(2) ab sorted_nth_mono [of "map (\<lambda>r. ws ! fst r) log" a b] by (simp add: wave_log_def)
  have bound: "fst (log ! a) < length txs" using assms(2) ab by (simp add: wave_log_def)
  show "fst (log ! a) < fst (log ! b)"
  proof (rule ccontr)
    assume "\<not> fst (log ! a) < fst (log ! b)"
    then have "fst (log ! b) < fst (log ! a)" using dist by simp
    then have "ws ! fst (log ! b) < ws ! fst (log ! a)"
      using earliest_conflict [OF assms(1) _ bound] conf tx_conflict_sym by blast
    with le show False by simp
  qed
qed

lemma parallel_results:
  assumes ex: "execution exec cov" and log: "valid_log exec txs v log"
    and each: "\<And>rs. rs \<in> set results \<Longrightarrow> valid_log exec txs (log_view v log) rs"
    and apart: "\<And>r r'. r \<in> set (concat results) \<Longrightarrow> r' \<in> set (concat results) \<Longrightarrow> fst r \<noteq> fst r' \<Longrightarrow> \<not> tx_conflict (txs ! fst r) (txs ! fst r')"
    and dist: "distinct (map fst (concat results))" and cov: "\<And>r. r \<in> set (concat results) \<Longrightarrow> cov (txs ! fst r)"
  shows "valid_log exec txs v (log @ concat results)"
  using each apart dist cov
proof (induction results rule: rev_induct)
  case Nil
  then show ?case using log by simp
next
  case (snoc rs results)
  have IH: "valid_log exec txs v (log @ concat results)" using snoc.prems by (intro snoc.IH) auto
  have "log_view v log k = log_view v (log @ concat results) k" if r: "r \<in> set rs" "declares (txs ! fst r) k" for r k
  proof -
    have "log_view (log_view v log) (concat results) k = log_view v log k"
    proof (rule execution.log_view_unwritten [OF ex])
      fix r' assume r': "r' \<in> set (concat results)"
      obtain rs' where rs': "rs' \<in> set results" "r' \<in> set rs'" using r' by auto
      then have "valid_log exec txs (log_view v log) rs'" using snoc.prems(1) by simp
      then show "\<exists>u. exec u (txs ! fst r') = Ok (snd r')" using execution.log_result [OF ex _ rs'(2)] by blast
      have "fst r' \<noteq> fst r" using snoc.prems(3) r(1) r' by auto
      then have "\<not> tx_conflict (txs ! fst r') (txs ! fst r)" using snoc.prems(2) [of r' r] r(1) r' by simp
      then show "\<not> writes_key (txs ! fst r') k" using r(2) by (auto simp: tx_conflict_def)
    qed
    then show ?thesis by simp
  qed
  then have "valid_log exec txs v ((log @ concat results) @ rs)"
    using snoc.prems by (intro execution.append_results [OF ex IH, of "log_view v log"]) simp_all
  then show ?case by simp
qed

lemma concat_chunks: "0 < n \<Longrightarrow> concat (chunks n xs) = xs"
proof (induction xs rule: length_induct)
  case (1 xs)
  show ?case
  proof (cases "xs = []")
    case False
    then have "concat (chunks n (drop n xs)) = drop n xs" using 1 by simp
    with False 1(2) show ?thesis by (simp add: chunks.simps [of n xs])
  qed (simp add: chunks.simps)
qed

lemma concat_take_chunks: "\<exists>ys. xs = concat (take m (chunks n xs)) @ ys"
proof (cases "n = 0")
  case True
  then show ?thesis by (simp add: chunks.simps)
next
  case False
  then have "xs = concat (take m (chunks n xs) @ drop m (chunks n xs))" by (simp add: concat_chunks)
  then show ?thesis by (metis concat_append)
qed

lemma wave_log_append:
  assumes "wave_log exec txs v ws c log" and "valid_log exec txs v (log @ rs)" and "distinct (map fst rs)"
    and "\<And>r. r \<in> set rs \<Longrightarrow> fst r < length txs \<and> c \<le> ws ! fst r \<and> ws ! fst r < d" and "sorted (map (\<lambda>r. ws ! fst r) rs)" and "c \<le> d"
  shows "wave_log exec txs v ws d (log @ rs)"
proof -
  have old: "distinct (map fst log)" "\<And>r. r \<in> set log \<Longrightarrow> fst r < length txs \<and> ws ! fst r < c" "sorted (map (\<lambda>r. ws ! fst r) log)"
    using assms(1) by (auto simp: wave_log_def)
  have less: "ws ! fst r < ws ! fst r'" if "r \<in> set log" "r' \<in> set rs" for r r'
    using old(2) [OF that(1)] assms(4) [OF that(2)] by simp
  then have "fst ` set log \<inter> fst ` set rs = {}" by force
  moreover have "fst r < length txs \<and> ws ! fst r < d" if "r \<in> set (log @ rs)" for r
    using that old(2) [of r] assms(4) [of r] assms(6) by auto
  ultimately show ?thesis
    using assms(2,3,5) old(1,3) less by (auto simp: wave_log_def sorted_append less_imp_le)
qed

lemma plan_of_nth: "w < length (plan_of ws) \<Longrightarrow> i \<in> set (plan_of ws ! w) \<longleftrightarrow> i < length ws \<and> ws ! i = w"
  by (auto simp: plan_of_def)

lemma plan_of_distinct: "w < length (plan_of ws) \<Longrightarrow> distinct (plan_of ws ! w)"
  by (simp add: plan_of_def)

text \<open>The loop over the waves from wave \<open>c\<close> on extends the log.\<close>

lemma pool_map_into_Ok:
  assumes "pool_map_into env n workers run tasks = Ok rs"
  shows "map run tasks = map Ok rs"
proof -
  let ?sent = "takeWhile (\<lambda>(worker, task). \<not> we_unsent env n worker) (enumerate 0 tasks)"
  have "length ?sent = length (enumerate 0 tasks)"
    using assms length_takeWhile_le [of "\<lambda>(worker, task). \<not> we_unsent env n worker" "enumerate 0 tasks"]
    by (auto simp: pool_map_into_def Let_def split: if_splits)
  then have all: "?sent = enumerate 0 tasks" by (metis takeWhile_eq_take take_all le_refl)
  have eq: "map (\<lambda>(worker, task). if we_dies env n worker then Err Trap else run task) (enumerate 0 tasks) = map Ok rs"
    using assms by (simp add: pool_map_into_def all collect_results_Ok split: if_splits)
  have len: "length rs = length tasks" using arg_cong [OF eq, of length] by simp
  show ?thesis
  proof (rule nth_equalityI)
    fix i assume "i < length (map run tasks)"
    then show "map run tasks ! i = map Ok rs ! i"
      using arg_cong [OF eq, of "\<lambda>l. l ! i"] len by (simp add: nth_enumerate_eq split: if_splits)
  qed (simp add: len)
qed

lemma fused_indexes:
  assumes "length ws = length txs" and c: "c < length (plan_of ws)" and one: "length (plan_of ws ! c) = 1"
    and waves: "waves = drop (Suc c) (plan_of ws)" and singles: "singles = takeWhile (\<lambda>w. length w = 1) waves"
    and q: "q \<le> length singles"
  shows "(hd (plan_of ws ! c) # map hd singles) ! q < length txs \<and> ws ! ((hd (plan_of ws ! c) # map hd singles) ! q) = c + q"
    "c + q < length (plan_of ws)"
proof -
  have "length singles \<le> length waves" by (simp add: singles length_takeWhile_le)
  then show bound: "c + q < length (plan_of ws)" using c q by (simp add: waves)
  have nth: "((plan_of ws ! c) # singles) ! q = plan_of ws ! (c + q) \<and> length (((plan_of ws ! c) # singles) ! q) = 1"
  proof (cases q)
    case 0
    then show ?thesis using one by simp
  next
    case (Suc q')
    then have "q' < length singles" using q by simp
    then have "singles ! q' = waves ! q'" "length (singles ! q') = 1"
      using nth_mem [of q' singles] set_takeWhileD by (auto simp: singles takeWhile_nth) fastforce+
    then show ?thesis using Suc c by (simp add: waves)
  qed
  have "(hd (plan_of ws ! c) # map hd singles) ! q = hd (((plan_of ws ! c) # singles) ! q)" using q by (cases q) auto
  then have "(hd (plan_of ws ! c) # map hd singles) ! q \<in> set (plan_of ws ! (c + q))"
    using nth by (metis hd_in_set length_0_conv zero_neq_one)
  then show "(hd (plan_of ws ! c) # map hd singles) ! q < length txs \<and> ws ! ((hd (plan_of ws ! c) # map hd singles) ! q) = c + q"
    using plan_of_nth [OF bound] assms(1) by simp
qed

lemma fused_wave_log:
  assumes log: "wave_log (tx_output blake2s ed execute_contract ctx policy) txs v ws c log" and ov: "overlay_get ov = log_view v log"
    and len: "length ws = length txs" and c: "c < length (plan_of ws)" and one: "length (plan_of ws ! c) = 1"
    and singles: "singles = takeWhile (\<lambda>w. length w = 1) (drop (Suc c) (plan_of ws))"
    and run: "execute_chunk blake2s ed execute_contract txs ctx policy ov (hd (plan_of ws ! c) # map hd singles) = Ok rs"
  shows "wave_log (tx_output blake2s ed execute_contract ctx policy) txs v ws (Suc (c + length singles)) (log @ rs)"
proof (rule wave_log_append [OF log])
  note chunk = execute_chunk_valid [OF run]
  have lens: "length rs = Suc (length singles)" using arg_cong [OF chunk(2), of length] by simp
  have nth: "fst (rs ! q) < length txs \<and> ws ! fst (rs ! q) = c + q" if "q < Suc (length singles)" for q
    using fused_indexes(1) [OF len c one refl singles, of q] that lens arg_cong [OF chunk(2), of "\<lambda>l. l ! q"] by simp
  show "valid_log (tx_output blake2s ed execute_contract ctx policy) txs v (log @ rs)"
    using chunk(1) log ov by (simp add: valid_log_append wave_log_def)
  show "distinct (map fst rs)"
    unfolding distinct_conv_nth using nth lens by (metis add_left_cancel length_map nth_map)
  show "fst r < length txs \<and> c \<le> ws ! fst r \<and> ws ! fst r < Suc (c + length singles)" if "r \<in> set rs" for r
    using that nth lens by (auto simp: in_set_conv_nth)
  show "sorted (map (\<lambda>r. ws ! fst r) rs)"
    unfolding sorted_iff_nth_mono using nth lens by simp
qed simp

lemma chunk_results:
  assumes "map (execute_chunk blake2s ed execute_contract txs ctx policy ov) chs = map Ok results"
  shows "\<And>rs. rs \<in> set results \<Longrightarrow> valid_log (tx_output blake2s ed execute_contract ctx policy) txs (overlay_get ov) rs"
    "map fst (concat results) = concat chs"
proof -
  fix rs assume "rs \<in> set results"
  then have "Ok rs \<in> set (map (execute_chunk blake2s ed execute_contract txs ctx policy ov) chs)" by (simp only: assms set_map imageI)
  then obtain ch where "execute_chunk blake2s ed execute_contract txs ctx policy ov ch = Ok rs" by auto
  then show "valid_log (tx_output blake2s ed execute_contract ctx policy) txs (overlay_get ov) rs" using execute_chunk_valid by blast
next
  have "list_all2 (\<lambda>ch rs. map fst rs = ch) chs results"
    using map_Ok_all2 [OF assms] by (rule list_all2_mono) (rule execute_chunk_valid(2))
  then have "map (map fst) results = chs" by (induction rule: list_all2_induct) auto
  then show "map fst (concat results) = concat chs" by (simp add: map_concat)
qed

lemma parallel_wave_log:
  assumes ex: "execution (tx_output blake2s ed execute_contract ctx policy) (covered blake2s)"
    and plan: "earliest txs ws" and cov: "\<And>i. i < length txs \<Longrightarrow> covered blake2s (txs ! i)"
    and log: "wave_log (tx_output blake2s ed execute_contract ctx policy) txs v ws c log" and ov: "overlay_get ov = log_view v log"
    and c: "c < length (plan_of ws)"
    and res: "map (execute_chunk blake2s ed execute_contract txs ctx policy ov) (take p (chunks n (plan_of ws ! c))) = map Ok results"
  shows "wave_log (tx_output blake2s ed execute_contract ctx policy) txs v ws (Suc c) (log @ concat results)"
proof -
  let ?exec = "tx_output blake2s ed execute_contract ctx policy" and ?chunks = "take p (chunks n (plan_of ws ! c))"
  note names = chunk_results(2) [OF res]
  obtain ys where "plan_of ws ! c = concat ?chunks @ ys" using concat_take_chunks by blast
  then have sub: "set (concat ?chunks) \<subseteq> set (plan_of ws ! c)" and "distinct (concat ?chunks)"
    using plan_of_distinct [OF c] by (metis Un_upper1 set_append, metis distinct_append)
  then have dist: "distinct (map fst (concat results))" by (simp only: names)
  have mem: "fst r < length txs \<and> ws ! fst r = c" if "r \<in> set (concat results)" for r
  proof -
    have "fst r \<in> set (map fst (concat results))" using that by simp
    then have "fst r \<in> set (plan_of ws ! c)" using sub by (auto simp only: names)
    then show ?thesis using plan plan_of_nth [OF c] by (simp add: earliest_def)
  qed
  have valid: "valid_log ?exec txs v (log @ concat results)"
  proof (rule parallel_results [OF ex _ _ _ dist])
    show "valid_log ?exec txs v log" using log by (simp add: wave_log_def)
    show "valid_log ?exec txs (log_view v log) rs" if "rs \<in> set results" for rs
      using chunk_results(1) [OF res that] by (simp only: ov)
    show "\<not> tx_conflict (txs ! fst r) (txs ! fst r')" if "r \<in> set (concat results)" "r' \<in> set (concat results)" "fst r \<noteq> fst r'" for r r'
      using same_wave [OF plan] mem [OF that(1)] mem [OF that(2)] that(3) by simp
    show "covered blake2s (txs ! fst r)" if "r \<in> set (concat results)" for r using mem [OF that] cov by simp
  qed
  show ?thesis
  proof (rule wave_log_append [OF log valid dist])
    show "sorted (map (\<lambda>r. ws ! fst r) (concat results))"
      unfolding sorted_iff_nth_mono using mem by (metis (no_types, lifting) le_refl length_map nth_map nth_mem le_less_trans)
  qed (use mem in auto)
qed

lemma run_waves_log:
  assumes ex: "execution (tx_output blake2s ed execute_contract ctx policy) (covered blake2s)"
    and plan: "earliest txs ws" and cov: "\<And>i. i < length txs \<Longrightarrow> covered blake2s (txs ! i)"
    and run: "run_waves blake2s ed execute_contract env txs ctx policy workers pool_size n ov outs (drop c (plan_of ws)) = Ok outs'"
    and log: "wave_log (tx_output blake2s ed execute_contract ctx policy) txs v ws c log" and c: "c \<le> length (plan_of ws)"
    and ov: "overlay_get ov = log_view v log" and outs: "outs = map (map_of log) [0..<length txs]"
  shows "\<exists>log'. wave_log (tx_output blake2s ed execute_contract ctx policy) txs v ws (length (plan_of ws)) log'
    \<and> outs' = map (map_of log') [0..<length txs]"
  using run log c ov outs
proof (induction "length (plan_of ws) - c" arbitrary: c n ov outs log rule: less_induct)
  case less
  let ?exec = "tx_output blake2s ed execute_contract ctx policy"
  let ?rec = "run_waves blake2s ed execute_contract env txs ctx policy workers pool_size (n + 1)"
  have len: "length ws = length txs" using plan by (simp add: earliest_def)
  have step: ?case if "c < c'" "c' \<le> length (plan_of ws)" and log': "wave_log ?exec txs v ws c' (log @ rs)"
    and "?rec (apply_results rs ov) (store_results rs outs) (drop c' (plan_of ws)) = Ok outs'" for c' rs
  proof (rule less.hyps [OF _ that(4,3,2)])
    show "length (plan_of ws) - c' < length (plan_of ws) - c" using that by simp
    show "overlay_get (apply_results rs ov) = log_view v (log @ rs)" by (simp add: overlay_get_results less.prems(4))
    show "store_results rs outs = map (map_of (log @ rs)) [0..<length txs]"
      using log' unfolding less.prems(5) by (intro store_results_log) (simp add: wave_log_def)
  qed
  show ?case
  proof (cases "c = length (plan_of ws)")
    case True
    then show ?thesis using less.prems by auto
  next
    case False
    then have c: "c < length (plan_of ws)" using less.prems(3) by simp
    define waves where "waves = drop (Suc c) (plan_of ws)"
    have drop: "drop c (plan_of ws) = plan_of ws ! c # waves" using c by (simp add: waves_def Cons_nth_drop_Suc)
    show ?thesis
    proof (cases "length (plan_of ws ! c) = 1")
      case True
      define singles where "singles = takeWhile (\<lambda>w. length w = 1) waves"
      have later: "dropWhile (\<lambda>w. length w = 1) waves = drop (Suc (c + length singles)) (plan_of ws)"
        by (simp add: singles_def waves_def dropWhile_eq_drop add.commute)
      obtain rs where rs: "execute_chunk blake2s ed execute_contract txs ctx policy ov (hd (plan_of ws ! c) # map hd singles) = Ok rs"
        and "?rec (apply_results rs ov) (store_results rs outs) (drop (Suc (c + length singles)) (plan_of ws)) = Ok outs'"
        using less.prems(1) True unfolding drop by (auto simp: result_simps Let_def singles_def later [simplified])
      then show ?thesis
        using fused_wave_log [OF less.prems(2,4) len c True singles_def [unfolded waves_def] rs]
          fused_indexes(2) [OF len c True waves_def singles_def, of "length singles"]
        by (intro step) simp_all
    next
      case False
      let ?chunks = "take pool_size (chunks (div_ceil (length (plan_of ws ! c)) workers) (plan_of ws ! c))"
      obtain results where "pool_map_into env n pool_size (execute_chunk blake2s ed execute_contract txs ctx policy ov) ?chunks = Ok results"
        and next_run: "?rec (apply_results (concat results) ov) (store_results (concat results) outs) (drop (Suc c) (plan_of ws)) = Ok outs'"
        using less.prems(1) False unfolding drop waves_def [symmetric] by (auto simp: result_simps split: if_splits)
      then show ?thesis
        using parallel_wave_log [OF ex plan cov less.prems(2,4) c pool_map_into_Ok] c by (intro step) simp_all
    qed
  qed
qed

section \<open>Serial outputs\<close>

definition serial_outputs ::
  "(snapshot \<Rightarrow> transaction \<Rightarrow> execution_error + transaction_output) \<Rightarrow> transaction list \<Rightarrow> snapshot \<Rightarrow> transaction_output list \<Rightarrow> bool" where
  "serial_outputs exec txs v outs \<longleftrightarrow> length outs = length txs \<and> valid_log exec txs v (enumerate 0 outs)"

lemma enumerate_map: "enumerate 0 (map f [0..<n]) = map (\<lambda>i. (i, f i)) [0..<n]"
  by (intro nth_equalityI) (simp_all add: nth_enumerate_eq)

lemma log_serial_outputs:
  assumes ex: "execution exec cov" and log: "valid_log exec txs v log" "distinct (map fst log)" "in_order txs log"
    and bound: "\<And>r. r \<in> set log \<Longrightarrow> fst r < length txs" and cov: "\<And>i. i < length txs \<Longrightarrow> cov (txs ! i)"
    and fin: "finish_outputs (map (map_of log) [0..<length txs]) = Ok outs"
  shows "serial_outputs exec txs v outs"
proof -
  note out = finish_outputs_log [OF fin]
  have "fst ` set log = {..<length txs}" using out(2) bound by auto
  from execution.sort_log [OF ex log(1,2) this log(3) cov] show ?thesis
    by (simp add: serial_outputs_def out(1) enumerate_map)
qed

lemma speculate_waves_serial:
  assumes ex: "execution (tx_output blake2s ed execute_contract ctx policy) (covered blake2s)"
    and spec: "speculate_waves blake2s ed execute_contract env parent txs ctx policy workers = Ok outs"
  shows "serial_outputs (tx_output blake2s ed execute_contract ctx policy) txs parent outs"
proof -
  let ?exec = "tx_output blake2s ed execute_contract ctx policy"
  obtain ws where ws: "earliest txs ws" "greedy_plan txs = plan_of ws" using greedy_plan_earliest by blast
  obtain outs' n pool_size where decl: "validate_declarations blake2s txs = Ok ()"
    and run: "run_waves blake2s ed execute_contract env txs ctx policy workers pool_size n
       \<lparr>ov_parent = parent, ov_values = []\<rparr> (replicate (length txs) None) (drop 0 (plan_of ws)) = Ok outs'"
    and fin: "finish_outputs outs' = Ok outs"
    using spec ws(2) by (auto simp: speculate_waves_def result_simps Let_def split: if_splits)
  have cov: "covered blake2s (txs ! i)" if "i < length txs" for i using decl that by (simp add: validate_declarations_Ok)
  have "replicate (length txs) None = map (map_of ([] :: results)) [0..<length txs]" by (intro nth_equalityI) simp_all
  then obtain log where log: "wave_log ?exec txs parent ws (length (plan_of ws)) log" "outs' = map (map_of log) [0..<length txs]"
    using run_waves_log [OF ex ws(1) cov run, where v = parent and log = "[]"] by (auto simp: wave_log_def)
  show ?thesis
    using log fin cov wave_log_in_order [OF ws(1) log(1)] by (intro log_serial_outputs [OF ex, of txs parent log]) (auto simp: wave_log_def)
qed

section \<open>Orders closed under dependencies\<close>

definition dep_closed :: "transaction list \<Rightarrow> nat list \<Rightarrow> bool" where
  "dep_closed txs xs \<longleftrightarrow> (\<forall>b < length xs. {i. direct txs i (xs ! b)} \<subseteq> set (take b xs))"

lemma dep_closed_snoc: "dep_closed txs (xs @ [x]) \<longleftrightarrow> dep_closed txs xs \<and> {i. direct txs i x} \<subseteq> set xs"
  by (auto simp: dep_closed_def nth_append less_Suc_eq)

lemma dep_closed_trancl:
  assumes "dep_closed txs xs" and "(direct txs)\<^sup>+\<^sup>+ i j" and "a < length xs" and "xs ! a = j"
  shows "i \<in> set (take a xs)"
  using assms(2,3,4)
proof (induction arbitrary: a rule: tranclp_induct)
  case (base y)
  then show ?case using assms(1) by (auto simp: dep_closed_def)
next
  case (step y z)
  then have "y \<in> set (take a xs)" using assms(1) by (auto simp: dep_closed_def)
  then obtain b where b: "b < a" "xs ! b = y" using step.prems by (auto simp: in_set_conv_nth)
  then have "i \<in> set (take b xs)" using step by simp
  then show ?case using b(1) set_take_subset_set_take [of b a xs] by auto
qed

lemma dep_closed_conflict:
  assumes "dep_closed txs xs" and "a < length xs" and "i < xs ! a" and "tx_conflict (txs ! i) (txs ! (xs ! a))"
  shows "i \<in> set (take a xs)"
  using dep_closed_trancl [OF assms(1) conflict_direct [OF assms(3,4)] assms(2) refl] .

lemma dep_closed_in_order:
  assumes "dep_closed txs (map fst log)" and "distinct (map fst log)"
  shows "in_order txs log"
  unfolding in_order_def sorted_wrt_iff_nth_less
proof (intro allI impI)
  fix a b assume ab: "a < b" "b < length log" and conf: "tx_conflict (txs ! fst (log ! a)) (txs ! fst (log ! b))"
  have ne: "fst (log ! a) \<noteq> fst (log ! b)"
    using assms(2) ab nth_eq_iff_index_eq [of "map fst log" a b] by simp
  show "fst (log ! a) < fst (log ! b)"
  proof (rule ccontr)
    assume "\<not> fst (log ! a) < fst (log ! b)"
    then have "fst (log ! b) \<in> set (take a (map fst log))"
      using ne ab conf tx_conflict_sym by (intro dep_closed_conflict [OF assms(1)]) auto
    then obtain c where "c < a" "map fst log ! c = fst (log ! b)" using ab by (auto simp: in_set_conv_nth)
    then show False using assms(2) ab nth_eq_iff_index_eq [of "map fst log" c b] by simp
  qed
qed

section \<open>Successors\<close>

lemma fold_push:
  assumes "distinct preds" and "\<And>p. p \<in> set preds \<Longrightarrow> p < length succs"
  shows "fold (\<lambda>p succs. succs[p := succs ! p @ [index]]) preds succs
    = map (\<lambda>p. succs ! p @ (if p \<in> set preds then [index] else [])) [0..<length succs]"
  using assms
proof (induction preds arbitrary: succs)
  case Nil
  then show ?case by (simp add: map_nth)
next
  case (Cons q preds)
  have "fold (\<lambda>p succs. succs[p := succs ! p @ [index]]) (q # preds) succs
      = map (\<lambda>p. succs[q := succs ! q @ [index]] ! p @ (if p \<in> set preds then [index] else [])) [0..<length succs]"
    using Cons.IH [of "succs[q := succs ! q @ [index]]"] Cons.prems by simp
  also have "\<dots> = map (\<lambda>p. succs ! p @ (if p \<in> set (q # preds) then [index] else [])) [0..<length succs]"
    using Cons.prems by (intro map_cong) (auto simp: nth_list_update)
  finally show ?case .
qed

lemma successor_indexes_eq:
  assumes "\<And>j. j < length deps \<Longrightarrow> distinct (deps ! j)" and "\<And>j p. j < length deps \<Longrightarrow> p \<in> set (deps ! j) \<Longrightarrow> p < length deps"
  shows "successor_indexes deps = map (\<lambda>p. filter (\<lambda>j. p \<in> set (deps ! j)) [0..<length deps]) [0..<length deps]"
proof -
  let ?n = "length deps"
  have "fold (\<lambda>(index, preds) succs. fold (\<lambda>p succs. succs[p := succs ! p @ [index]]) preds succs)
      (take m (enumerate 0 deps)) (replicate ?n []) = map (\<lambda>p. filter (\<lambda>j. p \<in> set (deps ! j)) [0..<m]) [0..<?n]" if "m \<le> ?n" for m
    using that
  proof (induction m)
    case 0
    then show ?case by (intro nth_equalityI) simp_all
  next
    case (Suc m)
    let ?succs = "map (\<lambda>p. filter (\<lambda>j. p \<in> set (deps ! j)) [0..<m]) [0..<?n]"
    have "take (Suc m) (enumerate 0 deps) = take m (enumerate 0 deps) @ [(m, deps ! m)]"
      using Suc.prems by (simp add: take_Suc_conv_app_nth nth_enumerate_eq)
    then have "fold (\<lambda>(index, preds) succs. fold (\<lambda>p succs. succs[p := succs ! p @ [index]]) preds succs)
        (take (Suc m) (enumerate 0 deps)) (replicate ?n []) = fold (\<lambda>p succs. succs[p := succs ! p @ [m]]) (deps ! m) ?succs"
      using Suc by simp
    also have "\<dots> = map (\<lambda>p. ?succs ! p @ (if p \<in> set (deps ! m) then [m] else [])) [0..<length ?succs]"
      using assms(1) assms(2) [of m] Suc.prems by (intro fold_push) auto
    also have "\<dots> = map (\<lambda>p. filter (\<lambda>j. p \<in> set (deps ! j)) [0..<Suc m]) [0..<?n]"
      by (intro map_cong) auto
    finally show ?case .
  qed
  from this [of ?n] show ?thesis by (simp add: successor_indexes_def)
qed

lemma successors_direct:
  assumes "i < length txs"
  shows "successor_indexes (dependencies txs) ! i = filter (\<lambda>j. direct txs i j) [0..<length txs]"
proof -
  have bound: "p < length txs" if "j < length txs" "p \<in> set (dependencies txs ! j)" for j p
    using that dependencies_direct(1) [OF that(1)] by (auto simp: direct_def)
  have "successor_indexes (dependencies txs) = map (\<lambda>p. filter (\<lambda>j. p \<in> set (dependencies txs ! j)) [0..<length txs]) [0..<length txs]"
    using successor_indexes_eq [of "dependencies txs"] dependencies_direct(2) bound
    by (simp add: length_dependencies strict_sorted_iff)
  then have "successor_indexes (dependencies txs) ! i = filter (\<lambda>j. i \<in> set (dependencies txs ! j)) [0..<length txs]"
    using assms by simp
  also have "\<dots> = filter (\<lambda>j. direct txs i j) [0..<length txs]"
    by (intro filter_cong refl) (simp add: dependencies_direct(1))
  finally show ?thesis .
qed

end
