(* ===== verification/Astro_Dag.thy ===== *)
theory Astro_Dag
  imports Astro_Parallel_Proof "HOL-Library.Multiset"
begin

text \<open>
  The readiness-driven executor of parallel\_payment.rs agrees with serial execution: whatever worker answers first,
  the results it has applied form a log that is closed under dependencies, and a job that was handed a frozen view of
  the overlay still computes what it would compute on the overlay at the moment its results are applied. The
  coordinator never runs out of work before the last transaction.
\<close>

section \<open>Frozen views\<close>

lemma map_filter_get:
  assumes "k \<in> set ks"
  shows "map_of (rev (List.map_filter (\<lambda>key. map_option (\<lambda>v. (key, v)) (m key)) ks)) k = m k"
proof -
  let ?es = "List.map_filter (\<lambda>key. map_option (\<lambda>v. (key, v)) (m key)) ks"
  have es: "set ?es = {(key, v). key \<in> set ks \<and> m key = Some v}" by (force simp: List.map_filter_def image_iff)
  show ?thesis
  proof (cases "m k")
    case None
    then have "k \<notin> fst ` set (rev ?es)" using es by auto
    then show ?thesis using None by (simp add: map_of_eq_None_iff)
  next
    case (Some v)
    then have "k \<in> fst ` set (rev ?es)" using es assms by force
    then obtain w where w: "map_of (rev ?es) k = Some w" by (metis map_of_eq_None_iff option.exhaust)
    then have "(k, w) \<in> set ?es" using map_of_SomeD [OF w] by simp
    then show ?thesis using w es Some by auto
  qed
qed

lemma overlay_get_frozen:
  assumes "i \<in> set idx" and "declares (txs ! i) k"
  shows "overlay_get (frozen_view txs ov idx) k = overlay_get ov k"
proof -
  have "k \<in> set (concat (map (\<lambda>index. tx_access_list (txs ! index)) idx))" using assms by auto
  from map_filter_get [OF this, of "bt_get (ov_values ov)"] show ?thesis
    by (simp add: overlay_get_def frozen_view_def bt_get_collect cong: option.case_cong)
qed

section \<open>Fused paths\<close>

definition fused :: "nat list list \<Rightarrow> nat list \<Rightarrow> nat \<Rightarrow> bool list \<Rightarrow> nat list \<Rightarrow> bool list \<Rightarrow> bool" where
  "fused succs waits tail started path started' \<longleftrightarrow> length started' = length started
     \<and> (\<forall>x < length started. started' ! x \<longleftrightarrow> started ! x \<or> x \<in> set path)
     \<and> distinct path \<and> (\<forall>x \<in> set path. x < length started \<and> \<not> started ! x \<and> waits ! x = 1)
     \<and> (\<forall>q < length path. succs ! ((tail # path) ! q) = [path ! q])"

lemma fuse_path_fused:
  "fuse_path succs waits tail started = (path, started') \<Longrightarrow> fused succs waits tail started path started'"
proof (induction succs waits tail started arbitrary: path started' rule: fuse_path.induct)
  case (1 succs waits tail started)
  consider (stop) "path = []" "started' = started"
    | (go) nxt path' where "succs ! tail = [nxt]" "nxt < length started" "waits ! nxt = 1" "\<not> started ! nxt"
        "fuse_path succs waits nxt (started[nxt := True]) = (path', started')" "path = nxt # path'"
    using "1.prems" by (subst (asm) fuse_path.simps) (auto split: list.splits if_splits prod.splits)
  then show ?case
  proof cases
    case stop
    then show ?thesis by (simp add: fused_def)
  next
    case go
    have IH: "fused succs waits nxt (started[nxt := True]) path' started'" using "1.IH" go by blast
    then have "length started' = length started" "distinct path'" by (simp_all add: fused_def)
    moreover have "started' ! x \<longleftrightarrow> started ! x \<or> x = nxt \<or> x \<in> set path'" if "x < length started" for x
      using IH that by (cases "x = nxt") (auto simp: fused_def)
    moreover have mem: "x < length started \<and> x \<noteq> nxt \<and> \<not> started ! x \<and> waits ! x = 1" if "x \<in> set path'" for x
      using IH that go(2) by (cases "x = nxt") (auto simp: fused_def)
    moreover have "succs ! ((tail # path) ! q) = [path ! q]" if "q < length path" for q
      using IH that go by (cases q) (auto simp: fused_def)
    ultimately show ?thesis using go by (auto simp: fused_def)
  qed
qed

section \<open>The queue of ready transactions\<close>

lemma finite_direct [simp]: "finite {j. direct txs j i}"
  by (rule finite_subset [of _ "{..<i}"]) (auto simp: direct_def)

lemma release_eq:
  "release x st = st\<lparr>dg_remaining := (dg_remaining st)[x := dg_remaining st ! x - 1],
     dg_ready := (if dg_remaining st ! x - 1 = 0 \<and> \<not> dg_started st ! x then insort_insert x (dg_ready st) else dg_ready st)\<rparr>"
  by (cases st) (simp add: release_def Let_def)

lemma fold_release:
  assumes "distinct xs" and "\<And>x. x \<in> set xs \<Longrightarrow> x < length (dg_remaining st)"
  shows "fold release xs st = st\<lparr>dg_remaining := map (\<lambda>i. dg_remaining st ! i - (if i \<in> set xs then 1 else 0)) [0..<length (dg_remaining st)],
    dg_ready := fold insort_insert (filter (\<lambda>x. dg_remaining st ! x - 1 = 0 \<and> \<not> dg_started st ! x) xs) (dg_ready st)\<rparr>"
  using assms
proof (induction xs arbitrary: st)
  case Nil
  then show ?case by (simp add: map_nth)
next
  case (Cons x xs)
  let ?r = "dg_remaining st ! x - 1"
  have upd: "map (\<lambda>i. (dg_remaining st)[x := ?r] ! i - (if i \<in> set xs then 1 else 0)) [0..<length (dg_remaining st)]
      = map (\<lambda>i. dg_remaining st ! i - (if i \<in> set (x # xs) then 1 else 0)) [0..<length (dg_remaining st)]"
    using Cons.prems by (intro map_cong) (auto simp: nth_list_update)
  have flt: "filter (\<lambda>y. (dg_remaining st)[x := ?r] ! y - 1 = 0 \<and> \<not> dg_started st ! y) xs
      = filter (\<lambda>y. dg_remaining st ! y - 1 = 0 \<and> \<not> dg_started st ! y) xs"
    using Cons.prems(1) by (intro filter_cong refl) (metis distinct.simps(2) nth_list_update_neq)
  show ?case
    using Cons.IH [of "release x st"] Cons.prems upd flt by (simp add: release_eq)
qed

definition queue_ok :: "transaction list \<Rightarrow> nat set \<Rightarrow> nat set \<Rightarrow> dag_state \<Rightarrow> bool" where
  "queue_ok txs D B st \<longleftrightarrow> length (dg_remaining st) = length txs \<and> length (dg_started st) = length txs
     \<and> (\<forall>i < length txs. dg_remaining st ! i = card ({j. direct txs j i} - D))
     \<and> (\<forall>i < length txs. dg_started st ! i \<longleftrightarrow> i \<in> D \<union> B)
     \<and> sorted (dg_ready st) \<and> distinct (dg_ready st)
     \<and> set (dg_ready st) = {i. i < length txs \<and> i \<notin> D \<union> B \<and> {j. direct txs j i} \<subseteq> D}"

lemma sorted_fold_insort: "sorted ys \<Longrightarrow> distinct ys \<Longrightarrow> sorted (fold insort_insert xs ys) \<and> distinct (fold insort_insert xs ys)
    \<and> set (fold insort_insert xs ys) = set xs \<union> set ys"
  by (induction xs arbitrary: ys) (auto simp: sorted_insort_insert distinct_insort_insert set_insort_insert)

lemma queue_release:
  assumes q: "queue_ok txs D B st" and i: "i \<in> B" "i \<notin> D" "i < length txs"
  shows "queue_ok txs (insert i D) (B - {i}) (fold release (filter (\<lambda>j. direct txs i j) [0..<length txs]) st)"
proof -
  let ?xs = "filter (\<lambda>j. direct txs i j) [0..<length txs]"
  let ?st = "fold release ?xs st"
  have len: "length (dg_remaining st) = length txs" using q by (simp add: queue_ok_def)
  have st: "?st = st\<lparr>dg_remaining := map (\<lambda>x. dg_remaining st ! x - (if x \<in> set ?xs then 1 else 0)) [0..<length txs],
      dg_ready := fold insort_insert (filter (\<lambda>x. dg_remaining st ! x - 1 = 0 \<and> \<not> dg_started st ! x) ?xs) (dg_ready st)\<rparr>"
    using fold_release [of ?xs st] by (simp add: len)
  have waits: "card ({j. direct txs j x} - insert i D) = card ({j. direct txs j x} - D) - (if direct txs i x then 1 else 0)" for x
  proof (cases "direct txs i x")
    case True
    have "{j. direct txs j x} - insert i D = ({j. direct txs j x} - D) - {i}" by auto
    then show ?thesis using True i(2) by (simp add: card_Diff_singleton)
  next
    case False
    then have "{j. direct txs j x} - insert i D = {j. direct txs j x} - D" by auto
    then show ?thesis using False by simp
  qed
  have last: "card ({j. direct txs j x} - D) - 1 = 0 \<longleftrightarrow> {j. direct txs j x} \<subseteq> insert i D" if "direct txs i x" for x
  proof -
    have "card ({j. direct txs j x} - D) - 1 = card ({j. direct txs j x} - insert i D)" using waits [of x] that by simp
    then show ?thesis by auto
  qed
  note ready = sorted_fold_insort [of "dg_ready st" "filter (\<lambda>x. dg_remaining st ! x - 1 = 0 \<and> \<not> dg_started st ! x) ?xs"]
  have sorted: "sorted (dg_ready st)" "distinct (dg_ready st)" using q by (simp_all add: queue_ok_def)
  have "set (dg_ready ?st) = {x. x < length txs \<and> direct txs i x \<and> dg_remaining st ! x - 1 = 0 \<and> \<not> dg_started st ! x} \<union> set (dg_ready st)"
    using ready [OF sorted] unfolding st by auto
  also have "\<dots> = {x. x < length txs \<and> x \<notin> insert i D \<union> (B - {i}) \<and> {j. direct txs j x} \<subseteq> insert i D}"
  proof (rule set_eqI)
    fix x
    show "x \<in> {x. x < length txs \<and> direct txs i x \<and> dg_remaining st ! x - 1 = 0 \<and> \<not> dg_started st ! x} \<union> set (dg_ready st)
        \<longleftrightarrow> x \<in> {x. x < length txs \<and> x \<notin> insert i D \<union> (B - {i}) \<and> {j. direct txs j x} \<subseteq> insert i D}"
    proof (cases "direct txs i x")
      case True
      then show ?thesis using q i last [OF True] by (auto simp: queue_ok_def)
    next
      case False
      then have "{j. direct txs j x} \<subseteq> insert i D \<longleftrightarrow> {j. direct txs j x} \<subseteq> D" by auto
      then show ?thesis using q i False by (auto simp: queue_ok_def)
    qed
  qed
  finally have set_ready: "set (dg_ready ?st) = \<dots>" .
  have "sorted (dg_ready ?st) \<and> distinct (dg_ready ?st)" using ready [OF sorted] by (simp add: st)
  moreover have "\<forall>x < length txs. dg_remaining ?st ! x = card ({j. direct txs j x} - insert i D)"
    using q by (simp add: st waits queue_ok_def)
  moreover have "\<forall>x < length txs. dg_started ?st ! x \<longleftrightarrow> x \<in> insert i D \<union> (B - {i})" using q i by (auto simp: st queue_ok_def)
  ultimately show ?thesis using q set_ready unfolding queue_ok_def by (simp add: st)
qed

lemma queue_fuse:
  assumes q: "queue_ok txs D B (st\<lparr>dg_ready := i # ready\<rparr>)"
    and path: "fused (successor_indexes (dependencies txs)) (dg_remaining st) i ((dg_started st)[i := True]) path started"
  shows "queue_ok txs D (B \<union> insert i (set path)) (st\<lparr>dg_started := started, dg_jobs := jobs, dg_ready := ready\<rparr>)"
    "distinct (i # path)" "set (i # path) \<inter> (D \<union> B) = {}" "set (i # path) \<subseteq> {..<length txs}"
    "\<And>b. b < length (i # path) \<Longrightarrow> {j. direct txs j ((i # path) ! b)} \<subseteq> D \<union> set (take b (i # path))"
proof -
  have i: "i < length txs" "i \<notin> D \<union> B" "{j. direct txs j i} \<subseteq> D" using q by (auto simp: queue_ok_def)
  have len: "length (dg_started st) = length txs" using q by (simp add: queue_ok_def)
  have mem: "x < length txs \<and> x \<noteq> i \<and> x \<notin> D \<union> B \<and> card ({j. direct txs j x} - D) = 1" if "x \<in> set path" for x
    using path q that by (cases "x = i") (auto simp: fused_def queue_ok_def)
  show dist: "distinct (i # path)" using path mem by (auto simp: fused_def)
  show apart: "set (i # path) \<inter> (D \<union> B) = {}" and bound: "set (i # path) \<subseteq> {..<length txs}" using mem i by auto
  show "{j. direct txs j ((i # path) ! b)} \<subseteq> D \<union> set (take b (i # path))" if b: "b < length (i # path)" for b
  proof (cases b)
    case 0
    then show ?thesis using i(3) by auto
  next
    case (Suc a)
    let ?p = "(i # path) ! a" and ?x = "path ! a"
    have a: "a < length path" using b Suc by simp
    have p: "?p \<in> set (i # path)" using a by (metis length_Cons less_Suc_eq nth_mem)
    then have "?p < length txs" "?p \<notin> D" using bound apart by auto
    moreover have "successor_indexes (dependencies txs) ! ?p = [?x]" using path a by (simp add: fused_def)
    ultimately have "?x \<in> set (filter (\<lambda>j. direct txs ?p j) [0..<length txs])" by (simp only: flip: successors_direct) simp
    then have "?p \<in> {j. direct txs j ?x} - D" using \<open>?p \<notin> D\<close> by simp
    moreover have "card ({j. direct txs j ?x} - D) = 1" using mem a by simp
    ultimately have "{j. direct txs j ?x} - D = {?p}" by (metis card_1_singletonE singletonD)
    moreover have "?p \<in> set (take b (i # path))"
      using nth_mem [of a "take b (i # path)"] nth_take [of a b "i # path"] b Suc by simp
    ultimately have "{j. direct txs j ?x} \<subseteq> D \<union> set (take b (i # path))"
      by (simp only: flip: Diff_subset_conv) simp
    then show ?thesis using Suc by simp
  qed
  have "i \<notin> set ready" "sorted ready" "distinct ready" using q by (auto simp: queue_ok_def)
  moreover have "insert i (set ready) = {x. x < length txs \<and> x \<notin> D \<union> B \<and> {j. direct txs j x} \<subseteq> D}" using q by (simp add: queue_ok_def)
  moreover have "\<not> {j. direct txs j x} \<subseteq> D" if "x \<in> set path" for x
  proof
    assume "{j. direct txs j x} \<subseteq> D"
    then have "card ({j. direct txs j x} - D) = 0" by (metis Diff_eq_empty_iff card.empty)
    then show False using mem [OF that] by linarith
  qed
  ultimately have "set ready = {x. x < length txs \<and> x \<notin> D \<union> (B \<union> insert i (set path)) \<and> {j. direct txs j x} \<subseteq> D}" by blast
  moreover have "started ! x \<longleftrightarrow> x \<in> D \<union> (B \<union> insert i (set path))" if "x < length txs" for x
    using path q that by (cases "x = i") (auto simp: fused_def queue_ok_def)
  ultimately show "queue_ok txs D (B \<union> insert i (set path)) (st\<lparr>dg_started := started, dg_jobs := jobs, dg_ready := ready\<rparr>)"
    using q path len by (simp add: queue_ok_def fused_def)
qed

section \<open>Jobs and the log of applied results\<close>

lemma dep_closed_prefix: "dep_closed txs (xs @ ys) \<Longrightarrow> dep_closed txs xs"
proof (induction ys rule: rev_induct)
  case (snoc y ys)
  then show ?case using dep_closed_snoc [of txs "xs @ ys" y] by simp
qed simp

lemma dep_closed_appendI:
  assumes "dep_closed txs xs" and "\<And>b. b < length ys \<Longrightarrow> {i. direct txs i (ys ! b)} \<subseteq> set xs \<union> set (take b ys)"
  shows "dep_closed txs (xs @ ys)"
  using assms(2)
proof (induction ys rule: rev_induct)
  case (snoc y ys)
  have "{i. direct txs i (ys ! b)} \<subseteq> set xs \<union> set (take b ys)" if "b < length ys" for b
    using snoc.prems [of b] that by (simp add: nth_append)
  then have "dep_closed txs (xs @ ys)" by (rule snoc.IH)
  moreover have "{i. direct txs i y} \<subseteq> set (xs @ ys)" using snoc.prems [of "length ys"] by simp
  ultimately show ?case by (simp only: append_assoc [symmetric] dep_closed_snoc)
qed (simp add: assms(1))

definition job_ok :: "transaction list \<Rightarrow> snapshot \<Rightarrow> results \<Rightarrow> job \<Rightarrow> bool" where
  "job_ok txs v log j \<longleftrightarrow> (\<exists>before since. log = before @ since
     \<and> (\<forall>b < length (job_indexes j). {i. direct txs i (job_indexes j ! b)} \<subseteq> set (map fst before) \<union> set (take b (job_indexes j)))
     \<and> (\<forall>i \<in> set (job_indexes j). \<forall>k. declares (txs ! i) k \<longrightarrow> overlay_get (jb_view j) k = log_view v before k))"

abbreviation jobs_indexes :: "job list \<Rightarrow> nat list" where
  "jobs_indexes js \<equiv> concat (map job_indexes js)"

definition dag_inv ::
  "(snapshot \<Rightarrow> transaction \<Rightarrow> execution_error + transaction_output) \<Rightarrow> transaction list \<Rightarrow> snapshot \<Rightarrow> results \<Rightarrow> nat list \<Rightarrow> dag_state \<Rightarrow> bool" where
  "dag_inv exec txs v log pending st \<longleftrightarrow> valid_log exec txs v log \<and> dep_closed txs (map fst log)
     \<and> distinct (map fst log @ pending @ jobs_indexes (dg_jobs st))
     \<and> set (map fst log @ pending @ jobs_indexes (dg_jobs st)) \<subseteq> {..<length txs}
     \<and> queue_ok txs (set (map fst log)) (set pending \<union> set (jobs_indexes (dg_jobs st))) st
     \<and> overlay_get (dg_overlay st) = log_view v log \<and> dg_outputs st = map (map_of log) [0..<length txs]
     \<and> (\<forall>j \<in> set (dg_jobs st). job_ok txs v log j)"

lemma job_ok_append: "job_ok txs v log j \<Longrightarrow> job_ok txs v (log @ rs) j"
  unfolding job_ok_def by (metis append.assoc)

lemma dispatch_inv:
  assumes "dag_inv exec txs v log [] (st\<lparr>dg_ready := ready\<rparr>)"
  shows "dag_inv exec txs v log [] (dispatch txs (successor_indexes (dependencies txs)) pool_size ready st)"
  using assms
proof (induction ready arbitrary: st)
  case (Cons i ready)
  let ?succs = "successor_indexes (dependencies txs)"
  show ?case
  proof (cases "length (dg_jobs st) \<ge> pool_size")
    case True
    then show ?thesis using Cons.prems by simp
  next
    case False
    obtain path started where fuse: "fuse_path ?succs (dg_remaining st) i ((dg_started st)[i := True]) = (path, started)" by force
    define j where "j = \<lparr>jb_first = i, jb_rest = path, jb_view = frozen_view txs (dg_overlay st) (i # path)\<rparr>"
    let ?st = "st\<lparr>dg_started := started, dg_jobs := dg_jobs st @ [j]\<rparr>"
    have queue: "queue_ok txs (set (map fst log)) (set (jobs_indexes (dg_jobs st))) (st\<lparr>dg_ready := i # ready\<rparr>)"
      using Cons.prems by (simp add: dag_inv_def)
    note step = queue_fuse [OF queue fuse_path_fused [OF fuse]]
    have view: "overlay_get (dg_overlay st) = log_view v log" using Cons.prems by (simp add: dag_inv_def)
    have "job_ok txs v log j"
      unfolding job_ok_def
      using step(5) by (intro exI [of _ log] exI [of _ "[]"]) (auto simp: j_def overlay_get_frozen view)
    moreover have "queue_ok txs (set (map fst log)) (set (jobs_indexes (dg_jobs st @ [j]))) (?st\<lparr>dg_ready := ready\<rparr>)"
      using step(1) [of "dg_jobs st @ [j]"] by (simp add: j_def Un_commute insert_commute)
    moreover have "distinct (map fst log @ jobs_indexes (dg_jobs st @ [j]))"
      using step(2,3) Cons.prems by (auto simp: dag_inv_def j_def)
    moreover have "set (map fst log @ jobs_indexes (dg_jobs st @ [j])) \<subseteq> {..<length txs}"
      using step(4) Cons.prems by (auto simp: dag_inv_def j_def)
    ultimately have "dag_inv exec txs v log [] (?st\<lparr>dg_ready := ready\<rparr>)"
      using Cons.prems by (simp add: dag_inv_def)
    then show ?thesis using Cons.IH [of ?st] False fuse by (simp add: j_def)
  qed
qed simp

lemma complete_one_inv:
  assumes inv: "dag_inv exec txs v log (fst r # pending) st" and valid: "valid_log exec txs v (log @ [r])"
    and closed: "{i. direct txs i (fst r)} \<subseteq> set (map fst log)"
  shows "dag_inv exec txs v (log @ [r]) pending (complete_one (successor_indexes (dependencies txs)) r st)"
proof -
  let ?jobs = "jobs_indexes (dg_jobs st)"
  let ?st = "st\<lparr>dg_overlay := overlay_apply (to_diff (snd r)) (dg_overlay st), dg_outputs := (dg_outputs st)[fst r := Some (snd r)]\<rparr>"
  let ?xs = "filter (\<lambda>j. direct txs (fst r) j) [0..<length txs]"
  have r: "fst r < length txs" "fst r \<notin> set (map fst log)" "fst r \<notin> set pending \<union> set ?jobs" using inv by (auto simp: dag_inv_def)
  have len: "length (dg_remaining ?st) = length txs" using inv by (simp add: dag_inv_def queue_ok_def)
  have eq: "complete_one (successor_indexes (dependencies txs)) r st = fold release ?xs ?st"
    using r(1) by (simp add: complete_one_def successors_direct)
  have same: "dg_jobs (fold release ?xs ?st) = dg_jobs st" "dg_overlay (fold release ?xs ?st) = dg_overlay ?st"
    "dg_outputs (fold release ?xs ?st) = dg_outputs ?st"
    using fold_release [of ?xs ?st] len by simp_all
  have "queue_ok txs (set (map fst log)) (set (fst r # pending) \<union> set ?jobs) ?st"
    using inv by (simp add: dag_inv_def queue_ok_def)
  from queue_release [OF this _ r(2,1)]
  have queue: "queue_ok txs (set (map fst (log @ [r]))) (set pending \<union> set ?jobs) (fold release ?xs ?st)"
    using r(3) by simp
  have dist: "distinct (map fst (log @ [r]) @ pending @ ?jobs)" using inv by (auto simp: dag_inv_def)
  have outs: "dg_outputs ?st = map (map_of (log @ [r])) [0..<length txs]"
    using inv store_results_log [of log "[r]" "length txs"] dist by (simp add: dag_inv_def store_results_def case_prod_beta)
  have view: "overlay_get (dg_overlay ?st) = log_view v (log @ [r])" using inv by (simp add: dag_inv_def overlay_get_apply)
  show ?thesis
    unfolding dag_inv_def eq same outs view
    using inv valid closed dist queue by (auto simp: dag_inv_def dep_closed_snoc job_ok_append)
qed

lemma complete_inv:
  assumes "dag_inv exec txs v log (map fst rs) st" and "valid_log exec txs v (log @ rs)"
    and "\<And>b. b < length rs \<Longrightarrow> {i. direct txs i (fst (rs ! b))} \<subseteq> set (map fst log) \<union> set (map fst (take b rs))"
  shows "dag_inv exec txs v (log @ rs) [] (fold (complete_one (successor_indexes (dependencies txs))) rs st)"
  using assms
proof (induction rs arbitrary: log st)
  case (Cons r rs)
  have valid: "valid_log exec txs v (log @ [r])" using Cons.prems(2) valid_log_append [of exec txs v "log @ [r]" rs] by simp
  have "dag_inv exec txs v (log @ [r]) (map fst rs) (complete_one (successor_indexes (dependencies txs)) r st)"
    using Cons.prems(1) Cons.prems(3) [of 0] by (intro complete_one_inv [OF _ valid]) simp_all
  moreover have "{i. direct txs i (fst (rs ! b))} \<subseteq> set (map fst (log @ [r])) \<union> set (map fst (take b rs))" if "b < length rs" for b
    using Cons.prems(3) [of "Suc b"] that by simp
  ultimately show ?case using Cons.IH [of "log @ [r]"] Cons.prems(2) by simp
qed simp

text \<open>What has been applied since a job started does not touch what the job reads.\<close>

lemma job_valid:
  assumes ex: "execution exec cov" and inv: "dag_inv exec txs v log [] st" and j: "j \<in> set (dg_jobs st)"
    and cov: "\<And>i. i < length txs \<Longrightarrow> cov (txs ! i)"
    and rs: "valid_log exec txs (overlay_get (jb_view j)) rs" "map fst rs = job_indexes j"
  shows "valid_log exec txs v (log @ rs)"
    and "b < length rs \<Longrightarrow> {i. direct txs i (fst (rs ! b))} \<subseteq> set (map fst log) \<union> set (map fst (take b rs))"
proof -
  have "job_ok txs v log j" using inv j by (simp add: dag_inv_def)
  then obtain before since where job: "log = before @ since
     \<and> (\<forall>b < length (job_indexes j). {i. direct txs i (job_indexes j ! b)} \<subseteq> set (map fst before) \<union> set (take b (job_indexes j)))
     \<and> (\<forall>i \<in> set (job_indexes j). \<forall>k. declares (txs ! i) k \<longrightarrow> overlay_get (jb_view j) k = log_view v before k)"
    unfolding job_ok_def by blast
  then have log: "log = before @ since"
    and deps: "\<And>b. b < length (job_indexes j) \<Longrightarrow> {i. direct txs i (job_indexes j ! b)} \<subseteq> set (map fst before) \<union> set (take b (job_indexes j))"
    by simp_all
  have view: "overlay_get (jb_view j) k = log_view v before k" if "i \<in> set (job_indexes j)" "declares (txs ! i) k" for i k
    using job that by blast
  show "{i. direct txs i (fst (rs ! b))} \<subseteq> set (map fst log) \<union> set (map fst (take b rs))" if "b < length rs"
  proof -
    have "length rs = length (job_indexes j)" by (simp only: flip: rs(2)) simp
    then have b: "b < length (job_indexes j)" using that by simp
    have "fst (rs ! b) = job_indexes j ! b" using that by (simp only: flip: rs(2)) simp
    moreover have "map fst (take b rs) = take b (job_indexes j)" by (simp only: take_map [symmetric] rs(2))
    ultimately show ?thesis using deps [OF b] unfolding log by auto
  qed
  have dist: "distinct (map fst log @ job_indexes j)" and bound: "set (map fst log @ job_indexes j) \<subseteq> {..<length txs}"
    using inv j by (auto simp: dag_inv_def distinct_concat_iff)
  have closed: "dep_closed txs (map fst log)" using inv by (simp add: dag_inv_def)
  have closed_job: "dep_closed txs (map fst before @ job_indexes j)"
    using closed deps unfolding log by (intro dep_closed_appendI) (auto intro: dep_closed_prefix)
  have apart: "\<not> writes_key (txs ! m) k" if m: "m \<in> set (map fst since)" and i: "i \<in> set (job_indexes j)" "declares (txs ! i) k" for m i k
  proof
    assume "writes_key (txs ! m) k"
    then have conf: "tx_conflict (txs ! m) (txs ! i)" "tx_conflict (txs ! i) (txs ! m)"
      using i(2) by (auto simp: tx_conflict_def writes_key_def)
    have sep: "set (map fst log) \<inter> set (job_indexes j) = {}" using dist by (simp only: distinct_append)
    then have "m \<noteq> i" using m i(1) unfolding log map_append set_append by blast
    then consider "m < i" | "i < m" by linarith
    then show False
    proof cases
      case 1
      obtain b where "b < length (map fst before @ job_indexes j)" "(map fst before @ job_indexes j) ! b = i"
        using i(1) by (metis Un_iff in_set_conv_nth set_append)
      then have "m \<in> set (map fst before @ job_indexes j)"
        using dep_closed_conflict [OF closed_job, of b m] 1 conf(1) in_set_takeD by metis
      then show False using dist m unfolding log by (simp only: distinct_append map_append set_append) blast
    next
      case 2
      obtain a where "a < length (map fst log)" "map fst log ! a = m" using m by (metis Un_iff in_set_conv_nth log map_append set_append)
      then have "i \<in> set (map fst log)" using dep_closed_conflict [OF closed, of a i] 2 conf(2) in_set_takeD by metis
      then show False using sep i(1) by blast
    qed
  qed
  show "valid_log exec txs v (log @ rs)"
  proof (rule execution.append_results [OF ex _ rs(1)])
    show valid: "valid_log exec txs v log" using inv by (simp add: dag_inv_def)
    fix r assume "r \<in> set rs"
    then have r: "fst r \<in> set (job_indexes j)" unfolding rs(2) [symmetric] by simp
    then show "cov (txs ! fst r)" using bound by (intro cov) auto
    fix k assume k: "declares (txs ! fst r) k"
    have "log_view v log k = log_view v before k"
      unfolding log log_view_simps
    proof (rule execution.log_view_unwritten [OF ex])
      show "\<exists>u. exec u (txs ! fst r') = Ok (snd r')" if "r' \<in> set since" for r'
        using execution.log_result [OF ex valid, of r'] that by (auto simp: log)
    qed (use apart r k in auto)
    then show "overlay_get (jb_view j) k = log_view v log k" using view [OF r k] by (simp only:)
  qed
qed

section \<open>The coordinator\<close>

lemma take_job_inv:
  assumes "dag_inv exec txs v log [] st" and "k < length (dg_jobs st)"
  shows "dag_inv exec txs v log (job_indexes (dg_jobs st ! k)) (st\<lparr>dg_jobs := take k (dg_jobs st) @ drop (k + 1) (dg_jobs st)\<rparr>)"
proof -
  define l where "l = take k (dg_jobs st)"
  define r where "r = drop (k + 1) (dg_jobs st)"
  have jobs: "dg_jobs st = l @ dg_jobs st ! k # r" using id_take_nth_drop [OF assms(2)] by (simp add: l_def r_def)
  have "mset (map fst log @ job_indexes (dg_jobs st ! k) @ jobs_indexes (l @ r)) = mset (map fst log @ [] @ jobs_indexes (dg_jobs st))"
    by (subst jobs) simp
  then have perm: "distinct (map fst log @ job_indexes (dg_jobs st ! k) @ jobs_indexes (l @ r)) \<longleftrightarrow> distinct (map fst log @ [] @ jobs_indexes (dg_jobs st))"
      "set (map fst log @ job_indexes (dg_jobs st ! k) @ jobs_indexes (l @ r)) = set (map fst log @ [] @ jobs_indexes (dg_jobs st))"
    by (rule mset_eq_imp_distinct_iff, rule mset_eq_setD)
  have started: "set (job_indexes (dg_jobs st ! k)) \<union> set (jobs_indexes (l @ r)) = set [] \<union> set (jobs_indexes (dg_jobs st))"
    by (subst (3) jobs) auto
  have sub: "set (l @ r) \<subseteq> set (dg_jobs st)" by (subst jobs) auto
  have queue: "queue_ok txs D B (st\<lparr>dg_jobs := js\<rparr>) \<longleftrightarrow> queue_ok txs D B st" for D B js by (simp add: queue_ok_def)
  have sel: "dg_jobs (st\<lparr>dg_jobs := l @ r\<rparr>) = l @ r" "dg_overlay (st\<lparr>dg_jobs := l @ r\<rparr>) = dg_overlay st"
    "dg_outputs (st\<lparr>dg_jobs := l @ r\<rparr>) = dg_outputs st" by simp_all
  show ?thesis
    using assms(1) sub unfolding l_def [symmetric] r_def [symmetric] dag_inv_def sel perm started queue
    by (intro conjI ballI) (elim conjE, blast)+
qed

lemma dag_progress:
  assumes inv: "dag_inv exec txs v log [] (dispatch txs (successor_indexes (dependencies txs)) pool_size ready st)"
    and pool: "0 < pool_size" and few: "length log < length txs"
  shows "dg_jobs (dispatch txs (successor_indexes (dependencies txs)) pool_size ready st) \<noteq> []"
proof
  let ?st = "dispatch txs (successor_indexes (dependencies txs)) pool_size ready st"
  assume none: "dg_jobs ?st = []"
  have keep: "dg_jobs st \<noteq> [] \<Longrightarrow> dg_jobs (dispatch txs succs pool_size ready st) \<noteq> []" for succs ready st
    by (induction txs succs pool_size ready st rule: dispatch.induct) (auto split: prod.splits)
  have "ready = []"
  proof (rule ccontr)
    assume "ready \<noteq> []"
    then obtain i ready' where "ready = i # ready'" by (cases ready) auto
    then show False using none keep [of st _ ready] keep [of "st\<lparr>dg_started := _, dg_jobs := dg_jobs st @ [_]\<rparr>" _ ready'] pool
      by (cases "dg_jobs st = []") (simp_all split: prod.splits)
  qed
  then have "set (dg_ready ?st) = {}" by simp
  moreover have "queue_ok txs (set (map fst log)) {} ?st" using inv none by (simp add: dag_inv_def)
  ultimately have idle: "{i. i < length txs \<and> i \<notin> set (map fst log) \<and> {j. direct txs j i} \<subseteq> set (map fst log)} = {}"
    by (simp add: queue_ok_def)
  have "\<not> {..<length txs} \<subseteq> set (map fst log)"
  proof
    assume "{..<length txs} \<subseteq> set (map fst log)"
    then have "card {..<length txs} \<le> card (set (map fst log))" by (rule card_mono [rotated]) simp
    then show False using few card_length [of "map fst log"] by simp
  qed
  then obtain i where "i < length txs \<and> i \<notin> set (map fst log)" by auto
  from exists_least_iff [THEN iffD1, OF exI, of "\<lambda>i. i < length txs \<and> i \<notin> set (map fst log)", OF this]
  obtain m where m: "m < length txs" "m \<notin> set (map fst log)" "\<And>j. j < m \<Longrightarrow> j \<in> set (map fst log)" by auto
  then have "{j. direct txs j m} \<subseteq> set (map fst log)" using direct_conflict by blast
  then show False using idle m by blast
qed

definition speculation_fails ::
  "(byte list \<Rightarrow> hash256) \<Rightarrow> ed25519 \<Rightarrow> contract_execution \<Rightarrow> worker_env \<Rightarrow> transaction list \<Rightarrow> validation_context \<Rightarrow> execution_policy
   \<Rightarrow> execution_error \<Rightarrow> bool" where
  "speculation_fails blake2s ed execute_contract env txs ctx policy e \<longleftrightarrow>
     e = Trap \<and> (\<exists>m. we_broken env m) \<or> (\<exists>ov indexes. execute_chunk blake2s ed execute_contract txs ctx policy ov indexes = Err e)"

lemma dag_loop_result:
  assumes ex: "execution (tx_output blake2s ed execute_contract ctx policy) (covered blake2s)"
    and cov: "\<And>i. i < length txs \<Longrightarrow> covered blake2s (txs ! i)" and pool: "0 < pool_size"
    and inv: "dag_inv (tx_output blake2s ed execute_contract ctx policy) txs v log [] st"
  shows "case dag_loop blake2s ed execute_contract env txs ctx policy (successor_indexes (dependencies txs)) pool_size (length log) st of
      Inl e \<Rightarrow> speculation_fails blake2s ed execute_contract env txs ctx policy e
    | Inr outs \<Rightarrow> \<exists>log'. valid_log (tx_output blake2s ed execute_contract ctx policy) txs v log' \<and> distinct (map fst log')
        \<and> dep_closed txs (map fst log') \<and> set (map fst log') = {..<length txs} \<and> outs = map (map_of log') [0..<length txs]"
  using inv
proof (induction "length txs - length log" arbitrary: log st rule: less_induct)
  case less
  let ?exec = "tx_output blake2s ed execute_contract ctx policy" and ?succs = "successor_indexes (dependencies txs)"
  let ?loop = "dag_loop blake2s ed execute_contract env txs ctx policy ?succs pool_size"
  have inv: "valid_log ?exec txs v log" "distinct (map fst log)" "dep_closed txs (map fst log)" "set (map fst log) \<subseteq> {..<length txs}"
      "dg_outputs st = map (map_of log) [0..<length txs]"
    using less.prems by (auto simp: dag_inv_def)
  have "dag_inv ?exec txs v log [] (st\<lparr>dg_ready := dg_ready st\<rparr>)" using less.prems by simp
  then have disp: "dag_inv ?exec txs v log [] (dispatch txs ?succs pool_size (dg_ready st) st)" by (rule dispatch_inv)
  show ?case
  proof (cases "length log \<ge> length txs")
    case True
    have "set (map fst log) = {..<length txs}"
      using inv(4) True distinct_card [OF inv(2)] by (intro card_seteq) simp_all
    then show ?thesis using inv True by (auto simp: dag_loop.simps [where completed = "length log"])
  next
    case False
    define st' where "st' = dispatch txs ?succs pool_size (dg_ready st) st"
    define k where "k = we_next env (length log) mod length (dg_jobs st')"
    define j where "j = dg_jobs st' ! k"
    have jobs: "dg_jobs st' \<noteq> []" using dag_progress [OF disp pool] False by (simp add: st'_def)
    then have k: "k < length (dg_jobs st')" by (simp add: k_def)
    have loop: "?loop (length log) st = (if we_broken env (2 * length log) \<or> we_broken env (2 * length log + 1) then Err Trap
        else try_bind (execute_chunk blake2s ed execute_contract txs ctx policy (jb_view j) (job_indexes j)) (\<lambda>rs.
          ?loop (length log + length rs) (fold (complete_one ?succs) rs (st'\<lparr>dg_jobs := take k (dg_jobs st') @ drop (k + 1) (dg_jobs st')\<rparr>))))"
      using False jobs by (subst dag_loop.simps) (simp add: Let_def st'_def [symmetric] k_def [symmetric] j_def [symmetric])
    show ?thesis
    proof (cases "we_broken env (2 * length log) \<or> we_broken env (2 * length log + 1)")
      case True
      then show ?thesis unfolding loop by (auto simp: speculation_fails_def)
    next
      case unbroken: False
      show ?thesis
      proof (cases "execute_chunk blake2s ed execute_contract txs ctx policy (jb_view j) (job_indexes j)")
        case (Inl e)
        then show ?thesis using unbroken unfolding loop by (auto simp: speculation_fails_def result_simps)
      next
        case (Inr rs)
        note chunk = execute_chunk_valid [OF Inr]
        let ?st = "st'\<lparr>dg_jobs := take k (dg_jobs st') @ drop (k + 1) (dg_jobs st')\<rparr>"
        have mem: "j \<in> set (dg_jobs st')" using k by (simp add: j_def)
        have "dag_inv ?exec txs v log (map fst rs) ?st"
          unfolding chunk(2) using take_job_inv [OF disp [folded st'_def] k] by (simp add: j_def)
        then have "dag_inv ?exec txs v (log @ rs) [] (fold (complete_one ?succs) rs ?st)"
          using job_valid [OF ex disp [folded st'_def] mem cov chunk] by (rule complete_inv)
        moreover have "length txs - length (log @ rs) < length txs - length log"
          using arg_cong [OF chunk(2), of length] False by simp
        ultimately show ?thesis
          using less.hyps [of "log @ rs" "fold (complete_one ?succs) rs ?st"] unbroken Inr unfolding loop by (simp add: result_simps)
      qed
    qed
  qed
qed

section \<open>Speculation\<close>

lemma dag_inv_start:
  "dag_inv exec txs v [] []
     \<lparr>dg_remaining = map length (dependencies txs), dg_ready = filter (\<lambda>index. map length (dependencies txs) ! index = 0) [0..<length txs],
      dg_started = replicate (length txs) False, dg_outputs = replicate (length txs) None,
      dg_overlay = \<lparr>ov_parent = v, ov_values = []\<rparr>, dg_jobs = []\<rparr>"
proof -
  have waits: "map length (dependencies txs) ! i = card {j. direct txs j i}" if "i < length txs" for i
    using dependencies_direct [OF that] that by (metis distinct_card length_dependencies nth_map strict_sorted_iff)
  then have "set (filter (\<lambda>index. map length (dependencies txs) ! index = 0) [0..<length txs]) = {i. i < length txs \<and> {j. direct txs j i} = {}}"
    by auto
  then show ?thesis
    using waits by (auto simp: dag_inv_def queue_ok_def dep_closed_def length_dependencies map_replicate_const sorted_wrt_filter)
qed

abbreviation wave_only :: "transaction list \<Rightarrow> bool" where
  "wave_only txs \<equiv> length (greedy_plan txs) < 2 \<or> list_all (\<lambda>w. length w = 1) (greedy_plan txs)"

lemma speculate_dag:
  assumes "\<not> wave_only txs"
  shows "speculate blake2s ed execute_contract env parent txs ctx policy workers =
    try_bind (validate_declarations blake2s txs) (\<lambda>_.
      if min workers (Max (set (map length (greedy_plan txs)))) = 0 \<or> \<not> we_spawns env then Err ResourceLimit
      else try_bind (dag_loop blake2s ed execute_contract env txs ctx policy (successor_indexes (dependencies txs))
          (min workers (Max (set (map length (greedy_plan txs))))) 0
          \<lparr>dg_remaining = map length (dependencies txs), dg_ready = filter (\<lambda>index. map length (dependencies txs) ! index = 0) [0..<length txs],
           dg_started = replicate (length txs) False, dg_outputs = replicate (length txs) None,
           dg_overlay = \<lparr>ov_parent = parent, ov_values = []\<rparr>, dg_jobs = []\<rparr>) finish_outputs)"
  by (simp only: speculate_def Let_def if_not_P [OF assms])

lemma speculate_serial:
  assumes ex: "execution (tx_output blake2s ed execute_contract ctx policy) (covered blake2s)"
    and spec: "speculate blake2s ed execute_contract env parent txs ctx policy workers = Ok outs"
  shows "serial_outputs (tx_output blake2s ed execute_contract ctx policy) txs parent outs"
proof (cases "wave_only txs")
  case True
  then show ?thesis using spec speculate_waves_serial [OF ex] by (simp add: speculate_def Let_def)
next
  case False
  let ?exec = "tx_output blake2s ed execute_contract ctx policy"
  obtain outs' where decl: "validate_declarations blake2s txs = Ok ()" and fin: "finish_outputs outs' = Ok outs"
    and pool: "0 < min workers (Max (set (map length (greedy_plan txs))))"
    and loop: "dag_loop blake2s ed execute_contract env txs ctx policy (successor_indexes (dependencies txs))
          (min workers (Max (set (map length (greedy_plan txs))))) (length ([] :: results))
          \<lparr>dg_remaining = map length (dependencies txs), dg_ready = filter (\<lambda>index. map length (dependencies txs) ! index = 0) [0..<length txs],
           dg_started = replicate (length txs) False, dg_outputs = replicate (length txs) None,
           dg_overlay = \<lparr>ov_parent = parent, ov_values = []\<rparr>, dg_jobs = []\<rparr> = Ok outs'"
    using spec unfolding speculate_dag [OF False] by (auto simp: result_simps simp del: length_map split: if_splits)
  have cov: "covered blake2s (txs ! i)" if "i < length txs" for i using decl that by (simp add: validate_declarations_Ok)
  obtain log where log: "valid_log ?exec txs parent log" "distinct (map fst log)" "dep_closed txs (map fst log)"
      "set (map fst log) = {..<length txs}" "outs' = map (map_of log) [0..<length txs]"
    using dag_loop_result [OF ex cov pool dag_inv_start [of _ txs parent], of env] unfolding loop by auto
  show ?thesis
    using log_serial_outputs [OF ex log(1,2) dep_closed_in_order [OF log(3,2)] _ cov] fin log(4,5) by auto
qed

text \<open>Once the workers run, only a failed transaction or a broken worker makes the coordinator give up.\<close>

lemma speculate_live:
  assumes ex: "execution (tx_output blake2s ed execute_contract ctx policy) (covered blake2s)"
    and dag: "\<not> wave_only txs" and workers: "0 < workers" "we_spawns env" and decl: "validate_declarations blake2s txs = Ok ()"
    and spec: "speculate blake2s ed execute_contract env parent txs ctx policy workers = Err e"
  shows "speculation_fails blake2s ed execute_contract env txs ctx policy e"
proof -
  let ?pool = "min workers (Max (set (map length (greedy_plan txs))))"
  have cov: "covered blake2s (txs ! i)" if "i < length txs" for i using decl that by (simp add: validate_declarations_Ok)
  have pool: "0 < ?pool"
  proof -
    obtain ws where ws: "greedy_plan txs = plan_of ws" using greedy_plan_earliest by blast
    then have "2 \<le> next_wave (set ws)" using dag by (simp add: plan_of_def)
    then obtain w where "w \<in> set ws" by (cases ws) (auto simp: next_wave_def opt_max_def)
    then obtain i where i: "i < length ws" "ws ! i < next_wave (set ws)"
      using next_wave_greater [of "set ws" w] by (auto simp: in_set_conv_nth)
    then have "i \<in> set (plan_of ws ! (ws ! i))" using plan_of_nth [of "ws ! i" ws i] by (simp add: plan_of_def)
    then have "0 < length (plan_of ws ! (ws ! i))" by auto
    moreover have "length (plan_of ws ! (ws ! i)) \<in> set (map length (greedy_plan txs))"
      using i by (simp add: ws plan_of_def)
    ultimately have "0 < Max (set (map length (greedy_plan txs)))" by (metis List.finite_set Max_ge less_le_trans)
    then show ?thesis using workers(1) by simp
  qed
  let ?loop = "dag_loop blake2s ed execute_contract env txs ctx policy (successor_indexes (dependencies txs)) ?pool (length ([] :: results))
          \<lparr>dg_remaining = map length (dependencies txs), dg_ready = filter (\<lambda>index. map length (dependencies txs) ! index = 0) [0..<length txs],
           dg_started = replicate (length txs) False, dg_outputs = replicate (length txs) None,
           dg_overlay = \<lparr>ov_parent = parent, ov_values = []\<rparr>, dg_jobs = []\<rparr>"
  have cond: "\<not> (?pool = 0 \<or> \<not> we_spawns env)" using pool workers(2) by simp
  have eq: "try_bind ?loop finish_outputs = Err e"
    using spec unfolding speculate_dag [OF dag] decl try_bind.simps if_not_P [OF cond] by (simp only: list.size)
  note result = dag_loop_result [OF ex cov pool dag_inv_start [of _ txs parent], of env]
  show ?thesis
  proof (cases ?loop)
    case (Inl e')
    then show ?thesis using eq result by (simp add: result_simps)
  next
    case (Inr outs)
    then obtain log where log: "set (map fst log) = {..<length txs}" "outs = map (map_of log) [0..<length txs]" using result by auto
    have "map_of log i = Some (the (map_of log i))" if "i < length txs" for i
      using log(1) that by (metis image_set lessThan_iff map_of_eq_None_iff option.collapse)
    then have "map (map_of log) [0..<length txs] = map Some (map (\<lambda>i. the (map_of log i)) [0..<length txs])" by simp
    then have "finish_outputs outs = Ok (map (\<lambda>i. the (map_of log i)) [0..<length txs])"
      by (simp add: log(2) finish_outputs_def collect_results_Ok ok_or_Ok)
    then show ?thesis using eq Inr by (simp add: result_simps)
  qed
qed

end
