(* ===== verification/Astro_Fold.thy ===== *)
theory Astro_Fold
  imports Astro_Seals Astro_Dag
begin

text \<open>
  Guarded account prefixes (fold.rs) and the choice between the executors (parallel\_payment.rs). A block of payments
  between known accounts is cut into the balance changes of each account; segments of these are summarised in
  parallel, their prefixes are added up, the account states that every payment starts from are reconstructed, and
  all payments then run in parallel, each on its reconstructed pair of accounts. The slots that the workers
  fill are the lists that the phases return. The lemmas show that the outputs are those of serial execution.
\<close>

section \<open>Guards (fold.rs)\<close>

text \<open>Numbers of type \<open>i128\<close>: integers with the range written out.\<close>

definition checked_i128 :: "int \<Rightarrow> int option" where
  "checked_i128 x = (if - (2 ^ 127) \<le> x \<and> x < 2 ^ 127 then Some x else None)"

record guard =
  gu_delta :: int
  gu_low :: int
  gu_high :: int

definition guard_identity :: guard where
  "guard_identity = \<lparr>gu_delta = 0, gu_low = 0, gu_high = 2 ^ 64 - 1\<rparr>"

definition guard_then :: "guard \<Rightarrow> guard \<Rightarrow> execution_error + guard" where
  "guard_then g h =
     try_bind (ok_or Conflict (checked_i128 (gu_delta g + gu_delta h))) (\<lambda>delta.
     try_bind (ok_or Conflict (checked_i128 (gu_low h - gu_delta g))) (\<lambda>low.
     try_bind (ok_or Conflict (checked_i128 (gu_high h - gu_delta g))) (\<lambda>high.
     let result = \<lparr>gu_delta = delta, gu_low = max (gu_low g) low, gu_high = min (gu_high g) high\<rparr> in
     if gu_low result > gu_high result then Err Conflict else Ok result)))"

definition guard_accepts :: "guard \<Rightarrow> u64 \<Rightarrow> bool" where
  "guard_accepts g balance \<longleftrightarrow> gu_low g \<le> uint balance \<and> uint balance \<le> gu_high g"

section \<open>Events and segments (fold.rs)\<close>

definition FOLD_MAX_TRANSACTIONS :: nat where "FOLD_MAX_TRANSACTIONS = 8192"
definition FOLD_MAX_INPUT_BYTES :: nat where "FOLD_MAX_INPUT_BYTES = 8 * 1024 * 1024"
definition SEGMENT_EVENTS :: nat where "SEGMENT_EVENTS = 128"

record fold_event =
  ev_index :: nat
  ev_debit :: bool
  ev_guard :: guard

record fold_prefix =
  pf_guard :: guard
  pf_outgoing :: u64

record fold_segment =
  sg_address :: address
  sg_seed :: account_state
  sg_events :: "fold_event list"

record fold_inputs =
  fi_sender :: "account_state option"
  fi_recipient :: "account_state option"

type_synonym fold_accounts = "(address, account_state \<times> fold_event list) btree"

definition prefix_identity :: fold_prefix where
  "prefix_identity = \<lparr>pf_guard = guard_identity, pf_outgoing = 0\<rparr>"

definition pair_view :: "state_key \<Rightarrow> state_key \<Rightarrow> fold_inputs \<Rightarrow> snapshot" where
  "pair_view sender_key recipient_key inputs key =
     (if key = sender_key then ok_or StaleSnapshot (map_option (\<lambda>a. Some (encode_account a)) (fi_sender inputs))
      else if key = recipient_key then ok_or StaleSnapshot (map_option (\<lambda>a. Some (encode_account a)) (fi_recipient inputs))
      else Err StaleSnapshot)"

definition push_event :: "address \<Rightarrow> fold_event \<Rightarrow> fold_accounts \<Rightarrow> execution_error + fold_accounts" where
  "push_event a e accounts =
     (case bt_get accounts a of
        None \<Rightarrow> Err Conflict
      | Some (seed, events) \<Rightarrow> Ok (bt_insert a (seed, events @ [e]) accounts))"

text \<open>The two events of a payment: what the sender pays and what the recipient gets.\<close>

definition payment_events ::
  "execution_policy \<Rightarrow> nat \<Rightarrow> transaction \<Rightarrow> payment \<Rightarrow> execution_error + fold_event \<times> fold_event" where
  "payment_events policy index tx p =
     try_bind (payment_resources tx) (\<lambda>res.
     if \<not> fits_in res (tx_resource_limit tx) then Err ResourceLimit
     else
     try_bind (ok_or ResourceLimit (checked_cost res (ep_prices policy))) (\<lambda>fee.
     try_bind (ok_or Conflict (checked_add (pay_amount p) fee)) (\<lambda>debit.
     try_bind (ok_or Conflict (Option.bind (checked_cost (tx_resource_limit tx) (ep_prices policy)) (\<lambda>cost. checked_add cost (pay_amount p)))) (\<lambda>reserve.
     Ok (\<lparr>ev_index = index, ev_debit = True, ev_guard = \<lparr>gu_delta = - uint debit, gu_low = uint reserve, gu_high = 2 ^ 64 - 1\<rparr>\<rparr>,
         \<lparr>ev_index = index, ev_debit = False,
          ev_guard = \<lparr>gu_delta = uint (pay_amount p), gu_low = 0, gu_high = 2 ^ 64 - 1 - uint (pay_amount p)\<rparr>\<rparr>)))))"

fun fold_events :: "execution_policy \<Rightarrow> nat \<Rightarrow> (transaction \<times> payment) list \<Rightarrow> fold_accounts \<Rightarrow> execution_error + fold_accounts" where
  "fold_events policy index [] accounts = Ok accounts"
| "fold_events policy index ((tx, p) # others) accounts =
     try_bind (payment_events policy index tx p) (\<lambda>(debit, credit).
     try_bind (push_event (tx_sender tx) debit accounts) (\<lambda>accounts.
     try_bind (push_event (pay_recipient p) credit accounts) (\<lambda>accounts.
     fold_events policy (index + 1) others accounts)))"

definition fold_segments :: "fold_accounts \<Rightarrow> fold_segment list" where
  "fold_segments accounts =
     concat (map (\<lambda>(a, seed, events). map (\<lambda>es. \<lparr>sg_address = a, sg_seed = seed, sg_events = es\<rparr>) (chunks SEGMENT_EVENTS events)) accounts)"

section \<open>The three phases (fold.rs)\<close>

fun summarize :: "fold_event list \<Rightarrow> fold_prefix \<Rightarrow> execution_error + fold_prefix" where
  "summarize [] summary = Ok summary"
| "summarize (e # es) summary =
     try_bind (guard_then (pf_guard summary) (ev_guard e)) (\<lambda>g.
       summarize es \<lparr>pf_guard = g, pf_outgoing = pf_outgoing summary + of_bool (ev_debit e)\<rparr>)"

text \<open>The coordinator adds up the summaries of each account and checks every prefix.\<close>

fun fold_prefixes :: "address option \<Rightarrow> fold_prefix \<Rightarrow> (fold_segment \<times> fold_prefix) list \<Rightarrow> execution_error + fold_prefix list" where
  "fold_prefixes a prefix [] = Ok []"
| "fold_prefixes a prefix ((segment, summary) # others) =
     (let start = (if a \<noteq> Some (sg_address segment) then prefix_identity else prefix) in
      try_bind (guard_then (pf_guard start) (pf_guard summary)) (\<lambda>g.
      try_bind (ok_or Conflict (checked_add (pf_outgoing start) (pf_outgoing summary))) (\<lambda>outgoing.
      if \<not> guard_accepts g (acc_balance (sg_seed segment)) \<or> checked_add (acc_nonce (sg_seed segment)) outgoing = None
      then Err Conflict
      else
      try_bind (fold_prefixes (Some (sg_address segment)) \<lparr>pf_guard = g, pf_outgoing = outgoing\<rparr> others) (\<lambda>prefixes.
      Ok (start # prefixes)))))"

fun reconstruct :: "fold_event list \<Rightarrow> int \<Rightarrow> u64 \<Rightarrow> execution_error + (nat \<times> bool \<times> account_state) list" where
  "reconstruct [] balance nonce = Ok []"
| "reconstruct (e # es) balance nonce =
     (if \<not> (0 \<le> balance \<and> balance < 2 ^ 64) then Err Conflict
      else
      try_bind (ok_or Conflict (checked_i128 (balance + gu_delta (ev_guard e)))) (\<lambda>balance'.
      try_bind (ok_or Conflict (checked_add nonce (of_bool (ev_debit e)))) (\<lambda>nonce'.
      try_bind (reconstruct es balance' nonce') (\<lambda>slots.
      Ok ((ev_index e, ev_debit e, \<lparr>acc_nonce = nonce, acc_balance = word_of_int balance\<rparr>) # slots)))))"

definition reconstruct_segment :: "fold_segment \<Rightarrow> fold_prefix \<Rightarrow> execution_error + (nat \<times> bool \<times> account_state) list" where
  "reconstruct_segment segment prefix =
     try_bind (ok_or Conflict (checked_i128 (uint (acc_balance (sg_seed segment)) + gu_delta (pf_guard prefix)))) (\<lambda>balance.
     try_bind (ok_or Conflict (checked_add (acc_nonce (sg_seed segment)) (pf_outgoing prefix))) (\<lambda>nonce.
     reconstruct (sg_events segment) balance nonce))"

fun set_inputs :: "(nat \<times> bool \<times> account_state) list \<Rightarrow> fold_inputs list \<Rightarrow> execution_error + fold_inputs list" where
  "set_inputs [] inputs = Ok inputs"
| "set_inputs ((index, debit, account) # slots) inputs =
     (let i = inputs ! index in
      if (if debit then fi_sender i else fi_recipient i) \<noteq> None then Err Conflict
      else set_inputs slots (inputs[index := if debit then i\<lparr>fi_sender := Some account\<rparr> else i\<lparr>fi_recipient := Some account\<rparr>]))"

definition fold_execute ::
  "(byte list \<Rightarrow> hash256) \<Rightarrow> ed25519 \<Rightarrow> validation_context \<Rightarrow> execution_policy \<Rightarrow> transaction \<Rightarrow> payment \<Rightarrow> fold_inputs
   \<Rightarrow> execution_error + transaction_output" where
  "fold_execute blake2s ed ctx policy tx p inputs =
     fst (payment_execute blake2s ed (payment_with_prices (ep_prices policy)
       (payment_session_new (pair_view (account_key (tx_sender tx)) (account_key (pay_recipient p)) inputs) ctx (ep_capacity policy))) tx)"

text \<open>The work of a phase on the ranges that the workers get, in order.\<close>

definition fold_phase :: "worker_env \<Rightarrow> nat \<Rightarrow> nat \<Rightarrow> nat \<Rightarrow> (nat \<Rightarrow> execution_error + 'a) \<Rightarrow> execution_error + 'a list" where
  "fold_phase env n pool_size size_of task =
     try_bind (pool_map_into env n pool_size (\<lambda>indexes. collect_results (map task indexes))
       (chunks (div_ceil size_of pool_size) [0..<size_of])) (\<lambda>results. Ok (concat results))"

fun record_outputs :: "(byte list \<Rightarrow> hash256) \<Rightarrow> transaction_output list \<Rightarrow> nat list \<Rightarrow> commit_seals \<Rightarrow> execution_error + commit_seals" where
  "record_outputs blake2s outs [] seals = Ok seals"
| "record_outputs blake2s outs (index # order) seals =
     (case seals_record blake2s seals index (to_diff (outs ! index)) of
        (None, _) \<Rightarrow> Err Trap
      | (Some (Inl e), _) \<Rightarrow> Err (StateFailure e)
      | (Some (Inr _), seals') \<Rightarrow> record_outputs blake2s outs order seals')"

definition fold_run ::
  "(byte list \<Rightarrow> hash256) \<Rightarrow> ed25519 \<Rightarrow> worker_env \<Rightarrow> transaction list \<Rightarrow> payment list \<Rightarrow> validation_context \<Rightarrow> execution_policy
   \<Rightarrow> nat \<Rightarrow> fold_accounts \<Rightarrow> commit_seals option \<Rightarrow> execution_error + transaction_output list \<times> commit_seals option" where
  "fold_run blake2s ed env txs payments ctx policy workers accounts seals =
     try_bind (fold_events policy 0 (zip txs payments) accounts) (\<lambda>accounts.
     let segments = fold_segments accounts; pool_size = min workers (length txs) in
     if pool_size = 0 \<or> \<not> we_spawns env then Err ResourceLimit
     else
     try_bind (fold_phase env 0 pool_size (length segments) (\<lambda>i. summarize (sg_events (segments ! i)) prefix_identity)) (\<lambda>summaries.
     try_bind (fold_prefixes None prefix_identity (zip segments summaries)) (\<lambda>prefixes.
     try_bind (fold_phase env 1 pool_size (length segments) (\<lambda>i. reconstruct_segment (segments ! i) (prefixes ! i))) (\<lambda>slots.
     try_bind (set_inputs (concat slots) (replicate (length txs) \<lparr>fi_sender = None, fi_recipient = None\<rparr>)) (\<lambda>inputs.
     try_bind (fold_phase env 2 pool_size (length txs) (\<lambda>i. fold_execute blake2s ed ctx policy (txs ! i) (payments ! i) (inputs ! i))) (\<lambda>outs.
     case seals of
       None \<Rightarrow> Ok (outs, None)
     | Some s \<Rightarrow> try_bind (record_outputs blake2s outs (we_order env) s) (\<lambda>s. Ok (outs, Some s))))))))"

section \<open>Which blocks are folded (fold.rs)\<close>

fun input_bytes_fit :: "nat \<Rightarrow> transaction list \<Rightarrow> bool" where
  "input_bytes_fit used [] = True"
| "input_bytes_fit used (tx # txs) =
     (case checked_add_usize used (estimate_encoded_len tx) of
        None \<Rightarrow> False
      | Some n \<Rightarrow> n \<le> FOLD_MAX_INPUT_BYTES \<and> input_bytes_fit n txs)"

fun decode_payments :: "transaction list \<Rightarrow> execution_error + payment list" where
  "decode_payments [] = Ok []"
| "decode_payments (tx # txs) =
     try_bind (map_err TransactionValidation (payment_decode (tx_payload tx))) (\<lambda>p.
     try_bind (decode_payments txs) (\<lambda>ps. Ok (p # ps)))"

text \<open>\<open>None\<close>: an account does not exist, the block is not folded.\<close>

fun read_accounts :: "snapshot \<Rightarrow> address list \<Rightarrow> fold_accounts \<Rightarrow> (execution_error + fold_accounts) option" where
  "read_accounts parent [] accounts = Some (Ok accounts)"
| "read_accounts parent (a # as) accounts =
     (if bt_contains accounts a then read_accounts parent as accounts
      else case read_account parent a of
        Inl e \<Rightarrow> Some (Err (StateFailure e))
      | Inr None \<Rightarrow> None
      | Inr (Some account) \<Rightarrow> read_accounts parent as (bt_insert a (account, []) accounts))"

definition fold_seals ::
  "(byte list \<Rightarrow> hash256) \<Rightarrow> tree \<Rightarrow> bool \<Rightarrow> transaction list \<Rightarrow> payment list \<Rightarrow> fold_accounts \<Rightarrow> commit_seals option" where
  "fold_seals blake2s t sealing txs payments accounts =
     (if sealing \<and> length accounts \<ge> 512
      then plan_seals blake2s t (compute_transactions_root blake2s (map (compute_tx_id blake2s) txs))
        (map (\<lambda>(tx, p). [account_key (tx_sender tx), account_key (pay_recipient p)]) (zip txs payments))
      else None)"

definition fold_speculate ::
  "(byte list \<Rightarrow> hash256) \<Rightarrow> ed25519 \<Rightarrow> worker_env \<Rightarrow> tree \<Rightarrow> snapshot \<Rightarrow> transaction list \<Rightarrow> validation_context \<Rightarrow> execution_policy
   \<Rightarrow> nat \<Rightarrow> bool \<Rightarrow> (execution_error + transaction_output list \<times> commit_seals option) option" where
  "fold_speculate blake2s ed env t parent txs ctx policy workers sealing =
     (if \<not> (64 \<le> length txs \<and> length txs \<le> FOLD_MAX_TRANSACTIONS) \<or> list_ex (\<lambda>tx. tx_lane tx \<noteq> Payments) txs then None
      else if \<not> input_bytes_fit 0 txs then None
      else case decode_payments txs of
        Inl e \<Rightarrow> Some (Err e)
      | Inr payments \<Rightarrow>
          if list_ex (\<lambda>(tx, p). tx_sender tx = pay_recipient p) (zip txs payments) then None
          else
            (case read_accounts parent (concat (map (\<lambda>(tx, p). [tx_sender tx, pay_recipient p]) (zip txs payments))) [] of
               None \<Rightarrow> None
             | Some (Inl e) \<Rightarrow> Some (Err e)
             | Some (Inr accounts) \<Rightarrow>
                 Some (fold_run blake2s ed env txs payments ctx policy workers accounts
                   (fold_seals blake2s t sealing txs payments accounts))))"

section \<open>The parallel executor (parallel\_payment.rs)\<close>

definition MAX_PAYMENT_WORKERS :: nat where "MAX_PAYMENT_WORKERS = 32"

datatype execution_acceleration = Waves | Fold | FoldAndSeal

text \<open>The resources of the outputs, added up in order.\<close>

fun used_fits :: "resources \<Rightarrow> resources \<Rightarrow> transaction_output list \<Rightarrow> bool" where
  "used_fits capacity used [] = True"
| "used_fits capacity used (out # outs) =
     (case resources_checked_add used (rc_resources (to_receipt out)) of
        None \<Rightarrow> False
      | Some used' \<Rightarrow> fits_in used' capacity \<and> used_fits capacity used' outs)"

definition accelerated ::
  "(byte list \<Rightarrow> hash256) \<Rightarrow> ed25519 \<Rightarrow> contract_execution \<Rightarrow> worker_env \<Rightarrow> in_memory_state \<Rightarrow> transaction list \<Rightarrow> validation_context
   \<Rightarrow> execution_policy \<Rightarrow> nat \<Rightarrow> execution_acceleration \<Rightarrow> execution_error + transaction_output list \<times> commit_seals option" where
  "accelerated blake2s ed execute_contract env db txs ctx policy workers acceleration =
     (let plain = try_bind (speculate blake2s ed execute_contract env (state_snapshot db) txs ctx policy workers) (\<lambda>outs. Ok (outs, None)) in
      case acceleration of
        Waves \<Rightarrow> plain
      | _ \<Rightarrow>
          (case fold_speculate blake2s ed env (ms_data db) (state_snapshot db) txs ctx policy workers (acceleration = FoldAndSeal) of
             Some r \<Rightarrow> r
           | None \<Rightarrow> plain))"

definition execute_parallel_with_acceleration ::
  "(byte list \<Rightarrow> hash256) \<Rightarrow> ed25519 \<Rightarrow> contract_execution \<Rightarrow> (state_node \<Rightarrow> state_node \<Rightarrow> bool) \<Rightarrow> worker_env \<Rightarrow> in_memory_state
   \<Rightarrow> transaction list \<Rightarrow> hash256 \<Rightarrow> validation_context \<Rightarrow> execution_policy \<Rightarrow> nat \<Rightarrow> execution_acceleration
   \<Rightarrow> (execution_error + transaction_output list \<times> hash256) \<times> in_memory_state" where
  "execute_parallel_with_acceleration blake2s ed execute_contract ptr_eq env db txs parent ctx policy workers acceleration =
     (if workers = 0 \<or> workers > MAX_PAYMENT_WORKERS then (Err ResourceLimit, db)
      else if workers = 1 \<or> length txs < 2 then execute_serial blake2s ed execute_contract db txs parent ctx policy
      else if ms_root db \<noteq> parent then (Err (StateFailure StaleSnapshot), db)
      else case accelerated blake2s ed execute_contract env db txs ctx policy workers acceleration of
        Inl NativeUnavailable \<Rightarrow> (Err NativeUnavailable, db)
      | Inl _ \<Rightarrow> execute_serial blake2s ed execute_contract db txs parent ctx policy
      | Inr (outs, seals) \<Rightarrow>
          if \<not> used_fits (ep_capacity policy) resources_zero outs then (Err ResourceLimit, db)
          else
            (case state_commit_sealed blake2s ptr_eq db parent (map to_diff outs) seals of
               (Inl e, db', _) \<Rightarrow> (Err (StateFailure e), db')
             | (Inr root, db', _) \<Rightarrow> (Ok (outs, root), db')))"

definition execute_parallel ::
  "(byte list \<Rightarrow> hash256) \<Rightarrow> ed25519 \<Rightarrow> contract_execution \<Rightarrow> (state_node \<Rightarrow> state_node \<Rightarrow> bool) \<Rightarrow> worker_env \<Rightarrow> in_memory_state
   \<Rightarrow> transaction list \<Rightarrow> hash256 \<Rightarrow> validation_context \<Rightarrow> execution_policy \<Rightarrow> nat
   \<Rightarrow> (execution_error + transaction_output list \<times> hash256) \<times> in_memory_state" where
  "execute_parallel blake2s ed execute_contract ptr_eq env db txs parent ctx policy workers =
     execute_parallel_with_acceleration blake2s ed execute_contract ptr_eq env db txs parent ctx policy workers Fold"

definition execute_payments_parallel ::
  "(byte list \<Rightarrow> hash256) \<Rightarrow> ed25519 \<Rightarrow> contract_execution \<Rightarrow> (state_node \<Rightarrow> state_node \<Rightarrow> bool) \<Rightarrow> worker_env \<Rightarrow> in_memory_state
   \<Rightarrow> transaction list \<Rightarrow> hash256 \<Rightarrow> validation_context \<Rightarrow> resources \<Rightarrow> nat
   \<Rightarrow> (execution_error + transaction_output list \<times> hash256) \<times> in_memory_state" where
  "execute_payments_parallel blake2s ed execute_contract ptr_eq env db txs parent ctx capacity workers =
     execute_parallel blake2s ed execute_contract ptr_eq env db txs parent ctx
       \<lparr>ep_capacity = capacity, ep_prices = PAYMENT_PRICES, ep_contracts = False\<rparr> workers"

definition execute_signed_parallel ::
  "(byte list \<Rightarrow> hash256) \<Rightarrow> ed25519 \<Rightarrow> contract_execution \<Rightarrow> (state_node \<Rightarrow> state_node \<Rightarrow> bool) \<Rightarrow> worker_env \<Rightarrow> in_memory_state
   \<Rightarrow> transaction list \<Rightarrow> hash256 \<Rightarrow> validation_context \<Rightarrow> resources \<Rightarrow> nat
   \<Rightarrow> (execution_error + transaction_output list \<times> hash256) \<times> in_memory_state" where
  "execute_signed_parallel blake2s ed execute_contract ptr_eq env db txs parent ctx capacity workers =
     execute_parallel blake2s ed execute_contract ptr_eq env db txs parent ctx
       \<lparr>ep_capacity = capacity, ep_prices = PAYMENT_PRICES, ep_contracts = True\<rparr> workers"

end
