(* ===== verification/Astro_Fold_Proof.thy ===== *)
theory Astro_Fold_Proof
  imports Astro_Fold
begin

text \<open>
  The folded executor reconstructs the account states that serial execution would reach (fold.rs), so that its outputs
  are the serial ones; with the readiness-driven executor and the seals this gives that the parallel executor
  (parallel\_payment.rs) returns and publishes what the serial one does.
\<close>

section \<open>Phases\<close>

lemma collect_concat:
  "map (\<lambda>indexes. collect_results (map task indexes)) chs = map Ok results \<Longrightarrow> map task (concat chs) = map Ok (concat results)"
proof (induction chs arbitrary: results)
  case (Cons ch chs)
  then show ?case by (cases results) (auto simp: collect_results_Ok)
qed simp

lemma fold_phase_Ok:
  assumes "fold_phase env n pool_size m task = Ok rs" and "0 < pool_size"
  shows "length rs = m" "\<And>i. i < m \<Longrightarrow> task i = Ok (rs ! i)"
proof -
  obtain results where res: "map (\<lambda>indexes. collect_results (map task indexes)) (chunks (div_ceil m pool_size) [0..<m]) = map Ok results"
    and rs: "rs = concat results"
    using assms(1) by (auto simp: fold_phase_def result_simps dest!: pool_map_into_Ok)
  have "concat (chunks (div_ceil m pool_size) [0..<m]) = [0..<m]"
  proof (cases "m = 0")
    case True
    then show ?thesis by (simp add: chunks.simps)
  next
    case False
    then have "pool_size \<le> m + pool_size - 1" by simp
    then have "0 < div_ceil m pool_size" using assms(2) by (simp add: div_ceil_def div_greater_zero_iff)
    then show ?thesis by (rule concat_chunks)
  qed
  then have eq: "map task [0..<m] = map Ok rs" using collect_concat [OF res] by (simp add: rs)
  then show len: "length rs = m" by (metis length_map length_upt minus_nat.diff_0)
  show "task i = Ok (rs ! i)" if "i < m" for i using arg_cong [OF eq, of "\<lambda>l. l ! i"] that len by simp
qed

section \<open>Prefixes of balance changes\<close>

definition deltas :: "fold_event list \<Rightarrow> int" where
  "deltas es = (\<Sum>e \<leftarrow> es. gu_delta (ev_guard e))"

definition debits :: "fold_event list \<Rightarrow> nat" where
  "debits es = length (filter ev_debit es)"

lemma deltas_simps [simp]: "deltas [] = 0" "deltas (e # es) = gu_delta (ev_guard e) + deltas es" "deltas (es @ es') = deltas es + deltas es'"
  by (simp_all add: deltas_def)

lemma debits_simps [simp]: "debits [] = 0" "debits (e # es) = of_bool (ev_debit e) + debits es" "debits (es @ es') = debits es + debits es'"
  by (simp_all add: debits_def)

lemma checked_i128_Some: "checked_i128 x = Some y \<longleftrightarrow> y = x \<and> - (2 ^ 127) \<le> x \<and> x < 2 ^ 127"
  by (auto simp: checked_i128_def)

lemma guard_then_delta: "guard_then g h = Ok r \<Longrightarrow> gu_delta r = gu_delta g + gu_delta h"
  by (auto simp: guard_then_def Let_def result_simps checked_i128_Some split: if_splits)

definition prefix_of :: "fold_event list \<Rightarrow> fold_prefix \<Rightarrow> bool" where
  "prefix_of es p \<longleftrightarrow> gu_delta (pf_guard p) = deltas es \<and> unat (pf_outgoing p) = debits es"

lemma prefix_of_identity: "prefix_of [] prefix_identity"
  by (simp add: prefix_of_def prefix_identity_def guard_identity_def)

lemma summarize_prefix:
  assumes "summarize es p = Ok p'" and "prefix_of es0 p" and "length es0 + length es < 2 ^ 64"
  shows "prefix_of (es0 @ es) p'"
  using assms
proof (induction es arbitrary: p es0)
  case (Cons e es)
  obtain g where g: "guard_then (pf_guard p) (ev_guard e) = Ok g"
    and s: "summarize es \<lparr>pf_guard = g, pf_outgoing = pf_outgoing p + of_bool (ev_debit e)\<rparr> = Ok p'"
    using Cons.prems(1) by (auto simp: result_simps)
  have "debits es0 < 2 ^ 64 - 1" using Cons.prems(3) by (simp add: debits_def less_le_trans [OF _ length_filter_le] le_less_trans [OF length_filter_le])
  then have "unat (pf_outgoing p + of_bool (ev_debit e)) = debits es0 + of_bool (ev_debit e)"
    using Cons.prems(2) by (cases "ev_debit e") (auto simp: prefix_of_def unat_word_ariths)
  then have "prefix_of (es0 @ [e]) \<lparr>pf_guard = g, pf_outgoing = pf_outgoing p + of_bool (ev_debit e)\<rparr>"
    using Cons.prems(2) guard_then_delta [OF g] by (simp add: prefix_of_def)
  from Cons.IH [OF s this] show ?case using Cons.prems(3) by simp
qed simp

text \<open>The events of the segments before position \<open>k\<close> that belong to the same account.\<close>

definition earlier_events :: "fold_segment list \<Rightarrow> nat \<Rightarrow> fold_event list" where
  "earlier_events segs k = concat (map sg_events (filter (\<lambda>s. sg_address s = sg_address (segs ! k)) (take k segs)))"

lemma fold_prefixes_earlier:
  assumes "fold_prefixes a p (zip (drop m segs) (drop m sums)) = Ok ps" and "length sums = length segs" and "m \<le> length segs"
    and "sorted (map sg_address segs)" and "\<And>k. k < length segs \<Longrightarrow> prefix_of (sg_events (segs ! k)) (sums ! k)"
    and "a = (if m = 0 then None else Some (sg_address (segs ! (m - 1))))"
    and "m = 0 \<or> prefix_of (earlier_events segs (m - 1) @ sg_events (segs ! (m - 1))) p"
  shows "length ps = length segs - m \<and> (\<forall>k. m \<le> k \<longrightarrow> k < length segs \<longrightarrow> prefix_of (earlier_events segs k) (ps ! (k - m)))"
  using assms
proof (induction "length segs - m" arbitrary: m a p ps)
  case 0
  then show ?case by simp
next
  case (Suc x)
  then have m: "m < length segs" by simp
  let ?s = "segs ! m"
  define start where "start = (if a \<noteq> Some (sg_address ?s) then prefix_identity else p)"
  have zip: "zip (drop m segs) (drop m sums) = (?s, sums ! m) # zip (drop (Suc m) segs) (drop (Suc m) sums)"
    using m Suc.prems(2) by (simp add: Cons_nth_drop_Suc [symmetric])
  obtain g outgoing ps' where g: "guard_then (pf_guard start) (pf_guard (sums ! m)) = Ok g"
    and o: "checked_add (pf_outgoing start) (pf_outgoing (sums ! m)) = Some outgoing"
    and more: "fold_prefixes (Some (sg_address ?s)) \<lparr>pf_guard = g, pf_outgoing = outgoing\<rparr> (zip (drop (Suc m) segs) (drop (Suc m) sums)) = Ok ps'"
    and ps: "ps = start # ps'"
    using Suc.prems(1) unfolding zip by (auto simp: result_simps Let_def start_def split: if_splits)
  have here: "prefix_of (earlier_events segs m) start"
  proof (cases "m = 0")
    case True
    then show ?thesis using Suc.prems(6) by (simp add: start_def earlier_events_def prefix_of_identity)
  next
    case False
    let ?l = "segs ! (m - 1)"
    have take: "take m segs = take (m - 1) segs @ [?l]" using m False take_Suc_conv_app_nth [of "m - 1" segs] by simp
    have sorted: "sg_address (segs ! i) \<le> sg_address (segs ! j)" if "i \<le> j" "j < length segs" for i j
      using sorted_nth_mono [OF Suc.prems(4)] that by simp
    show ?thesis
    proof (cases "sg_address ?l = sg_address ?s")
      case True
      then have "earlier_events segs m = earlier_events segs (m - 1) @ sg_events ?l" by (simp add: earlier_events_def take)
      then show ?thesis using Suc.prems(6,7) False True by (simp add: start_def)
    next
      case diff: False
      have "sg_address s \<noteq> sg_address ?s" if s: "s \<in> set (take m segs)" for s
      proof -
        obtain i where i: "i < m" "s = segs ! i" using s m by (auto simp: in_set_conv_nth)
        then have "sg_address s \<le> sg_address ?l" "sg_address ?l \<le> sg_address ?s" using sorted m by simp_all
        then show ?thesis using diff by auto
      qed
      then have "earlier_events segs m = []" by (simp add: earlier_events_def filter_empty_conv)
      then show ?thesis using Suc.prems(6) False diff by (simp add: start_def prefix_of_identity)
    qed
  qed
  have "prefix_of (earlier_events segs (Suc m - 1) @ sg_events (segs ! (Suc m - 1))) \<lparr>pf_guard = g, pf_outgoing = outgoing\<rparr>"
    using here Suc.prems(5) [OF m] guard_then_delta [OF g] o [unfolded checked_add_Some, THEN conjunct2]
    by (simp add: prefix_of_def)
  from Suc.hyps(1) [OF _ more Suc.prems(2) _ Suc.prems(4,5) _ disjI2 [OF this]]
  have "length ps' = length segs - Suc m \<and> (\<forall>k. Suc m \<le> k \<longrightarrow> k < length segs \<longrightarrow> prefix_of (earlier_events segs k) (ps' ! (k - Suc m)))"
    using Suc.hyps(2) m by simp
  then show ?case using m here by (auto simp: ps nth_Cons' Suc_le_eq)
qed

section \<open>Reconstructed accounts\<close>

definition account_after :: "account_state \<Rightarrow> fold_event list \<Rightarrow> account_state \<Rightarrow> bool" where
  "account_after seed es a \<longleftrightarrow> uint (acc_balance a) = uint (acc_balance seed) + deltas es
     \<and> unat (acc_nonce a) = unat (acc_nonce seed) + debits es"

lemma account_after_unique: "account_after seed es a \<Longrightarrow> account_after seed es b \<Longrightarrow> a = b"
  by (intro account_state.equality) (simp_all add: account_after_def word_uint_eq_iff [of "acc_balance a"] word_unat_eq_iff [of "acc_nonce a"])

lemma reconstruct_nth:
  assumes "reconstruct es balance nonce = Ok slots"
  shows "length slots = length es \<and> (\<forall>k < length es. \<exists>a. slots ! k = (ev_index (es ! k), ev_debit (es ! k), a)
    \<and> uint (acc_balance a) = balance + deltas (take k es) \<and> unat (acc_nonce a) = unat nonce + debits (take k es))"
  using assms
proof (induction es arbitrary: balance nonce slots)
  case (Cons e es)
  obtain nonce' slots' where bal: "0 \<le> balance" "balance < 2 ^ 64" and n: "checked_add nonce (of_bool (ev_debit e)) = Some nonce'"
    and more: "reconstruct es (balance + gu_delta (ev_guard e)) nonce' = Ok slots'"
    and slots: "slots = (ev_index e, ev_debit e, \<lparr>acc_nonce = nonce, acc_balance = word_of_int balance\<rparr>) # slots'"
    using Cons.prems by (auto simp: result_simps checked_i128_Some split: if_splits)
  have "unat nonce' = unat nonce + of_bool (ev_debit e)" using n by (cases "ev_debit e") (auto simp: checked_add_Some)
  moreover have "uint (word_of_int balance :: u64) = balance" using bal by (simp add: uint_word_of_int)
  ultimately show ?case
    using Cons.IH [OF more] by (auto simp: slots nth_Cons' take_Cons' less_Suc_eq_0_disj algebra_simps)
qed simp

lemma reconstruct_segment_nth:
  assumes "reconstruct_segment seg p = Ok slots" and "prefix_of es0 p"
  shows "length slots = length (sg_events seg) \<and> (\<forall>k < length (sg_events seg).
    \<exists>a. slots ! k = (ev_index (sg_events seg ! k), ev_debit (sg_events seg ! k), a) \<and> account_after (sg_seed seg) (es0 @ take k (sg_events seg)) a)"
proof -
  obtain nonce where n: "checked_add (acc_nonce (sg_seed seg)) (pf_outgoing p) = Some nonce"
    and r: "reconstruct (sg_events seg) (uint (acc_balance (sg_seed seg)) + gu_delta (pf_guard p)) nonce = Ok slots"
    using assms(1) by (auto simp: reconstruct_segment_def result_simps checked_i128_Some)
  have "unat nonce = unat (acc_nonce (sg_seed seg)) + debits es0"
    using n [unfolded checked_add_Some, THEN conjunct2] assms(2) by (simp add: prefix_of_def)
  then show ?thesis
    using reconstruct_nth [OF r] assms(2) by (simp add: account_after_def prefix_of_def algebra_simps)
qed

abbreviation input_slot :: "bool \<Rightarrow> fold_inputs \<Rightarrow> account_state option" where
  "input_slot debit i \<equiv> if debit then fi_sender i else fi_recipient i"

definition fill_slot :: "nat \<Rightarrow> bool \<Rightarrow> account_state \<Rightarrow> fold_inputs list \<Rightarrow> fold_inputs list" where
  "fill_slot i debit a inputs = inputs[i := if debit then (inputs ! i)\<lparr>fi_sender := Some a\<rparr> else (inputs ! i)\<lparr>fi_recipient := Some a\<rparr>]"

lemma set_inputs_Cons:
  "set_inputs ((i, debit, a) # slots) inputs = Ok inputs' \<longleftrightarrow>
     input_slot debit (inputs ! i) = None \<and> set_inputs slots (fill_slot i debit a inputs) = Ok inputs'"
  by (simp add: fill_slot_def Let_def)

lemma length_fill_slot: "length (fill_slot i debit a inputs) = length inputs"
  by (simp add: fill_slot_def)

lemma fill_slot_same: "i < length inputs \<Longrightarrow> input_slot debit (fill_slot i debit a inputs ! i) = Some a"
  by (simp add: fill_slot_def)

lemma fill_slot_other:
  assumes "input_slot debit (inputs ! i) = None" and "input_slot d (inputs ! j) = Some b"
  shows "input_slot d (fill_slot i debit a inputs ! j) = Some b"
proof (cases "i = j \<and> i < length inputs")
  case True
  then show ?thesis using assms by (cases d; cases debit) (auto simp: fill_slot_def)
next
  case False
  then have "fill_slot i debit a inputs ! j = inputs ! j" by (cases "i = j") (simp_all add: fill_slot_def list_update_beyond)
  then show ?thesis using assms(2) by (simp only:)
qed

lemma set_inputs_keep:
  assumes "set_inputs slots inputs = Ok inputs'" and "input_slot d (inputs ! j) = Some b"
  shows "input_slot d (inputs' ! j) = Some b"
  using assms
proof (induction slots arbitrary: inputs)
  case (Cons slot slots)
  obtain i e a where slot: "slot = (i, e, a)" by (cases slot)
  note step = Cons.prems(1) [unfolded slot set_inputs_Cons]
  show ?case using Cons.IH [OF conjunct2 [OF step] fill_slot_other [OF conjunct1 [OF step] Cons.prems(2)]] .
qed simp

lemma set_inputs_slots:
  assumes "set_inputs slots inputs = Ok inputs'" and "(i, d, a) \<in> set slots" and "i < length inputs"
  shows "input_slot d (inputs' ! i) = Some a"
  using assms
proof (induction slots arbitrary: inputs)
  case (Cons slot slots)
  obtain j e b where slot: "slot = (j, e, b)" by (cases slot)
  note step = Cons.prems(1) [unfolded slot set_inputs_Cons]
  show ?case
  proof (cases "slot = (i, d, a)")
    case True
    then have eq: "j = i" "e = d" "b = a" using slot by simp_all
    show ?thesis by (rule set_inputs_keep [OF conjunct2 [OF step [unfolded eq]] fill_slot_same [OF Cons.prems(3)]])
  next
    case False
    then show ?thesis using Cons.IH [OF conjunct2 [OF step]] Cons.prems(2,3) by (simp add: length_fill_slot)
  qed
qed simp

section \<open>The events of an account\<close>

definition account_events :: "execution_policy \<Rightarrow> address \<Rightarrow> nat \<times> transaction \<times> payment \<Rightarrow> fold_event list" where
  "account_events policy a = (\<lambda>(i, tx, p).
     (if tx_sender tx = a then [fst (projr (payment_events policy i tx p))] else [])
     @ (if pay_recipient p = a then [snd (projr (payment_events policy i tx p))] else []))"

definition with_events :: "fold_event list \<Rightarrow> account_state \<times> fold_event list \<Rightarrow> account_state \<times> fold_event list" where
  "with_events es x = (fst x, snd x @ es)"

lemma with_events_simps [simp]: "with_events [] = id" "with_events es' (with_events es x) = with_events (es @ es') x"
  by (simp_all add: with_events_def fun_eq_iff)

lemma push_event_get:
  assumes "push_event a e accounts = Ok accounts'" and "bt_ok accounts"
  shows "bt_ok accounts' \<and> (\<forall>b. bt_get accounts' b = map_option (with_events (if a = b then [e] else [])) (bt_get accounts b))"
  using assms by (auto simp: push_event_def with_events_def option.map_id0 split: option.splits)

lemma fold_events_get:
  assumes "fold_events policy m pairs accounts = Ok accounts'" and "bt_ok accounts"
  shows "bt_ok accounts'"
    and "bt_get accounts' a = map_option (with_events (concat (map (account_events policy a) (enumerate m pairs)))) (bt_get accounts a)"
    and "\<And>i. i < length pairs \<Longrightarrow> \<exists>d c. payment_events policy (m + i) (fst (pairs ! i)) (snd (pairs ! i)) = Ok (d, c)"
proof -
  have "bt_ok accounts' \<and> (\<forall>a. bt_get accounts' a = map_option (with_events (concat (map (account_events policy a) (enumerate m pairs)))) (bt_get accounts a))
    \<and> (\<forall>i < length pairs. \<exists>d c. payment_events policy (m + i) (fst (pairs ! i)) (snd (pairs ! i)) = Ok (d, c))"
    using assms
  proof (induction pairs arbitrary: m accounts)
    case Nil
    then show ?case by (simp add: option.map_ident)
  next
    case (Cons pair pairs)
    obtain tx p where pair: "pair = (tx, p)" by (cases pair)
    obtain d c acc1 acc2 where ev: "payment_events policy m tx p = Ok (d, c)" and p1: "push_event (tx_sender tx) d accounts = Ok acc1"
      and p2: "push_event (pay_recipient p) c acc1 = Ok acc2" and more: "fold_events policy (Suc m) pairs acc2 = Ok accounts'"
      using Cons.prems(1) by (auto simp: pair result_simps)
    note g1 = push_event_get [OF p1 Cons.prems(2)]
    note g2 = push_event_get [OF p2 conjunct1 [OF g1]]
    note IH = Cons.IH [OF more conjunct1 [OF g2]]
    have head: "account_events policy a (m, pair) = (if tx_sender tx = a then [d] else []) @ (if pay_recipient p = a then [c] else [])" for a
      by (simp add: account_events_def pair ev)
    have "bt_get accounts' a = map_option (with_events (concat (map (account_events policy a) (enumerate m (pair # pairs))))) (bt_get accounts a)" for a
      using IH g1 g2 by (simp add: head option.map_comp comp_def)
    moreover have "\<exists>d c. payment_events policy (m + i) (fst ((pair # pairs) ! i)) (snd ((pair # pairs) ! i)) = Ok (d, c)" if "i < length (pair # pairs)" for i
      using IH ev that by (cases i) (auto simp: pair)
    ultimately show ?case using IH by blast
  qed
  then show "bt_ok accounts'"
    and "bt_get accounts' a = map_option (with_events (concat (map (account_events policy a) (enumerate m pairs)))) (bt_get accounts a)"
    and "\<And>i. i < length pairs \<Longrightarrow> \<exists>d c. payment_events policy (m + i) (fst (pairs ! i)) (snd (pairs ! i)) = Ok (d, c)"
    by blast+
qed

section \<open>Every event gets its account\<close>

lemma chunks_nth:
  assumes "0 < n" and "m * n < length xs"
  shows "m < length (chunks n xs) \<and> chunks n xs ! m = take n (drop (m * n) xs) \<and> concat (take m (chunks n xs)) = take (m * n) xs"
  using assms(2)
proof (induction m arbitrary: xs)
  case 0
  then show ?case using assms(1) by (auto simp: chunks.simps [of n xs])
next
  case (Suc m)
  have "m * n < length (drop n xs)" using Suc.prems by simp
  then have IH: "m < length (chunks n (drop n xs)) \<and> chunks n (drop n xs) ! m = take n (drop (m * n) (drop n xs))
      \<and> concat (take m (chunks n (drop n xs))) = take (m * n) (drop n xs)" by (rule Suc.IH)
  have "chunks n xs = take n xs # chunks n (drop n xs)" using Suc.prems assms(1) by (subst chunks.simps) auto
  then show ?case using IH by (simp add: take_add add.commute)
qed

lemma length_chunk: "c \<in> set (chunks n xs) \<Longrightarrow> length c \<le> n"
proof (induction n xs rule: chunks.induct)
  case (1 n xs)
  then show ?case by (subst (asm) (2) chunks.simps) (auto split: if_splits)
qed

lemma fold_segments_append: "fold_segments (l @ r) = fold_segments l @ fold_segments r"
  by (simp add: fold_segments_def)

lemma fold_segments_Cons:
  "fold_segments ((a, seed, events) # r) = map (\<lambda>es. \<lparr>sg_address = a, sg_seed = seed, sg_events = es\<rparr>) (chunks SEGMENT_EVENTS events) @ fold_segments r"
  by (simp add: fold_segments_def)

lemma fold_segments_address: "s \<in> set (fold_segments accounts) \<Longrightarrow> sg_address s \<in> fst ` set accounts"
  by (force simp: fold_segments_def)

lemma fold_segments_length: "s \<in> set (fold_segments accounts) \<Longrightarrow> length (sg_events s) \<le> SEGMENT_EVENTS"
  by (auto simp: fold_segments_def dest: length_chunk)

lemma sorted_segments: "bt_ok accounts \<Longrightarrow> sorted (map sg_address (fold_segments accounts))"
proof (induction accounts)
  case (Cons e accounts)
  obtain a seed events where e: "e = (a, seed, events)" by (cases e)
  have "a \<le> sg_address s" if "s \<in> set (fold_segments accounts)" for s
    using fold_segments_address [OF that] Cons.prems by (auto simp: e)
  then show ?case using Cons by (auto simp: e fold_segments_Cons sorted_append comp_def sorted_wrt_map)
qed (simp add: fold_segments_def)

lemma event_segment:
  assumes "bt_ok accounts" and "bt_get accounts a = Some (seed, events)" and "q < length events"
  obtains k where "k < length (fold_segments accounts)" "sg_seed (fold_segments accounts ! k) = seed"
    "q mod SEGMENT_EVENTS < length (sg_events (fold_segments accounts ! k))"
    "sg_events (fold_segments accounts ! k) ! (q mod SEGMENT_EVENTS) = events ! q"
    "earlier_events (fold_segments accounts) k @ take (q mod SEGMENT_EVENTS) (sg_events (fold_segments accounts ! k)) = take q events"
proof -
  let ?n = SEGMENT_EVENTS and ?mk = "\<lambda>es. \<lparr>sg_address = a, sg_seed = seed, sg_events = es\<rparr> :: fold_segment"
  let ?m = "q div ?n" and ?r = "q mod ?n"
  have n: "0 < ?n" by (simp add: SEGMENT_EVENTS_def)
  have "(a, seed, events) \<in> set accounts" using assms(1,2) by (simp add: bt_get_Some_iff)
  then obtain l r where split: "accounts = l @ (a, seed, events) # r" by (auto simp: in_set_conv_decomp)
  have "a \<notin> fst ` set l" using bt_distinct [OF assms(1)] by (auto simp: split)
  then have other: "sg_address s \<noteq> a" if "s \<in> set (fold_segments l)" for s using fold_segments_address [OF that] by auto
  have q: "?m * ?n + ?r = q" by (simp add: div_mult_mod_eq)
  have "?m * ?n < length events" using assms(3) q by linarith
  note chunk = chunks_nth [OF n this]
  define k where "k = length (fold_segments l) + ?m"
  have segs: "fold_segments accounts = fold_segments l @ map ?mk (chunks ?n events) @ fold_segments r"
    by (simp add: split fold_segments_append fold_segments_Cons)
  have k: "k < length (fold_segments accounts)" using chunk by (simp add: k_def segs)
  have at: "fold_segments accounts ! k = ?mk (take ?n (drop (?m * ?n) events))" using chunk by (simp add: k_def segs nth_append)
  have "take k (fold_segments accounts) = fold_segments l @ map ?mk (take ?m (chunks ?n events))"
    using chunk by (simp add: k_def segs take_map)
  then have "filter (\<lambda>s. sg_address s = a) (take k (fold_segments accounts)) = map ?mk (take ?m (chunks ?n events))"
    using other by (simp add: filter_empty_conv filter_map comp_def)
  then have "earlier_events (fold_segments accounts) k = concat (take ?m (chunks ?n events))"
    by (simp add: earlier_events_def at comp_def)
  then have before: "earlier_events (fold_segments accounts) k = take (?m * ?n) events" using chunk by simp
  have r: "?r < ?n" "?r < length events - ?m * ?n" using n q assms(3) by (simp, linarith)
  show thesis
  proof (rule that [OF k])
    show "sg_seed (fold_segments accounts ! k) = seed" by (simp add: at)
    show "?r < length (sg_events (fold_segments accounts ! k))" using r by (simp add: at)
    show "sg_events (fold_segments accounts ! k) ! ?r = events ! q" using r assms(3) by (simp add: at)
    have "take (min ?r ?n) (drop (?m * ?n) events) = take ?r (drop (?m * ?n) events)" using r(1) by (simp add: min_absorb1)
    then show "earlier_events (fold_segments accounts) k @ take ?r (sg_events (fold_segments accounts ! k)) = take q events"
      using take_add [of "?m * ?n" ?r events] by (simp add: at before q)
  qed
qed

lemma fold_inputs_account:
  assumes ok: "bt_ok accounts" and pool: "0 < pool_size"
    and sums: "fold_phase env 0 pool_size (length (fold_segments accounts))
        (\<lambda>i. summarize (sg_events (fold_segments accounts ! i)) prefix_identity) = Ok summaries"
    and pres: "fold_prefixes None prefix_identity (zip (fold_segments accounts) summaries) = Ok prefixes"
    and recs: "fold_phase env 1 pool_size (length (fold_segments accounts))
        (\<lambda>i. reconstruct_segment (fold_segments accounts ! i) (prefixes ! i)) = Ok slots"
    and sets: "set_inputs (concat slots) inputs = Ok inputs'"
    and acc: "bt_get accounts a = Some (seed, events)" and q: "q < length events" and bound: "ev_index (events ! q) < length inputs"
  shows "\<exists>acc. input_slot (ev_debit (events ! q)) (inputs' ! ev_index (events ! q)) = Some acc \<and> account_after seed (take q events) acc"
proof -
  let ?segs = "fold_segments accounts"
  note sums' = fold_phase_Ok [OF sums pool]
  note recs' = fold_phase_Ok [OF recs pool]
  have summary: "prefix_of (sg_events (?segs ! k)) (summaries ! k)" if "k < length ?segs" for k
    using summarize_prefix [OF sums'(2) [OF that] prefix_of_identity] fold_segments_length [OF nth_mem [OF that]]
    by (simp add: SEGMENT_EVENTS_def)
  have prefix: "prefix_of (earlier_events ?segs k) (prefixes ! k)" if "k < length ?segs" for k
    using fold_prefixes_earlier [of None prefix_identity 0 ?segs summaries prefixes] pres sums'(1) sorted_segments [OF ok] summary that by simp
  obtain k where k: "k < length ?segs" "sg_seed (?segs ! k) = seed" "q mod SEGMENT_EVENTS < length (sg_events (?segs ! k))"
      "sg_events (?segs ! k) ! (q mod SEGMENT_EVENTS) = events ! q"
      "earlier_events ?segs k @ take (q mod SEGMENT_EVENTS) (sg_events (?segs ! k)) = take q events"
    using event_segment [OF ok acc q] .
  obtain acc where slot: "slots ! k ! (q mod SEGMENT_EVENTS) = (ev_index (events ! q), ev_debit (events ! q), acc)"
      and acc: "account_after seed (take q events) acc" and len: "length (slots ! k) = length (sg_events (?segs ! k))"
    using reconstruct_segment_nth [OF recs'(2) [OF k(1)] prefix [OF k(1)]] k by metis
  have "slots ! k \<in> set slots" using recs'(1) k(1) by simp
  moreover have "(ev_index (events ! q), ev_debit (events ! q), acc) \<in> set (slots ! k)" using slot len k(3) by (metis nth_mem)
  ultimately have "(ev_index (events ! q), ev_debit (events ! q), acc) \<in> set (concat slots)" by auto
  then show ?thesis using set_inputs_slots [OF sets _ bound] acc by blast
qed

section \<open>Folded payments are serial payments\<close>

lemma read_account_view:
  assumes "payment_done blake2s ed s tx p sender fee next_sender next_recipient out" and "tx_sender tx \<noteq> pay_recipient p"
  shows "\<exists>r. next_recipient = Some r \<and> (\<forall>a. read_account (view_apply (to_diff out) v) a =
    (if a = tx_sender tx then Ok (Some next_sender) else if a = pay_recipient p then Ok (Some r) else read_account v a))"
proof -
  have acc: "payment_accounts s tx p sender fee = Ok (next_sender, next_recipient)" and diff: "to_diff out = payment_diff tx p next_sender next_recipient"
    using assms(1) by (simp_all add: payment_done_def)
  from acc assms(2) obtain r where r: "next_recipient = Some r" by (cases rule: payment_accounts_Ok) auto
  have "view_apply (to_diff out) v = v(account_key (tx_sender tx) := Ok (Some (encode_account next_sender)), account_key (pay_recipient p) := Ok (Some (encode_account r)))"
    using assms(2) by (auto simp: diff r payment_diff_def view_apply_def sort_canonical_def diff_put_def diff_new_def Let_def fun_upd_twist)
  then show ?thesis using assms(2) by (auto simp: r read_account_def)
qed

lemma unat_sum_uint: "unat c = unat a + unat b \<Longrightarrow> uint c = uint a + uint b"
  by (simp only: uint_nat of_nat_add)

lemma payment_events_Ok:
  assumes "payment_events policy i tx p = Ok (d, c)"
  obtains res fee where "ev_index d = i" "ev_debit d" "ev_index c = i" "\<not> ev_debit c" "payment_resources tx = Ok res"
    "checked_cost res (ep_prices policy) = Some fee" "gu_delta (ev_guard d) = - (uint (pay_amount p) + uint fee)"
    "gu_delta (ev_guard c) = uint (pay_amount p)"
proof -
  obtain res fee debit where res: "payment_resources tx = Ok res" "checked_cost res (ep_prices policy) = Some fee"
    and debit: "checked_add (pay_amount p) fee = Some debit" and d: "ev_index d = i" "ev_debit d" "gu_delta (ev_guard d) = - uint debit"
    and c: "ev_index c = i" "\<not> ev_debit c" "gu_delta (ev_guard c) = uint (pay_amount p)"
    using assms by (auto simp: payment_events_def result_simps split: if_splits)
  have "uint debit = uint (pay_amount p) + uint fee"
    using debit [unfolded checked_add_Some, THEN conjunct2] by (rule unat_sum_uint)
  then show thesis using that res d c by simp
qed

lemma transfer_accounts:
  assumes "payment_done blake2s ed s tx p sender fee next_sender next_recipient out" and "tx_sender tx \<noteq> pay_recipient p"
    and "session_account s (pay_recipient p) = Ok (Some recipient)"
    and "payment_events policy i tx p = Ok (d, c)" and "ps_prices s = ep_prices policy"
    and "account_after seed es sender" and "account_after seed' es' recipient"
  shows "account_after seed (es @ [d]) next_sender \<and> (\<exists>r. next_recipient = Some r \<and> account_after seed' (es' @ [c]) r)"
proof -
  obtain res fee' where ev: "ev_debit d" "\<not> ev_debit c" "payment_resources tx = Ok res" "checked_cost res (ep_prices policy) = Some fee'"
      "gu_delta (ev_guard d) = - (uint (pay_amount p) + uint fee')" "gu_delta (ev_guard c) = uint (pay_amount p)"
    using payment_events_Ok [OF assms(4)] .
  have fee: "fee' = fee" using assms(1,5) ev(3,4) by (simp add: payment_done_def)
  have "payment_accounts s tx p sender fee = Ok (next_sender, next_recipient)" using assms(1) by (simp add: payment_done_def)
  then show ?thesis
  proof (cases rule: payment_accounts_Ok)
    case self
    then show ?thesis using assms(2) by simp
  next
    case (transfer found r)
    then have "found = Some recipient" using assms(3) by simp
    then have "uint (acc_balance r) = uint (acc_balance recipient) + uint (pay_amount p)" "acc_nonce r = acc_nonce recipient"
      using transfer(4) unat_sum_uint [OF transfer(5)] by simp_all
    moreover have "uint (acc_balance next_sender) + uint fee + uint (pay_amount p) = uint (acc_balance sender)"
      using arg_cong [OF transfer(7), of int] by (simp only: uint_nat of_nat_add)
    ultimately show ?thesis
      using assms(6,7) ev transfer(3,6) by (auto simp: account_after_def fee)
  qed
qed

text \<open>The state of a fold before its phases, and what they have established.\<close>

definition fold_ready ::
  "(byte list \<Rightarrow> hash256) \<Rightarrow> ed25519 \<Rightarrow> validation_context \<Rightarrow> execution_policy \<Rightarrow> snapshot \<Rightarrow> transaction list \<Rightarrow> payment list
   \<Rightarrow> fold_accounts \<Rightarrow> fold_inputs list \<Rightarrow> transaction_output list \<Rightarrow> bool" where
  "fold_ready blake2s ed ctx policy parent txs payments accounts inputs outs \<longleftrightarrow>
     length payments = length txs \<and> length outs = length txs
     \<and> (\<forall>i < length txs. tx_lane (txs ! i) = Payments \<and> payment_decode (tx_payload (txs ! i)) = Ok (payments ! i)
         \<and> tx_sender (txs ! i) \<noteq> pay_recipient (payments ! i) \<and> (\<exists>d c. payment_events policy i (txs ! i) (payments ! i) = Ok (d, c))
         \<and> tx_sender (txs ! i) \<in> fst ` set accounts \<and> pay_recipient (payments ! i) \<in> fst ` set accounts
         \<and> fold_execute blake2s ed ctx policy (txs ! i) (payments ! i) (inputs ! i) = Ok (outs ! i))
     \<and> (\<forall>a seed events. bt_get accounts a = Some (seed, events) \<longrightarrow> read_account parent a = Ok (Some seed)
         \<and> events = concat (map (account_events policy a) (enumerate 0 (zip txs payments)))
         \<and> (\<forall>q < length events. \<exists>acc. input_slot (ev_debit (events ! q)) (inputs ! ev_index (events ! q)) = Some acc
              \<and> account_after seed (take q events) acc))"

definition events_before :: "execution_policy \<Rightarrow> transaction list \<Rightarrow> payment list \<Rightarrow> address \<Rightarrow> nat \<Rightarrow> fold_event list" where
  "events_before policy txs payments a i = concat (map (account_events policy a) (take i (enumerate 0 (zip txs payments))))"

lemma events_before_Suc:
  assumes "i < length txs" and "length payments = length txs"
  shows "events_before policy txs payments a (Suc i) = events_before policy txs payments a i @ account_events policy a (i, txs ! i, payments ! i)"
  using assms by (simp add: events_before_def take_Suc_conv_app_nth nth_enumerate_eq)

lemma fold_ready_input:
  assumes ready: "fold_ready blake2s ed ctx policy parent txs payments accounts inputs outs" and i: "i < length txs"
    and acc: "bt_get accounts a = Some (seed, events)" and e: "account_events policy a (i, txs ! i, payments ! i) = [e]" "ev_index e = i"
  shows "\<exists>acc. input_slot (ev_debit e) (inputs ! i) = Some acc \<and> account_after seed (events_before policy txs payments a i) acc"
proof -
  let ?es = "enumerate 0 (zip txs payments)" and ?before = "events_before policy txs payments a i"
  have len: "length payments = length txs" using ready by (simp add: fold_ready_def)
  have "events = concat (map (account_events policy a) (take (Suc i) ?es @ drop (Suc i) ?es))"
    using ready acc unfolding append_take_drop_id by (simp add: fold_ready_def)
  then have events: "events = ?before @ e # concat (map (account_events policy a) (drop (Suc i) ?es))"
    using events_before_Suc [OF i len, of policy a]
    unfolding map_append concat_append events_before_def [symmetric] e(1) by simp
  then have q: "length ?before < length events" "events ! length ?before = e" "take (length ?before) events = ?before" by simp_all
  from ready acc have "\<forall>q < length events. \<exists>acc. input_slot (ev_debit (events ! q)) (inputs ! ev_index (events ! q)) = Some acc
      \<and> account_after seed (take q events) acc"
    unfolding fold_ready_def by blast
  from this [rule_format, OF q(1)] show ?thesis by (simp only: q(2,3) e(2))
qed

definition accounts_at ::
  "execution_policy \<Rightarrow> transaction list \<Rightarrow> payment list \<Rightarrow> fold_accounts \<Rightarrow> nat \<Rightarrow> snapshot \<Rightarrow> bool" where
  "accounts_at policy txs payments accounts i v \<longleftrightarrow> (\<forall>a seed events. bt_get accounts a = Some (seed, events) \<longrightarrow>
     (\<exists>acc. read_account v a = Ok (Some acc) \<and> account_after seed (events_before policy txs payments a i) acc))"

lemma fold_view_accounts:
  assumes ready: "fold_ready blake2s ed ctx policy parent txs payments accounts inputs outs" and i: "i < length txs"
    and at: "accounts_at policy txs payments accounts i v" and a: "a \<in> fst ` set accounts"
    and e: "account_events policy a (i, txs ! i, payments ! i) = [e]" "ev_index e = i"
  obtains seed events acc where "bt_get accounts a = Some (seed, events)" "read_account v a = Ok (Some acc)"
    "account_after seed (events_before policy txs payments a i) acc" "input_slot (ev_debit e) (inputs ! i) = Some acc"
proof -
  obtain seed events where acc: "bt_get accounts a = Some (seed, events)"
    using a bt_get_None_iff [of accounts a] by (cases "bt_get accounts a") auto
  obtain s where s: "input_slot (ev_debit e) (inputs ! i) = Some s" "account_after seed (events_before policy txs payments a i) s"
    using fold_ready_input [OF ready i acc e] by blast
  obtain r where r: "read_account v a = Ok (Some r)" "account_after seed (events_before policy txs payments a i) r"
    using at acc unfolding accounts_at_def by blast
  show thesis using that [OF acc r] s account_after_unique [OF s(2) r(2)] by simp
qed

lemma fold_step:
  assumes ready: "fold_ready blake2s ed ctx policy parent txs payments accounts inputs outs" and i: "i < length txs"
    and at: "accounts_at policy txs payments accounts i v"
  shows "tx_output blake2s ed execute_contract ctx policy v (txs ! i) = Ok (outs ! i)"
    and "accounts_at policy txs payments accounts (Suc i) (view_apply (to_diff (outs ! i)) v)"
proof -
  define tx where "tx = txs ! i"
  define p where "p = payments ! i"
  define out where "out = outs ! i"
  have tx: "tx_lane tx = Payments" "payment_decode (tx_payload tx) = Ok p" "tx_sender tx \<noteq> pay_recipient p"
      "tx_sender tx \<in> fst ` set accounts" "pay_recipient p \<in> fst ` set accounts"
      "fold_execute blake2s ed ctx policy tx p (inputs ! i) = Ok out" and len: "length payments = length txs"
    using ready i by (simp_all add: fold_ready_def tx_def p_def out_def)
  obtain d c where ev: "payment_events policy i tx p = Ok (d, c)" using ready i by (auto simp: fold_ready_def tx_def p_def)
  have events: "account_events policy a (i, txs ! i, payments ! i)
      = (if a = tx_sender tx then [d] else if a = pay_recipient p then [c] else [])" for a
    using tx(3) by (auto simp: account_events_def ev simp flip: tx_def p_def)
  have kind: "ev_index d = i" "ev_debit d" "ev_index c = i" "\<not> ev_debit c" using payment_events_Ok [OF ev] by metis+
  obtain seed es sender where sender: "bt_get accounts (tx_sender tx) = Some (seed, es)" "read_account v (tx_sender tx) = Ok (Some sender)"
      "account_after seed (events_before policy txs payments (tx_sender tx) i) sender" "fi_sender (inputs ! i) = Some sender"
    using fold_view_accounts [OF ready i at tx(4) _ kind(1)] events kind(2) by auto
  obtain seed' es' recipient where recipient: "bt_get accounts (pay_recipient p) = Some (seed', es')" "read_account v (pay_recipient p) = Ok (Some recipient)"
      "account_after seed' (events_before policy txs payments (pay_recipient p) i) recipient" "fi_recipient (inputs ! i) = Some recipient"
    using fold_view_accounts [OF ready i at tx(5) _ kind(3)] events kind(4) tx(3) by auto
  define s where "s = payment_with_prices (ep_prices policy) (payment_session_new v ctx (ep_capacity policy))"
  have "fst (payment_execute blake2s ed s tx) = Ok out"
    unfolding s_def tx(6) [unfolded fold_execute_def, symmetric]
    using sender recipient tx(2,3) by (intro payment_execute_reads) (simp add: read_account_def pair_view_def)
  then obtain s' where run: "payment_execute blake2s ed s tx = (Ok out, s')" by (metis prod.collapse)
  then show "tx_output blake2s ed execute_contract ctx policy v (txs ! i) = Ok (outs ! i)"
    using tx(1) by (simp add: tx_output_def session_output_def signed_with_prices_def signed_session_new_def s_def flip: tx_def out_def)
  obtain p' sender' fee next_sender next_recipient where pd: "payment_done blake2s ed s tx p' sender' fee next_sender next_recipient out"
    using payment_execute_Ok [OF run] by metis
  have found: "session_account s a = map_err StateFailure (read_account v a)" for a
    by (simp add: s_def session_account_def payment_with_prices_def payment_session_new_def)
  have eq: "p' = p" "sender' = sender" using pd tx(2) found sender(2) by (simp_all add: payment_done_def)
  have prices: "ps_prices s = ep_prices policy" by (simp add: s_def payment_with_prices_def)
  note pd = pd [unfolded eq]
  obtain r where r: "next_recipient = Some r" "account_after seed (events_before policy txs payments (tx_sender tx) i @ [d]) next_sender"
      "account_after seed' (events_before policy txs payments (pay_recipient p) i @ [c]) r"
    using transfer_accounts [OF pd tx(3) _ ev prices sender(3) recipient(3)] found recipient(2) by auto
  have view: "read_account (view_apply (to_diff out) v) a =
      (if a = tx_sender tx then Ok (Some next_sender) else if a = pay_recipient p then Ok (Some r) else read_account v a)" for a
    using read_account_view [OF pd tx(3)] r(1) by auto
  show "accounts_at policy txs payments accounts (Suc i) (view_apply (to_diff (outs ! i)) v)"
    unfolding accounts_at_def out_def [symmetric] view
  proof (intro allI impI)
    fix a sd evs assume acc: "bt_get accounts a = Some (sd, evs)"
    show "\<exists>acc. (if a = tx_sender tx then Ok (Some next_sender) else if a = pay_recipient p then Ok (Some r) else read_account v a) = Ok (Some acc)
        \<and> account_after sd (events_before policy txs payments a (Suc i)) acc"
      using acc sender(1) recipient(1) r(2,3) tx(3) at unfolding accounts_at_def events_before_Suc [OF i len] events by auto
  qed
qed

lemma fold_ready_serial:
  assumes ready: "fold_ready blake2s ed ctx policy parent txs payments accounts inputs outs"
  shows "serial_outputs (tx_output blake2s ed execute_contract ctx policy) txs parent outs"
proof -
  let ?log = "enumerate 0 outs"
  have len: "length outs = length txs" using ready by (simp add: fold_ready_def)
  have take: "take (Suc i) ?log = take i ?log @ [(i, outs ! i)]" if "i < length txs" for i
    using that len by (simp add: take_Suc_conv_app_nth nth_enumerate_eq)
  have at: "accounts_at policy txs payments accounts i (log_view parent (take i ?log))" if "i \<le> length txs" for i
    using that
  proof (induction i)
    case 0
    then show ?case using ready by (auto simp: accounts_at_def fold_ready_def events_before_def account_after_def)
  next
    case (Suc i)
    then show ?case using fold_step(2) [OF ready, of i] take [of i] by simp
  qed
  show ?thesis
    using fold_step(1) [OF ready _ at] len by (simp add: serial_outputs_def valid_log_def nth_enumerate_eq)
qed

section \<open>Speculation by folding\<close>

lemma decode_payments_Ok:
  assumes "decode_payments txs = Ok ps"
  shows "length ps = length txs" "\<And>i. i < length txs \<Longrightarrow> payment_decode (tx_payload (txs ! i)) = Ok (ps ! i)"
proof -
  have "length ps = length txs \<and> (\<forall>i < length txs. payment_decode (tx_payload (txs ! i)) = Ok (ps ! i))"
    using assms
  proof (induction txs arbitrary: ps)
    case (Cons tx txs)
    then obtain p ps' where "payment_decode (tx_payload tx) = Ok p" "decode_payments txs = Ok ps'" "ps = p # ps'"
      by (auto simp: result_simps)
    then show ?case using Cons.IH by (auto simp: nth_Cons')
  qed simp
  then show "length ps = length txs" "\<And>i. i < length txs \<Longrightarrow> payment_decode (tx_payload (txs ! i)) = Ok (ps ! i)" by simp_all
qed

lemma read_accounts_Ok:
  assumes "read_accounts parent as accounts = Some (Ok accounts')" and "bt_ok accounts"
    and "\<And>a seed es. bt_get accounts a = Some (seed, es) \<Longrightarrow> es = [] \<and> read_account parent a = Ok (Some seed)"
  shows "bt_ok accounts' \<and> set as \<union> fst ` set accounts \<subseteq> fst ` set accounts'
    \<and> (\<forall>a seed es. bt_get accounts' a = Some (seed, es) \<longrightarrow> es = [] \<and> read_account parent a = Ok (Some seed))"
  using assms
proof (induction parent as accounts rule: read_accounts.induct)
  case (1 parent accounts)
  then show ?case by auto
next
  case (2 parent a as accounts)
  show ?case
  proof (cases "bt_contains accounts a")
    case True
    then show ?thesis using "2.IH"(1) "2.prems" bt_get_None_iff [of accounts a] by (auto simp: bt_contains_iff)
  next
    case False
    then obtain account where acc: "read_account parent a = Ok (Some account)"
      and more: "read_accounts parent as (bt_insert a (account, []) accounts) = Some (Ok accounts')"
      using "2.prems"(1) by (auto split: sum.splits option.splits)
    have "fst ` set (bt_insert a (account, []) accounts) = insert a (fst ` set accounts)"
      using "2.prems"(2) by (auto simp: set_bt_insert image_iff)
    moreover have "bt_ok accounts' \<and> set as \<union> fst ` set (bt_insert a (account, []) accounts) \<subseteq> fst ` set accounts'
        \<and> (\<forall>a seed es. bt_get accounts' a = Some (seed, es) \<longrightarrow> es = [] \<and> read_account parent a = Ok (Some seed))"
    proof (rule "2.IH"(2) [OF False acc refl more])
      show "es = [] \<and> read_account parent b = Ok (Some seed)" if "bt_get (bt_insert a (account, []) accounts) b = Some (seed, es)" for b seed es
        using that "2.prems"(3) [of b seed es] acc by (cases "b = a") simp_all
    qed (use "2.prems"(2) in simp)
    ultimately show ?thesis by auto
  qed
qed

lemma fold_run_Ok:
  assumes "fold_run blake2s ed env txs payments ctx policy workers accounts seals = Ok (outs, seals')"
  obtains accounts' summaries prefixes slots inputs where
    "fold_events policy 0 (zip txs payments) accounts = Ok accounts'" "0 < min workers (length txs)"
    "fold_phase env 0 (min workers (length txs)) (length (fold_segments accounts'))
        (\<lambda>i. summarize (sg_events (fold_segments accounts' ! i)) prefix_identity) = Ok summaries"
    "fold_prefixes None prefix_identity (zip (fold_segments accounts') summaries) = Ok prefixes"
    "fold_phase env 1 (min workers (length txs)) (length (fold_segments accounts'))
        (\<lambda>i. reconstruct_segment (fold_segments accounts' ! i) (prefixes ! i)) = Ok slots"
    "set_inputs (concat slots) (replicate (length txs) \<lparr>fi_sender = None, fi_recipient = None\<rparr>) = Ok inputs"
    "fold_phase env 2 (min workers (length txs)) (length txs)
        (\<lambda>i. fold_execute blake2s ed ctx policy (txs ! i) (payments ! i) (inputs ! i)) = Ok outs"
    "case seals of None \<Rightarrow> seals' = None | Some s \<Rightarrow> \<exists>s'. record_outputs blake2s outs (we_order env) s = Ok s' \<and> seals' = Some s'"
  using assms unfolding fold_run_def Let_def
  by (auto simp: result_simps simp del: min_less_iff_conj split: if_splits option.splits)

lemma record_outputs_wf:
  "record_outputs blake2s outs order s = Ok s' \<Longrightarrow> seals_wf blake2s s \<Longrightarrow> seals_wf blake2s s'"
proof (induction order arbitrary: s)
  case (Cons index order)
  obtain t where t: "seals_record blake2s s index (to_diff (outs ! index)) = (Some (Ok ()), t)" "record_outputs blake2s outs order t = Ok s'"
    using Cons.prems(1) by (auto split: prod.splits option.splits sum.splits)
  then have "seals_wf blake2s t" using record_changes_keeps [OF Cons.prems(2)] by (auto simp: seals_record_def)
  then show ?case using Cons.IH t(2) by blast
qed simp

lemma account_events_index:
  assumes "payment_events policy i tx p = Ok (d, c)" and "e \<in> set (account_events policy a (i, tx, p))"
  shows "ev_index e = i"
  using assms payment_events_Ok [OF assms(1)] by (auto simp: account_events_def split: if_splits)

lemma fold_run_ready:
  assumes run: "fold_run blake2s ed env txs payments ctx policy workers accounts seals = Ok (outs, seals')"
    and len: "length payments = length txs" and ok: "bt_ok accounts"
    and seeds: "\<And>a seed es. bt_get accounts a = Some (seed, es) \<Longrightarrow> es = [] \<and> read_account parent a = Ok (Some seed)"
    and txs: "\<And>i. i < length txs \<Longrightarrow> tx_lane (txs ! i) = Payments \<and> payment_decode (tx_payload (txs ! i)) = Ok (payments ! i)
         \<and> tx_sender (txs ! i) \<noteq> pay_recipient (payments ! i)
         \<and> tx_sender (txs ! i) \<in> fst ` set accounts \<and> pay_recipient (payments ! i) \<in> fst ` set accounts"
  shows "\<exists>accounts' inputs. fold_ready blake2s ed ctx policy parent txs payments accounts' inputs outs"
  using run
proof (cases rule: fold_run_Ok)
  case (1 accounts' summaries prefixes slots inputs)
  note ev = fold_events_get [OF 1(1) ok]
  have events: "\<exists>d c. payment_events policy i (txs ! i) (payments ! i) = Ok (d, c)" if "i < length txs" for i
    using ev(3) [of i] that len by simp
  have get: "es = concat (map (account_events policy a) (enumerate 0 (zip txs payments))) \<and> read_account parent a = Ok (Some seed)"
    if "bt_get accounts' a = Some (seed, es)" for a seed es
    using ev(2) [of a] that seeds [of a] by (cases "bt_get accounts a") (auto simp: with_events_def)
  have keys: "a \<in> fst ` set accounts'" if "a \<in> fst ` set accounts" for a
    using that ev(2) [of a] bt_get_None_iff [of accounts a] bt_get_None_iff [of accounts' a] by (cases "bt_get accounts a") auto
  have index: "ev_index (es ! q) < length txs" if acc: "bt_get accounts' a = Some (seed, es)" "q < length es" for a seed es q
  proof -
    have "es ! q \<in> set (concat (map (account_events policy a) (enumerate 0 (zip txs payments))))" using get [OF acc(1)] acc(2) nth_mem by metis
    then obtain i where "i < length txs" "es ! q \<in> set (account_events policy a (i, txs ! i, payments ! i))"
      using len by (auto simp: in_set_conv_nth [of _ "enumerate 0 (zip txs payments)"] nth_enumerate_eq)
    then show ?thesis using account_events_index events by metis
  qed
  have "\<exists>acc. input_slot (ev_debit (es ! q)) (inputs ! ev_index (es ! q)) = Some acc \<and> account_after seed (take q es) acc"
    if "bt_get accounts' a = Some (seed, es)" "q < length es" for a seed es q
    using fold_inputs_account [OF ev(1) 1(2,3,4,5,6) that] index [OF that] by simp
  then have "fold_ready blake2s ed ctx policy parent txs payments accounts' inputs outs"
    unfolding fold_ready_def using len get keys events txs fold_phase_Ok [OF 1(7,2)] by simp
  then show ?thesis by blast
qed

lemma fold_speculate_serial:
  assumes "fold_speculate blake2s ed env t parent txs ctx policy workers sealing = Some (Ok (outs, seals))"
  shows "serial_outputs (tx_output blake2s ed execute_contract ctx policy) txs parent outs"
    and "t = tree_from_map blake2s data \<Longrightarrow> bt_ok data \<Longrightarrow> seals = Some s \<Longrightarrow> seals_wf blake2s s"
proof -
  obtain payments accounts where lanes: "\<not> list_ex (\<lambda>tx. tx_lane tx \<noteq> Payments) txs" and dec: "decode_payments txs = Ok payments"
    and others: "\<not> list_ex (\<lambda>(tx, p). tx_sender tx = pay_recipient p) (zip txs payments)"
    and read: "read_accounts parent (concat (map (\<lambda>(tx, p). [tx_sender tx, pay_recipient p]) (zip txs payments))) [] = Some (Ok accounts)"
    and run: "fold_run blake2s ed env txs payments ctx policy workers accounts (fold_seals blake2s t sealing txs payments accounts) = Ok (outs, seals)"
    using assms unfolding fold_speculate_def by (auto split: if_splits sum.splits option.splits)
  let ?addresses = "concat (map (\<lambda>(tx, p). [tx_sender tx, pay_recipient p]) (zip txs payments))"
  note dec' = decode_payments_Ok [OF dec]
  have acc: "bt_ok accounts \<and> set ?addresses \<union> fst ` set ([] :: fold_accounts) \<subseteq> fst ` set accounts
      \<and> (\<forall>a seed es. bt_get accounts a = Some (seed, es) \<longrightarrow> es = [] \<and> read_account parent a = Ok (Some seed))"
    by (rule read_accounts_Ok [OF read]) simp_all
  have mem: "(txs ! i, payments ! i) \<in> set (zip txs payments)" if "i < length txs" for i
    using that dec'(1) by (metis length_zip min.idem nth_mem nth_zip)
  have "tx_lane (txs ! i) = Payments" "tx_sender (txs ! i) \<noteq> pay_recipient (payments ! i)" if "i < length txs" for i
    using lanes others mem [OF that] nth_mem [OF that] by (auto simp: list_ex_iff)
  moreover have "tx_sender (txs ! i) \<in> fst ` set accounts" "pay_recipient (payments ! i) \<in> fst ` set accounts" if "i < length txs" for i
  proof -
    have "{tx_sender (txs ! i), pay_recipient (payments ! i)} \<subseteq> set (concat (map (\<lambda>(tx, p). [tx_sender tx, pay_recipient p]) (zip txs payments)))"
      using imageI [OF mem [OF that], of "\<lambda>(tx, p). [tx_sender tx, pay_recipient p]"] by (auto simp del: set_zip)
    also have "\<dots> \<subseteq> fst ` set accounts" using acc by blast
    finally show "tx_sender (txs ! i) \<in> fst ` set accounts" "pay_recipient (payments ! i) \<in> fst ` set accounts" by simp_all
  qed
  ultimately obtain accounts' inputs where "fold_ready blake2s ed ctx policy parent txs payments accounts' inputs outs"
    using fold_run_ready [OF run dec'(1), of parent] acc dec'(2) by auto
  then show "serial_outputs (tx_output blake2s ed execute_contract ctx policy) txs parent outs" by (rule fold_ready_serial)
  show "seals_wf blake2s s" if t: "t = tree_from_map blake2s data" "bt_ok data" and s: "seals = Some s"
    using run
  proof (cases rule: fold_run_Ok)
    case (1 accounts' summaries prefixes slots inputs)
    then obtain s0 where s0: "fold_seals blake2s t sealing txs payments accounts = Some s0" "record_outputs blake2s outs (we_order env) s0 = Ok s"
      using s by (auto split: option.splits)
    then have "seals_wf blake2s s0" using plan_seals_wf [OF t(2)] t(1) by (auto simp: fold_seals_def split: if_splits)
    then show ?thesis by (rule record_outputs_wf [OF s0(2)])
  qed
qed

section \<open>Parallel execution is serial execution\<close>

fun serial_run ::
  "(snapshot \<Rightarrow> transaction \<Rightarrow> execution_error + transaction_output) \<Rightarrow> snapshot \<Rightarrow> transaction list \<Rightarrow> transaction_output list \<Rightarrow> bool" where
  "serial_run exec v [] outs \<longleftrightarrow> outs = []"
| "serial_run exec v (tx # txs) outs \<longleftrightarrow>
     (\<exists>out outs'. outs = out # outs' \<and> exec v tx = Ok out \<and> serial_run exec (view_apply (to_diff out) v) txs outs')"

lemma serial_outputs_run:
  assumes "serial_outputs exec txs v outs"
  shows "serial_run exec v txs outs"
proof -
  have "valid_log exec (pre @ txs) v (enumerate (length pre) outs) \<Longrightarrow> length outs = length txs \<Longrightarrow> serial_run exec v txs outs" for pre
  proof (induction txs arbitrary: pre v outs)
    case (Cons tx txs)
    then obtain out outs' where "outs = out # outs'" by (cases outs) auto
    then show ?case using Cons.prems Cons.IH [of "pre @ [tx]"] by (simp add: valid_log_Cons)
  qed simp
  from this [of "[]"] show ?thesis using assms by (simp add: serial_outputs_def)
qed

lemma serial_run_session:
  assumes "session_for ctx policy s" and "serial_run (tx_output blake2s ed execute_contract ctx policy) (overlay_get (ss_overlay s)) txs outs"
  shows "signed_execute_all blake2s ed execute_contract s txs = (if used_fits (ep_capacity policy) (ss_used s) outs then Ok outs else Err ResourceLimit)"
  using assms
proof (induction txs arbitrary: s outs)
  case (Cons tx txs)
  let ?exec = "tx_output blake2s ed execute_contract ctx policy"
  obtain out outs' where outs: "outs = out # outs'" and ok: "?exec (overlay_get (ss_overlay s)) tx = Ok out"
    and more: "serial_run ?exec (view_apply (to_diff out) (overlay_get (ss_overlay s))) txs outs'"
    using Cons.prems(2) by auto
  have so: "session_output blake2s ed execute_contract s tx = Ok out" using session_output_view [OF Cons.prems(1)] ok by simp
  have cap: "ss_capacity s = ep_capacity policy" using Cons.prems(1) by (simp add: session_for_def)
  show ?case
  proof (cases "resources_checked_add (ss_used s) (rc_resources (to_receipt out))")
    case None
    then show ?thesis by (simp add: outs signed_execute_def so)
  next
    case (Some used)
    let ?s = "s\<lparr>ss_overlay := overlay_apply (to_diff out) (ss_overlay s), ss_used := used\<rparr>"
    have "session_for ctx policy ?s" using Cons.prems(1) by (simp add: session_for_def)
    then have "signed_execute_all blake2s ed execute_contract ?s txs = (if used_fits (ep_capacity policy) used outs' then Ok outs' else Err ResourceLimit)"
      using Cons.IH [of ?s outs'] more by (simp add: overlay_get_apply)
    then show ?thesis using Some by (simp add: outs signed_execute_def so cap)
  qed
qed simp

lemma execute_serial_outputs:
  assumes "ms_root db = parent" and "serial_outputs (tx_output blake2s ed execute_contract ctx policy) txs (state_snapshot db) outs"
  shows "execute_serial blake2s ed execute_contract db txs parent ctx policy =
    publish_outputs blake2s db parent (if used_fits (ep_capacity policy) resources_zero outs then Ok outs else Err ResourceLimit)"
proof -
  let ?s = "signed_with_prices (ep_prices policy) (signed_session_new (state_snapshot db) ctx (ep_capacity policy) (ep_contracts policy))"
  have "signed_execute_all blake2s ed execute_contract ?s txs = (if used_fits (ep_capacity policy) (ss_used ?s) outs then Ok outs else Err ResourceLimit)"
    using serial_outputs_run [OF assms(2)] by (intro serial_run_session) (simp_all add: signed_with_prices_def signed_session_new_def session_for_def)
  then show ?thesis using assms(1) by (simp add: execute_serial_def signed_with_prices_def signed_session_new_def)
qed

lemma accelerated_serial:
  assumes ok: "state_ok blake2s db" and frame: "ep_contracts policy \<longrightarrow> contract_frame blake2s execute_contract"
    and acc: "accelerated blake2s ed execute_contract env db txs ctx policy workers acceleration = Ok (outs, seals)"
  shows "serial_outputs (tx_output blake2s ed execute_contract ctx policy) txs (state_snapshot db) outs"
    and "seals = Some s \<Longrightarrow> seals_wf blake2s s"
proof -
  note ex = execution_tx_output [OF frame]
  have data: "ms_data db = tree_from_map blake2s (state_map db)" "bt_ok (state_map db)"
    using ok by (metis state_ok_def state_of_simps(1), simp add: state_ok_def map_bounded_def)
  consider (plain) "speculate blake2s ed execute_contract env (state_snapshot db) txs ctx policy workers = Ok outs" "seals = None"
    | (folded) sealing where "fold_speculate blake2s ed env (ms_data db) (state_snapshot db) txs ctx policy workers sealing = Some (Ok (outs, seals))"
    using acc by (auto simp: accelerated_def Let_def result_simps split: execution_acceleration.splits option.splits)
  then show "serial_outputs (tx_output blake2s ed execute_contract ctx policy) txs (state_snapshot db) outs"
    "seals = Some s \<Longrightarrow> seals_wf blake2s s"
    by (cases; use speculate_serial [OF ex] fold_speculate_serial data in auto)+
qed

section \<open>Native engines are needed by contracts only\<close>

lemma payment_execute_native: "fst (payment_execute blake2s ed s tx) \<noteq> Err NativeUnavailable"
proof
  assume "fst (payment_execute blake2s ed s tx) = Err NativeUnavailable"
  then show False
    unfolding payment_execute_def payment_checks_def payment_accounts_def session_account_def payment_resources_def
    by (auto simp: result_simps Let_def split: sum.splits prod.splits if_splits option.splits)
qed

lemma execute_chunk_native:
  assumes "\<not> ep_contracts policy"
  shows "execute_chunk blake2s ed execute_contract txs ctx policy ov indexes \<noteq> Err NativeUnavailable"
proof -
  have "execute_indexes blake2s ed execute_contract txs s indexes \<noteq> Err NativeUnavailable" if "\<not> ss_contracts s" for s
    using that
  proof (induction indexes arbitrary: s)
    case (Cons i indexes)
    have out: "session_output blake2s ed execute_contract s tx \<noteq> Err NativeUnavailable" for tx
      using Cons.prems payment_execute_native by (cases "tx_lane tx") (simp_all add: session_output_def)
    have keep: "\<not> ss_contracts s'" if "signed_execute blake2s ed execute_contract s tx = (r, s')" for tx r s'
      using that Cons.prems by (auto simp: signed_execute_def split: sum.splits option.splits if_splits)
    show ?case
      using out [of "txs ! i"] Cons.IH keep [of "txs ! i"]
      by (auto simp: result_simps signed_execute_def split: prod.splits sum.splits option.splits if_splits)
  qed simp
  then show ?thesis using assms by (simp add: execute_chunk_def signed_with_prices_def signed_session_new_def)
qed

lemma collect_results_Err: "collect_results rs = Err e \<Longrightarrow> Err e \<in> set rs"
  by (induction rs) (auto simp: result_simps)

lemma pool_map_into_Err:
  assumes "pool_map_into env n workers run tasks = Err e"
  shows "e = ResourceLimit \<or> e = Trap \<or> (\<exists>t \<in> set tasks. run t = Err e)"
proof -
  have sub: "snd ` set (takeWhile P (enumerate 0 tasks)) \<subseteq> set tasks" for P
    using set_takeWhileD [of _ P "enumerate 0 tasks"] by (force simp: in_set_enumerate_eq)
  show ?thesis
    using assms sub by (fastforce simp: pool_map_into_def Let_def split: if_splits dest!: collect_results_Err)
qed

lemma run_waves_native:
  assumes "\<not> ep_contracts policy"
  shows "run_waves blake2s ed execute_contract env txs ctx policy workers pool_size n ov outs waves \<noteq> Err NativeUnavailable"
  using assms
proof (induction blake2s ed execute_contract env txs ctx policy workers pool_size n ov outs waves rule: run_waves.induct)
  case (2 blake2s ed execute_contract env txs ctx policy workers pool_size n ov outs wave waves)
  note chunk = execute_chunk_native [OF "2.prems", of blake2s ed execute_contract txs ctx ov]
  show ?case
    using 2 chunk pool_map_into_Err [of env n pool_size "execute_chunk blake2s ed execute_contract txs ctx policy ov" _ NativeUnavailable]
    by (auto simp: result_simps Let_def split: if_splits)
qed simp

lemma validate_declarations_native: "validate_declarations blake2s txs \<noteq> Err NativeUnavailable"
  by (induction txs) (auto simp: result_simps required_keys_def split: transaction_lane.splits if_splits)

lemma finish_outputs_native: "finish_outputs outs \<noteq> Err NativeUnavailable"
proof
  assume "finish_outputs outs = Err NativeUnavailable"
  then have "Err NativeUnavailable \<in> set (map (ok_or Conflict) outs)" unfolding finish_outputs_def by (rule collect_results_Err)
  then obtain x :: "transaction_output option" where "Err NativeUnavailable = ok_or Conflict x" by auto
  then show False by (cases x) simp_all
qed

lemma speculate_native:
  assumes "\<not> ep_contracts policy" and "0 < workers"
  shows "speculate blake2s ed execute_contract env parent txs ctx policy workers \<noteq> Err NativeUnavailable"
proof (cases "wave_only txs")
  case True
  then have "speculate blake2s ed execute_contract env parent txs ctx policy workers = speculate_waves blake2s ed execute_contract env parent txs ctx policy workers"
    by (simp add: speculate_def Let_def)
  then show ?thesis
    using run_waves_native [OF assms(1)] validate_declarations_native finish_outputs_native
    by (auto simp: speculate_waves_def result_simps Let_def split: if_splits)
next
  case False
  show ?thesis
  proof (cases "we_spawns env \<and> validate_declarations blake2s txs = Ok ()")
    case True
    have ex: "execution (tx_output blake2s ed execute_contract ctx policy) (covered blake2s)" using assms(1) by (intro execution_tx_output) simp
    then show ?thesis
      using speculate_live [OF ex False assms(2) conjunct1 [OF True] conjunct2 [OF True], of parent NativeUnavailable] execute_chunk_native [OF assms(1)]
      by (auto simp: speculation_fails_def)
  next
    case no: False
    show ?thesis
    proof (cases "validate_declarations blake2s txs")
      case (Inl e)
      then show ?thesis using validate_declarations_native [of blake2s txs] unfolding speculate_dag [OF False] by simp
    next
      case (Inr u)
      then show ?thesis using no unfolding speculate_dag [OF False] by simp
    qed
  qed
qed

lemma guard_then_native: "guard_then g h \<noteq> Err NativeUnavailable"
  by (auto simp: guard_then_def Let_def result_simps split: if_splits)

lemma fold_phase_native: "(\<And>i. i < m \<Longrightarrow> task i \<noteq> Err NativeUnavailable) \<Longrightarrow> fold_phase env n p m task \<noteq> Err NativeUnavailable"
proof
  assume task: "\<And>i. i < m \<Longrightarrow> task i \<noteq> Err NativeUnavailable" and "fold_phase env n p m task = Err NativeUnavailable"
  then obtain ch where ch: "ch \<in> set (chunks (div_ceil m p) [0..<m])" "collect_results (map task ch) = Err NativeUnavailable"
    by (auto simp: fold_phase_def result_simps dest!: pool_map_into_Err)
  have "set (concat (chunks k xs)) \<subseteq> set xs" for k and xs :: "nat list"
    using concat_take_chunks [of xs "length (chunks k xs)" k] by (metis Un_upper1 set_append take_all le_refl)
  then have "set ch \<subseteq> {..<m}" using ch(1) by fastforce
  moreover obtain i where "i \<in> set ch" "task i = Err NativeUnavailable" using collect_results_Err [OF ch(2)] by auto
  ultimately show False using task by auto
qed

lemma summarize_native: "summarize es p \<noteq> Err NativeUnavailable"
  by (induction es arbitrary: p) (auto simp: result_simps guard_then_native)

lemma fold_prefixes_native: "fold_prefixes a p rs \<noteq> Err NativeUnavailable"
proof (induction rs arbitrary: a p)
  case (Cons r rs)
  then show ?case by (cases r) (auto simp: result_simps guard_then_native Let_def split: if_splits)
qed simp

lemma reconstruct_native: "reconstruct es b n \<noteq> Err NativeUnavailable"
  by (induction es arbitrary: b n) (auto simp: result_simps)

lemma set_inputs_native: "set_inputs slots inputs \<noteq> Err NativeUnavailable"
proof (induction slots arbitrary: inputs)
  case (Cons slot slots)
  then show ?case by (cases slot) (auto simp: Let_def)
qed simp

lemma fold_events_native: "fold_events policy m pairs accounts \<noteq> Err NativeUnavailable"
proof (induction pairs arbitrary: m accounts)
  case (Cons pair pairs)
  then show ?case
    by (cases pair) (auto simp: result_simps payment_events_def payment_resources_def push_event_def split: if_splits option.splits)
qed simp

lemma record_outputs_native: "record_outputs blake2s outs order s \<noteq> Err NativeUnavailable"
  by (induction order arbitrary: s) (auto split: prod.splits option.splits sum.splits)

lemma fold_speculate_native: "fold_speculate blake2s ed env t parent txs ctx policy workers sealing \<noteq> Some (Err NativeUnavailable)"
proof -
  have dec: "decode_payments txs \<noteq> Err NativeUnavailable" for txs by (induction txs) (auto simp: result_simps)
  have acc: "read_accounts parent as m \<noteq> Some (Err NativeUnavailable)" for as m
    by (induction parent as m rule: read_accounts.induct) (auto split: sum.splits option.splits)
  have exec: "fold_execute blake2s ed ctx policy tx p i \<noteq> Err NativeUnavailable" for tx p i
    by (simp add: fold_execute_def payment_execute_native)
  have seg: "reconstruct_segment s p \<noteq> Err NativeUnavailable" for s p by (auto simp: reconstruct_segment_def result_simps reconstruct_native)
  have "fold_run blake2s ed env txs payments ctx policy workers accounts seals \<noteq> Err NativeUnavailable" for payments accounts seals
    unfolding fold_run_def Let_def
    by (auto simp: result_simps fold_events_native fold_phase_native summarize_native fold_prefixes_native seg set_inputs_native exec record_outputs_native
        split: if_splits option.splits)
  then show ?thesis using dec acc by (auto simp: fold_speculate_def split: if_splits sum.splits option.splits)
qed

lemma accelerated_native:
  assumes "\<not> ep_contracts policy" and "0 < workers"
  shows "accelerated blake2s ed execute_contract env db txs ctx policy workers acceleration \<noteq> Err NativeUnavailable"
  using speculate_native [OF assms] fold_speculate_native
  by (auto simp: accelerated_def Let_def result_simps split: execution_acceleration.splits option.splits)

lemma publish_sealed:
  assumes "\<And>s. seals = Some s \<Longrightarrow> seals_wf blake2s s" and "\<And>a b. ptr_eq a b \<Longrightarrow> a = b"
  shows "(case state_commit_sealed blake2s ptr_eq db parent (map to_diff outs) seals of
      (Inl e, db', _) \<Rightarrow> (Err (StateFailure e), db') | (Inr root, db', _) \<Rightarrow> (Ok (outs, root), db')) = publish_outputs blake2s db parent (Ok outs)"
proof -
  obtain r seals' where p: "state_prepare_sealed blake2s ptr_eq db parent (map to_diff outs) seals = (r, seals')" by force
  then have "state_prepare blake2s db parent (map to_diff outs) = r" 
    using state_prepare_sealed_eq [OF assms, of seals ptr_eq db parent "map to_diff outs"] by simp
  then show ?thesis by (cases r) (simp_all add: state_commit_sealed_def publish_outputs_def state_commit_def p)
qed

lemma parallel_serial:
  assumes ok: "state_ok blake2s db" and ptr: "\<And>a b. ptr_eq a b \<Longrightarrow> a = b"
    and frame: "ep_contracts policy \<longrightarrow> contract_frame blake2s execute_contract" and workers: "0 < workers" "workers \<le> MAX_PAYMENT_WORKERS"
  shows "execute_parallel_with_acceleration blake2s ed execute_contract ptr_eq env db txs parent ctx policy workers acceleration
      = execute_serial blake2s ed execute_contract db txs parent ctx policy
    \<or> ep_contracts policy \<and> execute_parallel_with_acceleration blake2s ed execute_contract ptr_eq env db txs parent ctx policy workers acceleration
      = (Err NativeUnavailable, db)"
proof (cases "workers = 1 \<or> length txs < 2 \<or> ms_root db \<noteq> parent")
  case True
  then show ?thesis using workers by (auto simp: execute_parallel_with_acceleration_def execute_serial_def)
next
  case False
  let ?acc = "accelerated blake2s ed execute_contract env db txs ctx policy workers acceleration"
  show ?thesis
  proof (cases ?acc)
    case (Inl e)
    then show ?thesis
      using False workers accelerated_native [OF _ workers(1), of policy blake2s ed execute_contract env db txs ctx acceleration]
      by (cases e) (auto simp: execute_parallel_with_acceleration_def)
  next
    case (Inr r)
    obtain outs seals where r: "r = (outs, seals)" by (cases r)
    note serial = accelerated_serial [OF ok frame Inr [unfolded r]]
    have "(case state_commit_sealed blake2s ptr_eq db parent (map to_diff outs) seals of
        (Inl e, db', _) \<Rightarrow> (Err (StateFailure e), db') | (Inr root, db', _) \<Rightarrow> (Ok (outs, root), db')) = publish_outputs blake2s db parent (Ok outs)"
      using serial(2) ptr by (rule publish_sealed)
    then show ?thesis
      using False workers Inr execute_serial_outputs [OF _ serial(1), of parent] by (simp add: execute_parallel_with_acceleration_def r publish_outputs_def)
  qed
qed

end
