(* ===== verification/Astro_Examples.thy ===== *)
theory Astro_Examples
  imports Astro_Samples Astro_Mempool Astro_Fold_Proof
begin

text \<open>
  A ledger with one funded account and the payments it sends: the inputs on which the properties of the executors
  are evaluated.
\<close>

definition pay_sender :: address where "pay_sender = address_from_public_key sample_hash 7"

definition pay_tx :: "u64 \<Rightarrow> address \<Rightarrow> transaction" where
  "pay_tx nonce recipient = \<lparr>tx_version = TRANSACTION_VERSION, tx_expires_at = 9, tx_lane = Payments, tx_resource_prices = PAYMENT_PRICES,
     tx_chain_id = 1, tx_sender = pay_sender, tx_nonce = nonce, tx_access_list = [account_key pay_sender, account_key recipient],
     tx_resource_limit = \<lparr>compute = 1, memory = 32, io = 4, bandwidth = 1000\<rparr>,
     tx_payload = payment_to_bytes \<lparr>pay_public_key = 7, pay_recipient = recipient, pay_amount = 3\<rparr>, tx_signature = 1\<rparr>"

definition pay_state :: in_memory_state where
  "pay_state = state_of sample_hash [(account_key pay_sender, encode_account \<lparr>acc_nonce = 0, acc_balance = 100\<rparr>)]"

definition pay_ctx :: validation_context where
  "pay_ctx = \<lparr>vc_chain_id = 1, vc_next_height = 2, vc_max_transaction_bytes = 2000\<rparr>"

definition pay_cap :: resources where "pay_cap = \<lparr>compute = 100, memory = 1000, io = 100, bandwidth = 10000\<rparr>"


lemma pay_sender_eq: "pay_sender = 81"
  by (simp add: pay_sender_def address_from_public_key_def domain_hash_def domain_preimage_def sample_hash_def DOMAIN_ACCOUNT_ADDRESS_def)

lemma pay_decode: "r \<noteq> 0 \<Longrightarrow> payment_decode (tx_payload (pay_tx n r)) = Ok \<lparr>pay_public_key = 7, pay_recipient = r, pay_amount = 3\<rparr>"
  by (simp add: pay_tx_def payment_codec)

lemma pay_len: "encoded_len (pay_tx n r) = Some 379"
  by (simp add: encoded_len_def pay_tx_def prefix_len_def checked_add_usize_def usize_limit_def account_key_def payment_to_bytes_def PAYMENT_TAG_def)

lemma pay_snapshot: "read_account (state_snapshot pay_state) pay_sender = Ok (Some \<lparr>acc_nonce = 0, acc_balance = 100\<rparr>)"
  by (simp add: read_account_def state_snapshot_def pay_state_def tree_get_from_map)

lemma pay_snapshot_other: "r \<noteq> pay_sender \<Longrightarrow> read_account (state_snapshot pay_state) r = Ok None"
  by (simp add: read_account_def state_snapshot_def pay_state_def tree_get_from_map)

lemma pay_valid:
  "signed_validate sample_hash sample_ed \<lparr>sv_accounts = [(pay_sender, \<lparr>ra_state = \<lparr>acc_nonce = 0, acc_balance = 100\<rparr>, ra_public_key = 7\<rparr>)],
     sv_resource_limits = pay_cap, sv_resource_prices = PAYMENT_PRICES\<rparr> (pay_tx 0 5) pay_ctx = Ok (validated sample_hash (pay_tx 0 5))"
proof -
  have d: "payment_decode (tx_payload (pay_tx 0 5)) = Ok \<lparr>pay_public_key = 7, pay_recipient = 5, pay_amount = 3\<rparr>" by (rule pay_decode) simp
  have shape: "tx_validate_shape (pay_tx 0 5) 2000 = Ok ()"
    by (simp add: tx_validate_shape_def pay_len) (simp add: pay_tx_def MAX_LIST_LEN_def MAX_STATE_KEY_LEN_def MAX_PAYLOAD_def account_key_def payment_to_bytes_def PAYMENT_TAG_def)
  have cost: "checked_cost (tx_resource_limit (pay_tx 0 5)) PAYMENT_PRICES = Some 1"
    by (simp add: pay_tx_def PAYMENT_PRICES_def checked_cost_def checked_mul_def checked_add_def)
  show ?thesis
    unfolding signed_validate_def payload_public_key_def d
    by (simp add: shape cost pay_ctx_def) (simp add: pay_tx_def pay_sender_def pay_cap_def fits_in_def sample_ed_def ed25519_verify_def)
qed


definition pay_output :: transaction_output where
  "pay_output = (let d = payment_diff (pay_tx 0 5) \<lparr>pay_public_key = 7, pay_recipient = 5, pay_amount = 3\<rparr>
      \<lparr>acc_nonce = 1, acc_balance = 96\<rparr> (Some \<lparr>acc_nonce = 0, acc_balance = 3\<rparr>) in
    \<lparr>to_diff = d,
     to_receipt = \<lparr>rc_transaction = compute_tx_id sample_hash (pay_tx 0 5), rc_succeeded = True,
       rc_resources = \<lparr>compute = 1, memory = 32, io = 4, bandwidth = 379\<rparr>, rc_output_root = the (diff_commitment sample_hash d)\<rparr>,
     to_observed_lease = lease_new (map (\<lambda>key. \<lparr>ar_key = key, ar_mode = WriteMode\<rparr>) [account_key pay_sender, account_key 5])\<rparr>)"

lemma pay_executes:
  "payment_execute_all sample_hash sample_ed (payment_session_new (state_snapshot pay_state) pay_ctx pay_cap) [pay_tx 0 5] = Ok [pay_output]"
proof -
  let ?s = "payment_session_new (state_snapshot pay_state) pay_ctx pay_cap"
  have d: "payment_decode (tx_payload (pay_tx 0 5)) = Ok \<lparr>pay_public_key = 7, pay_recipient = 5, pay_amount = 3\<rparr>" by (rule pay_decode) simp
  have sel: "tx_sender (pay_tx 0 5) = pay_sender" "tx_access_list (pay_tx 0 5) = [account_key pay_sender, account_key 5]"
    "tx_resource_limit (pay_tx 0 5) = \<lparr>compute = 1, memory = 32, io = 4, bandwidth = 1000\<rparr>" by (simp_all add: pay_tx_def)
  have acc: "session_account ?s pay_sender = Ok (Some \<lparr>acc_nonce = 0, acc_balance = 100\<rparr>)" "session_account ?s 5 = Ok None"
    using pay_snapshot_other [of 5] by (simp_all add: session_account_def payment_session_new_def pay_snapshot) (simp add: pay_sender_eq)
  have res: "payment_resources (pay_tx 0 5) = Ok \<lparr>compute = 1, memory = 32, io = 4, bandwidth = 379\<rparr>"
    by (simp add: payment_resources_def estimate_encoded_len_def pay_len)
  have cost: "checked_cost \<lparr>compute = 1, memory = 32, io = 4, bandwidth = b\<rparr> PAYMENT_PRICES = Some 1" for b
    by (simp add: PAYMENT_PRICES_def checked_cost_def checked_mul_def checked_add_def)
  have checks: "payment_checks sample_hash sample_ed ?s (pay_tx 0 5) \<lparr>pay_public_key = 7, pay_recipient = 5, pay_amount = 3\<rparr> \<lparr>acc_nonce = 0, acc_balance = 100\<rparr>
      = Ok (validated sample_hash (pay_tx 0 5), \<lparr>compute = 1, memory = 32, io = 4, bandwidth = 379\<rparr>, \<lparr>compute = 1, memory = 32, io = 4, bandwidth = 379\<rparr>, 1)"
    by (simp add: payment_checks_def sel res cost payment_session_new_def pay_valid [unfolded pay_cap_def] resources_checked_add_def resources_zero_def checked_add_def fits_in_def pay_cap_def)
  have accs: "payment_accounts ?s (pay_tx 0 5) \<lparr>pay_public_key = 7, pay_recipient = 5, pay_amount = 3\<rparr> \<lparr>acc_nonce = 0, acc_balance = 100\<rparr> 1
      = Ok (\<lparr>acc_nonce = 1, acc_balance = 96\<rparr>, Some \<lparr>acc_nonce = 0, acc_balance = 3\<rparr>)"
    by (simp add: payment_accounts_def sel acc checked_add_def checked_sub_def pay_sender_eq)
  show ?thesis
    by (simp add: payment_execute_def d sel acc checks accs pay_output_def Let_def validated_def)
qed

section \<open>The payment is committed\<close>

lemma pay_map_bounded:
  "list_all (\<lambda>(k, v). length k \<le> 100 \<and> length v \<le> 100) m \<Longrightarrow> bt_ok m \<Longrightarrow> length m \<le> 10 \<Longrightarrow> map_bounded m"
proof -
  assume m: "list_all (\<lambda>(k, v). length k \<le> 100 \<and> length v \<le> 100) m" "bt_ok m" "length m \<le> 10"
  have "map_size m \<le> SNAPSHOT_HEADER_BYTES + 216 * length m"
    using m(1) by (induction m) (auto simp: map_size_def entry_size_def)
  then show ?thesis
    using m by (auto simp: map_bounded_def entry_bounded_def list_all_iff MAX_STATE_ENTRIES_def MAX_STATE_KEY_BYTES_def
      MAX_STATE_VALUE_BYTES_def MAX_SNAPSHOT_BYTES_def SNAPSHOT_HEADER_BYTES_def)
qed

lemma pay_keys: "length (account_key a) \<le> 100" "length (encode_account s) \<le> 100"
  by (simp_all add: account_key_def encode_account_def encode_u64_def)

lemma pay_state_ok: "state_ok sample_hash pay_state"
  unfolding pay_state_def by (intro state_ok_of pay_map_bounded) (simp_all add: pay_keys)

lemma pay_changes: "set (sd_changes (to_diff pay_output)) = {Put (account_key pay_sender) (encode_account \<lparr>acc_nonce = 1, acc_balance = 96\<rparr>),
    Put (account_key 5) (encode_account \<lparr>acc_nonce = 0, acc_balance = 3\<rparr>)}"
  by (simp add: pay_output_def payment_diff_def sort_canonical_def diff_put_def diff_new_def Let_def pay_tx_def insert_commute)

lemma pay_changes_fit:
  "list_all (\<lambda>(k, v). length k \<le> 100 \<and> length v \<le> 100) m \<Longrightarrow> bt_ok m \<Longrightarrow> length m + length cs \<le> 10
   \<Longrightarrow> \<forall>c \<in> set cs. \<exists>k v. c = Put k v \<and> length k \<le> 100 \<and> length v \<le> 100 \<Longrightarrow> changes_fit m cs"
proof (induction cs arbitrary: m)
  case (Cons c cs)
  then obtain k v where c: "c = Put k v" "length k \<le> 100" "length v \<le> 100" by auto
  let ?m = "bt_insert k v m"
  have "list_all (\<lambda>(k, v). length k \<le> 100 \<and> length v \<le> 100) ?m" "bt_ok ?m" "length ?m + length cs \<le> 10"
    using Cons.prems c length_bt_insert [of m k v] by (auto simp: list_all_iff set_bt_insert)
  with Cons.IH [of ?m] Cons.prems(4) c pay_map_bounded [of ?m] show ?case by (simp add: MAX_STATE_KEY_BYTES_def)
qed simp

lemma pay_commits:
  "\<exists>db'. execute_payments sample_hash sample_ed pay_state [pay_tx 0 5] (ms_root pay_state) pay_ctx pay_cap = (Ok ([pay_output], ms_root db'), db')"
proof -
  let ?m = "[(account_key pay_sender, encode_account \<lparr>acc_nonce = 0, acc_balance = 100\<rparr>)]"
  have "length (sd_changes (to_diff pay_output)) = 2"
    by (simp add: pay_output_def payment_diff_def sort_canonical_def diff_put_def diff_new_def Let_def)
  then have fit: "changes_fit ?m (all_changes [to_diff pay_output])"
    by (intro pay_changes_fit) (auto simp: pay_keys pay_changes)
  have "map_bounded ?m" by (intro pay_map_bounded) (simp_all add: pay_keys)
  with fit show ?thesis
    unfolding execute_payments_def pay_executes by (simp add: state_commit_def) (simp add: pay_state_def state_prepare_stage stage_iff)
qed

end
