(* ===== verification/Astro_Store_Crash.thy ===== *)
theory Astro_Store_Crash
  imports Astro_Store "HOL-Library.Sublist"
begin

text \<open>
  Runs of the file-backed database of \<open>Astro_Store\<close> (state: persistent.rs) with failing system calls, killed processes and power
  losses. The invariant \<open>directory_ok\<close> relates every entry that the published name may have after a power loss to a version
  of the state; it is kept by every operation, so a reopened database holds a version that was published and at least all that
  was confirmed.
\<close>

section \<open>Publication survives crashes\<close>

text \<open>Everything works: the database opens, or a new one is created.\<close>

definition publish_fine :: "publish_env \<Rightarrow> bool" where
  "publish_fine env \<longleftrightarrow> pe_remove env \<and> pe_create env \<and> pe_write env = None \<and> pe_sync env \<and> pe_rename env \<and> pe_sync_parent env"

definition open_fine :: "open_env \<Rightarrow> bool" where
  "open_fine env \<longleftrightarrow> oe_canonical env \<and> \<not> oe_symlink env \<and> oe_lock_file env \<and> oe_lock env = LockAcquired \<and> oe_open env \<and> oe_read env
     \<and> publish_fine (oe_publish env)"

text \<open>A commit, with or without the root that the caller expects.\<close>

definition commit_step ::
  "(byte list \<Rightarrow> hash256) \<Rightarrow> publish_env \<Rightarrow> file_state \<Rightarrow> hash256 \<Rightarrow> state_diff list \<Rightarrow> hash256 option \<Rightarrow> disk
   \<Rightarrow> (state_error + hash256) \<times> file_state \<times> disk" where
  "commit_step blake2s env db parent diffs expected dk =
     (case expected of
        None \<Rightarrow> file_commit blake2s env db parent diffs dk
      | Some root \<Rightarrow> file_commit_verified blake2s env db parent diffs root dk)"

text \<open>
  The \<open>i\<close>-th of the entries that the published name may have after a power loss, counted from the visible one. The
  bytes of a file that was not synchronized are arbitrary, and so is the staging file; what a
  restarted machine reads is on the medium.
\<close>

definition entry_survives :: "disk_file option \<Rightarrow> disk_file option \<Rightarrow> bool" where
  "entry_survives e e' =
     (case (e, e') of
        (None, None) \<Rightarrow> True
      | (Some f, Some f') \<Rightarrow> (df_synced f \<longrightarrow> df_bytes f' = df_bytes f) \<and> df_synced f'
      | _ \<Rightarrow> False)"

definition power_loss :: "nat \<Rightarrow> disk \<Rightarrow> disk \<Rightarrow> bool" where
  "power_loss i dk dk' \<longleftrightarrow>
     (let entries = dk_published dk # dk_unsynced dk in
      i < length entries \<and> entry_survives (entries ! i) (dk_published dk') \<and> dk_unsynced dk' = [])"

text \<open>
  Runs of the database, from a directory without one. A process opens it or fails to, commits may fail at every system call, a
  process may be killed, and the machine may lose power. A process that stops inside an operation leaves the directory as the same operation
  leaves it when it fails there, so it is that operation and then the kill or the power loss. The run records histories
  of diffs: \<open>c\<close> those of the last commit that returned success and all before it, \<open>h\<close> those of the published
  version, and \<open>alts\<close> those of the versions that were published when a directory synchronization failed
  after them, since the last one that succeeded. A power loss with the \<open>i\<close>-th entry continues with the history of that version.
\<close>

inductive file_run ::
  "(byte list \<Rightarrow> hash256) \<Rightarrow> state_diff list \<Rightarrow> state_diff list \<Rightarrow> state_diff list list \<Rightarrow> file_state option \<Rightarrow> disk \<Rightarrow> bool"
  for blake2s where
  nothing: "dk_published dk = None \<Longrightarrow> dk_unsynced dk = [] \<Longrightarrow> file_run blake2s [] [] [] None dk"
| opened: "file_run blake2s c h alts None dk \<Longrightarrow> dk_published dk \<noteq> None \<Longrightarrow> file_open blake2s env dk = (Ok db, dk')
    \<Longrightarrow> file_run blake2s c h alts (Some db) dk'"
| created: "file_run blake2s c h alts None dk \<Longrightarrow> dk_published dk = None \<Longrightarrow> file_open blake2s env dk = (Ok db, dk')
    \<Longrightarrow> file_run blake2s c h [] (Some db) dk'"
| half_created: "file_run blake2s c h alts None dk \<Longrightarrow> file_open blake2s env dk = (Err StateDurabilityUnknown, dk')
    \<Longrightarrow> file_run blake2s c h (h # alts) None dk'"
| not_opened: "file_run blake2s c h alts None dk \<Longrightarrow> file_open blake2s env dk = (Err e, dk') \<Longrightarrow> e \<noteq> StateDurabilityUnknown
    \<Longrightarrow> file_run blake2s c h alts None dk'"
| committed: "file_run blake2s c h alts (Some db) dk \<Longrightarrow> commit_step blake2s env db parent diffs expected dk = (Ok root, db', dk')
    \<Longrightarrow> file_run blake2s (h @ diffs) (h @ diffs) [] (Some db') dk'"
| uncertain: "file_run blake2s c h alts (Some db) dk
    \<Longrightarrow> commit_step blake2s env db parent diffs expected dk = (Err StateDurabilityUnknown, db', dk') \<Longrightarrow> \<not> fs_recovery_required db
    \<Longrightarrow> file_run blake2s c (h @ diffs) (h # alts) (Some db') dk'"
| refused: "file_run blake2s c h alts (Some db) dk \<Longrightarrow> commit_step blake2s env db parent diffs expected dk = (Err e, db', dk')
    \<Longrightarrow> e \<noteq> StateDurabilityUnknown \<or> fs_recovery_required db \<Longrightarrow> file_run blake2s c h alts (Some db') dk'"
| killed: "file_run blake2s c h alts db dk \<Longrightarrow> file_run blake2s c h alts None (dk\<lparr>dk_pending := pending\<rparr>)"
| lost_power: "file_run blake2s c h alts db dk \<Longrightarrow> i < length (h # alts) \<Longrightarrow> power_loss i dk dk'
    \<Longrightarrow> file_run blake2s c ((h # alts) ! i) [] None dk'"

subsection \<open>What one publication does\<close>

text \<open>The file of a state, synchronized.\<close>

definition snapshot_file :: "in_memory_state \<Rightarrow> disk_file" where
  "snapshot_file s = \<lparr>df_bytes = export_snapshot s, df_synced = True\<rparr>"

lemma publish_cases:
  assumes "publish env db st dk = (out, db', dk')"
  obtains (stored) "out = Ok ()" "db' = db\<lparr>fs_state := st\<rparr>" "dk_published dk' = Some (snapshot_file st)" "dk_unsynced dk' = []"
  | (unknown) "out = Err StateDurabilityUnknown" "\<not> fs_recovery_required db" "fs_state db' = st" "fs_recovery_required db'"
      "dk_published dk' = Some (snapshot_file st)" "dk_unsynced dk' = dk_published dk # dk_unsynced dk"
  | (failed) e where "out = Err e" "e = StateDurabilityUnknown \<longrightarrow> fs_recovery_required db" "db' = db"
      "dk_published dk' = dk_published dk" "dk_unsynced dk' = dk_unsynced dk"
  using assms
  by (auto simp: publish_def publish_file_def remove_pending_def rename_pending_def sync_parent_def snapshot_file_def Let_def
      split: if_splits option.splits)

lemma publish_fine_done:
  "publish_fine env \<Longrightarrow> \<not> fs_recovery_required db \<Longrightarrow> \<exists>dk'. publish env db st dk = (Ok (), db\<lparr>fs_state := st\<rparr>, dk')"
  by (simp add: publish_fine_def publish_def publish_file_def Let_def)

lemma state_ok_export:
  assumes "state_ok blake2s s"
  shows "decode_snapshot blake2s (take (MAX_SNAPSHOT_BYTES + 1) (export_snapshot s)) = Ok s"
proof -
  obtain data where data: "map_bounded data" "s = state_of blake2s data" using assms by (auto simp: state_ok_def)
  then have "length (export_snapshot s) \<le> MAX_SNAPSHOT_BYTES" by (simp add: length_export map_boundedD(3))
  then show ?thesis using decode_snapshot_export [OF data(1), of blake2s] data(2) by simp
qed

lemma commit_step_cases:
  assumes "commit_step blake2s env db parent diffs expected dk = r"
  obtains "file_commit blake2s env db parent diffs dk = r" | "r = (Err RootMismatch, db, dk)"
  using assms by (auto simp: commit_step_def file_commit_def file_commit_verified_def split: option.splits sum.splits if_splits)

subsection \<open>The directory follows the histories\<close>

text \<open>An entry of the published name holds the version of a history: a synchronized snapshot, or no file for the empty history.\<close>

definition entry_holds :: "(byte list \<Rightarrow> hash256) \<Rightarrow> state_diff list \<Rightarrow> disk_file option \<Rightarrow> bool" where
  "entry_holds blake2s h e =
     (case e of
        None \<Rightarrow> h = []
      | Some f \<Rightarrow> \<exists>s. state_ok blake2s s \<and> state_map s = fold apply_to h [] \<and> f = snapshot_file s)"

definition holds :: "(byte list \<Rightarrow> hash256) \<Rightarrow> state_diff list \<Rightarrow> in_memory_state \<Rightarrow> bool" where
  "holds blake2s h s \<longleftrightarrow> state_ok blake2s s \<and> state_map s = fold apply_to h []"

definition directory_ok ::
  "(byte list \<Rightarrow> hash256) \<Rightarrow> state_diff list \<Rightarrow> state_diff list \<Rightarrow> state_diff list list \<Rightarrow> disk \<Rightarrow> bool" where
  "directory_ok blake2s c h alts dk \<longleftrightarrow>
     list_all2 (entry_holds blake2s) (h # alts) (dk_published dk # dk_unsynced dk)
     \<and> list_all (\<lambda>h'. prefix c h' \<and> prefix h' h) (h # alts)"

lemma holds_new: "holds blake2s [] (state_new blake2s)"
  by (simp add: holds_def state_new_of state_ok_of)

lemma entry_holds_snapshot: "holds blake2s h s \<Longrightarrow> entry_holds blake2s h (Some (snapshot_file s))"
  by (auto simp: entry_holds_def holds_def)

lemma directory_ok_cong:
  "directory_ok blake2s c h alts dk \<Longrightarrow> dk_published dk' = dk_published dk \<Longrightarrow> dk_unsynced dk' = dk_unsynced dk
   \<Longrightarrow> directory_ok blake2s c h alts dk'"
  by (simp add: directory_ok_def)

lemma directory_ok_push:
  assumes "directory_ok blake2s c h alts dk" and "holds blake2s (h @ diffs) s"
    and "dk_published dk' = Some (snapshot_file s)" "dk_unsynced dk' = dk_published dk # dk_unsynced dk"
  shows "directory_ok blake2s c (h @ diffs) (h # alts) dk'"
  using assms entry_holds_snapshot [OF assms(2)] unfolding directory_ok_def list_all_iff by auto

lemma directory_ok_settled:
  assumes "holds blake2s h s" and "dk_published dk' = Some (snapshot_file s)" "dk_unsynced dk' = []" and "prefix c h"
  shows "directory_ok blake2s c h [] dk'"
  using assms entry_holds_snapshot [OF assms(1)] by (simp add: directory_ok_def)

lemma entry_survives_holds: "entry_holds blake2s h e \<Longrightarrow> entry_survives e e' \<Longrightarrow> entry_holds blake2s h e'"
  by (cases e; cases e') (auto simp: entry_holds_def entry_survives_def snapshot_file_def)

lemma power_loss_ok:
  assumes ok: "directory_ok blake2s c h alts dk" and lost: "power_loss i dk dk'" and i: "i < length (h # alts)"
  shows "directory_ok blake2s c ((h # alts) ! i) [] dk'"
proof -
  have "entry_holds blake2s ((h # alts) ! i) ((dk_published dk # dk_unsynced dk) ! i)"
    using list_all2_nthD [OF conjunct1 [OF ok [unfolded directory_ok_def]] i] .
  moreover have "entry_survives ((dk_published dk # dk_unsynced dk) ! i) (dk_published dk')" "dk_unsynced dk' = []"
    using lost by (simp_all add: power_loss_def Let_def)
  ultimately have "entry_holds blake2s ((h # alts) ! i) (dk_published dk')" "dk_unsynced dk' = []"
    by (simp_all add: entry_survives_holds)
  moreover have "prefix c ((h # alts) ! i)"
    using ok nth_mem [OF i] unfolding directory_ok_def list_all_iff by blast
  ultimately show ?thesis by (simp add: directory_ok_def)
qed

lemma file_open_cases:
  assumes ok: "directory_ok blake2s c h alts dk" and "file_open blake2s env dk = (out, dk')"
  obtains (found) db where "out = Ok db" "dk' = dk" "dk_published dk \<noteq> None" "holds blake2s h (fs_state db)"
  | (fresh) db where "out = Ok db" "dk_published dk = None" "holds blake2s h (fs_state db)" "directory_ok blake2s c h [] dk'"
  | (half) "out = Err StateDurabilityUnknown" "directory_ok blake2s c h (h # alts) dk'"
  | (failed) e where "out = Err e" "e \<noteq> StateDurabilityUnknown" "directory_ok blake2s c h alts dk'"
proof (cases "dk_published dk")
  case (Some f)
  then obtain s where s: "state_ok blake2s s" "state_map s = fold apply_to h []" "f = snapshot_file s"
    using ok by (auto simp: directory_ok_def entry_holds_def)
  have "out = Ok \<lparr>fs_state = s, fs_recovery_required = False\<rparr> \<and> dk' = dk \<or> (out = Err StateIo \<or> out = Err StateLocked) \<and> dk' = dk"
    using assms(2) Some s(3) state_ok_export [OF s(1)]
    by (auto simp: file_open_def snapshot_file_def split: if_splits lock_result.splits)
  then show thesis using that(1) [of "\<lparr>fs_state = s, fs_recovery_required = False\<rparr>"] that(4) ok Some s by (auto simp: holds_def)
next
  case None
  let ?db = "\<lparr>fs_state = state_new blake2s, fs_recovery_required = False\<rparr>"
  have h: "h = []" "c = []" using ok None by (auto simp: directory_ok_def entry_holds_def)
  obtain o1 db1 dk1 where p: "publish (oe_publish env) ?db (state_new blake2s) dk = (o1, db1, dk1)"
    by (cases "publish (oe_publish env) ?db (state_new blake2s) dk")
  have res: "(out = Err StateIo \<or> out = Err StateLocked) \<and> dk' = dk \<or> dk' = dk1 \<and> out = (case o1 of Inl e \<Rightarrow> Err e | Inr _ \<Rightarrow> Ok db1)"
    using assms(2) None p by (auto simp: file_open_def split: if_splits lock_result.splits sum.splits)
  show thesis
  proof (cases "(out = Err StateIo \<or> out = Err StateLocked) \<and> dk' = dk")
    case True
    then show thesis using that(4) ok by auto
  next
    case False
    with res have res: "dk' = dk1" "out = (case o1 of Inl e \<Rightarrow> Err e | Inr _ \<Rightarrow> Ok db1)" by auto
    from p show thesis
    proof (cases rule: publish_cases)
      case stored
      then show thesis
        using that(2) [of db1] res None holds_new h directory_ok_settled [OF holds_new, of dk' blake2s c] by simp
    next
      case unknown
      then show thesis using that(3) res h directory_ok_push [OF ok, of "[]" "state_new blake2s" dk'] holds_new by simp
    next
      case (failed e)
      then show thesis using that(4) [of e] res directory_ok_cong [OF ok, of dk'] by simp
    qed
  qed
qed

lemma file_commit_outcome:
  assumes mem: "holds blake2s h (fs_state db)" and ok: "directory_ok blake2s c h alts dk"
    and run: "file_commit blake2s env db parent diffs dk = (out, db', dk')"
  obtains (stored) root where "out = Ok root" "holds blake2s (h @ diffs) (fs_state db')" "directory_ok blake2s (h @ diffs) (h @ diffs) [] dk'"
  | (unknown) "out = Err StateDurabilityUnknown" "\<not> fs_recovery_required db" "holds blake2s (h @ diffs) (fs_state db')"
      "directory_ok blake2s c (h @ diffs) (h # alts) dk'"
  | (failed) e where "out = Err e" "e = StateDurabilityUnknown \<longrightarrow> fs_recovery_required db" "db' = db" "directory_ok blake2s c h alts dk'"
proof (cases "state_prepare blake2s (fs_state db) parent diffs")
  case (Inl e)
  have "e \<noteq> StateDurabilityUnknown"
  proof -
    obtain data where data: "map_bounded data" "fs_state db = state_of blake2s data"
      using mem by (auto simp: holds_def state_ok_def)
    then have "state_prepare blake2s (state_of blake2s data) parent diffs = Inl e" using Inl by simp
    then show ?thesis
      unfolding state_prepare_stage [OF data(1)] stage_iff [OF data(1)] by (auto split: if_splits)
  qed
  moreover have "out = Err e" "db' = db" "dk' = dk" using run Inl by (simp_all add: file_commit_def)
  ultimately show thesis using ok by (intro failed [of e]) simp_all
next
  case (Inr st)
  have next': "holds blake2s (h @ diffs) st"
    using state_prepare_ok [OF _ Inr] mem by (simp add: holds_def)
  obtain o1 db1 dk1 where p: "publish env db st dk = (o1, db1, dk1)" by (cases "publish env db st dk")
  have res: "db' = db1" "dk' = dk1" "out = (case o1 of Inl e \<Rightarrow> Err e | Inr _ \<Rightarrow> Ok (ms_root (fs_state db1)))"
    using run Inr p by (auto simp: file_commit_def split: sum.splits)
  from p show thesis
  proof (cases rule: publish_cases)
    case 1: stored
    show thesis
      by (rule stored [of "ms_root st"]) (use 1 res next' directory_ok_settled [OF next' _ _ prefix_order.refl, of dk'] in simp_all)
  next
    case 2: unknown
    show thesis by (rule unknown) (use 2 res next' directory_ok_push [OF ok next', of dk'] in simp_all)
  next
    case 3: (failed e)
    show thesis by (rule failed [of e]) (use 3 res directory_ok_cong [OF ok, of dk'] in simp_all)
  qed
qed

lemma commit_step_outcome:
  assumes mem: "holds blake2s h (fs_state db)" and ok: "directory_ok blake2s c h alts dk"
    and run: "commit_step blake2s env db parent diffs expected dk = (out, db', dk')"
  obtains (stored) root where "out = Ok root" "holds blake2s (h @ diffs) (fs_state db')" "directory_ok blake2s (h @ diffs) (h @ diffs) [] dk'"
  | (unknown) "out = Err StateDurabilityUnknown" "\<not> fs_recovery_required db" "holds blake2s (h @ diffs) (fs_state db')"
      "directory_ok blake2s c (h @ diffs) (h # alts) dk'"
  | (failed) e where "out = Err e" "e = StateDurabilityUnknown \<longrightarrow> fs_recovery_required db" "db' = db" "directory_ok blake2s c h alts dk'"
  using run
proof (cases rule: commit_step_cases)
  case 1
  from mem ok 1 show thesis by (rule file_commit_outcome) (fact stored unknown failed)+
next
  case 2
  with ok show thesis by (intro failed [of RootMismatch]) simp_all
qed

lemma file_run_ok:
  assumes "file_run blake2s c h alts db dk"
  shows "directory_ok blake2s c h alts dk \<and> (\<forall>d. db = Some d \<longrightarrow> holds blake2s h (fs_state d))"
  using assms
proof (induction rule: file_run.induct)
  case (nothing dk)
  then show ?case by (simp add: directory_ok_def entry_holds_def)
next
  case (opened c h alts dk env db dk')
  from conjunct1 [OF opened.IH] opened.hyps(3) show ?case
    by (cases rule: file_open_cases) (use opened.IH opened.hyps(2) in simp_all)
next
  case (created c h alts dk env db dk')
  from conjunct1 [OF created.IH] created.hyps(3) show ?case
    by (cases rule: file_open_cases) (use created.hyps(2) in simp_all)
next
  case (half_created c h alts dk env dk')
  from conjunct1 [OF half_created.IH] half_created.hyps(2) show ?case by (cases rule: file_open_cases) simp_all
next
  case (not_opened c h alts dk env e dk')
  from conjunct1 [OF not_opened.IH] not_opened.hyps(2) show ?case
    by (cases rule: file_open_cases) (use not_opened.hyps(3) in simp_all)
next
  case (committed c h alts db dk env parent diffs expected root db' dk')
  then have "holds blake2s h (fs_state db)" "directory_ok blake2s c h alts dk" by simp_all
  from this committed.hyps(2) show ?case by (cases rule: commit_step_outcome) simp_all
next
  case (uncertain c h alts db dk env parent diffs expected db' dk')
  then have "holds blake2s h (fs_state db)" "directory_ok blake2s c h alts dk" by simp_all
  from this uncertain.hyps(2) show ?case by (cases rule: commit_step_outcome) (use uncertain.hyps(3) in simp_all)
next
  case (refused c h alts db dk env parent diffs expected e db' dk')
  then have mem: "holds blake2s h (fs_state db)" "directory_ok blake2s c h alts dk" by simp_all
  from this refused.hyps(2) show ?case by (cases rule: commit_step_outcome) (use mem refused.hyps(3) in auto)
next
  case (killed c h alts db dk pending)
  then show ?case by (simp add: directory_ok_cong [of blake2s c h alts dk])
next
  case (lost_power c h alts db dk i dk')
  from power_loss_ok [OF conjunct1 [OF lost_power.IH] lost_power.hyps(3,2)] show ?case by simp
qed

lemma file_open_fine:
  assumes ok: "directory_ok blake2s c h alts dk" and fine: "open_fine env"
  shows "\<exists>d dk'. file_open blake2s env dk = (Ok d, dk') \<and> holds blake2s h (fs_state d)"
proof -
  obtain out dk' where run: "file_open blake2s env dk = (out, dk')" by (cases "file_open blake2s env dk")
  have "\<exists>d. out = Ok d"
  proof (cases "dk_published dk")
    case None
    obtain dk1 where "publish (oe_publish env) \<lparr>fs_state = state_new blake2s, fs_recovery_required = False\<rparr> (state_new blake2s) dk
        = (Ok (), \<lparr>fs_state = state_new blake2s, fs_recovery_required = False\<rparr>, dk1)"
      using publish_fine_done [of "oe_publish env" "\<lparr>fs_state = state_new blake2s, fs_recovery_required = False\<rparr>" "state_new blake2s" dk] fine
      by (auto simp: open_fine_def)
    with None fine run show ?thesis by (auto simp: file_open_def open_fine_def)
  next
    case (Some f)
    then obtain s where "state_ok blake2s s" "f = snapshot_file s" using ok by (auto simp: directory_ok_def entry_holds_def)
    with Some fine run state_ok_export [of blake2s s] show ?thesis
      by (auto simp: file_open_def open_fine_def snapshot_file_def)
  qed
  then obtain d where out: "out = Ok d" ..
  from ok run have "holds blake2s h (fs_state d)" by (cases rule: file_open_cases) (simp_all add: out)
  with run out show ?thesis by blast
qed

end
