(* ===== verification/Astro_Trocto.thy ===== *)
theory Astro_Trocto
  imports Astro_BTree Astro_Types "HOL-Library.Monad_Syntax"
begin

text \<open>
  The reference semantics of the contract language Trocto (trocto-compiler: lib.rs, stateful.rs). Version one is a straight
  list of scalar instructions; version two is flat code with registers, locals, branches, state slots
  and events. A slice access out of bounds panics in Rust and is \<open>None\<close> here; the loop of version
  two is a partial function whose \<open>None\<close> is a run without end. The lemmas show that checked
  code never panics, ends for every amount of fuel, never spends more, writes only authorised slots, and keeps its
  types: a register of type \<open>bool\<close> holds 0 or 1.
\<close>

section \<open>Limits, errors and operators (lib.rs)\<close>

definition MAX_SOURCE_BYTES :: nat where "MAX_SOURCE_BYTES = 65536"
definition MAX_TOKENS :: nat where "MAX_TOKENS = 16384"
definition MAX_INSTRUCTIONS :: nat where "MAX_INSTRUCTIONS = 4096"
definition MAX_NESTING :: nat where "MAX_NESTING = 64"
definition MAX_LOCALS :: nat where "MAX_LOCALS = 1024"
definition MAX_IDENTIFIER_BYTES :: nat where "MAX_IDENTIFIER_BYTES = 64"
definition MAX_STATE_KEYS :: nat where "MAX_STATE_KEYS = 1024"
definition TROCTO_STATE_KEY_BYTES :: nat where "TROCTO_STATE_KEY_BYTES = 256"
definition MAX_EVENTS :: nat where "MAX_EVENTS = 256"

datatype contract_error = FuelExhausted | Overflow | DivisionByZero | AccessDenied | EventLimit | InvalidContext | Bounds

record scalar_execution =
  se_value :: u64
  se_fuel_used :: u64

datatype tr_operator = OpAdd | OpSubtract | OpMultiply | OpDivide | OpRemainder

fun operator_apply :: "tr_operator \<Rightarrow> u64 \<Rightarrow> u64 \<Rightarrow> contract_error + u64" where
  "operator_apply OpAdd l r = ok_or Overflow (checked_add l r)"
| "operator_apply OpSubtract l r = ok_or Overflow (checked_sub l r)"
| "operator_apply OpMultiply l r = ok_or Overflow (checked_mul l r)"
| "operator_apply OpDivide l r = (if r = 0 then Err DivisionByZero else Ok (l div r))"
| "operator_apply OpRemainder l r = (if r = 0 then Err DivisionByZero else Ok (l mod r))"

section \<open>Version one (lib.rs)\<close>

datatype tr_instruction = IConstant u64 | IInput | ICopy nat | IBinary tr_operator nat nat

text \<open>Slices: reading and writing an element that does not exist panics.\<close>

definition slot :: "'a list \<Rightarrow> nat \<Rightarrow> 'a option" where
  "slot xs i = (if i < length xs then Some (xs ! i) else None)"

definition put_slot :: "'a list \<Rightarrow> nat \<Rightarrow> 'a \<Rightarrow> 'a list option" where
  "put_slot xs i x = (if i < length xs then Some (xs[i := x]) else None)"

fun instruction_value :: "u64 \<Rightarrow> u64 list \<Rightarrow> tr_instruction \<Rightarrow> (contract_error + u64) option" where
  "instruction_value input vals (IConstant v) = Some (Ok v)"
| "instruction_value input vals IInput = Some (Ok input)"
| "instruction_value input vals (ICopy i) = do { v \<leftarrow> slot vals i; Some (Ok v) }"
| "instruction_value input vals (IBinary operator l r) = do { a \<leftarrow> slot vals l; b \<leftarrow> slot vals r; Some (operator_apply operator a b) }"

fun scalar_loop :: "u64 \<Rightarrow> u64 \<Rightarrow> tr_instruction list \<Rightarrow> u64 list \<Rightarrow> u64 \<Rightarrow> (contract_error + u64 list \<times> u64) option" where
  "scalar_loop input fuel [] vals used = Some (Ok (vals, used))"
| "scalar_loop input fuel (i # is) vals used =
     (if used \<ge> fuel then Some (Err FuelExhausted)
      else do {
        r \<leftarrow> instruction_value input vals i;
        (case r of Inl e \<Rightarrow> Some (Err e) | Inr v \<Rightarrow> scalar_loop input fuel is (vals @ [v]) (used + 1))
      })"

definition scalar_evaluate :: "tr_instruction list \<Rightarrow> nat \<Rightarrow> u64 \<Rightarrow> u64 \<Rightarrow> (contract_error + scalar_execution) option" where
  "scalar_evaluate instrs result input fuel = do {
     r \<leftarrow> scalar_loop input fuel instrs [] 0;
     (case r of
        Inl e \<Rightarrow> Some (Err e)
      | Inr (vals, used) \<Rightarrow> do { v \<leftarrow> slot vals result; Some (Ok \<lparr>se_value = v, se_fuel_used = used\<rparr>) })
   }"

section \<open>Version two: programs and contexts (stateful.rs)\<close>

record contract_context =
  cc_height :: u64
  cc_caller :: "u64 list"
  cc_keys :: "byte list list"
  cc_state :: "u64 option list"
  cc_access :: "bool list"

definition context_validate :: "contract_context \<Rightarrow> byte list list \<Rightarrow> contract_error + unit" where
  "context_validate c prefix =
     (let n = length (cc_keys c) in
      if n > MAX_STATE_KEYS \<or> length (cc_state c) \<noteq> n \<or> length (cc_access c) \<noteq> n
        \<or> take (length prefix) (cc_keys c) \<noteq> prefix
        \<or> list_ex (\<lambda>key. key = [] \<or> length key > TROCTO_STATE_KEY_BYTES) (cc_keys c)
        \<or> \<not> sorted_wrt (<) (drop (length prefix) (cc_keys c))
        \<or> card (set (cc_keys c)) \<noteq> n
      then Err InvalidContext else Ok ())"

record contract_execution_result =
  ce_value :: u64
  ce_fuel_used :: u64
  ce_state :: "u64 option list"
  ce_writes :: "bool list"
  ce_events :: "(u64 \<times> u64) list"

datatype tr_type = TU64 | TBool

datatype tr_binary = Arithmetic tr_operator | BEqual | BNotEqual | BLess | BLessEqual | BGreater | BGreaterEqual

fun binary_apply :: "tr_binary \<Rightarrow> u64 \<Rightarrow> u64 \<Rightarrow> contract_error + u64" where
  "binary_apply (Arithmetic operator) l r = operator_apply operator l r"
| "binary_apply BEqual l r = Ok (of_bool (l = r))"
| "binary_apply BNotEqual l r = Ok (of_bool (l \<noteq> r))"
| "binary_apply BLess l r = Ok (of_bool (l < r))"
| "binary_apply BLessEqual l r = Ok (of_bool (l \<le> r))"
| "binary_apply BGreater l r = Ok (of_bool (l > r))"
| "binary_apply BGreaterEqual l r = Ok (of_bool (l \<ge> r))"

datatype tr_step =
    SConstant nat u64
  | SInput nat
  | SLoad nat nat
  | SStore nat nat bool
  | SMove nat nat
  | SBinary nat tr_binary nat nat
  | SNot nat nat
  | SBranch nat nat nat
  | SJump nat
  | SReturn nat
  | SHeight nat
  | SCaller nat nat
  | SKeyCount nat
  | SKeyWord nat nat nat
  | SGetAt nat nat
  | SSetAt nat nat
  | SDeleteAt nat
  | SGet nat nat
  | SSet nat nat
  | SDelete nat
  | SEmit nat nat

fun charged :: "tr_step \<Rightarrow> bool" where
  "charged (SStore l s charge) = charge"
| "charged (SMove d s) = False"
| "charged (SReturn s) = False"
| "charged _ = True"

record checked_program =
  cp_instructions :: "tr_step list"
  cp_registers :: nat
  cp_locals :: nat
  cp_keys :: "byte list list"
  cp_context :: bool

section \<open>Version two: the evaluator (stateful.rs)\<close>

record tr_machine =
  tm_registers :: "u64 list"
  tm_locals :: "u64 list"
  tm_state :: "u64 option list"
  tm_writes :: "bool list"
  tm_events :: "(u64 \<times> u64) list"
  tm_used :: u64
  tm_pc :: nat

datatype tr_outcome = Running tr_machine | Returned contract_execution_result | Failed contract_error

definition set_register :: "tr_machine \<Rightarrow> nat \<Rightarrow> u64 \<Rightarrow> tr_outcome option" where
  "set_register m d v = do { rs \<leftarrow> put_slot (tm_registers m) d v; Some (Running (m\<lparr>tm_registers := rs, tm_pc := tm_pc m + 1\<rparr>)) }"

text \<open>A state slot gets a new value and is marked as written.\<close>

definition write_key :: "tr_machine \<Rightarrow> nat \<Rightarrow> u64 option \<Rightarrow> tr_outcome option" where
  "write_key m key v = do {
     st \<leftarrow> put_slot (tm_state m) key v;
     ws \<leftarrow> put_slot (tm_writes m) key True;
     Some (Running (m\<lparr>tm_state := st, tm_writes := ws, tm_pc := tm_pc m + 1\<rparr>)) }"

definition checked_slot :: "u64 \<Rightarrow> contract_context \<Rightarrow> (contract_error + nat) option" where
  "checked_slot index c =
     (if unat index \<ge> length (cc_keys c) then Some (Err Bounds)
      else do { a \<leftarrow> slot (cc_access c) (unat index); Some (if a then Ok (unat index) else Err AccessDenied) })"

text \<open>An operation on the slot that a register names.\<close>

definition at_slot :: "tr_machine \<Rightarrow> contract_context \<Rightarrow> nat \<Rightarrow> (nat \<Rightarrow> tr_outcome option) \<Rightarrow> tr_outcome option" where
  "at_slot m c key f = do {
     index \<leftarrow> slot (tm_registers m) key;
     r \<leftarrow> checked_slot index c;
     (case r of Inl e \<Rightarrow> Some (Failed e) | Inr k \<Rightarrow> f k) }"

text \<open>An operation on a static slot.\<close>

definition static_slot :: "contract_context \<Rightarrow> nat \<Rightarrow> tr_outcome option \<Rightarrow> tr_outcome option" where
  "static_slot c key f = do { a \<leftarrow> slot (cc_access c) key; if \<not> a then Some (Failed AccessDenied) else f }"

definition key_limb :: "contract_context \<Rightarrow> u64 \<Rightarrow> nat \<Rightarrow> (contract_error + u64) option" where
  "key_limb c index word =
     (if unat index \<ge> length (cc_keys c) then Some (Err Bounds)
      else if length (cc_keys c ! unat index) \<noteq> 32 then Some (Err Bounds)
      else if word * 8 + 8 \<le> 32 then Some (Ok (from_le_bytes (take 8 (drop (word * 8) (cc_keys c ! unat index))))) else None)"

fun step_exec :: "u64 \<Rightarrow> contract_context \<Rightarrow> tr_machine \<Rightarrow> tr_step \<Rightarrow> tr_outcome option" where
  "step_exec input c m (SConstant d v) = set_register m d v"
| "step_exec input c m (SInput d) = set_register m d input"
| "step_exec input c m (SLoad d l) = do { v \<leftarrow> slot (tm_locals m) l; set_register m d v }"
| "step_exec input c m (SStore l s charge) = do {
     v \<leftarrow> slot (tm_registers m) s;
     ls \<leftarrow> put_slot (tm_locals m) l v;
     Some (Running (m\<lparr>tm_locals := ls, tm_pc := tm_pc m + 1\<rparr>)) }"
| "step_exec input c m (SMove d s) = do { v \<leftarrow> slot (tm_registers m) s; set_register m d v }"
| "step_exec input c m (SBinary d operator l r) = do {
     a \<leftarrow> slot (tm_registers m) l;
     b \<leftarrow> slot (tm_registers m) r;
     (case binary_apply operator a b of Inl e \<Rightarrow> Some (Failed e) | Inr v \<Rightarrow> set_register m d v) }"
| "step_exec input c m (SNot d s) = do { v \<leftarrow> slot (tm_registers m) s; set_register m d (of_bool (v = 0)) }"
| "step_exec input c m (SBranch condition yes no) = do {
     v \<leftarrow> slot (tm_registers m) condition;
     Some (Running (m\<lparr>tm_pc := if v \<noteq> 0 then yes else no\<rparr>)) }"
| "step_exec input c m (SJump target) = Some (Running (m\<lparr>tm_pc := target\<rparr>))"
| "step_exec input c m (SReturn s) = do {
     v \<leftarrow> slot (tm_registers m) s;
     Some (Returned \<lparr>ce_value = v, ce_fuel_used = tm_used m, ce_state = tm_state m, ce_writes = tm_writes m, ce_events = tm_events m\<rparr>) }"
| "step_exec input c m (SHeight d) = set_register m d (cc_height c)"
| "step_exec input c m (SCaller d i) = do { v \<leftarrow> slot (cc_caller c) i; set_register m d v }"
| "step_exec input c m (SKeyCount d) = set_register m d (of_nat (length (cc_keys c)))"
| "step_exec input c m (SKeyWord d key word) = do {
     index \<leftarrow> slot (tm_registers m) key;
     r \<leftarrow> key_limb c index word;
     (case r of Inl e \<Rightarrow> Some (Failed e) | Inr v \<Rightarrow> set_register m d v) }"
| "step_exec input c m (SGetAt d key) = at_slot m c key (\<lambda>k. do { v \<leftarrow> slot (tm_state m) k; set_register m d (case v of None \<Rightarrow> 0 | Some x \<Rightarrow> x) })"
| "step_exec input c m (SSetAt key s) = at_slot m c key (\<lambda>k. do { v \<leftarrow> slot (tm_registers m) s; write_key m k (Some v) })"
| "step_exec input c m (SDeleteAt key) = at_slot m c key (\<lambda>k. write_key m k None)"
| "step_exec input c m (SGet d key) = static_slot c key (do { v \<leftarrow> slot (tm_state m) key; set_register m d (case v of None \<Rightarrow> 0 | Some x \<Rightarrow> x) })"
| "step_exec input c m (SSet key s) = static_slot c key (do { v \<leftarrow> slot (tm_registers m) s; write_key m key (Some v) })"
| "step_exec input c m (SDelete key) = static_slot c key (write_key m key None)"
| "step_exec input c m (SEmit topic payload) =
     (if length (tm_events m) \<ge> MAX_EVENTS then Some (Failed EventLimit)
      else do {
        t \<leftarrow> slot (tm_registers m) topic;
        d \<leftarrow> slot (tm_registers m) payload;
        Some (Running (m\<lparr>tm_events := tm_events m @ [(t, d)], tm_pc := tm_pc m + 1\<rparr>)) })"

text \<open>One turn of the loop: fetch, charge, execute.\<close>

definition turn :: "checked_program \<Rightarrow> u64 \<Rightarrow> contract_context \<Rightarrow> u64 \<Rightarrow> tr_machine \<Rightarrow> tr_outcome option" where
  "turn p input c fuel m =
     (if tm_pc m \<ge> length (cp_instructions p) then Some (Failed InvalidContext)
      else
        let i = cp_instructions p ! tm_pc m in
        if charged i
        then if tm_used m \<ge> fuel then Some (Failed FuelExhausted) else step_exec input c (m\<lparr>tm_used := tm_used m + 1\<rparr>) i
        else step_exec input c m i)"

text \<open>
  The loop. \<open>interrupt\<close> answers the polls in order; the outer \<open>None\<close> is a run without end, an inner \<open>None\<close> a panic,
  and \<open>Ok None\<close> an interrupted evaluation.
\<close>

type_synonym evaluation = "(contract_error + contract_execution_result option) option"

partial_function (option) eval_loop ::
  "checked_program \<Rightarrow> u64 \<Rightarrow> contract_context \<Rightarrow> u64 \<Rightarrow> (nat \<Rightarrow> bool) \<Rightarrow> nat \<Rightarrow> nat \<Rightarrow> tr_machine \<Rightarrow> evaluation option" where
  "eval_loop p input c fuel interrupt polls dispatches m =
     (if dispatches = 0 \<and> interrupt polls then Some (Some (Ok None))
      else
        let polls' = (if dispatches = 0 then polls + 1 else polls) in
        (case turn p input c fuel m of
           None \<Rightarrow> Some None
         | Some (Failed e) \<Rightarrow> Some (Some (Err e))
         | Some (Returned r) \<Rightarrow> Some (Some (Ok (if interrupt polls' then None else Some r)))
         | Some (Running m') \<Rightarrow> eval_loop p input c fuel interrupt polls' ((dispatches + 1) mod 1024) m'))"

definition machine_start :: "checked_program \<Rightarrow> contract_context \<Rightarrow> tr_machine" where
  "machine_start p c = \<lparr>tm_registers = replicate (cp_registers p) 0, tm_locals = replicate (cp_locals p) 0, tm_state = cc_state c,
     tm_writes = replicate (length (cc_keys c)) False, tm_events = [], tm_used = 0, tm_pc = 0\<rparr>"

definition evaluate_with_interrupt ::
  "checked_program \<Rightarrow> u64 \<Rightarrow> contract_context \<Rightarrow> u64 \<Rightarrow> (nat \<Rightarrow> bool) \<Rightarrow> evaluation option" where
  "evaluate_with_interrupt p input c fuel interrupt =
     (case context_validate c (cp_keys p) of
        Inl e \<Rightarrow> Some (Some (Err e))
      | Inr _ \<Rightarrow> eval_loop p input c fuel interrupt 0 0 (machine_start p c))"

text \<open>\<open>expect\<close> panics on an interrupted evaluation.\<close>

definition evaluate_checked :: "checked_program \<Rightarrow> u64 \<Rightarrow> contract_context \<Rightarrow> u64 \<Rightarrow> (contract_error + contract_execution_result) option option" where
  "evaluate_checked p input c fuel =
     map_option (\<lambda>r. case r of None \<Rightarrow> None | Some (Inl e) \<Rightarrow> Some (Err e) | Some (Inr x) \<Rightarrow> map_option Ok x)
       (evaluate_with_interrupt p input c fuel (\<lambda>_. False))"

section \<open>Programs (lib.rs)\<close>

record tr_program =
  pg_instructions :: "tr_instruction list"
  pg_result :: nat
  pg_source_hash :: hash256
  pg_stateful :: "checked_program option"

definition state_keys :: "tr_program \<Rightarrow> byte list list" where
  "state_keys g = (case pg_stateful g of None \<Rightarrow> [] | Some p \<Rightarrow> cp_keys p)"

definition requires_context :: "tr_program \<Rightarrow> bool" where
  "requires_context g = (case pg_stateful g of None \<Rightarrow> False | Some p \<Rightarrow> cp_context p)"

definition instruction_count :: "tr_program \<Rightarrow> nat" where
  "instruction_count g = (case pg_stateful g of None \<Rightarrow> length (pg_instructions g) | Some p \<Rightarrow> length (cp_instructions p))"

definition context_default :: contract_context where
  "context_default = \<lparr>cc_height = 0, cc_caller = [0, 0, 0, 0], cc_keys = [], cc_state = [], cc_access = []\<rparr>"

definition program_evaluate :: "tr_program \<Rightarrow> u64 \<Rightarrow> u64 \<Rightarrow> (contract_error + scalar_execution) option option" where
  "program_evaluate g input fuel =
     (case pg_stateful g of
        Some p \<Rightarrow>
          if cp_context p then Some (Some (Err InvalidContext))
          else map_option (map_option (\<lambda>r. try_bind r (\<lambda>x. Ok \<lparr>se_value = ce_value x, se_fuel_used = ce_fuel_used x\<rparr>)))
            (evaluate_checked p input context_default fuel)
      | None \<Rightarrow> Some (scalar_evaluate (pg_instructions g) (pg_result g) input fuel))"

text \<open>The effects of a scalar call: the state as it was, no writes, no events.\<close>

definition scalar_effects :: "contract_context \<Rightarrow> scalar_execution \<Rightarrow> contract_execution_result" where
  "scalar_effects c x = \<lparr>ce_value = se_value x, ce_fuel_used = se_fuel_used x, ce_state = cc_state c,
     ce_writes = replicate (length (cc_keys c)) False, ce_events = []\<rparr>"

definition evaluate_contract :: "tr_program \<Rightarrow> u64 \<Rightarrow> contract_context \<Rightarrow> u64 \<Rightarrow> (contract_error + contract_execution_result) option option" where
  "evaluate_contract g input c fuel =
     (case pg_stateful g of
        Some p \<Rightarrow> evaluate_checked p input c fuel
      | None \<Rightarrow>
          (case context_validate c [] of
             Inl e \<Rightarrow> Some (Some (Err e))
           | Inr _ \<Rightarrow> map_option (map_option (\<lambda>r. try_bind r (\<lambda>x. Ok (scalar_effects c x)))) (program_evaluate g input fuel)))"

definition evaluate_contract_with_interrupt ::
  "tr_program \<Rightarrow> u64 \<Rightarrow> contract_context \<Rightarrow> u64 \<Rightarrow> (nat \<Rightarrow> bool) \<Rightarrow> evaluation option" where
  "evaluate_contract_with_interrupt g input c fuel interrupt =
     (case pg_stateful g of
        Some p \<Rightarrow> evaluate_with_interrupt p input c fuel interrupt
      | None \<Rightarrow>
          (case context_validate c [] of
             Inl e \<Rightarrow> Some (Some (Err e))
           | Inr _ \<Rightarrow>
               if interrupt 0 then Some (Some (Ok None))
               else map_option (map_option (\<lambda>r. try_bind r (\<lambda>x. Ok (if interrupt 1 then None else Some x)))) (evaluate_contract g input c fuel)))"

section \<open>Checked code\<close>

text \<open>
  Version one: an instruction refers to earlier vals. Version two: every register and local has one type, an
  instruction fits the types, state slots are static keys, and jumps stay inside the code.
\<close>

fun instruction_ok :: "nat \<Rightarrow> tr_instruction \<Rightarrow> bool" where
  "instruction_ok n (ICopy i) \<longleftrightarrow> i < n"
| "instruction_ok n (IBinary operator l r) \<longleftrightarrow> l < n \<and> r < n"
| "instruction_ok n _ \<longleftrightarrow> True"

definition scalar_ok :: "tr_instruction list \<Rightarrow> nat \<Rightarrow> bool" where
  "scalar_ok instrs result \<longleftrightarrow> (\<forall>i < length instrs. instruction_ok i (instrs ! i)) \<and> result < length instrs"

definition typed_at :: "tr_type list \<Rightarrow> nat \<Rightarrow> tr_type \<Rightarrow> bool" where
  "typed_at ts i t \<longleftrightarrow> i < length ts \<and> ts ! i = t"

fun step_ok :: "tr_type list \<Rightarrow> tr_type list \<Rightarrow> nat \<Rightarrow> nat \<Rightarrow> tr_step \<Rightarrow> bool" where
  "step_ok rt lt k n (SConstant d v) \<longleftrightarrow> typed_at rt d TU64 \<or> typed_at rt d TBool \<and> v \<le> 1"
| "step_ok rt lt k n (SInput d) \<longleftrightarrow> typed_at rt d TU64"
| "step_ok rt lt k n (SLoad d l) \<longleftrightarrow> (\<exists>t. typed_at rt d t \<and> typed_at lt l t)"
| "step_ok rt lt k n (SStore l s charge) \<longleftrightarrow> (\<exists>t. typed_at rt s t \<and> typed_at lt l t)"
| "step_ok rt lt k n (SMove d s) \<longleftrightarrow> (\<exists>t. typed_at rt d t \<and> typed_at rt s t)"
| "step_ok rt lt k n (SBinary d operator l r) \<longleftrightarrow>
     (case operator of
        Arithmetic a \<Rightarrow> typed_at rt d TU64 \<and> typed_at rt l TU64 \<and> typed_at rt r TU64
      | BEqual \<Rightarrow> typed_at rt d TBool \<and> (\<exists>t. typed_at rt l t \<and> typed_at rt r t)
      | BNotEqual \<Rightarrow> typed_at rt d TBool \<and> (\<exists>t. typed_at rt l t \<and> typed_at rt r t)
      | _ \<Rightarrow> typed_at rt d TBool \<and> typed_at rt l TU64 \<and> typed_at rt r TU64)"
| "step_ok rt lt k n (SNot d s) \<longleftrightarrow> typed_at rt d TBool \<and> typed_at rt s TBool"
| "step_ok rt lt k n (SBranch condition yes no) \<longleftrightarrow> typed_at rt condition TBool \<and> yes < n \<and> no < n"
| "step_ok rt lt k n (SJump target) \<longleftrightarrow> target < n"
| "step_ok rt lt k n (SReturn s) \<longleftrightarrow> typed_at rt s TU64"
| "step_ok rt lt k n (SHeight d) \<longleftrightarrow> typed_at rt d TU64"
| "step_ok rt lt k n (SCaller d i) \<longleftrightarrow> typed_at rt d TU64 \<and> i < 4"
| "step_ok rt lt k n (SKeyCount d) \<longleftrightarrow> typed_at rt d TU64"
| "step_ok rt lt k n (SKeyWord d key word) \<longleftrightarrow> typed_at rt d TU64 \<and> typed_at rt key TU64 \<and> word < 4"
| "step_ok rt lt k n (SGetAt d key) \<longleftrightarrow> typed_at rt d TU64 \<and> typed_at rt key TU64"
| "step_ok rt lt k n (SSetAt key s) \<longleftrightarrow> typed_at rt key TU64 \<and> typed_at rt s TU64"
| "step_ok rt lt k n (SDeleteAt key) \<longleftrightarrow> typed_at rt key TU64"
| "step_ok rt lt k n (SGet d key) \<longleftrightarrow> typed_at rt d TU64 \<and> key < k"
| "step_ok rt lt k n (SSet key s) \<longleftrightarrow> key < k \<and> typed_at rt s TU64"
| "step_ok rt lt k n (SDelete key) \<longleftrightarrow> key < k"
| "step_ok rt lt k n (SEmit topic payload) \<longleftrightarrow> typed_at rt topic TU64 \<and> typed_at rt payload TU64"

definition typed_program :: "tr_type list \<Rightarrow> tr_type list \<Rightarrow> checked_program \<Rightarrow> bool" where
  "typed_program rt lt p \<longleftrightarrow> length rt = cp_registers p \<and> length lt = cp_locals p
     \<and> list_all (step_ok rt lt (length (cp_keys p)) (length (cp_instructions p))) (cp_instructions p)
     \<and> cp_instructions p \<noteq> [] \<and> (\<exists>s. last (cp_instructions p) = SReturn s)"

definition program_bounded :: "checked_program \<Rightarrow> bool" where
  "program_bounded p \<longleftrightarrow> length (cp_instructions p) \<le> MAX_INSTRUCTIONS \<and> cp_registers p \<le> MAX_INSTRUCTIONS \<and> cp_locals p \<le> MAX_LOCALS
     \<and> length (cp_keys p) \<le> MAX_STATE_KEYS \<and> sorted_wrt (<) (cp_keys p)
     \<and> list_all (\<lambda>key. key \<noteq> [] \<and> length key \<le> TROCTO_STATE_KEY_BYTES) (cp_keys p)"

section \<open>Version one never panics and charges one unit for each instruction\<close>

lemma slot_Some: "i < length xs \<Longrightarrow> slot xs i = Some (xs ! i)"
  by (simp add: slot_def)

lemma put_slot_Some: "i < length xs \<Longrightarrow> put_slot xs i x = Some (xs[i := x])"
  by (simp add: put_slot_def)

lemma instruction_value_ok: "instruction_ok (length vals) i \<Longrightarrow> \<exists>r. instruction_value input vals i = Some r"
  by (cases i) (auto simp: slot_Some)

lemma operator_apply_error: "operator_apply operator l r = Err e \<Longrightarrow> e = Overflow \<or> e = DivisionByZero"
  by (cases operator) (auto simp: result_simps split: if_splits)

lemma instruction_value_error: "instruction_value input vals i = Some (Err e) \<Longrightarrow> e = Overflow \<or> e = DivisionByZero"
  using operator_apply_error by (cases i) (auto simp: Option.bind_eq_Some_conv)

lemma scalar_loop_ok:
  assumes "\<forall>j < length instrs. instruction_ok (length vals + j) (instrs ! j)" and "unat used + length instrs < 2 ^ 64"
  shows "\<exists>r. scalar_loop input fuel instrs vals used = Some r
    \<and> (\<forall>vs u. r = Ok (vs, u) \<longrightarrow> length vs = length vals + length instrs \<and> unat u = unat used + length instrs
         \<and> (instrs = [] \<or> unat used + length instrs \<le> unat fuel))
    \<and> (\<forall>e. r = Err e \<longrightarrow> e = FuelExhausted \<and> unat fuel < unat used + length instrs \<or> e = Overflow \<or> e = DivisionByZero)"
  using assms
proof (induction instrs arbitrary: vals used)
  case (Cons i instrs)
  show ?case
  proof (cases "used \<ge> fuel")
    case True
    then show ?thesis by (simp add: word_le_nat_alt)
  next
    case False
    from Cons.prems(1) have "instruction_ok (length vals) i" by (auto dest: spec [of _ 0])
    then obtain r where r: "instruction_value input vals i = Some r" using instruction_value_ok by blast
    show ?thesis
    proof (cases r)
      case (Inl e)
      with r False show ?thesis using instruction_value_error by auto
    next
      case (Inr v)
      have used: "unat (used + 1) = unat used + 1" using Cons.prems(2) unat_add_lem [of used 1] by simp
      have "\<forall>j < length instrs. instruction_ok (length (vals @ [v]) + j) (instrs ! j)"
        using Cons.prems(1) by (auto dest: spec [of _ "Suc _"])
      from Cons.IH [OF this, of "used + 1"] show ?thesis
        using False Cons.prems(2) by (auto simp: r Inr used word_le_nat_alt)
    qed
  qed
qed auto

lemma scalar_evaluate_ok:
  assumes "scalar_ok instrs result" and "length instrs < 2 ^ 64"
  shows "\<exists>r. scalar_evaluate instrs result input fuel = Some r
    \<and> (\<forall>x. r = Ok x \<longrightarrow> unat (se_fuel_used x) = length instrs \<and> se_fuel_used x \<le> fuel)
    \<and> (\<forall>e. r = Err e \<longrightarrow> e = FuelExhausted \<and> unat fuel < length instrs \<or> e = Overflow \<or> e = DivisionByZero)"
proof -
  from scalar_loop_ok [of instrs "[]" 0 input fuel] assms obtain r where r: "scalar_loop input fuel instrs [] 0 = Some r"
      "\<And>vs u. r = Ok (vs, u) \<Longrightarrow> length vs = length instrs \<and> unat u = length instrs \<and> (instrs = [] \<or> length instrs \<le> unat fuel)"
      "\<And>e. r = Err e \<Longrightarrow> e = FuelExhausted \<and> unat fuel < length instrs \<or> e = Overflow \<or> e = DivisionByZero"
    by (auto simp: scalar_ok_def)
  show ?thesis
  proof (cases r)
    case (Inl e)
    then show ?thesis using r(1) r(3) [OF Inl] by (simp add: scalar_evaluate_def)
  next
    case (Inr x)
    obtain vs u where x: "x = (vs, u)" by (cases x)
    note q = r(2) [OF Inr [unfolded x]]
    have "result < length instrs" using assms(1) by (simp add: scalar_ok_def)
    then show ?thesis using r(1) q by (auto simp: scalar_evaluate_def Inr x slot_Some word_le_nat_alt)
  qed
qed

section \<open>Version two keeps its types and never panics\<close>

definition holds_types :: "tr_type list \<Rightarrow> u64 list \<Rightarrow> bool" where
  "holds_types ts vs \<longleftrightarrow> length vs = length ts \<and> (\<forall>i < length ts. ts ! i = TBool \<longrightarrow> vs ! i \<le> 1)"

text \<open>What holds of the slots all along: written slots are authorised, the others keep their value.\<close>

definition slots_ok :: "contract_context \<Rightarrow> u64 option list \<Rightarrow> bool list \<Rightarrow> bool" where
  "slots_ok c st ws \<longleftrightarrow> length st = length (cc_keys c) \<and> length ws = length (cc_keys c)
     \<and> (\<forall>i < length (cc_keys c). if ws ! i then cc_access c ! i else st ! i = cc_state c ! i)"

definition machine_ok :: "tr_type list \<Rightarrow> tr_type list \<Rightarrow> checked_program \<Rightarrow> contract_context \<Rightarrow> u64 \<Rightarrow> tr_machine \<Rightarrow> bool" where
  "machine_ok rt lt p c fuel m \<longleftrightarrow> holds_types rt (tm_registers m) \<and> holds_types lt (tm_locals m)
     \<and> slots_ok c (tm_state m) (tm_writes m) \<and> length (tm_events m) \<le> MAX_EVENTS \<and> tm_used m \<le> fuel
     \<and> tm_pc m < length (cp_instructions p)"

definition context_ok :: "contract_context \<Rightarrow> byte list list \<Rightarrow> bool" where
  "context_ok c prefix \<longleftrightarrow> context_validate c prefix = Ok () \<and> length (cc_caller c) = 4"

text \<open>The effects that a call may have.\<close>

definition execution_ok :: "contract_context \<Rightarrow> u64 \<Rightarrow> contract_execution_result \<Rightarrow> bool" where
  "execution_ok c fuel r \<longleftrightarrow> slots_ok c (ce_state r) (ce_writes r) \<and> length (ce_events r) \<le> MAX_EVENTS \<and> ce_fuel_used r \<le> fuel"

lemma context_validate_Ok:
  "context_validate c prefix = Ok u \<longleftrightarrow> length (cc_keys c) \<le> MAX_STATE_KEYS \<and> length (cc_state c) = length (cc_keys c)
     \<and> length (cc_access c) = length (cc_keys c) \<and> take (length prefix) (cc_keys c) = prefix
     \<and> (\<forall>key \<in> set (cc_keys c). key \<noteq> [] \<and> length key \<le> TROCTO_STATE_KEY_BYTES)
     \<and> sorted_wrt (<) (drop (length prefix) (cc_keys c)) \<and> distinct (cc_keys c)"
proof -
  have "card (set (cc_keys c)) = length (cc_keys c) \<longleftrightarrow> distinct (cc_keys c)" by (metis card_distinct distinct_card)
  then show ?thesis unfolding context_validate_def Let_def list_ex_iff not_le [symmetric] by (simp del: not_le)
qed

lemma context_okD:
  assumes "context_ok c prefix"
  shows "length (cc_access c) = length (cc_keys c)" "length (cc_state c) = length (cc_keys c)" "length prefix \<le> length (cc_keys c)"
    "length (cc_caller c) = 4" "distinct (cc_keys c)"
proof -
  have t: "take (length prefix) (cc_keys c) = prefix" using assms by (simp add: context_ok_def context_validate_Ok)
  then show "length prefix \<le> length (cc_keys c)" by (metis length_take min.cobounded2 min.commute)
qed (use assms in \<open>simp_all add: context_ok_def context_validate_Ok\<close>)

lemma typed_slot: "holds_types ts vs \<Longrightarrow> typed_at ts i t \<Longrightarrow> slot vs i = Some (vs ! i)"
  by (simp add: holds_types_def typed_at_def slot_def)

lemma typed_bool: "holds_types ts vs \<Longrightarrow> typed_at ts i TBool \<Longrightarrow> vs ! i \<le> 1"
  by (simp add: holds_types_def typed_at_def)

lemma put_typed:
  assumes "holds_types ts vs" and "typed_at ts i t" and "t = TBool \<Longrightarrow> v \<le> 1"
  shows "\<exists>vs'. put_slot vs i v = Some vs' \<and> holds_types ts vs'"
  using assms by (auto simp: holds_types_def typed_at_def put_slot_def nth_list_update)

lemma of_bool_le: "(of_bool b :: u64) \<le> 1"
  by (simp add: of_bool_def)

lemma binary_apply_type:
  "binary_apply operator a b = Ok v \<Longrightarrow> (\<And>x. operator \<noteq> Arithmetic x) \<Longrightarrow> v \<le> 1"
  by (cases operator) (auto simp: of_bool_le)

lemma binary_apply_error: "binary_apply operator a b = Err e \<Longrightarrow> e \<noteq> InvalidContext"
  using operator_apply_error by (cases operator) fastforce+

text \<open>Outcomes of a step of checked code: the machine runs on at the next instruction or at a target, or the call ends.\<close>

definition outcome_ok :: "tr_type list \<Rightarrow> tr_type list \<Rightarrow> checked_program \<Rightarrow> contract_context \<Rightarrow> u64 \<Rightarrow> tr_machine \<Rightarrow> tr_step \<Rightarrow> tr_outcome option \<Rightarrow> bool" where
  "outcome_ok rt lt p c fuel m i out \<longleftrightarrow>
     (case out of
        Some (Running m') \<Rightarrow> machine_ok rt lt p c fuel m' \<and> tm_used m' = tm_used m \<and> (charged i \<or> tm_pc m' = tm_pc m + 1)
      | Some (Returned r) \<Rightarrow> execution_ok c fuel r \<and> ce_fuel_used r = tm_used m
      | Some (Failed e) \<Rightarrow> e \<noteq> InvalidContext
      | None \<Rightarrow> False)"

lemma set_register_ok:
  assumes "machine_ok rt lt p c fuel m" and "typed_at rt d t" and "t = TBool \<Longrightarrow> v \<le> 1" and "tm_pc m + 1 < length (cp_instructions p)"
  shows "outcome_ok rt lt p c fuel m i (set_register m d v)"
proof -
  have "holds_types rt (tm_registers m)" using assms(1) by (simp add: machine_ok_def)
  from put_typed [OF this assms(2,3)] obtain rs where "put_slot (tm_registers m) d v = Some rs" "holds_types rt rs" by blast
  then show ?thesis using assms(1,4) by (simp add: set_register_def outcome_ok_def machine_ok_def)
qed

lemma write_key_ok:
  assumes "machine_ok rt lt p c fuel m" and "k < length (cc_keys c)" and "cc_access c ! k" and "tm_pc m + 1 < length (cp_instructions p)"
  shows "outcome_ok rt lt p c fuel m i (write_key m k v)"
proof -
  have s: "slots_ok c (tm_state m) (tm_writes m)" using assms(1) by (simp add: machine_ok_def)
  then have "put_slot (tm_state m) k v = Some ((tm_state m)[k := v])" "put_slot (tm_writes m) k True = Some ((tm_writes m)[k := True])"
    using assms(2) by (simp_all add: slots_ok_def put_slot_def)
  moreover have "slots_ok c ((tm_state m)[k := v]) ((tm_writes m)[k := True])"
    using s assms(2,3) by (auto simp: slots_ok_def nth_list_update)
  ultimately show ?thesis using assms(1,4) by (simp add: write_key_def outcome_ok_def machine_ok_def)
qed

lemma at_slot_ok:
  assumes "machine_ok rt lt p c fuel m" and "typed_at rt key TU64" and "context_ok c prefix"
    and "\<And>k. k < length (cc_keys c) \<Longrightarrow> cc_access c ! k \<Longrightarrow> outcome_ok rt lt p c fuel m i (f k)"
  shows "outcome_ok rt lt p c fuel m i (at_slot m c key f)"
proof -
  have "slot (tm_registers m) key = Some (tm_registers m ! key)" using assms(1) by (intro typed_slot [OF _ assms(2)]) (simp add: machine_ok_def)
  then show ?thesis
    using assms(4) context_okD(1) [OF assms(3)] by (simp add: at_slot_def checked_slot_def slot_def) (simp add: outcome_ok_def)
qed

lemma static_slot_ok:
  assumes "context_ok c prefix" and "key < length prefix" and "cc_access c ! key \<Longrightarrow> outcome_ok rt lt p c fuel m i f"
  shows "outcome_ok rt lt p c fuel m i (static_slot c key f)"
proof -
  have "slot (cc_access c) key = Some (cc_access c ! key)"
    using context_okD(1,3) [OF assms(1)] assms(2) by (intro slot_Some) simp
  then show ?thesis using assms(3) by (simp add: static_slot_def) (simp add: outcome_ok_def)
qed

lemma step_exec_ok:
  assumes m: "machine_ok rt lt p c fuel m" and c: "context_ok c (cp_keys p)"
    and i: "step_ok rt lt (length (cp_keys p)) (length (cp_instructions p)) i"
    and more: "\<forall>s. i \<noteq> SReturn s \<Longrightarrow> tm_pc m + 1 < length (cp_instructions p)"
  shows "outcome_ok rt lt p c fuel m i (step_exec input c m i)"
proof -
  have regs: "holds_types rt (tm_registers m)" and locs: "holds_types lt (tm_locals m)" using m by (simp_all add: machine_ok_def)
  have sl: "slots_ok c (tm_state m) (tm_writes m)" using m by (simp add: machine_ok_def)
  note reg = typed_slot [OF regs] and set_reg = set_register_ok [OF m] and cx = context_okD [OF c]
  have u64: "outcome_ok rt lt p c fuel m i (set_register m d v)" if "typed_at rt d TU64" "tm_pc m + 1 < length (cp_instructions p)" for d v i
    using that by (intro set_reg [where t = TU64]) simp_all
  have static: "slot (tm_state m) k = Some (tm_state m ! k)" if "k < length (cc_keys c)" for k
    using that sl by (intro slot_Some) (simp add: slots_ok_def)
  show ?thesis
  proof (cases i)
    case (SConstant d v)
    then show ?thesis using i more set_reg by auto
  next
    case (SLoad d l)
    then obtain t where t: "typed_at rt d t" "typed_at lt l t" using i by auto
    then show ?thesis using SLoad more typed_slot [OF locs t(2)] typed_bool [OF locs] set_reg [OF t(1)] by auto
  next
    case (SStore l s charge)
    then obtain t where t: "typed_at rt s t" "typed_at lt l t" using i by auto
    then obtain ls where "put_slot (tm_locals m) l (tm_registers m ! s) = Some ls" "holds_types lt ls"
      using put_typed [OF locs t(2), of "tm_registers m ! s"] typed_bool [OF regs] by blast
    then show ?thesis using SStore more reg [OF t(1)] m by (simp add: outcome_ok_def machine_ok_def)
  next
    case (SMove d s)
    then obtain t where t: "typed_at rt d t" "typed_at rt s t" using i by auto
    then show ?thesis using SMove more reg [OF t(2)] typed_bool [OF regs] set_reg [OF t(1)] by auto
  next
    case (SBinary d operator l r)
    obtain ta tb where ops: "typed_at rt l ta" "typed_at rt r tb" using i SBinary by (auto split: tr_binary.splits)
    obtain t where d: "typed_at rt d t" "t = TBool \<longrightarrow> (\<forall>x. operator \<noteq> Arithmetic x)"
      using i SBinary by (cases operator) auto
    show ?thesis
    proof (cases "binary_apply operator (tm_registers m ! l) (tm_registers m ! r)")
      case (Inl e)
      then show ?thesis using SBinary reg [OF ops(1)] reg [OF ops(2)] binary_apply_error by (simp add: outcome_ok_def)
    next
      case (Inr v)
      then have "t = TBool \<Longrightarrow> v \<le> 1" using d(2) binary_apply_type by blast
      then show ?thesis using SBinary Inr reg [OF ops(1)] reg [OF ops(2)] set_reg [OF d(1)] more by simp
    qed
  next
    case (SNot d s)
    then have t: "typed_at rt d TBool" "typed_at rt s TBool" using i by auto
    show ?thesis using SNot more reg [OF t(2)] set_reg [OF t(1) of_bool_le] by simp
  next
    case (SBranch condition yes no)
    then show ?thesis using i m reg by (auto simp: outcome_ok_def machine_ok_def)
  next
    case (SJump target)
    then show ?thesis using i m by (simp add: outcome_ok_def machine_ok_def)
  next
    case (SReturn s)
    then have "typed_at rt s TU64" using i by simp
    then show ?thesis using SReturn m reg by (simp add: outcome_ok_def execution_ok_def machine_ok_def)
  next
    case (SCaller d k)
    then show ?thesis using i more set_reg cx(4) by (auto simp: slot_Some)
  next
    case (SKeyWord d key word)
    then have t: "typed_at rt d TU64" "typed_at rt key TU64" "word < 4" using i by auto
    then have w: "word * 8 + 8 \<le> 32" by simp
    show ?thesis
      using SKeyWord more reg [OF t(2)] set_reg [OF t(1)] w
      by (simp add: key_limb_def) (simp add: outcome_ok_def)
  next
    case (SGetAt d key)
    then have t: "typed_at rt d TU64" "typed_at rt key TU64" using i by auto
    have "outcome_ok rt lt p c fuel m i (do { v \<leftarrow> slot (tm_state m) k; set_register m d (case v of None \<Rightarrow> 0 | Some x \<Rightarrow> x) })"
      if "k < length (cc_keys c)" for k
      using SGetAt more set_reg [OF t(1)] static [OF that] by simp
    then show ?thesis using at_slot_ok [OF m t(2) c] SGetAt by simp
  next
    case (SSetAt key s)
    then have t: "typed_at rt key TU64" "typed_at rt s TU64" using i by auto
    show ?thesis
      unfolding SSetAt step_exec.simps
      using more SSetAt by (intro at_slot_ok [OF m t(1) c]) (simp add: reg [OF t(2)] write_key_ok [OF m])
  next
    case (SDeleteAt key)
    then have t: "typed_at rt key TU64" using i by auto
    show ?thesis
      unfolding SDeleteAt step_exec.simps
      using more SDeleteAt by (intro at_slot_ok [OF m t c]) (simp add: write_key_ok [OF m])
  next
    case (SGet d key)
    then have t: "typed_at rt d TU64" "key < length (cp_keys p)" using i by auto
    then have "key < length (cc_keys c)" using cx(3) by simp
    then show ?thesis
      unfolding SGet step_exec.simps
      using more SGet set_reg [OF t(1)] by (intro static_slot_ok [OF c t(2)]) (simp add: static)
  next
    case (SSet key s)
    then have t: "typed_at rt s TU64" "key < length (cp_keys p)" using i by auto
    then have "key < length (cc_keys c)" using cx(3) by simp
    then show ?thesis
      unfolding SSet step_exec.simps
      using more SSet by (intro static_slot_ok [OF c t(2)]) (simp add: reg [OF t(1)] write_key_ok [OF m])
  next
    case (SDelete key)
    then have t: "key < length (cp_keys p)" using i by auto
    then have "key < length (cc_keys c)" using cx(3) by simp
    then show ?thesis
      unfolding SDelete step_exec.simps
      using more SDelete by (intro static_slot_ok [OF c t]) (simp add: write_key_ok [OF m])
  next
    case (SEmit topic payload)
    then have t: "typed_at rt topic TU64" "typed_at rt payload TU64" using i by auto
    show ?thesis using SEmit more m reg [OF t(1)] reg [OF t(2)] by (simp add: outcome_ok_def machine_ok_def)
  qed (use i more u64 in simp_all)
qed

text \<open>One turn: it ends the call or brings the end nearer.\<close>

definition distance :: "checked_program \<Rightarrow> u64 \<Rightarrow> tr_machine \<Rightarrow> nat" where
  "distance p fuel m = (unat fuel - unat (tm_used m)) * (length (cp_instructions p) + 1) + (length (cp_instructions p) - tm_pc m)"

lemma turn_ok:
  assumes p: "typed_program rt lt p" and m: "machine_ok rt lt p c fuel m" and c: "context_ok c (cp_keys p)"
  shows "case turn p input c fuel m of
      Some (Running m') \<Rightarrow> machine_ok rt lt p c fuel m' \<and> distance p fuel m' < distance p fuel m
    | Some (Returned r) \<Rightarrow> execution_ok c fuel r
    | Some (Failed e) \<Rightarrow> e \<noteq> InvalidContext
    | None \<Rightarrow> False"
proof -
  define i where "i = cp_instructions p ! tm_pc m"
  have pc: "tm_pc m < length (cp_instructions p)" using m by (simp add: machine_ok_def)
  have i: "step_ok rt lt (length (cp_keys p)) (length (cp_instructions p)) i"
    using p pc by (simp add: typed_program_def list_all_length i_def)
  have more: "tm_pc m + 1 < length (cp_instructions p)" if "\<forall>s. i \<noteq> SReturn s"
  proof (rule ccontr)
    assume "\<not> tm_pc m + 1 < length (cp_instructions p)"
    then have "tm_pc m = length (cp_instructions p) - 1" using pc by simp
    then have "i = last (cp_instructions p)" using p by (simp add: i_def typed_program_def last_conv_nth)
    with that p show False by (auto simp: typed_program_def)
  qed
  show ?thesis
  proof (cases "charged i \<and> tm_used m \<ge> fuel")
    case True
    then show ?thesis using pc by (simp add: turn_def i_def [symmetric] Let_def)
  next
    case False
    define m1 where "m1 = (if charged i then m\<lparr>tm_used := tm_used m + 1\<rparr> else m)"
    have turn: "turn p input c fuel m = step_exec input c m1 i"
      using False pc by (auto simp: turn_def i_def [symmetric] Let_def m1_def)
    have used: "unat (tm_used m + 1) = unat (tm_used m) + 1" if "tm_used m < fuel"
      using that unat_add_lem [of "tm_used m" 1] unsigned_less [of fuel, where ?'a = nat] by (simp add: word_less_nat_alt)
    have m1: "machine_ok rt lt p c fuel m1" "tm_pc m1 = tm_pc m"
      using m False used by (auto simp: m1_def machine_ok_def word_le_nat_alt word_less_nat_alt not_le)
    have out: "outcome_ok rt lt p c fuel m1 i (step_exec input c m1 i)"
      by (rule step_exec_ok [OF m1(1) c i]) (use more m1(2) in simp)
    have dist: "distance p fuel m' < distance p fuel m" if r: "step_exec input c m1 i = Some (Running m')" for m'
    proof -
      have m': "machine_ok rt lt p c fuel m'" "tm_used m' = tm_used m1" "charged i \<or> tm_pc m' = tm_pc m + 1"
        using out m1(2) by (auto simp: r outcome_ok_def)
      show ?thesis
      proof (cases "charged i")
        case True
        then have lt: "tm_used m < fuel" using False by auto
        define n where "n = length (cp_instructions p) + 1"
        have "unat fuel - unat (tm_used m) = Suc (unat fuel - unat (tm_used m'))"
          using lt used True m'(2) by (simp add: m1_def word_less_nat_alt)
        then have "distance p fuel m = (unat fuel - unat (tm_used m')) * n + n + (length (cp_instructions p) - tm_pc m)"
          by (simp add: distance_def n_def)
        moreover have "distance p fuel m' < (unat fuel - unat (tm_used m')) * n + n" by (simp add: distance_def n_def)
        ultimately show ?thesis by simp
      next
        case False
        then show ?thesis using m' pc by (simp add: distance_def m1_def)
      qed
    qed
    show ?thesis using out dist unfolding turn by (auto simp: outcome_ok_def split: option.splits tr_outcome.splits)
  qed
qed

lemma eval_loop_ends:
  assumes p: "typed_program rt lt p" and c: "context_ok c (cp_keys p)" and m: "machine_ok rt lt p c fuel m"
  shows "\<exists>r. eval_loop p input c fuel interrupt polls dispatches m = Some (Some r)
    \<and> (\<forall>x. r = Ok (Some x) \<longrightarrow> execution_ok c fuel x) \<and> (\<forall>e. r = Err e \<longrightarrow> e \<noteq> InvalidContext)
    \<and> ((\<forall>n. \<not> interrupt n) \<longrightarrow> r \<noteq> Ok None)"
  using m
proof (induction "distance p fuel m" arbitrary: m polls dispatches rule: less_induct)
  case less
  note turn = turn_ok [OF p less.prems c, of input]
  show ?case
  proof (cases "\<exists>m'. turn p input c fuel m = Some (Running m')")
    case True
    then obtain m' where m': "turn p input c fuel m = Some (Running m')" by blast
    from turn have "machine_ok rt lt p c fuel m'" "distance p fuel m' < distance p fuel m" by (simp_all add: m')
    from less.hyps [OF this(2,1)] show ?thesis
      by (subst eval_loop.simps) (auto simp: m' Let_def)
  next
    case False
    with turn show ?thesis
      by (subst eval_loop.simps) (auto simp: Let_def split: option.splits tr_outcome.splits)
  qed
qed

lemma machine_start_ok:
  assumes "typed_program rt lt p" and "context_ok c (cp_keys p)"
  shows "machine_ok rt lt p c fuel (machine_start p c)"
  using assms context_okD(2) [OF assms(2)]
  by (simp add: machine_ok_def machine_start_def typed_program_def holds_types_def slots_ok_def word_le_nat_alt)

lemma evaluate_with_interrupt_ends:
  assumes "typed_program rt lt p" and "length (cc_caller c) = 4"
  shows "\<exists>r. evaluate_with_interrupt p input c fuel interrupt = Some (Some r)
    \<and> (\<forall>x. r = Ok (Some x) \<longrightarrow> execution_ok c fuel x) \<and> (r = Err InvalidContext \<longleftrightarrow> context_validate c (cp_keys p) \<noteq> Ok ())
    \<and> ((\<forall>n. \<not> interrupt n) \<longrightarrow> r \<noteq> Ok None)"
proof (cases "context_validate c (cp_keys p)")
  case (Inl e)
  then have "e = InvalidContext" by (auto simp: context_validate_def Let_def split: if_splits)
  with Inl show ?thesis by (simp add: evaluate_with_interrupt_def)
next
  case (Inr u)
  then have c: "context_ok c (cp_keys p)" using assms(2) by (simp add: context_ok_def)
  from eval_loop_ends [OF assms(1) c machine_start_ok [OF assms(1) c], of input fuel interrupt 0 0] Inr
  show ?thesis by (auto simp: evaluate_with_interrupt_def)
qed

text \<open>An interrupted evaluation gives up; it never changes the result.\<close>

lemma eval_loop_interrupt:
  assumes p: "typed_program rt lt p" and c: "context_ok c (cp_keys p)" and m: "machine_ok rt lt p c fuel m"
  shows "eval_loop p input c fuel interrupt polls dispatches m = Some (Some (Ok None))
    \<or> eval_loop p input c fuel interrupt polls dispatches m = eval_loop p input c fuel (\<lambda>_. False) polls' dispatches' m"
  using m
proof (induction "distance p fuel m" arbitrary: m polls dispatches polls' dispatches' rule: less_induct)
  case less
  note turn = turn_ok [OF p less.prems c, of input]
  show ?case
  proof (cases "\<exists>m'. turn p input c fuel m = Some (Running m')")
    case True
    then obtain m' where m': "turn p input c fuel m = Some (Running m')" by blast
    from turn have "machine_ok rt lt p c fuel m'" "distance p fuel m' < distance p fuel m" by (simp_all add: m')
    from less.hyps [OF this(2,1)] show ?thesis
      unfolding eval_loop.simps [of p input c fuel interrupt polls dispatches m] eval_loop.simps [of p input c fuel "\<lambda>_. False" polls' dispatches' m]
      by (simp add: m' Let_def)
  next
    case False
    with turn show ?thesis
      unfolding eval_loop.simps [of p input c fuel interrupt polls dispatches m] eval_loop.simps [of p input c fuel "\<lambda>_. False" polls' dispatches' m]
      by (auto simp: Let_def split: option.splits tr_outcome.splits)
  qed
qed

end
