(* ===== verification/Astro_Trocto_Parse.thy ===== *)
theory Astro_Trocto_Parse
  imports Astro_Trocto
begin

text \<open>
  The front ends of the Trocto compiler: lexer and parser of version one (trocto-compiler: frontend.rs) and of version
  two (stateful\_frontend.rs), and \<open>compile\<close> (lib.rs). The parsers emit code while they read, so the
  invariants are about the code emitted so far. Their recursion is bounded by fuel computed from the number
  of tokens; \<open>OutOfFuel\<close> and \<open>ParsePanic\<close> (a slice access out of bounds) are shown never to occur.
\<close>

section \<open>Characters and tokens\<close>

datatype parse_fail = CompileError nat string | ParsePanic | OutOfFuel

abbreviation chr :: "char \<Rightarrow> byte" where "chr c \<equiv> of_char c"

definition ascii_whitespace :: "byte \<Rightarrow> bool" where
  "ascii_whitespace b \<longleftrightarrow> b \<in> {0x20, 0x09, 0x0A, 0x0C, 0x0D}"

definition ascii_digit :: "byte \<Rightarrow> bool" where
  "ascii_digit b \<longleftrightarrow> chr CHR ''0'' \<le> b \<and> b \<le> chr CHR ''9''"

definition ascii_alphabetic :: "byte \<Rightarrow> bool" where
  "ascii_alphabetic b \<longleftrightarrow> chr CHR ''A'' \<le> b \<and> b \<le> chr CHR ''Z'' \<or> chr CHR ''a'' \<le> b \<and> b \<le> chr CHR ''z''"

definition identifier_start :: "byte \<Rightarrow> bool" where
  "identifier_start b \<longleftrightarrow> ascii_alphabetic b \<or> b = chr CHR ''_''"

definition identifier_part :: "byte \<Rightarrow> bool" where
  "identifier_part b \<longleftrightarrow> ascii_alphabetic b \<or> ascii_digit b \<or> b = chr CHR ''_''"

definition digits_value :: "byte list \<Rightarrow> nat" where
  "digits_value ds = foldl (\<lambda>n d. 10 * n + unat (d - chr CHR ''0'')) 0 ds"

definition parse_u64 :: "byte list \<Rightarrow> u64 option" where
  "parse_u64 ds = (if digits_value ds < 2 ^ 64 then Some (of_nat (digits_value ds)) else None)"

record 'k token =
  tk_kind :: 'k
  tk_offset :: nat

text \<open>A comment reaches to the end of its line.\<close>

definition starts_comment :: "byte list \<Rightarrow> bool" where
  "starts_comment bs \<longleftrightarrow> take 2 bs = [chr CHR ''/'', chr CHR ''/'']"

definition comment_length :: "byte list \<Rightarrow> nat" where
  "comment_length bs = 2 + length (takeWhile (\<lambda>b. b \<noteq> 0x0A) (drop 2 bs))"

section \<open>Version one: the lexer (frontend.rs)\<close>

datatype scalar_kind = KWord "byte list" | KNumber u64 | KLeftParen | KRightParen | KLeftBrace | KRightBrace | KColon | KSemicolon
  | KEqual | KArrow | KPlus | KMinus | KStar | KSlash | KPercent | KEnd

definition scalar_symbol :: "byte \<Rightarrow> byte list \<Rightarrow> (scalar_kind \<times> nat) option" where
  "scalar_symbol b bs =
     (if b = chr CHR ''('' then Some (KLeftParen, 1)
      else if b = chr CHR '')'' then Some (KRightParen, 1)
      else if b = chr CHR ''{'' then Some (KLeftBrace, 1)
      else if b = chr CHR ''}'' then Some (KRightBrace, 1)
      else if b = chr CHR '':'' then Some (KColon, 1)
      else if b = chr CHR '';'' then Some (KSemicolon, 1)
      else if b = chr CHR ''='' then Some (KEqual, 1)
      else if b = chr CHR ''+'' then Some (KPlus, 1)
      else if b = chr CHR ''-'' \<and> take 1 bs = [chr CHR ''>''] then Some (KArrow, 2)
      else if b = chr CHR ''-'' then Some (KMinus, 1)
      else if b = chr CHR ''*'' then Some (KStar, 1)
      else if b = chr CHR ''/'' then Some (KSlash, 1)
      else if b = chr CHR ''%'' then Some (KPercent, 1)
      else None)"

lemma scalar_symbol_length: "scalar_symbol b bs = Some (kind, n) \<Longrightarrow> 0 < n \<and> kind \<noteq> KEnd"
  by (auto simp: scalar_symbol_def split: if_splits)

function (sequential) scalar_lex_loop :: "nat \<Rightarrow> byte list \<Rightarrow> scalar_kind token list \<Rightarrow> parse_fail + scalar_kind token list" where
  "scalar_lex_loop offset [] tokens = Ok tokens"
| "scalar_lex_loop offset (b # bs) tokens =
     (if ascii_whitespace b then scalar_lex_loop (offset + 1) bs tokens
      else if starts_comment (b # bs) then scalar_lex_loop (offset + comment_length (b # bs)) (drop (comment_length (b # bs)) (b # bs)) tokens
      else if length tokens \<ge> MAX_TOKENS then Err (CompileError offset ''token limit exceeded'')
      else if identifier_start b then
        let word = b # takeWhile identifier_part bs in
        if length word > MAX_IDENTIFIER_BYTES then Err (CompileError offset ''identifier byte limit exceeded'')
        else scalar_lex_loop (offset + length word) (drop (length word) (b # bs)) (tokens @ [\<lparr>tk_kind = KWord word, tk_offset = offset\<rparr>])
      else if ascii_digit b then
        let digits = b # takeWhile ascii_digit bs in
        (case parse_u64 digits of
           None \<Rightarrow> Err (CompileError offset ''integer literal exceeds u64'')
         | Some v \<Rightarrow> scalar_lex_loop (offset + length digits) (drop (length digits) (b # bs)) (tokens @ [\<lparr>tk_kind = KNumber v, tk_offset = offset\<rparr>]))
      else
        (case scalar_symbol b bs of
           None \<Rightarrow> Err (CompileError offset ''unsupported source character'')
         | Some (kind, n) \<Rightarrow> scalar_lex_loop (offset + n) (drop n (b # bs)) (tokens @ [\<lparr>tk_kind = kind, tk_offset = offset\<rparr>])))"
  by pat_completeness auto

termination
  by (relation "measure (\<lambda>(offset, bs, tokens). length bs)") (auto simp: comment_length_def dest!: scalar_symbol_length)

definition scalar_lex :: "byte list \<Rightarrow> parse_fail + scalar_kind token list" where
  "scalar_lex source =
     (if length source > MAX_SOURCE_BYTES then Err (CompileError MAX_SOURCE_BYTES ''source byte limit exceeded'')
      else try_bind (scalar_lex_loop 0 source []) (\<lambda>tokens. Ok (tokens @ [\<lparr>tk_kind = KEnd, tk_offset = length source\<rparr>])))"

section \<open>Version one: the parser (frontend.rs)\<close>

record scalar_parser =
  sp_tokens :: "scalar_kind token list"
  sp_position :: nat
  sp_locals :: "(byte list, nat) btree"
  sp_instructions :: "tr_instruction list"

definition scalar_peek :: "scalar_parser \<Rightarrow> parse_fail + scalar_kind token" where
  "scalar_peek s = ok_or ParsePanic (slot (sp_tokens s) (sp_position s))"

definition scalar_advance :: "scalar_parser \<Rightarrow> scalar_parser" where
  "scalar_advance s = s\<lparr>sp_position := sp_position s + 1\<rparr>"

definition scalar_expect :: "scalar_kind \<Rightarrow> string \<Rightarrow> scalar_parser \<Rightarrow> parse_fail + scalar_parser" where
  "scalar_expect kind message s =
     try_bind (scalar_peek s) (\<lambda>token.
     if tk_kind token \<noteq> kind then Err (CompileError (tk_offset token) message) else Ok (scalar_advance s))"

definition scalar_word :: "string \<Rightarrow> scalar_parser \<Rightarrow> parse_fail + scalar_parser" where
  "scalar_word word s = scalar_expect (KWord (ascii word)) ''unexpected identifier or unsupported syntax'' s"

definition scalar_emit :: "tr_instruction \<Rightarrow> nat \<Rightarrow> scalar_parser \<Rightarrow> parse_fail + nat \<times> scalar_parser" where
  "scalar_emit i offset s =
     (if length (sp_instructions s) \<ge> MAX_INSTRUCTIONS then Err (CompileError offset ''instruction limit exceeded'')
      else Ok (length (sp_instructions s), s\<lparr>sp_instructions := sp_instructions s @ [i]\<rparr>))"

fun scalar_precedence :: "scalar_kind \<Rightarrow> (tr_operator \<times> nat) option" where
  "scalar_precedence KPlus = Some (OpAdd, 1)"
| "scalar_precedence KMinus = Some (OpSubtract, 1)"
| "scalar_precedence KStar = Some (OpMultiply, 2)"
| "scalar_precedence KSlash = Some (OpDivide, 2)"
| "scalar_precedence KPercent = Some (OpRemainder, 2)"
| "scalar_precedence _ = None"

fun scalar_expression :: "nat \<Rightarrow> nat \<Rightarrow> nat \<Rightarrow> scalar_parser \<Rightarrow> parse_fail + nat \<times> scalar_parser"
and scalar_operators :: "nat \<Rightarrow> nat \<Rightarrow> nat \<Rightarrow> nat \<Rightarrow> scalar_parser \<Rightarrow> parse_fail + nat \<times> scalar_parser"
and scalar_atom :: "nat \<Rightarrow> nat \<Rightarrow> scalar_parser \<Rightarrow> parse_fail + nat \<times> scalar_parser" where
  "scalar_expression 0 minimum depth s = Err OutOfFuel"
| "scalar_expression (Suc n) minimum depth s =
     (if depth \<ge> MAX_NESTING
      then try_bind (scalar_peek s) (\<lambda>token. Err (CompileError (tk_offset token) ''expression nesting limit exceeded''))
      else try_bind (scalar_atom n depth s) (\<lambda>(left, s). scalar_operators n minimum depth left s))"
| "scalar_operators 0 minimum depth left s = Err OutOfFuel"
| "scalar_operators (Suc n) minimum depth left s =
     try_bind (scalar_peek s) (\<lambda>token.
     case scalar_precedence (tk_kind token) of
       None \<Rightarrow> Ok (left, s)
     | Some (operator, precedence) \<Rightarrow>
         if precedence < minimum then Ok (left, s)
         else
           try_bind (scalar_expression n (precedence + 1) (depth + 1) (scalar_advance s)) (\<lambda>(right, s).
           try_bind (scalar_emit (IBinary operator left right) (tk_offset token) s) (\<lambda>(left, s).
           scalar_operators n minimum depth left s)))"
| "scalar_atom 0 depth s = Err OutOfFuel"
| "scalar_atom (Suc n) depth s =
     try_bind (scalar_peek s) (\<lambda>token.
     case tk_kind token of
       KNumber v \<Rightarrow> scalar_emit (IConstant v) (tk_offset token) (scalar_advance s)
     | KWord name \<Rightarrow>
         if name = ascii ''input'' then scalar_emit IInput (tk_offset token) (scalar_advance s)
         else
           (case bt_get (sp_locals s) name of
              None \<Rightarrow> Err (CompileError (tk_offset token) ''undefined local or unsupported expression'')
            | Some v \<Rightarrow> scalar_emit (ICopy v) (tk_offset token) (scalar_advance s))
     | KLeftParen \<Rightarrow>
         try_bind (scalar_expression n 0 (depth + 1) (scalar_advance s)) (\<lambda>(v, s).
         try_bind (scalar_expect KRightParen ''closing parenthesis expected'' s) (\<lambda>s. Ok (v, s)))
     | _ \<Rightarrow> Err (CompileError (tk_offset token) ''u64 expression expected''))"

definition scalar_fuel :: "scalar_parser \<Rightarrow> nat" where
  "scalar_fuel s = 3 * length (sp_tokens s) + 3"

definition scalar_reserved :: "byte list list" where
  "scalar_reserved = map ascii [''input'', ''fn'', ''call'', ''let'', ''return'', ''u64'', ''mut'', ''unsafe'', ''import'', ''extern'',
     ''if'', ''else'', ''while'', ''for'', ''loop'']"

definition scalar_annotation :: "scalar_parser \<Rightarrow> parse_fail + scalar_parser" where
  "scalar_annotation s =
     try_bind (scalar_peek s) (\<lambda>token.
     if tk_kind token = KColon then scalar_word ''u64'' (scalar_advance s) else Ok s)"

definition scalar_binding :: "scalar_parser \<Rightarrow> parse_fail + scalar_parser" where
  "scalar_binding s =
     try_bind (scalar_word ''let'' s) (\<lambda>s.
     try_bind (scalar_peek s) (\<lambda>token.
     case tk_kind token of
       KWord name \<Rightarrow>
         if name \<in> set scalar_reserved then Err (CompileError (tk_offset token) ''reserved local identifier'')
         else if bt_contains (sp_locals s) name then Err (CompileError (tk_offset token) ''immutable local cannot be redefined'')
         else if length (sp_locals s) \<ge> MAX_LOCALS then Err (CompileError (tk_offset token) ''local binding limit exceeded'')
         else
           try_bind (scalar_annotation (scalar_advance s)) (\<lambda>s.
           try_bind (scalar_expect KEqual ''local initializer expected'' s) (\<lambda>s.
           try_bind (scalar_expression (scalar_fuel s) 0 0 s) (\<lambda>(v, s).
           try_bind (scalar_expect KSemicolon ''semicolon required after local initializer'' s) (\<lambda>s.
           Ok (s\<lparr>sp_locals := bt_insert name v (sp_locals s)\<rparr>)))))
     | _ \<Rightarrow> Err (CompileError (tk_offset token) ''local identifier expected'')))"

fun scalar_bindings :: "nat \<Rightarrow> scalar_parser \<Rightarrow> parse_fail + scalar_parser" where
  "scalar_bindings 0 s = Err OutOfFuel"
| "scalar_bindings (Suc n) s =
     try_bind (scalar_peek s) (\<lambda>token.
     if tk_kind token = KWord (ascii ''let'')
     then try_bind (scalar_binding s) (\<lambda>s. scalar_bindings n s)
     else Ok s)"

definition scalar_header :: "scalar_parser \<Rightarrow> parse_fail + scalar_parser" where
  "scalar_header s =
     try_bind (scalar_word ''fn'' s) (\<lambda>s.
     try_bind (scalar_word ''call'' s) (\<lambda>s.
     try_bind (scalar_expect KLeftParen ''call parameter list expected'' s) (\<lambda>s.
     try_bind (scalar_word ''input'' s) (\<lambda>s.
     try_bind (scalar_expect KColon ''call input type expected'' s) (\<lambda>s.
     try_bind (scalar_word ''u64'' s) (\<lambda>s.
     try_bind (scalar_expect KRightParen ''exactly one input parameter is required'' s) (\<lambda>s.
     try_bind (scalar_expect KArrow ''call return type expected'' s) (\<lambda>s.
     try_bind (scalar_word ''u64'' s) (\<lambda>s.
     scalar_expect KLeftBrace ''call body expected'' s)))))))))"

definition scalar_parse :: "byte list \<Rightarrow> parse_fail + tr_instruction list \<times> nat" where
  "scalar_parse source =
     try_bind (scalar_lex source) (\<lambda>tokens.
     try_bind (scalar_header \<lparr>sp_tokens = tokens, sp_position = 0, sp_locals = [], sp_instructions = []\<rparr>) (\<lambda>s.
     try_bind (scalar_bindings (length tokens + 1) s) (\<lambda>s.
     try_bind (scalar_word ''return'' s) (\<lambda>s.
     try_bind (scalar_expression (scalar_fuel s) 0 0 s) (\<lambda>(result, s).
     try_bind (scalar_expect KSemicolon ''semicolon required after return value'' s) (\<lambda>s.
     try_bind (scalar_expect KRightBrace ''only immutable locals and one return are supported'' s) (\<lambda>s.
     try_bind (scalar_expect KEnd ''trailing source or additional functions are unsupported'' s) (\<lambda>s.
     Ok (sp_instructions s, result)))))))))"

section \<open>Version one: what the parser accepts is checked code\<close>

lemma try_bind_assoc: "try_bind (try_bind m f) g = try_bind m (\<lambda>x. try_bind (f x) g)"
  by (cases m) simp_all

definition compile_error :: "parse_fail \<Rightarrow> bool" where
  "compile_error e \<longleftrightarrow> (\<exists>offset message. e = CompileError offset message)"

lemma compile_error_simps [simp]: "compile_error (CompileError offset message)" "\<not> compile_error ParsePanic" "\<not> compile_error OutOfFuel"
  by (simp_all add: compile_error_def)

text \<open>Token lists end with the end marker, which occurs nowhere else.\<close>

definition tokens_ok :: "'k \<Rightarrow> 'k token list \<Rightarrow> bool" where
  "tokens_ok marker ts \<longleftrightarrow> ts \<noteq> [] \<and> (\<forall>i < length ts. tk_kind (ts ! i) = marker \<longleftrightarrow> i = length ts - 1)"

lemma tokens_ok_snoc: "(\<forall>t \<in> set ts. tk_kind t \<noteq> marker) \<Longrightarrow> tk_kind t = marker \<Longrightarrow> tokens_ok marker (ts @ [t])"
  by (auto simp: tokens_ok_def nth_append all_set_conv_all_nth less_Suc_eq)

lemma scalar_lex_loop_ok:
  assumes "\<forall>t \<in> set tokens. tk_kind t \<noteq> KEnd"
  shows "case scalar_lex_loop offset bs tokens of Inl e \<Rightarrow> compile_error e | Inr ts \<Rightarrow> \<forall>t \<in> set ts. tk_kind t \<noteq> KEnd"
  using assms
proof (induction offset bs tokens rule: scalar_lex_loop.induct)
  case (2 offset b bs tokens)
  consider "ascii_whitespace b" | "\<not> ascii_whitespace b" "starts_comment (b # bs)"
    | "\<not> ascii_whitespace b" "\<not> starts_comment (b # bs)" "MAX_TOKENS \<le> length tokens"
    | "\<not> ascii_whitespace b" "\<not> starts_comment (b # bs)" "\<not> MAX_TOKENS \<le> length tokens" "identifier_start b"
    | "\<not> ascii_whitespace b" "\<not> starts_comment (b # bs)" "\<not> MAX_TOKENS \<le> length tokens" "\<not> identifier_start b" "ascii_digit b"
    | "\<not> ascii_whitespace b" "\<not> starts_comment (b # bs)" "\<not> MAX_TOKENS \<le> length tokens" "\<not> identifier_start b" "\<not> ascii_digit b" by blast
  then show ?case
  proof cases
    case 4
    then show ?thesis using 2(3) [OF 4 refl] 2(6) by (simp add: Let_def)
  next
    case 5
    then show ?thesis using 2(4) [OF 5 refl] 2(6) by (cases "parse_u64 (b # takeWhile ascii_digit bs)") (simp_all add: Let_def)
  next
    case 6
    show ?thesis
    proof (cases "scalar_symbol b bs")
      case (Some x)
      obtain kind n where x: "x = (kind, n)" by (cases x)
      then show ?thesis using 6 Some 2(5) [OF 6 Some x [symmetric]] 2(6) scalar_symbol_length [of b bs kind n] by simp
    qed (use 6 in simp)
  qed (use 2 in simp_all)
qed simp

lemma scalar_lex_ok:
  "case scalar_lex source of Inl e \<Rightarrow> compile_error e | Inr ts \<Rightarrow> tokens_ok KEnd ts"
  using scalar_lex_loop_ok [of "[]" 0 source]
  by (auto simp: scalar_lex_def intro!: tokens_ok_snoc split: sum.splits)

definition scalar_inv :: "scalar_parser \<Rightarrow> bool" where
  "scalar_inv s \<longleftrightarrow> tokens_ok KEnd (sp_tokens s) \<and> sp_position s < length (sp_tokens s)
     \<and> (\<forall>i < length (sp_instructions s). instruction_ok i (sp_instructions s ! i)) \<and> length (sp_instructions s) \<le> MAX_INSTRUCTIONS
     \<and> bt_ok (sp_locals s) \<and> (\<forall>(name, v) \<in> set (sp_locals s). v < length (sp_instructions s))"

definition scalar_left :: "scalar_parser \<Rightarrow> nat" where
  "scalar_left s = length (sp_tokens s) - sp_position s"

text \<open>A parser that read on: at least \<open>k\<close> tokens are consumed, code is only added, the bindings stay.\<close>

definition scalar_grows :: "nat \<Rightarrow> scalar_parser \<Rightarrow> scalar_parser \<Rightarrow> bool" where
  "scalar_grows k s s' \<longleftrightarrow> scalar_inv s' \<and> sp_tokens s' = sp_tokens s \<and> sp_position s + k \<le> sp_position s' \<and> sp_locals s' = sp_locals s
     \<and> length (sp_instructions s) \<le> length (sp_instructions s')"

definition scalar_value_ok :: "nat \<Rightarrow> scalar_parser \<Rightarrow> parse_fail + nat \<times> scalar_parser \<Rightarrow> bool" where
  "scalar_value_ok k s r \<longleftrightarrow> (case r of Inl e \<Rightarrow> compile_error e | Inr (v, s') \<Rightarrow> scalar_grows k s s' \<and> v < length (sp_instructions s'))"

lemma scalar_peek_Ok: "scalar_inv s \<Longrightarrow> scalar_peek s = Ok (sp_tokens s ! sp_position s)"
  by (simp add: scalar_inv_def scalar_peek_def slot_def)

lemma scalar_advance_ok:
  assumes "scalar_inv s" and "tk_kind (sp_tokens s ! sp_position s) \<noteq> KEnd"
  shows "scalar_grows 1 s (scalar_advance s)" "Suc (scalar_left (scalar_advance s)) = scalar_left s"
proof -
  have "sp_position s \<noteq> length (sp_tokens s) - 1" "sp_position s < length (sp_tokens s)"
    using assms by (auto simp: scalar_inv_def tokens_ok_def)
  then have "Suc (sp_position s) < length (sp_tokens s)" by simp
  then show "scalar_grows 1 s (scalar_advance s)" "Suc (scalar_left (scalar_advance s)) = scalar_left s"
    using assms(1) by (simp_all add: scalar_grows_def scalar_inv_def scalar_advance_def scalar_left_def)
qed

lemma scalar_grows_trans: "scalar_grows k s s' \<Longrightarrow> scalar_grows l s' s'' \<Longrightarrow> m \<le> k + l \<Longrightarrow> scalar_grows m s s''"
  by (auto simp: scalar_grows_def)

lemma scalar_grows_left: "scalar_grows k s s' \<Longrightarrow> scalar_left s' + k \<le> scalar_left s"
  by (auto simp: scalar_grows_def scalar_left_def scalar_inv_def)

lemma scalar_expect_ok:
  assumes "scalar_inv s" and "kind \<noteq> KEnd"
  shows "case scalar_expect kind message s of Inl e \<Rightarrow> compile_error e | Inr s' \<Rightarrow> scalar_grows 1 s s'"
  using assms scalar_advance_ok(1) by (auto simp: scalar_expect_def scalar_peek_Ok)

lemma scalar_emit_ok:
  assumes "scalar_inv s" and "instruction_ok (length (sp_instructions s)) i"
  shows "scalar_value_ok 0 s (scalar_emit i offset s)"
proof (cases "length (sp_instructions s) \<ge> MAX_INSTRUCTIONS")
  case True
  then show ?thesis by (simp add: scalar_emit_def scalar_value_ok_def)
next
  case False
  have "scalar_inv (s\<lparr>sp_instructions := sp_instructions s @ [i]\<rparr>)"
    using assms False by (auto simp: scalar_inv_def nth_append less_Suc_eq)
  with False show ?thesis by (simp add: scalar_emit_def scalar_value_ok_def scalar_grows_def)
qed

lemma scalar_value_simps [simp]:
  "scalar_value_ok k s (Inl e) \<longleftrightarrow> compile_error e"
  "scalar_value_ok k s (Inr (v, s')) \<longleftrightarrow> scalar_grows k s s' \<and> v < length (sp_instructions s')"
  by (simp_all add: scalar_value_ok_def)

lemma scalar_value_trans:
  assumes "scalar_grows k s s'" and "scalar_value_ok l s' r" and "m \<le> k + l"
  shows "scalar_value_ok m s r"
proof (cases r)
  case (Inl e)
  then show ?thesis using assms(2) by simp
next
  case (Inr x)
  then show ?thesis using assms(2) scalar_grows_trans [OF assms(1) _ assms(3)] by (cases x) simp
qed

lemma scalar_value_bind:
  assumes "scalar_value_ok k s r"
    and "\<And>v s'. r = Ok (v, s') \<Longrightarrow> scalar_grows k s s' \<Longrightarrow> v < length (sp_instructions s') \<Longrightarrow> scalar_value_ok l s' (f (v, s'))" and "m \<le> k + l"
  shows "scalar_value_ok m s (try_bind r f)"
proof (cases r)
  case (Inl e)
  then show ?thesis using assms(1) by simp
next
  case (Inr x)
  obtain v s' where x: "x = (v, s')" by (cases x)
  have g: "scalar_grows k s s'" "v < length (sp_instructions s')" using assms(1) by (simp_all add: Inr x)
  from scalar_value_trans [OF g(1) assms(2) [OF Inr [unfolded x] g] assms(3)] show ?thesis by (simp add: Inr x)
qed

text \<open>The recursion needs three units of fuel for each token left.\<close>

definition scalar_fueled :: "nat \<Rightarrow> bool" where
  "scalar_fueled n \<longleftrightarrow>
     (\<forall>s minimum depth. scalar_inv s \<longrightarrow> 3 * scalar_left s + 3 \<le> n \<longrightarrow> scalar_value_ok 1 s (scalar_expression n minimum depth s))
     \<and> (\<forall>s minimum depth left. scalar_inv s \<longrightarrow> left < length (sp_instructions s) \<longrightarrow> 3 * scalar_left s + 1 \<le> n
          \<longrightarrow> scalar_value_ok 0 s (scalar_operators n minimum depth left s))
     \<and> (\<forall>s depth. scalar_inv s \<longrightarrow> 3 * scalar_left s + 1 \<le> n \<longrightarrow> scalar_value_ok 1 s (scalar_atom n depth s))"

lemma scalar_expression_step:
  assumes n: "scalar_fueled n" and s: "scalar_inv s" "3 * scalar_left s + 3 \<le> Suc n"
  shows "scalar_value_ok 1 s (scalar_expression (Suc n) minimum depth s)"
proof (cases "depth \<ge> MAX_NESTING")
  case True
  then show ?thesis using s by (simp add: scalar_peek_Ok)
next
  case False
  have "scalar_value_ok 1 s (scalar_atom n depth s)" using n s by (simp add: scalar_fueled_def)
  then have "scalar_value_ok 1 s (try_bind (scalar_atom n depth s) (\<lambda>(left, s). scalar_operators n minimum depth left s))"
  proof (rule scalar_value_bind [where l = 0])
    fix v s' assume g: "scalar_grows 1 s s'" "v < length (sp_instructions s')"
    then have "scalar_inv s'" by (simp add: scalar_grows_def)
    then show "scalar_value_ok 0 s' ((\<lambda>(left, s). scalar_operators n minimum depth left s) (v, s'))"
      using n g(2) scalar_grows_left [OF g(1)] s(2) by (simp add: scalar_fueled_def)
  qed simp
  then show ?thesis using False by simp
qed

lemma scalar_operators_step:
  assumes n: "scalar_fueled n" and s: "scalar_inv s" "left < length (sp_instructions s)" "3 * scalar_left s + 1 \<le> Suc n"
  shows "scalar_value_ok 0 s (scalar_operators (Suc n) minimum depth left s)"
proof (cases "scalar_precedence (tk_kind (sp_tokens s ! sp_position s))")
  case None
  then show ?thesis using s by (simp add: scalar_peek_Ok scalar_grows_def)
next
  case (Some x)
  obtain operator precedence where x: "x = (operator, precedence)" by (cases x)
  show ?thesis
  proof (cases "precedence < minimum")
    case True
    then show ?thesis using s Some x by (simp add: scalar_peek_Ok scalar_grows_def)
  next
    case False
    have "tk_kind (sp_tokens s ! sp_position s) \<noteq> KEnd" using Some by auto
    note adv = scalar_advance_ok [OF s(1) this]
    let ?off = "tk_offset (sp_tokens s ! sp_position s)"
    have inv: "scalar_inv (scalar_advance s)" using adv(1) by (simp add: scalar_grows_def)
    have "scalar_value_ok 1 (scalar_advance s) (scalar_expression n (precedence + 1) (depth + 1) (scalar_advance s))"
      using n inv adv(2) s(3) by (simp add: scalar_fueled_def)
    then have "scalar_value_ok 1 (scalar_advance s) (try_bind (scalar_expression n (precedence + 1) (depth + 1) (scalar_advance s)) (\<lambda>(right, s).
        try_bind (scalar_emit (IBinary operator left right) ?off s) (\<lambda>(left, s). scalar_operators n minimum depth left s)))"
    proof (rule scalar_value_bind [where l = 0])
      fix right s1 assume g1: "scalar_grows 1 (scalar_advance s) s1" "right < length (sp_instructions s1)"
      have inv1: "scalar_inv s1" and left: "left < length (sp_instructions s1)" using g1(1) s(2) adv(1) by (simp_all add: scalar_grows_def)
      have "scalar_value_ok 0 s1 (scalar_emit (IBinary operator left right) ?off s1)"
        using inv1 left g1(2) by (intro scalar_emit_ok) simp_all
      then show "scalar_value_ok 0 s1 ((\<lambda>(right, s). try_bind (scalar_emit (IBinary operator left right) ?off s) (\<lambda>(left, s). scalar_operators n minimum depth left s)) (right, s1))"
        unfolding prod.case
      proof (rule scalar_value_bind [where l = 0])
        fix v s2 assume g2: "scalar_grows 0 s1 s2" "v < length (sp_instructions s2)"
        then have "scalar_inv s2" "scalar_left s2 \<le> scalar_left s1" using scalar_grows_left [OF g2(1)] by (simp_all add: scalar_grows_def)
        then show "scalar_value_ok 0 s2 ((\<lambda>(left, s). scalar_operators n minimum depth left s) (v, s2))"
          using n g2(2) scalar_grows_left [OF g1(1)] adv(2) s(3) by (simp add: scalar_fueled_def)
      qed simp
    qed simp
    from scalar_value_trans [OF adv(1) this, of 0] show ?thesis
      using False s(1) Some x by (simp add: scalar_peek_Ok)
  qed
qed

lemma scalar_atom_step:
  assumes n: "scalar_fueled n" and s: "scalar_inv s" "3 * scalar_left s + 1 \<le> Suc n"
  shows "scalar_value_ok 1 s (scalar_atom (Suc n) depth s)"
proof -
  let ?k = "tk_kind (sp_tokens s ! sp_position s)" and ?off = "tk_offset (sp_tokens s ! sp_position s)" and ?s = "scalar_advance s"
  have emit: "scalar_value_ok 1 s (scalar_emit i ?off ?s)" if "?k \<noteq> KEnd" "instruction_ok (length (sp_instructions s)) i" for i
  proof -
    note adv = scalar_advance_ok [OF s(1) that(1)]
    have "scalar_value_ok 0 ?s (scalar_emit i ?off ?s)"
      using adv(1) that(2) by (intro scalar_emit_ok) (simp_all add: scalar_grows_def scalar_advance_def)
    from scalar_value_trans [OF adv(1) this] show ?thesis by simp
  qed
  show ?thesis
  proof (cases ?k)
    case (KNumber v)
    then show ?thesis using emit [of "IConstant v"] s(1) by (simp add: scalar_peek_Ok)
  next
    case (KWord name)
    show ?thesis
    proof (cases "name = ascii ''input''")
      case True
      then show ?thesis using KWord emit [of IInput] s(1) by (simp add: scalar_peek_Ok)
    next
      case False
      show ?thesis
      proof (cases "bt_get (sp_locals s) name")
        case None
        then show ?thesis using KWord False s(1) by (simp add: scalar_peek_Ok)
      next
        case (Some v)
        then have "(name, v) \<in> set (sp_locals s)" using s(1) by (simp add: scalar_inv_def bt_get_Some_iff)
        then have "v < length (sp_instructions s)" using s(1) by (auto simp: scalar_inv_def)
        then show ?thesis using KWord False Some emit [of "ICopy v"] s(1) by (simp add: scalar_peek_Ok)
      qed
    qed
  next
    case KLeftParen
    then have "?k \<noteq> KEnd" by simp
    note adv = scalar_advance_ok [OF s(1) this]
    have inv: "scalar_inv ?s" using adv(1) by (simp add: scalar_grows_def)
    have "scalar_value_ok 1 ?s (scalar_expression n 0 (depth + 1) ?s)" using n inv adv(2) s(2) by (simp add: scalar_fueled_def)
    then have "scalar_value_ok 1 ?s (try_bind (scalar_expression n 0 (depth + 1) ?s) (\<lambda>(v, s).
        try_bind (scalar_expect KRightParen ''closing parenthesis expected'' s) (\<lambda>s. Ok (v, s))))"
    proof (rule scalar_value_bind [where l = 0])
      fix v s1 assume g: "scalar_grows 1 ?s s1" "v < length (sp_instructions s1)"
      have "scalar_inv s1" using g(1) by (simp add: scalar_grows_def)
      from scalar_expect_ok [OF this, of KRightParen "''closing parenthesis expected''"] g(2)
      show "scalar_value_ok 0 s1 ((\<lambda>(v, s). try_bind (scalar_expect KRightParen ''closing parenthesis expected'' s) (\<lambda>s. Ok (v, s))) (v, s1))"
        by (cases "scalar_expect KRightParen ''closing parenthesis expected'' s1") (auto simp: scalar_grows_def)
    qed simp
    from scalar_value_trans [OF adv(1) this, of 1] show ?thesis using KLeftParen s(1) by (simp add: scalar_peek_Ok)
  qed (use s in \<open>simp_all add: scalar_peek_Ok\<close>)
qed

lemma scalar_fueled_all: "scalar_fueled n"
proof (induction n)
  case (Suc n)
  then show ?case
    using scalar_expression_step [OF Suc] scalar_operators_step [OF Suc] scalar_atom_step [OF Suc] unfolding scalar_fueled_def [of "Suc n"] by blast
qed (simp add: scalar_fueled_def)

lemma scalar_expression_ok:
  assumes "scalar_inv s"
  shows "scalar_value_ok 1 s (scalar_expression (scalar_fuel s) 0 0 s)"
  using scalar_fueled_all [of "scalar_fuel s"] assms unfolding scalar_fueled_def by (simp add: scalar_fuel_def scalar_left_def)

text \<open>Steps that return the parser only.\<close>

definition scalar_reads :: "nat \<Rightarrow> scalar_parser \<Rightarrow> parse_fail + scalar_parser \<Rightarrow> bool" where
  "scalar_reads k s r \<longleftrightarrow> (case r of
       Inl e \<Rightarrow> compile_error e
     | Inr s' \<Rightarrow> scalar_inv s' \<and> sp_tokens s' = sp_tokens s \<and> sp_position s + k \<le> sp_position s')"

lemma scalar_reads_simps [simp]:
  "scalar_reads k s (Inl e) \<longleftrightarrow> compile_error e"
  "scalar_reads k s (Inr s') \<longleftrightarrow> scalar_inv s' \<and> sp_tokens s' = sp_tokens s \<and> sp_position s + k \<le> sp_position s'"
  by (simp_all add: scalar_reads_def)

lemma scalar_reads_expect: "scalar_inv s \<Longrightarrow> kind \<noteq> KEnd \<Longrightarrow> scalar_reads 1 s (scalar_expect kind message s)"
  using scalar_expect_ok [of s kind message] by (cases "scalar_expect kind message s") (simp_all add: scalar_grows_def)

lemma scalar_reads_word: "scalar_inv s \<Longrightarrow> scalar_reads 1 s (scalar_word word s)"
  unfolding scalar_word_def by (rule scalar_reads_expect) simp_all

lemma scalar_reads_mono: "scalar_reads k s r \<Longrightarrow> m \<le> k \<Longrightarrow> scalar_reads m s r"
  by (cases r) simp_all

lemma scalar_reads_bind:
  assumes "scalar_reads k s r" and "\<And>s'. scalar_inv s' \<Longrightarrow> sp_tokens s' = sp_tokens s \<Longrightarrow> scalar_reads l s' (f s')" and "m \<le> k + l"
  shows "scalar_reads m s (try_bind r f)"
proof (cases r)
  case (Inr s')
  then have s': "scalar_inv s'" "sp_tokens s' = sp_tokens s" "sp_position s + k \<le> sp_position s'" using assms(1) by simp_all
  from assms(2) [OF s'(1,2)] s' show ?thesis using assms(3) by (cases "f s'") (simp_all add: Inr)
qed (use assms(1) in simp)

lemma scalar_reads_value:
  assumes "scalar_inv s"
    and "\<And>v s'. scalar_inv s' \<Longrightarrow> sp_tokens s' = sp_tokens s \<Longrightarrow> v < length (sp_instructions s') \<Longrightarrow> sp_locals s' = sp_locals s \<Longrightarrow> scalar_reads l s' (f (v, s'))"
    and "m \<le> 1 + l"
  shows "scalar_reads m s (try_bind (scalar_expression (scalar_fuel s) 0 0 s) f)"
proof (cases "scalar_expression (scalar_fuel s) 0 0 s")
  case (Inl e)
  then show ?thesis using scalar_expression_ok [OF assms(1)] by simp
next
  case (Inr x)
  obtain v s' where x: "x = (v, s')" by (cases x)
  have g: "scalar_grows 1 s s'" "v < length (sp_instructions s')" using scalar_expression_ok [OF assms(1)] by (simp_all add: Inr x)
  from assms(2) [of s' v] g show ?thesis using assms(3) by (cases "f (v, s')") (auto simp: Inr x scalar_grows_def)
qed

lemma scalar_annotation_reads: "scalar_inv s \<Longrightarrow> scalar_reads 0 s (scalar_annotation s)"
proof -
  assume s: "scalar_inv s"
  show ?thesis
  proof (cases "tk_kind (sp_tokens s ! sp_position s) = KColon")
    case True
    then have "scalar_grows 1 s (scalar_advance s)" using scalar_advance_ok [OF s] by simp
    with scalar_reads_word [of "scalar_advance s" "''u64''"] True s show ?thesis
      by (cases "scalar_word ''u64'' (scalar_advance s)") (auto simp: scalar_annotation_def scalar_peek_Ok scalar_grows_def)
  qed (use s in \<open>simp add: scalar_annotation_def scalar_peek_Ok\<close>)
qed

lemma scalar_bind_local:
  assumes "scalar_inv s" and "v < length (sp_instructions s)"
  shows "scalar_inv (s\<lparr>sp_locals := bt_insert name v (sp_locals s)\<rparr>)"
  using assms by (auto simp: scalar_inv_def set_bt_insert)

lemma scalar_binding_reads:
  assumes "scalar_inv s"
  shows "scalar_reads 1 s (scalar_binding s)"
  unfolding scalar_binding_def
proof (rule scalar_reads_bind [where l = 0, OF scalar_reads_word [OF assms]])
  fix s1 assume s1: "scalar_inv s1"
  let ?t = "sp_tokens s1 ! sp_position s1"
  let ?rest = "\<lambda>name. try_bind (scalar_annotation (scalar_advance s1)) (\<lambda>s.
      try_bind (scalar_expect KEqual ''local initializer expected'' s) (\<lambda>s.
      try_bind (scalar_expression (scalar_fuel s) 0 0 s) (\<lambda>(v, s).
      try_bind (scalar_expect KSemicolon ''semicolon required after local initializer'' s) (\<lambda>s.
      Ok (s\<lparr>sp_locals := bt_insert name v (sp_locals s)\<rparr>)))))"
  have main: "scalar_reads 0 s1 (?rest name)" if "tk_kind ?t = KWord name" for name
  proof -
    have adv: "scalar_grows 1 s1 (scalar_advance s1)" using scalar_advance_ok(1) [OF s1] that by simp
    then have inv: "scalar_inv (scalar_advance s1)" "sp_tokens (scalar_advance s1) = sp_tokens s1" "sp_position s1 \<le> sp_position (scalar_advance s1)"
      by (simp_all add: scalar_grows_def)
    have "scalar_reads 0 (scalar_advance s1) (?rest name)"
    proof (rule scalar_reads_bind [where l = 0, OF scalar_annotation_reads [OF inv(1)]])
      fix s2 assume s2: "scalar_inv s2"
      show "scalar_reads 0 s2 (try_bind (scalar_expect KEqual ''local initializer expected'' s2) (\<lambda>s.
          try_bind (scalar_expression (scalar_fuel s) 0 0 s) (\<lambda>(v, s).
          try_bind (scalar_expect KSemicolon ''semicolon required after local initializer'' s) (\<lambda>s.
          Ok (s\<lparr>sp_locals := bt_insert name v (sp_locals s)\<rparr>)))))"
      proof (rule scalar_reads_bind [where l = 0, OF scalar_reads_expect [OF s2]])
        fix s3 assume s3: "scalar_inv s3"
        show "scalar_reads 0 s3 (try_bind (scalar_expression (scalar_fuel s3) 0 0 s3) (\<lambda>(v, s).
          try_bind (scalar_expect KSemicolon ''semicolon required after local initializer'' s) (\<lambda>s.
          Ok (s\<lparr>sp_locals := bt_insert name v (sp_locals s)\<rparr>))))"
        proof (rule scalar_reads_value [where l = 0, OF s3])
          fix v s4 assume s4: "scalar_inv s4" "v < length (sp_instructions s4)"
          show "scalar_reads 0 s4 ((\<lambda>(v, s). try_bind (scalar_expect KSemicolon ''semicolon required after local initializer'' s) (\<lambda>s.
              Ok (s\<lparr>sp_locals := bt_insert name v (sp_locals s)\<rparr>))) (v, s4))"
            unfolding prod.case
          proof (cases "scalar_expect KSemicolon ''semicolon required after local initializer'' s4")
            case (Inr b)
            then have b: "scalar_grows 1 s4 b" using scalar_expect_ok [OF s4(1), of KSemicolon "''semicolon required after local initializer''"] by simp
            then have "scalar_inv (b\<lparr>sp_locals := bt_insert name v (sp_locals b)\<rparr>)" using s4(2) by (intro scalar_bind_local) (simp_all add: scalar_grows_def)
            with b show "scalar_reads 0 s4 (try_bind (scalar_expect KSemicolon ''semicolon required after local initializer'' s4) (\<lambda>s.
                Ok (s\<lparr>sp_locals := bt_insert name v (sp_locals s)\<rparr>)))" by (simp add: Inr scalar_grows_def)
          qed (use scalar_expect_ok [OF s4(1), of KSemicolon "''semicolon required after local initializer''"] in simp)
        qed simp
      qed simp_all
    qed simp
    with inv(2,3) show ?thesis by (cases "?rest name") simp_all
  qed
  show "scalar_reads 0 s1 (try_bind (scalar_peek s1) (\<lambda>token.
     case tk_kind token of
       KWord name \<Rightarrow>
         if name \<in> set scalar_reserved then Err (CompileError (tk_offset token) ''reserved local identifier'')
         else if bt_contains (sp_locals s1) name then Err (CompileError (tk_offset token) ''immutable local cannot be redefined'')
         else if length (sp_locals s1) \<ge> MAX_LOCALS then Err (CompileError (tk_offset token) ''local binding limit exceeded'')
         else ?rest name
     | _ \<Rightarrow> Err (CompileError (tk_offset token) ''local identifier expected'')))"
    using main by (simp add: scalar_peek_Ok [OF s1] split: scalar_kind.splits)
qed simp

lemma scalar_bindings_reads:
  "scalar_inv s \<Longrightarrow> scalar_left s < n \<Longrightarrow> scalar_reads 0 s (scalar_bindings n s)"
proof (induction n arbitrary: s)
  case (Suc n)
  show ?case
  proof (cases "tk_kind (sp_tokens s ! sp_position s) = KWord (ascii ''let'')")
    case True
    have r: "scalar_reads 1 s (scalar_binding s)" using Suc.prems(1) by (rule scalar_binding_reads)
    show ?thesis
    proof (cases "scalar_binding s")
      case (Inl e)
      then show ?thesis using True r Suc.prems by (simp add: scalar_peek_Ok)
    next
      case (Inr s')
      then have s': "scalar_inv s'" "sp_tokens s' = sp_tokens s" "sp_position s < sp_position s'" using r by simp_all
      then have "sp_position s' < length (sp_tokens s)" by (simp add: scalar_inv_def)
      then have "scalar_left s' < n" using Suc.prems(2) s'(3) unfolding scalar_left_def s'(2) by arith
      from Suc.IH [OF s'(1) this] s' show ?thesis
        using True Suc.prems(1) by (cases "scalar_bindings n s'") (simp_all add: scalar_peek_Ok Inr)
    qed
  qed (use Suc.prems in \<open>simp add: scalar_peek_Ok\<close>)
qed simp

lemma scalar_header_reads: "scalar_inv s \<Longrightarrow> scalar_reads 0 s (scalar_header s)"
  unfolding scalar_header_def
  by (intro scalar_reads_bind [where k = 1 and l = 0] scalar_reads_word scalar_reads_expect scalar_reads_mono [where k = 1 and m = 0]) simp_all

lemma scalar_parse_ok:
  "case scalar_parse source of
     Inl e \<Rightarrow> compile_error e
   | Inr (instrs, result) \<Rightarrow> scalar_ok instrs result \<and> length instrs \<le> MAX_INSTRUCTIONS"
proof (cases "scalar_lex source")
  case (Inl e)
  then show ?thesis using scalar_lex_ok [of source] by (simp add: scalar_parse_def)
next
  case (Inr tokens)
  let ?s = "\<lparr>sp_tokens = tokens, sp_position = 0, sp_locals = [], sp_instructions = []\<rparr>"
  have inv: "scalar_inv ?s" using scalar_lex_ok [of source] by (auto simp: Inr scalar_inv_def tokens_ok_def)
  let ?head = "try_bind (scalar_header ?s) (\<lambda>s. try_bind (scalar_bindings (length tokens + 1) s) (\<lambda>s. scalar_word ''return'' s))"
  have head: "scalar_reads 0 ?s ?head"
  proof (rule scalar_reads_bind [where l = 0, OF scalar_header_reads [OF inv]])
    fix s1 assume s1: "scalar_inv s1" "sp_tokens s1 = sp_tokens ?s"
    then have "scalar_left s1 < length tokens + 1" by (simp add: scalar_left_def)
    then show "scalar_reads 0 s1 (try_bind (scalar_bindings (length tokens + 1) s1) (\<lambda>s. scalar_word ''return'' s))"
      using s1(1) by (intro scalar_reads_bind [where k = 0 and l = 1] scalar_bindings_reads scalar_reads_word) simp_all
  qed simp
  have parse: "scalar_parse source = try_bind ?head (\<lambda>s.
     try_bind (scalar_expression (scalar_fuel s) 0 0 s) (\<lambda>(result, s).
     try_bind (scalar_expect KSemicolon ''semicolon required after return value'' s) (\<lambda>s.
     try_bind (scalar_expect KRightBrace ''only immutable locals and one return are supported'' s) (\<lambda>s.
     try_bind (scalar_expect KEnd ''trailing source or additional functions are unsupported'' s) (\<lambda>s.
     Ok (sp_instructions s, result))))))" (is "_ = try_bind ?head ?tail")
    unfolding scalar_parse_def Inr try_bind.simps(2) try_bind_assoc ..
  have tail: "case ?tail s of Inl e \<Rightarrow> compile_error e
      | Inr (instrs, result) \<Rightarrow> scalar_ok instrs result \<and> length instrs \<le> MAX_INSTRUCTIONS" if s: "scalar_inv s" for s
  proof (cases "scalar_expression (scalar_fuel s) 0 0 s")
    case (Inl e)
    then show ?thesis using scalar_expression_ok [OF s] by simp
  next
    case (Inr x)
    obtain v s1 where x: "x = (v, s1)" by (cases x)
    have g: "scalar_grows 1 s s1" "v < length (sp_instructions s1)" using scalar_expression_ok [OF s] by (simp_all add: Inr x)
    then have s1: "scalar_inv s1" by (simp add: scalar_grows_def)
    show ?thesis
    proof (cases "scalar_expect KSemicolon ''semicolon required after return value'' s1")
      case (Inl e)
      then show ?thesis using scalar_expect_ok [OF s1, of KSemicolon "''semicolon required after return value''"] by (simp add: Inr x)
    next
      case r2: (Inr s2)
      then have g2: "scalar_grows 1 s1 s2" using scalar_expect_ok [OF s1, of KSemicolon "''semicolon required after return value''"] by simp
      then have s2: "scalar_inv s2" by (simp add: scalar_grows_def)
      show ?thesis
      proof (cases "scalar_expect KRightBrace ''only immutable locals and one return are supported'' s2")
        case (Inl e)
        then show ?thesis using scalar_expect_ok [OF s2, of KRightBrace "''only immutable locals and one return are supported''"] by (simp add: Inr x r2)
      next
        case r3: (Inr s3)
        then have g3: "scalar_grows 1 s2 s3" using scalar_expect_ok [OF s2, of KRightBrace "''only immutable locals and one return are supported''"] by simp
        then have s3: "scalar_inv s3" by (simp add: scalar_grows_def)
        have "v < length (sp_instructions s3)" using g(2) g2 g3 by (simp add: scalar_grows_def)
        then have ok: "scalar_ok (sp_instructions s3) v" "length (sp_instructions s3) \<le> MAX_INSTRUCTIONS"
          using s3 by (simp_all add: scalar_inv_def scalar_ok_def)
        show ?thesis
          using ok by (cases "scalar_expect KEnd ''trailing source or additional functions are unsupported'' s3")
            (auto simp: Inr x r2 r3, auto simp: scalar_expect_def scalar_peek_Ok [OF s3] scalar_advance_def split: if_splits)
      qed
    qed
  qed
  show ?thesis
  proof (cases ?head)
    case (Inl e)
    then show ?thesis using head unfolding parse Inl by simp
  next
    case (Inr s)
    then have "scalar_inv s" using head by simp
    from tail [OF this] show ?thesis unfolding parse Inr try_bind.simps .
  qed
qed

end
