(* ===== verification/Astro_Trocto_Typing.thy ===== *)
theory Astro_Trocto_Typing
  imports Astro_Trocto_Front
begin

text \<open>
  The typed front end accepts only checked programs. Each parser action is described by what it does to the
  parser (\<open>since\<close>): how many tokens it reads at least, which types its new registers get, and that code is only added. Code
  whose jumps may still point just behind it is \<open>loose\<close>; a statement that returns makes it tight.
\<close>

section \<open>The invariant of the parser\<close>

definition token_good :: "token_kind \<Rightarrow> bool" where
  "token_good k \<longleftrightarrow> (case k of TKey key \<Rightarrow> key \<noteq> [] \<and> length key \<le> TROCTO_STATE_KEY_BYTES | TSymbol w \<Rightarrow> length w \<le> 2 | _ \<Rightarrow> True)"

definition tokens_good :: "token_kind token list \<Rightarrow> bool" where
  "tokens_good ts \<longleftrightarrow> tokens_ok TEnd ts \<and> (\<forall>t \<in> set ts. token_good (tk_kind t))"

definition scopes_ok :: "tr_type list \<Rightarrow> (byte list, tr_binding) btree list \<Rightarrow> bool" where
  "scopes_ok lt scopes \<longleftrightarrow> (\<forall>scope \<in> set scopes. bt_ok scope \<and> (\<forall>(name, b) \<in> set scope. typed_at lt (bd_local b) (bd_ty b)))"

definition keys_ok :: "(byte list, nat) btree \<Rightarrow> bool" where
  "keys_ok keys \<longleftrightarrow> bt_ok keys \<and> snd ` set keys = {..<length keys} \<and> length keys \<le> MAX_STATE_KEYS
     \<and> (\<forall>(key, i) \<in> set keys. key \<noteq> [] \<and> length key \<le> TROCTO_STATE_KEY_BYTES)"

definition code_ok :: "tr_type list \<Rightarrow> tr_type list \<Rightarrow> nat \<Rightarrow> nat \<Rightarrow> tr_step list \<Rightarrow> bool" where
  "code_ok rt lt k n code \<longleftrightarrow> (\<forall>i \<in> set code. step_ok rt lt k n i)"

definition front_inv :: "tr_type list \<Rightarrow> tr_type list \<Rightarrow> tr_parser \<Rightarrow> bool" where
  "front_inv rt lt s \<longleftrightarrow> tokens_good (tp_tokens s) \<and> tp_pos s < length (tp_tokens s)
     \<and> length rt = tp_registers s \<and> tp_registers s \<le> MAX_INSTRUCTIONS
     \<and> length lt = tp_locals s \<and> tp_locals s \<le> MAX_LOCALS
     \<and> length (tp_instructions s) \<le> MAX_INSTRUCTIONS
     \<and> code_ok rt lt (length (tp_keys s)) (Suc (length (tp_instructions s))) (tp_instructions s)
     \<and> scopes_ok lt (tp_scopes s) \<and> keys_ok (tp_keys s)"

text \<open>The parser read on: at least \<open>k\<close> tokens, registers and locals only added, code only appended.\<close>

definition front_ext :: "nat \<Rightarrow> tr_type list \<times> tr_type list \<times> tr_parser \<Rightarrow> tr_type list \<times> tr_type list \<times> tr_parser \<Rightarrow> bool" where
  "front_ext k = (\<lambda>(rt, lt, s) (rt', lt', s').
     front_inv rt' lt' s' \<and> tp_tokens s' = tp_tokens s \<and> tp_pos s + k \<le> tp_pos s'
     \<and> take (length rt) rt' = rt \<and> take (length lt) lt' = lt \<and> take (length (tp_instructions s)) (tp_instructions s') = tp_instructions s
     \<and> length (tp_keys s) \<le> length (tp_keys s') \<and> length (tp_scopes s') = length (tp_scopes s)
     \<and> butlast (tp_scopes s') = butlast (tp_scopes s))"

definition post :: "('a \<Rightarrow> tr_parser \<Rightarrow> bool) \<Rightarrow> parse_fail + 'a \<times> tr_parser \<Rightarrow> bool" where
  "post Q r \<longleftrightarrow> (case r of Inl e \<Rightarrow> compile_error e | Inr (x, s) \<Rightarrow> Q x s)"

text \<open>
  Running an action in a state that grew out of \<open>base\<close>: it fails with a compile error, or ends in a state that grew out of \<open>base\<close>
  by reading at least \<open>k\<close> tokens, where \<open>Q\<close> holds of the result under the new types.
\<close>

type_synonym base = "tr_type list \<times> tr_type list \<times> tr_parser"
type_synonym 'a outcome = "tr_type list \<Rightarrow> tr_type list \<Rightarrow> 'a \<Rightarrow> tr_parser \<Rightarrow> bool"

definition since :: "nat \<Rightarrow> base \<Rightarrow> 'a outcome \<Rightarrow> tr_parser \<Rightarrow> 'a parse \<Rightarrow> bool" where
  "since k base Q s m \<longleftrightarrow> post (\<lambda>x s'. \<exists>rt lt. front_ext k base (rt, lt, s') \<and> Q rt lt x s') (m s)"

abbreviation runs :: "nat \<Rightarrow> 'a outcome \<Rightarrow> tr_type list \<Rightarrow> tr_type list \<Rightarrow> tr_parser \<Rightarrow> 'a parse \<Rightarrow> bool" where
  "runs k Q rt lt s m \<equiv> since k (rt, lt, s) Q s m"

lemma typed_at_take: "typed_at ts i t \<Longrightarrow> take (length ts) ts' = ts \<Longrightarrow> typed_at ts' i t"
  by (metis length_take min_less_iff_conj nth_take typed_at_def)

lemma step_ok_mono:
  assumes "step_ok rt lt k n i" and "take (length rt) rt' = rt" and "take (length lt) lt' = lt" and "k \<le> k'" and "n \<le> n'"
  shows "step_ok rt' lt' k' n' i"
proof -
  note r = typed_at_take [OF _ assms(2)] and l = typed_at_take [OF _ assms(3)]
  show ?thesis
    using assms(1,4,5) by (cases i) (auto split: tr_binary.splits dest: r l)
qed

lemma code_ok_mono:
  "code_ok rt lt k n code \<Longrightarrow> take (length rt) rt' = rt \<Longrightarrow> take (length lt) lt' = lt \<Longrightarrow> k \<le> k' \<Longrightarrow> n \<le> n' \<Longrightarrow> code_ok rt' lt' k' n' code"
  unfolding code_ok_def using step_ok_mono by blast

lemma take_eq_le: "take (length xs) ys = xs \<Longrightarrow> length xs \<le> length ys"
  by (metis length_take min.cobounded1)

lemma take_eq_trans: "take (length xs) ys = xs \<Longrightarrow> take (length ys) zs = ys \<Longrightarrow> take (length xs) zs = xs"
  by (metis min.absorb1 take_eq_le take_take)

lemma front_ext_refl: "front_inv rt lt s \<Longrightarrow> front_ext 0 (rt, lt, s) (rt, lt, s)"
  by (simp add: front_ext_def)

lemma front_ext_trans:
  assumes "front_ext k base (rt1, lt1, s1)" and "front_ext l (rt1, lt1, s1) (rt2, lt2, s2)" and "m \<le> k + l"
  shows "front_ext m base (rt2, lt2, s2)"
proof -
  obtain rt lt s where base: "base = (rt, lt, s)" by (cases base)
  have "take (length rt) rt2 = rt" "take (length lt) lt2 = lt" "take (length (tp_instructions s)) (tp_instructions s2) = tp_instructions s"
    using assms take_eq_trans by (auto simp: front_ext_def base)
  then show ?thesis using assms by (simp add: front_ext_def base)
qed

lemma front_ext_weaken: "front_ext k base b \<Longrightarrow> n \<le> k \<Longrightarrow> front_ext n base b"
  by (cases base; cases b) (simp add: front_ext_def)

lemma front_extD:
  assumes "front_ext k (rt, lt, s) (rt', lt', s')"
  shows "typed_at rt r t \<Longrightarrow> typed_at rt' r t" "typed_at lt r t \<Longrightarrow> typed_at lt' r t"
    "length (tp_instructions s) \<le> length (tp_instructions s')" "length (tp_keys s) \<le> length (tp_keys s')" "tp_tokens s' = tp_tokens s"
    "tp_pos s + k \<le> tp_pos s'"
  using assms typed_at_take take_eq_le by (auto simp: front_ext_def)

lemma front_ext_inv: "front_ext k base (rt, lt, s) \<Longrightarrow> front_inv rt lt s"
  by (cases base) (simp add: front_ext_def)

lemma post_simps [simp]: "post Q (Inl e) \<longleftrightarrow> compile_error e" "post Q (Inr (x, s)) \<longleftrightarrow> Q x s"
  by (simp_all add: post_def)

lemma post_mono: "post Q r \<Longrightarrow> (\<And>x s. Q x s \<Longrightarrow> R x s) \<Longrightarrow> post R r"
  by (auto simp: post_def split: sum.splits)

lemma post_bind:
  assumes "post Q (m s)" and "\<And>x s'. Q x s' \<Longrightarrow> post R (f x s')"
  shows "post R (pbind m f s)"
  using assms by (cases "m s") (auto simp: pbind_def)

section \<open>Rules for the actions\<close>

lemma pbind_assoc: "pbind (pbind a b) c = pbind a (\<lambda>x. pbind (b x) c)"
  by (rule ext) (simp add: pbind_def try_bind_assoc case_prod_unfold)

lemma pbind_return: "pbind (preturn x) f = f x"
  by (rule ext) (simp add: pbind_def preturn_def)

lemma pbind_error: "pbind (perror message) f = perror message"
  by (rule ext) (simp add: pbind_def perror_def try_bind_assoc case_prod_unfold)

lemmas pbind_laws = pbind_assoc pbind_return pbind_error

text \<open>Conditionals and cases in front of a continuation.\<close>

lemma since_if: "(c \<Longrightarrow> since n base Q s a) \<Longrightarrow> (\<not> c \<Longrightarrow> since n base Q s b) \<Longrightarrow> since n base Q s (if c then a else b)"
  by simp

text \<open>A part whose behaviour is known.\<close>

lemma since_run:
  assumes "front_ext j base (rt, lt, s)" and "runs l Q rt lt s m"
    and "\<And>rt' lt' x s'. front_ext (j + l) base (rt', lt', s') \<Longrightarrow> front_ext l (rt, lt, s) (rt', lt', s') \<Longrightarrow> Q rt' lt' x s' \<Longrightarrow> since n base R s' (f x)"
  shows "since n base R s (pbind m f)"
  unfolding since_def
proof (rule post_bind [where m = m and s = s, OF assms(2) [unfolded since_def]])
  fix x s' assume "\<exists>rt' lt'. front_ext l (rt, lt, s) (rt', lt', s') \<and> Q rt' lt' x s'"
  then obtain rt' lt' where g: "front_ext l (rt, lt, s) (rt', lt', s')" "Q rt' lt' x s'" by blast
  from assms(3) [OF front_ext_trans [OF assms(1) g(1) order_refl] g]
  show "post (\<lambda>x s'. \<exists>rt lt. front_ext n base (rt, lt, s') \<and> R rt lt x s') (f x s')" by (simp add: since_def)
qed

lemma since_tail:
  assumes "front_ext j base (rt, lt, s)" and "runs l Q rt lt s m" and "n \<le> j + l"
    and "\<And>rt' lt' x s'. front_ext (j + l) base (rt', lt', s') \<Longrightarrow> front_ext l (rt, lt, s) (rt', lt', s') \<Longrightarrow> Q rt' lt' x s' \<Longrightarrow> R rt' lt' x s'"
  shows "since n base R s m"
  unfolding since_def
proof (rule post_mono [OF assms(2) [unfolded since_def]])
  fix x s' assume "\<exists>rt' lt'. front_ext l (rt, lt, s) (rt', lt', s') \<and> Q rt' lt' x s'"
  then obtain rt' lt' where g: "front_ext l (rt, lt, s) (rt', lt', s')" "Q rt' lt' x s'" by blast
  note e = front_ext_trans [OF assms(1) g(1) order_refl]
  from assms(4) [OF e g] front_ext_weaken [OF e assms(3)]
  show "\<exists>rt lt. front_ext n base (rt, lt, s') \<and> R rt lt x s'" by blast
qed

lemma since_return: "front_ext j base (rt, lt, s) \<Longrightarrow> n \<le> j \<Longrightarrow> Q rt lt x s \<Longrightarrow> since n base Q s (preturn x)"
  unfolding since_def preturn_def post_simps using front_ext_weaken by blast

lemma peek_Ok: "front_inv rt lt s \<Longrightarrow> peek s = Ok (tp_tokens s ! tp_pos s, s)"
  by (simp add: front_inv_def peek_def slot_def)

lemma since_peek:
  assumes "front_ext j base (rt, lt, s)" and "since n base Q s (f (tp_tokens s ! tp_pos s))"
  shows "since n base Q s (pbind peek f)"
  using assms(2) by (simp add: since_def pbind_def peek_Ok [OF front_ext_inv [OF assms(1)]])

lemma since_error: "front_ext j base (rt, lt, s) \<Longrightarrow> since n base Q s (perror message)"
  by (simp add: since_def perror_def pbind_def peek_Ok [OF front_ext_inv])

abbreviation advanced :: "tr_parser \<Rightarrow> tr_parser" where
  "advanced s \<equiv> s\<lparr>tp_pos := tp_pos s + 1\<rparr>"

lemma front_ext_advance:
  assumes "front_ext j base (rt, lt, s)" and "tk_kind (tp_tokens s ! tp_pos s) \<noteq> TEnd"
  shows "front_ext (Suc j) base (rt, lt, advanced s)"
proof -
  note inv = front_ext_inv [OF assms(1)]
  have "tp_pos s \<noteq> length (tp_tokens s) - 1" "tp_pos s < length (tp_tokens s)"
    using inv assms(2) by (auto simp: front_inv_def tokens_good_def tokens_ok_def)
  then show ?thesis using assms(1) by (cases base) (auto simp: front_ext_def front_inv_def)
qed

lemma since_advance:
  assumes "front_ext j base (rt, lt, s)" and "tk_kind (tp_tokens s ! tp_pos s) \<noteq> TEnd"
    and "front_ext (Suc j) base (rt, lt, advanced s) \<Longrightarrow> since n base Q (advanced s) (f ())"
  shows "since n base Q s (pbind advance f)"
  using assms(3) [OF front_ext_advance [OF assms(1,2)]] by (simp add: since_def pbind_def advance_def)

lemma kind_has_end: "kind_has k w \<Longrightarrow> k \<noteq> TEnd"
  by (auto simp: kind_has_def)

lemma since_take:
  assumes s: "front_ext j base (rt, lt, s)"
    and t: "kind_has (tk_kind (tp_tokens s ! tp_pos s)) w \<Longrightarrow> front_ext (Suc j) base (rt, lt, advanced s) \<Longrightarrow> since n base Q (advanced s) (f True)"
    and e: "\<not> kind_has (tk_kind (tp_tokens s ! tp_pos s)) w \<Longrightarrow> since n base Q s (f False)"
  shows "since n base Q s (pbind (take_token w) f)"
proof (cases "kind_has (tk_kind (tp_tokens s ! tp_pos s)) w")
  case True
  from t [OF True front_ext_advance [OF s kind_has_end [OF True]]] True show ?thesis
    by (simp add: since_def pbind_def take_token_def has_def peek_Ok [OF front_ext_inv [OF s]] preturn_def advance_def)
next
  case False
  from e [OF this] False show ?thesis
    by (simp add: since_def pbind_def take_token_def has_def peek_Ok [OF front_ext_inv [OF s]] preturn_def)
qed

lemma since_expect:
  assumes s: "front_ext j base (rt, lt, s)" and m: "front_ext (Suc j) base (rt, lt, advanced s) \<Longrightarrow> since n base Q (advanced s) (f ())"
  shows "since n base Q s (pbind (expect w) f)"
proof -
  have eq: "pbind (expect w) f = pbind (take_token w) (\<lambda>b. if b then f () else perror ''unexpected token or unsupported syntax'')"
    by (rule ext) (auto simp: expect_def pbind_def preturn_def perror_def try_bind_assoc try_bind_split split: prod.splits sum.splits)
  show ?thesis unfolding eq using m by (intro since_take [OF s]) (simp_all add: since_error [OF s])
qed

text \<open>Appending an instruction.\<close>

abbreviation appended :: "tr_step \<Rightarrow> tr_parser \<Rightarrow> tr_parser" where
  "appended step s \<equiv> s\<lparr>tp_instructions := tp_instructions s @ [step]\<rparr>"

lemma appended_ext:
  assumes "front_ext j base (rt, lt, s)" and "step_ok rt lt (length (tp_keys s)) (length (tp_instructions s) + 2) step"
    and "length (tp_instructions s) < MAX_INSTRUCTIONS"
  shows "front_ext j base (rt, lt, appended step s)"
proof -
  note inv = front_ext_inv [OF assms(1)]
  have "code_ok rt lt (length (tp_keys s)) (length (tp_instructions s) + 2) (tp_instructions s)"
    by (rule code_ok_mono [where rt = rt and lt = lt and k = "length (tp_keys s)" and n = "Suc (length (tp_instructions s))"])
      (use inv in \<open>simp_all add: front_inv_def\<close>)
  then have "front_inv rt lt (appended step s)" using inv assms(2,3) by (simp add: front_inv_def code_ok_def)
  then have "front_ext 0 (rt, lt, s) (rt, lt, appended step s)" by (simp add: front_ext_def)
  from front_ext_trans [OF assms(1) this] show ?thesis by simp
qed

lemma since_emit:
  assumes s: "front_ext j base (rt, lt, s)" and step: "step_ok rt lt (length (tp_keys s)) (length (tp_instructions s) + 2) step"
    and m: "front_ext j base (rt, lt, appended step s) \<Longrightarrow> since n base Q (appended step s) (f (length (tp_instructions s)))"
  shows "since n base Q s (pbind (emit step) f)"
proof (cases "length (tp_instructions s) \<ge> MAX_INSTRUCTIONS")
  case True
  then show ?thesis by (simp add: since_def pbind_def emit_def perror_def peek_Ok [OF front_ext_inv [OF s]])
next
  case False
  then show ?thesis using m [OF appended_ext [OF s step]] by (simp add: since_def pbind_def emit_def)
qed

abbreviation grown :: "tr_parser \<Rightarrow> tr_parser" where
  "grown s \<equiv> s\<lparr>tp_registers := tp_registers s + 1\<rparr>"

lemma since_register:
  assumes s: "front_ext j base (rt, lt, s)"
    and m: "front_ext j base (rt @ [ty], lt, grown s) \<Longrightarrow> typed_at (rt @ [ty]) (tp_registers s) ty
      \<Longrightarrow> since n base Q (grown s) (f \<lparr>va_register = tp_registers s, va_ty = ty\<rparr>)"
  shows "since n base Q s (pbind (register ty) f)"
proof (cases "tp_registers s \<ge> MAX_INSTRUCTIONS")
  case True
  then show ?thesis by (simp add: since_def pbind_def register_def perror_def peek_Ok [OF front_ext_inv [OF s]])
next
  case False
  note inv = front_ext_inv [OF s]
  have "code_ok (rt @ [ty]) lt (length (tp_keys s)) (Suc (length (tp_instructions s))) (tp_instructions s)"
    by (rule code_ok_mono [where rt = rt and lt = lt and k = "length (tp_keys s)" and n = "Suc (length (tp_instructions s))"])
      (use inv in \<open>simp_all add: front_inv_def\<close>)
  then have "front_ext 0 (rt, lt, s) (rt @ [ty], lt, grown s)" using inv False by (simp add: front_ext_def front_inv_def)
  from front_ext_trans [OF s this] have e: "front_ext j base (rt @ [ty], lt, grown s)" by simp
  have "typed_at (rt @ [ty]) (tp_registers s) ty" using inv by (auto simp: typed_at_def front_inv_def nth_append)
  from m [OF e this] False show ?thesis by (simp add: since_def pbind_def register_def)
qed

lemma since_typed:
  assumes "front_ext j base (rt, lt, s)" and "va_ty v = ty \<Longrightarrow> since n base Q s (f v)"
  shows "since n base Q s (pbind (typed v ty) f)"
proof (cases "va_ty v = ty")
  case True
  then show ?thesis using assms(2) by (simp add: since_def pbind_def typed_def preturn_def)
next
  case False
  then show ?thesis by (simp add: since_def pbind_def typed_def perror_def peek_Ok [OF front_ext_inv [OF assms(1)]])
qed

lemma since_code_length: "since n base Q s (f (length (tp_instructions s))) \<Longrightarrow> since n base Q s (pbind code_length f)"
  by (simp add: since_def pbind_def code_length_def)

lemma since_set_context:
  assumes "front_ext j base (rt, lt, s)"
    and "front_ext j base (rt, lt, s\<lparr>tp_context := True\<rparr>) \<Longrightarrow> since n base Q (s\<lparr>tp_context := True\<rparr>) (f ())"
  shows "since n base Q s (pbind set_context f)"
proof -
  have "front_ext j base (rt, lt, s\<lparr>tp_context := True\<rparr>)" using assms(1) by (cases base) (auto simp: front_ext_def front_inv_def)
  from assms(2) [OF this] show ?thesis by (simp add: since_def pbind_def set_context_def)
qed

text \<open>Patching an instruction that was added since the base.\<close>

lemma front_ext_patch:
  assumes e: "front_ext j (rt0, lt0, s0) (rt, lt, s)" and i: "length (tp_instructions s0) \<le> i"
    and step: "step_ok rt lt (length (tp_keys s)) (Suc (length (tp_instructions s))) step"
  shows "front_ext j (rt0, lt0, s0) (rt, lt, s\<lparr>tp_instructions := (tp_instructions s)[i := step]\<rparr>)"
proof -
  have "code_ok rt lt (length (tp_keys s)) (Suc (length (tp_instructions s))) ((tp_instructions s)[i := step])"
    using front_ext_inv [OF e] step set_update_subset_insert [of "tp_instructions s" i step] by (auto simp: front_inv_def code_ok_def)
  then show ?thesis using e i by (auto simp: front_ext_def front_inv_def)
qed

lemma since_patch:
  assumes e: "front_ext j (rt0, lt0, s0) (rt, lt, s)" and i: "length (tp_instructions s0) \<le> i" "i < length (tp_instructions s)"
    and step: "step_ok rt lt (length (tp_keys s)) (Suc (length (tp_instructions s))) step"
    and m: "front_ext j (rt0, lt0, s0) (rt, lt, s\<lparr>tp_instructions := (tp_instructions s)[i := step]\<rparr>)
      \<Longrightarrow> since n (rt0, lt0, s0) Q (s\<lparr>tp_instructions := (tp_instructions s)[i := step]\<rparr>) (f ())"
  shows "since n (rt0, lt0, s0) Q s (pbind (patch i step) f)"
  using m [OF front_ext_patch [OF e i(1) step]] i(2) by (simp add: since_def pbind_def patch_def put_slot_Some)

text \<open>What an expression leaves: its value is typed, bindings are untouched.\<close>

definition valued :: "tr_type list \<Rightarrow> (byte list, tr_binding) btree list \<Rightarrow> tr_value outcome" where
  "valued lt scopes rt' lt' v s' \<longleftrightarrow> typed_at rt' (va_register v) (va_ty v) \<and> lt' = lt \<and> tp_scopes s' = scopes"

lemma since_value:
  assumes s: "front_ext j base (rt, lt, s)" and "n \<le> j" and sc: "tp_scopes s = scopes"
    and step: "typed_at (rt @ [ty]) (tp_registers s) ty \<Longrightarrow> step_ok (rt @ [ty]) lt (length (tp_keys s)) (length (tp_instructions s) + 2) (step (tp_registers s))"
  shows "since n base (valued lt scopes) s (emit_value ty step)"
  unfolding emit_value_def sc [symmetric]
proof (rule since_register [OF s])
  assume e: "front_ext j base (rt @ [ty], lt, grown s)" and t: "typed_at (rt @ [ty]) (tp_registers s) ty"
  show "since n base (valued lt (tp_scopes s)) (grown s)
     (pbind (emit (step (va_register \<lparr>va_register = tp_registers s, va_ty = ty\<rparr>))) (\<lambda>_. preturn \<lparr>va_register = tp_registers s, va_ty = ty\<rparr>))"
    using step [OF t] t assms(2) by (intro since_emit [OF e] since_return) (auto simp: valued_def)
qed

lemma typed_snoc: "typed_at rt i t \<Longrightarrow> typed_at (rt @ [ty]) i t"
  by (simp add: typed_at_def nth_append)

text \<open>State keys are numbered in the order they appear.\<close>

lemma keys_ok_insert:
  assumes "keys_ok keys" and "bt_get keys key = None" and "length keys < MAX_STATE_KEYS" and "key \<noteq> []" "length key \<le> TROCTO_STATE_KEY_BYTES"
  shows "keys_ok (bt_insert key (length keys) keys)" "length (bt_insert key (length keys) keys) = Suc (length keys)"
proof -
  have ok: "bt_ok keys" using assms(1) by (simp add: keys_ok_def)
  have new: "key \<notin> fst ` set keys" using assms(2) ok by (simp add: bt_get_None_iff)
  have set: "set (bt_insert key (length keys) keys) = insert (key, length keys) (set keys)"
    by (rule set_bt_insert_new [OF new])
  show len: "length (bt_insert key (length keys) keys) = Suc (length keys)"
    by (rule length_bt_insert_new [OF new])
  have "snd ` insert (key, length keys) (set keys) = {..<Suc (length keys)}" using assms(1) by (auto simp: keys_ok_def)
  then show "keys_ok (bt_insert key (length keys) keys)"
    using assms(1,3,4,5) by (auto simp: keys_ok_def set len)
qed

lemma front_ext_keys:
  assumes "front_inv rt lt s" and "keys_ok keys" and "length (tp_keys s) \<le> length keys"
  shows "front_ext 0 (rt, lt, s) (rt, lt, s\<lparr>tp_context := True, tp_keys := keys\<rparr>)"
proof -
  have "code_ok rt lt (length keys) (Suc (length (tp_instructions s))) (tp_instructions s)"
    by (rule code_ok_mono [where rt = rt and lt = lt and k = "length (tp_keys s)" and n = "Suc (length (tp_instructions s))"])
      (use assms in \<open>simp_all add: front_inv_def\<close>)
  then show ?thesis using assms by (simp add: front_ext_def front_inv_def)
qed

lemma since_key:
  assumes s: "front_ext j base (rt, lt, s)"
    and m: "\<And>i s'. front_ext (Suc j) base (rt, lt, s') \<Longrightarrow> front_ext 1 (rt, lt, s) (rt, lt, s') \<Longrightarrow> i < length (tp_keys s')
      \<Longrightarrow> tp_scopes s' = tp_scopes s \<Longrightarrow> since n base Q s' (f i)"
  shows "since n base Q s (pbind state_key_index f)"
proof (cases "tk_kind (tp_tokens s ! tp_pos s)")
  case (TKey key)
  note inv = front_ext_inv [OF s]
  have good: "token_good (tk_kind (tp_tokens s ! tp_pos s))" using inv by (simp add: front_inv_def tokens_good_def)
  have end': "tk_kind (tp_tokens s ! tp_pos s) \<noteq> TEnd" by (simp add: TKey)
  have adv: "front_ext 1 (rt, lt, s) (rt, lt, advanced s)" using front_ext_advance [OF front_ext_refl [OF inv] end'] by simp
  have keys: "keys_ok (tp_keys s)" using inv by (simp add: front_inv_def)
  have step: "since n base Q (s\<lparr>tp_pos := tp_pos s + 1, tp_context := True, tp_keys := ks\<rparr>) (f i)"
    if "keys_ok ks" "length (tp_keys s) \<le> length ks" "i < length ks" for ks i
  proof -
    have e: "front_ext 1 (rt, lt, s) (rt, lt, s\<lparr>tp_pos := tp_pos s + 1, tp_context := True, tp_keys := ks\<rparr>)"
      using front_ext_trans [OF adv front_ext_keys [OF front_ext_inv [OF adv] that(1)], of 1] that(2) by simp
    show ?thesis by (rule m [OF front_ext_trans [OF s e] e]) (use that in simp_all)
  qed
  show ?thesis
  proof (cases "bt_get (tp_keys s) key")
    case (Some i)
    then have "(key, i) \<in> set (tp_keys s)" using keys by (simp add: keys_ok_def bt_get_Some_iff)
    then have "snd (key, i) \<in> snd ` set (tp_keys s)" by (rule imageI)
    then have "i < length (tp_keys s)" using keys by (simp add: keys_ok_def)
    from step [OF keys order_refl this] Some TKey show ?thesis
      by (simp add: since_def pbind_def state_key_index_def peek_Ok [OF inv] advance_def)
  next
    case None
    have "(perror msg :: nat parse) (s\<lparr>tp_pos := tp_pos s + 1, tp_context := True\<rparr>) = Err (CompileError (tk_offset (tp_tokens s ! (tp_pos s + 1))) msg)" for msg
      using front_ext_inv [OF adv] by (simp add: perror_def pbind_def peek_def slot_def front_inv_def)
    then show ?thesis using step [OF keys_ok_insert(1) [OF keys None], of "length (tp_keys s)"] keys_ok_insert(2) [OF keys None] None TKey good
      by (simp add: since_def pbind_def state_key_index_def peek_Ok [OF inv] advance_def token_good_def Let_def)
  qed
qed (simp_all add: since_def pbind_def state_key_index_def peek_Ok [OF front_ext_inv [OF s]] perror_def)

section \<open>Expressions\<close>

lemma binding_for_typed:
  "binding_for scopes name = Some b \<Longrightarrow> scopes_ok lt scopes \<Longrightarrow> typed_at lt (bd_local b) (bd_ty b)"
proof (induction scopes)
  case (Cons scope scopes)
  have "scopes_ok lt scopes" using Cons.prems(2) by (simp add: scopes_ok_def)
  moreover have "(name, b) \<in> set scope \<Longrightarrow> typed_at lt (bd_local b) (bd_ty b)" using Cons.prems(2) by (auto simp: scopes_ok_def)
  moreover have "bt_ok scope" using Cons.prems(2) by (simp add: scopes_ok_def)
  ultimately show ?case using Cons by (auto simp: bt_get_Some_iff split: option.splits)
qed simp

definition tokens_left :: "tr_parser \<Rightarrow> nat" where
  "tokens_left s = length (tp_tokens s) - tp_pos s"

text \<open>A parser of subexpressions that works on at most \<open>m\<close> tokens.\<close>

definition sub_ok :: "nat \<Rightarrow> tr_value parse \<Rightarrow> bool" where
  "sub_ok m sub \<longleftrightarrow> (\<forall>rt lt s. front_inv rt lt s \<longrightarrow> tokens_left s \<le> m \<longrightarrow> runs 1 (valued lt (tp_scopes s)) rt lt s sub)"

lemma tokens_left_ext: "front_ext j (rt0, lt0, s0) (rt, lt, s) \<Longrightarrow> tokens_left s + j \<le> tokens_left s0"
  by (auto simp: front_ext_def front_inv_def tokens_left_def)

lemma since_sub:
  assumes s: "front_ext j (rt0, lt0, s0) (rt, lt, s)" and sub: "sub_ok m sub" and left: "tokens_left s0 \<le> m + j"
    and c: "\<And>rt' v s'. front_ext (Suc j) (rt0, lt0, s0) (rt', lt, s') \<Longrightarrow> front_ext 1 (rt, lt, s) (rt', lt, s')
      \<Longrightarrow> typed_at rt' (va_register v) (va_ty v) \<Longrightarrow> tp_scopes s' = tp_scopes s \<Longrightarrow> since n (rt0, lt0, s0) Q s' (f v)"
  shows "since n (rt0, lt0, s0) Q s (pbind sub f)"
proof -
  have "runs 1 (valued lt (tp_scopes s)) rt lt s sub"
    using sub front_ext_inv [OF s] tokens_left_ext [OF s] left by (simp add: sub_ok_def)
  from s this show ?thesis by (rule since_run) (use c in \<open>auto simp: valued_def\<close>)
qed

lemma runs_short_circuit:
  assumes inv: "front_inv rt lt s" and sub: "sub_ok (tokens_left s) operand" and left: "typed_at rt (va_register left) (va_ty left)"
  shows "runs 1 (valued lt (tp_scopes s)) rt lt s (short_circuit operator left operand)"
  unfolding short_circuit_def
  apply (rule since_typed [OF front_ext_refl [OF inv]])
  apply (rule since_register [OF front_ext_refl [OF inv]])
  subgoal premises p1
    apply (rule since_emit [OF p1(2)])
     apply (use p1 typed_snoc [OF left] in \<open>auto intro!: exI [of _ TBool]\<close>) []
    apply (rule since_emit, assumption)
     apply (use p1 typed_snoc [OF left] in simp)
    apply (rule since_code_length)
    apply (rule since_sub [OF _ sub], assumption, simp)
    subgoal premises p2 for rt' v s'
    proof -
      have t: "typed_at rt' (tp_registers s) TBool" "typed_at rt' (va_register left) TBool"
        using front_extD(1) [OF p2(4)] p1(3) typed_snoc [OF left] p1(1) by auto
      have n: "Suc (Suc (length (tp_instructions s))) \<le> length (tp_instructions s')" using front_extD(3) [OF p2(4)] by simp
      show ?thesis
        apply (rule since_typed [OF p2(3)])
        apply (rule since_emit [OF p2(3)])
        subgoal using t p2(5) by auto
        apply (rule since_code_length)
        apply (rule since_patch, assumption)
        subgoal by simp
        subgoal using n by simp
        subgoal using t n by simp
        apply (rule since_return, assumption)
        using t p2(6) by (simp_all add: valued_def)
    qed
    done
  done

lemma since_binary_type:
  assumes s: "front_ext j base (rt, lt, s)" and left: "typed_at rt (va_register left) (va_ty left)" and right: "typed_at rt (va_register right) (va_ty right)"
    and m: "\<And>binary ty. \<forall>d. typed_at (rt @ [ty]) d ty \<longrightarrow> step_ok (rt @ [ty]) lt k l (SBinary d binary (va_register left) (va_register right))
      \<Longrightarrow> since n base Q s (f (binary, ty))"
  shows "since n base Q s (pbind (binary_type operator left right) f)"
proof -
  note lr = typed_snoc [OF left] typed_snoc [OF right]
  show ?thesis
    unfolding binary_type_def if_distrib [of "\<lambda>a. pbind a f"] pbind_laws
    apply (intro since_if since_error [OF s] since_typed [OF s] m allI impI)
    using lr by (auto simp: comparison_of_def)
qed

lemma runs_binary_operation:
  assumes inv: "front_inv rt lt s" and sub: "sub_ok (tokens_left s) operand" and left: "typed_at rt (va_register left) (va_ty left)"
  shows "runs 1 (valued lt (tp_scopes s)) rt lt s (binary_operation operator left operand)"
  unfolding binary_operation_def
  apply (rule since_sub [OF front_ext_refl [OF inv] sub], simp)
  subgoal premises p for rt' v s'
    apply (rule since_binary_type [OF p(1) front_extD(1) [OF p(2) left] p(3)])
    unfolding prod.case
    by (rule since_value [OF p(1) _ p(4)]) simp_all
  done

lemma since_limb:
  assumes s: "front_ext j base (rt, lt, s)"
    and m: "\<And>i. i < 4 \<Longrightarrow> front_ext (Suc j) base (rt, lt, advanced s) \<Longrightarrow> since n base Q (advanced s) (f i)"
  shows "since n base Q s (pbind (limb message) f)"
proof -
  show ?thesis
    unfolding limb_def pbind_laws
    apply (rule since_peek [OF s])
    apply (cases "tk_kind (tp_tokens s ! tp_pos s)")
        apply (simp_all add: pbind_laws since_error [OF s])
    apply (intro impI)
    apply (rule since_advance [OF s], simp)
    by (rule m) simp_all
qed

text \<open>The parser of subexpressions for every precedence and depth.\<close>

definition subs_ok :: "nat \<Rightarrow> (nat \<Rightarrow> nat \<Rightarrow> tr_value parse) \<Rightarrow> bool" where
  "subs_ok m sub \<longleftrightarrow> (\<forall>minimum depth. sub_ok m (sub minimum depth))"

definition stepped :: "tr_type list \<Rightarrow> (byte list, tr_binding) btree list \<Rightarrow> tr_step outcome" where
  "stepped lt scopes rt' lt' step s' \<longleftrightarrow> lt' = lt \<and> tp_scopes s' = scopes \<and> (\<forall>l. step_ok rt' lt (length (tp_keys s')) l step)"

lemma runs_builtin_step:
  assumes inv: "front_inv rt lt s" and sub: "subs_ok (tokens_left s) sub" and d: "typed_at rt d TU64"
  shows "runs 0 (stepped lt (tp_scopes s)) rt lt s (builtin_step sub name depth d)"
proof -
  have sub': "sub_ok (tokens_left s) (sub i k)" for i k using sub by (simp add: subs_ok_def)
  note s = front_ext_refl [OF inv]
  show ?thesis
    unfolding builtin_step_def
    apply (intro since_if)
    subgoal using d by (auto intro!: since_key [OF s] since_return simp: stepped_def)
    subgoal using d by (auto intro!: since_return [OF s] simp: stepped_def)
    subgoal using d by (auto intro!: since_return [OF s] simp: stepped_def)
    subgoal
      apply (rule since_sub [OF s sub'], simp)
      apply (rule since_typed, assumption)
      apply (rule since_return, assumption)
      using d by (auto simp: stepped_def dest: front_extD(1))
    subgoal
      apply (rule since_sub [OF s sub'], simp)
      apply (rule since_typed, assumption)
      apply (rule since_expect, assumption)
      apply (rule since_limb, assumption)
      apply (rule since_return, assumption)
      using d by (auto simp: stepped_def dest: front_extD(1))
    subgoal using d by (auto intro!: since_limb [OF s] since_return simp: stepped_def)
    done
qed

lemma sub_ok_mono: "sub_ok m sub \<Longrightarrow> m' \<le> m \<Longrightarrow> sub_ok m' sub"
  by (simp add: sub_ok_def)

lemma subs_ok_mono: "subs_ok m sub \<Longrightarrow> m' \<le> m \<Longrightarrow> subs_ok m' sub"
  by (simp add: subs_ok_def sub_ok_def)

lemma runs_builtin:
  assumes inv: "front_inv rt lt s" and sub: "subs_ok m sub" and left: "tokens_left s \<le> Suc m" and t: "tk_kind (tp_tokens s ! tp_pos s) \<noteq> TEnd"
  shows "runs 1 (valued lt (tp_scopes s)) rt lt s (builtin sub name depth)"
  unfolding builtin_def
  apply (rule since_advance [OF front_ext_refl [OF inv] t])
  apply (rule since_expect, assumption)
  apply (rule since_register, assumption)
  apply (rule since_set_context, assumption)
  subgoal premises p
    apply (rule since_run [OF p(5) runs_builtin_step [OF front_ext_inv [OF p(5)]]])
      apply (rule subs_ok_mono [OF sub])
      apply (use tokens_left_ext [OF p(5)] left in simp)
     apply (use p(4) in simp)
    apply (rule since_expect, assumption)
    apply (rule since_emit, assumption)
     apply (simp add: stepped_def)
    apply (rule since_return)
      apply (simp add: stepped_def)
    using p(4) by (auto simp: stepped_def valued_def dest: front_extD(1))
  done

lemma runs_load_local:
  assumes inv: "front_inv rt lt s" and t: "tk_kind (tp_tokens s ! tp_pos s) = TWord name"
  shows "runs 1 (valued lt (tp_scopes s)) rt lt s (load_local name)"
proof (cases "binding_for (tp_scopes s) name")
  case None
  then show ?thesis using since_error [OF front_ext_refl [OF inv]] by (simp add: load_local_def since_def)
next
  case (Some b)
  have "typed_at lt (bd_local b) (bd_ty b)"
    using inv binding_for_typed [OF Some] by (auto simp: front_inv_def)
  then have "runs 1 (valued lt (tp_scopes s)) rt lt s (pbind advance (\<lambda>_. emit_value (bd_ty b) (\<lambda>d. SLoad d (bd_local b))))"
    by (intro since_advance [OF front_ext_refl [OF inv]] since_value) (auto simp: t)
  with Some show ?thesis by (simp add: load_local_def since_def)
qed

lemma runs_atom:
  assumes inv: "front_inv rt lt s" and sub: "subs_ok m sub" and left: "tokens_left s \<le> Suc m"
  shows "runs 1 (valued lt (tp_scopes s)) rt lt s (atom sub depth)"
proof -
  have sub': "sub_ok m (sub i k)" for i k using sub by (simp add: subs_ok_def)
  note s = front_ext_refl [OF inv]
  show ?thesis
  proof (cases "tk_kind (tp_tokens s ! tp_pos s)")
    case (TWord name)
    have e: "tk_kind (tp_tokens s ! tp_pos s) \<noteq> TEnd" by (simp add: TWord)
    show ?thesis
      unfolding atom_def
      apply (rule since_peek [OF s])
      unfolding TWord token_kind.case
      using runs_builtin [OF inv sub left e] runs_load_local [OF inv TWord]
      by (intro since_if since_advance [OF s e] since_value) auto
  next
    case (TSymbol symbol)
    have e: "tk_kind (tp_tokens s ! tp_pos s) \<noteq> TEnd" by (simp add: TSymbol)
    show ?thesis
      unfolding atom_def
      apply (rule since_peek [OF s])
      unfolding TSymbol token_kind.case
      apply (intro since_if since_error [OF s] since_advance [OF s e])
      subgoal
        apply (rule since_sub [OF _ sub'], assumption, use left in simp)
        apply (rule since_typed, assumption)
        apply (rule since_value, assumption)
        by (auto dest: typed_snoc)
      subgoal
        apply (rule since_sub [OF _ sub'], assumption, use left in simp)
        apply (rule since_expect, assumption)
        apply (rule since_return, assumption)
        by (auto simp: valued_def)
      done
  qed (auto simp: atom_def intro!: since_peek [OF s] since_advance [OF s] since_value since_error [OF s])
qed

text \<open>Enough fuel: two units for each token that is left.\<close>

definition ops_ok :: "nat \<Rightarrow> (nat \<Rightarrow> nat \<Rightarrow> tr_value \<Rightarrow> tr_value parse) \<Rightarrow> bool" where
  "ops_ok m ops \<longleftrightarrow> (\<forall>rt lt s minimum depth (left :: tr_value). front_inv rt lt s \<longrightarrow> tokens_left s \<le> m \<longrightarrow> typed_at rt (va_register left) (va_ty left)
     \<longrightarrow> runs 0 (valued lt (tp_scopes s)) rt lt s (ops minimum depth left))"

definition expressions_fueled :: "nat \<Rightarrow> bool" where
  "expressions_fueled n \<longleftrightarrow> (\<forall>m. 2 * m + 2 \<le> n \<longrightarrow> subs_ok m (expression n)) \<and> (\<forall>m. 2 * m + 1 \<le> n \<longrightarrow> ops_ok m (operators n))"

lemma ops_okD:
  assumes "ops_ok m ops" and "front_inv rt lt s" "tokens_left s \<le> m" "typed_at rt (va_register left) (va_ty left)" and "tp_scopes s = scopes"
  shows "runs 0 (valued lt scopes) rt lt s (ops minimum depth left)"
  using assms by (auto simp: ops_ok_def)

lemma tokens_left_pos: "front_inv rt lt s \<Longrightarrow> 0 < tokens_left s"
  by (simp add: front_inv_def tokens_left_def)

lemma expression_fueled:
  assumes n: "expressions_fueled n" and m: "2 * m + 2 \<le> Suc n"
  shows "subs_ok m (expression (Suc n))"
  unfolding subs_ok_def sub_ok_def
proof (intro allI impI)
  fix minimum depth rt lt s assume inv: "front_inv rt lt s" and left: "tokens_left s \<le> m"
  have m1: "0 < m" using tokens_left_pos [OF inv] left by simp
  have sub: "subs_ok (m - 1) (expression n)" and ops: "ops_ok (m - 1) (operators n)" using n m m1 by (auto simp: expressions_fueled_def)
  show "runs 1 (valued lt (tp_scopes s)) rt lt s (expression (Suc n) minimum depth)"
    unfolding expression.simps
    apply (intro since_if since_error [OF front_ext_refl [OF inv]])
    apply (rule since_run [OF front_ext_refl [OF inv] runs_atom [OF inv sub]])
     apply (use left m1 in simp)
    subgoal premises p for rt' lt' v s'
      apply (rule since_tail [OF p(2) ops_okD [OF ops front_ext_inv [OF p(2)], where scopes = "tp_scopes s"]])
      using tokens_left_ext [OF p(2)] left p(4) by (auto simp: valued_def)
    done
qed

lemma operators_fueled:
  assumes n: "expressions_fueled n" and m: "2 * m + 1 \<le> Suc n"
  shows "ops_ok m (operators (Suc n))"
  unfolding ops_ok_def
proof (intro allI impI)
  fix rt lt s minimum depth and left :: tr_value
  assume inv: "front_inv rt lt s" and l: "tokens_left s \<le> m" and t: "typed_at rt (va_register left) (va_ty left)"
  have m1: "0 < m" using tokens_left_pos [OF inv] l by simp
  have sub: "subs_ok (m - 1) (expression n)" using n m m1 by (auto simp: expressions_fueled_def)
  have ops: "ops_ok (m - 1) (operators n)" using n m m1 by (auto simp: expressions_fueled_def)
  note s = front_ext_refl [OF inv]
  show "runs 0 (valued lt (tp_scopes s)) rt lt s (operators (Suc n) minimum depth left)"
  proof (cases "next_operator minimum (tk_kind (tp_tokens s ! tp_pos s))")
    case None
    then show ?thesis using t by (auto simp: valued_def intro!: since_peek [OF s] since_return [OF s])
  next
    case (Some op)
    then obtain operator precedence where op: "op = (operator, precedence)" by (cases op)
    have e: "tk_kind (tp_tokens s ! tp_pos s) \<noteq> TEnd" using Some by (auto simp: next_operator_def)
    note a = front_ext_advance [OF s e]
    have "sub_ok (tokens_left (advanced s)) (expression n (precedence + 1) (depth + 1))"
      by (rule sub_ok_mono [where m = "m - 1"]) (use sub tokens_left_ext [OF a] l in \<open>simp_all add: subs_ok_def\<close>)
    note r = runs_short_circuit [OF front_ext_inv [OF a] this t, of operator] runs_binary_operation [OF front_ext_inv [OF a] this t, of operator]
    have r: "runs 1 (valued lt (tp_scopes s)) rt lt (advanced s)
      ((if operator = ascii ''&&'' \<or> operator = ascii ''||'' then short_circuit else binary_operation) operator left (expression n (precedence + 1) (depth + 1)))"
      using r by simp
    show ?thesis
      unfolding operators.simps
      apply (rule since_peek [OF s])
      unfolding Some op option.case prod.case
      apply (rule since_advance [OF s e])
      apply (rule since_run [OF a r])
      subgoal premises p for rt' lt' v s'
        apply (rule since_tail [OF p(2) ops_okD [OF ops front_ext_inv [OF p(2)], where scopes = "tp_scopes s"]])
        using tokens_left_ext [OF p(2)] l p(4) by (auto simp: valued_def)
      done
  qed
qed

lemma expressions_fueled_all: "expressions_fueled n"
proof (induction n)
  case (Suc n)
  then show ?case using expression_fueled operators_fueled unfolding expressions_fueled_def [of "Suc n"] by blast
qed (simp add: expressions_fueled_def)

lemma full_expression_ok: "sub_ok m full_expression"
proof -
  have "runs 1 (valued lt (tp_scopes s)) rt lt s full_expression" if "front_inv rt lt s" for rt lt s
  proof -
    have "subs_ok (length (tp_tokens s)) (expression (2 * length (tp_tokens s) + 2))"
      using expressions_fueled_all [of "2 * length (tp_tokens s) + 2"] by (simp add: expressions_fueled_def del: expression.simps)
    then have "runs 1 (valued lt (tp_scopes s)) rt lt s (expression (2 * length (tp_tokens s) + 2) 0 0)"
      using that by (simp add: subs_ok_def sub_ok_def tokens_left_def del: expression.simps)
    then show ?thesis by (simp add: since_def full_expression_def del: expression.simps)
  qed
  then show ?thesis by (simp add: sub_ok_def)
qed

section \<open>Statements\<close>

text \<open>A statement that returns ends in a return, and no jump leaves the code any more.\<close>

definition ended :: "nat \<Rightarrow> bool outcome" where
  "ended n rt lt returns s \<longleftrightarrow> (returns \<longrightarrow> n < length (tp_instructions s)
     \<and> code_ok rt lt (length (tp_keys s)) (length (tp_instructions s)) (tp_instructions s) \<and> (\<exists>r. last (tp_instructions s) = SReturn r))"

lemma since_state: "since n base Q s (\<lambda>s. g s s) \<longleftrightarrow> since n base Q s (g s)"
  by (simp add: since_def)

lemma since_full:
  assumes s: "front_ext j (rt0, lt0, s0) (rt, lt, s)"
    and c: "\<And>rt' v s'. front_ext (Suc j) (rt0, lt0, s0) (rt', lt, s') \<Longrightarrow> front_ext 1 (rt, lt, s) (rt', lt, s')
      \<Longrightarrow> typed_at rt' (va_register v) (va_ty v) \<Longrightarrow> tp_scopes s' = tp_scopes s \<Longrightarrow> since n (rt0, lt0, s0) Q s' (f v)"
  shows "since n (rt0, lt0, s0) Q s (pbind full_expression f)"
  by (rule since_sub [OF s full_expression_ok [of "tokens_left s0"]]) (use c in simp_all)

lemma since_u64:
  assumes s: "front_ext j (rt0, lt0, s0) (rt, lt, s)"
    and c: "\<And>rt' v s'. front_ext (Suc j) (rt0, lt0, s0) (rt', lt, s') \<Longrightarrow> front_ext 1 (rt, lt, s) (rt', lt, s')
      \<Longrightarrow> typed_at rt' (va_register v) TU64 \<Longrightarrow> tp_scopes s' = tp_scopes s \<Longrightarrow> since n (rt0, lt0, s0) Q s' (f v)"
  shows "since n (rt0, lt0, s0) Q s (pbind u64_expression f)"
  unfolding u64_expression_def pbind_laws
  apply (rule since_full [OF s])
  apply (rule since_typed, assumption)
  by (rule c) simp_all

lemma since_end_call:
  assumes "front_ext j base (rt, lt, s)"
    and "front_ext (Suc (Suc j)) base (rt, lt, advanced (advanced s)) \<Longrightarrow> since n base Q (advanced (advanced s)) (f ())"
  shows "since n base Q s (pbind end_call f)"
  unfolding end_call_def pbind_laws
  apply (rule since_expect [OF assms(1)])
  apply (rule since_expect, assumption)
  using assms(2) by simp

lemma since_emit_last:
  assumes s: "front_ext j base (rt, lt, s)" and step: "step_ok rt lt (length (tp_keys s)) (length (tp_instructions s) + 2) step" and "n \<le> j"
    and Q: "Q rt lt r (appended step s)"
  shows "since n base Q s (pbind (emit step) (\<lambda>_. preturn r))"
  by (rule since_emit [OF s step], rule since_return, assumption, rule assms(3), rule Q)

lemma runs_effect:
  assumes inv: "front_inv rt lt s" and t: "tk_kind (tp_tokens s ! tp_pos s) \<noteq> TEnd"
  shows "runs 1 (ended k) rt lt s (effect_statement name)"
  unfolding effect_statement_def
  apply (rule since_advance [OF front_ext_refl [OF inv] t])
  apply (rule since_expect, assumption)
  unfolding if_distrib [of "\<lambda>a. pbind a _"] pbind_laws
  apply (intro since_if)
  subgoal
    apply (rule since_u64, assumption)
    apply (rule since_expect, assumption)
    apply (rule since_u64, assumption)
    apply (rule since_end_call, assumption)
    apply (rule since_set_context, assumption)
    apply (rule since_emit_last, assumption)
    by (auto simp: ended_def dest: front_extD(1))
  subgoal
    apply (rule since_set_context, assumption)
    apply (rule since_u64, assumption)
    apply (rule since_if)
     apply (rule since_expect, assumption)
     apply (rule since_u64, assumption)
     apply (rule since_end_call, assumption)
     apply (rule since_emit_last, assumption)
       apply (auto simp: ended_def dest: front_extD(1)) [3]
    apply (rule since_end_call, assumption)
    apply (rule since_emit_last, assumption)
      apply (auto simp: ended_def)
    done
  subgoal
    apply (rule since_key, assumption)
    apply (rule since_if)
     apply (rule since_expect, assumption)
     apply (rule since_u64, assumption)
     apply (rule since_end_call, assumption)
     apply (rule since_emit_last, assumption)
       apply (auto simp: ended_def dest: front_extD(4)) [3]
    apply (rule since_end_call, assumption)
    apply (rule since_emit_last, assumption)
      apply (auto simp: ended_def)
    done
  done

lemma since_new_local:
  assumes s: "front_ext j base (rt, lt, s)" and l: "tp_locals s < MAX_LOCALS"
    and c: "front_ext j base (rt, lt @ [ty], s\<lparr>tp_locals := tp_locals s + 1\<rparr>) \<Longrightarrow> typed_at (lt @ [ty]) (tp_locals s) ty
      \<Longrightarrow> since n base Q (s\<lparr>tp_locals := tp_locals s + 1\<rparr>) (f (tp_locals s))"
  shows "since n base Q s (pbind new_local f)"
proof -
  note inv = front_ext_inv [OF s]
  have "code_ok rt (lt @ [ty]) (length (tp_keys s)) (Suc (length (tp_instructions s))) (tp_instructions s)"
    by (rule code_ok_mono [where rt = rt and lt = lt and k = "length (tp_keys s)" and n = "Suc (length (tp_instructions s))"])
      (use inv in \<open>simp_all add: front_inv_def\<close>)
  moreover have "scopes_ok (lt @ [ty]) (tp_scopes s)" using inv typed_snoc by (fastforce simp: scopes_ok_def front_inv_def)
  ultimately have "front_ext 0 (rt, lt, s) (rt, lt @ [ty], s\<lparr>tp_locals := tp_locals s + 1\<rparr>)" using inv l by (simp add: front_ext_def front_inv_def)
  from front_ext_trans [OF s this] have "front_ext j base (rt, lt @ [ty], s\<lparr>tp_locals := tp_locals s + 1\<rparr>)" by simp
  moreover have "typed_at (lt @ [ty]) (tp_locals s) ty" using inv by (auto simp: typed_at_def front_inv_def nth_append)
  ultimately have "since n base Q (s\<lparr>tp_locals := tp_locals s + 1\<rparr>) (f (tp_locals s))" by (rule c)
  then show ?thesis by (simp add: since_def pbind_def new_local_def)
qed

abbreviation bound :: "byte list \<Rightarrow> tr_binding \<Rightarrow> tr_parser \<Rightarrow> tr_parser" where
  "bound name b s \<equiv> s\<lparr>tp_scopes := butlast (tp_scopes s) @ [bt_insert name b (last (tp_scopes s))]\<rparr>"

lemma since_bind_local:
  assumes s: "front_ext j base (rt, lt, s)" and t: "typed_at lt (bd_local b) (bd_ty b)" and ne: "tp_scopes s \<noteq> []"
    and c: "front_ext j base (rt, lt, bound name b s) \<Longrightarrow> since n base Q (bound name b s) (f ())"
  shows "since n base Q s (pbind (bind_local name b) f)"
proof -
  note inv = front_ext_inv [OF s]
  have ok: "scopes_ok lt (tp_scopes s)" using inv by (simp add: front_inv_def)
  have l: "last (tp_scopes s) \<in> set (tp_scopes s)" using ne by simp
  have "scopes_ok lt (tp_scopes (bound name b s))"
    using ok t l by (auto simp: scopes_ok_def set_bt_insert dest: in_set_butlastD)
  then have "front_ext 0 (rt, lt, s) (rt, lt, bound name b s)" using inv ne by (simp add: front_ext_def front_inv_def)
  from front_ext_trans [OF s this] have "front_ext j base (rt, lt, bound name b s)" by simp
  from c [OF this] show ?thesis using ne by (simp add: since_def pbind_def bind_local_def)
qed

lemma since_declared_type:
  assumes s: "front_ext j base (rt, lt, s)"
    and c: "\<And>s' ty k. front_ext k base (rt, lt, s') \<Longrightarrow> j \<le> k \<Longrightarrow> tp_scopes s' = tp_scopes s \<Longrightarrow> since n base Q s' (f ty)"
  shows "since n base Q s (pbind declared_type f)"
  unfolding declared_type_def pbind_laws
  apply (rule since_take [OF s])
  unfolding if_True if_False pbind_laws
   apply (rule since_take, assumption)
  unfolding if_True if_False pbind_laws
    apply (rule c, assumption)
     apply simp_all
   apply (rule since_take, assumption)
    apply (simp_all add: pbind_laws)
    apply (rule c, assumption)
     apply simp_all
   apply (rule since_error, assumption)
  by (rule c [OF s]) simp_all

lemma since_declared:
  assumes s: "front_ext j base (rt, lt, s)" and c: "since n base Q s (f v)"
  shows "since n base Q s (pbind (case declared of None \<Rightarrow> preturn v | Some ty \<Rightarrow> typed v ty) f)"
  using c by (cases declared) (auto simp: pbind_laws intro!: since_typed [OF s])

lemma since_named:
  assumes s: "front_ext j (rt0, lt0, s0) (rt, lt, s)" and ne: "tp_scopes s0 \<noteq> []" and l: "tp_locals s < MAX_LOCALS"
    and t: "tk_kind (tp_tokens s ! tp_pos s) \<noteq> TEnd"
  shows "since 1 (rt0, lt0, s0) (ended k) s (local_named mutable name)"
proof -
  have locals: "tp_locals s = length lt" using front_ext_inv [OF s] by (simp add: front_inv_def)
  have scopes: "tp_scopes s' \<noteq> []" if "front_ext i (rt0, lt0, s0) (rt', lt', s')" for i rt' lt' s'
    using that ne by (auto simp: front_ext_def)
  show ?thesis
    unfolding local_named_def
    apply (rule since_advance [OF s t])
    apply (rule since_declared_type, assumption)
    apply (rule since_expect, assumption)
    apply (rule since_full, assumption)
    apply (rule since_declared, assumption)
    apply (rule since_expect, assumption)
    subgoal premises p for s2 ty i rt3 v s3
      apply (rule since_new_local [where ty = "va_ty v", OF p(10)])
      using front_ext_inv [OF p(10)] l locals apply (simp add: front_inv_def)
      apply (rule since_emit, assumption)
       apply (use p(8) in auto) []
      apply (rule since_bind_local, assumption)
        apply simp
       apply (rule scopes, assumption)
      apply (rule since_return, assumption)
      by (simp_all add: ended_def)
    done
qed

lemma runs_local:
  assumes inv: "front_inv rt lt s" and ne: "tp_scopes s \<noteq> []"
  shows "runs 1 (ended k) rt lt s local_statement"
proof -
  have peeked: "since 1 (rt, lt, s) (ended k) s' (pbind peek (\<lambda>t s.
     case tk_kind t of
       TWord name \<Rightarrow>
         (if name \<in> set reserved_words then perror ''reserved local identifier''
          else if tp_scopes s \<noteq> [] \<and> bt_contains (last (tp_scopes s)) name then perror ''local cannot be redefined in its scope''
          else if tp_locals s \<ge> MAX_LOCALS then perror ''local binding limit exceeded''
          else local_named mutable name) s
     | _ \<Rightarrow> perror ''local identifier expected'' s))" if s': "front_ext j (rt, lt, s) (rt, lt, s')" for j s' mutable
  proof (cases "tk_kind (tp_tokens s' ! tp_pos s')")
    case (TWord name)
    have "since 1 (rt, lt, s) (ended k) s'
      (if name \<in> set reserved_words then perror ''reserved local identifier''
       else if tp_scopes s' \<noteq> [] \<and> bt_contains (last (tp_scopes s')) name then perror ''local cannot be redefined in its scope''
       else if tp_locals s' \<ge> MAX_LOCALS then perror ''local binding limit exceeded'' else local_named mutable name)"
      by (intro since_if since_error [OF s'] since_named [OF s' ne]) (simp_all add: TWord)
    then show ?thesis by (simp only: since_def pbind_def peek_Ok [OF front_ext_inv [OF s']] TWord try_bind.simps prod.case token_kind.case)
  qed (use since_error [OF s'] in \<open>simp_all add: since_def pbind_def peek_Ok [OF front_ext_inv [OF s']]\<close>)
  show ?thesis
    unfolding local_statement_def
    by (rule since_take [OF front_ext_refl [OF inv]]) (rule peeked, assumption, rule peeked [OF front_ext_refl [OF inv]])
qed

lemma runs_assignment:
  assumes inv: "front_inv rt lt s"
  shows "runs 1 (ended k) rt lt s assignment"
proof (cases "tk_kind (tp_tokens s ! tp_pos s)")
  case (TWord name)
  note s = front_ext_refl [OF inv]
  show ?thesis
  proof (cases "binding_for (tp_scopes s) name")
    case None
    with since_error [OF s] show ?thesis by (simp add: assignment_def since_def pbind_def peek_Ok [OF inv] TWord)
  next
    case (Some b)
    have t: "typed_at lt (bd_local b) (bd_ty b)" using inv binding_for_typed [OF Some] by (auto simp: front_inv_def)
    have "since 1 (rt, lt, s) (ended k) s (if \<not> bd_mutable b then perror ''assignment requires let mut''
        else pbind advance (\<lambda>_. pbind (expect ''='') (\<lambda>_. pbind full_expression (\<lambda>v. pbind (typed v (bd_ty b)) (\<lambda>_. pbind (expect '';'') (\<lambda>_.
          pbind (emit (SStore (bd_local b) (va_register v) True)) (\<lambda>_. preturn False)))))))"
      apply (intro since_if since_error [OF s])
      apply (rule since_advance [OF s], simp add: TWord)
      apply (rule since_expect, assumption)
      apply (rule since_full, assumption)
      apply (rule since_typed, assumption)
      apply (rule since_expect, assumption)
      apply (rule since_emit_last, assumption)
      using t by (auto simp: ended_def)
    then show ?thesis
      by (simp only: assignment_def since_def pbind_def peek_Ok [OF inv] TWord Some try_bind.simps prod.case token_kind.case option.case)
  qed
qed (use since_error [OF front_ext_refl [OF inv]] in \<open>simp_all add: assignment_def since_def pbind_def peek_Ok [OF inv]\<close>)

text \<open>The end of the code is where a return makes it tight.\<close>

lemma ended_return:
  assumes "front_inv rt lt s" and "typed_at rt r TU64" and "k \<le> length (tp_instructions s)"
  shows "ended k rt lt True (appended (SReturn r) s)"
  using assms by (simp add: ended_def front_inv_def code_ok_def)

lemma runs_return:
  assumes inv: "front_inv rt lt s"
  shows "runs 1 (ended (length (tp_instructions s))) rt lt s return_statement"
  unfolding return_statement_def
  apply (rule since_u64 [OF front_ext_refl [OF inv]])
  apply (rule since_expect, assumption)
  apply (rule since_emit_last, assumption)
  subgoal by simp
  subgoal by simp
  subgoal premises p for rt' v s'
    using p front_extD(3) [OF p(2)] by (intro ended_return [OF front_ext_inv [OF p(5)]]) simp_all
  done

lemma runs_simple:
  assumes inv: "front_inv rt lt s"
  shows "runs 1 (ended k) rt lt s simple_statement"
  unfolding simple_statement_def
  apply (rule since_peek [OF front_ext_refl [OF inv]])
  apply (rule since_if)
  subgoal premises p
  proof (cases "tk_kind (tp_tokens s ! tp_pos s)")
    case (TSymbol w)
    then have "token_good (TSymbol w)" using inv by (auto simp: front_inv_def tokens_good_def dest!: nth_mem)
    then have False using p TSymbol by (auto simp: token_good_def effect_words_def ascii_def)
    then show ?thesis ..
  qed (use p runs_effect [OF inv] in auto)
  by (rule runs_assignment [OF inv])

text \<open>Blocks: the scopes are those before, and a block that returns ends the code.\<close>

definition blocked :: "tr_parser \<Rightarrow> bool outcome" where
  "blocked s rt' lt' returns s' \<longleftrightarrow> ended (length (tp_instructions s)) rt' lt' returns s' \<and> tp_scopes s' = tp_scopes s"

definition body_ok :: "nat \<Rightarrow> bool parse \<Rightarrow> bool" where
  "body_ok m body \<longleftrightarrow> (\<forall>rt lt s. front_inv rt lt s \<longrightarrow> tokens_left s \<le> m \<longrightarrow> runs 1 (blocked s) rt lt s body)"

lemma since_body:
  assumes s: "front_ext j (rt0, lt0, s0) (rt, lt, s)" and body: "body_ok m body" and left: "tokens_left s0 \<le> m + j"
    and c: "\<And>rt' lt' r s'. front_ext (Suc j) (rt0, lt0, s0) (rt', lt', s') \<Longrightarrow> front_ext 1 (rt, lt, s) (rt', lt', s')
      \<Longrightarrow> ended (length (tp_instructions s)) rt' lt' r s' \<Longrightarrow> since n (rt0, lt0, s0) Q s' (f r)"
  shows "since n (rt0, lt0, s0) Q s (pbind body f)"
proof -
  have "runs 1 (blocked s) rt lt s body" using body front_ext_inv [OF s] tokens_left_ext [OF s] left by (simp add: body_ok_def)
  from s this show ?thesis by (rule since_run) (use c in \<open>auto simp: blocked_def\<close>)
qed

lemma since_condition:
  assumes s: "front_ext j (rt0, lt0, s0) (rt, lt, s)"
    and c: "\<And>rt' r s'. front_ext (Suc j) (rt0, lt0, s0) (rt', lt, s') \<Longrightarrow> typed_at rt' r TBool
      \<Longrightarrow> length (tp_instructions s) < length (tp_instructions s') \<Longrightarrow> since n (rt0, lt0, s0) Q s' (f (r, length (tp_instructions s') - 1))"
  shows "since n (rt0, lt0, s0) Q s (pbind condition f)"
  unfolding condition_def pbind_laws
  apply (rule since_full [OF s])
  apply (rule since_typed, assumption)
  apply (rule since_emit, assumption)
   apply simp
  subgoal premises p for rt' v s'
    using c [OF p(6), of "va_register v"] front_extD(3) [OF p(2)] p(3,5) by simp
  done

text \<open>The last part of a conditional: both jumps get their targets.\<close>

lemma ended_patch:
  assumes "ended k rt lt True s" and "i < length (tp_instructions s) - 1" and "step_ok rt lt (length (tp_keys s)) (length (tp_instructions s)) step"
  shows "ended k rt lt True (s\<lparr>tp_instructions := (tp_instructions s)[i := step]\<rparr>)"
proof -
  have "code_ok rt lt (length (tp_keys s)) (length (tp_instructions s)) ((tp_instructions s)[i := step])"
    using assms set_update_subset_insert [of "tp_instructions s" i step] by (auto simp: ended_def code_ok_def)
  moreover have "last ((tp_instructions s)[i := step]) = last (tp_instructions s)"
    using assms(2) by (subst last_list_update) auto
  ultimately show ?thesis using assms(1) by (simp add: ended_def)
qed

lemma since_patches:
  assumes e: "front_ext j (rt0, lt0, s0) (rt, lt, s)" and "1 \<le> j" and branch: "length (tp_instructions s0) \<le> branch" "branch < length (tp_instructions s)"
    and cond: "typed_at rt r TBool" and targets: "yes \<le> length (tp_instructions s)" "no \<le> length (tp_instructions s)"
    and skip: "\<And>i. skip = Some i \<Longrightarrow> length (tp_instructions s0) \<le> i \<and> i < length (tp_instructions s)"
    and returns: "returns \<Longrightarrow> skip = None \<and> ended k rt lt True s \<and> branch < length (tp_instructions s) - 1
      \<and> yes < length (tp_instructions s) \<and> no < length (tp_instructions s)"
  shows "since 1 (rt0, lt0, s0) (ended k) s (pbind (patch branch (SBranch r yes no)) (\<lambda>_.
     pbind (case skip of None \<Rightarrow> preturn () | Some i \<Rightarrow> patch i (SJump (length (tp_instructions s)))) (\<lambda>_. preturn returns)))"
  apply (rule since_patch [OF e branch])
  subgoal using cond targets by simp
  subgoal premises p
  proof (cases skip)
    case None
    have "ended k rt lt returns (s\<lparr>tp_instructions := (tp_instructions s)[branch := SBranch r yes no]\<rparr>)"
    proof (cases returns)
      case True
      with returns show ?thesis using cond by (simp only: True) (intro ended_patch, auto)
    qed (simp add: ended_def)
    with None show ?thesis using \<open>1 \<le> j\<close> by (auto simp: pbind_laws intro!: since_return [OF p])
  next
    case (Some i)
    then have "\<not> returns" using returns by auto
    show ?thesis
      unfolding Some option.case
      apply (rule since_patch [OF p])
      using skip [OF Some] \<open>\<not> returns\<close> \<open>1 \<le> j\<close> by (auto simp: ended_def intro: since_return)
  qed
  done

lemma ended_weaken: "ended k rt lt r s \<Longrightarrow> l \<le> k \<Longrightarrow> ended l rt lt r s"
  by (auto simp: ended_def)

lemma since_else:
  assumes e: "front_ext j (rt0, lt0, s0) (rt, lt, s)" and "1 \<le> j" and body: "body_ok (tokens_left s0) body"
    and branch: "length (tp_instructions s0) \<le> branch" "branch < length (tp_instructions s)"
    and cond: "typed_at rt r TBool" and yes: "yes \<le> length (tp_instructions s)"
    and skip: "\<And>i. skip = Some i \<Longrightarrow> length (tp_instructions s0) \<le> i \<and> i < length (tp_instructions s)" and none: "yes_returns \<Longrightarrow> skip = None"
  shows "since 1 (rt0, lt0, s0) (ended (length (tp_instructions s0))) s
    (pbind code_length (\<lambda>no. pbind (take_token ''else'') (\<lambda>b. pbind (if b then body else preturn False) (\<lambda>no_returns.
     pbind code_length (\<lambda>after. pbind (patch branch (SBranch r yes no)) (\<lambda>_.
     pbind (case skip of None \<Rightarrow> preturn () | Some i \<Rightarrow> patch i (SJump after)) (\<lambda>_. preturn (yes_returns \<and> no_returns))))))))"
  apply (rule since_code_length)
  apply (rule since_take [OF e])
  unfolding if_True if_False pbind_return
  subgoal premises p
    apply (rule since_body [OF p(2) body], simp)
    apply (rule since_code_length)
    subgoal premises q for rt' lt' no_returns s'
    proof -
      have n: "length (tp_instructions s) \<le> length (tp_instructions s')" using front_extD(3) [OF q(2)] by simp
      have "no_returns \<Longrightarrow> length (tp_instructions s) < length (tp_instructions s')" using q(3) by (simp add: ended_def)
      moreover have "no_returns \<Longrightarrow> ended (length (tp_instructions s0)) rt' lt' True s'"
        using ended_weaken [OF q(3)] branch by simp
      ultimately show ?thesis
        using n branch yes skip none front_extD(1) [OF q(2) cond]
        by (intro since_patches [OF q(1)]) (auto dest: order_trans less_le_trans)
    qed
    done
  subgoal
    apply (rule since_code_length)
    using branch yes skip none cond \<open>1 \<le> j\<close> by (intro since_patches [OF e]) auto
  done

lemma runs_if:
  assumes inv: "front_inv rt lt s" and body: "body_ok (tokens_left s) body"
  shows "runs 1 (ended (length (tp_instructions s))) rt lt s (if_statement body)"
  unfolding if_statement_def pbind_assoc
  apply (rule since_condition [OF front_ext_refl [OF inv]])
  unfolding prod.case
  apply (rule since_code_length)
  apply (rule since_body [OF _ body], assumption, simp)
  subgoal premises p for rt1 r s1 rt2 lt2 yes_returns s2
  proof -
    have n: "length (tp_instructions s1) \<le> length (tp_instructions s2)" using front_extD(3) [OF p(5)] by simp
    have t: "typed_at rt2 r TBool" using front_extD(1) [OF p(5) p(2)] .
    show ?thesis
    proof (cases yes_returns)
      case True
      then show ?thesis
        unfolding if_P [OF True] pbind_laws using n p(3) t
        by (intro since_else [OF p(4) _ body]) auto
    next
      case False
      then show ?thesis
        unfolding if_not_P [OF False] pbind_laws
        apply (intro since_emit [OF p(4)])
         apply simp
        using n p(3) t
        by (intro since_else [OF _ _ body]) (assumption, auto)
    qed
  qed
  done

lemma runs_while:
  assumes inv: "front_inv rt lt s" and body: "body_ok (tokens_left s) body"
  shows "runs 1 (ended k) rt lt s (while_statement body)"
  unfolding while_statement_def pbind_assoc
  apply (rule since_code_length)
  apply (rule since_condition [OF front_ext_refl [OF inv]])
  unfolding prod.case
  apply (rule since_code_length)
  apply (rule since_body [OF _ body], assumption, simp)
  subgoal premises p for rt1 r s1 rt2 lt2 returns s2
  proof -
    have n: "length (tp_instructions s1) \<le> length (tp_instructions s2)" using front_extD(3) [OF p(5)] by simp
    have t: "typed_at rt2 r TBool" using front_extD(1) [OF p(5) p(2)] .
    have closing: "since 1 (rt, lt, s) (ended k) s3 (pbind code_length (\<lambda>no.
       pbind (patch (length (tp_instructions s1) - 1) (SBranch r (length (tp_instructions s1)) no)) (\<lambda>_. preturn False)))"
      if e: "front_ext j (rt, lt, s) (rt2, lt2, s3)" "1 \<le> j" and l: "length (tp_instructions s2) \<le> length (tp_instructions s3)" for j s3
      apply (rule since_code_length)
      apply (rule since_patch [OF e(1)])
      using n p(3) t l e(2) by (auto simp: ended_def intro: since_return)
    show ?thesis
    proof (cases returns)
      case True
      show ?thesis unfolding if_P [OF True] pbind_laws using closing [OF p(4)] by simp
    next
      case False
      show ?thesis
        unfolding if_not_P [OF False] pbind_laws
        apply (rule since_emit [OF p(4)])
        using n p(3) apply simp
        by (rule closing, assumption) simp_all
    qed
  qed
  done

lemma runs_statement:
  assumes inv: "front_inv rt lt s" and ne: "tp_scopes s \<noteq> []" and body: "body_ok m body" and left: "tokens_left s \<le> Suc m"
  shows "runs 1 (ended (length (tp_instructions s))) rt lt s (statement body)"
proof -
  note s = front_ext_refl [OF inv]
  have body': "body_ok (tokens_left (advanced s)) body" if "front_ext 1 (rt, lt, s) (rt, lt, advanced s)"
    using body tokens_left_ext [OF that] left by (auto simp: body_ok_def)
  show ?thesis
    unfolding statement_def
    apply (rule since_take [OF s])
    unfolding if_True if_False
    subgoal premises p
      using runs_local [OF front_ext_inv [OF p(2)], of "length (tp_instructions s)"] ne by (intro since_tail [OF p(2)]) auto
    apply (rule since_take [OF s])
    unfolding if_True if_False
    subgoal premises p
      using runs_return [OF front_ext_inv [OF p(3)]] by (intro since_tail [OF p(3)]) auto
    apply (rule since_take [OF s])
    unfolding if_True if_False
    subgoal premises p
      using runs_if [OF front_ext_inv [OF p(4)] body'] p(4) by (intro since_tail [OF p(4)]) auto
    apply (rule since_take [OF s])
    unfolding if_True if_False
    subgoal premises p
      using runs_while [OF front_ext_inv [OF p(5)] body', of "length (tp_instructions s)"] p(5) by (intro since_tail [OF p(5)]) auto
    by (rule runs_simple [OF inv])
qed

text \<open>The scope of a block.\<close>

abbreviation pushed :: "tr_parser \<Rightarrow> tr_parser" where
  "pushed s \<equiv> s\<lparr>tp_scopes := tp_scopes s @ [[]]\<rparr>"

abbreviation popped :: "tr_parser \<Rightarrow> tr_parser" where
  "popped s \<equiv> s\<lparr>tp_scopes := butlast (tp_scopes s)\<rparr>"

lemma front_inv_pushed: "front_inv rt lt s \<Longrightarrow> front_inv rt lt (pushed s)"
  by (auto simp: front_inv_def scopes_ok_def)

lemma front_ext_popped:
  assumes "front_ext k (rt, lt, pushed s) (rt', lt', s')"
  shows "front_ext k (rt, lt, s) (rt', lt', popped s')" "butlast (tp_scopes s') = tp_scopes s"
proof -
  have "scopes_ok lt' (tp_scopes s')" using assms by (simp add: front_ext_def front_inv_def)
  then have "scopes_ok lt' (butlast (tp_scopes s'))" unfolding scopes_ok_def by (blast dest: in_set_butlastD)
  then show "front_ext k (rt, lt, s) (rt', lt', popped s')" "butlast (tp_scopes s') = tp_scopes s"
    using assms by (auto simp: front_ext_def front_inv_def)
qed

lemma since_scoped:
  assumes e: "front_ext j base (rt, lt, s)" and m: "runs 0 (ended k) rt lt (pushed s) m" and "n \<le> j"
  shows "since n base (\<lambda>rt lt r s'. ended k rt lt r s' \<and> tp_scopes s' = tp_scopes s) s
    (pbind push_scope (\<lambda>_. pbind m (\<lambda>r. pbind pop_scope (\<lambda>_. preturn r))))"
proof (cases "m (pushed s)")
  case (Inl err)
  then show ?thesis using m by (simp add: since_def pbind_def push_scope_def)
next
  case (Inr x)
  obtain r s' where x: "x = (r, s')" by (cases x)
  from m Inr obtain rt' lt' where r: "front_ext 0 (rt, lt, pushed s) (rt', lt', s')" "ended k rt' lt' r s'" by (auto simp: since_def x)
  from front_ext_trans [OF e front_ext_popped(1) [OF r(1)], of n] \<open>n \<le> j\<close> front_ext_popped(2) [OF r(1)] r(2)
  have "front_ext n base (rt', lt', popped s')" "ended k rt' lt' r (popped s')" "tp_scopes (popped s') = tp_scopes s"
    by (simp_all add: ended_def)
  then show ?thesis using Inr x by (auto simp: since_def pbind_def push_scope_def pop_scope_def preturn_def)
qed

definition statements_ok :: "nat \<Rightarrow> (nat \<Rightarrow> bool \<Rightarrow> bool parse) \<Rightarrow> bool" where
  "statements_ok m st \<longleftrightarrow> (\<forall>rt lt s k depth returns. front_inv rt lt s \<longrightarrow> tp_scopes s \<noteq> [] \<longrightarrow> tokens_left s \<le> m \<longrightarrow> k \<le> length (tp_instructions s)
     \<longrightarrow> ended k rt lt returns s \<longrightarrow> runs 0 (ended k) rt lt s (st depth returns))"

definition blocks_fueled :: "nat \<Rightarrow> bool" where
  "blocks_fueled n \<longleftrightarrow> (\<forall>m depth. 2 * m + 2 \<le> n \<longrightarrow> body_ok m (parse_block n depth)) \<and> (\<forall>m. 2 * m + 1 \<le> n \<longrightarrow> statements_ok m (statements n))"

lemma since_expect_return:
  assumes "front_ext j base (rt, lt, s)" and "n \<le> Suc j" and "Q rt lt r (advanced s)"
  shows "since n base Q s (pbind (expect w) (\<lambda>_. preturn r))"
  by (rule since_expect [OF assms(1)], rule since_return, assumption, rule assms(2), rule assms(3))

lemma block_fueled:
  assumes n: "blocks_fueled n" and m: "2 * m + 2 \<le> Suc n"
  shows "body_ok m (parse_block (Suc n) depth)"
  unfolding body_ok_def
proof (intro allI impI)
  fix rt lt s assume inv: "front_inv rt lt s" and left: "tokens_left s \<le> m"
  have m1: "0 < m" using tokens_left_pos [OF inv] left by simp
  have st: "statements_ok (m - 1) (statements n)" using n m m1 by (auto simp: blocks_fueled_def)
  have body: "runs 0 (ended k) rt lt (pushed s1) (pbind (statements n depth False) (\<lambda>r. pbind (expect ''}'') (\<lambda>_. preturn r)))"
    if e: "front_ext 1 (rt, lt, s) (rt, lt, s1)" and k: "k = length (tp_instructions s1)" for s1 k
  proof -
    have inv1: "front_inv rt lt (pushed s1)" by (rule front_inv_pushed [OF front_ext_inv [OF e]])
    have r: "runs 0 (ended k) rt lt (pushed s1) (statements n depth False)"
      using st inv1 tokens_left_ext [OF e] left by (auto simp: statements_ok_def ended_def tokens_left_def k)
    show ?thesis
      by (rule since_run [OF front_ext_refl [OF inv1] r]) (rule since_expect_return, assumption, simp, simp add: ended_def)
  qed
  show "runs 1 (blocked s) rt lt s (parse_block (Suc n) depth)"
    unfolding parse_block.simps
    apply (intro since_if since_error [OF front_ext_refl [OF inv]])
    apply (rule since_expect [OF front_ext_refl [OF inv]])
    subgoal premises p
      using since_scoped [OF p(2) body [OF _ refl]] p(2) unfolding pbind_assoc pbind_return blocked_def by simp
    done
qed

lemma statements_fueled:
  assumes n: "blocks_fueled n" and m: "2 * m + 1 \<le> Suc n"
  shows "statements_ok m (statements (Suc n))"
  unfolding statements_ok_def
proof (intro allI impI)
  fix rt lt s k depth returns
  assume inv: "front_inv rt lt s" and ne: "tp_scopes s \<noteq> []" and left: "tokens_left s \<le> m" and k: "k \<le> length (tp_instructions s)" and end': "ended k rt lt returns s"
  have m1: "0 < m" using tokens_left_pos [OF inv] left by simp
  have st: "statements_ok (m - 1) (statements n)" and body: "body_ok (m - 1) (parse_block n (depth + 1))" using n m m1 by (auto simp: blocks_fueled_def)
  have l: "tokens_left s \<le> Suc (m - 1)" using left m1 by simp
  note s = front_ext_refl [OF inv]
  have stmt: "since 0 (rt, lt, s) (ended k) s (pbind (statement (parse_block n (depth + 1))) (\<lambda>r. statements n depth r))"
    apply (rule since_run [OF s runs_statement [OF inv ne body l]])
    subgoal premises p for rt' lt' r s'
    proof -
      have "tp_scopes s' \<noteq> []" using p(2) ne by (auto simp: front_ext_def)
      moreover have "k \<le> length (tp_instructions s')" using front_extD(3) [OF p(2)] k by simp
      moreover have "tokens_left s' \<le> m - 1" using tokens_left_ext [OF p(2)] left by simp
      ultimately have "runs 0 (ended k) rt' lt' s' (statements n depth r)"
        using st front_ext_inv [OF p(2)] ended_weaken [OF p(3) k] by (simp add: statements_ok_def)
      then show ?thesis by (intro since_tail [OF p(1)]) auto
    qed
    done
  show "runs 0 (ended k) rt lt s (statements (Suc n) depth returns)"
    unfolding statements.simps has_def pbind_laws
    apply (rule since_peek [OF s])
    apply (intro since_if since_return [OF s] end' since_peek [OF s] since_error [OF s] stmt)
    by simp
qed

lemma blocks_fueled_all: "blocks_fueled n"
proof (induction n)
  case (Suc n)
  then show ?case using block_fueled statements_fueled unfolding blocks_fueled_def [of "Suc n"] by blast
qed (simp add: blocks_fueled_def)

section \<open>Programs\<close>

lemma since_expect_all:
  assumes "front_ext j base (rt, lt, s)"
    and "\<And>i. front_ext i base (rt, lt, s\<lparr>tp_pos := tp_pos s + length ws\<rparr>) \<Longrightarrow> since n base Q (s\<lparr>tp_pos := tp_pos s + length ws\<rparr>) (f ())"
  shows "since n base Q s (pbind (expect_all ws) f)"
  using assms
proof (induction ws arbitrary: j s)
  case Nil
  then show ?case by (simp add: pbind_laws)
next
  case (Cons w ws)
  show ?case
    unfolding expect_all.simps pbind_laws
    by (rule since_expect [OF Cons.prems(1)], rule Cons.IH, assumption) (use Cons.prems(2) in \<open>simp add: ac_simps\<close>)
qed

definition parsed :: "unit outcome" where
  "parsed rt lt x s \<longleftrightarrow> ended 0 rt lt True s"

lemma runs_parse_body:
  assumes inv: "front_inv rt lt s"
  shows "runs 0 parsed rt lt s parse_body"
  unfolding parse_body_def
  apply (rule since_expect_all [OF front_ext_refl [OF inv]])
  subgoal premises p for i
  proof -
    let ?s = "s\<lparr>tp_pos := tp_pos s + length [''fn'', ''call'', ''('', ''input'', '':'', ''u64'', '')'', ''->'', ''u64'']\<rparr>"
    have body: "body_ok (tokens_left s) (parse_block (2 * length (tp_tokens ?s) + 2) 0)"
      using blocks_fueled_all [of "2 * length (tp_tokens ?s) + 2"] unfolding blocks_fueled_def by (simp add: tokens_left_def del: parse_block.simps)
    have "since 0 (rt, lt, s) parsed ?s (pbind (parse_block (2 * length (tp_tokens ?s) + 2) 0) (\<lambda>returns.
       if \<not> returns then perror ''every function path must return u64''
       else pbind peek (\<lambda>t. if tk_kind t \<noteq> TEnd then perror ''trailing source or additional functions are unsupported'' else preturn ())))"
      apply (rule since_body [OF p body])
      apply simp
      apply (rule since_if, rule since_error, assumption)
      apply (rule since_peek, assumption)
      apply (rule since_if, rule since_error, assumption)
      apply (rule since_return, assumption, simp)
      by (auto simp: parsed_def ended_def)
    then show ?thesis by (simp add: since_def del: parse_block.simps)
  qed
  done

text \<open>The lexer.\<close>

lemma tokens_good_snoc:
  assumes "\<forall>t \<in> set ts. tk_kind t \<noteq> TEnd \<and> token_good (tk_kind t)"
  shows "tokens_good (ts @ [\<lparr>tk_kind = TEnd, tk_offset = n\<rparr>])"
  using assms by (auto simp: tokens_good_def token_good_def intro!: tokens_ok_snoc)

lemma lex_key_good: "lex_key offset bs = Ok key \<Longrightarrow> token_good (TKey key)"
  by (auto simp: lex_key_def Let_def token_good_def split: if_splits)

lemma lex_loop_ok:
  assumes "\<forall>t \<in> set tokens. tk_kind t \<noteq> TEnd \<and> token_good (tk_kind t)"
  shows "case lex_loop offset bs tokens of Inl e \<Rightarrow> compile_error e | Inr ts \<Rightarrow> \<forall>t \<in> set ts. tk_kind t \<noteq> TEnd \<and> token_good (tk_kind t)"
  using assms
proof (induction offset bs tokens rule: lex_loop.induct)
  case (2 offset b bs tokens)
  have key: "case lex_key offset bs of Inl e \<Rightarrow> compile_error e | Inr key \<Rightarrow> token_good (TKey key)"
    using lex_key_good [of offset bs] by (cases "lex_key offset bs") (auto simp: lex_key_def Let_def split: if_splits)
  have word: "token_good (TWord w)" "token_good (TNumber v)" for w v by (simp_all add: token_good_def)
  have symbol: "token_good (TSymbol (take n (b # bs)))" if "symbol_length (b # bs) = Some n" for n
    using symbol_length_bounds [OF that] by (auto simp: token_good_def)
  consider "ascii_whitespace b" | "\<not> ascii_whitespace b" "starts_comment (b # bs)"
    | "\<not> ascii_whitespace b" "\<not> starts_comment (b # bs)" "MAX_TOKENS \<le> length tokens"
    | "\<not> ascii_whitespace b" "\<not> starts_comment (b # bs)" "\<not> MAX_TOKENS \<le> length tokens" "identifier_start b"
    | "\<not> ascii_whitespace b" "\<not> starts_comment (b # bs)" "\<not> MAX_TOKENS \<le> length tokens" "\<not> identifier_start b" "ascii_digit b"
    | "\<not> ascii_whitespace b" "\<not> starts_comment (b # bs)" "\<not> MAX_TOKENS \<le> length tokens" "\<not> identifier_start b" "\<not> ascii_digit b" "b = quote"
    | "\<not> ascii_whitespace b" "\<not> starts_comment (b # bs)" "\<not> MAX_TOKENS \<le> length tokens" "\<not> identifier_start b" "\<not> ascii_digit b" "b \<noteq> quote"
    by blast
  then show ?case
  proof cases
    case 4
    then show ?thesis using 2(3) [OF 4 refl] 2(7) word by (simp add: Let_def)
  next
    case 5
    then show ?thesis using 2(4) [OF 5 refl] 2(7) word by (cases "parse_u64 (b # takeWhile ascii_digit bs)") (simp_all add: Let_def)
  next
    case 6
    show ?thesis using 6(1-5) 2(5) [OF 6] 2(7) key unfolding 6(6) by (cases "lex_key offset bs") simp_all
  next
    case 7
    then show ?thesis using 2(6) [OF 7] 2(7) symbol by (cases "symbol_length (b # bs)") simp_all
  qed (use 2 in simp_all)
qed simp

lemma lex_ok: "case lex source of Inl e \<Rightarrow> compile_error e | Inr ts \<Rightarrow> tokens_good ts"
  using lex_loop_ok [of "[]" 0 source] by (auto simp: lex_def intro!: tokens_good_snoc split: sum.splits)

text \<open>Keys in canonical order.\<close>

lemma key_mapping_bound:
  assumes "old < length keys"
  shows "key_mapping keys ! old < length keys"
proof -
  have "length (fold (\<lambda>(index, key, old) mapping. mapping[old := index]) ps mapping) = length mapping
    \<and> (\<forall>v \<in> set (fold (\<lambda>(index, key, old) mapping. mapping[old := index]) ps mapping). v < k)"
    if "\<forall>p \<in> set ps. fst p < k" "\<forall>v \<in> set mapping. v < k" for ps :: "(nat \<times> byte list \<times> nat) list" and mapping :: "nat list" and k
    using that
  proof (induction ps arbitrary: mapping)
    case (Cons p ps)
    obtain index key old where p: "p = (index, key, old)" by (cases p)
    have "\<forall>v \<in> set (mapping[old := index]). v < k" using Cons.prems set_update_subset_insert [of mapping old index] by (auto simp: p)
    with Cons.IH [of "mapping[old := index]"] Cons.prems show ?case by (simp add: p)
  qed simp
  from this [of "enumerate 0 keys" "length keys" "replicate (length keys) 0"] assms show ?thesis
    unfolding key_mapping_def by (auto simp: in_set_enumerate_eq dest!: nth_mem)
qed

lemma remap_step_ok:
  assumes "step_ok rt lt k n i" and "\<forall>old < k. mapping ! old < k"
  shows "step_ok rt lt k n (remap_step mapping i)"
  using assms by (cases i) auto

lemma remap_return: "remap_step mapping (SReturn r) = SReturn r"
  by simp

definition checked_ok :: "checked_program \<Rightarrow> bool" where
  "checked_ok p \<longleftrightarrow> (\<exists>rt lt. typed_program rt lt p) \<and> program_bounded p"

lemma remapped_ok:
  assumes inv: "front_inv rt lt s" and ended: "ended 0 rt lt True s"
  shows "checked_ok \<lparr>cp_instructions = map (remap_step (key_mapping (tp_keys s))) (tp_instructions s), cp_registers = tp_registers s,
    cp_locals = tp_locals s, cp_keys = bt_keys (tp_keys s), cp_context = tp_context s\<rparr>" (is "checked_ok ?p")
proof -
  have ne: "tp_instructions s \<noteq> []" using ended by (auto simp: ended_def)
  have step: "step_ok rt lt (length (tp_keys s)) (length (tp_instructions s)) (remap_step (key_mapping (tp_keys s)) i)" if "i \<in> set (tp_instructions s)" for i
    using ended that key_mapping_bound by (intro remap_step_ok) (auto simp: ended_def code_ok_def)
  have "typed_program rt lt ?p"
    using inv ended ne step by (auto simp: typed_program_def front_inv_def ended_def list_all_iff bt_keys_def last_map)
  moreover have "program_bounded ?p"
    using inv by (auto simp: program_bounded_def front_inv_def keys_ok_def bt_keys_def list_all_iff)
  ultimately show ?thesis by (auto simp: checked_ok_def)
qed

lemma parse_stateful_ok: "case parse_stateful source of Inl e \<Rightarrow> compile_error e | Inr p \<Rightarrow> checked_ok p"
proof (cases "lex source")
  case (Inl e)
  then show ?thesis using lex_ok [of source] by (simp add: parse_stateful_def)
next
  case (Inr tokens)
  let ?s = "\<lparr>tp_tokens = tokens, tp_pos = 0, tp_instructions = [], tp_registers = 0, tp_locals = 0, tp_scopes = [], tp_keys = [], tp_context = False\<rparr>"
  have "tokens_good tokens" using lex_ok [of source] Inr by simp
  then have inv: "front_inv [] [] ?s"
    by (auto simp: front_inv_def code_ok_def scopes_ok_def keys_ok_def tokens_good_def tokens_ok_def)
  show ?thesis
  proof (cases "parse_body ?s")
    case e: (Inl e)
    then show ?thesis using runs_parse_body [OF inv] Inr by (simp add: since_def parse_stateful_def)
  next
    case r: (Inr x)
    obtain s where x: "x = ((), s)" by (cases x) simp
    from runs_parse_body [OF inv] r x obtain rt lt where "front_inv rt lt s" "ended 0 rt lt True s"
      by (auto simp: since_def front_ext_def parsed_def)
    from remapped_ok [OF this] r x Inr show ?thesis by (simp add: parse_stateful_def)
  qed
qed

section \<open>Compiled programs\<close>

definition program_ok :: "tr_program \<Rightarrow> bool" where
  "program_ok g \<longleftrightarrow>
     (case pg_stateful g of
        None \<Rightarrow> scalar_ok (pg_instructions g) (pg_result g) \<and> length (pg_instructions g) \<le> MAX_INSTRUCTIONS
      | Some p \<Rightarrow> checked_ok p)"

lemma compile_ok: "case compile blake2s source of Inl e \<Rightarrow> compile_error e | Inr g \<Rightarrow> program_ok g"
proof (cases "scalar_parse source")
  case (Inl e)
  with scalar_parse_ok [of source] obtain offset message where "e = CompileError offset message" by (auto simp: compile_error_def)
  with Inl parse_stateful_ok [of source] show ?thesis by (auto simp: compile_def program_ok_def split: sum.splits)
next
  case (Inr x)
  obtain instrs result where "x = (instrs, result)" by (cases x)
  with Inr scalar_parse_ok [of source] show ?thesis by (simp add: compile_def program_ok_def)
qed

text \<open>Accepted programs run to an end for every input, context and budget, and their effects stay inside the context.\<close>

lemma evaluate_contract_ends:
  assumes "program_ok g" and "length (cc_caller c) = 4"
  shows "\<exists>r. evaluate_contract g input c fuel = Some (Some r) \<and> (\<forall>x. r = Ok x \<longrightarrow> execution_ok c fuel x)
    \<and> (r = Err InvalidContext \<longleftrightarrow> context_validate c (state_keys g) \<noteq> Ok ())"
proof (cases "pg_stateful g")
  case (Some p)
  then obtain rt lt where "typed_program rt lt p" using assms(1) by (auto simp: program_ok_def checked_ok_def)
  from evaluate_with_interrupt_ends [OF this assms(2), of input fuel "\<lambda>_. False"] obtain r where
    r: "evaluate_with_interrupt p input c fuel (\<lambda>_. False) = Some (Some r)" "\<forall>x. r = Ok (Some x) \<longrightarrow> execution_ok c fuel x"
      "r = Err InvalidContext \<longleftrightarrow> context_validate c (cp_keys p) \<noteq> Ok ()" "r \<noteq> Ok None"
    by auto
  then show ?thesis by (cases r) (auto simp: evaluate_contract_def evaluate_checked_def state_keys_def Some)
next
  case None
  have len: "length (pg_instructions g) < 2 ^ 64" and ok: "scalar_ok (pg_instructions g) (pg_result g)"
    using assms(1) None by (simp_all add: program_ok_def MAX_INSTRUCTIONS_def)
  from scalar_evaluate_ok [OF ok len, of input fuel] obtain r where
    r: "scalar_evaluate (pg_instructions g) (pg_result g) input fuel = Some r" "\<forall>x. r = Ok x \<longrightarrow> se_fuel_used x \<le> fuel" "r \<noteq> Err InvalidContext"
    by auto
  show ?thesis
  proof (cases "context_validate c []")
    case (Inl e)
    then have "e = InvalidContext" by (auto simp: context_validate_def Let_def split: if_splits)
    with Inl None show ?thesis by (simp add: evaluate_contract_def state_keys_def)
  next
    case (Inr u)
    then have "length (cc_state c) = length (cc_keys c)" by (simp add: context_validate_Ok)
    with Inr None r show ?thesis
      by (cases r) (auto simp: evaluate_contract_def program_evaluate_def state_keys_def execution_ok_def slots_ok_def scalar_effects_def)
  qed
qed

lemma evaluate_contract_interrupt:
  assumes "program_ok g" and "length (cc_caller c) = 4" and r: "evaluate_contract g input c fuel = Some (Some r)"
  shows "evaluate_contract_with_interrupt g input c fuel interrupt = Some (Some (Ok None))
    \<or> evaluate_contract_with_interrupt g input c fuel interrupt = Some (Some (map_sum id Some r))"
proof (cases "pg_stateful g")
  case (Some p)
  then obtain rt lt where p: "typed_program rt lt p" using assms(1) by (auto simp: program_ok_def checked_ok_def)
  show ?thesis
  proof (cases "context_validate c (cp_keys p)")
    case (Inl e)
    then show ?thesis using r by (auto simp: evaluate_contract_def evaluate_checked_def evaluate_contract_with_interrupt_def evaluate_with_interrupt_def Some)
  next
    case (Inr u)
    then have c: "context_ok c (cp_keys p)" using assms(2) by (simp add: context_ok_def)
    from evaluate_with_interrupt_ends [OF p assms(2), of input fuel "\<lambda>_. False"] obtain y where
      y: "evaluate_with_interrupt p input c fuel (\<lambda>_. False) = Some (Some y)" by blast
    then have "eval_loop p input c fuel (\<lambda>_. False) 0 0 (machine_start p c) = Some (Some (map_sum id Some r))"
      using r Inr by (cases y) (auto simp: evaluate_contract_def evaluate_checked_def evaluate_with_interrupt_def Some)
    with eval_loop_interrupt [OF p c machine_start_ok [OF p c], of input fuel interrupt 0 0 0 0] Inr show ?thesis
      by (simp add: evaluate_contract_with_interrupt_def evaluate_with_interrupt_def Some)
  qed
next
  case None
  then show ?thesis using r
    by (cases "context_validate c []"; cases r) (auto simp: evaluate_contract_with_interrupt_def evaluate_contract_def split: if_splits)
qed

end
