(* ===== verification/Astro_Trocto_Samples.thy ===== *)
theory Astro_Trocto_Samples
  imports Astro_Trocto_Typing
begin

text \<open>
  A counting loop in Trocto, compiled by evaluation of the model: the concrete program at which the theorems about the
  compiler are applied.
\<close>

definition loop_source :: "byte list" where
  "loop_source = ascii ''fn call(input:u64)->u64{let mut i=0;while i<input{i=i+1;}return i;}''"

definition loop_tokens :: "token_kind token list" where
  "loop_tokens = [\<lparr>tk_kind = TWord (ascii ''fn''), tk_offset = 0\<rparr>, \<lparr>tk_kind = TWord (ascii ''call''), tk_offset = 3\<rparr>, \<lparr>tk_kind = TSymbol (ascii ''(''), tk_offset = 7\<rparr>, \<lparr>tk_kind = TWord (ascii ''input''), tk_offset = 8\<rparr>, \<lparr>tk_kind = TSymbol (ascii '':''), tk_offset = 13\<rparr>, \<lparr>tk_kind = TWord (ascii ''u64''), tk_offset = 14\<rparr>, \<lparr>tk_kind = TSymbol (ascii '')''), tk_offset = 17\<rparr>, \<lparr>tk_kind = TSymbol (ascii ''->''), tk_offset = 18\<rparr>, \<lparr>tk_kind = TWord (ascii ''u64''), tk_offset = 20\<rparr>, \<lparr>tk_kind = TSymbol (ascii ''{''), tk_offset = 23\<rparr>, \<lparr>tk_kind = TWord (ascii ''let''), tk_offset = 24\<rparr>, \<lparr>tk_kind = TWord (ascii ''mut''), tk_offset = 28\<rparr>, \<lparr>tk_kind = TWord (ascii ''i''), tk_offset = 32\<rparr>, \<lparr>tk_kind = TSymbol (ascii ''=''), tk_offset = 33\<rparr>, \<lparr>tk_kind = TNumber 0, tk_offset = 34\<rparr>, \<lparr>tk_kind = TSymbol (ascii '';''), tk_offset = 35\<rparr>, \<lparr>tk_kind = TWord (ascii ''while''), tk_offset = 36\<rparr>, \<lparr>tk_kind = TWord (ascii ''i''), tk_offset = 42\<rparr>, \<lparr>tk_kind = TSymbol (ascii ''<''), tk_offset = 43\<rparr>, \<lparr>tk_kind = TWord (ascii ''input''), tk_offset = 44\<rparr>, \<lparr>tk_kind = TSymbol (ascii ''{''), tk_offset = 49\<rparr>, \<lparr>tk_kind = TWord (ascii ''i''), tk_offset = 50\<rparr>, \<lparr>tk_kind = TSymbol (ascii ''=''), tk_offset = 51\<rparr>, \<lparr>tk_kind = TWord (ascii ''i''), tk_offset = 52\<rparr>, \<lparr>tk_kind = TSymbol (ascii ''+''), tk_offset = 53\<rparr>, \<lparr>tk_kind = TNumber 1, tk_offset = 54\<rparr>, \<lparr>tk_kind = TSymbol (ascii '';''), tk_offset = 55\<rparr>, \<lparr>tk_kind = TSymbol (ascii ''}''), tk_offset = 56\<rparr>, \<lparr>tk_kind = TWord (ascii ''return''), tk_offset = 57\<rparr>, \<lparr>tk_kind = TWord (ascii ''i''), tk_offset = 64\<rparr>, \<lparr>tk_kind = TSymbol (ascii '';''), tk_offset = 65\<rparr>, \<lparr>tk_kind = TSymbol (ascii ''}''), tk_offset = 66\<rparr>, \<lparr>tk_kind = TEnd, tk_offset = 67\<rparr>]"

lemmas lexer_simps = ascii_def ascii_whitespace_def starts_comment_def MAX_SOURCE_BYTES_def MAX_TOKENS_def identifier_start_def ascii_alphabetic_def
  identifier_part_def ascii_digit_def MAX_IDENTIFIER_BYTES_def parse_u64_def digits_value_def Let_def

lemma loop_lex: "lex loop_source = Ok loop_tokens"
  by (simp add: lex_def loop_source_def loop_tokens_def lexer_simps symbol_length_def quote_def)

lemma loop_scalar: "scalar_lex loop_source = Err (CompileError 43 ''unsupported source character'')"
  by (simp add: scalar_lex_def loop_source_def lexer_simps scalar_symbol_def)


lemma pbind_apply: "pbind m f s = try_bind (m s) (\<lambda>(x, s). f x s)"
  by (simp add: pbind_def)

lemma try_bind_weak: "r = r' \<Longrightarrow> try_bind r f = try_bind r' f"
  by simp

lemma expression_unfold:
  "n \<noteq> 0 \<Longrightarrow> expression n minimum depth s = (if depth \<ge> MAX_NESTING then perror ''expression nesting limit exceeded''
      else pbind (atom (expression (n - 1)) depth) (\<lambda>left. operators (n - 1) minimum depth left)) s"
  by (cases n) simp_all

lemma operators_unfold:
  "n \<noteq> 0 \<Longrightarrow> operators n minimum depth left s = pbind peek (\<lambda>t.
     case next_operator minimum (tk_kind t) of
       None \<Rightarrow> preturn left
     | Some (operator, precedence) \<Rightarrow>
         pbind advance (\<lambda>_.
         pbind ((if operator = ascii ''&&'' \<or> operator = ascii ''||'' then short_circuit else binary_operation)
           operator left (expression (n - 1) (precedence + 1) (depth + 1))) (\<lambda>result.
         operators (n - 1) minimum depth result))) s"
  by (cases n) (simp_all only: operators.simps diff_Suc_1 simp_thms)

lemma statements_unfold:
  "n \<noteq> 0 \<Longrightarrow> statements n depth returns s = pbind (has ''}'') (\<lambda>closed.
     if closed then preturn returns
     else
       pbind peek (\<lambda>t.
       if tk_kind t = TEnd then perror ''closing brace expected''
       else if returns then perror ''unreachable statement after unconditional return''
       else pbind (statement (parse_block (n - 1) (depth + 1))) (\<lambda>returns. statements (n - 1) depth returns))) s"
  by (cases n) (simp_all only: statements.simps diff_Suc_1 simp_thms)

lemma block_unfold:
  "n \<noteq> 0 \<Longrightarrow> parse_block n depth s =
     (if depth \<ge> MAX_NESTING then perror ''statement nesting limit exceeded''
      else
        pbind (expect ''{'') (\<lambda>_.
        pbind push_scope (\<lambda>_.
        pbind (statements (n - 1) depth False) (\<lambda>returns.
        pbind (expect ''}'') (\<lambda>_.
        pbind pop_scope (\<lambda>_.
        preturn returns)))))) s"
  by (cases n) simp_all

lemmas parser_simps = pbind_apply peek_def slot_def perror_def has_def take_token_def expect_def preturn_def advance_def kind_has_def emit_def register_def typed_def
  state_key_index_def set_context_def code_length_def patch_def put_slot_def precedence_of_def comparison_of_def operator_of_def binary_type_def limb_def emit_value_def builtins_def
  short_circuit_def binary_operation_def builtin_step_def builtin_def load_local_def atom_def next_operator_def full_expression_def reserved_words_def declared_type_def
  new_local_def bind_local_def local_statement_def local_named_def effect_words_def end_call_def u64_expression_def effect_statement_def assignment_def return_statement_def
  condition_def push_scope_def pop_scope_def if_statement_def while_statement_def simple_statement_def statement_def parse_body_def expect_all.simps
  expression_unfold operators_unfold statements_unfold block_unfold MAX_NESTING_def MAX_INSTRUCTIONS_def MAX_LOCALS_def

definition loop_steps :: "tr_step list" where
  "loop_steps = [SConstant 0 0, SStore 0 0 False, SLoad 1 0, SInput 2, SBinary 3 BLess 1 2, SBranch 3 6 11,
     SLoad 4 0, SConstant 5 1, SBinary 6 (Arithmetic OpAdd) 4 5, SStore 0 6 True, SJump 2, SLoad 7 0, SReturn 7]"

definition loop_program :: tr_program where
  "loop_program = \<lparr>pg_instructions = [], pg_result = 0, pg_source_hash = 0, pg_stateful =
     Some \<lparr>cp_instructions = loop_steps, cp_registers = 8, cp_locals = 1, cp_keys = [], cp_context = False\<rparr>\<rparr>"

lemma loop_parse:
  "parse_body \<lparr>tp_tokens = loop_tokens, tp_pos = 0, tp_instructions = [], tp_registers = 0, tp_locals = 0, tp_scopes = [],
     tp_keys = [], tp_context = False\<rparr> =
   Ok ((), \<lparr>tp_tokens = loop_tokens, tp_pos = 32, tp_instructions = loop_steps, tp_registers = 8, tp_locals = 1, tp_scopes = [],
     tp_keys = [], tp_context = False\<rparr>)"
  by (simp add: parser_simps loop_tokens_def loop_steps_def ascii_def bt_contains_def
    del: parse_block.simps statements.simps expression.simps operators.simps cong: try_bind_weak)

lemma loop_compiles: "compile (\<lambda>_. 0) loop_source = Ok loop_program"
  by (simp add: compile_def scalar_parse_def loop_scalar parse_stateful_def loop_lex loop_parse loop_program_def loop_steps_def
    domain_hash_def bt_keys_def key_mapping_def)

end
