(* ===== verification/Spec2Isabelle.thy ===== *)
theory Spec2Isabelle
  imports Astro_Examples Astro_Store_Crash Astro_Trocto_Samples
begin

text \<open>
  A verification library for AstroLune (\<^verbatim>\<open>src/crates\<close>), a replicated ledger in Rust: validators agree on blocks
  by a locking two-phase vote, sign through a durable journal, execute signed payments and contract calls in parallel, and
  commit the result to an authenticated state. Definitions keep the names of the Rust items; where a name is
  taken, the crate or type is a prefix.

  \<^bold>\<open>Conventions.\<close> A fixed-width integer is a word of that width and \<open>[u8; N]\<close> a word with its
  big-endian bytes; \<open>Vec<u8>\<close>, \<open>String\<close> and \<open>&str\<close> are lists of bytes; \<open>usize\<close> is \<open>nat\<close> with its limit written
  out where it is checked; \<open>i128\<close> is \<open>int\<close> with checked operations. \<open>Result\<close> is a sum type with \<open>try_bind\<close> for the question mark; a
  panic is \<open>None\<close> or an error of its own. \<open>BTreeMap\<close> is a sorted list of entries (\<open>Astro_BTree\<close>). Handlers
  take the state as a record and return it. Third-party code is an argument: BLAKE2s (\<open>blake2s\<close>), Ed25519 (\<open>ed\<close>), the VRF suite
  (\<open>vrf\<close>), with what is assumed of it as a hypothesis (no collision on the messages at hand, completeness of the suite). The
  outcome of a file operation that changes a file, of opening one, or of starting a worker is an argument too, so theorems hold for all
  these outcomes. Not arguments are: a failing read of the open journal in \<open>check_length\<close>, which the code answers by refusing and poisoning
  as it does for a wrong length, and a panic inside a verification worker, since verification is a total function here.

  \<^bold>\<open>Parts, theories and code.\<close>

  \<^item> Vocabulary: \<open>Astro_Prelude\<close> (results, checked arithmetic, bytes), \<open>Astro_BTree\<close> (ordered maps), \<open>Astro_Types\<close>
    (types: hash.rs, domain.rs, resources.rs, transaction.rs, block.rs, state\_key.rs), \<open>Astro_Codec\<close> (codec: decoder.rs,
    primitives.rs, protocol.rs), \<open>Astro_Crypto\<close> (crypto: ed25519\_provider.rs, batch.rs, lib.rs), \<open>Astro_Vrf\<close> (crypto: vrf.rs).
    Lemmas: codecs are inverse to each other on exactly the canonical bytes, the batch verifier finds the first
    failure, Merkle roots bind the leaves, cost arithmetic is exact or refuses.
  \<^item> Consensus messages and committees: \<open>Astro_Votes\<close> (consensus: vote.rs, proposal.rs, certificate.rs), \<open>Astro_Committee\<close>
    (authenticated.rs, weight.rs, prevote.rs, evidence.rs), \<open>Astro_Finality\<close> (finality.rs). Lemmas: the quorum is the least
    power above two thirds, a certificate is accepted exactly when distinct members with that power signed, the tallies of the engine are
    the votes it has seen.
  \<^item> Signing: \<open>Astro_Journal\<close>, \<open>Astro_Journal_Log\<close>, \<open>Astro_Recovery\<close> (keystore: journal.rs, journal/rollover.rs), \<open>Astro_Anchor\<close>
    (anchor.rs), \<open>Astro_Intents\<close> (admission.rs, governance.rs), \<open>Astro_Signer\<close> (durable.rs). The journal refines an
    append-only log of decisions; a file whose last write was cut at any byte is refused or reopens to the log before or after it; a rolled back journal is
    detected by its anchor; no position is ever signed twice with different messages.
  \<^item> Voting: \<open>Astro_Local\<close> (consensus: local.rs) on top of the signer, and \<open>Astro_Agreement\<close>: the runs of honest
    validators (\<open>node_run\<close>, with failed writes, crashes and restarts) satisfy the locking rules, hence agreement. While storage works, the timeouts take a validator, anchored or not,
    from round to round.
  \<^item> State: \<open>Astro_Tree\<close>, \<open>Astro_State_Proof\<close> (state: tree.rs, commitment.rs, absence.rs, value\_proof.rs), \<open>Astro_State\<close>
    (diff.rs, lease.rs, memory.rs, snapshot.rs), \<open>Astro_Seals\<close> (tree.rs: seals), \<open>Astro_Store\<close>, \<open>Astro_Store_Crash\<close> (persistent.rs and the
    transport of proofs). Commits refine an update of a finite map, the incremental root is the root of the reference
    tree, proofs are complete and sound. The directory of the file-backed state tells synchronized files and renames from those that
    a power loss may spoil or undo; no commit that returned success is lost and no torn file is read.
  \<^item> Transactions and admission: \<open>Astro_Transaction\<close> (transaction crate), \<open>Astro_Mempool\<close> (mempool crate).
  \<^item> Execution: \<open>Astro_Payment\<close>, \<open>Astro_Session\<close> (execution: payment.rs, signed.rs, snapshot\_cache.rs), \<open>Astro_Schedule\<close> (scheduler.rs, wave.rs),
    \<open>Astro_Parallel\<close>, \<open>Astro_Parallel_Proof\<close>, \<open>Astro_Dag\<close> (parallel\_payment.rs, worker\_pool.rs), \<open>Astro_Fold\<close>,
    \<open>Astro_Fold_Proof\<close> (fold.rs). Payments conserve the supply, plans are conflict free and as short as
    the conflicts allow, and the parallel executors return the outputs of the serial one for every schedule of their workers.
  \<^item> Contracts: \<open>Astro_Trocto\<close> (trocto-compiler: lib.rs, stateful.rs), \<open>Astro_Trocto_Parse\<close> (frontend.rs), \<open>Astro_Trocto_Front\<close>
    (stateful\_frontend.rs, \<open>compile\<close>), \<open>Astro_Trocto_Typing\<close>. The compiler is total, accepts only well-typed code, and evaluation
    of accepted code ends inside its budget and its grants.
  \<^item> Concrete inputs for the witnesses: \<open>Astro_Samples\<close>, \<open>Astro_Examples\<close>, \<open>Astro_Trocto_Samples\<close>.

  \<^bold>\<open>Interfaces.\<close> Locales state what a component relies on and are interpreted on the definitions above: \<open>wire_field\<close> and
  \<open>wire_format\<close> (\<open>Astro_Codec\<close>) are the laws of a codec, interpreted for every field and message; \<open>weighted_quorums\<close> (\<open>Astro_Committee\<close>) gives
  the intersection of quorums, interpreted for committees; \<open>execution\<close> (\<open>Astro_Parallel_Proof\<close>) is what the reordering of transactions needs
  of an executor, interpreted for the signed sessions.

  \<^bold>\<open>Fuel and loops.\<close> The parsers of Trocto carry fuel: twice the number of tokens plus two, since every second call reads a
  token; it is proved that no run exhausts it. The evaluator of Trocto is a partial function whose value
  \<open>None\<close> would mean divergence; it is proved to return. All other loops are structural or have a measure.

  \<^bold>\<open>Not modelled.\<close> The asynchronous node loops, sockets, TLS and HTTP (node, p2p, rpc, apps, services, tools); storage of
  blocks on disk and synchronisation (storage, sync); sampling and rotation of committees and governance documents (the committee
  of a height is an argument of the theorems); the generation of LLVM text and the native worker processes; the
  WebAssembly host around the wasmi interpreter and the bridge to the contract engines, which sessions take as an argument; encryption of key
  files, configuration, genesis documents and telemetry. \<open>execute_payments\<close> and the sessions, generic over the database in the code, are modelled on the database in memory; with the
  file-backed one a commit of unknown durability has changed the state although it returns an error. Formatting, accessors and conversions of modelled files are left out as
  they change no state.
\<close>

section \<open>Properties\<close>

text \<open>C1. Agreement. Every honest validator runs the operations of \<open>LocalBft\<close> over its durable signer, in any
order, with failed writes, crashes, restarts and changes of height in between (\<open>node_run\<close>). The
votes presented to anyone are \<open>seen\<close>; a verified vote of an honest validator was signed by its key. The digest
does not collide on the messages at hand, and validators with less than a third of the power of
the committee are dishonest. Then two certificates that the committee accepts at one height name the same block.\<close>

theorem agreement:
  assumes com: "committees_ok blake2s ed com" and inj: "inj_on blake2s (hs \<union> vote_message ` seen)"
    and runs: "\<And>v. v \<in> honest \<Longrightarrow> v = blake2s (be_bytes (sk_public ed (seed v)))
        \<and> node_run blake2s ed ctx com seen hs (seed v) (rel v) (st v)"
    and signed: "\<And>w p. w \<in> seen \<Longrightarrow> vote_voter w \<in> honest \<Longrightarrow>
        verify_vote blake2s ed (com (vote_height w)) w = Ok p \<Longrightarrow> vote_signing_hash blake2s w \<in> rel (vote_voter w)"
    and byz: "3 * set_power (com h) (members (com h) - honest) < unat (ac_total (com h))"
    and c1: "verify_certificate blake2s ed hst (com h) c header = Ok ()"
      "certificate_vote c ` set (fc_signatures c) \<subseteq> seen"
    and c2: "verify_certificate blake2s ed hst' (com h) c' header' = Ok ()"
      "certificate_vote c' ` set (fc_signatures c') \<subseteq> seen"
  shows "fc_block c = fc_block c'"
proof -
  have net: "honest_logs blake2s ed com seen hs honest rel"
    using com inj runs signed by (rule honest_logs_runs)
  have ok: "committee_ok blake2s ed (com h)" using com by (simp add: committees_ok_def)
  show ?thesis
    using precommits_agree [OF net byz [folded byzantine_minority_def]] c1 c2
    unfolding verify_certificate_Ok [OF ok] by (metis list.set_map)
qed

theorem agreement_witness:
  "(\<exists>st. sample_run sample_released st) \<and> fc_block sample_cert = fc_block sample_cert"
proof -
  obtain st where st: "sample_run sample_released st" using sample_run_votes by blast
  have none: "members (sample_com 5) - {sample_vid} = {}" by (simp add: sample_com_members)
  have byz: "3 * set_power (sample_com 5) (members (sample_com 5) - {sample_vid}) < unat (ac_total (sample_com 5))"
    unfolding none by (simp add: set_power_def sample_com_def)
  have votes: "certificate_vote sample_cert ` set (fc_signatures sample_cert) \<subseteq> sample_seen"
    using sample_certificate_votes by (auto simp: sample_seen_def simp flip: set_map)
  have "fc_block sample_cert = fc_block sample_cert"
  proof (rule agreement [where honest = "{sample_vid}" and seed = "\<lambda>_. 7" and rel = "\<lambda>_. sample_released"
        and st = "\<lambda>_. st", OF sample_committees sample_injective _ _ byz sample_cert_verifies votes
        sample_cert_verifies [of sample_host] votes])
    show "v = sample_sum (be_bytes (sk_public sample_ed 7)) \<and> sample_run sample_released st" if "v \<in> {sample_vid}" for v
      using that st by (simp add: sample_vid_def sample_ed_def)
  qed (auto simp: sample_seen_def sample_released_def)
  with st show ?thesis by blast
qed

text \<open>C2. No equivocation. Over the whole life of a protected signer (signatures, refusals, failed writes that leave part of a
record behind, crashes, restarts from the journal file alone or with its anchor) at most one message is signed per position.\<close>

theorem signer_never_equivocates:
  assumes "signer_run blake2s ed ctx seed rel hs st" and "inj_on blake2s hs"
  shows "single_valued rel"
  using signer_no_equivocation [OF assms] by (auto intro: single_valuedI)

theorem signer_never_equivocates_witness:
  "\<exists>st. signer_run sample_sum sample_ed sample_ctx 7 {(sample_position, 77)} {} st
     \<and> single_valued {(sample_position, 77 :: hash256)}"
  using sample_signer_run signer_never_equivocates [of sample_sum sample_ed sample_ctx 7 _ "{}"] by blast

text \<open>C3. Refinement of the signing journal. On a journal that stands for the log \<open>ds\<close>, a protected reservation either
is refused and leaves the journal as it is, or repeats the last decision, or yields the journal of the log with the decision appended, or
fails with \<open>DurabilityUnknown\<close>, is poisoned, and its file is cut off inside the write.\<close>

theorem journal_refinement:
  assumes "renderable True rolled ds"
    and "reserve_protected blake2s io_activate io_write pos msg s (render blake2s ctx pk True rolled ds) = (r, j)"
  shows "(\<exists>e. r = Err e \<and> j = render blake2s ctx pk True rolled ds)
    \<or> r = Ok () \<and> j = render blake2s ctx pk True rolled ds \<and> last_opt None ds = Some (pos, msg, Some s)
    \<or> r = Ok () \<and> (\<exists>rolled'. renderable True rolled' (ds @ [(pos, msg, Some s)])
         \<and> j = render blake2s ctx pk True rolled' (ds @ [(pos, msg, Some s)]))
    \<or> r = Err DurabilityUnknown \<and> jr_poisoned j \<and> cut_off blake2s ctx pk True ds (pos, msg, Some s) (jr_file j)"
  using reserve_entry_reserved [OF assms(1), of blake2s ctx pk pos msg "Some s" io_activate io_write] assms(2)
  by (auto simp: reserve_protected_def elim: reserved.cases)

theorem journal_refinement_witness:
  "jr_poisoned (sample_cut_journal 3)
     \<and> cut_off sample_sum sample_ctx 7 True [] (sample_position, 77, Some sample_safety) (jr_file (sample_cut_journal 3))"
proof -
  have "\<not> jr_poisoned sample_journal" by (simp add: sample_journal_def)
  with journal_refinement [OF sample_renderable sample_reserve_cut(1) [of 3, unfolded sample_journal_def]]
    sample_reserve_cut(2) [of 3] show ?thesis by (auto simp: sample_journal_def)
qed

text \<open>C4. Crash recovery. When a reservation fails with \<open>DurabilityUnknown\<close> and the journal can be reopened from what the
failed write left in the file, the reopened journal is the one of the log before the decision or the one after it. Past the record limit a slot is
overwritten in place; there the digest must not collide on the mixed slot contents.\<close>

theorem journal_crash_recovery:
  assumes r: "renderable True rolled ds"
    and cut: "reserve_protected blake2s io_activate io_write pos msg s (render blake2s ctx pk True rolled ds)
      = (Err DurabilityUnknown, j)"
    and inj: "MAX_JOURNAL_RECORDS \<le> length ds \<Longrightarrow>
      inj_on blake2s (torn_slot_messages blake2s ctx pk ds (pos, msg, Some s))"
    and opened: "journal_open blake2s True ctx pk (jr_file j) = Ok j'"
  shows "\<exists>rolled' es. (es = ds \<or> es = ds @ [(pos, msg, Some s)]) \<and> renderable True rolled' es
    \<and> j' = render blake2s ctx pk True rolled' es"
proof -
  have "reserved blake2s ctx pk True rolled ds (pos, msg, Some s) (Err DurabilityUnknown, j)"
    using reserve_entry_reserved [OF r, of blake2s ctx pk pos msg "Some s" io_activate io_write] cut
    by (simp add: reserve_protected_def)
  then show ?thesis
  proof cases
    case refused
    with r opened journal_open_render [OF r] show ?thesis by auto
  next
    case (failed f)
    with inj opened show ?thesis using journal_open_cut_off [of blake2s ctx pk True ds "(pos, msg, Some s)" f j'] by auto
  qed
qed

theorem journal_crash_recovery_witness:
  "\<exists>rolled es. (es = [] \<or> es = [] @ [(sample_position, 77, Some sample_safety)]) \<and> renderable True rolled es
     \<and> sample_journal = render sample_sum sample_ctx 7 True rolled es"
proof (rule journal_crash_recovery [OF sample_renderable sample_reserve_cut(1) [of 0, unfolded sample_journal_def]])
  show "journal_open sample_sum True sample_ctx 7 (jr_file (sample_cut_journal 0)) = Ok sample_journal"
    using journal_open_render [OF sample_renderable, of sample_sum sample_ctx 7]
    by (simp add: sample_reserve_cut(3) sample_journal_def)
qed (simp add: MAX_JOURNAL_RECORDS_def)

text \<open>C5. Rollback detection. A journal restored to a state with fewer decisions than its anchor witnessed is refused with
\<open>StalePosition\<close>. When the pair is accepted, the anchor held the state of the journal or the one before its last decision, and the opened
signer carries an anchor that holds the state of the journal.\<close>

theorem anchor_detects_rollback:
  fixes blake2s :: "byte list \<Rightarrow> hash256" and ed :: ed25519 and ctx :: signing_context and seed :: bytes32
    and ds :: "decision list"
  defines "pk \<equiv> sk_public ed seed"
  defines "ident \<equiv> journal_identity blake2s ctx pk True"
  defines "opened \<equiv> \<lambda>rolled a b. signer_open_with_anchor blake2s ed True True IoOk ctx seed
    (jr_file (render blake2s ctx pk True rolled ds)) (an_file (anchor_of blake2s ctx pk ident a b))"
  assumes "renderable True rolled ds" and "pair_ok a b" and "ctx_genesis ctx \<noteq> 0"
  shows "(js_sequence (slots_latest a b) > of_nat (length ds) \<longrightarrow> opened rolled a b = Err StalePosition)
    \<and> (\<forall>sg. opened rolled a b = Ok sg \<longrightarrow>
        (slots_latest a b = log_state blake2s ident ds
          \<or> ds \<noteq> [] \<and> slots_latest a b = log_state blake2s ident (butlast ds))
        \<and> (\<exists>a' b'. pair_ok a' b' \<and> sg_anchor sg = Some (anchor_of blake2s ctx pk ident a' b')
            \<and> slots_latest a' b' = log_state blake2s ident ds))"
  using open_with_anchor_log [OF assms(4-6), of blake2s ed seed] unfolding opened_def ident_def pk_def by blast

theorem anchor_detects_rollback_witness:
  "signer_open_with_anchor sample_sum sample_ed True True IoOk sample_ctx 7
     (jr_file (render sample_sum sample_ctx (sk_public sample_ed 7) True False []))
     (an_file (anchor_of sample_sum sample_ctx (sk_public sample_ed 7)
        (journal_identity sample_sum sample_ctx (sk_public sample_ed 7) True) sample_state sample_state))
   = Err StalePosition"
proof -
  have "js_sequence (slots_latest sample_state sample_state) > of_nat (length ([] :: decision list))"
    by (simp add: slots_latest_def sample_state_def log_state_def)
  moreover have "ctx_genesis sample_ctx \<noteq> 0" by (simp add: sample_ctx_def)
  ultimately show ?thesis
    using anchor_detects_rollback [OF sample_renderable sample_pair_ok, of sample_ctx sample_sum sample_ed 7] by blast
qed

text \<open>C6. Progress. Take a signer that was provisioned, or opened on the journal of any log: without an anchor, with a new anchor, or
with any anchor file that is accepted (\<open>signer_started\<close>). A validator that \<open>LocalBft::new\<close> starts or resumes on it
is never stuck while storage works: the proposal, prevote and precommit timeouts of each round take it to the next one, for any
number of rounds, with its lock unchanged. The root of the committee must not be the zero digest, which the signer refuses, and the journal sequence
(64 bits) and the round (32 bits) must have room for these rounds.\<close>

theorem round_progress:
  assumes "signer_started blake2s ed ctx seed ds sg" and "local_new ac sg genesis = Ok lb" and "ac_root ac \<noteq> 0"
    and "length ds + 2 * Suc n < 2 ^ 64" and "unat (lb_round lb) + Suc n < 2 ^ 32"
  shows "\<exists>sg'. (round_timeouts blake2s ed io_fine ^^ Suc n) lb
    = lb\<lparr>lb_signer := sg', lb_round := lb_round lb + of_nat (Suc n), lb_step := AwaitingProposal\<rparr>"
proof -
  obtain rolled where sg: "renderable True rolled ds" "sg_journal sg = render blake2s ctx (sk_public ed seed) True rolled ds"
    "anchor_follows blake2s ctx (sk_public ed seed) ds (sg_anchor sg)"
    using signer_started_current [OF assms(1)] by blast
  from local_new_in_step [OF assms(2) sg(2,1,3) assms(3)] assms(4,5) show ?thesis by (intro rounds_advance)
qed

theorem round_progress_witness:
  "\<exists>sg'. (round_timeouts sample_sum sample_ed io_fine ^^ Suc 4) (sample_node sample_anchored)
     = (sample_node sample_anchored)\<lparr>lb_signer := sg', lb_round := lb_round (sample_node sample_anchored) + of_nat (Suc 4),
         lb_step := AwaitingProposal\<rparr> \<and> sg_anchor sample_anchored \<noteq> None"
proof -
  have "sg_anchor sample_anchored \<noteq> None" by (simp add: sample_anchored_def Let_def)
  moreover have "\<exists>sg'. (round_timeouts sample_sum sample_ed io_fine ^^ Suc 4) (sample_node sample_anchored)
     = (sample_node sample_anchored)\<lparr>lb_signer := sg', lb_round := lb_round (sample_node sample_anchored) + of_nat (Suc 4),
         lb_step := AwaitingProposal\<rparr>"
    by (rule round_progress [OF sample_anchored_started sample_anchored_new]) (simp_all add: sample_com_def sample_node_def)
  ultimately show ?thesis by blast
qed

text \<open>C7. The journal never blocks a safe decision: when the writes succeed, a reservation of a decision that may follow the log
(higher position, same committee, lock kept or advanced) returns, and the journal then stands for the log with the decision, also when the
record limit is reached and the rollover slots take over.\<close>

theorem journal_accepts:
  assumes "renderable True rolled ds" and "follows True (last_opt None ds) (pos, msg, Some s)"
    and "Suc (length ds) < 2 ^ 64"
  shows "\<exists>rolled'. renderable True rolled' (ds @ [(pos, msg, Some s)]) \<and>
    reserve_protected blake2s IoOk IoOk pos msg s (render blake2s ctx pk True rolled ds)
      = (Ok (), render blake2s ctx pk True rolled' (ds @ [(pos, msg, Some s)]))"
  by (rule reserve_protected_accepts [OF assms])

theorem journal_accepts_witness:
  "\<exists>rolled'. renderable True rolled' ([] @ [(sample_position, 77, Some sample_safety)]) \<and>
    reserve_protected sample_sum IoOk IoOk sample_position 77 sample_safety (render sample_sum sample_ctx 7 True False [])
      = (Ok (), render sample_sum sample_ctx 7 True rolled' ([] @ [(sample_position, 77, Some sample_safety)]))"
  by (rule journal_accepts [OF sample_renderable sample_follows]) simp

text \<open>C8. A finality certificate is accepted by an authenticated committee exactly when its signers are strictly ascending, its context is that of the committee and header, every signature verifies and the signers hold strictly more than two thirds of the total power.\<close>

theorem certificate_check:
  assumes "auth_committee_new blake2s ed chain_id c keys = Ok ac"
  shows "verify_certificate blake2s ed hst ac cert header = Ok () \<longleftrightarrow>
    wire_certificate cert \<and> hdr_height header = ac_height ac \<and> hdr_committee_root header = ac_root ac
    \<and> fc_chain_id cert = ac_chain_id ac \<and> fc_height cert = ac_height ac \<and> fc_committee_root cert = ac_root ac
    \<and> fc_block cert = header_compute_hash blake2s header
    \<and> quorum_votes blake2s ed ac (fc_round cert) Precommit (fc_block cert)
        (map (certificate_vote cert) (fc_signatures cert))"
  by (rule verify_certificate_Ok [OF committee_ok_new [OF assms]])

theorem certificate_check_witness:
  "verify_certificate sample_hash sample_ed sample_host sample_ac sample_certificate sample_header = Ok ()"
  unfolding certificate_check [OF sample_ac_new] sample_quorum
  by (simp add: wire_certificate_def sample_certificate_def sample_header_def sample_ac_def
      MAX_COMMITTEE_MEMBERS_def certificate_vote_def)

text \<open>C9. The Trocto compiler, on any bytes. Its recursive descent over the tokens is total: indexing never fails and the fuel
of the model (two units for each token) is never used up. A program it accepts is well typed (\<open>program_ok\<close>): version one refers only to
earlier values; version two has one type for each register and local, jumps inside the code, a last
instruction that returns, and respects the limits on code, registers, locals and state keys.\<close>

theorem compiler_accepts_typed:
  "case compile blake2s source of Inl e \<Rightarrow> compile_error e | Inr g \<Rightarrow> program_ok g"
  by (rule compile_ok)

text \<open>C10. Evaluation of a compiled program, for any input, context and budget. The evaluator returns (loops are
cut by the fuel that every backward jump costs), it never indexes out of bounds, and a result uses no more fuel than
given, writes only the slots that the context grants and leaves every other slot as it was. It reports an invalid context
exactly when the context does not fit the keys of the program. With local interruption the evaluator gives up or returns the same result.\<close>

theorem contract_evaluation_ends:
  assumes "compile blake2s source = Ok g" and "length (cc_caller c) = 4"
  shows "\<exists>r. evaluate_contract g input c fuel = Some (Some r)
    \<and> (\<forall>x. r = Ok x \<longrightarrow> ce_fuel_used x \<le> fuel \<and> length (ce_events x) \<le> MAX_EVENTS \<and> slots_ok c (ce_state x) (ce_writes x))
    \<and> (r = Err InvalidContext \<longleftrightarrow> context_validate c (state_keys g) \<noteq> Ok ())
    \<and> evaluate_contract_with_interrupt g input c fuel interrupt \<in> {Some (Some (Ok None)), Some (Some (map_sum id Some r))}"
proof -
  have g: "program_ok g" using compile_ok [of blake2s source] assms(1) by simp
  from evaluate_contract_ends [OF this assms(2), of input fuel] obtain r where
    r: "evaluate_contract g input c fuel = Some (Some r)" "\<forall>x. r = Ok x \<longrightarrow> execution_ok c fuel x"
      "r = Err InvalidContext \<longleftrightarrow> context_validate c (state_keys g) \<noteq> Ok ()" by blast
  from evaluate_contract_interrupt [OF g assms(2) r(1), of interrupt] r show ?thesis
    by (auto simp: execution_ok_def)
qed

theorem contract_evaluation_ends_witness:
  "\<exists>r. evaluate_contract loop_program 3 context_default 100 = Some (Some r) \<and> r \<noteq> Err InvalidContext"
proof -
  have c: "length (cc_caller context_default) = 4" "context_validate context_default (state_keys loop_program) = Ok ()"
    by (simp_all add: context_default_def context_validate_def state_keys_def loop_program_def MAX_STATE_KEYS_def)
  from contract_evaluation_ends [OF loop_compiles c(1), of 3 100 "\<lambda>_. False"] c(2) show ?thesis by auto
qed

text \<open>C11. Blocks of payments. If \<open>execute_payments\<close> commits, the balances of all accounts sum up to what they were less
one unit of fee for each payment, every account has advanced its nonce by the payments it sent, the payments of a sender
carry consecutive nonces, and the new state is the old one with the diffs of the outputs applied. If it
fails, the database is unchanged.\<close>

theorem payments_conserve:
  assumes "state_ok blake2s db" and "execute_payments blake2s ed db txs parent ctx capacity = (r, db')"
  shows "case r of
      Inl e \<Rightarrow> db' = db
    | Inr (outs, root) \<Rightarrow> state_ok blake2s db' \<and> root = ms_root db'
        \<and> state_map db' = fold apply_to (map to_diff outs) (state_map db)
        \<and> total_supply (state_map db') + length txs = total_supply (state_map db)
        \<and> (\<forall>a. nonce_of (state_map db') a = nonce_of (state_map db) a + sent_by a txs)
        \<and> (\<forall>i < length txs. unat (tx_nonce (txs ! i))
             = nonce_of (state_map db) (tx_sender (txs ! i)) + sent_by (tx_sender (txs ! i)) (take i txs))"
proof (cases r)
  case (Inl e)
  with assms(2) show ?thesis by (simp add: execute_payments_Err)
next
  case (Inr x)
  obtain outs root where x: "x = (outs, root)" by (cases x)
  from execute_payments_block [OF assms(1) assms(2) [unfolded Inr x]] show ?thesis unfolding Inr x by simp
qed

theorem payments_conserve_witness:
  "\<exists>db'. state_ok sample_hash db' \<and> total_supply (state_map db') + 1 = total_supply (state_map pay_state)
     \<and> nonce_of (state_map db') pay_sender = nonce_of (state_map pay_state) pay_sender + 1"
proof -
  obtain db' where "execute_payments sample_hash sample_ed pay_state [pay_tx 0 5] (ms_root pay_state) pay_ctx pay_cap = (Ok ([pay_output], ms_root db'), db')"
    using pay_commits by blast
  from payments_conserve [OF pay_state_ok this] show ?thesis by (auto simp: sent_by_def pay_tx_def)
qed

text \<open>C12. The state tree refines the map. On a state that stands for a bounded map, \<open>commit\<close> refuses another parent root, refuses
diffs with which a key, a value, the number of entries or the snapshot would leave the bounds, and otherwise yields the
tree and root that are built from scratch from the updated map, though it shares the unchanged subtrees.\<close>

theorem state_commit_refines:
  assumes "map_bounded data"
  shows "state_commit blake2s (state_of blake2s data) parent diffs =
    (if parent \<noteq> tree_hash blake2s (tree_from_map blake2s data) then (Err StaleSnapshot, state_of blake2s data)
     else if \<not> changes_fit data (all_changes diffs) then (Err LimitExceeded, state_of blake2s data)
     else (let data' = fold apply_to diffs data in
       (Ok (tree_hash blake2s (tree_from_map blake2s data')), state_of blake2s data')))
    \<and> (changes_fit data (all_changes diffs) \<longrightarrow> map_bounded (fold apply_to diffs data))"
proof
  show "changes_fit data (all_changes diffs) \<longrightarrow> map_bounded (fold apply_to diffs data)"
    unfolding all_changes_apply_to [symmetric] using changes_fit_bounded [OF assms] by blast
qed (simp add: state_commit_def state_prepare_stage [OF assms] stage_iff [OF assms] all_changes_apply_to Let_def)

theorem state_commit_refines_witness:
  "state_commit sample_hash (state_of sample_hash []) (empty_root sample_hash) [diff_put [1] [2] diff_new]
     = (Ok (tree_hash sample_hash (tree_from_map sample_hash [([1], [2])])), state_of sample_hash [([1], [2])])"
proof -
  have "changes_fit [] (all_changes [diff_put [1] [2] diff_new])"
    using pay_changes_fit [of "[]" "[Put [1] [2]]"] by (simp add: diff_put_def diff_new_def)
  then show ?thesis
    using state_commit_refines [OF map_bounded_Nil, of sample_hash "empty_root sample_hash" "[diff_put [1] [2] diff_new]"]
    by (simp add: diff_put_def diff_new_def apply_to_def tree_hash_def tree_len_def empty_root_def Let_def)
qed

text \<open>C13. Value proofs are sound. If any proof, however it was made, verifies against the root of a state, then it yields what the
state holds under the key, provided the digest does not collide on the messages hashed for the tree and for the proof.\<close>

theorem value_proofs_sound:
  assumes "state_ok blake2s s" and "value_proof_verify blake2s p (ms_root s) key = Ok r"
    and "inj_on blake2s (set (tree_messages blake2s (state_map s)) \<union> set (value_proof_messages blake2s p))"
  shows "r = bt_get (state_map s) key"
  using assms by (rule value_proof_verify_sound)

theorem value_proofs_sound_witness:
  "value_proof_verify sample_hash (Absent \<lparr>sa_lower = None, sa_upper = None\<rparr>) (ms_root (state_of sample_hash [])) [1] = Ok None
   \<and> None = bt_get (state_map (state_of sample_hash [])) [1]"
proof
  show v: "value_proof_verify sample_hash (Absent \<lparr>sa_lower = None, sa_upper = None\<rparr>) (ms_root (state_of sample_hash [])) [1] = Ok None"
    by (simp add: absence_verify_def tree_hash_def tree_len_def empty_root_def MAX_STATE_KEY_BYTES_def)
  show "None = bt_get (state_map (state_of sample_hash [])) [1]"
    by (rule value_proofs_sound [OF state_ok_of [OF map_bounded_Nil] v]) (simp add: inj_on_def tree_messages_def absence_messages_def level_messages.simps)
qed

text \<open>C14. Value proofs are complete. For each bounded key of a valid state, \<open>create\<close> makes a proof, and \<open>verify\<close> accepts it against
the root of the state and returns what is stored under the key.\<close>

theorem value_proofs_complete:
  assumes "state_ok blake2s s" and "length key \<le> MAX_STATE_KEY_BYTES"
  shows "\<exists>p. value_proof_create s key = Ok p \<and> value_proof_verify blake2s p (ms_root s) key = Ok (bt_get (state_map s) key)"
  using assms by (rule value_proof_create_verifies)

theorem value_proofs_complete_witness:
  "\<exists>p. value_proof_create pay_state [1] = Ok p \<and> value_proof_verify sample_hash p (ms_root pay_state) [1] = Ok (bt_get (state_map pay_state) [1])"
  by (rule value_proofs_complete [OF pay_state_ok]) (simp add: MAX_STATE_KEY_BYTES_def)

text \<open>C15. Waves. The plan of \<open>GreedyScheduler\<close> groups the transactions by wave numbers, in block order inside a wave, and the
wave of each transaction is one more than the largest wave of an earlier transaction that it conflicts with, or the first: no conflict inside a
wave, no conflict against the order, and no transaction waits without need. Two transactions conflict exactly if one
sender made both or their state leases conflict.\<close>

theorem greedy_plan_optimal:
  "(\<exists>ws. length ws = length txs \<and> greedy_plan txs = plan_of ws
     \<and> (\<forall>j < length txs. ws ! j = next_wave ((!) ws ` {i. i < j \<and> tx_conflict (txs ! i) (txs ! j)})))
   \<and> (\<forall>a b. tx_conflict a b = (tx_sender a = tx_sender b \<or> conflicts_with (greedy_lease a) (greedy_lease b)))"
  using greedy_plan_earliest [of txs] tx_conflict_lease unfolding earliest_def by blast

theorem greedy_plan_optimal_witness:
  "\<exists>ws. length ws = 2 \<and> greedy_plan [pay_tx 0 5, pay_tx 1 6] = plan_of ws \<and> ws ! 1 = next_wave {ws ! 0}"
proof -
  let ?txs = "[pay_tx 0 5, pay_tx 1 6]"
  have "tx_conflict (pay_tx 0 5) (pay_tx 1 6)" by (simp add: tx_conflict_def pay_tx_def)
  then have one: "{i. i < 1 \<and> tx_conflict (?txs ! i) (?txs ! 1)} = {0}" by auto
  obtain ws where ws: "length ws = length ?txs" "greedy_plan ?txs = plan_of ws"
      "\<forall>j < length ?txs. ws ! j = next_wave ((!) ws ` {i. i < j \<and> tx_conflict (?txs ! i) (?txs ! j)})"
    using conjunct1 [OF greedy_plan_optimal [of ?txs]] by blast
  from ws(3) [rule_format, of 1] have "ws ! 1 = next_wave {ws ! 0}" unfolding one by simp
  with ws(1,2) show ?thesis by (intro exI [of _ ws]) simp
qed

text \<open>C16. Dependencies. The list of each transaction is strictly increasing, names only earlier transactions that conflict with it, and every earlier
conflicting transaction is reached through a chain of listed dependencies: running a transaction once its listed
dependencies are done respects every conflict.\<close>

theorem dependencies_generate:
  assumes "j < length txs"
  shows "sorted_wrt (<) (dependencies txs ! j)
    \<and> (\<forall>i \<in> set (dependencies txs ! j). i < j \<and> tx_conflict (txs ! i) (txs ! j))
    \<and> (\<forall>i < j. tx_conflict (txs ! i) (txs ! j) \<longrightarrow> (\<lambda>a b. b < length txs \<and> a \<in> set (dependencies txs ! b))\<^sup>+\<^sup>+ i j)"
proof (intro conjI ballI allI impI)
  show "sorted_wrt (<) (dependencies txs ! j)" using assms by (rule dependencies_direct)
next
  fix i assume "i \<in> set (dependencies txs ! j)"
  then have d: "direct txs i j" using dependencies_direct(1) [OF assms] by simp
  from direct_conflict [OF d] show "i < j" "tx_conflict (txs ! i) (txs ! j)" by simp_all
next
  fix i assume "i < j" "tx_conflict (txs ! i) (txs ! j)"
  then have "(direct txs)\<^sup>+\<^sup>+ i j" by (rule conflict_direct)
  then show "(\<lambda>a b. b < length txs \<and> a \<in> set (dependencies txs ! b))\<^sup>+\<^sup>+ i j" using assms
  proof (induction rule: tranclp_induct)
    case (base y)
    then show ?case using dependencies_direct(1) by (intro tranclp.r_into_trancl) simp
  next
    case (step y z)
    have yz: "y < z" "z < length txs \<and> y \<in> set (dependencies txs ! z)"
      using step direct_conflict dependencies_direct(1) by auto
    have "(\<lambda>a b. b < length txs \<and> a \<in> set (dependencies txs ! b))\<^sup>+\<^sup>+ i y" using step.IH step.prems yz(1) by simp
    then show ?case by (rule tranclp.trancl_into_trancl) (rule yz(2))
  qed
qed

theorem dependencies_generate_witness:
  "(\<lambda>a b. b < 2 \<and> a \<in> set (dependencies [pay_tx 0 5, pay_tx 1 6] ! b))\<^sup>+\<^sup>+ 0 1"
proof -
  have "tx_conflict ([pay_tx 0 5, pay_tx 1 6] ! 0) ([pay_tx 0 5, pay_tx 1 6] ! 1)" by (simp add: tx_conflict_def pay_tx_def)
  with dependencies_generate [of 1 "[pay_tx 0 5, pay_tx 1 6]"] show ?thesis by (simp add: numeral_2_eq_2)
qed

text \<open>C17. The mempool. After any sequence of insertions (accepted or refused), removals, expiries and batch removals, the entries
are indexed by their sender and nonce, no id occurs twice, the id set and byte count are those of the entries, and
both limits hold; in particular \<open>remove\_expired\<close> keeps exactly the transactions that may still be included.\<close>

theorem mempool_consistent:
  assumes "pool_run limits m"
  shows "mp_limits m = limits \<and> bt_ok (mp_entries m)
    \<and> (\<forall>(k, e, n) \<in> set (mp_entries m). k = (tx_sender (po_transaction e), tx_nonce (po_transaction e)))
    \<and> distinct (map (\<lambda>(k, e, n). po_id e) (mp_entries m)) \<and> mp_ids m = (\<lambda>(k, e, n). po_id e) ` set (mp_entries m)
    \<and> mp_bytes m = (\<Sum>(k, e, n) \<leftarrow> mp_entries m. n)
    \<and> length (mp_entries m) \<le> max_transactions limits \<and> mp_bytes m \<le> max_pool_bytes limits
    \<and> mp_entries (remove_expired h m) = filter (\<lambda>(k, e, n). h \<le> tx_expires_at (po_transaction e)) (mp_entries m)"
proof -
  have ok: "pool_ok m" "mp_limits m = limits" using pool_run_ok [OF assms] by simp_all
  then show ?thesis unfolding remove_expired_eq [OF ok(1)] by (simp add: pool_ok_def)
qed

theorem mempool_consistent_witness:
  "let limits = \<lparr>max_transactions = 2, max_pool_bytes = 1000\<rparr>;
       e = \<lparr>po_id = 8, po_transaction = pay_tx 0 5, po_priority = 3, po_sequence = 1\<rparr>;
       m = snd (pool_insert e 379 \<lparr>mp_limits = limits, mp_entries = [], mp_ids = {}, mp_bytes = 0\<rparr>)
   in mp_bytes m = 379 \<and> mp_ids m = {8} \<and> mp_entries (remove_expired 10 m) = []"
proof -
  let ?l = "\<lparr>max_transactions = 2, max_pool_bytes = 1000\<rparr>"
  let ?e = "\<lparr>po_id = 8, po_transaction = pay_tx 0 5, po_priority = 3, po_sequence = 1\<rparr>"
  let ?m0 = "\<lparr>mp_limits = ?l, mp_entries = [], mp_ids = {}, mp_bytes = 0\<rparr>"
  have run: "pool_run ?l (snd (pool_insert ?e 379 ?m0))"
    by (intro pool_run.inserted pool_run.opened) (simp add: mempool_new_def)
  from mempool_consistent [OF run, of 10] show ?thesis
    by (simp add: Let_def pool_insert_def checked_add_usize_def usize_limit_def bt_contains_def pay_tx_def)
qed

text \<open>C18. Selection for a block. \<open>select\<close> returns a subsequence of the candidates, which are ordered by descending priority, then arrival, then id;
it takes at most \<open>n\<close>, their resource limits add up without overflow within the capacity, and while there was room in the
count every candidate that was left out did not fit beside the choices made before it.\<close>

theorem mempool_selection:
  fixes m n capacity
  defines "chosen \<equiv> pool_select m n capacity"
  shows "subseq chosen (candidates m) \<and> length chosen \<le> n
    \<and> (\<exists>u. pool_reserved resources_zero chosen = Some u \<and> fits_in u capacity)
    \<and> (\<forall>xs e ys. candidates m = xs @ e # ys \<longrightarrow>
        (\<forall>f \<in> set ys. po_priority f \<le> po_priority e \<and> (po_priority f = po_priority e \<longrightarrow> (po_sequence e, po_id e) \<le> (po_sequence f, po_id f)))
        \<and> (length chosen < n \<longrightarrow> e \<notin> set chosen \<longrightarrow>
            (\<exists>u. pool_reserved resources_zero (select_from capacity n resources_zero xs) = Some u
               \<and> \<not> (\<exists>w. checked_add_resources u (tx_resource_limit (po_transaction e)) = Some w \<and> fits_in w capacity))))"
proof (intro conjI allI impI ballI)
  show "subseq chosen (candidates m)" "length chosen \<le> n"
    by (simp_all add: chosen_def pool_select_def select_from_subseq select_from_length)
  show "\<exists>u. pool_reserved resources_zero chosen = Some u \<and> fits_in u capacity"
    unfolding chosen_def pool_select_def by (rule select_from_reserved) (simp add: fits_in_def resources_zero_def)
next
  fix xs e ys f assume "candidates m = xs @ e # ys" "f \<in> set ys"
  from candidates_sorted [OF this] show "po_priority f \<le> po_priority e"
    and "po_priority f = po_priority e \<Longrightarrow> (po_sequence e, po_id e) \<le> (po_sequence f, po_id f)" by blast+
next
  fix xs e ys assume "candidates m = xs @ e # ys" "length chosen < n" "e \<notin> set chosen"
  then show "\<exists>u. pool_reserved resources_zero (select_from capacity n resources_zero xs) = Some u
      \<and> \<not> (\<exists>w. checked_add_resources u (tx_resource_limit (po_transaction e)) = Some w \<and> fits_in w capacity)"
    using select_from_greedy [of capacity n resources_zero xs e ys] by (simp add: chosen_def pool_select_def)
qed

theorem mempool_selection_witness:
  "let e = \<lparr>po_id = 8, po_transaction = pay_tx 0 5, po_priority = 3, po_sequence = 1\<rparr>;
       m = \<lparr>mp_limits = \<lparr>max_transactions = 2, max_pool_bytes = 1000\<rparr>, mp_entries = [((pay_sender, 0), e, 379)], mp_ids = {8}, mp_bytes = 379\<rparr>
   in pool_select m 4 pay_cap = [e] \<and> subseq (pool_select m 4 pay_cap) (candidates m)"
proof -
  let ?e = "\<lparr>po_id = 8, po_transaction = pay_tx 0 5, po_priority = 3, po_sequence = 1\<rparr>"
  let ?m = "\<lparr>mp_limits = \<lparr>max_transactions = 2, max_pool_bytes = 1000\<rparr>, mp_entries = [((pay_sender, 0), ?e, 379)], mp_ids = {8}, mp_bytes = 379\<rparr>"
  have "pool_select ?m 4 pay_cap = [?e]"
    by (simp add: pool_select_def candidates_def bt_values_def select_from.simps checked_add_resources_def checked_add_def
      resources_zero_def pay_tx_def pay_cap_def)
  with mempool_selection [of ?m 4 pay_cap] show ?thesis unfolding Let_def by blast
qed

text \<open>C19. Invariant of the finality engine. Whatever votes it receives and however its rounds advance, the recorded votes all verify, the
recorded power of each value is exactly the power of its voters (no overflow), evidence verifies, a stored certificate passes the
independent check, and without a certificate no block has a precommit quorum.\<close>

theorem engine_tallies:
  assumes "engine_reachable blake2s ed ac e" and "committee_ok blake2s ed ac"
  shows "fe_context e = ac \<and> votes_ok blake2s ed e \<and> evidence_ok blake2s ed e
    \<and> (\<forall>ph b. recorded_power e ph b = set_power ac (voters_for e ph b))
    \<and> (case fe_certificate e of
         Some c \<Rightarrow> certificate_ok blake2s ed ac c \<and> fc_round c = fe_round e
       | None \<Rightarrow> \<forall>b. 3 * set_power ac (voters_for e Precommit (Some b)) \<le> 2 * unat (ac_total ac))"
  using engine_reachable_ok [OF assms] by (auto simp: engine_ok_def power_ok_def)

theorem engine_tallies_witness:
  "fe_context sample_engine = sample_com 5 \<and> certificate_ok sample_sum sample_ed (sample_com 5) sample_cert"
proof -
  have ok: "committee_ok sample_sum sample_ed (sample_com 5)" using sample_committees by (simp add: committees_ok_def)
  have "engine_reachable sample_sum sample_ed (sample_com 5) sample_engine"
    unfolding sample_engine_def engine_new_def by (intro engine_reachable.intros)
  from engine_tallies [OF this ok] sample_engine_certificate show ?thesis by simp
qed

text \<open>C20. Composition of the engine with the independent check: a certificate assembled by any reachable engine is accepted by
\<open>AuthenticatedCommittee::verify_certificate\<close> for a header of that height and committee that hashes to the certified block.\<close>

theorem engine_certificate_verifies:
  assumes "engine_reachable blake2s ed ac e" and "committee_ok blake2s ed ac" and "fe_certificate e = Some c"
    and "hdr_height header = ac_height ac" "hdr_committee_root header = ac_root ac"
    and "header_compute_hash blake2s header = fc_block c"
  shows "verify_certificate blake2s ed hst ac c header = Ok ()"
proof -
  have "certificate_ok blake2s ed ac c"
    using engine_reachable_ok [OF assms(1,2)] assms(3) by (auto simp: engine_ok_def)
  then show ?thesis by (rule certificate_ok_verifies [OF assms(2) _ assms(4-6)])
qed

theorem engine_certificate_verifies_witness:
  "verify_certificate sample_sum sample_ed sample_host (sample_com 5) sample_cert sample_header = Ok ()"
proof (rule engine_certificate_verifies [OF _ _ sample_engine_certificate])
  show "engine_reachable sample_sum sample_ed (sample_com 5) sample_engine"
    unfolding sample_engine_def engine_new_def by (intro engine_reachable.intros)
  show "committee_ok sample_sum sample_ed (sample_com 5)" using sample_committees by (simp add: committees_ok_def)
qed (simp_all add: sample_header_def sample_com_def sample_cert_def, simp add: sample_block_def sample_header_def)

text \<open>C21. The batched check of a certificate (cheap checks first, then all signatures in parallel chunks, with whatever threads the host
grants) returns the same result, with the same error, as checking the votes one after the other.\<close>

theorem batched_verification:
  "batch_decision ed hst quorum check votes = serial_decision ed quorum check votes"
  by (rule batch_decision_serial)



text \<open>C23. Snapshots have one encoding. The decoder accepts a byte string as a snapshot of a state exactly when the state is valid and
the bytes are its export.\<close>

theorem snapshot_roundtrip:
  "decode_snapshot blake2s bytes = Ok s \<longleftrightarrow> state_ok blake2s s \<and> bytes = export_snapshot s"
proof
  assume "decode_snapshot blake2s bytes = Ok s"
  from decode_snapshot_sound [OF this] show "state_ok blake2s s \<and> bytes = export_snapshot s" by (auto simp: state_ok_of)
next
  assume "state_ok blake2s s \<and> bytes = export_snapshot s"
  then have "map_bounded (state_map s)" "s = state_of blake2s (state_map s)" "bytes = export_snapshot s" by (auto simp: state_ok_def)
  with decode_snapshot_export [of "state_map s" blake2s] show "decode_snapshot blake2s bytes = Ok s" by metis
qed

text \<open>C24. The read cache. In every state that any number of workers can bring the cache into, a read returns what the snapshot returns for the
key, whether or not the locks are available and whatever the other workers insert between its lookup and its insertion, and
leaves such a state. The cache holds at most its bound of entries, its byte counter is the number of bytes of the keys and values it
really holds, and these are within the byte bound. An entry that fits is kept: the next lookup finds it.\<close>

theorem snapshot_cache_transparent:
  assumes "cache_run parent c" and "cache_run parent (others c)"
  shows "fst (cached_get parent readable writable others c key) = parent key
    \<and> cache_run parent (snd (cached_get parent readable writable others c key))
    \<and> length (sc_values c) \<le> CACHE_MAX_ENTRIES
    \<and> sc_bytes c = cached_bytes (sc_values c) \<and> cached_bytes (sc_values c) \<le> CACHE_MAX_BYTES
    \<and> (length (sc_values c) < CACHE_MAX_ENTRIES \<and> cache_lookup True c key = None \<and> cached_bytes ((key, v) # sc_values c) \<le> CACHE_MAX_BYTES
        \<longrightarrow> cache_lookup True (cache_store True key v c) key = Some v)"
proof (intro conjI impI)
  have ok: "cache_ok parent c" by (rule cache_run_ok [OF assms(1)])
  then show "length (sc_values c) \<le> CACHE_MAX_ENTRIES" "sc_bytes c = cached_bytes (sc_values c)" "cached_bytes (sc_values c) \<le> CACHE_MAX_BYTES"
    by (simp_all add: cache_ok_def)
  assume "length (sc_values c) < CACHE_MAX_ENTRIES \<and> cache_lookup True c key = None \<and> cached_bytes ((key, v) # sc_values c) \<le> CACHE_MAX_BYTES"
  with ok show "cache_lookup True (cache_store True key v c) key = Some v"
    by (intro cache_store_hit) (auto simp: cache_lookup_def bt_get_None_iff cache_ok_def cached_bytes_def)
qed (use cached_get_run [where c = c and others = others, OF assms] in auto)

theorem snapshot_cache_transparent_witness:
  "let parent = (\<lambda>_. Ok (Some [9])); empty = \<lparr>sc_values = [], sc_bytes = 0\<rparr>; c = cache_store True [1] (Some [9]) empty in
     fst (cached_get parent True True (cache_store True [2] (Some [9])) c [3]) = Ok (Some [9])
     \<and> sc_bytes c = 2 \<and> cached_bytes (sc_values c) = 2"
proof -
  let ?parent = "\<lambda>_. Ok (Some [9])" and ?c = "cache_store True [1] (Some [9]) \<lparr>sc_values = [], sc_bytes = 0\<rparr>"
  have c: "cache_run ?parent ?c" by (intro cache_run.missed cache_run.empty) simp
  then have "cache_run ?parent (cache_store True [2] (Some [9]) ?c)" by (rule cache_run.missed) simp
  note run = snapshot_cache_transparent [where c = ?c and others = "cache_store True [2] (Some [9])", OF c this, of True True "[3]" None]
  have "sc_bytes ?c = 2" by (simp add: cache_store_def checked_add_usize_def usize_limit_def CACHE_MAX_ENTRIES_def CACHE_MAX_BYTES_def bt_contains_def)
  with run show ?thesis unfolding Let_def by (intro conjI) (blast, assumption, metis)
qed

text \<open>C25. The transaction codec is a bijection between the wire transactions and the accepted byte strings: a byte string decodes to a transaction exactly when the transaction respects the wire limits and the byte string is its encoding.\<close>

theorem transaction_codec:
  assumes "length bs < usize_limit"
  shows "decode_transaction bs = Ok tx \<longleftrightarrow> wire_transaction tx \<and> encode_transaction tx = Some bs"
  by (rule transaction_format.dec_iff [OF assms])

theorem transaction_codec_witness:
  "\<exists>bs. encode_transaction sample_transaction = Some bs \<and> decode_transaction bs = Ok sample_transaction"
proof -
  obtain bs where bs: "encode_transaction sample_transaction = Some bs" "length bs < usize_limit"
    using transaction_format.enc_bounded [of sample_transaction] sample_transaction_wire by blast
  with transaction_codec [OF bs(2)] sample_transaction_wire show ?thesis by blast
qed

text \<open>C26. The codec of finality certificates is canonical: a byte string decodes to a certificate exactly when the certificate has between one and
4096 signatures in strictly ascending voter order and the byte string is its encoding.\<close>

theorem certificate_codec:
  assumes "length bs < usize_limit"
  shows "decode_certificate bs = Ok c \<longleftrightarrow> wire_certificate c \<and> encode_certificate c = Ok bs"
  using certificate_format.dec_iff [OF assms, of c] by (auto simp: certificate_wire_def split: sum.splits)

theorem certificate_codec_witness:
  "\<exists>bs. encode_certificate sample_cert = Ok bs \<and> decode_certificate bs = Ok sample_cert"
proof -
  have wire: "wire_certificate sample_cert" by (simp add: wire_certificate_def sample_cert_def MAX_COMMITTEE_MEMBERS_def)
  then obtain bs where "certificate_wire sample_cert = Some bs" "length bs < usize_limit"
    using certificate_format.enc_bounded [of sample_cert] by blast
  then have bs: "encode_certificate sample_cert = Ok bs" "length bs < usize_limit"
    by (auto simp: certificate_wire_def split: sum.splits)
  with certificate_codec [OF bs(2)] wire show ?thesis by blast
qed

text \<open>C27. \<open>quorum_power\<close> computes on 128-bit words, without overflow for any total, the least power that exceeds two
thirds of the total.\<close>

theorem quorum_bounds:
  "unat (quorum_power t) = 2 * unat t div 3 + 1 \<and> (quorum_power t \<le> p \<longleftrightarrow> 2 * unat t < 3 * unat p)"
  by (simp add: unat_quorum_power quorum_power_le_iff)

text \<open>C28. The cost of resources at given prices is exact: \<open>checked_cost\<close> returns the mathematical sum of the four products, and fails exactly
when that sum does not fit in 64 bits.\<close>

theorem cost_bounds:
  "checked_cost r prices = (if exact_cost r prices < 2 ^ 64 then Some (of_nat (exact_cost r prices)) else None)"
proof (cases "exact_cost r prices < 2 ^ 64")
  case True
  then have "unat (of_nat (exact_cost r prices) :: u64) = exact_cost r prices" by (rule unat_u64_nat)
  with True show ?thesis by (simp add: checked_cost_Some_iff)
next
  case False
  have "checked_cost r prices = None"
  proof (rule ccontr)
    assume "checked_cost r prices \<noteq> None"
    then obtain c :: u64 where "unat c = exact_cost r prices" by (auto simp: checked_cost_Some_iff)
    with False unsigned_less [of c, where ?'a = nat] show False by simp
  qed
  with False show ?thesis by simp
qed

text \<open>C29. Two transaction lists of the same length with the same root are equal, when the digest does not collide on the interior nodes of the two
trees. The length is not part of the root, so it has to be known from elsewhere.\<close>

theorem merkle_binding:
  assumes "length hs = length hs'" and "compute_transactions_root blake2s hs = compute_transactions_root blake2s hs'"
    and "inj_on blake2s (merkle_preimages blake2s hs \<union> merkle_preimages blake2s hs')"
  shows "hs = hs'"
proof (cases "length hs \<le> 1")
  case True
  with assms(1,2) show ?thesis
    by (cases hs; cases hs') (auto simp: compute_transactions_root_def merkle_root_def)
next
  case False
  then have "merkle_reduce blake2s hs ! 0 = merkle_reduce blake2s hs' ! 0"
    using assms(1,2) by (auto simp: compute_transactions_root_def merkle_root_def split: if_splits)
  moreover have "length (merkle_reduce blake2s hs) = 1" "length (merkle_reduce blake2s hs') = 1"
    using False assms(1) length_merkle_reduce [of hs blake2s] length_merkle_reduce [of hs' blake2s] by linarith+
  ultimately have "merkle_reduce blake2s hs = merkle_reduce blake2s hs'" by (intro nth_equalityI) simp_all
  then show ?thesis by (rule merkle_reduce_inject [OF assms(1) _ assms(3)])
qed

theorem merkle_binding_witness:
  "compute_transactions_root sample_hash [3, 4] = compute_transactions_root sample_hash [3, 2 + 2] \<and> [3, 4 :: hash256] = [3, 2 + 2]"
  using merkle_binding [of "[3, 4]" "[3, 2 + 2]" sample_hash] by (simp add: merkle_preimages.simps)

text \<open>C30. The in-memory keystore releases at most one message per key, height, round and phase over any sequence of key generations and
signatures.\<close>

theorem memory_keystore_single:
  assumes "keystore_run blake2s ed released ks"
  shows "single_valued released"
  using keystore_no_equivocation [OF assms] by (auto intro: single_valuedI)

theorem memory_keystore_single_witness:
  "\<exists>rel ks. keystore_run sample_sum sample_ed rel ks \<and> rel = {(([1], 5, 0, 2), 9), (([1], 5, 0, 1), 8)} \<and> single_valued rel"
proof -
  let ?ks = "snd (generate_key sample_sum sample_ed [1] 3 keystore_empty)"
  let ?ks1 = "snd (sign_at_position sample_ed [1] 5 0 1 8 ?ks)"
  have g: "keystore_run sample_sum sample_ed {} ?ks" by (intro keystore_run.intros)
  have s1: "sign_at_position sample_ed [1] 5 0 1 8 ?ks = (Ok 1, ?ks1)"
    by (simp add: sign_at_position_def generate_key_def keystore_empty_def bt_contains_def Let_def sample_ed_def)
  have s2: "sign_at_position sample_ed [1] 5 0 2 9 ?ks1 = (Ok 1, snd (sign_at_position sample_ed [1] 5 0 2 9 ?ks1))"
    by (simp add: sign_at_position_def generate_key_def keystore_empty_def bt_contains_def Let_def sample_ed_def)
  have "keystore_run sample_sum sample_ed {(([1], 5, 0, 2), 9), (([1], 5, 0, 1), 8)}
      (snd (sign_at_position sample_ed [1] 5 0 2 9 ?ks1))"
    using keystore_run.sign [OF keystore_run.sign [OF g s1] s2] .
  with memory_keystore_single show ?thesis by blast
qed

text \<open>C31. Given the completeness of the ECVRF suite for the secret and the input (a proof it produces verifies, and survives its
own encoding), \<open>prove_vrf\<close> returns an output and \<open>verify_vrf\<close> accepts it under the matching public key and
seed.\<close>

theorem vrf_proof_verifies:
  assumes "ecvrf_complete ed vrf sk (be_bytes (vrf_seed blake2s i))"
  shows "\<exists>out. prove_vrf blake2s vrf sk i = Ok out
    \<and> verify_vrf blake2s ed vrf (sk_public ed sk) (vrf_seed blake2s i) out = Ok ()"
  by (rule prove_vrf_verifies [OF assms])

theorem vrf_proof_verifies_witness:
  "\<exists>out. prove_vrf sample_sum sample_vrf 7 sample_vrf_input = Ok out
    \<and> verify_vrf sample_sum sample_ed sample_vrf (sk_public sample_ed 7) (vrf_seed sample_sum sample_vrf_input) out = Ok ()"
  by (rule vrf_proof_verifies [OF sample_vrf_complete])

text \<open>C32. The envelope of VRF outputs is canonical: bytes decode to an output exactly when they are its encoding.\<close>

theorem vrf_envelope:
  "decode_vrf_output vrf bs = Ok out \<longleftrightarrow> encode_vrf_output vrf out = Ok bs"
  by (rule decode_vrf_output_Ok)

text \<open>C33. Double-vote evidence is exact. \<open>DoubleVoteEvidence::from_votes\<close> returns evidence if and only if the two votes agree in
everything but the block and the signature, name different blocks and both verify; the evidence then holds exactly
these votes, the smaller block first, so it is the same for both orders of the arguments. Every receiver decodes its encoding to
the same evidence, and verification accepts it. A pair that is no double vote is refused as an invalid transition.\<close>

theorem evidence_exact:
  "(evidence_from_votes blake2s ed ac v w = Ok e \<longleftrightarrow>
      double_vote v w \<and> {ev_first e, ev_second e} = {v, w} \<and> vote_block (ev_first e) < vote_block (ev_second e)
      \<and> (\<exists>p. verify_vote blake2s ed ac v = Ok p) \<and> (\<exists>p. verify_vote blake2s ed ac w = Ok p))
   \<and> (evidence_from_votes blake2s ed ac v w = Ok e \<longleftrightarrow> evidence_from_votes blake2s ed ac w v = Ok e)
   \<and> (evidence_from_votes blake2s ed ac v w = Ok e \<longrightarrow>
        decode_evidence (encode_evidence e) = Ok e \<and> evidence_verify blake2s ed ac e = Ok ())
   \<and> (\<not> double_vote v w \<longrightarrow> evidence_from_votes blake2s ed ac v w = Err InvalidTransition)"
proof (intro conjI impI)
  show "evidence_from_votes blake2s ed ac v w = Ok e \<longleftrightarrow>
      double_vote v w \<and> {ev_first e, ev_second e} = {v, w} \<and> vote_block (ev_first e) < vote_block (ev_second e)
      \<and> (\<exists>p. verify_vote blake2s ed ac v = Ok p) \<and> (\<exists>p. verify_vote blake2s ed ac w = Ok p)"
    unfolding evidence_from_votes_iff using ordered_evidence_iff [of v w e] by (auto simp only: double_vote_def)
  show "evidence_from_votes blake2s ed ac v w = Ok e \<longleftrightarrow> evidence_from_votes blake2s ed ac w v = Ok e"
    by (rule evidence_from_votes_commute)
  assume "evidence_from_votes blake2s ed ac v w = Ok e"
  then have "evidence_verify blake2s ed ac e = Ok ()" by (auto simp: evidence_from_votes_ordered result_simps)
  moreover then have "same_slot e" by (simp add: evidence_verify_def split: if_splits)
  ultimately show "decode_evidence (encode_evidence e) = Ok e" "evidence_verify blake2s ed ac e = Ok ()"
    using evidence_format.roundtrip [of e] by simp_all
qed (simp add: evidence_from_votes_ordered evidence_verify_def same_slot_ordered)

theorem evidence_exact_witness:
  "\<exists>e. evidence_from_votes sample_sum sample_ed (sample_com 5) (sample_vote Prevote) ((sample_vote Prevote)\<lparr>vote_block := None\<rparr>) = Ok e
     \<and> ev_second e = sample_vote Prevote \<and> decode_evidence (encode_evidence e) = Ok e
     \<and> evidence_from_votes sample_sum sample_ed (sample_com 5) (sample_vote Prevote) (sample_vote Precommit) = Err InvalidTransition"
proof -
  let ?v = "sample_vote Prevote" and ?w = "(sample_vote Prevote)\<lparr>vote_block := None\<rparr>"
  let ?e = "\<lparr>ev_first = ?w, ev_second = ?v\<rparr>"
  have "evidence_from_votes sample_sum sample_ed (sample_com 5) ?v ?w = Ok ?e"
    by (simp add: evidence_from_votes_def evidence_verify_def same_slot_def sample_verify sample_vote_def slot_vote_def
        sample_com_def sample_ed_def)
  moreover have "\<not> double_vote ?v (sample_vote Precommit)" by (simp add: double_vote_def sample_vote_def slot_vote_def)
  ultimately show ?thesis
    using evidence_exact [of sample_sum sample_ed "sample_com 5" ?v ?w ?e]
      evidence_exact [of sample_sum sample_ed "sample_com 5" ?v "sample_vote Precommit" ?e] by auto
qed

text \<open>C34. Value proofs on the wire. \<open>from_bytes\<close> returns a proof exactly for the bytes that \<open>to_bytes\<close> makes of it, for proofs of
presence and of absence.\<close>

theorem value_proof_transport: "value_proof_from_bytes bs = Ok p \<longleftrightarrow> value_proof_to_bytes p = Ok bs"
  by (rule value_proof_codec)

text \<open>C35. Contract payloads have one encoding. \<open>ContractPayload::decode\<close> accepts bytes exactly when they are the encoding of the payload,
its action is within the bounds of code, input and sorted keys, and the bytes fit the limit.\<close>

theorem contract_payload_codec:
  "contract_decode bs = Ok p \<longleftrightarrow> action_ok (cp_action p) \<and> contract_to_bytes p = Some bs \<and> length bs \<le> MAX_CONTRACT_CODE + 45"
  by (rule contract_codec)

text \<open>C36. Well-formed transactions. \<open>encoded\_len\<close> is the length of the canonical encoding, or \<open>None\<close> exactly if there is none or its length does not
fit in \<open>usize\<close>; \<open>validate\_shape\<close> accepts exactly the transactions of the current version whose fields are within
the bounds of the wire format and whose encoding is at most the given number of bytes.\<close>

theorem encoded_length_exact:
  "(encoded_len tx = Some n) = (\<exists>bs. encode_transaction tx = Some bs \<and> n = length bs \<and> length bs < usize_limit)
   \<and> (tx_validate_shape tx max_bytes = Ok u) =
     (wire_transaction tx \<and> (\<exists>bs. encode_transaction tx = Some bs \<and> length bs \<le> max_bytes \<and> length bs < usize_limit))"
  by (simp only: encoded_len_iff tx_validate_shape_Ok simp_thms)

end
